(* ===== verification/Prelude.thy ===== *)
theory Prelude
  imports Main "HOL-Library.Word" "HOL-Library.Product_Lexorder"
begin

text \<open>
  Shared vocabulary of the development: machine types, the result type of operations that may
  abort the process, a Hoare-style predicate on results, C and C++ integer conversions, the
  pieces of the standard library the sources use (\<open>std::vector\<close> reads and writes,
  \<open>std::set\<close> as a strictly sorted list, \<open>std::map\<close> as a partial map) and the generic
  lemmas the component theories rely on.
\<close>

section \<open>Collections of facts\<close>

named_theorems conv_simps \<open>conversions between integer types that do not overflow\<close>
named_theorems runs_simps \<open>evaluation of the predicate on results\<close>
named_theorems inv_defs \<open>well-formedness invariants of the components\<close>

section \<open>Machine types\<close>

type_synonym byte = "8 word"
type_synonym u16 = "16 word"
type_synonym u32 = "32 word"
type_synonym u64 = "64 word"
type_synonym errno = nat
type_synonym fd = int
type_synonym tid = nat
type_synonym addr = nat

section \<open>Operations that may abort\<close>

text \<open>
  Both build configurations of the repository keep \<open>assert\<close> (its \<open>CMakeLists.txt\<close> sets the
  release flags to \<open>-O3 -Wall\<close>, without \<open>NDEBUG\<close>), so a failed assertion ends the process. A
  message of level FATAL ends it too (the destructor of \<open>Logger\<close> calls \<open>abort\<close>), and so does an
  uncaught \<open>std::length_error\<close>. An access outside an object is undefined behaviour.
\<close>

datatype fault = AssertFail | FatalLog | LengthError | Undefined | ExitFailure

type_synonym 'a res = "fault + 'a"

definition bindE :: "'a res \<Rightarrow> ('a \<Rightarrow> 'b res) \<Rightarrow> 'b res" where
  "bindE m f = (case m of Inl e \<Rightarrow> Inl e | Inr x \<Rightarrow> f x)"

definition assertE :: "bool \<Rightarrow> 'a res \<Rightarrow> 'a res" where
  "assertE b m = (if b then m else Inl AssertFail)"

fun foldE :: "('a \<Rightarrow> 's \<Rightarrow> 's res) \<Rightarrow> 'a list \<Rightarrow> 's \<Rightarrow> 's res" where
  "foldE f [] s = Inr s"
| "foldE f (x # xs) s = bindE (f x s) (foldE f xs)"

text \<open>
  \<open>runs P m\<close>: the operation returns, and its result satisfies \<open>P\<close>. This is total correctness:
  an operation that aborts satisfies no \<open>runs\<close>.
\<close>

definition runs :: "('a \<Rightarrow> bool) \<Rightarrow> 'a res \<Rightarrow> bool" where
  "runs P m \<longleftrightarrow> (case m of Inl _ \<Rightarrow> False | Inr x \<Rightarrow> P x)"

lemma bindE_simps [simp]: "bindE (Inl e) f = Inl e" "bindE (Inr x) f = f x"
  by (simp_all add: bindE_def)

lemma assertE_simps [simp]: "assertE True m = m" "assertE False m = Inl AssertFail"
  by (simp_all add: assertE_def)

lemma bindE_assoc: "bindE (bindE m f) g = bindE m (\<lambda>x. bindE (f x) g)"
  by (cases m) simp_all

lemma bindE_eq_Inr: "bindE m f = Inr y \<longleftrightarrow> (\<exists>x. m = Inr x \<and> f x = Inr y)"
  by (cases m) simp_all

lemma assertE_eq_Inr: "assertE b m = Inr y \<longleftrightarrow> b \<and> m = Inr y"
  by (cases b) simp_all

lemmas res_eq_Inr = bindE_eq_Inr assertE_eq_Inr

lemma runs_Inr [simp, runs_simps]: "runs P (Inr x) \<longleftrightarrow> P x"
  by (simp add: runs_def)

lemma runs_Inl [simp, runs_simps]: "\<not> runs P (Inl e)"
  by (simp add: runs_def)

lemma runs_bindE [runs_simps]: "runs P (bindE m f) \<longleftrightarrow> runs (\<lambda>x. runs P (f x)) m"
  by (cases m) simp_all

lemma runs_assertE [runs_simps]: "runs P (assertE b m) \<longleftrightarrow> b \<and> runs P m"
  by (cases b) simp_all

lemma runs_if [runs_simps]: "runs P (if b then m else n) \<longleftrightarrow> (if b then runs P m else runs P n)"
  by simp

lemma runs_mono: "runs P m \<Longrightarrow> (\<And>x. P x \<Longrightarrow> Q x) \<Longrightarrow> runs Q m"
  by (cases m) auto

lemma runs_conj: "runs (\<lambda>x. P x \<and> Q x) m \<longleftrightarrow> runs P m \<and> runs Q m"
  by (cases m) auto

lemma runs_iff: "runs P m \<longleftrightarrow> (\<exists>x. m = Inr x \<and> P x)"
  by (cases m) auto

lemma runsE: "runs P m \<Longrightarrow> (\<And>x. m = Inr x \<Longrightarrow> P x \<Longrightarrow> thesis) \<Longrightarrow> thesis"
  by (auto simp: runs_iff)

lemma runs_eqD: "runs P m \<Longrightarrow> m = Inr x \<Longrightarrow> P x"
  by simp

lemma foldE_append: "foldE f (xs @ ys) s = bindE (foldE f xs s) (foldE f ys)"
proof (induction xs arbitrary: s)
  case (Cons x xs)
  then show ?case by (cases "f x s") simp_all
qed simp

lemma foldE_runs:
  assumes "I s" and "\<And>x s. x \<in> set xs \<Longrightarrow> I s \<Longrightarrow> runs I (f x s)"
  shows "runs I (foldE f xs s)"
  using assms
proof (induction xs arbitrary: s)
  case (Cons x xs)
  from Cons.prems have "runs I (f x s)" by simp
  then show ?case
    using Cons by (auto simp: runs_bindE intro: runs_mono)
qed simp

section \<open>C and C++ integers\<close>

text \<open>
  \<open>size_t\<close> values are natural numbers below \<open>2 ^ 64\<close>, \<open>int\<close> and \<open>int64_t\<close> values are
  integers; the wrap-around of unsigned arithmetic and of conversions is written out.
\<close>

definition size_add :: "nat \<Rightarrow> nat \<Rightarrow> nat" where
  "size_add a b = (a + b) mod 2 ^ 64"

definition size_sub :: "nat \<Rightarrow> nat \<Rightarrow> nat" where
  "size_sub a b = nat ((int a - int b) mod 2 ^ 64)"

definition wrap_int32 :: "int \<Rightarrow> int" where
  "wrap_int32 i = (i + 2 ^ 31) mod 2 ^ 32 - 2 ^ 31"

definition wrap_int64 :: "int \<Rightarrow> int" where
  "wrap_int64 i = (i + 2 ^ 63) mod 2 ^ 64 - 2 ^ 63"

definition size_of_int :: "int \<Rightarrow> nat" where
  "size_of_int i = nat (i mod 2 ^ 64)"

text \<open>Division of signed integers truncates towards zero.\<close>

definition cdiv :: "int \<Rightarrow> int \<Rightarrow> int" where
  "cdiv a b = sgn a * sgn b * (\<bar>a\<bar> div \<bar>b\<bar>)"

definition crem :: "int \<Rightarrow> int \<Rightarrow> int" where
  "crem a b = a - b * cdiv a b"

lemma size_add_exact [conv_simps]: "a + b < 2 ^ 64 \<Longrightarrow> size_add a b = a + b"
  by (simp add: size_add_def)

lemma size_sub_exact [conv_simps]:
  assumes "b \<le> a" and "a < 2 ^ 64"
  shows "size_sub a b = a - b"
proof -
  have "(int a - int b) mod 2 ^ 64 = int a - int b"
    using assms by (intro mod_pos_pos_trivial) auto
  then show ?thesis using assms by (simp add: size_sub_def nat_diff_distrib)
qed

lemma wrap_int32_exact [conv_simps]:
  assumes "- (2 ^ 31) \<le> i" and "i < 2 ^ 31"
  shows "wrap_int32 i = i"
  using assms by (simp add: wrap_int32_def)

lemma wrap_int64_exact [conv_simps]:
  assumes "- (2 ^ 63) \<le> i" and "i < 2 ^ 63"
  shows "wrap_int64 i = i"
  using assms by (simp add: wrap_int64_def)

lemma wrap_int32_range: "- (2 ^ 31) \<le> wrap_int32 i" "wrap_int32 i < 2 ^ 31"
  using pos_mod_bound [of "2 ^ 32" "i + 2 ^ 31"] pos_mod_sign [of "2 ^ 32" "i + 2 ^ 31"]
  by (simp_all add: wrap_int32_def)

lemma size_of_int_exact [conv_simps]: "0 \<le> i \<Longrightarrow> i < 2 ^ 64 \<Longrightarrow> size_of_int i = nat i"
  by (simp add: size_of_int_def)

lemma cdiv_nonneg [conv_simps]: "0 \<le> a \<Longrightarrow> 0 < b \<Longrightarrow> cdiv a b = a div b"
  by (cases "a = 0") (simp_all add: cdiv_def)

lemma crem_nonneg [conv_simps]: "0 \<le> a \<Longrightarrow> 0 < b \<Longrightarrow> crem a b = a mod b"
  by (simp add: crem_def cdiv_nonneg minus_mult_div_eq_mod)

section \<open>Vectors\<close>

text \<open>
  \<open>vec_write\<close> is \<open>std::copy\<close> of a range into a vector's storage, \<open>vec_read\<close> reads a range,
  \<open>vec_resize\<close> is \<open>std::vector::resize\<close>, which throws when asked for more than \<open>max_size\<close>.
\<close>

definition vec_write :: "nat \<Rightarrow> 'a list \<Rightarrow> 'a list \<Rightarrow> 'a list res" where
  "vec_write p xs v =
     (if p + length xs \<le> length v then Inr (take p v @ xs @ drop (p + length xs) v)
      else Inl Undefined)"

definition vec_read :: "nat \<Rightarrow> nat \<Rightarrow> 'a list \<Rightarrow> 'a list res" where
  "vec_read p n v = (if p + n \<le> length v then Inr (take n (drop p v)) else Inl Undefined)"

definition vec_resize :: "nat \<Rightarrow> 'a \<Rightarrow> 'a list \<Rightarrow> 'a list res" where
  "vec_resize n z v =
     (if n < 2 ^ 63 then Inr (take n v @ replicate (n - length v) z) else Inl LengthError)"

lemma runs_vec_write [runs_simps]:
  "runs P (vec_write p xs v) \<longleftrightarrow>
     p + length xs \<le> length v \<and> P (take p v @ xs @ drop (p + length xs) v)"
  by (simp add: vec_write_def)

lemma runs_vec_read [runs_simps]:
  "runs P (vec_read p n v) \<longleftrightarrow> p + n \<le> length v \<and> P (take n (drop p v))"
  by (simp add: vec_read_def)

lemma runs_vec_resize [runs_simps]:
  "runs P (vec_resize n z v) \<longleftrightarrow> n < 2 ^ 63 \<and> P (take n v @ replicate (n - length v) z)"
  by (simp add: vec_resize_def)

lemma length_splice [simp]:
  "p + length xs \<le> length v \<Longrightarrow> length (take p v @ xs @ drop (p + length xs) v) = length v"
  by simp

section \<open>Sums over lists\<close>

lemma sum_update:
  "i < length xs \<Longrightarrow> (\<Sum>x \<leftarrow> xs[i := y]. f x) = (\<Sum>x \<leftarrow> xs. f x) + f y - (f (xs ! i) :: int)"
  by (induction xs arbitrary: i) (auto split: nat.split)

lemma sum_list_nth_le: "(\<And>x. 0 \<le> f x) \<Longrightarrow> i < length xs \<Longrightarrow> f (xs ! i) \<le> (\<Sum>x \<leftarrow> xs. f x :: int)"
proof (induction xs arbitrary: i)
  case (Cons x xs)
  have "0 \<le> (\<Sum>x \<leftarrow> xs. f x)" using Cons.prems(1) by (intro sum_list_nonneg) auto
  then show ?case using Cons by (auto simp: nth_Cons add_increasing split: nat.split)
qed simp

end
