(* ===== verification/TimeStamp.thy ===== *)
theory TimeStamp
  imports Prelude "HOL-Library.Log_Nat"
begin

text \<open>
  \<open>base/TimeStamp.h\<close>, \<open>base/TimeStamp.cpp\<close> and \<open>base/Atomic.h\<close>: points in time in microseconds,
  their order, the arithmetic on \<open>double\<close> seconds, the decimal form, and the counter that numbers
  timers.
\<close>

section \<open>Decimal numbers\<close>

text \<open>What \<open>snprintf\<close> prints for \<open>%ld\<close> and \<open>%06ld\<close>.\<close>

definition digit :: "nat \<Rightarrow> char" where
  "digit d = char_of (48 + d)"

fun dec_nat :: "nat \<Rightarrow> string" where
  "dec_nat n = (if n < 10 then [digit n] else dec_nat (n div 10) @ [digit (n mod 10)])"

declare dec_nat.simps [simp del]

definition dec_int :: "int \<Rightarrow> string" where
  "dec_int i = (if i < 0 then CHR ''-'' # dec_nat (nat (- i)) else dec_nat (nat i))"

definition dec_int_width :: "nat \<Rightarrow> int \<Rightarrow> string" where
  "dec_int_width w i =
     (let sign = (if i < 0 then ''-'' else ''''); ds = dec_nat (nat \<bar>i\<bar>) in
      sign @ replicate (w - length sign - length ds) (CHR ''0'') @ ds)"

definition value_of :: "string \<Rightarrow> nat" where
  "value_of s = foldl (\<lambda>n c. 10 * n + (of_char c - 48)) 0 s"

lemma of_char_digit [simp]: "d < 10 \<Longrightarrow> of_char (digit d) = (48 + d :: nat)"
  by (simp add: digit_def)

lemma digit_table: "map digit [0, 1, 2, 3, 4, 5, 6, 7, 8, 9] = ''0123456789''"
  by code_simp

lemmas digit_chars = digit_table [simplified list.map list.inject]

lemma value_of_snoc: "value_of (s @ [c]) = 10 * value_of s + (of_char c - 48)"
  by (simp add: value_of_def)

lemma value_of_dec_nat: "value_of (dec_nat n) = n"
proof (induction n rule: dec_nat.induct)
  case (1 n)
  show ?case
  proof (cases "n < 10")
    case True
    then show ?thesis by (subst dec_nat.simps) (simp add: value_of_def)
  next
    case False
    then show ?thesis
      using 1 by (subst dec_nat.simps) (simp add: value_of_snoc)
  qed
qed

lemma dec_nat_digits: "c \<in> set (dec_nat n) \<Longrightarrow> \<exists>d < 10. c = digit d"
proof (induction n rule: dec_nat.induct)
  case (1 n)
  show ?case
  proof (cases "n < 10")
    case True
    then show ?thesis using 1 by (subst (asm) (2) dec_nat.simps) auto
  next
    case False
    with 1(2) have "c \<in> set (dec_nat (n div 10)) \<or> c = digit (n mod 10)"
      by (subst (asm) dec_nat.simps) auto
    with 1(1) False show ?thesis by (metis mod_less_divisor zero_less_numeral)
  qed
qed

lemma length_dec_nat: "n < 10 ^ Suc k \<Longrightarrow> length (dec_nat n) \<le> Suc k"
proof (induction k arbitrary: n)
  case 0
  then show ?case by (subst dec_nat.simps) simp
next
  case (Suc k)
  then have "n div 10 < 10 ^ Suc k" by (simp add: div_less_iff_less_mult mult.commute)
  from Suc.IH [OF this] show ?case by (subst dec_nat.simps) simp
qed

section \<open>Floating point\<close>

text \<open>
  A finite \<open>double\<close> is \<open>Dbl m e\<close>, the number \<open>m * 2 ^ e\<close> with at most 53 significant bits.
  Results are rounded to nearest, ties to even; the exponent range is not bounded, since no delay
  the library computes comes near its ends. The conversion to \<open>int64_t\<close> truncates; what it yields
  out of range is undefined in C++, and the value here is what x86-64 produces.
\<close>

datatype double = Dbl int int

definition round53 :: "int \<Rightarrow> int \<Rightarrow> double" where
  "round53 m e =
     (let n = nat (bitlen \<bar>m\<bar>) in
      if n \<le> 53 then Dbl m e
      else let k = n - 53; q = \<bar>m\<bar> div 2 ^ k; r = \<bar>m\<bar> mod 2 ^ k;
               up = (2 ^ (k - 1) < r \<or> (r = 2 ^ (k - 1) \<and> odd q))
           in Dbl (sgn m * (q + (if up then 1 else 0))) (e + int k))"

fun dbl_times :: "double \<Rightarrow> int \<Rightarrow> double" where
  "dbl_times (Dbl m e) c = round53 (m * c) e"

text \<open>Division by a positive integer: enough quotient bits, and one more for a non-zero remainder.\<close>

fun dbl_divide :: "double \<Rightarrow> int \<Rightarrow> double" where
  "dbl_divide (Dbl m e) c =
     (let k = 55 + nat (bitlen c); a = \<bar>m\<bar> * 2 ^ k; q = a div c; r = a mod c in
      round53 (sgn m * (2 * q + (if r = 0 then 0 else 1))) (e - int k - 1))"

fun dbl_positive :: "double \<Rightarrow> bool" where
  "dbl_positive (Dbl m e) \<longleftrightarrow> 0 < m"

fun dbl_to_int64 :: "double \<Rightarrow> int" where
  "dbl_to_int64 (Dbl m e) =
     (let v = (if 0 \<le> e then m * 2 ^ nat e else cdiv m (2 ^ nat (- e))) in
      if - (2 ^ 63) \<le> v \<and> v < 2 ^ 63 then v else - (2 ^ 63))"

definition dbl_of_int :: "int \<Rightarrow> double" where
  "dbl_of_int i = round53 i 0"

section \<open>Time stamps\<close>

datatype TimeStamp = TimeStamp (microSecondsSinceEpoch: int)

definition kMicroSecondsPerSecond :: int where "kMicroSecondsPerSecond = 1000 * 1000"

definition invalid :: TimeStamp where "invalid = TimeStamp 0"

definition valid :: "TimeStamp \<Rightarrow> bool" where
  "valid t \<longleftrightarrow> microSecondsSinceEpoch t > 0"

text \<open>\<open>now\<close>, from the \<open>timeval\<close> that \<open>gettimeofday\<close> fills in.\<close>

definition TimeStamp_now :: "int \<times> int \<Rightarrow> TimeStamp" where
  "TimeStamp_now tv = TimeStamp (wrap_int64 (fst tv * kMicroSecondsPerSecond + snd tv))"

definition TimeStamp_toString :: "TimeStamp \<Rightarrow> string" where
  "TimeStamp_toString t =
     (let seconds = cdiv (microSecondsSinceEpoch t) kMicroSecondsPerSecond;
          microseconds = crem (microSecondsSinceEpoch t) kMicroSecondsPerSecond
      in take 30 (dec_int seconds @ ''.'' @ dec_int_width 6 microseconds))"

definition addTime :: "TimeStamp \<Rightarrow> double \<Rightarrow> TimeStamp" where
  "addTime timestamp seconds =
     (let delta = dbl_to_int64 (dbl_times seconds kMicroSecondsPerSecond) in
      TimeStamp (wrap_int64 (microSecondsSinceEpoch timestamp + delta)))"

definition timeDifference :: "TimeStamp \<Rightarrow> TimeStamp \<Rightarrow> double" where
  "timeDifference high low =
     (let diff = wrap_int64 (microSecondsSinceEpoch high - microSecondsSinceEpoch low) in
      dbl_divide (dbl_of_int diff) kMicroSecondsPerSecond)"

text \<open>\<open>operator<\<close> and \<open>operator==\<close> order time stamps by their microseconds.\<close>

definition TimeStamp_less :: "TimeStamp \<Rightarrow> TimeStamp \<Rightarrow> bool" where
  "TimeStamp_less l r \<longleftrightarrow> microSecondsSinceEpoch l < microSecondsSinceEpoch r"

definition TimeStamp_eq :: "TimeStamp \<Rightarrow> TimeStamp \<Rightarrow> bool" where
  "TimeStamp_eq l r \<longleftrightarrow> microSecondsSinceEpoch l = microSecondsSinceEpoch r"

instantiation TimeStamp :: linorder
begin

definition less_TimeStamp :: "TimeStamp \<Rightarrow> TimeStamp \<Rightarrow> bool" where
  "less_TimeStamp a b \<longleftrightarrow> TimeStamp_less a b"

definition less_eq_TimeStamp :: "TimeStamp \<Rightarrow> TimeStamp \<Rightarrow> bool" where
  "less_eq_TimeStamp a b \<longleftrightarrow> TimeStamp_less a b \<or> TimeStamp_eq a b"

instance
  by standard
    (auto simp: less_TimeStamp_def less_eq_TimeStamp_def TimeStamp_less_def TimeStamp_eq_def
      TimeStamp.expand)

end

lemma TimeStamp_order [simp]:
  "TimeStamp a < TimeStamp b \<longleftrightarrow> a < b" "TimeStamp a \<le> TimeStamp b \<longleftrightarrow> a \<le> b"
  by (auto simp: less_TimeStamp_def less_eq_TimeStamp_def TimeStamp_less_def TimeStamp_eq_def)

section \<open>Atomic counters\<close>

text \<open>
  \<open>AtomicInt64\<close>: each operation is one atomic step on the value and returns its result; the
  built-in wraps around.
\<close>

definition getAndAdd :: "int \<Rightarrow> int \<Rightarrow> int \<times> int" where
  "getAndAdd x v = (v, wrap_int64 (v + x))"

definition addAndGet :: "int \<Rightarrow> int \<Rightarrow> int \<times> int" where
  "addAndGet x v = (case getAndAdd x v of (old, v') \<Rightarrow> (wrap_int64 (old + x), v'))"

definition incrementAndGet :: "int \<Rightarrow> int \<times> int" where
  "incrementAndGet v = addAndGet 1 v"

definition decrementAndGet :: "int \<Rightarrow> int \<times> int" where
  "decrementAndGet v = addAndGet (- 1) v"

lemma incrementAndGet_eq: "- (2 ^ 63) \<le> v \<Longrightarrow> v < 2 ^ 63 - 1 \<Longrightarrow> incrementAndGet v = (v + 1, v + 1)"
  by (simp add: incrementAndGet_def addAndGet_def getAndAdd_def wrap_int64_exact)

section \<open>Whole seconds\<close>

lemma round53_exact: "\<bar>m\<bar> < 2 ^ 53 \<Longrightarrow> round53 m e = Dbl m e"
proof -
  assume "\<bar>m\<bar> < 2 ^ 53"
  then have "bitlen \<bar>m\<bar> \<le> 53" by (simp add: bitlen_le_iff_power)
  then have "nat (bitlen \<bar>m\<bar>) \<le> 53" by simp
  then show ?thesis by (simp only: round53_def Let_def if_True)
qed

lemma addTime_seconds:
  assumes "\<bar>s * 1000000\<bar> < 2 ^ 53" and "- (2 ^ 62) \<le> t" and "t < 2 ^ 62"
  shows "addTime (TimeStamp t) (dbl_of_int s) = TimeStamp (t + s * 1000000)"
proof -
  from assms(1) have "\<bar>s\<bar> < 2 ^ 53" by simp
  then have "dbl_of_int s = Dbl s 0" by (simp add: dbl_of_int_def round53_exact)
  moreover have "- (2 ^ 53) < s * 1000000" "s * 1000000 < 2 ^ 53" using assms(1) by auto
  ultimately show ?thesis
    using assms by (simp add: addTime_def kMicroSecondsPerSecond_def round53_exact wrap_int64_exact)
qed

section \<open>Decimal form\<close>

lemma value_of_append: "value_of (a @ b) = value_of a * 10 ^ length b + value_of b"
  by (induction b rule: rev_induct) (simp_all add: value_of_def algebra_simps)

lemma value_of_zeros: "value_of (replicate k CHR ''0'') = 0"
  by (induction k) (simp_all add: value_of_def)

lemma dec_int_width_6:
  assumes "0 \<le> u" and "u < 1000000"
  shows "length (dec_int_width 6 u) = 6" and "value_of (dec_int_width 6 u) = nat u"
proof -
  have "nat u < 10 ^ Suc 5" using assms by simp
  then have "length (dec_nat (nat u)) \<le> 6" using length_dec_nat [of "nat u" 5] by simp
  with assms show "length (dec_int_width 6 u) = 6" by (simp add: dec_int_width_def Let_def)
  show "value_of (dec_int_width 6 u) = nat u"
    using assms
    by (simp add: dec_int_width_def Let_def value_of_append value_of_zeros value_of_dec_nat)
qed

text \<open>
  The decimal form of a time stamp loses nothing. For every non-negative \<open>int64_t\<close> the text is
  the seconds, a point and exactly six digits, it fits the stack buffer, and read without the
  point it is the number of microseconds.
\<close>

theorem toString_value:
  assumes "0 \<le> t" and "t < 2 ^ 63"
  shows "\<exists>a b. TimeStamp_toString (TimeStamp t) = a @ ''.'' @ b \<and> length b = 6 \<and>
    length (a @ ''.'' @ b) \<le> 30 \<and> value_of (a @ b) = nat t"
proof -
  let ?s = "t div 1000000" and ?u = "t mod 1000000"
  have "nat ?s < 10 ^ Suc 12" using assms(2) by (simp add: nat_less_iff)
  then have l: "length (dec_nat (nat ?s)) \<le> 13" using length_dec_nat [of _ 12] by simp
  have u: "length (dec_int_width 6 ?u) = 6" "value_of (dec_int_width 6 ?u) = nat ?u"
    by (rule dec_int_width_6; simp)+
  have "nat t = nat ?s * 10 ^ 6 + nat ?u" using assms(1) by (simp add: nat_div_distrib nat_mod_distrib)
  then have v: "value_of (dec_nat (nat ?s) @ dec_int_width 6 ?u) = nat t"
    using u by (simp add: value_of_append value_of_dec_nat)
  have "0 \<le> ?s" using assms(1) by (simp add: pos_imp_zdiv_nonneg_iff)
  moreover have "n \<le> 13 \<Longrightarrow> 7 \<le> 30 - n" for n :: nat by simp
  from this [OF l] have "7 \<le> 30 - length (dec_nat (nat ?s))" .
  ultimately have "TimeStamp_toString (TimeStamp t) = dec_nat (nat ?s) @ ''.'' @ dec_int_width 6 ?u"
    using assms(1) l u
    by (auto simp: TimeStamp_toString_def kMicroSecondsPerSecond_def Let_def cdiv_nonneg crem_nonneg
        dec_int_def)
  then show ?thesis using l u v by (intro exI conjI) auto
qed

theorem toString_value_witness:
  "\<exists>a b. TimeStamp_toString (TimeStamp 1234567000123) = a @ ''.'' @ b \<and> length b = 6 \<and>
    length (a @ ''.'' @ b) \<le> 30 \<and> value_of (a @ b) = 1234567000123"
  using toString_value [of 1234567000123] by simp

end
