(* ===== verification/Channel.thy ===== *)
theory Channel
  imports TimeStamp
begin

unbundle bit_operations_syntax

text \<open>
  \<open>net/Channel.h\<close> and \<open>net/Channel.cpp\<close>: one descriptor with the events it waits for, the events
  that happened, and a callback for each kind of event. A callback is a value of type \<open>'cb\<close>, whose
  effect is given where the event loop runs it. The operations that go through the loop
  (\<open>update\<close>, \<open>remove\<close>) are in the theory of the poller.
\<close>

section \<open>Events\<close>

definition EVENTIN :: u32 where "EVENTIN = 0x001"
definition EVENTPRI :: u32 where "EVENTPRI = 0x002"
definition EVENTOUT :: u32 where "EVENTOUT = 0x004"
definition EVENTERR :: u32 where "EVENTERR = 0x008"
definition EVENTHUP :: u32 where "EVENTHUP = 0x010"
definition EVENTRDHUP :: u32 where "EVENTRDHUP = 0x2000"

definition kNoneEvent :: u32 where "kNoneEvent = 0"
definition kReadEvent :: u32 where "kReadEvent = EVENTIN OR EVENTPRI"
definition kWriteEvent :: u32 where "kWriteEvent = EVENTOUT"

lemmas event_defs = EVENTIN_def EVENTPRI_def EVENTOUT_def EVENTERR_def EVENTHUP_def EVENTRDHUP_def
  kNoneEvent_def kReadEvent_def kWriteEvent_def

record 'cb Channel =
  m_fd :: fd
  m_events :: u32
  m_revents :: u32
  m_index :: int
  m_addedToLoop :: bool
  m_eventHandling :: bool
  m_readCallBack :: "'cb option"
  m_writeCallBack :: "'cb option"
  m_errorCallBack :: "'cb option"
  m_closeCallBack :: "'cb option"

definition newChannel :: "fd \<Rightarrow> 'cb Channel" where
  "newChannel f = \<lparr>m_fd = f, m_events = 0, m_revents = 0, m_index = - 1, m_addedToLoop = False,
     m_eventHandling = False, m_readCallBack = None, m_writeCallBack = None,
     m_errorCallBack = None, m_closeCallBack = None\<rparr>"

section \<open>The mask of awaited events\<close>

definition isNoneEvent :: "'cb Channel \<Rightarrow> bool" where
  "isNoneEvent ch \<longleftrightarrow> m_events ch = kNoneEvent"

definition isWriting :: "'cb Channel \<Rightarrow> bool" where
  "isWriting ch \<longleftrightarrow> m_events ch AND kWriteEvent \<noteq> 0"

definition isReading :: "'cb Channel \<Rightarrow> bool" where
  "isReading ch \<longleftrightarrow> m_events ch AND kReadEvent \<noteq> 0"

text \<open>The new masks of \<open>enableReading\<close>, \<open>disableReading\<close>, \<open>enableWriting\<close>, \<open>disableWriting\<close>, \<open>disableAll\<close>.\<close>

datatype mask_op = EnableReading | DisableReading | EnableWriting | DisableWriting | DisableAll

definition apply_mask :: "mask_op \<Rightarrow> u32 \<Rightarrow> u32" where
  "apply_mask m ev =
     (case m of
        EnableReading \<Rightarrow> ev OR kReadEvent
      | DisableReading \<Rightarrow> ev AND NOT kReadEvent
      | EnableWriting \<Rightarrow> ev OR kWriteEvent
      | DisableWriting \<Rightarrow> ev AND NOT kWriteEvent
      | DisableAll \<Rightarrow> kNoneEvent)"

section \<open>Dispatch\<close>

text \<open>The callbacks \<open>handleEvent\<close> calls, in order, for the events that happened.\<close>

definition dispatch :: "'cb Channel \<Rightarrow> 'cb list" where
  "dispatch ch =
     (let rev = m_revents ch; call = (\<lambda>c cb. if c then (case cb of None \<Rightarrow> [] | Some f \<Rightarrow> [f]) else []) in
      call (rev AND EVENTHUP \<noteq> 0 \<and> rev AND EVENTIN = 0) (m_closeCallBack ch) @
      call (rev AND EVENTERR \<noteq> 0) (m_errorCallBack ch) @
      call (rev AND (EVENTIN OR EVENTPRI OR EVENTRDHUP) \<noteq> 0) (m_readCallBack ch) @
      call (rev AND EVENTOUT \<noteq> 0) (m_writeCallBack ch))"

definition eventsToString :: "fd \<Rightarrow> u32 \<Rightarrow> string" where
  "eventsToString f ev =
     dec_int f @ '': '' @
     (if ev AND EVENTIN \<noteq> 0 then ''IN '' else '''') @
     (if ev AND EVENTPRI \<noteq> 0 then ''PRI '' else '''') @
     (if ev AND EVENTOUT \<noteq> 0 then ''OUT '' else '''') @
     (if ev AND EVENTHUP \<noteq> 0 then ''HUP '' else '''') @
     (if ev AND EVENTRDHUP \<noteq> 0 then ''RDHUP '' else '''') @
     (if ev AND EVENTERR \<noteq> 0 then ''ERR '' else '''')"

section \<open>The mask as two switches\<close>

definition ev_mask :: "bool \<Rightarrow> bool \<Rightarrow> u32" where
  "ev_mask r w = (if r then kReadEvent else 0) OR (if w then kWriteEvent else 0)"

fun switch :: "mask_op \<Rightarrow> bool \<times> bool \<Rightarrow> bool \<times> bool" where
  "switch EnableReading (r, w) = (True, w)"
| "switch DisableReading (r, w) = (False, w)"
| "switch EnableWriting (r, w) = (r, True)"
| "switch DisableWriting (r, w) = (r, False)"
| "switch DisableAll (r, w) = (False, False)"

lemma apply_mask_switch: "apply_mask m (ev_mask r w) = (case switch m (r, w) of (r', w') \<Rightarrow> ev_mask r' w')"
  by (cases m; cases r; cases w; simp add: apply_mask_def ev_mask_def event_defs)

lemma mask_bits:
  assumes "m_events ch = ev_mask r w"
  shows "isReading ch = r" "isWriting ch = w" "isNoneEvent ch = (\<not> r \<and> \<not> w)"
  using assms
  by (cases r; cases w; simp add: isReading_def isWriting_def isNoneEvent_def ev_mask_def event_defs)+

text \<open>
  The event mask behaves as two independent switches. After any sequence of enable and disable
  calls on a new channel the mask is the read events, the write events, both or none, and
  \<open>isReading\<close>, \<open>isWriting\<close> and \<open>isNoneEvent\<close> report what the last calls asked for.
\<close>

theorem mask_switches:
  "case fold switch ops (False, False) of (r, w) \<Rightarrow>
     (let ch = (newChannel f)\<lparr>m_events := fold apply_mask ops (m_events (newChannel f))\<rparr> in
      m_events ch = (if r then kReadEvent else 0) OR (if w then kWriteEvent else 0) \<and>
      isReading ch = r \<and> isWriting ch = w \<and> isNoneEvent ch = (\<not> r \<and> \<not> w))"
proof -
  have "fold apply_mask ops (ev_mask r w) = (case fold switch ops (r, w) of (r', w') \<Rightarrow> ev_mask r' w')" for r w
    by (induction ops arbitrary: r w) (simp_all add: apply_mask_switch split: prod.splits)
  from this [of False False]
  have "fold apply_mask ops 0 = (case fold switch ops (False, False) of (r', w') \<Rightarrow> ev_mask r' w')"
    by (simp add: ev_mask_def)
  then show ?thesis
    by (auto simp: mask_bits [where r = "fst (fold switch ops (False, False))"
          and w = "snd (fold switch ops (False, False))"] newChannel_def Let_def
        ev_mask_def [symmetric] split: prod.splits)
qed

end
