(* ===== verification/Epoll.thy ===== *)
theory Epoll
  imports Channel
begin

text \<open>
  \<open>net/Poller.h\<close>, \<open>net/Poller.cpp\<close>, \<open>net/Epoll.h\<close>, \<open>net/Epoll.cpp\<close> and the operations of
  \<open>Channel\<close> that go through the loop to the poller. Channels are heap objects with an identity;
  the poller maps descriptors to them. The system calls are recorded: \<open>ctl_calls\<close> is the history of
  \<open>epoll_ctl\<close>, and whether a call succeeds is a parameter, which the documented rules of the kernel
  constrain (\<open>kernel_ok\<close>).
\<close>

section \<open>Data\<close>

type_synonym cid = nat

datatype ctl_op = CTL_ADD | CTL_MOD | CTL_DEL

type_synonym ctl_call = "ctl_op \<times> fd \<times> u32"

text \<open>A kernel tells, from the calls so far, whether the next one succeeds.\<close>

type_synonym kernel = "ctl_call list \<Rightarrow> ctl_call \<Rightarrow> bool"

text \<open>
  The vector \<open>m_epollEvents\<close> is an array the kernel writes to; its size and capacity matter here.
\<close>

record 'cb Poll =
  chans :: "cid \<rightharpoonup> 'cb Channel"
  m_channels :: "fd \<rightharpoonup> cid"
  m_maxEventsSize :: int
  events_size :: nat
  events_capacity :: nat
  ctl_calls :: "ctl_call list"
  m_threadId :: tid

definition kMaxEpollConcurrencySize :: nat where "kMaxEpollConcurrencySize = 10000"
definition kInitEpollEventsSize :: nat where "kInitEpollEventsSize = 1024"

definition newEpoll :: "tid \<Rightarrow> 'cb Poll" where
  "newEpoll t = \<lparr>chans = Map.empty, m_channels = Map.empty, m_maxEventsSize = 0,
     events_size = kInitEpollEventsSize, events_capacity = kInitEpollEventsSize, ctl_calls = [],
     m_threadId = t\<rparr>"

definition assertInLoopThread :: "tid \<Rightarrow> 'cb Poll \<Rightarrow> 'a res \<Rightarrow> 'a res" where
  "assertInLoopThread t w m = (if t = m_threadId w then m else Inl FatalLog)"

definition chan :: "cid \<Rightarrow> 'cb Poll \<Rightarrow> 'cb Channel res" where
  "chan c w = (case chans w c of None \<Rightarrow> Inl Undefined | Some ch \<Rightarrow> Inr ch)"

definition put_chan :: "cid \<Rightarrow> 'cb Channel \<Rightarrow> 'cb Poll \<Rightarrow> 'cb Poll" where
  "put_chan c ch w = w\<lparr>chans := (chans w)(c \<mapsto> ch)\<rparr>"

section \<open>System calls\<close>

definition epoll_ctl :: "kernel \<Rightarrow> ctl_op \<Rightarrow> fd \<Rightarrow> u32 \<Rightarrow> 'cb Poll \<Rightarrow> 'cb Poll res" where
  "epoll_ctl k op f ev w =
     (if k (ctl_calls w) (op, f, ev) then Inr (w\<lparr>ctl_calls := ctl_calls w @ [(op, f, ev)]\<rparr>)
      else Inl FatalLog)"

definition epollRegister :: "kernel \<Rightarrow> fd \<Rightarrow> u32 \<Rightarrow> 'cb Poll \<Rightarrow> 'cb Poll res" where
  "epollRegister k f ev w = epoll_ctl k CTL_ADD f ev w"

definition epollUpdate :: "kernel \<Rightarrow> fd \<Rightarrow> u32 \<Rightarrow> 'cb Poll \<Rightarrow> 'cb Poll res" where
  "epollUpdate k f ev w = epoll_ctl k CTL_MOD f ev w"

definition epollDelete :: "kernel \<Rightarrow> fd \<Rightarrow> u32 \<Rightarrow> 'cb Poll \<Rightarrow> 'cb Poll res" where
  "epollDelete k f ev w = epoll_ctl k CTL_DEL f ev w"

section \<open>The poller\<close>

definition hasChannel :: "tid \<Rightarrow> cid \<Rightarrow> 'cb Poll \<Rightarrow> bool res" where
  "hasChannel t c w =
     assertInLoopThread t w (bindE (chan c w) (\<lambda>ch. Inr (m_channels w (m_fd ch) = Some c)))"

text \<open>\<open>reserve\<close> changes the capacity, never the size.\<close>

definition grow_events :: "'cb Poll \<Rightarrow> 'cb Poll" where
  "grow_events w =
     (if m_maxEventsSize w + 1 = int (events_capacity w)
      then w\<lparr>events_capacity := max (events_capacity w)
               (min (2 * events_capacity w) kMaxEpollConcurrencySize)\<rparr>
      else w)"

definition Epoll_updateChannel :: "kernel \<Rightarrow> tid \<Rightarrow> cid \<Rightarrow> 'cb Poll \<Rightarrow> 'cb Poll res" where
  "Epoll_updateChannel k t c w =
     assertInLoopThread t w
       (bindE (chan c w) (\<lambda>ch.
        bindE
         (if m_index ch < 0
          then assertE (m_channels w (m_fd ch) = None)
            (bindE (epollRegister k (m_fd ch) (m_events ch) w) (\<lambda>w1.
             let n = m_maxEventsSize w1 + 1;
                 w2 = put_chan c (ch\<lparr>m_index := n\<rparr>) (w1\<lparr>m_maxEventsSize := n\<rparr>)
             in Inr (w2\<lparr>m_channels := (m_channels w2)(m_fd ch \<mapsto> c)\<rparr>)))
          else assertE (m_channels w (m_fd ch) \<noteq> None)
            (assertE (m_channels w (m_fd ch) = Some c)
              (epollUpdate k (m_fd ch) (m_events ch) w)))
         (\<lambda>w'. Inr (grow_events w'))))"

definition Epoll_removeChannel :: "kernel \<Rightarrow> tid \<Rightarrow> cid \<Rightarrow> 'cb Poll \<Rightarrow> 'cb Poll res" where
  "Epoll_removeChannel k t c w =
     assertInLoopThread t w
       (bindE (chan c w) (\<lambda>ch.
        assertE (m_channels w (m_fd ch) \<noteq> None)
         (assertE (m_channels w (m_fd ch) = Some c)
          (assertE (isNoneEvent ch)
           (bindE (epollDelete k (m_fd ch) 0 w) (\<lambda>w1.
            Inr (w1\<lparr>m_channels := (m_channels w1)(m_fd ch := None),
                    m_maxEventsSize := m_maxEventsSize w1 - 1\<rparr>)))))))"

text \<open>One entry of the array that \<open>epoll_wait\<close> filled: the descriptor and its events.\<close>

definition fillActive_one :: "fd \<times> u32 \<Rightarrow> cid list \<times> 'cb Poll \<Rightarrow> (cid list \<times> 'cb Poll) res" where
  "fillActive_one e s =
     (case s of (active, w) \<Rightarrow>
      assertE (snd e > 0)
       (case m_channels w (fst e) of
          None \<Rightarrow> Inl AssertFail
        | Some c \<Rightarrow> bindE (chan c w) (\<lambda>ch.
            assertE (m_fd ch = fst e)
              (Inr (active @ [c], put_chan c (ch\<lparr>m_revents := snd e\<rparr>) w)))))"

definition fillActiveChannels :: "(fd \<times> u32) list \<Rightarrow> 'cb Poll \<Rightarrow> (cid list \<times> 'cb Poll) res" where
  "fillActiveChannels evs w = foldE fillActive_one (take (events_size w) evs) ([], w)"

text \<open>
  \<open>epoll_wait\<close> either fails or delivers events, which the kernel writes from the start of the
  array; more than the capacity would be written outside it.
\<close>

definition Epoll_poll :: "(errno + (fd \<times> u32) list) \<Rightarrow> 'cb Poll \<Rightarrow> (cid list \<times> 'cb Poll) res" where
  "Epoll_poll wait w =
     assertE (0 < events_size w)
      (case wait of
         Inl _ \<Rightarrow> Inr ([], w)
       | Inr evs \<Rightarrow>
           if length evs > events_capacity w then Inl Undefined
           else fillActiveChannels evs w)"

section \<open>Channels through the loop\<close>

text \<open>\<open>EventLoop::updateChannel\<close> and \<open>removeChannel\<close> check the thread and call the poller.\<close>

definition EventLoop_updateChannel :: "kernel \<Rightarrow> tid \<Rightarrow> cid \<Rightarrow> 'cb Poll \<Rightarrow> 'cb Poll res" where
  "EventLoop_updateChannel k t c w = assertInLoopThread t w (Epoll_updateChannel k t c w)"

definition EventLoop_removeChannel :: "kernel \<Rightarrow> tid \<Rightarrow> cid \<Rightarrow> 'cb Poll \<Rightarrow> 'cb Poll res" where
  "EventLoop_removeChannel k t c w = assertInLoopThread t w (Epoll_removeChannel k t c w)"

definition Channel_update :: "kernel \<Rightarrow> tid \<Rightarrow> cid \<Rightarrow> 'cb Poll \<Rightarrow> 'cb Poll res" where
  "Channel_update k t c w =
     bindE (chan c w) (\<lambda>ch. EventLoop_updateChannel k t c (put_chan c (ch\<lparr>m_addedToLoop := True\<rparr>) w))"

text \<open>\<open>enableReading\<close>, \<open>disableReading\<close>, \<open>enableWriting\<close>, \<open>disableWriting\<close> and \<open>disableAll\<close>.\<close>

definition set_mask :: "kernel \<Rightarrow> tid \<Rightarrow> mask_op \<Rightarrow> cid \<Rightarrow> 'cb Poll \<Rightarrow> 'cb Poll res" where
  "set_mask k t m c w =
     bindE (chan c w) (\<lambda>ch.
     Channel_update k t c (put_chan c (ch\<lparr>m_events := apply_mask m (m_events ch)\<rparr>) w))"

definition Channel_remove :: "kernel \<Rightarrow> tid \<Rightarrow> cid \<Rightarrow> 'cb Poll \<Rightarrow> 'cb Poll res" where
  "Channel_remove k t c w =
     bindE (chan c w) (\<lambda>ch.
     assertE (isNoneEvent ch)
       (EventLoop_removeChannel k t c (put_chan c (ch\<lparr>m_addedToLoop := False\<rparr>) w)))"

definition Channel_destroy :: "tid \<Rightarrow> cid \<Rightarrow> 'cb Poll \<Rightarrow> 'cb Poll res" where
  "Channel_destroy t c w =
     bindE (chan c w) (\<lambda>ch.
     assertE (\<not> m_eventHandling ch)
      (assertE (\<not> m_addedToLoop ch)
       (bindE (if t = m_threadId w then hasChannel t c w else Inr False) (\<lambda>has.
        assertE (\<not> has) (Inr (w\<lparr>chans := (chans w)(c := None)\<rparr>))))))"

text \<open>\<open>handleEvent\<close>, with \<open>run\<close> the effect of a callback on the poller's state.\<close>

definition Channel_handleEvent ::
  "('cb \<Rightarrow> 'cb Poll \<Rightarrow> 'cb Poll res) \<Rightarrow> cid \<Rightarrow> 'cb Poll \<Rightarrow> 'cb Poll res" where
  "Channel_handleEvent run c w =
     bindE (chan c w) (\<lambda>ch.
     bindE (foldE run (dispatch ch) (put_chan c (ch\<lparr>m_eventHandling := True\<rparr>) w)) (\<lambda>w'.
     bindE (chan c w') (\<lambda>ch'. Inr (put_chan c (ch'\<lparr>m_eventHandling := False\<rparr>) w'))))"

section \<open>Invariant\<close>

text \<open>
  The set of descriptors the kernel watches after a history of calls, and the calls the manual
  allows: adding one that is not watched, changing or removing one that is.
\<close>

definition interest_step :: "ctl_call \<Rightarrow> (fd \<rightharpoonup> u32) \<Rightarrow> (fd \<rightharpoonup> u32)" where
  "interest_step c m = (case c of (op, f, ev) \<Rightarrow>
     (case op of CTL_ADD \<Rightarrow> m(f \<mapsto> ev) | CTL_MOD \<Rightarrow> m(f \<mapsto> ev) | CTL_DEL \<Rightarrow> m(f := None)))"

definition interest :: "ctl_call list \<Rightarrow> (fd \<rightharpoonup> u32)" where
  "interest cs = fold interest_step cs Map.empty"

definition legal_call :: "ctl_call list \<Rightarrow> ctl_call \<Rightarrow> bool" where
  "legal_call cs c = (case c of (op, f, ev) \<Rightarrow> (op = CTL_ADD) = (interest cs f = None))"

definition kernel_ok :: "kernel \<Rightarrow> bool" where
  "kernel_ok k \<longleftrightarrow> (\<forall>cs c. legal_call cs c \<longrightarrow> k cs c)"

text \<open>
  The poller's map, its counter and the kernel's interest list agree; a registered channel has an
  index; and there is always room in the array for one more event than there are channels, up to
  the limit of 10000.
\<close>

definition watches :: "'cb Poll \<Rightarrow> fd \<Rightarrow> u32 option" where
  "watches w f = (case m_channels w f of None \<Rightarrow> None
     | Some c \<Rightarrow> (case chans w c of None \<Rightarrow> None | Some ch \<Rightarrow> Some (m_events ch)))"

definition poll_inv :: "'cb Poll \<Rightarrow> bool" where
  "poll_inv w \<longleftrightarrow> finite (dom (m_channels w)) \<and>
     m_maxEventsSize w = int (card (dom (m_channels w))) \<and>
     (\<forall>f c. m_channels w f = Some c \<longrightarrow>
        (case chans w c of None \<Rightarrow> False | Some ch \<Rightarrow> m_fd ch = f \<and> 0 \<le> m_index ch)) \<and>
     interest (ctl_calls w) = watches w \<and>
     events_size w = kInitEpollEventsSize \<and> kInitEpollEventsSize \<le> events_capacity w \<and>
     events_capacity w \<le> kMaxEpollConcurrencySize \<and>
     (card (dom (m_channels w)) + 1 < events_capacity w \<or> events_capacity w = kMaxEpollConcurrencySize)"

definition usable :: "'cb Poll \<Rightarrow> cid \<Rightarrow> fd \<Rightarrow> u32 \<Rightarrow> bool" where
  "usable w c f e \<longleftrightarrow> (case chans w c of None \<Rightarrow> False
     | Some ch \<Rightarrow> m_fd ch = f \<and> m_events ch = e \<and>
         m_channels w f = (if m_index ch < 0 then None else Some c))"

lemma interest_snoc: "interest (cs @ [c]) = interest_step c (interest cs)"
  by (simp add: interest_def)

lemma poll_invD:
  assumes "poll_inv w" and "m_channels w f = Some c"
  obtains ch where "chans w c = Some ch" "m_fd ch = f" "0 \<le> m_index ch"
proof -
  from assms have "case chans w c of None \<Rightarrow> False | Some ch \<Rightarrow> m_fd ch = f \<and> 0 \<le> m_index ch"
    by (simp add: poll_inv_def)
  then show thesis using that by (simp split: option.splits)
qed

text \<open>A channel is registered for at most one descriptor, its own.\<close>

lemma poll_inv_fd:
  "poll_inv w \<Longrightarrow> m_channels w f = Some c \<Longrightarrow> chans w c = Some ch \<Longrightarrow> f = m_fd ch"
  by (erule (1) poll_invD) simp

lemma newEpoll_inv: "poll_inv (newEpoll t)"
  by (auto simp: poll_inv_def newEpoll_def interest_def watches_def kInitEpollEventsSize_def
      kMaxEpollConcurrencySize_def)

section \<open>Registration\<close>

text \<open>Writing a channel and registering it under its descriptor.\<close>

lemma watches_put:
  assumes "poll_inv w" and "chans w c = Some ch" and "m_fd ch' = m_fd ch"
  shows "watches (w\<lparr>chans := (chans w)(c \<mapsto> ch'), m_channels := (m_channels w)(m_fd ch \<mapsto> c)\<rparr>) =
    (watches w)(m_fd ch \<mapsto> m_events ch')"
  using assms poll_inv_fd [OF assms(1) _ assms(2)]
  by (auto simp: watches_def fun_eq_iff split: option.splits)

lemma watches_cong: "chans w' = chans w \<Longrightarrow> m_channels w' = m_channels w \<Longrightarrow> watches w' = watches w"
  by (rule ext) (simp add: watches_def split: option.split)

lemma grow_events_simps [simp]:
  "chans (grow_events w) = chans w" "m_channels (grow_events w) = m_channels w"
  "m_maxEventsSize (grow_events w) = m_maxEventsSize w" "ctl_calls (grow_events w) = ctl_calls w"
  "events_size (grow_events w) = events_size w" "m_threadId (grow_events w) = m_threadId w"
  by (simp_all add: grow_events_def)

lemma grow_capacity:
  assumes "m_maxEventsSize w = int n" and "n < events_capacity w \<or> events_capacity w = kMaxEpollConcurrencySize"
    and "kInitEpollEventsSize \<le> events_capacity w" and "events_capacity w \<le> kMaxEpollConcurrencySize"
  shows "n + 1 < events_capacity (grow_events w) \<or> events_capacity (grow_events w) = kMaxEpollConcurrencySize"
    and "kInitEpollEventsSize \<le> events_capacity (grow_events w)"
    and "events_capacity (grow_events w) \<le> kMaxEpollConcurrencySize"
  using assms by (auto simp: grow_events_def kInitEpollEventsSize_def kMaxEpollConcurrencySize_def)

lemma registered_inv:
  assumes inv: "poll_inv w" and c: "chans w c = Some ch" and f: "m_channels w (m_fd ch) \<in> {None, Some c}"
    and w1: "chans w1 = (chans w)(c \<mapsto> ch')" "m_channels w1 = (m_channels w)(m_fd ch \<mapsto> c)"
      "m_maxEventsSize w1 = int (card (dom (m_channels w1)))" "events_size w1 = events_size w"
      "events_capacity w1 = events_capacity w"
      "ctl_calls w1 = ctl_calls w @ [(op, m_fd ch, m_events ch')]"
    and ch': "m_fd ch' = m_fd ch" "0 \<le> m_index ch'" and op: "op \<noteq> CTL_DEL"
  shows "poll_inv (grow_events w1)" and "watches (grow_events w1) = (watches w)(m_fd ch \<mapsto> m_events ch')"
proof -
  have fin: "finite (dom (m_channels w))" using inv by (simp add: poll_inv_def)
  have W: "watches w1 = (watches w)(m_fd ch \<mapsto> m_events ch')"
    by (subst watches_put [OF inv c ch'(1), symmetric], rule watches_cong) (simp_all add: w1(1,2))
  then show W': "watches (grow_events w1) = (watches w)(m_fd ch \<mapsto> m_events ch')"
    using watches_cong [of "grow_events w1" w1] by simp
  have I: "interest (ctl_calls w1) = watches w1"
    using inv W op w1(6) by (cases op) (simp_all add: interest_snoc interest_step_def poll_inv_def)
  have "card (dom (m_channels w1)) \<le> card (dom (m_channels w)) + 1"
    using w1(2) fin by (simp add: card_insert_if)
  with inv w1(5) have "card (dom (m_channels w1)) < events_capacity w1 \<or>
      events_capacity w1 = kMaxEpollConcurrencySize"
    by (auto simp: poll_inv_def)
  note cap = grow_capacity [OF w1(3) this]
  have "\<forall>f c'. m_channels w1 f = Some c' \<longrightarrow>
      (case chans w1 c' of None \<Rightarrow> False | Some x \<Rightarrow> m_fd x = f \<and> 0 \<le> m_index x)"
    using inv w1(1,2) ch' poll_inv_fd [OF inv _ c] by (auto simp: poll_inv_def)
  then show "poll_inv (grow_events w1)"
    using inv W W' I w1 fin cap by (simp add: poll_inv_def)
qed

text \<open>What a change of the mask does, for a new channel and for a registered one.\<close>

lemma set_mask_ok:
  assumes "kernel_ok k" and inv: "poll_inv w" and "t = m_threadId w" and "usable w c f e"
  shows "runs (\<lambda>w'. poll_inv w' \<and> m_threadId w' = t \<and> usable w' c f (apply_mask m e) \<and>
      watches w' = (watches w)(f \<mapsto> apply_mask m e) \<and> m_channels w' = (m_channels w)(f \<mapsto> c) \<and>
      (\<forall>c'. c' \<noteq> c \<longrightarrow> chans w' c' = chans w c')) (set_mask k t m c w)"
proof -
  from assms(4) obtain ch where c: "chans w c = Some ch" and ch: "m_fd ch = f" "m_events ch = e"
    and reg: "m_channels w f = (if m_index ch < 0 then None else Some c)"
    by (auto simp: usable_def split: option.splits)
  let ?ch = "ch\<lparr>m_events := apply_mask m e, m_addedToLoop := True\<rparr>"
  have int: "interest (ctl_calls w) = watches w" "finite (dom (m_channels w))"
    "m_maxEventsSize w = int (card (dom (m_channels w)))" using inv by (simp_all add: poll_inv_def)
  show ?thesis
  proof (cases "m_index ch < 0")
    case True
    let ?n = "m_maxEventsSize w + 1"
    let ?w1 = "w\<lparr>ctl_calls := ctl_calls w @ [(CTL_ADD, f, apply_mask m e)], m_maxEventsSize := ?n,
      chans := (chans w)(c \<mapsto> ?ch\<lparr>m_index := ?n\<rparr>), m_channels := (m_channels w)(f \<mapsto> c)\<rparr>"
    have "watches w f = None" using True reg by (simp add: watches_def)
    then have k: "k (ctl_calls w) (CTL_ADD, f, apply_mask m e)"
      using assms(1) int by (simp add: kernel_ok_def legal_call_def)
    have n: "f \<notin> dom (m_channels w)" using True reg by auto
    have R: "poll_inv (grow_events ?w1)" "watches (grow_events ?w1) = (watches w)(f \<mapsto> apply_mask m e)"
      using registered_inv [OF inv c, of ?w1 "?ch\<lparr>m_index := ?n\<rparr>" CTL_ADD] True reg ch n int by simp_all
    have "set_mask k t m c w = Inr (grow_events ?w1)"
      using True reg c ch k assms(3)
      by (simp add: set_mask_def Channel_update_def EventLoop_updateChannel_def Epoll_updateChannel_def
          chan_def put_chan_def assertInLoopThread_def epollRegister_def epoll_ctl_def
          Let_def)
    then show ?thesis using R ch assms(3) int by (simp add: usable_def)
  next
    case False
    let ?w1 = "w\<lparr>chans := (chans w)(c \<mapsto> ?ch), ctl_calls := ctl_calls w @ [(CTL_MOD, f, apply_mask m e)]\<rparr>"
    have same: "(m_channels w)(f \<mapsto> c) = m_channels w" using False reg by (simp add: fun_upd_idem)
    have "watches w f \<noteq> None" using False reg c by (simp add: watches_def)
    then have k: "k (ctl_calls w) (CTL_MOD, f, apply_mask m e)"
      using assms(1) int by (simp add: kernel_ok_def legal_call_def)
    have R: "poll_inv (grow_events ?w1)" "watches (grow_events ?w1) = (watches w)(f \<mapsto> apply_mask m e)"
      using registered_inv [OF inv c, of ?w1 ?ch CTL_MOD] False reg ch same int by simp_all
    have "set_mask k t m c w = Inr (grow_events ?w1)"
      using False reg c ch k assms(3)
      by (simp add: set_mask_def Channel_update_def EventLoop_updateChannel_def Epoll_updateChannel_def
          chan_def put_chan_def assertInLoopThread_def epollUpdate_def epoll_ctl_def)
    then show ?thesis using R ch assms(3) same False reg by (simp add: usable_def)
  qed
qed

lemma remove_ok:
  assumes "kernel_ok k" and inv: "poll_inv w" and "t = m_threadId w" and "usable w c f 0"
    and reg: "m_channels w f = Some c"
  shows "runs (\<lambda>w'. poll_inv w' \<and> m_threadId w' = t \<and> watches w' = (watches w)(f := None) \<and>
      m_channels w' = (m_channels w)(f := None) \<and>
      chans w' = (chans w)(c := map_option (\<lambda>ch. ch\<lparr>m_addedToLoop := False\<rparr>) (chans w c)))
    (Channel_remove k t c w)"
proof -
  from assms(4) obtain ch where c: "chans w c = Some ch" and ch: "m_fd ch = f" "m_events ch = 0"
    by (auto simp: usable_def split: option.splits)
  have int: "interest (ctl_calls w) = watches w" "finite (dom (m_channels w))"
    "m_maxEventsSize w = int (card (dom (m_channels w)))" using inv by (simp_all add: poll_inv_def)
  have "watches w f \<noteq> None" using reg c by (simp add: watches_def)
  then have k: "k (ctl_calls w) (CTL_DEL, f, 0)"
    using assms(1) int by (simp add: kernel_ok_def legal_call_def)
  let ?w1 = "w\<lparr>chans := (chans w)(c \<mapsto> ch\<lparr>m_addedToLoop := False\<rparr>), m_channels := (m_channels w)(f := None),
    m_maxEventsSize := m_maxEventsSize w - 1, ctl_calls := ctl_calls w @ [(CTL_DEL, f, 0)]\<rparr>"
  have W: "watches ?w1 = (watches w)(f := None)"
    using poll_inv_fd [OF inv _ c] ch by (auto simp: watches_def fun_eq_iff split: option.splits)
  have card: "card (dom (m_channels w) - {f}) = card (dom (m_channels w)) - 1"
    "0 < card (dom (m_channels w))"
    using int(2) domI [of "m_channels w", OF reg] by (auto simp: card_gt_0_iff card_Diff_singleton)
  have fds: "\<forall>f' c'. m_channels ?w1 f' = Some c' \<longrightarrow>
      (case chans ?w1 c' of None \<Rightarrow> False | Some x \<Rightarrow> m_fd x = f' \<and> 0 \<le> m_index x)"
    using inv poll_inv_fd [OF inv _ c] ch by (auto simp: poll_inv_def)
  have I: "poll_inv ?w1"
    using inv W int card fds
    by (simp add: poll_inv_def interest_snoc interest_step_def) auto
  have "Channel_remove k t c w = Inr ?w1"
    using c ch k reg assms(3)
    by (simp add: Channel_remove_def EventLoop_removeChannel_def Epoll_removeChannel_def chan_def
        put_chan_def assertInLoopThread_def epollDelete_def epoll_ctl_def isNoneEvent_def kNoneEvent_def)
  then show ?thesis using I W c assms(3) by simp
qed

section \<open>The interface of a poller\<close>

text \<open>
  What \<open>Poller\<close> promises to the owners of channels: \<open>watched\<close> is what the kernel waits for,
  \<open>owner\<close> the channel of a descriptor, \<open>known w c f e\<close> says that channel \<open>c\<close> on descriptor \<open>f\<close> with
  mask \<open>e\<close> may be used.
\<close>

locale poller =
  fixes inv :: "'w \<Rightarrow> bool" and watched :: "'w \<Rightarrow> fd \<Rightarrow> u32 option" and owner :: "'w \<Rightarrow> fd \<Rightarrow> cid option"
    and known :: "'w \<Rightarrow> cid \<Rightarrow> fd \<Rightarrow> u32 \<Rightarrow> bool"
    and set_ev :: "mask_op \<Rightarrow> cid \<Rightarrow> 'w \<Rightarrow> 'w res" and remove :: "cid \<Rightarrow> 'w \<Rightarrow> 'w res"
  assumes set_law: "inv w \<Longrightarrow> known w c f e \<Longrightarrow>
      runs (\<lambda>w'. inv w' \<and> known w' c f (apply_mask m e) \<and>
        watched w' = (watched w)(f \<mapsto> apply_mask m e) \<and> owner w' = (owner w)(f \<mapsto> c)) (set_ev m c w)"
    and remove_law: "inv w \<Longrightarrow> known w c f 0 \<Longrightarrow> owner w f = Some c \<Longrightarrow>
      runs (\<lambda>w'. inv w' \<and> watched w' = (watched w)(f := None) \<and> owner w' = (owner w)(f := None))
        (remove c w)"
begin

lemma set_all:
  assumes "inv w" and "known w c f e"
  shows "runs (\<lambda>w'. inv w' \<and> known w' c f (fold apply_mask ops e) \<and>
      watched w' = (if ops = [] then watched w else (watched w)(f \<mapsto> fold apply_mask ops e)) \<and>
      owner w' = (if ops = [] then owner w else (owner w)(f \<mapsto> c)))
    (foldE (\<lambda>m. set_ev m c) ops w)"
  using assms
proof (induction ops arbitrary: w e)
  case (Cons m ops)
  show ?case
    unfolding foldE.simps runs_bindE
  proof (rule runs_mono [OF set_law [OF Cons.prems, of m]])
    fix w' assume w': "inv w' \<and> known w' c f (apply_mask m e) \<and>
      watched w' = (watched w)(f \<mapsto> apply_mask m e) \<and> owner w' = (owner w)(f \<mapsto> c)"
    then show "runs (\<lambda>w''. inv w'' \<and> known w'' c f (fold apply_mask (m # ops) e) \<and>
        watched w'' = (if m # ops = [] then watched w else (watched w)(f \<mapsto> fold apply_mask (m # ops) e)) \<and>
        owner w'' = (if m # ops = [] then owner w else (owner w)(f \<mapsto> c)))
      (foldE (\<lambda>m. set_ev m c) ops w')"
      by (intro runs_mono [OF Cons.IH [of w' "apply_mask m e"]]) auto
  qed
qed simp

text \<open>The life of a channel: any changes of its mask, then \<open>disableAll\<close> and \<open>remove\<close>.\<close>

lemma life:
  assumes "inv w" and "known w c f e"
  shows "runs (\<lambda>w'. inv w' \<and> watched w' = (watched w)(f := None) \<and> owner w' = (owner w)(f := None))
    (bindE (foldE (\<lambda>m. set_ev m c) (ops @ [DisableAll]) w) (remove c))"
  unfolding runs_bindE
proof (rule runs_mono [OF set_all [OF assms, of "ops @ [DisableAll]"]])
  fix w' assume "inv w' \<and> known w' c f (fold apply_mask (ops @ [DisableAll]) e) \<and>
    watched w' = (if ops @ [DisableAll] = [] then watched w
      else (watched w)(f \<mapsto> fold apply_mask (ops @ [DisableAll]) e)) \<and>
    owner w' = (if ops @ [DisableAll] = [] then owner w else (owner w)(f \<mapsto> c))"
  moreover have "fold apply_mask (ops @ [DisableAll]) e = 0" by (simp add: apply_mask_def kNoneEvent_def)
  ultimately show "runs (\<lambda>w''. inv w'' \<and> watched w'' = (watched w)(f := None) \<and>
      owner w'' = (owner w)(f := None)) (remove c w')"
    by (intro runs_mono [OF remove_law [of w' c f]]) auto
qed

end

definition epoll_inv :: "kernel \<Rightarrow> tid \<Rightarrow> 'cb Poll \<Rightarrow> bool" where
  "epoll_inv k t w \<longleftrightarrow> kernel_ok k \<and> poll_inv w \<and> m_threadId w = t"

interpretation epoll: poller "epoll_inv k t" watches m_channels usable "set_mask k t" "Channel_remove k t"
  for k :: kernel and t :: tid
proof
  fix w :: "'a Poll" and c f e m
  show "runs (\<lambda>w'. epoll_inv k t w' \<and> usable w' c f (apply_mask m e) \<and>
      watches w' = (watches w)(f \<mapsto> apply_mask m e) \<and> m_channels w' = (m_channels w)(f \<mapsto> c))
    (set_mask k t m c w)" if "epoll_inv k t w" "usable w c f e"
    using that by (intro runs_mono [OF set_mask_ok]) (auto simp: epoll_inv_def)
  show "runs (\<lambda>w'. epoll_inv k t w' \<and> watches w' = (watches w)(f := None) \<and>
      m_channels w' = (m_channels w)(f := None)) (Channel_remove k t c w)"
    if "epoll_inv k t w" "usable w c f 0" "m_channels w f = Some c"
    using that by (intro runs_mono [OF remove_ok]) (auto simp: epoll_inv_def)
qed

section \<open>Polling\<close>

definition wait_ok :: "'cb Poll \<Rightarrow> (fd \<times> u32) list \<Rightarrow> bool" where
  "wait_ok w evs \<longleftrightarrow> distinct (map fst evs) \<and> int (length evs) \<le> m_maxEventsSize w \<and>
     (\<forall>e \<in> set evs. snd e \<noteq> 0 \<and> watches w (fst e) \<noteq> None)"

definition has_revents :: "fd \<times> u32 \<Rightarrow> 'cb Poll \<Rightarrow> bool" where
  "has_revents e w \<longleftrightarrow> (case m_channels w (fst e) of None \<Rightarrow> False
     | Some c \<Rightarrow> (case chans w c of None \<Rightarrow> False | Some ch \<Rightarrow> m_fd ch = fst e \<and> m_revents ch = snd e))"

lemma poll_inv_revents:
  assumes "poll_inv w" and "chans w c = Some ch"
  shows "poll_inv (put_chan c (ch\<lparr>m_revents := r\<rparr>) w)"
proof -
  have "watches (put_chan c (ch\<lparr>m_revents := r\<rparr>) w) = watches w"
    using assms(2) by (auto simp: watches_def put_chan_def fun_eq_iff split: option.split)
  moreover have "\<forall>f c'. m_channels w f = Some c' \<longrightarrow>
      (case ((chans w)(c \<mapsto> ch\<lparr>m_revents := r\<rparr>)) c' of None \<Rightarrow> False | Some x \<Rightarrow> m_fd x = f \<and> 0 \<le> m_index x)"
    using assms by (auto simp: poll_inv_def split: option.splits)
  ultimately show ?thesis using assms(1) by (simp add: poll_inv_def put_chan_def)
qed

lemma fill_ok:
  assumes "poll_inv w" and "distinct (map fst es)"
    and "\<forall>e \<in> set es. snd e \<noteq> 0 \<and> m_channels w (fst e) \<noteq> None"
  shows "runs (\<lambda>(active, w'). active = acc @ map (\<lambda>e. the (m_channels w (fst e))) es \<and> poll_inv w' \<and>
      m_channels w' = m_channels w \<and> (\<forall>e \<in> set es. has_revents e w') \<and>
      (\<forall>e. fst e \<notin> fst ` set es \<longrightarrow> has_revents e w \<longrightarrow> has_revents e w'))
    (foldE fillActive_one es (acc, w))"
  using assms
proof (induction es arbitrary: w acc)
  case (Cons e es)
  obtain c where c: "m_channels w (fst e) = Some c" using Cons.prems(3) by auto
  from poll_invD [OF Cons.prems(1) this] obtain ch where ch: "chans w c = Some ch" "m_fd ch = fst e" .
  let ?w = "put_chan c (ch\<lparr>m_revents := snd e\<rparr>) w"
  have 1: "fillActive_one e (acc, w) = Inr (acc @ [c], ?w)"
    using c ch Cons.prems(3) by (simp add: fillActive_one_def chan_def word_gt_0)
  have inv: "poll_inv ?w" by (rule poll_inv_revents [OF Cons.prems(1) ch(1)])
  have ms: "m_channels ?w = m_channels w" by (simp add: put_chan_def)
  have e: "has_revents e ?w" using c ch by (simp add: has_revents_def put_chan_def)
  have other: "has_revents e' ?w" if "fst e' \<noteq> fst e" "has_revents e' w" for e'
    using that ch by (auto simp: has_revents_def put_chan_def split: option.splits)
  have "runs (\<lambda>(active, w'). active = (acc @ [c]) @ map (\<lambda>e. the (m_channels ?w (fst e))) es \<and> poll_inv w' \<and>
      m_channels w' = m_channels ?w \<and> (\<forall>e \<in> set es. has_revents e w') \<and>
      (\<forall>e. fst e \<notin> fst ` set es \<longrightarrow> has_revents e ?w \<longrightarrow> has_revents e w'))
    (foldE fillActive_one es (acc @ [c], ?w))"
    using Cons.prems(2,3) inv ms by (intro Cons.IH) auto
  then show ?case
    unfolding foldE.simps 1 bindE_simps
    using c ms e other Cons.prems(2) by (cases e; elim runs_mono) (auto 4 3)
qed simp

section \<open>Properties\<close>

text \<open>
  C8: the poller keeps the kernel's interest list. A channel whose descriptor is not yet taken, put
  through any non-empty sequence of enable and disable calls on the loop thread, is registered once
  and updated afterwards with \<open>epoll_ctl\<close> calls the kernel accepts, and the kernel then waits on
  its descriptor for exactly the events of its mask; the other descriptors are as before. After
  \<open>disableAll\<close> and \<open>remove\<close> the descriptor is gone again. No assertion fails on the way.
\<close>

theorem channel_registration:
  assumes "kernel_ok k" and "poll_inv w" and "m_threadId w = t" and "usable w c f e" and "ops \<noteq> []"
  shows "runs (\<lambda>w'. poll_inv w' \<and>
      interest (ctl_calls w') = (interest (ctl_calls w))(f \<mapsto> fold apply_mask ops e) \<and>
      m_channels w' = (m_channels w)(f \<mapsto> c)) (foldE (\<lambda>m. set_mask k t m c) ops w) \<and>
    runs (\<lambda>w'. poll_inv w' \<and> interest (ctl_calls w') = (interest (ctl_calls w))(f := None) \<and>
      m_channels w' = (m_channels w)(f := None))
    (bindE (foldE (\<lambda>m. set_mask k t m c) (ops @ [DisableAll]) w) (Channel_remove k t c))"
proof -
  have inv: "epoll_inv k t w" using assms(1-3) by (simp add: epoll_inv_def)
  have W: "interest (ctl_calls w) = watches w" if "poll_inv w" for w :: "'a Poll"
    using that by (simp add: poll_inv_def)
  show ?thesis
    using runs_mono [OF epoll.set_all [OF inv assms(4), of ops]]
      runs_mono [OF epoll.life [OF inv assms(4), of ops]] assms(2,5) W
    by (simp add: epoll_inv_def)
qed

definition posix_kernel :: kernel where
  "posix_kernel cs c = legal_call cs c"

theorem channel_registration_witness:
  "runs (\<lambda>w'. interest (ctl_calls w') = [9 \<mapsto> 7])
    (foldE (\<lambda>m. set_mask posix_kernel 1 m 5) [EnableReading, EnableWriting]
      ((newEpoll 1)\<lparr>chans := [5 \<mapsto> (newChannel 9 :: unit Channel)]\<rparr>))"
proof -
  let ?w = "(newEpoll 1)\<lparr>chans := [5 \<mapsto> (newChannel 9 :: unit Channel)]\<rparr>"
  have k: "kernel_ok posix_kernel" by (simp add: kernel_ok_def posix_kernel_def)
  have i: "poll_inv ?w"
    by (auto simp: poll_inv_def newEpoll_def interest_def watches_def kInitEpollEventsSize_def
        kMaxEpollConcurrencySize_def)
  have u: "usable ?w 5 9 0" by (simp add: usable_def newChannel_def newEpoll_def)
  have "fold apply_mask [EnableReading, EnableWriting] 0 = (7 :: u32)"
    by (simp add: apply_mask_def event_defs)
  moreover have "interest (ctl_calls ?w) = Map.empty" by (simp add: newEpoll_def interest_def)
  ultimately show ?thesis
    using channel_registration [OF k i _ u, of 1 "[EnableReading, EnableWriting]"]
    by (auto simp: newEpoll_def intro: runs_mono)
qed

text \<open>
  When \<open>epoll_wait\<close> reports events on watched descriptors, the active channels are
  those of the first 1024 reported events, in that order, and each has the reported events as its
  \<open>m_revents\<close>. With at most 1024 events that is all of them; the events beyond that are ignored
  although the array was grown for them, because \<open>reserve\<close> does not change the vector's size.
\<close>

theorem poll_fills_active:
  assumes "poll_inv w" and "wait_ok w evs" and "length evs \<le> events_capacity w"
  shows "runs (\<lambda>(active, w'). active = map (\<lambda>e. the (m_channels w (fst e))) (take 1024 evs) \<and>
      poll_inv w' \<and> (\<forall>e \<in> set (take 1024 evs). has_revents e w')) (Epoll_poll (Inr evs) w)"
proof -
  have "distinct (map fst (take 1024 evs))"
    using assms(2) distinct_take [of "map fst evs" 1024] by (simp add: wait_ok_def take_map)
  moreover have "m_channels w f \<noteq> None" if "watches w f \<noteq> None" for f
    using that by (auto simp: watches_def split: option.splits)
  then have "\<forall>e \<in> set (take 1024 evs). snd e \<noteq> 0 \<and> m_channels w (fst e) \<noteq> None"
    using assms(2) by (auto simp: wait_ok_def dest!: in_set_takeD)
  ultimately have "runs (\<lambda>(active, w'). active = map (\<lambda>e. the (m_channels w (fst e))) (take 1024 evs) \<and>
      poll_inv w' \<and> (\<forall>e \<in> set (take 1024 evs). has_revents e w'))
    (foldE fillActive_one (take 1024 evs) ([], w))"
    using runs_mono [OF fill_ok [OF assms(1), of "take 1024 evs" "[]"]] by auto
  moreover have "events_size w = 1024" using assms(1) by (simp add: poll_inv_def kInitEpollEventsSize_def)
  ultimately show ?thesis using assms(3) by (simp add: Epoll_poll_def fillActiveChannels_def)
qed

definition two_channels :: "unit Poll" where
  "two_channels = (newEpoll 1)\<lparr>chans := [1 \<mapsto> (newChannel 7)\<lparr>m_events := 3, m_index := 1\<rparr>,
       2 \<mapsto> (newChannel 8)\<lparr>m_events := 4, m_index := 2\<rparr>],
     m_channels := [7 \<mapsto> 1, 8 \<mapsto> 2], m_maxEventsSize := 2,
     ctl_calls := [(CTL_ADD, 7, 3), (CTL_ADD, 8, 4)]\<rparr>"

lemma two_channels_inv: "poll_inv two_channels"
  by (auto simp: poll_inv_def two_channels_def newEpoll_def interest_def interest_step_def watches_def
      kInitEpollEventsSize_def kMaxEpollConcurrencySize_def newChannel_def fun_eq_iff)

theorem poll_fills_active_witness:
  "runs (\<lambda>(active, w'). active = [2, 1]) (Epoll_poll (Inr [(8, 4), (7, 1)]) two_channels)"
proof -
  have "wait_ok two_channels [(8, 4), (7, 1)]"
    by (simp add: wait_ok_def two_channels_def watches_def)
  from poll_fills_active [OF two_channels_inv this] show ?thesis
    by (auto simp: two_channels_def newEpoll_def kInitEpollEventsSize_def intro: runs_mono)
qed

text \<open>
  A channel object cannot be used again after \<open>remove\<close>. Its index keeps the value from the
  registration, so the next enable call takes the branch for a registered channel and fails its
  assertion.
\<close>

theorem removed_channel_aborts:
  assumes "kernel_ok k" and "poll_inv w" and "m_threadId w = t" and "usable w c f 0"
    and "m_channels w f = Some c"
  shows "bindE (Channel_remove k t c w) (set_mask k t m c) = Inl AssertFail"
proof -
  obtain ch where ch: "chans w c = Some ch" "m_fd ch = f" "0 \<le> m_index ch"
    using poll_invD [OF assms(2,5)] .
  from remove_ok [OF assms(1,2) assms(3) [symmetric] assms(4,5)]
  obtain w' where w': "Channel_remove k t c w = Inr w'" "m_channels w' f = None" "m_threadId w' = t"
      "chans w' c = Some (ch\<lparr>m_addedToLoop := False\<rparr>)"
    using ch(1) by (auto simp: runs_iff)
  then show ?thesis
    using ch by (simp add: set_mask_def Channel_update_def EventLoop_updateChannel_def
        Epoll_updateChannel_def chan_def put_chan_def assertInLoopThread_def)
qed

theorem removed_channel_aborts_witness:
  "bindE (Channel_remove posix_kernel 1 1
      (two_channels\<lparr>chans := (chans two_channels)(1 \<mapsto> (newChannel 7)\<lparr>m_index := 1\<rparr>),
        ctl_calls := [(CTL_ADD, 7, 0), (CTL_ADD, 8, 4)]\<rparr>)) (set_mask posix_kernel 1 EnableReading 1) =
   Inl AssertFail"
proof -
  let ?w = "two_channels\<lparr>chans := (chans two_channels)(1 \<mapsto> (newChannel 7)\<lparr>m_index := 1\<rparr>),
    ctl_calls := [(CTL_ADD, 7, 0), (CTL_ADD, 8, 4)]\<rparr>"
  have k: "kernel_ok posix_kernel" by (simp add: kernel_ok_def posix_kernel_def)
  have i: "poll_inv ?w"
    by (auto simp: poll_inv_def two_channels_def newEpoll_def interest_def interest_step_def watches_def
        kInitEpollEventsSize_def kMaxEpollConcurrencySize_def newChannel_def fun_eq_iff)
  show ?thesis
    using removed_channel_aborts [OF k i, of 1 1 7 EnableReading]
    by (simp add: two_channels_def newEpoll_def usable_def newChannel_def)
qed

end
