(* ===== verification/LogStream.thy ===== *)
theory LogStream
  imports TimeStamp "HOL-Library.Sublist"
begin

text \<open>
  \<open>base/LogStream.h\<close> and \<open>base/LogStream.cpp\<close>: the fixed-size buffer of a log line and the
  \<open>operator<<\<close> overloads that format into it. The storage is modelled as it is, an array of \<open>SIZE\<close>
  characters of which the first \<open>lb_cur\<close> are in use, so that every write is checked against the
  array; its initial contents are arbitrary.
\<close>

section \<open>Buffers of log text\<close>

record LogBuffer =
  lb_data :: "char list"
  lb_cur :: nat

definition kSmallBuffer :: nat where "kSmallBuffer = 4096"
definition kLargeBuffer :: nat where "kLargeBuffer = 4096 * 1000"

definition newLogBuffer :: "char list \<Rightarrow> LogBuffer" where
  "newLogBuffer mem = \<lparr>lb_data = mem, lb_cur = 0\<rparr>"

definition avail :: "LogBuffer \<Rightarrow> int" where
  "avail b = int (length (lb_data b)) - int (lb_cur b)"

definition LogBuffer_length :: "LogBuffer \<Rightarrow> int" where
  "LogBuffer_length b = int (lb_cur b)"

definition lb_add :: "nat \<Rightarrow> LogBuffer \<Rightarrow> LogBuffer" where
  "lb_add len b = b\<lparr>lb_cur := lb_cur b + len\<rparr>"

definition lb_reset :: "LogBuffer \<Rightarrow> LogBuffer" where
  "lb_reset b = b\<lparr>lb_cur := 0\<rparr>"

definition lb_bzero :: "LogBuffer \<Rightarrow> LogBuffer" where
  "lb_bzero b = b\<lparr>lb_data := replicate (length (lb_data b)) (CHR 0x00)\<rparr>"

text \<open>A write through the pointer that \<open>current\<close> returns.\<close>

definition at_current :: "char list \<Rightarrow> LogBuffer \<Rightarrow> LogBuffer res" where
  "at_current s b = bindE (vec_write (lb_cur b) s (lb_data b)) (\<lambda>d. Inr (b\<lparr>lb_data := d\<rparr>))"

text \<open>\<open>append\<close>; the comparison converts \<open>avail\<close> to \<open>size_t\<close>.\<close>

definition LogBuffer_append :: "char list \<Rightarrow> LogBuffer \<Rightarrow> LogBuffer res" where
  "LogBuffer_append s b =
     (if size_of_int (avail b) > length s
      then bindE (at_current s b) (\<lambda>b'. Inr (lb_add (length s) b'))
      else Inr b)"

section \<open>Numbers\<close>

definition digits :: string where "digits = ''9876543210123456789''"
definition digitsHex :: string where "digitsHex = ''0123456789ABCDEF''"

text \<open>\<open>zero[lsd]\<close>, where \<open>zero\<close> points to the middle of \<open>digits\<close>.\<close>

definition zero_at :: "int \<Rightarrow> char" where
  "zero_at lsd = digits ! nat (9 + lsd)"

lemma cdiv_smaller: "cdiv i 10 \<noteq> 0 \<Longrightarrow> nat \<bar>cdiv i 10\<bar> < nat \<bar>i\<bar>"
  by (cases "i = 0") (auto simp: cdiv_def abs_mult abs_sgn_eq)

function convert_loop :: "int \<Rightarrow> char list" where
  "convert_loop i =
     (let lsd = crem i 10; i' = cdiv i 10 in
      zero_at lsd # (if i' \<noteq> 0 then convert_loop i' else []))"
  by pat_completeness auto
termination
proof (relation "measure (\<lambda>i. nat \<bar>i\<bar>)")
  fix i lsd i' assume "i' = cdiv i 10" and "i' \<noteq> 0"
  then show "(i', i) \<in> measure (\<lambda>i. nat \<bar>i\<bar>)" using cdiv_smaller [of i] by simp
qed simp

declare convert_loop.simps [simp del]

text \<open>\<open>convert\<close> leaves this text and a terminating zero at \<open>buf\<close>, and returns the text's length.\<close>

definition convert :: "int \<Rightarrow> char list" where
  "convert v = rev (convert_loop v @ (if v < 0 then ''-'' else []))"

fun convertHex_loop :: "nat \<Rightarrow> char list" where
  "convertHex_loop i =
     digitsHex ! (i mod 16) # (if i div 16 \<noteq> 0 then convertHex_loop (i div 16) else [])"

declare convertHex_loop.simps [simp del]

definition convertHex :: "nat \<Rightarrow> char list" where
  "convertHex v = rev (convertHex_loop v)"

definition kMaxNumericSize :: int where "kMaxNumericSize = 32"

definition formatInteger :: "int \<Rightarrow> LogBuffer \<Rightarrow> LogBuffer res" where
  "formatInteger v b =
     (if avail b \<ge> kMaxNumericSize
      then bindE (at_current (convert v @ [CHR 0x00]) b) (\<lambda>b'. Inr (lb_add (length (convert v)) b'))
      else Inr b)"

section \<open>The overloads\<close>

definition put_bool :: "bool \<Rightarrow> LogBuffer \<Rightarrow> LogBuffer res" where
  "put_bool v = LogBuffer_append (if v then ''1'' else ''0'')"

definition put_pointer :: "nat \<Rightarrow> LogBuffer \<Rightarrow> LogBuffer res" where
  "put_pointer v b =
     (if avail b \<ge> kMaxNumericSize
      then bindE (at_current (''0x'' @ convertHex v @ [CHR 0x00]) b)
             (\<lambda>b'. Inr (lb_add (length (convertHex v) + 2) b'))
      else Inr b)"

text \<open>\<open>text\<close> is what \<open>%.12g\<close> prints; \<open>snprintf\<close> returns its length, truncated or not.\<close>

definition put_double :: "char list \<Rightarrow> LogBuffer \<Rightarrow> LogBuffer res" where
  "put_double text b =
     (if avail b \<ge> kMaxNumericSize
      then bindE (at_current (take 31 text @ [CHR 0x00]) b) (\<lambda>b'. Inr (lb_add (length text) b'))
      else Inr b)"

definition put_char :: "char \<Rightarrow> LogBuffer \<Rightarrow> LogBuffer res" where
  "put_char v = LogBuffer_append [v]"

definition put_cstr :: "char list option \<Rightarrow> LogBuffer \<Rightarrow> LogBuffer res" where
  "put_cstr str = LogBuffer_append (case str of Some s \<Rightarrow> s | None \<Rightarrow> ''(NULL)'')"

definition put_string :: "string \<Rightarrow> LogBuffer \<Rightarrow> LogBuffer res" where
  "put_string s = LogBuffer_append (if s \<noteq> [] then s else ''(NULL)'')"

text \<open>\<open>Fmt\<close>: the text \<open>snprintf\<close> prints for one value must fit the array of 32 characters.\<close>

definition Fmt :: "char list \<Rightarrow> char list res" where
  "Fmt text = assertE (length text < 32) (Inr text)"

datatype item = Bool bool | Integer int | Pointer nat | Double "char list" | Char char
  | CStr "char list option" | Str string

fun put :: "item \<Rightarrow> LogBuffer \<Rightarrow> LogBuffer res" where
  "put (Bool v) = put_bool v"
| "put (Integer v) = formatInteger v"
| "put (Pointer v) = put_pointer v"
| "put (Double t) = put_double t"
| "put (Char v) = put_char v"
| "put (CStr s) = put_cstr s"
| "put (Str s) = put_string s"

section \<open>What is printed\<close>

definition lb_text :: "LogBuffer \<Rightarrow> char list" where
  "lb_text b = take (lb_cur b) (lb_data b)"

definition lb_inv :: "LogBuffer \<Rightarrow> bool" where
  "lb_inv b \<longleftrightarrow> lb_cur b < length (lb_data b) \<and> length (lb_data b) < 2 ^ 31"

fun item_text :: "item \<Rightarrow> char list" where
  "item_text (Bool v) = (if v then ''1'' else ''0'')"
| "item_text (Integer v) = dec_int v"
| "item_text (Pointer v) = ''0x'' @ convertHex v"
| "item_text (Double t) = t"
| "item_text (Char v) = [v]"
| "item_text (CStr s) = (case s of Some t \<Rightarrow> t | None \<Rightarrow> ''(NULL)'')"
| "item_text (Str s) = (if s \<noteq> [] then s else ''(NULL)'')"

text \<open>The ranges of the parameter types: 64-bit integers of either sign, pointers, \<open>%.12g\<close>.\<close>

fun item_ok :: "item \<Rightarrow> bool" where
  "item_ok (Integer v) \<longleftrightarrow> - (2 ^ 63) \<le> v \<and> v < 2 ^ 64"
| "item_ok (Pointer v) \<longleftrightarrow> v < 2 ^ 64"
| "item_ok (Double t) \<longleftrightarrow> length t < 32"
| "item_ok _ \<longleftrightarrow> True"

lemma zero_at_digit:
  assumes "\<bar>d\<bar> < 10"
  shows "zero_at d = digit (nat \<bar>d\<bar>)"
proof -
  have "- 10 < d \<and> d < 10" using assms by arith
  then have "d \<in> {- 9, - 8, - 7, - 6, - 5, - 4, - 3, - 2, - 1, 0, 1, 2, 3, 4, 5, 6, 7, 8, 9}"
    unfolding insert_iff empty_iff by presburger
  then show ?thesis by (elim insertE emptyE) (use digit_table in \<open>simp_all add: zero_at_def digits_def\<close>)
qed

lemma abs_cdiv: "\<bar>cdiv i 10\<bar> = \<bar>i\<bar> div 10"
  by (cases "i = 0") (auto simp: cdiv_def abs_mult abs_sgn_eq)

lemma abs_crem: "\<bar>crem i 10\<bar> = \<bar>i\<bar> mod 10"
proof (cases "0 \<le> i")
  case True
  then show ?thesis by (simp add: crem_nonneg)
next
  case False
  then have "crem i 10 = - ((- i) mod 10)"
    by (simp add: crem_def cdiv_def sgn_if minus_mult_div_eq_mod [symmetric])
  then show ?thesis using False by simp
qed

lemma convert_loop_dec: "convert_loop i = rev (dec_nat (nat \<bar>i\<bar>))"
proof (induction i rule: convert_loop.induct)
  case (1 i)
  have lsd: "zero_at (crem i 10) = digit (nat \<bar>i\<bar> mod 10)"
    using zero_at_digit [of "crem i 10"] abs_crem [of i] by (simp add: nat_mod_distrib)
  have q: "nat \<bar>cdiv i 10\<bar> = nat \<bar>i\<bar> div 10" by (simp add: abs_cdiv nat_div_distrib)
  have z: "cdiv i 10 \<noteq> 0 \<longleftrightarrow> \<not> nat \<bar>i\<bar> < 10" using abs_cdiv [of i] by auto
  show ?case
  proof (cases "cdiv i 10 = 0")
    case True
    then show ?thesis using z lsd by (subst convert_loop.simps, subst dec_nat.simps) simp
  next
    case False
    then show ?thesis
      using 1 z lsd q by (subst convert_loop.simps, subst dec_nat.simps) simp
  qed
qed

lemma convert_dec [simp]: "convert v = dec_int v"
  by (simp add: convert_def dec_int_def convert_loop_dec)

lemma dec_int_length: "- (2 ^ 63) \<le> v \<Longrightarrow> v < 2 ^ 64 \<Longrightarrow> length (dec_int v) \<le> 20"
  using length_dec_nat [of "nat v" 19] length_dec_nat [of "nat (- v)" 18]
  by (simp add: dec_int_def nat_less_iff)

lemma convertHex_loop_length: "v < 16 ^ Suc k \<Longrightarrow> length (convertHex_loop v) \<le> Suc k"
proof (induction k arbitrary: v)
  case 0
  then show ?case by (subst convertHex_loop.simps) simp
next
  case (Suc k)
  then have "v div 16 < 16 ^ Suc k" by (simp add: div_less_iff_less_mult mult.commute)
  from Suc.IH [OF this] show ?case by (subst convertHex_loop.simps) simp
qed

lemma convertHex_length: "v < 2 ^ 64 \<Longrightarrow> length (convertHex v) \<le> 16"
  using convertHex_loop_length [of v 15] by (simp add: convertHex_def)

lemma at_current_ok:
  assumes "lb_inv b" and "lb_cur b + length s \<le> length (lb_data b)" and "n \<le> length s"
    and "lb_cur b + n < length (lb_data b)"
  shows "runs (\<lambda>b'. lb_inv b' \<and> length (lb_data b') = length (lb_data b) \<and> lb_text b' = lb_text b @ take n s)
    (bindE (at_current s b) (\<lambda>b'. Inr (lb_add n b')))"
  using assms by (simp add: at_current_def runs_simps lb_add_def lb_inv_def lb_text_def min_def)

text \<open>Each overload prints its whole text or nothing, and it prints while there is room.\<close>

definition prints :: "char list \<Rightarrow> LogBuffer \<Rightarrow> LogBuffer \<Rightarrow> bool" where
  "prints s b b' \<longleftrightarrow> lb_inv b' \<and> length (lb_data b') = length (lb_data b) \<and>
     (lb_text b' = lb_text b @ s \<or> lb_text b' = lb_text b \<and> avail b < max 32 (int (length s) + 1))"

lemma append_prints:
  assumes "lb_inv b"
  shows "runs (prints s b) (LogBuffer_append s b)"
proof (cases "length s < size_of_int (avail b)")
  case True
  moreover have "size_of_int (avail b) = nat (avail b)"
    using assms by (intro size_of_int_exact) (simp_all add: avail_def lb_inv_def)
  ultimately have "lb_cur b + length s < length (lb_data b)" by (simp add: avail_def)
  then show ?thesis
    using runs_mono [OF at_current_ok [OF assms, of s "length s"]] True
    by (simp add: LogBuffer_append_def prints_def)
next
  case False
  moreover have "size_of_int (avail b) = nat (avail b)"
    using assms by (intro size_of_int_exact) (simp_all add: avail_def lb_inv_def)
  ultimately show ?thesis using assms by (simp add: LogBuffer_append_def prints_def) linarith
qed

lemma numeric_prints:
  assumes "lb_inv b" and "length s \<le> 31"
  shows "runs (prints s b)
    (if avail b \<ge> kMaxNumericSize
     then bindE (at_current (s @ [CHR 0x00]) b) (\<lambda>b'. Inr (lb_add (length s) b')) else Inr b)"
  using runs_mono [OF at_current_ok [OF assms(1), of "s @ [CHR 0x00]" "length s"]] assms
  by (auto simp: prints_def kMaxNumericSize_def avail_def)

lemma put_prints:
  assumes "lb_inv b" and "item_ok i"
  shows "runs (prints (item_text i) b) (put i b)"
proof (cases i)
  case (Integer v)
  then show ?thesis
    using numeric_prints [OF assms(1), of "dec_int v"] dec_int_length [of v] assms(2)
    unfolding Integer put.simps item_text.simps formatInteger_def convert_dec by simp
next
  case (Pointer v)
  have e: "(''0x'' @ convertHex v) @ [CHR 0x00] = ''0x'' @ convertHex v @ [CHR 0x00]"
    "length (''0x'' @ convertHex v) = length (convertHex v) + 2"
    by simp_all
  have "length (''0x'' @ convertHex v) \<le> 31" using Pointer assms(2) convertHex_length [of v] by simp
  from numeric_prints [OF assms(1) this, unfolded e] show ?thesis
    unfolding Pointer put.simps item_text.simps put_pointer_def .
next
  case (Double t)
  with assms(2) have l: "length t \<le> 31" by simp
  then have e: "take 31 t = t" by simp
  from numeric_prints [OF assms(1) l] show ?thesis
    unfolding Double put.simps item_text.simps put_double_def e .
qed (auto intro: append_prints [OF assms(1)] simp: put_bool_def put_char_def put_cstr_def put_string_def)

lemma lb_text_length: "lb_inv b \<Longrightarrow> int (length (lb_text b)) = int (length (lb_data b)) - avail b"
  by (simp add: lb_inv_def lb_text_def avail_def)

lemma puts_print:
  assumes "lb_inv b" and "\<forall>i \<in> set is. item_ok i"
  shows "runs (\<lambda>b'. lb_inv b' \<and> length (lb_data b') = length (lb_data b) \<and>
      (\<exists>kept. subseq kept is \<and> lb_text b' = lb_text b @ concat (map item_text kept) \<and>
        (int (length (concat (map item_text is))) + 32 \<le> avail b \<longrightarrow> kept = is))) (foldE put is b)"
  using assms
proof (induction "is" arbitrary: b)
  case (Cons i "is")
  have head: "runs (prints (item_text i) b) (put i b)" using Cons.prems by (intro put_prints) simp_all
  show ?case
    unfolding foldE.simps runs_bindE
  proof (rule runs_mono [OF head])
    fix b1 assume b1: "prints (item_text i) b b1"
    then have inv: "lb_inv b1" "length (lb_data b1) = length (lb_data b)" by (simp_all add: prints_def)
    have av: "int (length (lb_text b)) = int (length (lb_data b)) - avail b"
      "int (length (lb_text b1)) = int (length (lb_data b)) - avail b1"
      using lb_text_length [OF Cons.prems(1)] lb_text_length [OF inv(1)] inv(2) by simp_all
    have "runs (\<lambda>b'. lb_inv b' \<and> length (lb_data b') = length (lb_data b1) \<and>
      (\<exists>kept. subseq kept is \<and> lb_text b' = lb_text b1 @ concat (map item_text kept) \<and>
        (int (length (concat (map item_text is))) + 32 \<le> avail b1 \<longrightarrow> kept = is))) (foldE put is b1)"
      using Cons.prems(2) by (intro Cons.IH [OF inv(1)]) simp
    then show "runs (\<lambda>b'. lb_inv b' \<and> length (lb_data b') = length (lb_data b) \<and>
      (\<exists>kept. subseq kept (i # is) \<and> lb_text b' = lb_text b @ concat (map item_text kept) \<and>
        (int (length (concat (map item_text (i # is)))) + 32 \<le> avail b \<longrightarrow> kept = i # is))) (foldE put is b1)"
    proof (rule runs_mono, elim conjE exE)
      fix b' kept
      assume k: "lb_inv b'" "length (lb_data b') = length (lb_data b1)" "subseq kept is"
        "lb_text b' = lb_text b1 @ concat (map item_text kept)"
        "int (length (concat (map item_text is))) + 32 \<le> avail b1 \<longrightarrow> kept = is"
      show "lb_inv b' \<and> length (lb_data b') = length (lb_data b) \<and>
        (\<exists>kept. subseq kept (i # is) \<and> lb_text b' = lb_text b @ concat (map item_text kept) \<and>
          (int (length (concat (map item_text (i # is)))) + 32 \<le> avail b \<longrightarrow> kept = i # is))"
      proof (cases "lb_text b1 = lb_text b @ item_text i")
        case True
        then show ?thesis using k inv av by (intro conjI exI [of _ "i # kept"]) auto
      next
        case False
        with b1 have "lb_text b1 = lb_text b" "avail b < max 32 (int (length (item_text i)) + 1)"
          by (auto simp: prints_def)
        then show ?thesis using k inv by (intro conjI exI [of _ kept]) auto
      qed
    qed
  qed
qed auto

section \<open>Properties\<close>

text \<open>
  C23: a log line stays inside its array. Whatever sequence of values is streamed into a buffer, no
  write leaves the array; each value appears completely or not at all, the values that appear keep
  their order, integers of every 64-bit type, the smallest included, appear in decimal, and nothing
  is dropped while the text of all values leaves 32 characters free.
\<close>

theorem log_stream_bounded:
  assumes "lb_inv b" and "\<forall>i \<in> set is. item_ok i"
  shows "runs (\<lambda>b'. lb_inv b' \<and> length (lb_data b') = length (lb_data b) \<and>
      (\<exists>kept. subseq kept is \<and> lb_text b' = lb_text b @ concat (map item_text kept) \<and>
        (int (length (concat (map item_text is))) + 32 \<le> avail b \<longrightarrow> kept = is))) (foldE put is b)"
  using assms by (rule puts_print)

theorem log_stream_bounded_witness:
  "runs (\<lambda>b'. lb_text b' = ''x = -9223372036854775808'')
    (foldE put [CStr (Some ''x = ''), Integer (- (2 ^ 63))] (newLogBuffer (replicate 100 (CHR ''?''))))"
proof -
  have d: "dec_int (- (2 ^ 63)) = ''-9223372036854775808''"
    using digit_table by (simp add: dec_int_def dec_nat.simps)
  have b: "lb_inv (newLogBuffer (replicate 100 (CHR ''?'')))"
    "lb_text (newLogBuffer (replicate 100 (CHR ''?''))) = []"
    "avail (newLogBuffer (replicate 100 (CHR ''?''))) = 100"
    by (simp_all add: newLogBuffer_def lb_inv_def lb_text_def avail_def)
  let ?xs = "[CStr (Some ''x = ''), Integer (- (2 ^ 63))]"
  have tx: "concat (map item_text ?xs) = ''x = -9223372036854775808''" using d by simp
  have "\<forall>i \<in> set ?xs. item_ok i" by simp
  from log_stream_bounded [OF b(1) this] show ?thesis
    unfolding b(2,3) tx by (rule runs_mono) (use tx in auto)
qed

end
