(* ===== verification/Logger.thy ===== *)
theory Logger
  imports LogStream
begin

text \<open>
  \<open>base/Logger.h\<close> and \<open>base/Logger.cpp\<close>: one statement of the \<open>LOG_\<close> macros, from the construction of
  its \<open>Logger\<close> to the destructor that hands the line to the output function. The text of the current
  second is cached per thread; the cache is the record \<open>log_tls\<close>. \<open>gmtime_r\<close> is modelled for times
  from 1970 on.
\<close>

section \<open>Calendar\<close>

record tm =
  tm_year :: nat
  tm_mon :: nat
  tm_mday :: nat
  tm_hour :: nat
  tm_min :: nat
  tm_sec :: nat

definition leap :: "nat \<Rightarrow> bool" where
  "leap y \<longleftrightarrow> 4 dvd y \<and> (\<not> 100 dvd y \<or> 400 dvd y)"

definition year_days :: "nat \<Rightarrow> nat" where
  "year_days y = (if leap y then 366 else 365)"

definition month_days :: "nat \<Rightarrow> nat list" where
  "month_days y = [31, if leap y then 29 else 28, 31, 30, 31, 30, 31, 31, 30, 31, 30, 31]"

function split_years :: "nat \<Rightarrow> nat \<Rightarrow> nat \<times> nat" where
  "split_years y d = (if d < year_days y then (y, d) else split_years (Suc y) (d - year_days y))"
  by pat_completeness auto
termination by (relation "measure snd") (auto simp: year_days_def split: if_splits)

declare split_years.simps [simp del]

fun split_months :: "nat list \<Rightarrow> nat \<Rightarrow> nat \<times> nat" where
  "split_months [] d = (0, d)"
| "split_months (n # ns) d = (if d < n then (0, d) else case split_months ns (d - n) of (m, r) \<Rightarrow> (Suc m, r))"

definition gmtime_r :: "int \<Rightarrow> tm" where
  "gmtime_r seconds =
     (let t = nat seconds; s = t mod 86400;
          (y, yday) = split_years 1970 (t div 86400);
          (mon, mday) = split_months (month_days y) yday
      in \<lparr>tm_year = y - 1900, tm_mon = mon, tm_mday = Suc mday,
          tm_hour = s div 3600, tm_min = s div 60 mod 60, tm_sec = s mod 60\<rparr>)"

section \<open>Loggers\<close>

datatype LogLevel = TRACE | DEBUG | INFO | WARN | LERROR | FATAL

fun LogLevelName :: "LogLevel \<Rightarrow> string" where
  "LogLevelName TRACE = ''[TRACE]''"
| "LogLevelName DEBUG = ''[DEBUG]''"
| "LogLevelName INFO = ''[INFO]''"
| "LogLevelName WARN = ''[WARN]''"
| "LogLevelName LERROR = ''[ERROR]''"
| "LogLevelName FATAL = ''[FATAL]''"

fun level_value :: "LogLevel \<Rightarrow> nat" where
  "level_value TRACE = 0"
| "level_value DEBUG = 1"
| "level_value INFO = 2"
| "level_value WARN = 3"
| "level_value LERROR = 4"
| "level_value FATAL = 5"

text \<open>\<open>SourceFile\<close>: what follows the last slash.\<close>

definition SourceFile :: "string \<Rightarrow> string" where
  "SourceFile filename = rev (takeWhile (\<lambda>c. c \<noteq> CHR ''/'') (rev filename))"

record log_tls =
  t_time :: string
  t_lastSecond :: int

record Logger =
  lg_time :: TimeStamp
  lg_stream :: LogBuffer
  lg_level :: LogLevel
  lg_line :: int
  lg_fileBaseName :: string

definition dec_blank_width :: "nat \<Rightarrow> int \<Rightarrow> string" where
  "dec_blank_width w i = replicate (w - length (dec_int i)) (CHR '' '') @ dec_int i"

text \<open>The \<open>snprintf\<close> of \<open>formatTime\<close>.\<close>

definition time_fields :: "tm \<Rightarrow> string" where
  "time_fields tm =
     dec_blank_width 4 (int (tm_year tm) + 1900) @ ''-'' @ dec_int_width 2 (int (tm_mon tm) + 1) @ ''-'' @
     dec_int_width 2 (int (tm_mday tm)) @ '' '' @ dec_int_width 2 (int (tm_hour tm) + 8) @ '':'' @
     dec_int_width 2 (int (tm_min tm)) @ '':'' @ dec_int_width 2 (int (tm_sec tm))"

definition formatTime :: "TimeStamp \<Rightarrow> log_tls \<Rightarrow> LogBuffer \<Rightarrow> (log_tls \<times> LogBuffer) res" where
  "formatTime time tls b =
     (let seconds = cdiv (microSecondsSinceEpoch time) kMicroSecondsPerSecond;
          microseconds = crem (microSecondsSinceEpoch time) kMicroSecondsPerSecond in
      bindE (if seconds \<noteq> t_lastSecond tls
             then let text = time_fields (gmtime_r seconds) in
                  assertE (length text = 19) (Inr \<lparr>t_time = take 63 text, t_lastSecond = seconds\<rparr>)
             else Inr tls) (\<lambda>tls1.
      bindE (Fmt (''.'' @ dec_int_width 6 microseconds @ '' '')) (\<lambda>us.
      assertE (length us = 8)
        (bindE (foldE put [CStr (Some (t_time tls1)), CStr (Some us)] b) (\<lambda>b'. Inr (tls1, b'))))))"

text \<open>\<open>Logger::Impl\<close>; \<open>mem\<close> is what the stream's array holds at first, \<open>err\<close> the text for \<open>savedErrno\<close>.\<close>

definition Impl ::
  "TimeStamp \<Rightarrow> log_tls \<Rightarrow> char list \<Rightarrow> LogLevel \<Rightarrow> int \<Rightarrow> string \<Rightarrow> string \<Rightarrow> int \<Rightarrow> (log_tls \<times> Logger) res" where
  "Impl now tls mem level savedErrno err file line =
     bindE (formatTime now tls (newLogBuffer mem)) (\<lambda>(tls1, b).
     bindE (foldE put
       ([CStr (Some (LogLevelName level)), Char (CHR '' '')] @
        [Char (CHR ''[''), CStr (Some (SourceFile file)), Char (CHR '':''), Integer line, CStr (Some ''] '')] @
        (if savedErrno \<noteq> 0
         then [CStr (Some err), CStr (Some '' (errno=''), Integer savedErrno, CStr (Some '') '')] else [])) b)
       (\<lambda>b1. Inr (tls1, \<lparr>lg_time = now, lg_stream = b1, lg_level = level, lg_line = line,
          lg_fileBaseName = SourceFile file\<rparr>)))"

text \<open>The four constructors: \<open>LOG_INFO\<close>, the other levels, \<open>LOG_SYSERR\<close> and \<open>LOG_SYSFATAL\<close>, and those with a function name.\<close>

definition Logger_info where
  "Logger_info now tls mem file line = Impl now tls mem INFO 0 [] file line"

definition Logger_level where
  "Logger_level now tls mem file line level = Impl now tls mem level 0 [] file line"

definition Logger_sys where
  "Logger_sys now tls mem file line toAbort errnum err =
     Impl now tls mem (if toAbort then FATAL else LERROR) errnum err file line"

definition Logger_func where
  "Logger_func now tls mem file line level func =
     bindE (Impl now tls mem level 0 [] file line) (\<lambda>(tls1, lg).
     bindE (foldE put [Char (CHR ''[''), CStr (Some func), CStr (Some ''] '')] (lg_stream lg)) (\<lambda>b.
     Inr (tls1, lg\<lparr>lg_stream := b\<rparr>)))"

definition finish :: "Logger \<Rightarrow> Logger res" where
  "finish lg = bindE (put_char (CHR 0x0A) (lg_stream lg)) (\<lambda>b. Inr (lg\<lparr>lg_stream := b\<rparr>))"

text \<open>The destructor: the line given to \<open>g_output\<close>, and whether the process aborts after it.\<close>

definition destroyLogger :: "Logger \<Rightarrow> (string \<times> bool) res" where
  "destroyLogger lg =
     bindE (finish lg) (\<lambda>lg1.
     Inr (take (nat (LogBuffer_length (lg_stream lg1))) (lb_data (lg_stream lg1)), lg_level lg1 = FATAL))"

text \<open>The macros test the global level only for \<open>TRACE\<close>, \<open>DEBUG\<close> and \<open>INFO\<close>.\<close>

definition log_enabled :: "LogLevel \<Rightarrow> LogLevel \<Rightarrow> bool" where
  "log_enabled g_logLevel level \<longleftrightarrow>
     (level \<in> {TRACE, DEBUG, INFO} \<longrightarrow> level_value g_logLevel \<le> level_value level)"

text \<open>A whole statement \<open>LOG_WARN << ...\<close>, \<open>LOG_ERROR\<close> or \<open>LOG_FATAL\<close>.\<close>

definition log_statement where
  "log_statement now tls mem file line level items =
     bindE (Logger_level now tls mem file line level) (\<lambda>(tls1, lg).
     bindE (foldE put items (lg_stream lg)) (\<lambda>b.
     bindE (destroyLogger (lg\<lparr>lg_stream := b\<rparr>)) (\<lambda>(line, aborts). Inr (tls1, line, aborts))))"

section \<open>Fields have their widths\<close>

lemma le_pred: "a \<le> b \<Longrightarrow> b = q - 1 \<Longrightarrow> 1 \<le> q \<Longrightarrow> Suc a \<le> (q :: nat)"
  by simp

lemma split_years_bound:
  "split_years y d = (y', d') \<Longrightarrow> y \<le> y' \<and> y' \<le> y + d div 365 \<and> d' < year_days y'"
proof (induction y d rule: split_years.induct)
  case (1 y d)
  show ?case
  proof (cases "d < year_days y")
    case True
    then show ?thesis using 1(2) by (subst (asm) split_years.simps) auto
  next
    case False
    then have rec: "split_years (Suc y) (d - year_days y) = (y', d')"
      using 1(2) by (subst (asm) split_years.simps) simp
    have "(d - year_days y) div 365 \<le> (d - 365) div 365"
      by (intro div_le_mono diff_le_mono2) (simp add: year_days_def)
    moreover have "365 \<le> d" using False by (simp add: year_days_def split: if_splits)
    then have "(d - 365) div 365 = d div 365 - 1" "1 \<le> d div 365"
      using div_add_self1 [of 365 "d - 365"] by simp_all
    ultimately have "Suc ((d - year_days y) div 365) \<le> d div 365" by (rule le_pred)
    with 1(1) [OF False rec] show ?thesis by simp
  qed
qed

lemma split_months_bound:
  "split_months ns d = (m, r) \<Longrightarrow> d < sum_list ns \<Longrightarrow> m < length ns \<and> r < ns ! m"
  by (induction ns d arbitrary: m rule: split_months.induct) (auto split: if_splits prod.splits)

lemma month_days_bound: "m < 12 \<Longrightarrow> month_days y ! m \<le> 31"
proof -
  assume "m < 12"
  then have "month_days y ! m \<in> set (month_days y)" by (intro nth_mem) (simp add: month_days_def)
  then show ?thesis by (auto simp: month_days_def split: if_splits)
qed

lemma gmtime_bounds:
  assumes "0 \<le> s" and "s < 2 ^ 37"
  shows "70 \<le> tm_year (gmtime_r s)" "tm_year (gmtime_r s) < 8100" "tm_mon (gmtime_r s) < 12"
    "1 \<le> tm_mday (gmtime_r s)" "tm_mday (gmtime_r s) \<le> 31" "tm_hour (gmtime_r s) < 24"
    "tm_min (gmtime_r s) < 60" "tm_sec (gmtime_r s) < 60"
proof -
  obtain y d where y: "split_years 1970 (nat s div 86400) = (y, d)" by fastforce
  obtain m r where m: "split_months (month_days y) d = (m, r)" by fastforce
  have "nat s div 86400 \<le> 1590728" using assms by (simp add: less_mult_imp_div_less nat_less_iff div_le_mono2)
  then have "nat s div 86400 div 365 \<le> 4358" by (simp add: div_mult2_eq [symmetric])
  with split_years_bound [OF y] have yy: "1970 \<le> y" "y \<le> 6328" "d < year_days y" by auto
  have "sum_list (month_days y) = year_days y" by (simp add: month_days_def year_days_def)
  with split_months_bound [OF m] yy(3) have mm: "m < 12" "r < month_days y ! m" by (simp_all add: month_days_def)
  then have "r < 31" using month_days_bound [of m y] by simp
  have "nat s mod 86400 < 86400" by simp
  then have hh: "nat s mod 86400 div 3600 < 24" by (simp add: div_less_iff_less_mult)
  show "70 \<le> tm_year (gmtime_r s)" "tm_year (gmtime_r s) < 8100" "tm_mon (gmtime_r s) < 12"
    "1 \<le> tm_mday (gmtime_r s)" "tm_mday (gmtime_r s) \<le> 31" "tm_hour (gmtime_r s) < 24"
    "tm_min (gmtime_r s) < 60" "tm_sec (gmtime_r s) < 60"
    using yy mm \<open>r < 31\<close> hh by (simp_all add: gmtime_r_def Let_def y m)
qed

lemma length_dec_nat_ge: "10 ^ k \<le> n \<Longrightarrow> Suc k \<le> length (dec_nat n)"
proof (induction k arbitrary: n)
  case 0
  then show ?case by (subst dec_nat.simps) simp
next
  case (Suc k)
  then have "10 ^ k \<le> n div 10" by (simp add: less_eq_div_iff_mult_less_eq mult.commute)
  moreover have "\<not> n < 10" using Suc.prems by (simp add: not_less) (metis le_trans mult_le_mono2 nat_mult_1_right one_le_numeral one_le_power)
  ultimately show ?case using Suc.IH by (subst dec_nat.simps) simp
qed

lemma width_2: "0 \<le> i \<Longrightarrow> i < 100 \<Longrightarrow> length (dec_int_width 2 i) = 2"
  using length_dec_nat [of "nat i" 1] by (simp add: dec_int_width_def Let_def nat_less_iff)

lemma width_4: "1000 \<le> i \<Longrightarrow> i < 10000 \<Longrightarrow> length (dec_blank_width 4 i) = 4"
  using length_dec_nat [of "nat i" 3] length_dec_nat_ge [of 3 "nat i"]
  by (simp add: dec_blank_width_def dec_int_def nat_less_iff le_nat_iff)

lemma time_fields_length:
  assumes "0 \<le> s" and "s < 2 ^ 37"
  shows "length (time_fields (gmtime_r s)) = 19"
  using gmtime_bounds [OF assms] by (simp add: time_fields_def width_2 width_4)

section \<open>Properties\<close>

text \<open>The cache of a thread: fresh, or the text of the second it names.\<close>

definition time_cache :: "log_tls \<Rightarrow> bool" where
  "time_cache tls \<longleftrightarrow> t_lastSecond tls = 0 \<or> t_time tls = time_fields (gmtime_r (t_lastSecond tls))"

definition us_text :: "int \<Rightarrow> string" where
  "us_text u = ''.'' @ dec_int_width 6 u @ '' ''"

definition head_items :: "string \<Rightarrow> string \<Rightarrow> LogLevel \<Rightarrow> string \<Rightarrow> int \<Rightarrow> item list" where
  "head_items time us level file line =
     [CStr (Some time), CStr (Some us), CStr (Some (LogLevelName level)), Char (CHR '' ''),
      Char (CHR ''[''), CStr (Some (SourceFile file)), Char (CHR '':''), Integer line, CStr (Some ''] '')]"

lemma formatTime_eq:
  assumes "1000000 \<le> t" and "t < 2 ^ 37 * 1000000" and "time_cache tls"
  obtains tls1 where "time_cache tls1" "t_time tls1 = time_fields (gmtime_r (t div 1000000))"
    and "\<And>b. formatTime (TimeStamp t) tls b =
      bindE (foldE put [CStr (Some (t_time tls1)), CStr (Some (us_text (t mod 1000000)))] b)
        (\<lambda>b'. Inr (tls1, b'))"
proof -
  let ?s = "t div 1000000"
  have s: "1 \<le> ?s" "?s < 2 ^ 37" using assms(1,2) by (simp_all add: div_less_iff_less_mult less_eq_div_iff_mult_less_eq)
  have q: "cdiv t 1000000 = ?s" "crem t 1000000 = t mod 1000000" using assms(1) by (simp_all add: cdiv_nonneg crem_nonneg)
  have len: "length (time_fields (gmtime_r ?s)) = 19" using s by (simp add: time_fields_length)
  have "length (dec_int_width 6 (t mod 1000000)) = 6" by (rule dec_int_width_6) simp_all
  then have us: "Fmt (''.'' @ dec_int_width 6 (t mod 1000000) @ '' '') = Inr (us_text (t mod 1000000))"
    "length (us_text (t mod 1000000)) = 8"
    by (simp_all add: Fmt_def us_text_def)
  let ?tls = "if ?s \<noteq> t_lastSecond tls then \<lparr>t_time = time_fields (gmtime_r ?s), t_lastSecond = ?s\<rparr> else tls"
  show thesis
  proof
    show "time_cache ?tls" "t_time ?tls = time_fields (gmtime_r ?s)"
      using assms(3) s by (auto simp: time_cache_def)
    show "formatTime (TimeStamp t) tls b =
      bindE (foldE put [CStr (Some (t_time ?tls)), CStr (Some (us_text (t mod 1000000)))] b)
        (\<lambda>b'. Inr (?tls, b'))" for b
      using len us by (simp add: formatTime_def kMicroSecondsPerSecond_def q Let_def)
  qed
qed

lemma log_statement_eq:
  assumes "\<And>b. formatTime now tls b =
      bindE (foldE put [CStr (Some time), CStr (Some us)] b) (\<lambda>b'. Inr (tls1, b'))"
  shows "log_statement now tls mem file line level items =
    bindE (foldE put (head_items time us level file line @ items @ [Char (CHR 0x0A)]) (newLogBuffer mem))
      (\<lambda>b. Inr (tls1, lb_text b, level = FATAL))"
  by (simp add: log_statement_def Logger_level_def Impl_def assms bindE_assoc head_items_def
      foldE_append destroyLogger_def finish_def LogBuffer_length_def lb_text_def)

text \<open>
  C37: the line of a log statement. For every time from the first second after 1970 to the year
  6325, whether the text of the second is cached or not, the assertions of \<open>formatTime\<close> hold and the
  output function receives exactly one line: date and time, with eight added to the hour, six digits of
  microseconds, the level, the base name of the file and the line number, then the streamed values
  in order and a newline, provided the values fit; the cache stays right, and the process goes on
  exactly if the level is not \<open>FATAL\<close>.
\<close>

theorem log_line:
  assumes "1000000 \<le> t" and "t < 2 ^ 37 * 1000000" and "time_cache tls" and "length mem = kSmallBuffer"
    and "\<forall>i \<in> set items. item_ok i" and "- (2 ^ 31) \<le> line" and "line < 2 ^ 31"
    and "length (SourceFile file) + length (concat (map item_text items)) \<le> 3900"
  shows "runs (\<lambda>(tls', out, aborts). time_cache tls' \<and> aborts = (level = FATAL) \<and>
      out = time_fields (gmtime_r (t div 1000000)) @ ''.'' @ dec_int_width 6 (t mod 1000000) @ '' '' @
        LogLevelName level @ '' ['' @ SourceFile file @ '':'' @ dec_int line @ ''] '' @
        concat (map item_text items) @ [CHR 0x0A])
    (log_statement (TimeStamp t) tls mem file line level items)"
proof -
  from formatTime_eq [OF assms(1-3)] obtain tls1 where c: "time_cache tls1"
      "t_time tls1 = time_fields (gmtime_r (t div 1000000))"
    and f: "\<And>b. formatTime (TimeStamp t) tls b =
      bindE (foldE put [CStr (Some (t_time tls1)), CStr (Some (us_text (t mod 1000000)))] b)
        (\<lambda>b'. Inr (tls1, b'))" by blast
  let ?all = "head_items (t_time tls1) (us_text (t mod 1000000)) level file line @ items @ [Char (CHR 0x0A)]"
  have "0 \<le> t div 1000000" "t div 1000000 < 2 ^ 37" using assms(1,2) by (simp_all add: div_less_iff_less_mult)
  from time_fields_length [OF this] have l1: "length (t_time tls1) = 19" using c(2) by simp
  have l2: "length (us_text (t mod 1000000)) = 8"
    using dec_int_width_6(1) [of "t mod 1000000"] by (simp add: us_text_def)
  have l3: "length (LogLevelName level) \<le> 7" by (cases level) simp_all
  have l4: "length (dec_int line) \<le> 20" using dec_int_length [of line] assms(6,7) by simp
  have room: "int (length (concat (map item_text ?all))) + 32 \<le> avail (newLogBuffer mem)"
    using l1 l2 l3 l4 assms(4,8) by (simp add: head_items_def avail_def newLogBuffer_def kSmallBuffer_def)
  have ok: "\<forall>i \<in> set ?all. item_ok i" using assms(5-7) by (auto simp: head_items_def)
  have inv: "lb_inv (newLogBuffer mem)" using assms(4) by (simp add: lb_inv_def newLogBuffer_def kSmallBuffer_def)
  have "runs (\<lambda>b. lb_text b = concat (map item_text ?all)) (foldE put ?all (newLogBuffer mem))"
    using puts_print [OF inv ok] room by (elim runs_mono) (auto simp: lb_text_def newLogBuffer_def)
  then show ?thesis
    unfolding log_statement_eq [OF f] runs_bindE
    by (rule runs_mono) (simp add: c head_items_def us_text_def)
qed

text \<open>Midnight in UTC+8 is logged as hour 24 of the day before.\<close>

theorem log_line_witness:
  "runs (\<lambda>(tls', out, aborts). \<not> aborts \<and> out = ''1970-01-01 24:00:00.000007 [WARN] [a.cc:9] hi'' @ [CHR 0x0A])
    (log_statement (TimeStamp 57600000007) \<lparr>t_time = [], t_lastSecond = 0\<rparr>
      (replicate 4096 (CHR ''?'')) ''src/a.cc'' 9 WARN [CStr (Some ''hi'')])"
proof -
  have g: "gmtime_r 57600 = \<lparr>tm_year = 70, tm_mon = 0, tm_mday = 1, tm_hour = 16, tm_min = 0, tm_sec = 0\<rparr>"
    by (simp add: gmtime_r_def split_years.simps year_days_def month_days_def)
  have ds: "digit (Suc (Suc (Suc (Suc (Suc (Suc (Suc 0))))))) = CHR ''7''" "digit (Suc (Suc (Suc (Suc 0)))) = CHR ''4''"
    by code_simp+
  have tf: "time_fields (gmtime_r 57600) = ''1970-01-01 24:00:00''"
    unfolding g using digit_table ds
    by (simp add: time_fields_def dec_blank_width_def dec_int_width_def dec_int_def dec_nat.simps numeral_2_eq_2)
  have us: "dec_int_width 6 7 = ''000007''" "dec_int 9 = ''9''"
    by code_simp+
  show ?thesis
    using runs_mono [OF log_line [of 57600000007 "\<lparr>t_time = [], t_lastSecond = 0\<rparr>" "replicate 4096 (CHR ''?'')"
        "[CStr (Some ''hi'')]" 9 "''src/a.cc''" WARN]]
    by (simp add: tf us time_cache_def kSmallBuffer_def SourceFile_def split_beta)
qed

end
