(* ===== verification/LogFile.thy ===== *)
theory LogFile
  imports Logger
begin

text \<open>
  \<open>base/FileUtil.h\<close>, \<open>base/FileUtil.cpp\<close>, \<open>base/LogFile.h\<close> and \<open>base/LogFile.cpp\<close>: appending to a file
  through \<open>stdio\<close>, and the log file that starts a new file when the present one is too long or a new day
  begins. \<open>fwrite_unlocked\<close>, \<open>stat\<close> and \<open>time\<close> are parameters. \<open>rolled\<close> is the history of the files that were
  closed, each with the text given to it; the mutex makes \<open>append\<close> one step and has no state here.
\<close>

section \<open>Appending to a file\<close>

text \<open>\<open>af_text\<close> is what the object has handed to \<open>stdio\<close>.\<close>

record AppendFile =
  af_name :: string
  af_text :: "char list"
  af_writtenBytes :: int

type_synonym fwrite = "char list \<Rightarrow> nat"
type_synonym sys_stat = "string \<Rightarrow> errno + nat"

definition ENOENT :: errno where "ENOENT = 2"

definition fileSize :: "sys_stat \<Rightarrow> string \<Rightarrow> int res" where
  "fileSize st path =
     (case st path of Inr n \<Rightarrow> Inr (int n) | Inl e \<Rightarrow> if e = ENOENT then Inr 0 else Inl FatalLog)"

definition newAppendFile :: "(string \<Rightarrow> bool) \<Rightarrow> sys_stat \<Rightarrow> string \<Rightarrow> AppendFile res" where
  "newAppendFile fopen_ok st path =
     bindE (fileSize st path) (\<lambda>n.
     assertE (fopen_ok path) (Inr \<lparr>af_name = path, af_text = [], af_writtenBytes = n\<rparr>))"

text \<open>
  \<open>append\<close>: when the first \<open>fwrite\<close> is short, the loop adds the uninitialised \<open>n\<close> to the pointer it writes
  from.
\<close>

definition AppendFile_append :: "fwrite \<Rightarrow> char list \<Rightarrow> AppendFile \<Rightarrow> AppendFile res" where
  "AppendFile_append fw s f =
     (let nread = fw s; remain = size_sub (length s) nread in
      if remain > 0 then Inl Undefined
      else Inr (f\<lparr>af_text := af_text f @ take nread s, af_writtenBytes := af_writtenBytes f + int (length s)\<rparr>))"

section \<open>Rolling files\<close>

record LogFile =
  basename :: string
  rollSize :: int
  flushInterval :: int
  checkEveryN :: int
  count :: int
  startOfPeriod :: int
  lastRoll :: int
  lastFlush :: int
  cur_file :: "AppendFile option"
  rolled :: "AppendFile list"

definition kRollPerSeconds :: int where "kRollPerSeconds = 60 * 60 * 24"

definition getLogFileName :: "string \<Rightarrow> int \<Rightarrow> string" where
  "getLogFileName base now =
     (let tm = gmtime_r now in
      base @ ''.'' @ dec_int (int (tm_year tm) + 1900) @ dec_int_width 2 (int (tm_mon tm) + 1) @
      dec_int_width 2 (int (tm_mday tm)) @ ''-'' @ dec_int_width 2 (int (tm_hour tm)) @ '':'' @
      dec_int_width 2 (int (tm_min tm)) @ '':'' @ dec_int_width 2 (int (tm_sec tm)) @ ''.log'')"

text \<open>\<open>rollFile\<close> at the time \<open>now\<close>.\<close>

definition rollFile :: "(string \<Rightarrow> bool) \<Rightarrow> sys_stat \<Rightarrow> int \<Rightarrow> LogFile \<Rightarrow> (bool \<times> LogFile) res" where
  "rollFile fopen_ok st now lf =
     (let filename = getLogFileName (basename lf) now;
          start = cdiv now kRollPerSeconds * kRollPerSeconds in
      if now > lastRoll lf
      then bindE (newAppendFile fopen_ok st filename) (\<lambda>f.
        Inr (True, lf\<lparr>startOfPeriod := start, lastRoll := now, lastFlush := now, cur_file := Some f,
          rolled := rolled lf @ (case cur_file lf of None \<Rightarrow> [] | Some old \<Rightarrow> [old])\<rparr>))
      else Inr (False, lf))"

definition newLogFile ::
  "(string \<Rightarrow> bool) \<Rightarrow> sys_stat \<Rightarrow> int \<Rightarrow> string \<Rightarrow> int \<Rightarrow> int \<Rightarrow> int \<Rightarrow> LogFile res" where
  "newLogFile fopen_ok st now base roll flushI checkN =
     assertE (CHR ''/'' \<notin> set base)
       (bindE (rollFile fopen_ok st now
         \<lparr>basename = base, rollSize = roll, flushInterval = flushI, checkEveryN = checkN, count = 0,
          startOfPeriod = 0, lastRoll = 0, lastFlush = 0, cur_file = None, rolled = []\<rparr>)
         (\<lambda>(_, lf). Inr lf))"

text \<open>
  \<open>append_unlocked\<close>: \<open>now\<close> is what the call of \<open>time\<close> in it returns, \<open>now'\<close> what the one in \<open>rollFile\<close>
  returns. Flushing moves no text between the parts of the model.
\<close>

definition append_unlocked ::
  "(string \<Rightarrow> bool) \<Rightarrow> sys_stat \<Rightarrow> fwrite \<Rightarrow> int \<Rightarrow> int \<Rightarrow> char list \<Rightarrow> LogFile \<Rightarrow> LogFile res" where
  "append_unlocked fopen_ok st fw now now' s lf =
     (case cur_file lf of
        None \<Rightarrow> Inl Undefined
      | Some f \<Rightarrow>
          bindE (AppendFile_append fw s f) (\<lambda>f1.
          let lf1 = lf\<lparr>cur_file := Some f1\<rparr> in
          if af_writtenBytes f1 > rollSize lf1
          then bindE (rollFile fopen_ok st now' lf1) (\<lambda>(_, lf2). Inr lf2)
          else let lf2 = lf1\<lparr>count := wrap_int32 (count lf1 + 1)\<rparr> in
            if count lf2 \<ge> checkEveryN lf2
            then let lf3 = lf2\<lparr>count := 0\<rparr>;
                     thisPeriod = cdiv now kRollPerSeconds * kRollPerSeconds in
                 if thisPeriod \<noteq> startOfPeriod lf3
                 then bindE (rollFile fopen_ok st now' lf3) (\<lambda>(_, lf4). Inr lf4)
                 else if now - lastFlush lf3 > flushInterval lf3
                 then Inr (lf3\<lparr>lastFlush := now\<rparr>)
                 else Inr lf3
            else Inr lf2))"

text \<open>\<open>append\<close> takes the mutex, if there is one, around \<open>append_unlocked\<close>.\<close>

definition LogFile_append where
  "LogFile_append fopen_ok st fw call lf =
     (case call of (now, now', s) \<Rightarrow> append_unlocked fopen_ok st fw now now' s lf)"

section \<open>Nothing is lost\<close>

definition log_text :: "LogFile \<Rightarrow> char list" where
  "log_text lf = concat (map af_text (rolled lf)) @ (case cur_file lf of None \<Rightarrow> [] | Some f \<Rightarrow> af_text f)"

text \<open>The environment in which files can be opened and \<open>fwrite\<close> takes all it is given.\<close>

definition disk_ok :: "(string \<Rightarrow> bool) \<Rightarrow> sys_stat \<Rightarrow> fwrite \<Rightarrow> bool" where
  "disk_ok fopen_ok st fw \<longleftrightarrow> (\<forall>p. fopen_ok p \<and> st p \<in> {Inr 0, Inl ENOENT}) \<and> (\<forall>s. fw s = length s)"

lemma new_file:
  assumes "disk_ok fopen_ok st fw"
  shows "newAppendFile fopen_ok st p = Inr \<lparr>af_name = p, af_text = [], af_writtenBytes = 0\<rparr>"
proof -
  have "fopen_ok p" "st p \<in> {Inr 0, Inl ENOENT}" using assms by (simp_all add: disk_ok_def)
  then show ?thesis by (auto simp: newAppendFile_def fileSize_def)
qed

lemma rollFile_ok:
  assumes "disk_ok fopen_ok st fw" and "cur_file lf \<noteq> None"
  shows "runs (\<lambda>(b, lf'). cur_file lf' \<noteq> None \<and> log_text lf' = log_text lf \<and> rollSize lf' = rollSize lf \<and>
      (b \<longleftrightarrow> lastRoll lf < now) \<and> lastRoll lf' = max (lastRoll lf) now \<and>
      (b \<longrightarrow> af_writtenBytes (the (cur_file lf')) = 0) \<and> (\<not> b \<longrightarrow> lf' = lf))
    (rollFile fopen_ok st now lf)"
  using assms(2) by (auto simp: rollFile_def new_file [OF assms(1)] log_text_def)

definition file_small :: "int \<Rightarrow> LogFile \<Rightarrow> bool" where
  "file_small now lf \<longleftrightarrow> af_writtenBytes (the (cur_file lf)) \<le> rollSize lf \<or> now \<le> lastRoll lf"

lemma append_ok:
  assumes "disk_ok fopen_ok st fw" and "cur_file lf \<noteq> None" and "0 \<le> rollSize lf" and "length s < 2 ^ 31"
  shows "runs (\<lambda>lf'. cur_file lf' \<noteq> None \<and> log_text lf' = log_text lf @ s \<and> rollSize lf' = rollSize lf \<and>
      file_small now' lf') (append_unlocked fopen_ok st fw now now' s lf)"
proof -
  from assms(2) obtain f where f: "cur_file lf = Some f" by blast
  let ?f = "f\<lparr>af_text := af_text f @ s, af_writtenBytes := af_writtenBytes f + int (length s)\<rparr>"
  have a: "AppendFile_append fw s f = Inr ?f"
    using assms(1,4) by (simp add: AppendFile_append_def disk_ok_def size_sub_exact)
  have roll: "runs (\<lambda>lf'. cur_file lf' \<noteq> None \<and> log_text lf' = log_text lf @ s \<and> rollSize lf' = rollSize lf \<and>
      file_small now' lf') (bindE (rollFile fopen_ok st now' lf1) (\<lambda>(_, lf2). Inr lf2))"
    if "cur_file lf1 = Some ?f" "rolled lf1 = rolled lf" "rollSize lf1 = rollSize lf" for lf1
  proof -
    have "log_text lf1 = log_text lf @ s" using that f by (simp add: log_text_def)
    then show ?thesis
      unfolding runs_bindE using that assms(3)
      by (intro runs_mono [OF rollFile_ok [OF assms(1)]]) (auto simp: file_small_def)
  qed
  show ?thesis
    using roll [of "lf\<lparr>cur_file := Some ?f\<rparr>"] roll [of "lf\<lparr>cur_file := Some ?f, count := 0\<rparr>"]
    by (auto simp: append_unlocked_def f a Let_def log_text_def file_small_def)
qed

lemma appends_ok:
  assumes "disk_ok fopen_ok st fw" and "cur_file lf \<noteq> None" and "0 \<le> rollSize lf"
    and "\<forall>(now, now', s) \<in> set cs. length s < 2 ^ 31"
  shows "runs (\<lambda>lf'. cur_file lf' \<noteq> None \<and> rollSize lf' = rollSize lf \<and>
      log_text lf' = log_text lf @ concat (map (\<lambda>(now, now', s). s) cs) \<and>
      (cs \<noteq> [] \<longrightarrow> file_small (fst (snd (last cs))) lf')) (foldE (LogFile_append fopen_ok st fw) cs lf)"
  using assms(4)
proof (induction cs rule: rev_induct)
  case (snoc c cs)
  obtain now now' s where c: "c = (now, now', s)" by (cases c)
  have s: "length s < 2 ^ 31" using snoc.prems c by simp
  have one: "foldE (LogFile_append fopen_ok st fw) [c] x = append_unlocked fopen_ok st fw now now' s x" for x
    by (cases "append_unlocked fopen_ok st fw now now' s x") (simp_all add: c LogFile_append_def)
  show ?case
    unfolding foldE_append runs_bindE one
  proof (rule runs_mono)
    show "runs (\<lambda>lf'. cur_file lf' \<noteq> None \<and> rollSize lf' = rollSize lf \<and>
      log_text lf' = log_text lf @ concat (map (\<lambda>(now, now', s). s) cs)) (foldE (LogFile_append fopen_ok st fw) cs lf)"
      using snoc by (auto elim!: runs_mono)
    fix x assume "cur_file x \<noteq> None \<and> rollSize x = rollSize lf \<and>
      log_text x = log_text lf @ concat (map (\<lambda>(now, now', s). s) cs)"
    with append_ok [OF assms(1) _ _ s, of x now' now] assms(3)
    show "runs (\<lambda>lf'. cur_file lf' \<noteq> None \<and> rollSize lf' = rollSize lf \<and>
        log_text lf' = log_text lf @ concat (map (\<lambda>(now, now', s). s) (cs @ [c])) \<and>
        (cs @ [c] \<noteq> [] \<longrightarrow> file_small (fst (snd (last (cs @ [c])))) lf'))
      (append_unlocked fopen_ok st fw now now' s x)"
      by (auto simp: c elim!: runs_mono)
  qed
qed (use assms(2) in simp)

section \<open>Properties\<close>

text \<open>
  C25: rolling loses no text. As long as files can be opened and \<open>fwrite\<close> takes what it is given, any
  sequence of appends at any times returns; the texts of all files, in the order in which they were
  opened, are exactly the appended lines in order; and after each append the current file is not
  longer than the roll size unless a new file could not be started because the clock has not
  passed the second of the last roll.
\<close>

theorem log_file_keeps_lines:
  assumes "disk_ok fopen_ok st fw" and "cur_file lf \<noteq> None" and "0 \<le> rollSize lf"
    and "\<forall>(now, now', s) \<in> set calls. length s < 2 ^ 31" and "calls \<noteq> []"
  shows "runs (\<lambda>lf'. log_text lf' = log_text lf @ concat (map (\<lambda>(now, now', s). s) calls) \<and>
      file_small (fst (snd (last calls))) lf') (foldE (LogFile_append fopen_ok st fw) calls lf)"
  using appends_ok [OF assms(1-4)] assms(5) by (auto elim!: runs_mono)

theorem log_file_keeps_lines_witness:
  "runs (\<lambda>lf'. log_text lf' = ''abcdef'')
    (bindE (newLogFile (\<lambda>_. True) (\<lambda>_. Inr 0) 100 ''log'' 4 3 1024)
      (foldE (LogFile_append (\<lambda>_. True) (\<lambda>_. Inr 0) length) [(101, 101, ''abc''), (102, 102, ''def'')]))"
proof -
  have d: "disk_ok (\<lambda>_. True) (\<lambda>_. Inr 0) length" by (simp add: disk_ok_def)
  obtain lf where lf: "newLogFile (\<lambda>_. True) (\<lambda>_. Inr 0) 100 ''log'' 4 3 1024 = Inr lf"
    "cur_file lf \<noteq> None" "rollSize lf = 4" "log_text lf = []"
    by (simp add: newLogFile_def rollFile_def newAppendFile_def fileSize_def log_text_def)
  have "\<forall>(now, now', s) \<in> set [(101, 101, ''abc''), (102, 102, ''def'')]. length s < 2 ^ 31" by simp
  from log_file_keeps_lines [OF d lf(2) _ this] lf show ?thesis by (auto elim!: runs_mono)
qed

end
