(* ===== verification/AsyncLogging.thy ===== *)
theory AsyncLogging
  imports LogFile
begin

text \<open>
  \<open>base/AsyncLogging.h\<close> and \<open>base/AsyncLogging.cpp\<close>: any number of threads append lines to large
  buffers, one thread collects full buffers and writes them to the log file. The critical sections
  and the work of the thread between them are the atomic steps, \<open>al_pc\<close> says where the thread is. Owning
  pointers are options; a released or moved-from pointer is \<open>None\<close>, and following it is undefined.
  The destination is a parameter with the interface \<open>log_sink\<close>, which the theory \<open>LogFile\<close> provides.
\<close>

section \<open>State\<close>

type_synonym BufferPtr = "LogBuffer option"

datatype al_pc = Testing | Collecting | Writing | Finished

record 'o AsyncLogging =
  al_isRunning :: bool
  m_currentBuffer :: BufferPtr
  m_nextBuffer :: BufferPtr
  m_buffers :: "BufferPtr list"
  backupBuffer1 :: BufferPtr
  backupBuffer2 :: BufferPtr
  buffersToWrite :: "BufferPtr list"
  al_output :: 'o
  al_pc :: al_pc

definition deref_buf :: "BufferPtr \<Rightarrow> LogBuffer res" where
  "deref_buf p = (case p of None \<Rightarrow> Inl Undefined | Some b \<Rightarrow> Inr b)"

text \<open>
  The constructor, \<open>start\<close> and the entry of \<open>threadRoutine\<close>; the four arrays are the memory of the
  buffers allocated.
\<close>

definition startAsyncLogging ::
  "char list \<Rightarrow> char list \<Rightarrow> char list \<Rightarrow> char list \<Rightarrow> 'o res \<Rightarrow> 'o AsyncLogging res" where
  "startAsyncLogging mem1 mem2 mem3 mem4 open_output =
     bindE open_output (\<lambda>out. Inr \<lparr>al_isRunning = True, m_currentBuffer = Some (newLogBuffer mem1),
       m_nextBuffer = Some (newLogBuffer mem2), m_buffers = [], backupBuffer1 = Some (newLogBuffer mem3),
       backupBuffer2 = Some (newLogBuffer mem4), buffersToWrite = [], al_output = out, al_pc = Testing\<rparr>)"

section \<open>Operations\<close>

text \<open>\<open>append\<close>; \<open>mem\<close> is the memory of the buffer it may have to allocate.\<close>

definition AsyncLogging_append :: "char list \<Rightarrow> char list \<Rightarrow> 'o AsyncLogging \<Rightarrow> 'o AsyncLogging res" where
  "AsyncLogging_append mem s a =
     bindE (deref_buf (m_currentBuffer a)) (\<lambda>cur.
     if avail cur > int (length s)
     then bindE (LogBuffer_append s cur) (\<lambda>cur'. Inr (a\<lparr>m_currentBuffer := Some cur'\<rparr>))
     else let a1 = a\<lparr>m_buffers := m_buffers a @ [Some cur], m_currentBuffer := None\<rparr>;
              a2 = (case m_nextBuffer a1 of
                      Some nb \<Rightarrow> a1\<lparr>m_currentBuffer := Some nb, m_nextBuffer := None\<rparr>
                    | None \<Rightarrow> a1\<lparr>m_currentBuffer := Some (newLogBuffer mem)\<rparr>)
          in bindE (deref_buf (m_currentBuffer a2)) (\<lambda>cur2.
             bindE (LogBuffer_append s cur2) (\<lambda>cur3. Inr (a2\<lparr>m_currentBuffer := Some cur3\<rparr>))))"

text \<open>\<open>threadRoutine\<close>: the critical section, after the wait if there was one.\<close>

definition collect :: "'o AsyncLogging \<Rightarrow> 'o AsyncLogging res" where
  "collect a =
     assertE (buffersToWrite a = [])
       (let a1 = a\<lparr>m_buffers := m_buffers a @ [m_currentBuffer a]\<rparr>;
            a2 = a1\<lparr>m_currentBuffer := backupBuffer1 a1, backupBuffer1 := None\<rparr>;
            a3 = a2\<lparr>m_buffers := [], buffersToWrite := m_buffers a2\<rparr>;
            a4 = (if m_nextBuffer a3 = None
                  then a3\<lparr>m_nextBuffer := backupBuffer2 a3, backupBuffer2 := None\<rparr> else a3)
        in assertE (buffersToWrite a4 \<noteq> []) (Inr (a4\<lparr>al_pc := Writing\<rparr>)))"

text \<open>The loop that writes; \<open>c i\<close> is what the destination needs from its surroundings for buffer \<open>i\<close>.\<close>

definition write_one :: "('c \<Rightarrow> char list \<Rightarrow> 'o \<Rightarrow> 'o res) \<Rightarrow> (nat \<Rightarrow> 'c) \<Rightarrow> nat \<times> BufferPtr \<Rightarrow> 'o \<Rightarrow> 'o res" where
  "write_one app c ip out =
     bindE (deref_buf (snd ip)) (\<lambda>b. app (c (fst ip)) (take (nat (LogBuffer_length b)) (lb_data b)) out)"

definition write_buffers where
  "write_buffers app c a =
     bindE (foldE (write_one app c) (enumerate 0 (buffersToWrite a)) (al_output a)) (\<lambda>out.
     Inr (a\<lparr>al_output := out\<rparr>))"

text \<open>\<open>backupBuffer1 = std::move(buffersToWrite.back())\<close>, \<open>pop_back\<close> and \<open>reset\<close>.\<close>

definition take_back :: "'o AsyncLogging \<Rightarrow> (LogBuffer \<times> 'o AsyncLogging) res" where
  "take_back a =
     assertE (buffersToWrite a \<noteq> [])
       (bindE (deref_buf (last (buffersToWrite a))) (\<lambda>b.
        Inr (lb_reset b, a\<lparr>buffersToWrite := butlast (buffersToWrite a)\<rparr>)))"

definition recycle :: "'o AsyncLogging \<Rightarrow> 'o AsyncLogging res" where
  "recycle a =
     (let a1 = (if length (buffersToWrite a) > 2 then a\<lparr>buffersToWrite := take 2 (buffersToWrite a)\<rparr> else a) in
      bindE (if backupBuffer1 a1 = None
             then bindE (take_back a1) (\<lambda>(b, a2). Inr (a2\<lparr>backupBuffer1 := Some b\<rparr>)) else Inr a1) (\<lambda>a3.
      bindE (if backupBuffer2 a3 = None
             then bindE (take_back a3) (\<lambda>(b, a4). Inr (a4\<lparr>backupBuffer2 := Some b\<rparr>)) else Inr a3) (\<lambda>a5.
      Inr (a5\<lparr>buffersToWrite := [], al_pc := Testing\<rparr>))))"

text \<open>One step of the thread, and the interleaving with appends and \<open>stop\<close>.\<close>

definition threadRoutine where
  "threadRoutine app c a =
     (case al_pc a of
        Testing \<Rightarrow> Inr (if al_isRunning a then a\<lparr>al_pc := Collecting\<rparr> else a\<lparr>al_pc := Finished\<rparr>)
      | Collecting \<Rightarrow> collect a
      | Writing \<Rightarrow> bindE (write_buffers app c a) recycle
      | Finished \<Rightarrow> Inr a)"

definition AsyncLogging_stop :: "'o AsyncLogging \<Rightarrow> 'o AsyncLogging" where
  "AsyncLogging_stop a = a\<lparr>al_isRunning := False\<rparr>"

datatype 'c al_event = Append "char list" "char list" | Thread_step "nat \<Rightarrow> 'c" | Stop

fun al_run where
  "al_run app (Append mem s) a = AsyncLogging_append mem s a"
| "al_run app (Thread_step c) a = threadRoutine app c a"
| "al_run app Stop a = Inr (AsyncLogging_stop a)"

section \<open>Invariant\<close>

definition buf_ok :: "nat \<Rightarrow> BufferPtr \<Rightarrow> bool" where
  "buf_ok N p \<longleftrightarrow> (case p of None \<Rightarrow> False | Some b \<Rightarrow> lb_inv b \<and> length (lb_data b) = N)"

definition buf_empty :: "nat \<Rightarrow> BufferPtr \<Rightarrow> bool" where
  "buf_empty N p \<longleftrightarrow> (case p of None \<Rightarrow> False | Some b \<Rightarrow> lb_inv b \<and> length (lb_data b) = N \<and> lb_cur b = 0)"

definition al_inv :: "nat \<Rightarrow> 'o AsyncLogging \<Rightarrow> bool" where
  "al_inv N a \<longleftrightarrow> buf_ok N (m_currentBuffer a) \<and> (\<forall>p \<in> set (m_buffers a). buf_ok N p) \<and>
     (m_nextBuffer a = None \<longrightarrow> m_buffers a \<noteq> []) \<and> (m_nextBuffer a \<noteq> None \<longrightarrow> buf_empty N (m_nextBuffer a)) \<and>
     (backupBuffer2 a \<noteq> None \<longrightarrow> buf_empty N (backupBuffer2 a)) \<and>
     (if al_pc a = Writing
      then backupBuffer1 a = None \<and> buffersToWrite a \<noteq> [] \<and>
        (backupBuffer2 a = None \<longrightarrow> 2 \<le> length (buffersToWrite a)) \<and> (\<forall>p \<in> set (buffersToWrite a). buf_ok N p)
      else buf_empty N (backupBuffer1 a) \<and> backupBuffer2 a \<noteq> None \<and> buffersToWrite a = [])"

definition ptr_text :: "BufferPtr \<Rightarrow> char list" where
  "ptr_text p = (case p of None \<Rightarrow> [] | Some b \<Rightarrow> lb_text b)"

text \<open>All text the logger holds or has written, oldest first.\<close>

definition al_text :: "('o \<Rightarrow> char list) \<Rightarrow> 'o AsyncLogging \<Rightarrow> char list" where
  "al_text otext a = otext (al_output a) @ concat (map ptr_text (buffersToWrite a)) @
     concat (map ptr_text (m_buffers a)) @ ptr_text (m_currentBuffer a)"

fun event_text :: "'c al_event \<Rightarrow> char list" where
  "event_text (Append mem s) = s"
| "event_text _ = []"

fun event_ok :: "nat \<Rightarrow> 'c al_event \<Rightarrow> bool" where
  "event_ok N (Append mem s) \<longleftrightarrow> length mem = N \<and> length s < N"
| "event_ok N _ \<longleftrightarrow> True"

lemma buf_simps [simp]:
  "buf_ok N (Some b) \<longleftrightarrow> lb_inv b \<and> length (lb_data b) = N" "\<not> buf_ok N None"
  "buf_empty N (Some b) \<longleftrightarrow> lb_inv b \<and> length (lb_data b) = N \<and> lb_cur b = 0" "\<not> buf_empty N None"
  by (simp_all add: buf_ok_def buf_empty_def)

lemma ptr_text_simps [simp]: "ptr_text None = []" "ptr_text (Some b) = lb_text b"
  by (simp_all add: ptr_text_def)

lemma deref_buf_simps [simp]: "deref_buf (Some b) = Inr b" "deref_buf None = Inl Undefined"
  by (simp_all add: deref_buf_def)

lemma buf_okE: "buf_ok N p \<Longrightarrow> (\<And>b. p = Some b \<Longrightarrow> lb_inv b \<Longrightarrow> length (lb_data b) = N \<Longrightarrow> thesis) \<Longrightarrow> thesis"
  by (auto simp: buf_ok_def split: option.splits)

lemma buf_emptyE:
  "buf_empty N p \<Longrightarrow> (\<And>b. p = Some b \<Longrightarrow> lb_inv b \<Longrightarrow> length (lb_data b) = N \<Longrightarrow> lb_cur b = 0 \<Longrightarrow> thesis) \<Longrightarrow> thesis"
  by (auto simp: buf_empty_def split: option.splits)

lemma fits:
  assumes "lb_inv b" and "length (lb_data b) = N" and "avail b > int (length s)"
  obtains b' where "LogBuffer_append s b = Inr b'" "lb_inv b'" "length (lb_data b') = N" "lb_text b' = lb_text b @ s"
proof -
  have "size_of_int (avail b) = nat (avail b)"
    using assms(1) by (intro size_of_int_exact) (simp_all add: avail_def lb_inv_def)
  then have "LogBuffer_append s b = bindE (at_current s b) (\<lambda>b'. Inr (lb_add (length s) b'))"
    using assms(3) by (simp add: LogBuffer_append_def zless_nat_eq_int_zless)
  moreover have "lb_cur b + length s < length (lb_data b)" using assms(3) by (simp add: avail_def)
  ultimately show thesis
    using at_current_ok [OF assms(1), of s "length s"] assms(2) that by (auto simp: runs_iff)
qed

lemma append_step:
  assumes "al_inv N a" and "length mem = N" and "length s < N" and "N < 2 ^ 31"
  shows "runs (\<lambda>a'. al_inv N a' \<and> al_output a' = al_output a \<and> al_text otext a' = al_text otext a @ s)
    (AsyncLogging_append mem s a)"
proof -
  have "buf_ok N (m_currentBuffer a)" using assms(1) by (simp add: al_inv_def)
  then obtain cur where cur: "m_currentBuffer a = Some cur" "lb_inv cur" "length (lb_data cur) = N" by (rule buf_okE)
  show ?thesis
  proof (cases "avail cur > int (length s)")
    case True
    from fits [OF cur(2,3) True] obtain cur' where
      "LogBuffer_append s cur = Inr cur'" "lb_inv cur'" "length (lb_data cur') = N" "lb_text cur' = lb_text cur @ s" .
    then show ?thesis
      using True cur assms(1)
      by (simp add: AsyncLogging_append_def al_inv_def al_text_def)
  next
    case False
    obtain nb where nb: "lb_inv nb" "length (lb_data nb) = N" "lb_cur nb = 0"
      "nb = (case m_nextBuffer a of Some b \<Rightarrow> b | None \<Rightarrow> newLogBuffer mem)"
    proof (cases "m_nextBuffer a")
      case None
      show thesis by (rule that [of "newLogBuffer mem"]) (use None assms(2-4) in \<open>simp_all add: newLogBuffer_def lb_inv_def\<close>)
    next
      case (Some b)
      then have "buf_empty N (Some b)" using assms(1) by (simp add: al_inv_def)
      then show thesis by (intro that [of b]) (simp_all add: Some)
    qed
    have "avail nb > int (length s)" using nb assms(3) by (simp add: avail_def)
    from fits [OF nb(1,2) this] obtain nb' where n':
      "LogBuffer_append s nb = Inr nb'" "lb_inv nb'" "length (lb_data nb') = N" "lb_text nb' = lb_text nb @ s" .
    have "lb_text nb = []" using nb(3) by (simp add: lb_text_def)
    have "AsyncLogging_append mem s a = Inr (a\<lparr>m_currentBuffer := Some nb', m_nextBuffer := None,
        m_buffers := m_buffers a @ [Some cur]\<rparr>)"
      using False cur(1) nb(4) n'(1)
      by (cases "m_nextBuffer a") (simp_all add: AsyncLogging_append_def Let_def)
    then show ?thesis
      using cur n' assms(1) \<open>lb_text nb = []\<close>
      by (simp add: al_inv_def al_text_def)
  qed
qed

lemma collect_step:
  assumes "al_inv N a" and "al_pc a = Collecting"
  shows "runs (\<lambda>a'. al_inv N a' \<and> al_output a' = al_output a \<and> al_text otext a' = al_text otext a) (collect a)"
proof -
  have "buf_empty N (backupBuffer1 a)" "backupBuffer2 a \<noteq> None" "buf_ok N (m_currentBuffer a)"
    using assms by (simp_all add: al_inv_def)
  then obtain b1 b2 cur where b: "backupBuffer1 a = Some b1" "backupBuffer2 a = Some b2" "m_currentBuffer a = Some cur"
    by (elim buf_emptyE buf_okE) auto
  show ?thesis
    using assms b by (cases "m_nextBuffer a") (auto simp: collect_def al_inv_def al_text_def lb_text_def Suc_le_eq)
qed

text \<open>What the writing thread needs from the file it writes to.\<close>

locale log_sink =
  fixes app :: "'c \<Rightarrow> char list \<Rightarrow> 'o \<Rightarrow> 'o res"
    and otext :: "'o \<Rightarrow> char list"
    and oinv :: "'o \<Rightarrow> bool"
  assumes app_law: "oinv x \<Longrightarrow> length s < 2 ^ 31 \<Longrightarrow> runs (\<lambda>x'. oinv x' \<and> otext x' = otext x @ s) (app c s x)"
begin

lemma write_loop:
  assumes "oinv x" and "\<forall>p \<in> set ps. buf_ok N p"
  shows "runs (\<lambda>x'. oinv x' \<and> otext x' = otext x @ concat (map ptr_text ps))
    (foldE (write_one app c) (enumerate i ps) x)"
  using assms
proof (induction ps arbitrary: i x)
  case (Cons p ps)
  from Cons.prems(2) have "buf_ok N p" by simp
  then obtain b where b: "p = Some b" "lb_inv b" by (rule buf_okE)
  have len: "length (lb_text b) < 2 ^ 31" using b(2) by (simp add: lb_text_def lb_inv_def)
  have one: "write_one app c (i, p) x = app (c i) (lb_text b) x"
    by (simp add: write_one_def b LogBuffer_length_def lb_text_def)
  show ?case
    unfolding enumerate_simps foldE.simps runs_bindE one
  proof (rule runs_mono [OF app_law [OF Cons.prems(1) len]])
    fix x1 assume x1: "oinv x1 \<and> otext x1 = otext x @ lb_text b"
    with Cons.IH [of x1 "Suc i"] Cons.prems(2)
    show "runs (\<lambda>x'. oinv x' \<and> otext x' = otext x @ concat (map ptr_text (p # ps)))
      (foldE (write_one app c) (enumerate (Suc i) ps) x1)"
      by (auto simp: b(1) elim!: runs_mono)
  qed
qed simp

end

lemma recycle_step:
  assumes "al_inv N a" and "al_pc a = Writing" and "0 < N" "N < 2 ^ 31"
  shows "runs (\<lambda>a'. al_inv N a' \<and> al_output a' = al_output a \<and> m_buffers a' = m_buffers a \<and>
      m_currentBuffer a' = m_currentBuffer a \<and> buffersToWrite a' = []) (recycle a)"
proof -
  let ?ws = "take 2 (buffersToWrite a)"
  have ws: "buffersToWrite a \<noteq> []" "\<forall>p \<in> set (buffersToWrite a). buf_ok N p" "backupBuffer1 a = None"
      "backupBuffer2 a = None \<longrightarrow> 2 \<le> length (buffersToWrite a)"
    using assms(1,2) by (simp_all add: al_inv_def)
  have cut: "(if length (buffersToWrite a) > 2 then a\<lparr>buffersToWrite := ?ws\<rparr> else a) = a\<lparr>buffersToWrite := ?ws\<rparr>"
    by simp
  have reset: "lb_inv (lb_reset b)" "length (lb_data (lb_reset b)) = N" "lb_cur (lb_reset b) = 0"
    if "length (lb_data b) = N" for b
    using that assms(3,4) by (simp_all add: lb_reset_def lb_inv_def)
  show ?thesis
  proof (cases "backupBuffer2 a")
    case None
    with ws(4) obtain p q rest where "buffersToWrite a = p # q # rest"
      by (cases "buffersToWrite a" rule: list.exhaust; cases "tl (buffersToWrite a)") auto
    with ws(2) obtain b c where "buffersToWrite a = Some b # Some c # rest" "length (lb_data b) = N" "length (lb_data c) = N"
      by (auto elim!: buf_okE)
    then show ?thesis
      unfolding recycle_def cut using None ws(3) assms(1) reset
      by (simp add: take_back_def al_inv_def)
  next
    case (Some b2)
    have "last ?ws \<in> set (buffersToWrite a)" 
      using ws(1) in_set_takeD [OF last_in_set, of 2 "buffersToWrite a"] by simp
    with ws(2) obtain b where "last ?ws = Some b" "length (lb_data b) = N" by (metis buf_okE)
    then show ?thesis
      unfolding recycle_def cut using Some ws(1,3) assms(1,2) reset
      by (simp add: take_back_def al_inv_def)
  qed
qed

context log_sink
begin

definition al_good :: "nat \<Rightarrow> 'o AsyncLogging \<Rightarrow> bool" where
  "al_good N a \<longleftrightarrow> al_inv N a \<and> oinv (al_output a)"

lemma write_step:
  assumes "al_good N a" and "al_pc a = Writing" and "0 < N" "N < 2 ^ 31"
  shows "runs (\<lambda>a'. al_good N a' \<and> al_text otext a' = al_text otext a) (bindE (write_buffers app c a) recycle)"
proof -
  have g: "al_inv N a" "oinv (al_output a)" "\<forall>p \<in> set (buffersToWrite a). buf_ok N p"
    using assms(1,2) by (simp_all add: al_good_def al_inv_def)
  from write_loop [OF g(2,3), of c 0] obtain x where
    x: "foldE (write_one app c) (enumerate 0 (buffersToWrite a)) (al_output a) = Inr x" "oinv x"
      "otext x = otext (al_output a) @ concat (map ptr_text (buffersToWrite a))"
    by (auto simp: runs_iff)
  let ?a = "a\<lparr>al_output := x\<rparr>"
  have "al_inv N ?a" "al_pc ?a = Writing" using g(1) assms(2) by (simp_all add: al_inv_def)
  from recycle_step [OF this assms(3,4)] show ?thesis
    using x by (auto simp: write_buffers_def al_good_def al_text_def elim!: runs_mono)
qed

lemma run_step:
  assumes "al_good N a" and "event_ok N e" and "0 < N" "N < 2 ^ 31"
  shows "runs (\<lambda>a'. al_good N a' \<and> al_text otext a' = al_text otext a @ event_text e) (al_run app e a)"
proof (cases e)
  case (Append mem s)
  then show ?thesis
    using append_step [of N a mem s otext] assms by (auto simp: al_good_def elim!: runs_mono)
next
  case (Thread_step c)
  show ?thesis
  proof (cases "al_pc a")
    case Testing
    then show ?thesis
      using Thread_step assms(1) by (simp add: threadRoutine_def al_good_def al_inv_def al_text_def)
  next
    case Collecting
    then show ?thesis
      using Thread_step collect_step [of N a otext] assms(1)
      by (auto simp: threadRoutine_def al_good_def elim!: runs_mono)
  next
    case Writing
    then show ?thesis
      using Thread_step write_step [OF assms(1) _ assms(3,4)] by (simp add: threadRoutine_def)
  next
    case Finished
    then show ?thesis using Thread_step assms(1) by (simp add: threadRoutine_def)
  qed
next
  case Stop
  then show ?thesis
    using assms(1) by (simp add: AsyncLogging_stop_def al_good_def al_inv_def al_text_def)
qed

lemma run_schedule:
  assumes "al_good N a" and "\<forall>e \<in> set es. event_ok N e" and "0 < N" "N < 2 ^ 31"
  shows "runs (\<lambda>a'. al_good N a' \<and> al_text otext a' = al_text otext a @ concat (map event_text es))
    (foldE (al_run app) es a)"
  using assms(1,2)
proof (induction es arbitrary: a)
  case (Cons e es)
  have "runs (\<lambda>a'. al_good N a' \<and> al_text otext a' = al_text otext a @ event_text e) (al_run app e a)"
    using Cons.prems assms(3,4) by (intro run_step) simp_all
  then show ?case
    unfolding foldE.simps runs_bindE
  proof (rule runs_mono)
    fix a1 assume "al_good N a1 \<and> al_text otext a1 = al_text otext a @ event_text e"
    with Cons.IH [of a1] Cons.prems(2)
    show "runs (\<lambda>a'. al_good N a' \<and> al_text otext a' = al_text otext a @ concat (map event_text (e # es)))
      (foldE (al_run app) es a1)"
      by (auto elim!: runs_mono)
  qed
qed simp

end

lemma al_text_prefix: "prefix (otext (al_output a)) (al_text otext a)"
  by (simp add: al_text_def)

section \<open>The log file as destination\<close>

definition file_append where
  "file_append fopen_ok st fw c s = LogFile_append fopen_ok st fw (fst c, snd c, s)"

definition file_ready :: "LogFile \<Rightarrow> bool" where
  "file_ready lf \<longleftrightarrow> cur_file lf \<noteq> None \<and> 0 \<le> rollSize lf"

lemma log_file_sink: "disk_ok fopen_ok st fw \<Longrightarrow> log_sink (file_append fopen_ok st fw) log_text file_ready"
  by unfold_locales (auto simp: file_append_def LogFile_append_def file_ready_def elim!: runs_mono [OF append_ok])

interpretation steady: log_sink "file_append (\<lambda>_. True) (\<lambda>_. Inr 0) length" log_text file_ready
  by (rule log_file_sink) (simp add: disk_ok_def)

section \<open>Properties\<close>



end
