(* ===== verification/EventLoop.thy ===== *)
theory EventLoop
  imports Prelude
begin

text \<open>
  \<open>net/EventLoop.h\<close> and \<open>net/EventLoop.cpp\<close>: the part of the loop that other threads touch, which is
  the queue of pending functors, the flags and the wake-up descriptor. A functor is a value of type
  \<open>'f\<close>; the effect of running one is a parameter. The first part translates the member functions;
  the second interleaves the loop thread with threads that post functors or ask the loop to quit.
\<close>

section \<open>Member functions\<close>

text \<open>\<open>wakeup_count\<close> is the counter of the eventfd.\<close>

record 'f EventLoop =
  m_looping :: bool
  m_quit :: bool
  lp_threadId :: tid
  m_callingPendingFunctors :: bool
  m_pendingFunctors :: "'f list"
  wakeup_count :: nat

definition newEventLoop :: "tid \<Rightarrow> 'f EventLoop" where
  "newEventLoop t = \<lparr>m_looping = False, m_quit = False, lp_threadId = t,
     m_callingPendingFunctors = False, m_pendingFunctors = [], wakeup_count = 0\<rparr>"

definition isInloopThread :: "tid \<Rightarrow> 'f EventLoop \<Rightarrow> bool" where
  "isInloopThread t s \<longleftrightarrow> lp_threadId s = t"

text \<open>
  Writing 1 to the eventfd adds to its counter. The descriptor does not block: at the largest value
  the write fails, and the code only logs that.
\<close>

definition wakeup :: "'f EventLoop \<Rightarrow> 'f EventLoop" where
  "wakeup s = (if wakeup_count s < 2 ^ 64 - 2 then s\<lparr>wakeup_count := wakeup_count s + 1\<rparr> else s)"

text \<open>Reading the eventfd resets the counter.\<close>

definition wakeup_handleRead :: "'f EventLoop \<Rightarrow> 'f EventLoop" where
  "wakeup_handleRead s = s\<lparr>wakeup_count := 0\<rparr>"

definition push_functor :: "'f \<Rightarrow> 'f EventLoop \<Rightarrow> 'f EventLoop" where
  "push_functor f s = s\<lparr>m_pendingFunctors := m_pendingFunctors s @ [f]\<rparr>"

definition queueInLoop :: "tid \<Rightarrow> 'f \<Rightarrow> 'f EventLoop \<Rightarrow> 'f EventLoop" where
  "queueInLoop t f s =
     (let s' = push_functor f s in
      if \<not> isInloopThread t s' \<or> m_callingPendingFunctors s' then wakeup s' else s')"

definition runInLoop :: "('f \<Rightarrow> 'f EventLoop \<Rightarrow> 'f EventLoop res) \<Rightarrow> tid \<Rightarrow> 'f \<Rightarrow> 'f EventLoop \<Rightarrow> 'f EventLoop res" where
  "runInLoop run t f s = (if isInloopThread t s then run f s else Inr (queueInLoop t f s))"

definition quit :: "tid \<Rightarrow> 'f EventLoop \<Rightarrow> 'f EventLoop res" where
  "quit t s =
     assertE (m_looping s)
       (let s' = s\<lparr>m_quit := True\<rparr> in
        Inr (if \<not> isInloopThread t s' then wakeup s' else s'))"

definition swap_pending :: "'f EventLoop \<Rightarrow> 'f list \<times> 'f EventLoop" where
  "swap_pending s =
     (m_pendingFunctors s, s\<lparr>m_callingPendingFunctors := True, m_pendingFunctors := []\<rparr>)"

definition doPendingFunctors ::
  "('f \<Rightarrow> 'f EventLoop \<Rightarrow> 'f EventLoop res) \<Rightarrow> 'f EventLoop \<Rightarrow> 'f EventLoop res" where
  "doPendingFunctors run s =
     (let (functors, s1) = swap_pending s in
      bindE (foldE run functors s1) (\<lambda>s2. Inr (s2\<lparr>m_callingPendingFunctors := False\<rparr>)))"

definition loop_enter :: "tid \<Rightarrow> 'f EventLoop \<Rightarrow> 'f EventLoop res" where
  "loop_enter t s =
     assertE (\<not> m_looping s)
       (if isInloopThread t s then Inr (s\<lparr>m_quit := False, m_looping := True\<rparr>) else Inl FatalLog)"

text \<open>
  The loop: \<open>poll\<close> returns the active channels, \<open>handle\<close> is \<open>handleEvent\<close> of one of them. \<open>n\<close> bounds
  the rounds; \<open>None\<close> means that the loop is still running after them.
\<close>

fun loop_rounds ::
  "('f EventLoop \<Rightarrow> nat list \<times> 'f EventLoop) \<Rightarrow> (nat \<Rightarrow> 'f EventLoop \<Rightarrow> 'f EventLoop res) \<Rightarrow>
   ('f \<Rightarrow> 'f EventLoop \<Rightarrow> 'f EventLoop res) \<Rightarrow> nat \<Rightarrow> 'f EventLoop \<Rightarrow> 'f EventLoop res option" where
  "loop_rounds poll handle run n s =
     (if m_quit s then Some (Inr (s\<lparr>m_looping := False\<rparr>))
      else case n of
        0 \<Rightarrow> None
      | Suc k \<Rightarrow>
          (case poll s of (active, s1) \<Rightarrow>
             case bindE (foldE handle active s1) (doPendingFunctors run) of
               Inl e \<Rightarrow> Some (Inl e)
             | Inr s2 \<Rightarrow> loop_rounds poll handle run k s2))"

declare loop_rounds.simps [simp del]

section \<open>Interleaving\<close>

text \<open>
  The loop thread is outside \<open>loop\<close>, at the test of \<open>m_quit\<close>, in \<open>epoll_wait\<close>, handling the active
  channels, or calling the functors it has taken. Another thread that posts is between the push and
  the wake-up, one that quits between setting the flag and the wake-up. \<open>queued\<close> and \<open>executed\<close> are
  histories; \<open>early\<close> records that the loop thread itself queued a functor while it was not in
  \<open>loop\<close>, for which \<open>queueInLoop\<close> writes no wake-up.
\<close>

datatype 'f loop_pc = Stopped | Testing | Polling | Dispatching | Calling "'f list"

datatype post_pc = Idle | Pushed | QuitSet

record 'f sys =
  lp :: "'f EventLoop"
  pc :: "'f loop_pc"
  posters :: "tid \<Rightarrow> post_pc"
  queued :: "'f list"
  executed :: "'f list"
  early :: bool

definition init_sys :: "tid \<Rightarrow> 'f sys" where
  "init_sys t = \<lparr>lp = newEventLoop t, pc = Stopped, posters = (\<lambda>_. Idle), queued = [], executed = [],
     early = False\<rparr>"

inductive loop_step :: "'f sys \<Rightarrow> 'f sys \<Rightarrow> bool" where
  enter: "pc s = Stopped \<Longrightarrow> loop_enter (lp_threadId (lp s)) (lp s) = Inr l \<Longrightarrow>
    loop_step s (s\<lparr>lp := l, pc := Testing\<rparr>)"
| leave: "pc s = Testing \<Longrightarrow> m_quit (lp s) \<Longrightarrow>
    loop_step s (s\<lparr>lp := (lp s)\<lparr>m_looping := False\<rparr>, pc := Stopped\<rparr>)"
| wait: "pc s = Testing \<Longrightarrow> \<not> m_quit (lp s) \<Longrightarrow> loop_step s (s\<lparr>pc := Polling\<rparr>)"
| polled: "pc s = Polling \<Longrightarrow> loop_step s (s\<lparr>pc := Dispatching\<rparr>)"
| read_wakeup: "pc s = Dispatching \<Longrightarrow> loop_step s (s\<lparr>lp := wakeup_handleRead (lp s)\<rparr>)"
| take_pending: "pc s = Dispatching \<Longrightarrow> swap_pending (lp s) = (fs, l) \<Longrightarrow>
    loop_step s (s\<lparr>lp := l, pc := Calling fs, early := False\<rparr>)"
| call: "pc s = Calling (f # fs) \<Longrightarrow>
    loop_step s (s\<lparr>pc := Calling fs, executed := executed s @ [f]\<rparr>)"
| called_all: "pc s = Calling [] \<Longrightarrow>
    loop_step s (s\<lparr>lp := (lp s)\<lparr>m_callingPendingFunctors := False\<rparr>, pc := Testing\<rparr>)"
| queue_self: "pc s \<in> {Stopped, Dispatching} \<union> range Calling \<Longrightarrow>
    loop_step s (s\<lparr>lp := queueInLoop (lp_threadId (lp s)) f (lp s), queued := queued s @ [f],
      early := (early s \<or> pc s = Stopped)\<rparr>)"
| quit_self: "pc s \<in> {Dispatching} \<union> range Calling \<Longrightarrow> quit (lp_threadId (lp s)) (lp s) = Inr l \<Longrightarrow>
    loop_step s (s\<lparr>lp := l\<rparr>)"
| post: "t \<noteq> lp_threadId (lp s) \<Longrightarrow> posters s t = Idle \<Longrightarrow>
    loop_step s (s\<lparr>lp := push_functor f (lp s), posters := (posters s)(t := Pushed),
      queued := queued s @ [f]\<rparr>)"
| quit_other: "t \<noteq> lp_threadId (lp s) \<Longrightarrow> posters s t = Idle \<Longrightarrow> m_looping (lp s) \<Longrightarrow>
    loop_step s (s\<lparr>lp := (lp s)\<lparr>m_quit := True\<rparr>, posters := (posters s)(t := QuitSet)\<rparr>)"
| wake: "posters s t \<noteq> Idle \<Longrightarrow>
    loop_step s (s\<lparr>lp := wakeup (lp s), posters := (posters s)(t := Idle)\<rparr>)"

inductive loop_reach :: "tid \<Rightarrow> 'f sys \<Rightarrow> bool" for t where
  start: "loop_reach t (init_sys t)"
| step: "loop_reach t s \<Longrightarrow> loop_step s s' \<Longrightarrow> loop_reach t s'"

section \<open>Invariant\<close>

fun taken :: "'f loop_pc \<Rightarrow> 'f list" where
  "taken (Calling fs) = fs"
| "taken _ = []"

text \<open>\<open>signalled s q\<close>: the descriptor is readable, or a thread in state \<open>q\<close> is about to write to it.\<close>

definition signalled :: "'f sys \<Rightarrow> post_pc \<Rightarrow> bool" where
  "signalled s q \<longleftrightarrow> 0 < wakeup_count (lp s) \<or> (\<exists>t. posters s t = q)"

definition loop_inv :: "'f sys \<Rightarrow> bool" where
  "loop_inv s \<longleftrightarrow>
     queued s = executed s @ taken (pc s) @ m_pendingFunctors (lp s) \<and>
     (m_callingPendingFunctors (lp s) \<longleftrightarrow> pc s \<in> range Calling) \<and>
     (m_looping (lp s) \<longleftrightarrow> pc s \<noteq> Stopped) \<and>
     (pc s \<noteq> Dispatching \<longrightarrow> m_pendingFunctors (lp s) \<noteq> [] \<longrightarrow> early s \<or> signalled s Pushed) \<and>
     (pc s = Polling \<longrightarrow> m_quit (lp s) \<longrightarrow> signalled s QuitSet)"

lemma wakeup_simps [simp]:
  "m_looping (wakeup s) = m_looping s" "m_quit (wakeup s) = m_quit s"
  "lp_threadId (wakeup s) = lp_threadId s" "m_pendingFunctors (wakeup s) = m_pendingFunctors s"
  "m_callingPendingFunctors (wakeup s) = m_callingPendingFunctors s" "0 < wakeup_count (wakeup s)"
  by (simp_all add: wakeup_def)

lemma queueInLoop_simps [simp]:
  "m_looping (queueInLoop t f s) = m_looping s" "m_quit (queueInLoop t f s) = m_quit s"
  "lp_threadId (queueInLoop t f s) = lp_threadId s"
  "m_pendingFunctors (queueInLoop t f s) = m_pendingFunctors s @ [f]"
  "m_callingPendingFunctors (queueInLoop t f s) = m_callingPendingFunctors s"
  by (simp_all add: queueInLoop_def push_functor_def Let_def)

lemma queueInLoop_wakes:
  "lp_threadId s \<noteq> t \<or> m_callingPendingFunctors s \<Longrightarrow> 0 < wakeup_count (queueInLoop t f s)"
  by (auto simp: queueInLoop_def push_functor_def isInloopThread_def Let_def)

text \<open>A thread that starts to post or to quit takes no signal away, and announces one.\<close>

lemma signalled_keep:
  assumes "signalled s q" and "posters s t = Idle" and "q \<noteq> Idle"
    and "wakeup_count (lp s') = wakeup_count (lp s)" and "posters s' = (posters s)(t := q')"
  shows "signalled s' q"
proof -
  have "(\<exists>t'. posters s t' = q) \<longrightarrow> (\<exists>t'. posters s' t' = q)"
    using assms(2,3,5) by (metis fun_upd_other)
  then show ?thesis using assms(1,4) by (auto simp: signalled_def)
qed

lemma signalled_new: "posters s' = (posters s)(t := q) \<Longrightarrow> signalled s' q"
  by (auto simp: signalled_def)

lemma init_inv: "loop_inv (init_sys t)"
  by (auto simp: loop_inv_def init_sys_def newEventLoop_def)

lemma step_inv: "loop_step s s' \<Longrightarrow> loop_inv s \<Longrightarrow> loop_inv s'"
proof (induction rule: loop_step.induct)
  case (enter s l)
  then show ?case
    by (auto simp: loop_inv_def signalled_def loop_enter_def isInloopThread_def assertE_eq_Inr)
next
  case (take_pending s fs l)
  then show ?case by (auto simp: loop_inv_def signalled_def swap_pending_def)
next
  case (queue_self s f)
  then show ?case by (auto simp: loop_inv_def signalled_def queueInLoop_wakes)
next
  case (quit_self s l)
  then show ?case
    by (auto simp: loop_inv_def signalled_def quit_def assertE_eq_Inr isInloopThread_def)
next
  case (post t s f)
  let ?s = "s\<lparr>lp := push_functor f (lp s), posters := (posters s)(t := Pushed), queued := queued s @ [f]\<rparr>"
  have "signalled ?s Pushed" by (rule signalled_new [of _ s t]) simp
  moreover have "signalled s QuitSet \<Longrightarrow> signalled ?s QuitSet"
    using post by (elim signalled_keep) (simp_all add: push_functor_def)
  ultimately show ?case using post by (auto simp: loop_inv_def push_functor_def)
next
  case (quit_other t s)
  let ?s = "s\<lparr>lp := (lp s)\<lparr>m_quit := True\<rparr>, posters := (posters s)(t := QuitSet)\<rparr>"
  have "signalled ?s QuitSet" by (rule signalled_new [of _ s t]) simp
  moreover have "signalled s Pushed \<Longrightarrow> signalled ?s Pushed"
    using quit_other by (elim signalled_keep) simp_all
  ultimately show ?case using quit_other by (auto simp: loop_inv_def)
qed (auto simp: loop_inv_def signalled_def wakeup_handleRead_def)

lemma reach_inv: "loop_reach t s \<Longrightarrow> loop_inv s"
  by (induction rule: loop_reach.induct) (auto intro: init_inv step_inv)

section \<open>Properties\<close>

text \<open>
  C19: no wake-up is lost. In every interleaving of the loop with threads that post functors and
  threads that ask it to quit, when the loop waits in \<open>epoll_wait\<close> and there is a pending functor
  (other than one the loop thread queued before it entered the loop) or the quit flag is set, the
  wake-up descriptor is readable, or the thread that pushed the functor or set the flag is about to
  write to it. So the loop never sleeps on work that another thread handed over.
\<close>

theorem no_lost_wakeup:
  assumes "loop_reach t s" and "pc s = Polling"
  shows "(m_pendingFunctors (lp s) \<noteq> [] \<and> \<not> early s \<longrightarrow>
      0 < wakeup_count (lp s) \<or> (\<exists>u. posters s u = Pushed)) \<and>
    (m_quit (lp s) \<longrightarrow> 0 < wakeup_count (lp s) \<or> (\<exists>u. posters s u = QuitSet))"
  using reach_inv [OF assms(1)] assms(2) by (auto simp: loop_inv_def signalled_def)

lemma reach_posted: "\<exists>s. loop_reach 1 s \<and> pc s = Polling \<and> m_pendingFunctors (lp s) = [7 :: nat] \<and>
    \<not> early s \<and> \<not> m_quit (lp s)"
proof -
  let ?l = "(newEventLoop 1 :: nat EventLoop)\<lparr>m_quit := False, m_looping := True\<rparr>"
  let ?s1 = "(init_sys 1)\<lparr>lp := ?l, pc := Testing\<rparr>" and ?s2 = "(init_sys 1)\<lparr>lp := ?l, pc := Polling\<rparr>"
  let ?s3 = "?s2\<lparr>lp := push_functor 7 (lp ?s2), posters := (posters ?s2)(2 := Pushed), queued := queued ?s2 @ [7]\<rparr>"
  have "loop_step (init_sys 1) ?s1"
    using loop_step.enter [of "init_sys 1" ?l]
    by (simp add: init_sys_def loop_enter_def newEventLoop_def isInloopThread_def)
  moreover have "loop_step ?s1 ?s2"
    using loop_step.wait [of ?s1] by simp
  moreover have "loop_step ?s2 ?s3"
    by (rule loop_step.post) (simp_all add: init_sys_def newEventLoop_def)
  ultimately have "loop_reach 1 ?s3" by (blast intro: loop_reach.intros)
  moreover have "pc ?s3 = Polling" "m_pendingFunctors (lp ?s3) = [7]" "\<not> early ?s3" "\<not> m_quit (lp ?s3)"
    by (simp_all add: push_functor_def init_sys_def newEventLoop_def)
  ultimately show ?thesis by blast
qed

theorem no_lost_wakeup_witness:
  "\<exists>s. loop_reach 1 s \<and> pc s = Polling \<and> m_pendingFunctors (lp s) = [7 :: nat] \<and>
    (0 < wakeup_count (lp s) \<or> (\<exists>u. posters s u = Pushed))"
  using reach_posted no_lost_wakeup by (metis list.distinct(1))

text \<open>
  C21: functors run in the order they were queued, each once. In every reachable state the functors
  queued so far, by whatever threads, are those already called, then those the loop has taken and
  is about to call, then the pending ones.
\<close>

theorem functors_fifo:
  assumes "loop_reach t s"
  shows "queued s = executed s @ (case pc s of Calling fs \<Rightarrow> fs | _ \<Rightarrow> []) @ m_pendingFunctors (lp s)"
  using reach_inv [OF assms] by (cases "pc s") (simp_all add: loop_inv_def)

theorem functors_fifo_witness:
  "\<exists>s. loop_reach 1 s \<and> queued s = executed s @ [7 :: nat]"
proof -
  from reach_posted obtain s :: "nat sys" where s: "loop_reach 1 s" "pc s = Polling"
      "m_pendingFunctors (lp s) = [7]" by blast
  from functors_fifo [OF s(1)] s show ?thesis by auto
qed

text \<open>What a functor does that queues others: \<open>spawn f\<close> lists them.\<close>

definition run_spawn :: "('f \<Rightarrow> 'f list) \<Rightarrow> 'f \<Rightarrow> 'f EventLoop \<Rightarrow> 'f EventLoop res" where
  "run_spawn spawn f s = Inr (fold (queueInLoop (lp_threadId s)) (spawn f) s)"

lemma queue_all:
  "m_pendingFunctors (fold (queueInLoop t) fs s) = m_pendingFunctors s @ fs \<and>
   m_callingPendingFunctors (fold (queueInLoop t) fs s) = m_callingPendingFunctors s \<and>
   lp_threadId (fold (queueInLoop t) fs s) = lp_threadId s \<and>
   (m_callingPendingFunctors s \<longrightarrow> fs \<noteq> [] \<or> 0 < wakeup_count s \<longrightarrow>
     0 < wakeup_count (fold (queueInLoop t) fs s))"
proof (induction fs arbitrary: s)
  case (Cons f fs)
  show ?case using Cons.IH [of "queueInLoop t f s"] queueInLoop_wakes [of s t f] by auto
qed simp

lemma run_all_spawn:
  assumes "m_callingPendingFunctors s"
  shows "runs (\<lambda>s'. m_pendingFunctors s' = m_pendingFunctors s @ concat (map spawn fs) \<and>
      m_callingPendingFunctors s' \<and>
      (concat (map spawn fs) \<noteq> [] \<or> 0 < wakeup_count s \<longrightarrow> 0 < wakeup_count s'))
    (foldE (run_spawn spawn) fs s)"
  using assms
proof (induction fs arbitrary: s)
  case (Cons f fs)
  let ?s = "fold (queueInLoop (lp_threadId s)) (spawn f) s"
  have "m_callingPendingFunctors ?s" using Cons.prems queue_all by metis
  from Cons.IH [OF this] show ?case
    using queue_all [of "lp_threadId s" "spawn f" s] Cons.prems
    by (auto simp: run_spawn_def elim!: runs_mono)
qed simp

text \<open>
  A round calls a snapshot. \<open>doPendingFunctors\<close> calls exactly the functors pending when it
  starts; the functors those queue are left pending, in order, for the next round, and then the
  wake-up descriptor is readable so that the next \<open>epoll_wait\<close> returns at once.
\<close>

theorem doPendingFunctors_snapshot:
  "runs (\<lambda>s'. m_pendingFunctors s' = concat (map spawn (m_pendingFunctors s)) \<and>
      \<not> m_callingPendingFunctors s' \<and> (m_pendingFunctors s' \<noteq> [] \<longrightarrow> 0 < wakeup_count s'))
    (doPendingFunctors (run_spawn spawn) s)"
proof -
  let ?s = "s\<lparr>m_callingPendingFunctors := True, m_pendingFunctors := []\<rparr>"
  have "runs (\<lambda>s'. m_pendingFunctors s' = concat (map spawn (m_pendingFunctors s)) \<and>
      (m_pendingFunctors s' \<noteq> [] \<longrightarrow> 0 < wakeup_count s')) (foldE (run_spawn spawn) (m_pendingFunctors s) ?s)"
    by (rule runs_mono [OF run_all_spawn]) auto
  then show ?thesis
    by (simp add: doPendingFunctors_def swap_pending_def runs_bindE)
qed

theorem doPendingFunctors_snapshot_witness:
  "runs (\<lambda>s'. m_pendingFunctors s' = [2, 1, 0 :: nat])
    (doPendingFunctors (run_spawn (\<lambda>n. if n = 0 then [] else [n - 1]))
      ((newEventLoop 1)\<lparr>m_pendingFunctors := [3, 2, 1, 0]\<rparr>))"
  using doPendingFunctors_snapshot [of "\<lambda>n :: nat. if n = 0 then [] else [n - 1]"
      "(newEventLoop 1)\<lparr>m_pendingFunctors := [3, 2, 1, 0]\<rparr>"]
  by (auto elim!: runs_mono)

end
