(* ===== verification/Std_Set.thy ===== *)
theory Std_Set
  imports Prelude
begin

text \<open>
  \<open>std::set\<close> as the sources use it: a strictly sorted list with \<open>insert\<close> (and whether the element
  was new), \<open>erase\<close> (and how many elements went away), \<open>find\<close>, and the removal of everything before
  a lower bound. The locale \<open>ordered_set\<close> is the contract of the container, from which the laws the
  timer queue needs follow.
\<close>

fun set_insert :: "'a::linorder \<Rightarrow> 'a list \<Rightarrow> 'a list \<times> bool" where
  "set_insert x [] = ([x], True)"
| "set_insert x (y # ys) =
     (if x < y then (x # y # ys, True)
      else if x = y then (y # ys, False)
      else (case set_insert x ys of (zs, new) \<Rightarrow> (y # zs, new)))"

definition set_erase :: "'a::linorder \<Rightarrow> 'a list \<Rightarrow> 'a list \<times> nat" where
  "set_erase x xs = (filter (\<lambda>y. y \<noteq> x) xs, length (filter (\<lambda>y. y = x) xs))"

text \<open>The elements before \<open>lower_bound(x)\<close> and those from it on.\<close>

definition set_split :: "'a::linorder \<Rightarrow> 'a list \<Rightarrow> 'a list \<times> 'a list" where
  "set_split x xs = (takeWhile (\<lambda>y. y < x) xs, dropWhile (\<lambda>y. y < x) xs)"

lemma fst_set_insert: "set (fst (set_insert x xs)) = insert x (set xs)"
  by (induction xs) (auto simp: split_beta)

lemma set_insert_new: "sorted_wrt (<) xs \<Longrightarrow> snd (set_insert x xs) \<longleftrightarrow> x \<notin> set xs"
proof (induction xs)
  case (Cons y ys)
  then show ?case
    by (cases x y rule: linorder_cases) (auto simp: split_beta)
qed simp

lemma set_insert_sorted: "sorted_wrt (<) xs \<Longrightarrow> sorted_wrt (<) (fst (set_insert x xs))"
proof (induction xs)
  case (Cons y ys)
  then show ?case using fst_set_insert [of x ys] by (auto simp: split_beta)
qed simp

lemma sorted_wrt_distinct: "sorted_wrt (<) (xs :: 'a::linorder list) \<Longrightarrow> distinct xs"
  using strict_sorted_iff by blast

lemma set_erase_count:
  assumes "sorted_wrt (<) xs"
  shows "snd (set_erase x xs) = (if x \<in> set xs then 1 else 0)"
  using sorted_wrt_distinct [OF assms] by (induction xs) (auto simp: set_erase_def)

lemma set_split_low: "y \<in> set (fst (set_split x xs)) \<Longrightarrow> y < x"
  by (auto simp: set_split_def dest: set_takeWhileD)

lemma set_split_high:
  assumes "sorted_wrt (<) xs" and "y \<in> set (snd (set_split x xs))"
  shows "\<not> y < x"
  using assms by (induction xs) (auto simp: set_split_def split: if_splits)

lemma set_split_append: "fst (set_split x xs) @ snd (set_split x xs) = xs"
  by (simp add: set_split_def)

text \<open>The contract of the container.\<close>

locale ordered_set =
  fixes inv :: "'s \<Rightarrow> bool" and elems :: "'s \<Rightarrow> 'a::linorder list"
    and ins :: "'a \<Rightarrow> 's \<Rightarrow> 's \<times> bool"
    and era :: "'a \<Rightarrow> 's \<Rightarrow> 's \<times> nat"
    and split :: "'a \<Rightarrow> 's \<Rightarrow> 'a list \<times> 's"
  assumes strict: "inv s \<Longrightarrow> sorted_wrt (<) (elems s)"
    and ins_law: "inv s \<Longrightarrow> ins x s = (s', new) \<Longrightarrow>
      inv s' \<and> set (elems s') = insert x (set (elems s)) \<and> (new \<longleftrightarrow> x \<notin> set (elems s))"
    and era_law: "inv s \<Longrightarrow> era x s = (s', n) \<Longrightarrow>
      inv s' \<and> set (elems s') = set (elems s) - {x} \<and> n = (if x \<in> set (elems s) then 1 else 0)"
    and split_law: "inv s \<Longrightarrow> split x s = (low, s') \<Longrightarrow>
      inv s' \<and> elems s = low @ elems s' \<and> (\<forall>y \<in> set low. y < x) \<and> (\<forall>y \<in> set (elems s'). \<not> y < x)"
begin

lemma size_card: "inv s \<Longrightarrow> length (elems s) = card (set (elems s))"
  using strict distinct_card sorted_wrt_distinct by metis

lemma ins_new:
  assumes "inv s" and "x \<notin> set (elems s)" and "ins x s = (s', new)"
  shows "new" and "length (elems s') = Suc (length (elems s))"
proof -
  note law = ins_law [OF assms(1,3)]
  from law assms(2) show "new" by simp
  from law have "length (elems s') = card (insert x (set (elems s)))" using size_card by metis
  also have "\<dots> = Suc (length (elems s))" using assms(1,2) size_card by simp
  finally show "length (elems s') = Suc (length (elems s))" .
qed

lemma era_one:
  assumes "inv s" and "x \<in> set (elems s)" and "era x s = (s', n)"
  shows "n = 1" and "Suc (length (elems s')) = length (elems s)"
proof -
  note law = era_law [OF assms(1,3)]
  from law assms(2) show "n = 1" by simp
  from law have "length (elems s') = card (set (elems s) - {x})" using size_card by metis
  then show "Suc (length (elems s')) = length (elems s)"
    using assms(1,2) size_card [of s] card_Suc_Diff1 [of "set (elems s)" x] by simp
qed

lemma ins_era:
  assumes "inv s" and "x \<notin> set (elems s)" and "ins x s = (s', new)" and "era x s' = (s'', n)"
  shows "elems s'' = elems s" and "n = 1"
proof -
  from ins_law [OF assms(1,3)] assms(2)
  have s': "inv s'" "set (elems s') = insert x (set (elems s))" by auto
  from era_law [OF s'(1) assms(4)] s'(2) assms(2)
  have s'': "inv s''" "set (elems s'') = set (elems s)" "n = 1" by auto
  then show "n = 1" by simp
  show "elems s'' = elems s"
    using s'' assms(1) strict strict_sorted_equal by blast
qed

end

interpretation sset: ordered_set "sorted_wrt (<) :: 'a::linorder list \<Rightarrow> bool" id set_insert set_erase
  set_split
proof
  fix s s' :: "'a list" and x :: 'a and new :: bool and n :: nat and low :: "'a list"
  assume s: "sorted_wrt (<) s"
  show "sorted_wrt (<) (id s)" using s by simp
  show "sorted_wrt (<) s' \<and> set (id s') = insert x (set (id s)) \<and> (new \<longleftrightarrow> x \<notin> set (id s))"
    if "set_insert x s = (s', new)"
    using that set_insert_sorted [OF s, of x] fst_set_insert [of x s] set_insert_new [OF s, of x] by simp
  show "sorted_wrt (<) s' \<and> set (id s') = set (id s) - {x} \<and> n = (if x \<in> set (id s) then 1 else 0)"
    if "set_erase x s = (s', n)"
    using that s set_erase_count [OF s, of x] by (auto simp: set_erase_def sorted_wrt_filter)
  show "sorted_wrt (<) s' \<and> id s = low @ id s' \<and> (\<forall>y \<in> set low. y < x) \<and> (\<forall>y \<in> set (id s'). \<not> y < x)"
    if "set_split x s = (low, s')"
  proof -
    from that set_split_append [of x s] have "s = low @ s'" by simp
    moreover from this s have "sorted_wrt (<) s'" by (simp add: sorted_wrt_append)
    ultimately show ?thesis using that set_split_low [of _ x s] set_split_high [OF s, of _ x] by auto
  qed
qed

end
