(* ===== verification/TimerQueue.thy ===== *)
theory TimerQueue
  imports TimeStamp Std_Set
begin

text \<open>
  \<open>net/Timer.h\<close>, \<open>net/Timer.cpp\<close>, \<open>net/TimerId.h\<close>, \<open>net/TimerQueue.h\<close> and \<open>net/TimerQueue.cpp\<close>.
  Timers are heap objects; the queue keeps two sets of pointers to them, by expiration and by
  address, and arms the timer descriptor. The operations here run on the loop thread.

  A timer callback is represented by what it does to the queue: a list of actions, each adding a
  timer (at the address \<open>new\<close> returned) or cancelling one. The \<open>i\<close>-th reading of the clock is
  \<open>clk i\<close>; the state counts the readings.
\<close>

section \<open>Data\<close>

type_synonym clock = "nat \<Rightarrow> int \<times> int"

record TimerId =
  id_timer :: addr
  id_sequence :: int

datatype action =
    ActAdd addr "action list" TimeStamp double
  | ActCancel TimerId

record Timer =
  m_callBack :: "action list"
  m_expiration :: TimeStamp
  m_interval :: double
  m_repeat :: bool
  m_sequence :: int

type_synonym Entry = "TimeStamp \<times> addr"
type_synonym ActiveTimer = "addr \<times> int"

text \<open>
  \<open>timers\<close> is the heap, \<open>s_numCreated\<close> the static counter, \<open>timerfd\<close> the last value given to
  \<open>timerfd_settime\<close> (seconds and nanoseconds), \<open>fired\<close> the timers whose callback has run.
\<close>

record TimerQueue =
  m_timers :: "Entry list"
  m_activeTimers :: "ActiveTimer list"
  m_callingExpiredTimers :: bool
  m_cancelingTimers :: "ActiveTimer list"
  timers :: "addr \<rightharpoonup> Timer"
  s_numCreated :: int
  timerfd :: "(int \<times> int) option"
  readings :: nat
  fired :: "addr list"

definition newTimerQueue :: TimerQueue where
  "newTimerQueue = \<lparr>m_timers = [], m_activeTimers = [], m_callingExpiredTimers = False,
     m_cancelingTimers = [], timers = Map.empty, s_numCreated = 0, timerfd = None, readings = 0,
     fired = []\<rparr>"

section \<open>Timers\<close>

definition newTimer :: "action list \<Rightarrow> TimeStamp \<Rightarrow> double \<Rightarrow> int \<Rightarrow> Timer \<times> int" where
  "newTimer cb when interval numCreated =
     (case incrementAndGet numCreated of (sequence, numCreated') \<Rightarrow>
       (\<lparr>m_callBack = cb, m_expiration = when, m_interval = interval,
         m_repeat = dbl_positive interval, m_sequence = sequence\<rparr>, numCreated'))"

definition restart :: "TimeStamp \<Rightarrow> Timer \<Rightarrow> Timer" where
  "restart now t =
     (if m_repeat t then t\<lparr>m_expiration := addTime now (m_interval t)\<rparr>
      else t\<lparr>m_expiration := invalid\<rparr>)"

text \<open>Access through a pointer: a pointer to no timer is undefined behaviour.\<close>

definition deref :: "addr \<Rightarrow> TimerQueue \<Rightarrow> Timer res" where
  "deref p q = (case timers q p of None \<Rightarrow> Inl Undefined | Some t \<Rightarrow> Inr t)"

section \<open>The timer descriptor\<close>

definition now :: "clock \<Rightarrow> TimerQueue \<Rightarrow> TimeStamp \<times> TimerQueue" where
  "now clk q = (TimeStamp_now (clk (readings q)), q\<lparr>readings := Suc (readings q)\<rparr>)"

definition howMuchTimeFromNow :: "TimeStamp \<Rightarrow> TimeStamp \<Rightarrow> int \<times> int" where
  "howMuchTimeFromNow n when =
     (let us = wrap_int64 (microSecondsSinceEpoch when - microSecondsSinceEpoch n);
          us = (if us < 100 then 100 else us)
      in (cdiv us kMicroSecondsPerSecond, crem us kMicroSecondsPerSecond * 1000))"

definition resetTimerfd :: "clock \<Rightarrow> TimeStamp \<Rightarrow> TimerQueue \<Rightarrow> TimerQueue" where
  "resetTimerfd clk expiration q =
     (case now clk q of (n, q') \<Rightarrow> q'\<lparr>timerfd := Some (howMuchTimeFromNow n expiration)\<rparr>)"

section \<open>Operations\<close>

definition tq_insert :: "addr \<Rightarrow> TimerQueue \<Rightarrow> (bool \<times> TimerQueue) res" where
  "tq_insert p q =
     assertE (length (m_timers q) = length (m_activeTimers q))
       (bindE (deref p q) (\<lambda>t.
        let when = m_expiration t;
            earliestChanged = (case m_timers q of [] \<Rightarrow> True | e # _ \<Rightarrow> when < fst e);
            (ts, new) = set_insert (when, p) (m_timers q)
        in assertE new
          (let (as, new') = set_insert (p, m_sequence t) (m_activeTimers q);
               q' = q\<lparr>m_timers := ts, m_activeTimers := as\<rparr>
           in assertE new'
             (assertE (length (m_timers q') = length (m_activeTimers q'))
               (Inr (earliestChanged, q'))))))"

definition addTimerInLoop :: "clock \<Rightarrow> addr \<Rightarrow> TimerQueue \<Rightarrow> TimerQueue res" where
  "addTimerInLoop clk p q =
     bindE (tq_insert p q) (\<lambda>(earliestChanged, q').
       if earliestChanged
       then bindE (deref p q') (\<lambda>t. Inr (resetTimerfd clk (m_expiration t) q'))
       else Inr q')"

text \<open>
  \<open>addTimer\<close> on the loop thread, where \<open>runInLoop\<close> calls \<open>addTimerInLoop\<close> at once; \<open>p\<close> is the
  address of the new timer.
\<close>

definition addTimer ::
  "clock \<Rightarrow> addr \<Rightarrow> action list \<Rightarrow> TimeStamp \<Rightarrow> double \<Rightarrow> TimerQueue \<Rightarrow> (TimerId \<times> TimerQueue) res" where
  "addTimer clk p cb when interval q =
     (let (t, numCreated') = newTimer cb when interval (s_numCreated q);
          q1 = q\<lparr>timers := (timers q)(p \<mapsto> t), s_numCreated := numCreated'\<rparr>
      in bindE (addTimerInLoop clk p q1) (\<lambda>q2.
         Inr (\<lparr>id_timer = p, id_sequence = m_sequence t\<rparr>, q2)))"

definition cancelInLoop :: "TimerId \<Rightarrow> TimerQueue \<Rightarrow> TimerQueue res" where
  "cancelInLoop tid q =
     assertE (length (m_timers q) = length (m_activeTimers q))
       (let timer = (id_timer tid, id_sequence tid) in
        bindE
         (if timer \<in> set (m_activeTimers q)
          then bindE (deref (id_timer tid) q) (\<lambda>t.
               let (ts, n) = set_erase (m_expiration t, id_timer tid) (m_timers q)
               in assertE (n = 1)
                    (Inr (q\<lparr>m_timers := ts, timers := (timers q)(id_timer tid := None)\<rparr>)))
          else if m_callingExpiredTimers q
          then Inr (q\<lparr>m_cancelingTimers := fst (set_insert timer (m_cancelingTimers q))\<rparr>)
          else Inr q)
         (\<lambda>q'. assertE (length (m_timers q') = length (m_activeTimers q')) (Inr q')))"

text \<open>The largest address a pointer can hold, which no object has.\<close>

definition uintptr_max :: addr where "uintptr_max = 2 ^ 64 - 1"

definition erase_active :: "Entry \<Rightarrow> TimerQueue \<Rightarrow> TimerQueue res" where
  "erase_active e q =
     bindE (deref (snd e) q) (\<lambda>t.
       let (as, n) = set_erase (snd e, m_sequence t) (m_activeTimers q)
       in assertE (n = 1) (Inr (q\<lparr>m_activeTimers := as\<rparr>)))"

definition getExpired :: "TimeStamp \<Rightarrow> TimerQueue \<Rightarrow> (Entry list \<times> TimerQueue) res" where
  "getExpired n q =
     (let (expired, rest) = set_split (n, uintptr_max) (m_timers q)
      in assertE (case rest of [] \<Rightarrow> True | e # _ \<Rightarrow> n < fst e)
        (bindE (foldE erase_active expired (q\<lparr>m_timers := rest\<rparr>)) (\<lambda>q'.
         assertE (length (m_timers q') = length (m_activeTimers q')) (Inr (expired, q')))))"

definition run_action :: "clock \<Rightarrow> action \<Rightarrow> TimerQueue \<Rightarrow> TimerQueue res" where
  "run_action clk a q =
     (case a of
        ActAdd p cb when interval \<Rightarrow> bindE (addTimer clk p cb when interval q) (\<lambda>(_, q'). Inr q')
      | ActCancel tid \<Rightarrow> cancelInLoop tid q)"

definition run_timer :: "clock \<Rightarrow> Entry \<Rightarrow> TimerQueue \<Rightarrow> TimerQueue res" where
  "run_timer clk e q =
     bindE (deref (snd e) q) (\<lambda>t.
     bindE (foldE (run_action clk) (m_callBack t) (q\<lparr>fired := fired q @ [snd e]\<rparr>)) Inr)"

definition reset_one :: "TimeStamp \<Rightarrow> Entry \<Rightarrow> TimerQueue \<Rightarrow> TimerQueue res" where
  "reset_one n e q =
     bindE (deref (snd e) q) (\<lambda>t.
       if m_repeat t \<and> (snd e, m_sequence t) \<notin> set (m_cancelingTimers q)
       then bindE (tq_insert (snd e) (q\<lparr>timers := (timers q)(snd e \<mapsto> restart n t)\<rparr>)) (\<lambda>(_, q'). Inr q')
       else Inr (q\<lparr>timers := (timers q)(snd e := None)\<rparr>))"

definition tq_reset :: "clock \<Rightarrow> Entry list \<Rightarrow> TimeStamp \<Rightarrow> TimerQueue \<Rightarrow> TimerQueue res" where
  "tq_reset clk expired n q =
     bindE (foldE (reset_one n) expired q) (\<lambda>q'.
     bindE (case m_timers q' of [] \<Rightarrow> Inr invalid
            | e # _ \<Rightarrow> bindE (deref (snd e) q') (\<lambda>t. Inr (m_expiration t))) (\<lambda>nextExpire.
     Inr (if valid nextExpire then resetTimerfd clk nextExpire q' else q')))"

definition tq_handleRead :: "clock \<Rightarrow> TimerQueue \<Rightarrow> TimerQueue res" where
  "tq_handleRead clk q =
     (case now clk q of (n, q0) \<Rightarrow>
      bindE (getExpired n q0) (\<lambda>(expired, q1).
      bindE (foldE (run_timer clk) expired
               (q1\<lparr>m_callingExpiredTimers := True, m_cancelingTimers := []\<rparr>)) (\<lambda>q2.
      tq_reset clk expired n (q2\<lparr>m_callingExpiredTimers := False\<rparr>))))"

section \<open>Invariant\<close>

text \<open>
  Every queued pointer has a timer that expires when its entry says, and the two sets hold the
  same timers. \<open>queued\<close> are the addresses in the queue.
\<close>

definition queued :: "TimerQueue \<Rightarrow> addr set" where
  "queued q = snd ` set (m_timers q)"

definition active_of :: "TimerQueue \<Rightarrow> Entry \<Rightarrow> ActiveTimer" where
  "active_of q e = (snd e, m_sequence (the (timers q (snd e))))"

definition tq_inv :: "TimerQueue \<Rightarrow> bool" where
  "tq_inv q \<longleftrightarrow> sorted_wrt (<) (m_timers q) \<and> sorted_wrt (<) (m_activeTimers q) \<and>
     (\<forall>e \<in> set (m_timers q). snd e < uintptr_max \<and>
        (case timers q (snd e) of None \<Rightarrow> False | Some t \<Rightarrow> m_expiration t = fst e)) \<and>
     set (m_activeTimers q) = active_of q ` set (m_timers q)"

lemma tq_inv_fields [simp]:
  "tq_inv (q\<lparr>m_callingExpiredTimers := b\<rparr>) = tq_inv q"
  "tq_inv (q\<lparr>m_cancelingTimers := c\<rparr>) = tq_inv q"
  "tq_inv (q\<lparr>s_numCreated := n\<rparr>) = tq_inv q"
  "tq_inv (q\<lparr>timerfd := f\<rparr>) = tq_inv q"
  "tq_inv (q\<lparr>readings := r\<rparr>) = tq_inv q"
  "tq_inv (q\<lparr>fired := d\<rparr>) = tq_inv q"
  by (simp_all add: tq_inv_def active_of_def cong: image_cong)

lemma tq_invD:
  assumes "tq_inv q" and "(w, p) \<in> set (m_timers q)"
  obtains t where "timers q p = Some t" "m_expiration t = w" "p < uintptr_max"
    "(p, m_sequence t) \<in> set (m_activeTimers q)"
proof -
  from assms obtain t where t: "timers q p = Some t" "m_expiration t = w" "p < uintptr_max"
    by (force simp: tq_inv_def split: option.splits)
  moreover from assms t have "active_of q (w, p) \<in> set (m_activeTimers q)" by (simp add: tq_inv_def)
  ultimately show thesis using that by (simp add: active_of_def)
qed

lemma tq_inv_fun: "tq_inv q \<Longrightarrow> (w, p) \<in> set (m_timers q) \<Longrightarrow> (w', p) \<in> set (m_timers q) \<Longrightarrow> w = w'"
  by (metis option.inject tq_invD)

lemma tq_inv_inj_snd: "tq_inv q \<Longrightarrow> inj_on snd (set (m_timers q))"
  by (rule inj_onI) (auto dest: tq_inv_fun)

lemma tq_inv_inj: "tq_inv q \<Longrightarrow> inj_on (active_of q) (set (m_timers q))"
  by (rule inj_onI) (auto simp: active_of_def dest: tq_inv_fun)

lemma tq_inv_length: "tq_inv q \<Longrightarrow> length (m_timers q) = length (m_activeTimers q)"
  using tq_inv_inj [of q] sset.size_card [of "m_timers q"] sset.size_card [of "m_activeTimers q"]
  by (simp add: tq_inv_def card_image)

lemma active_queued: "tq_inv q \<Longrightarrow> (p, n) \<in> set (m_activeTimers q) \<Longrightarrow> p \<in> queued q"
  by (auto simp: tq_inv_def active_of_def queued_def)

text \<open>The heap may change where the queue does not point.\<close>

lemma tq_inv_heap:
  assumes "tq_inv q" and "p \<notin> queued q"
  shows "tq_inv (q\<lparr>timers := (timers q)(p := x)\<rparr>)"
proof -
  have "snd e \<noteq> p" if "e \<in> set (m_timers q)" for e using that assms(2) by (auto simp: queued_def)
  then show ?thesis using assms(1) by (auto simp: tq_inv_def active_of_def)
qed

lemma newTimerQueue_inv: "tq_inv newTimerQueue"
  by (simp add: tq_inv_def newTimerQueue_def)

section \<open>Insertion\<close>

definition earliest :: "TimerQueue \<Rightarrow> TimeStamp \<Rightarrow> bool" where
  "earliest q w \<longleftrightarrow> (\<forall>e \<in> set (m_timers q). w < fst e)"

lemma earliest_iff:
  assumes "sorted_wrt (<) (es :: Entry list)"
  shows "(case es of [] \<Rightarrow> True | e # _ \<Rightarrow> w < fst e) \<longleftrightarrow> (\<forall>e \<in> set es. w < fst e)"
  using assms by (cases es) (force simp: less_prod_def)+

text \<open>The part of the state that belongs to a running expiry.\<close>

definition ctl :: "TimerQueue \<Rightarrow> bool \<times> ActiveTimer list \<times> addr list" where
  "ctl q = (m_callingExpiredTimers q, m_cancelingTimers q, fired q)"

lemma ctl_simps [simp]:
  "ctl (q\<lparr>m_timers := ts\<rparr>) = ctl q" "ctl (q\<lparr>m_activeTimers := as\<rparr>) = ctl q"
  "ctl (q\<lparr>timers := h\<rparr>) = ctl q" "ctl (q\<lparr>s_numCreated := n\<rparr>) = ctl q"
  "ctl (q\<lparr>timerfd := f\<rparr>) = ctl q" "ctl (q\<lparr>readings := r\<rparr>) = ctl q"
  by (simp_all add: ctl_def)

lemma earliest_simps [simp]:
  "earliest (q\<lparr>timers := h\<rparr>) = earliest q" "earliest (q\<lparr>s_numCreated := n\<rparr>) = earliest q"
  by (simp_all add: earliest_def fun_eq_iff)

lemma tq_insert_ok:
  assumes "tq_inv q" and t: "timers q p = Some t" and p: "p \<notin> queued q" "p < uintptr_max"
  shows "runs (\<lambda>(ec, q'). tq_inv q' \<and> set (m_timers q') = insert (m_expiration t, p) (set (m_timers q)) \<and>
      (ec \<longleftrightarrow> earliest q (m_expiration t)) \<and>
      timers q' = timers q \<and> ctl q' = ctl q \<and> readings q' = readings q \<and> timerfd q' = timerfd q)
    (tq_insert p q)"
proof -
  obtain ts n1 where ts: "set_insert (m_expiration t, p) (m_timers q) = (ts, n1)" by fastforce
  obtain as n2 where as: "set_insert (p, m_sequence t) (m_activeTimers q) = (as, n2)" by fastforce
  have new: "(m_expiration t, p) \<notin> set (m_timers q)" "(p, m_sequence t) \<notin> set (m_activeTimers q)"
    using p(1) active_queued [OF assms(1)] by (force simp: queued_def)+
  have s: "sorted_wrt (<) (m_timers q)" "sorted_wrt (<) (m_activeTimers q)"
    using assms(1) by (simp_all add: tq_inv_def)
  note l1 = sset.ins_law [OF s(1) ts] and l2 = sset.ins_law [OF s(2) as]
  let ?q = "q\<lparr>m_timers := ts, m_activeTimers := as\<rparr>"
  have inv: "tq_inv ?q"
    using assms(1) l1 l2 t p(2) by (simp add: tq_inv_def active_of_def)
  show ?thesis
    using l1 l2 new t ts as inv tq_inv_length [OF assms(1)] tq_inv_length [OF inv] earliest_iff [OF s(1)]
    by (simp add: tq_insert_def deref_def earliest_def)
qed

lemma addTimerInLoop_ok:
  assumes "tq_inv q" and t: "timers q p = Some t" and p: "p \<notin> queued q" "p < uintptr_max"
  shows "runs (\<lambda>q'. tq_inv q' \<and> set (m_timers q') = insert (m_expiration t, p) (set (m_timers q)) \<and>
      timerfd q' = (if earliest q (m_expiration t)
        then Some (howMuchTimeFromNow (TimeStamp_now (clk (readings q))) (m_expiration t))
        else timerfd q) \<and> timers q' = timers q \<and> ctl q' = ctl q) (addTimerInLoop clk p q)"
  unfolding addTimerInLoop_def runs_bindE
  using t by (intro runs_mono [OF tq_insert_ok [OF assms]])
    (auto simp: deref_def resetTimerfd_def now_def)

lemma addTimer_ok:
  assumes "tq_inv q" and p: "timers q p = None" "p < uintptr_max"
  shows "runs (\<lambda>(tid, q'). tq_inv q' \<and> id_timer tid = p \<and>
      set (m_timers q') = insert (when, p) (set (m_timers q)) \<and>
      timerfd q' = (if earliest q when
        then Some (howMuchTimeFromNow (TimeStamp_now (clk (readings q))) when) else timerfd q) \<and>
      timers q' = (timers q)(p \<mapsto> fst (newTimer cb when iv (s_numCreated q))) \<and> ctl q' = ctl q)
    (addTimer clk p cb when iv q)"
proof -
  obtain t k where t: "newTimer cb when iv (s_numCreated q) = (t, k)" by fastforce
  then have w: "m_expiration t = when" by (auto simp: newTimer_def split: prod.splits)
  have nq: "p \<notin> queued q" using assms(1) p(1) by (force simp: queued_def elim: tq_invD)
  let ?q = "q\<lparr>timers := (timers q)(p \<mapsto> t), s_numCreated := k\<rparr>"
  have "tq_inv ?q" using tq_inv_heap [OF assms(1) nq, of "Some t"] by simp
  moreover have "p \<notin> queued ?q" using nq by (simp add: queued_def)
  ultimately show ?thesis
    unfolding addTimer_def t Let_def prod.case runs_bindE
    using w p(2) by (intro runs_mono [OF addTimerInLoop_ok]) (auto simp: t)
qed

section \<open>Expiry\<close>

lemma erase_active_ok:
  assumes "sorted_wrt (<) (m_activeTimers q)" and "timers q p = Some t"
    and "(p, m_sequence t) \<in> set (m_activeTimers q)"
  shows "runs (\<lambda>q'. sorted_wrt (<) (m_activeTimers q') \<and>
      set (m_activeTimers q') = set (m_activeTimers q) - {(p, m_sequence t)} \<and>
      m_timers q' = m_timers q \<and> timers q' = timers q \<and> ctl q' = ctl q) (erase_active (w, p) q)"
proof -
  obtain as n where as: "set_erase (p, m_sequence t) (m_activeTimers q) = (as, n)" by fastforce
  from sset.era_law [OF assms(1) as] assms(3) show ?thesis
    by (simp add: erase_active_def deref_def assms(2) as)
qed

lemma erase_all_ok:
  assumes "sorted_wrt (<) (m_activeTimers q)" and "inj_on snd (set ex)" and "distinct ex"
    and "\<forall>e \<in> set ex. timers q (snd e) \<noteq> None \<and> active_of q e \<in> set (m_activeTimers q)"
  shows "runs (\<lambda>q'. sorted_wrt (<) (m_activeTimers q') \<and>
      set (m_activeTimers q') = set (m_activeTimers q) - active_of q ` set ex \<and>
      m_timers q' = m_timers q \<and> timers q' = timers q \<and> ctl q' = ctl q) (foldE erase_active ex q)"
  using assms
proof (induction ex arbitrary: q)
  case (Cons e ex)
  obtain w p where e: "e = (w, p)" by (cases e)
  with Cons.prems obtain t where t: "timers q p = Some t" "(p, m_sequence t) \<in> set (m_activeTimers q)"
    by (auto simp: active_of_def)
  have ne: "snd e' \<noteq> p" if "e' \<in> set ex" for e'
    using that Cons.prems(2,3) e by (auto simp: inj_on_def)
  show ?case
    unfolding foldE.simps runs_bindE e
  proof (rule runs_mono [OF erase_active_ok [OF Cons.prems(1) t]])
    fix q' assume q': "sorted_wrt (<) (m_activeTimers q') \<and>
      set (m_activeTimers q') = set (m_activeTimers q) - {(p, m_sequence t)} \<and>
      m_timers q' = m_timers q \<and> timers q' = timers q \<and> ctl q' = ctl q"
    then have a: "active_of q' = active_of q" by (simp add: active_of_def fun_eq_iff)
    have "\<forall>e \<in> set ex. timers q' (snd e) \<noteq> None \<and> active_of q' e \<in> set (m_activeTimers q')"
      using Cons.prems(4) ne q' a by (auto simp: active_of_def)
    moreover have "active_of q (w, p) = (p, m_sequence t)" using t by (simp add: active_of_def)
    ultimately show "runs (\<lambda>q''. sorted_wrt (<) (m_activeTimers q'') \<and>
        set (m_activeTimers q'') = set (m_activeTimers q) - active_of q ` set ((w, p) # ex) \<and>
        m_timers q'' = m_timers q \<and> timers q'' = timers q \<and> ctl q'' = ctl q)
      (foldE erase_active ex q')"
      using Cons.prems(2,3) q' a by (intro runs_mono [OF Cons.IH]) auto
  qed
qed simp

lemma getExpired_ok:
  assumes "tq_inv q"
  shows "runs (\<lambda>(ex, q'). tq_inv q' \<and> m_timers q = ex @ m_timers q' \<and>
      (\<forall>e \<in> set ex. fst e \<le> n) \<and> (\<forall>e \<in> set (m_timers q'). n < fst e) \<and>
      timers q' = timers q \<and> ctl q' = ctl q) (getExpired n q)"
proof -
  obtain ex rest where sp: "set_split (n, uintptr_max) (m_timers q) = (ex, rest)" by fastforce
  have s: "sorted_wrt (<) (m_timers q)" using assms by (simp add: tq_inv_def)
  note law = sset.split_law [OF s sp, simplified]
  have ub: "snd e < uintptr_max" if "e \<in> set (m_timers q)" for e
    using that assms by (simp add: tq_inv_def)
  have low: "fst e \<le> n" if "e \<in> set ex" for e using that law by (force simp: less_prod_def)
  have high: "n < fst e" if "e \<in> set rest" for e
    using that law ub [of e] by (force simp: less_prod_def)
  have ex: "inj_on snd (set ex)" "distinct ex"
    using tq_inv_inj_snd [OF assms] sorted_wrt_distinct [OF s] law by (auto intro: inj_on_subset)
  let ?q = "q\<lparr>m_timers := rest\<rparr>"
  have a: "active_of ?q = active_of q" by (simp add: active_of_def fun_eq_iff)
  have act: "\<forall>e \<in> set ex. timers ?q (snd e) \<noteq> None \<and> active_of ?q e \<in> set (m_activeTimers ?q)"
  proof
    fix e assume "e \<in> set ex"
    then have "(fst e, snd e) \<in> set (m_timers q)" using law by simp
    from tq_invD [OF assms this] obtain t where "timers q (snd e) = Some t"
      "(snd e, m_sequence t) \<in> set (m_activeTimers q)" .
    then show "timers ?q (snd e) \<noteq> None \<and> active_of ?q e \<in> set (m_activeTimers ?q)"
      by (simp add: active_of_def)
  qed
  have dis: "active_of q ` set rest = active_of q ` set (m_timers q) - active_of q ` set ex"
    using tq_inv_inj [OF assms] sorted_wrt_distinct [OF s] law
    by (subst inj_on_image_set_diff [symmetric, of _ "set (m_timers q)"]) auto
  have assert: "case rest of [] \<Rightarrow> True | e # _ \<Rightarrow> n < fst e" using high by (cases rest) auto
  have "runs (\<lambda>q'. tq_inv q' \<and> m_timers q' = rest \<and> timers q' = timers q \<and> ctl q' = ctl q)
      (foldE erase_active ex ?q)"
    using assms law ub ex act dis
    by (intro runs_mono [OF erase_all_ok]) (auto simp: tq_inv_def active_of_def)
  then show ?thesis
    unfolding getExpired_def sp Let_def prod.case
    using assert law low high tq_inv_length by (auto simp: runs_simps intro: runs_mono)
qed

section \<open>Callbacks\<close>

text \<open>
  \<open>adds\<close> and \<open>cancels\<close> are the entries a list of actions asks to add and the timers it asks to
  cancel. \<open>good_actions\<close>: \<open>new\<close> returned addresses that are free, and no timer that is in the queue
  is cancelled (that would abort, see below).
\<close>

definition adds :: "action list \<Rightarrow> Entry list" where
  "adds as = concat (map (\<lambda>a. case a of ActAdd p cb w iv \<Rightarrow> [(w, p)] | ActCancel _ \<Rightarrow> []) as)"

definition cancels :: "action list \<Rightarrow> ActiveTimer list" where
  "cancels as = concat (map (\<lambda>a. case a of ActAdd p cb w iv \<Rightarrow> []
     | ActCancel tid \<Rightarrow> [(id_timer tid, id_sequence tid)]) as)"

definition good_actions :: "TimerQueue \<Rightarrow> action list \<Rightarrow> bool" where
  "good_actions q as \<longleftrightarrow> distinct (map snd (adds as)) \<and>
     (\<forall>e \<in> set (adds as). timers q (snd e) = None \<and> snd e < uintptr_max) \<and>
     (\<forall>c \<in> set (cancels as). fst c \<notin> queued q \<and> fst c \<notin> snd ` set (adds as))"

definition ran :: "TimerQueue \<Rightarrow> action list \<Rightarrow> TimerQueue \<Rightarrow> bool" where
  "ran q as q' \<longleftrightarrow> tq_inv q' \<and> set (m_timers q') = set (m_timers q) \<union> set (adds as) \<and>
     (\<forall>p. p \<notin> snd ` set (adds as) \<longrightarrow> timers q' p = timers q p) \<and>
     m_callingExpiredTimers q' = m_callingExpiredTimers q \<and>
     set (m_cancelingTimers q') = set (m_cancelingTimers q) \<union> set (cancels as)"

lemma action_lists [simp]:
  "adds [] = []" "cancels [] = []"
  "adds (ActAdd p cb w iv # as) = (w, p) # adds as" "cancels (ActAdd p cb w iv # as) = cancels as"
  "adds (ActCancel tid # as) = adds as"
  "cancels (ActCancel tid # as) = (id_timer tid, id_sequence tid) # cancels as"
  "adds (as @ bs) = adds as @ adds bs" "cancels (as @ bs) = cancels as @ cancels bs"
  by (simp_all add: adds_def cancels_def)

lemma ran_append: "ran q as q' \<Longrightarrow> ran q' bs q'' \<Longrightarrow> ran q (as @ bs) q''"
  by (auto simp: ran_def image_Un)

text \<open>Callbacks do not touch the timers that were there.\<close>

lemma ran_keeps:
  assumes "good_actions q as" and "ran q as q'" and "timers q p \<noteq> None"
  shows "timers q' p = timers q p"
proof -
  have "p \<notin> snd ` set (adds as)"
  proof
    assume "p \<in> snd ` set (adds as)"
    then obtain a where "a \<in> set (adds as)" "snd a = p" by force
    then show False using assms(1,3) by (auto simp: good_actions_def)
  qed
  then show ?thesis using assms(2) by (simp add: ran_def)
qed

lemma good_actions_append:
  assumes "good_actions q (as @ bs)" and "ran q as q'"
  shows "good_actions q' bs"
proof -
  have "timers q' (snd e) = None" if "e \<in> set (adds bs)" for e
  proof -
    have "snd e \<notin> snd ` set (adds as)" and "timers q (snd e) = None"
      using that assms(1) by (auto simp: good_actions_def)
    then show ?thesis using assms(2) by (simp add: ran_def)
  qed
  moreover have "queued q' = queued q \<union> snd ` set (adds as)"
    using assms(2) by (auto simp: ran_def queued_def)
  ultimately show ?thesis using assms(1) by (auto simp: good_actions_def)
qed

lemma run_action_ok:
  assumes "tq_inv q" and "m_callingExpiredTimers q" and "good_actions q [a]"
  shows "runs (\<lambda>q'. ran q [a] q' \<and> fired q' = fired q) (run_action clk a q)"
proof (cases a)
  case (ActAdd p cb w iv)
  with assms have "timers q p = None" "p < uintptr_max" by (auto simp: good_actions_def)
  then show ?thesis
    using ActAdd unfolding run_action_def
    by (auto simp: runs_simps ran_def ctl_def intro!: runs_mono [OF addTimer_ok [OF assms(1)]])
next
  case (ActCancel tid)
  with assms have "(id_timer tid, id_sequence tid) \<notin> set (m_activeTimers q)"
    using active_queued [OF assms(1)] by (auto simp: good_actions_def)
  then show ?thesis
    using assms(1,2) ActCancel tq_inv_length [OF assms(1)]
    by (auto simp: run_action_def cancelInLoop_def ran_def fst_set_insert)
qed

lemma run_actions_ok:
  assumes "tq_inv q" and "m_callingExpiredTimers q" and "good_actions q as"
  shows "runs (\<lambda>q'. ran q as q' \<and> fired q' = fired q) (foldE (run_action clk) as q)"
  using assms
proof (induction as arbitrary: q)
  case Nil
  then show ?case by (simp add: ran_def)
next
  case (Cons a as)
  have 1: "good_actions q [a]" using Cons.prems(3) by (cases a) (auto simp: good_actions_def)
  show ?case
    unfolding foldE.simps runs_bindE
  proof (rule runs_mono [OF run_action_ok [OF Cons.prems(1,2) 1]])
    fix q' assume q': "ran q [a] q' \<and> fired q' = fired q"
    then have "tq_inv q'" "m_callingExpiredTimers q'" using Cons.prems(2) by (auto simp: ran_def)
    moreover have "good_actions q' as" using good_actions_append [of q "[a]" as q'] Cons.prems(3) q' by simp
    ultimately show "runs (\<lambda>q''. ran q (a # as) q'' \<and> fired q'' = fired q) (foldE (run_action clk) as q')"
      using q' ran_append [of q "[a]" q' as] by (intro runs_mono [OF Cons.IH]) auto
  qed
qed

definition callbacks :: "TimerQueue \<Rightarrow> Entry list \<Rightarrow> action list" where
  "callbacks q ex = concat (map (\<lambda>e. m_callBack (the (timers q (snd e)))) ex)"

lemma ran_fired [simp]: "ran (q\<lparr>fired := f\<rparr>) as q' = ran q as q'"
  by (simp add: ran_def)

lemma run_timers_ok:
  assumes "tq_inv q" and "m_callingExpiredTimers q" and "\<forall>e \<in> set ex. timers q (snd e) \<noteq> None"
    and "good_actions q (callbacks q ex)"
  shows "runs (\<lambda>q'. ran q (callbacks q ex) q' \<and> fired q' = fired q @ map snd ex)
    (foldE (run_timer clk) ex q)"
  using assms
proof (induction ex arbitrary: q)
  case Nil
  then show ?case by (simp add: ran_def callbacks_def)
next
  case (Cons e ex)
  then obtain t where t: "timers q (snd e) = Some t" by auto
  let ?q = "q\<lparr>fired := fired q @ [snd e]\<rparr>"
  have cb: "callbacks q (e # ex) = m_callBack t @ callbacks q ex" using t by (simp add: callbacks_def)
  then have g: "good_actions ?q (m_callBack t)"
    using Cons.prems(4) by (auto simp: good_actions_def queued_def)
  have 1: "runs (\<lambda>q'. ran q (m_callBack t) q' \<and> fired q' = fired q @ [snd e]) (run_timer clk e q)"
    using runs_mono [OF run_actions_ok [OF _ _ g, of clk]] Cons.prems(1,2) t
    by (simp add: run_timer_def deref_def runs_bindE)
  show ?case
    unfolding foldE.simps runs_bindE
  proof (rule runs_mono [OF 1])
    fix q' assume q': "ran q (m_callBack t) q' \<and> fired q' = fired q @ [snd e]"
    have same: "timers q' (snd e') = timers q (snd e')" if "e' \<in> set ex" for e'
      using that ran_keeps [of q "m_callBack t" q'] g q' Cons.prems(3) by (simp add: good_actions_def queued_def)
    then have cb': "callbacks q' ex = callbacks q ex" by (simp add: callbacks_def cong: map_cong)
    have "tq_inv q'" "m_callingExpiredTimers q'" using q' Cons.prems(2) by (auto simp: ran_def)
    moreover have "good_actions q' (callbacks q' ex)"
      using good_actions_append [of q "m_callBack t"] Cons.prems(4) q' cb cb' by simp
    moreover have "\<forall>e \<in> set ex. timers q' (snd e) \<noteq> None" using same Cons.prems(3) by auto
    ultimately show "runs (\<lambda>q''. ran q (callbacks q (e # ex)) q'' \<and> fired q'' = fired q @ map snd (e # ex))
        (foldE (run_timer clk) ex q')"
      using q' cb cb' ran_append [of q "m_callBack t" q' "callbacks q ex"]
      by (intro runs_mono [OF Cons.IH]) auto
  qed
qed

section \<open>Restarting\<close>

definition rearmed :: "TimerQueue \<Rightarrow> TimeStamp \<Rightarrow> addr \<Rightarrow> Entry list" where
  "rearmed q n p = (case timers q p of None \<Rightarrow> []
     | Some t \<Rightarrow> if m_repeat t \<and> (p, m_sequence t) \<notin> set (m_cancelingTimers q)
                 then [(addTime n (m_interval t), p)] else [])"

lemma in_rearmed: "x \<in> set (rearmed q n p) \<longleftrightarrow> (\<exists>t. timers q p = Some t \<and> m_repeat t \<and>
    (p, m_sequence t) \<notin> set (m_cancelingTimers q) \<and> x = (addTime n (m_interval t), p))"
  by (cases "timers q p") (auto simp: rearmed_def)

lemma rearmed_snd: "rearmed q n p = [] \<or> p \<in> snd ` set (rearmed q n p)"
  by (cases "timers q p") (simp_all add: rearmed_def)

lemma reset_one_ok:
  assumes "tq_inv q" and "timers q p = Some t" and "p \<notin> queued q" and "p < uintptr_max"
  shows "runs (\<lambda>q'. tq_inv q' \<and> set (m_timers q') = set (m_timers q) \<union> set (rearmed q n p) \<and>
      timers q' = (timers q)(p := if rearmed q n p = [] then None else Some (restart n t)) \<and>
      ctl q' = ctl q) (reset_one n (w, p) q)"
proof (cases "m_repeat t \<and> (p, m_sequence t) \<notin> set (m_cancelingTimers q)")
  case True
  let ?q = "q\<lparr>timers := (timers q)(p \<mapsto> restart n t)\<rparr>"
  have "tq_inv ?q" "p \<notin> queued ?q"
    using tq_inv_heap [OF assms(1,3)] assms(3) by (simp_all add: queued_def)
  from tq_insert_ok [OF this(1) _ this(2) assms(4), of "restart n t"] show ?thesis
    using True assms(2)
    by (auto simp: reset_one_def deref_def runs_simps rearmed_def restart_def intro: runs_mono)
next
  case False
  then show ?thesis
    using tq_inv_heap [OF assms(1,3)] assms(2) by (auto simp: reset_one_def deref_def rearmed_def)
qed

lemma reset_all_ok:
  assumes "tq_inv q" and "distinct (map snd ex)"
    and "\<forall>e \<in> set ex. timers q (snd e) \<noteq> None \<and> snd e \<notin> queued q \<and> snd e < uintptr_max"
  shows "runs (\<lambda>q'. tq_inv q' \<and>
      set (m_timers q') = set (m_timers q) \<union> (\<Union>e \<in> set ex. set (rearmed q n (snd e))) \<and>
      (\<forall>e \<in> set ex. rearmed q n (snd e) = [] \<longrightarrow> timers q' (snd e) = None) \<and>
      (\<forall>p. p \<notin> snd ` set ex \<longrightarrow> timers q' p = timers q p) \<and> ctl q' = ctl q)
    (foldE (reset_one n) ex q)"
  using assms
proof (induction ex arbitrary: q)
  case (Cons e ex)
  obtain w p where e: "e = (w, p)" by (cases e)
  from Cons.prems(3) e obtain t where t: "timers q p = Some t" "p \<notin> queued q" "p < uintptr_max" by auto
  show ?case
    unfolding foldE.simps runs_bindE e
  proof (rule runs_mono [OF reset_one_ok [OF Cons.prems(1) t]])
    fix q' assume q': "tq_inv q' \<and> set (m_timers q') = set (m_timers q) \<union> set (rearmed q n p) \<and>
      timers q' = (timers q)(p := if rearmed q n p = [] then None else Some (restart n t)) \<and> ctl q' = ctl q"
    have ne: "snd e' \<noteq> p" if "e' \<in> set ex" for e' using that Cons.prems(2) e by auto
    have r: "rearmed q' n (snd e') = rearmed q n (snd e')" if "e' \<in> set ex" for e'
      using q' ne [OF that] by (auto simp: rearmed_def ctl_def split: option.splits)
    have "\<forall>e \<in> set ex. timers q' (snd e) \<noteq> None \<and> snd e \<notin> queued q' \<and> snd e < uintptr_max"
      using Cons.prems(3) q' ne by (auto simp: queued_def rearmed_def split: option.splits if_splits)
    moreover have "p \<notin> snd ` set ex" using ne by force
    ultimately show "runs (\<lambda>q''. tq_inv q'' \<and>
        set (m_timers q'') = set (m_timers q) \<union> (\<Union>e \<in> set ((w, p) # ex). set (rearmed q n (snd e))) \<and>
        (\<forall>e \<in> set ((w, p) # ex). rearmed q n (snd e) = [] \<longrightarrow> timers q'' (snd e) = None) \<and>
        (\<forall>p'. p' \<notin> snd ` set ((w, p) # ex) \<longrightarrow> timers q'' p' = timers q p') \<and> ctl q'' = ctl q)
      (foldE (reset_one n) ex q')"
      using Cons.prems(2) q' r e by (intro runs_mono [OF Cons.IH]) auto
  qed
qed simp

section \<open>Properties\<close>

text \<open>What \<open>handleRead\<close> does, from the state and the time it reads.\<close>

definition expired_at :: "TimeStamp \<Rightarrow> TimerQueue \<Rightarrow> Entry list" where
  "expired_at n q = filter (\<lambda>e. fst e \<le> n) (m_timers q)"

definition restarted :: "TimeStamp \<Rightarrow> action list \<Rightarrow> TimerQueue \<Rightarrow> Entry set" where
  "restarted n as q = {(addTime n (m_interval t), p) | t p. p \<in> snd ` set (expired_at n q) \<and>
     timers q p = Some t \<and> m_repeat t \<and> (p, m_sequence t) \<notin> set (cancels as)}"

lemma filter_split:
  assumes "\<forall>e \<in> set a. P e" and "\<forall>e \<in> set b. \<not> P e"
  shows "filter P (a @ b) = a"
  using assms by (induction a) (simp_all add: filter_empty_conv)

lemma filter_split_rest:
  assumes "\<forall>e \<in> set a. \<not> P e" and "\<forall>e \<in> set b. P e"
  shows "filter P (a @ b) = b"
  using assms by (induction a) (simp_all add: filter_id_conv)

lemma getExpired_expired:
  assumes "tq_inv q"
  shows "runs (\<lambda>(ex, q'). ex = expired_at n q \<and> tq_inv q' \<and> m_timers q = ex @ m_timers q' \<and>
      (\<forall>e \<in> set (m_timers q'). n < fst e) \<and> timers q' = timers q \<and> ctl q' = ctl q) (getExpired n q)"
proof (rule runs_mono [OF getExpired_ok [OF assms, of n]])
  fix r assume r: "case r of (ex, q') \<Rightarrow> tq_inv q' \<and> m_timers q = ex @ m_timers q' \<and>
    (\<forall>e \<in> set ex. fst e \<le> n) \<and> (\<forall>e \<in> set (m_timers q'). n < fst e) \<and> timers q' = timers q \<and> ctl q' = ctl q"
  obtain ex q' where "r = (ex, q')" by (cases r)
  with r show "case r of (ex, q') \<Rightarrow> ex = expired_at n q \<and> tq_inv q' \<and> m_timers q = ex @ m_timers q' \<and>
    (\<forall>e \<in> set (m_timers q'). n < fst e) \<and> timers q' = timers q \<and> ctl q' = ctl q"
    using filter_split [of ex "\<lambda>e. fst e \<le> n" "m_timers q'"] by (simp add: expired_at_def not_le)
qed

lemma deref_head:
  assumes "tq_inv q" and "m_timers q = e # es"
  shows "runs (\<lambda>_. True) (deref (snd e) q)"
proof -
  have "(fst e, snd e) \<in> set (m_timers q)" using assms(2) by simp
  from tq_invD [OF assms(1) this] obtain t where "timers q (snd e) = Some t" .
  then show ?thesis by (simp add: deref_def)
qed

lemma expired_facts:
  assumes "tq_inv q" and "m_timers q = ex @ rest"
  shows "distinct (map snd ex)" and "\<forall>e \<in> set ex. timers q (snd e) \<noteq> None \<and> snd e < uintptr_max"
    and "\<forall>e \<in> set ex. snd e \<notin> snd ` set rest"
proof -
  have "distinct (m_timers q)" using assms(1) sorted_wrt_distinct by (auto simp: tq_inv_def)
  then have "distinct (map snd (m_timers q))" using tq_inv_inj_snd [OF assms(1)] by (simp add: distinct_map)
  then show "distinct (map snd ex)" and "\<forall>e \<in> set ex. snd e \<notin> snd ` set rest"
    using assms(2) by auto
  show "\<forall>e \<in> set ex. timers q (snd e) \<noteq> None \<and> snd e < uintptr_max"
    using assms by (auto simp: tq_inv_def split: option.splits)
qed

lemma expired_kept:
  assumes "good_actions q as" and "ran q as q'" and "timers q p \<noteq> None" and "p \<notin> queued q"
  shows "timers q' p = timers q p" and "p \<notin> queued q'"
proof -
  show "timers q' p = timers q p" by (rule ran_keeps [OF assms(1-3)])
  have "p \<notin> snd ` set (adds as)" using assms(1,3) by (auto simp: good_actions_def)
  moreover have "queued q' = queued q \<union> snd ` set (adds as)"
    using assms(2) by (auto simp: ran_def queued_def)
  ultimately show "p \<notin> queued q'" using assms(4) by simp
qed

lemma tq_reset_ok:
  assumes "tq_inv q" and "distinct (map snd ex)"
    and "\<forall>e \<in> set ex. timers q (snd e) \<noteq> None \<and> snd e \<notin> queued q \<and> snd e < uintptr_max"
  shows "runs (\<lambda>q'. tq_inv q' \<and>
      set (m_timers q') = set (m_timers q) \<union> (\<Union>e \<in> set ex. set (rearmed q n (snd e))) \<and>
      (\<forall>e \<in> set ex. snd e \<notin> queued q' \<longrightarrow> timers q' (snd e) = None) \<and> ctl q' = ctl q)
    (tq_reset clk ex n q)"
  unfolding tq_reset_def runs_bindE
proof (rule runs_mono [OF reset_all_ok [OF assms, of n]])
  fix q' assume q': "tq_inv q' \<and>
      set (m_timers q') = set (m_timers q) \<union> (\<Union>e \<in> set ex. set (rearmed q n (snd e))) \<and>
      (\<forall>e \<in> set ex. rearmed q n (snd e) = [] \<longrightarrow> timers q' (snd e) = None) \<and>
      (\<forall>p. p \<notin> snd ` set ex \<longrightarrow> timers q' p = timers q p) \<and> ctl q' = ctl q"
  have "\<forall>e \<in> set ex. snd e \<notin> queued q' \<longrightarrow> timers q' (snd e) = None"
  proof (intro ballI impI)
    fix e assume e: "e \<in> set ex" "snd e \<notin> queued q'"
    then have "snd e \<notin> snd ` set (rearmed q n (snd e))" using q' by (auto simp: queued_def)
    then have "rearmed q n (snd e) = []" using rearmed_snd by blast
    then show "timers q' (snd e) = None" using e(1) q' by blast
  qed
  moreover have "runs (\<lambda>_. True) (case m_timers q' of [] \<Rightarrow> Inr invalid
      | e # _ \<Rightarrow> bindE (deref (snd e) q') (\<lambda>t. Inr (m_expiration t)))"
    using q' deref_head [of q'] by (cases "m_timers q'") (auto simp: runs_simps)
  ultimately show "runs (\<lambda>x. runs (\<lambda>q''. tq_inv q'' \<and>
      set (m_timers q'') = set (m_timers q) \<union> (\<Union>e \<in> set ex. set (rearmed q n (snd e))) \<and>
      (\<forall>e \<in> set ex. snd e \<notin> queued q'' \<longrightarrow> timers q'' (snd e) = None) \<and> ctl q'' = ctl q)
      (Inr (if valid x then resetTimerfd clk x q' else q')))
    (case m_timers q' of [] \<Rightarrow> Inr invalid
      | e # _ \<Rightarrow> bindE (deref (snd e) q') (\<lambda>t. Inr (m_expiration t)))"
    by (elim runs_mono) (use q' in \<open>simp add: resetTimerfd_def now_def queued_def\<close>)
qed

text \<open>
  C5: expiry. When the descriptor fires, exactly the timers whose expiration is not after the time
  read are run, once each and in the order of expiration; no assertion fails. Afterwards the queue
  holds the timers that were not due, the ones the callbacks added and the periodic ones that ran
  and were not cancelled meanwhile, restarted at the time read plus their interval; every other
  timer that ran is deleted.
\<close>

theorem handleRead_expires:
  assumes "tq_inv q" and "n = TimeStamp_now (clk (readings q))"
    and "as = callbacks q (expired_at n q)"
    and "good_actions (q\<lparr>m_timers := filter (\<lambda>e. n < fst e) (m_timers q)\<rparr>) as"
  shows "runs (\<lambda>q'. tq_inv q' \<and> fired q' = fired q @ map snd (expired_at n q) \<and>
      set (m_timers q') = {e \<in> set (m_timers q). n < fst e} \<union> set (adds as) \<union> restarted n as q \<and>
      (\<forall>p \<in> snd ` set (expired_at n q). p \<notin> queued q' \<longrightarrow> timers q' p = None)) (tq_handleRead clk q)"
proof -
  let ?q0 = "q\<lparr>readings := Suc (readings q)\<rparr>" and ?ex = "expired_at n q"
  have ex0: "expired_at n ?q0 = ?ex" by (simp add: expired_at_def)
  have "runs (\<lambda>(ex, q1). ex = ?ex \<and> tq_inv q1 \<and> m_timers q = ex @ m_timers q1 \<and>
      (\<forall>e \<in> set (m_timers q1). n < fst e) \<and> timers q1 = timers q \<and> ctl q1 = ctl q) (getExpired n ?q0)"
    using runs_mono [OF getExpired_expired [of ?q0 n]] assms(1) by (simp add: ex0)
  then obtain q1 where g: "getExpired n ?q0 = Inr (?ex, q1)" and q1: "tq_inv q1"
      "m_timers q = ?ex @ m_timers q1" "\<forall>e \<in> set (m_timers q1). n < fst e"
      "timers q1 = timers q" "ctl q1 = ctl q"
    by (auto simp: runs_iff)
  let ?q1 = "q1\<lparr>m_callingExpiredTimers := True, m_cancelingTimers := []\<rparr>"
  have ex: "distinct (map snd ?ex)" "\<forall>e \<in> set ?ex. timers q (snd e) \<noteq> None \<and> snd e < uintptr_max"
    and nq: "\<forall>e \<in> set ?ex. snd e \<notin> queued q1"
    using expired_facts [OF assms(1) q1(2)] by (simp_all add: queued_def)
  have rest: "filter (\<lambda>e. n < fst e) (m_timers q) = m_timers q1"
    using q1(3) by (subst q1(2), intro filter_split_rest) (auto simp: expired_at_def)
  have cb: "callbacks ?q1 ?ex = as" using assms(3) q1(4) by (simp add: callbacks_def)
  have ga: "good_actions ?q1 as" using assms(4) rest q1(4) by (simp add: good_actions_def queued_def)
  obtain q2 where r: "foldE (run_timer clk) ?ex ?q1 = Inr q2" and q2: "ran ?q1 as q2"
      "fired q2 = fired q @ map snd ?ex"
    using run_timers_ok [of ?q1 ?ex clk] q1 ex ga cb by (auto simp: runs_iff ctl_def)
  let ?q2 = "q2\<lparr>m_callingExpiredTimers := False\<rparr>"
  have keep: "timers q2 (snd e) = timers q (snd e)" "snd e \<notin> queued q2" if "e \<in> set ?ex" for e
    using expired_kept [OF ga q2(1), of "snd e"] that ex(2) nq q1(4) by (simp_all add: queued_def)
  have "set (m_cancelingTimers q2) = set (cancels as)" using q2(1) by (simp add: ran_def)
  then have re: "(\<Union>e \<in> set ?ex. set (rearmed ?q2 n (snd e))) = restarted n as q"
    using keep by (force simp: in_rearmed restarted_def)
  have "tq_inv ?q2" "\<forall>e \<in> set ?ex. timers ?q2 (snd e) \<noteq> None \<and> snd e \<notin> queued ?q2 \<and> snd e < uintptr_max"
    using q2(1) keep ex(2) by (auto simp: ran_def queued_def)
  note reset = tq_reset_ok [OF this(1) ex(1) this(2), of n clk]
  have "tq_handleRead clk q = tq_reset clk ?ex n ?q2"
    using g r assms(2) by (simp add: tq_handleRead_def now_def)
  moreover have "set (m_timers q1) = {e \<in> set (m_timers q). n < fst e}" using rest by (metis set_filter)
  ultimately show ?thesis
    using q2 by (auto simp: ran_def ctl_def re intro!: runs_mono [OF reset])
qed

definition tick_timer :: Timer where
  "tick_timer = \<lparr>m_callBack = [ActAdd 32 [] (TimeStamp 9000000) (Dbl 0 0)],
     m_expiration = TimeStamp 1000000, m_interval = Dbl 2 0, m_repeat = True, m_sequence = 1\<rparr>"

definition once_timer :: Timer where
  "once_timer = \<lparr>m_callBack = [], m_expiration = TimeStamp 2000000, m_interval = Dbl 0 0,
     m_repeat = False, m_sequence = 2\<rparr>"

definition sample_queue :: TimerQueue where
  "sample_queue = newTimerQueue\<lparr>m_timers := [(TimeStamp 1000000, 16), (TimeStamp 2000000, 24)],
     m_activeTimers := [(16, 1), (24, 2)], timers := [16 \<mapsto> tick_timer, 24 \<mapsto> once_timer],
     s_numCreated := 2\<rparr>"

lemma sample_queue_inv: "tq_inv sample_queue"
  by (auto simp: tq_inv_def sample_queue_def newTimerQueue_def active_of_def tick_timer_def
      once_timer_def uintptr_max_def less_prod_def)

theorem handleRead_expires_witness:
  "runs (\<lambda>q'. fired q' = [16, 24] \<and>
      set (m_timers q') = {(TimeStamp 9000000, 32), (TimeStamp 5000000, 16)} \<and> timers q' 24 = None)
    (tq_handleRead (\<lambda>_. (3, 0)) sample_queue)"
proof -
  have n: "TimeStamp_now (3, 0) = TimeStamp 3000000"
    by (simp add: TimeStamp_now_def kMicroSecondsPerSecond_def wrap_int64_exact)
  have a: "addTime (TimeStamp 3000000) (Dbl 2 0) = TimeStamp 5000000"
    using addTime_seconds [of 2 3000000] by (simp add: dbl_of_int_def round53_exact)
  have ex: "expired_at (TimeStamp 3000000) sample_queue = [(TimeStamp 1000000, 16), (TimeStamp 2000000, 24)]"
    by (simp add: expired_at_def sample_queue_def)
  have cb: "callbacks sample_queue [(TimeStamp 1000000, 16), (TimeStamp 2000000, 24)] =
      [ActAdd 32 [] (TimeStamp 9000000) (Dbl 0 0)]"
    by (simp add: callbacks_def sample_queue_def tick_timer_def once_timer_def)
  have re: "restarted (TimeStamp 3000000) [ActAdd 32 [] (TimeStamp 9000000) (Dbl 0 0)] sample_queue =
      {(TimeStamp 5000000, 16)}"
    using a by (auto simp: restarted_def ex) (auto simp: sample_queue_def tick_timer_def once_timer_def)
  have ga: "good_actions (sample_queue\<lparr>m_timers := filter (\<lambda>e. TimeStamp 3000000 < fst e)
      (m_timers sample_queue)\<rparr>) [ActAdd 32 [] (TimeStamp 9000000) (Dbl 0 0)]"
    by (simp add: good_actions_def sample_queue_def uintptr_max_def)
  have rest: "{e \<in> set (m_timers sample_queue). TimeStamp 3000000 < fst e} = {}"
    by (auto simp: sample_queue_def)
  have f: "fired sample_queue = []" by (simp add: sample_queue_def newTimerQueue_def)
  show ?thesis
    using handleRead_expires [OF sample_queue_inv refl refl, of "\<lambda>_. (3, 0)"] ga
    unfolding n ex cb re rest f by (auto simp: queued_def intro: runs_mono)
qed

text \<open>
  Adding a timer. A timer at a free address is numbered, entered into both sets and, exactly
  when it is due before every other timer, the descriptor is armed for it; the other timers stay.
\<close>

theorem addTimer_queues:
  assumes "tq_inv q" and "timers q p = None" and "p < uintptr_max"
  shows "runs (\<lambda>(tid, q'). tq_inv q' \<and> id_timer tid = p \<and>
      set (m_timers q') = insert (when, p) (set (m_timers q)) \<and>
      timerfd q' = (if \<forall>e \<in> set (m_timers q). when < fst e
        then Some (howMuchTimeFromNow (TimeStamp_now (clk (readings q))) when) else timerfd q))
    (addTimer clk p cb when iv q)"
  by (rule runs_mono [OF addTimer_ok [OF assms]]) (simp add: earliest_def split: prod.splits)

theorem addTimer_queues_witness:
  "runs (\<lambda>(tid, q'). tq_inv q' \<and> set (m_timers q') = {(TimeStamp 1500000, 8)} \<and> timerfd q' = Some (0, 500000000))
    (addTimer (\<lambda>_. (1, 0)) 8 [] (TimeStamp 1500000) (Dbl 0 0) newTimerQueue)"
proof -
  have h: "howMuchTimeFromNow (TimeStamp_now (1, 0)) (TimeStamp 1500000) = (0, 500000000)"
    by (simp add: howMuchTimeFromNow_def TimeStamp_now_def kMicroSecondsPerSecond_def wrap_int64_exact
        Let_def cdiv_nonneg crem_nonneg)
  show ?thesis
    using addTimer_queues [OF newTimerQueue_inv, of 8 "TimeStamp 1500000" "\<lambda>_. (1, 0)" "[]" "Dbl 0 0"] h
    by (auto simp: newTimerQueue_def uintptr_max_def intro: runs_mono)
qed

text \<open>
  C24: cancelling a timer that is in the queue ends the process. \<open>cancelInLoop\<close> removes the entry
  from \<open>m_timers\<close> but not from \<open>m_activeTimers\<close>, so its last assertion, that both have the same
  size, always fails.
\<close>

theorem cancel_active_aborts:
  assumes "tq_inv q" and "(id_timer tid, id_sequence tid) \<in> set (m_activeTimers q)"
  shows "cancelInLoop tid q = Inl AssertFail"
proof -
  from assms obtain e where e: "e \<in> set (m_timers q)" "active_of q e = (id_timer tid, id_sequence tid)"
    by (auto simp: tq_inv_def)
  then have p: "(fst e, id_timer tid) \<in> set (m_timers q)" by (metis active_of_def fst_conv prod.collapse)
  from tq_invD [OF assms(1) this] obtain t where
    t: "timers q (id_timer tid) = Some t" "m_expiration t = fst e" .
  obtain ts n where er: "set_erase (fst e, id_timer tid) (m_timers q) = (ts, n)" by fastforce
  have "sorted_wrt (<) (m_timers q)" using assms(1) by (simp add: tq_inv_def)
  from sset.era_one [OF this, simplified, OF p er] tq_inv_length [OF assms(1)]
  have "n = 1" "length ts \<noteq> length (m_activeTimers q)" by simp_all
  then show ?thesis
    using assms(2) t er tq_inv_length [OF assms(1)] by (simp add: cancelInLoop_def deref_def)
qed

theorem cancel_active_aborts_witness:
  "cancelInLoop \<lparr>id_timer = 16, id_sequence = 1\<rparr> sample_queue = Inl AssertFail"
  by (rule cancel_active_aborts [OF sample_queue_inv]) (simp add: sample_queue_def)

text \<open>
  C39: the value given to \<open>timerfd_settime\<close> is always well formed and never zero, which would disarm
  the descriptor: the seconds are not negative, the nanoseconds are below \<open>10 ^ 9\<close>, and together
  they are the time until the expiration, or 100 microseconds where less than that is left.
\<close>

theorem howMuchTimeFromNow_bounds:
  assumes "\<bar>microSecondsSinceEpoch when\<bar> < 2 ^ 62" and "\<bar>microSecondsSinceEpoch n\<bar> < 2 ^ 62"
  shows "(case howMuchTimeFromNow n when of (sec, nsec) \<Rightarrow>
    0 \<le> sec \<and> 0 \<le> nsec \<and> nsec < 10 ^ 9 \<and>
    sec * 10 ^ 9 + nsec = 1000 * max 100 (microSecondsSinceEpoch when - microSecondsSinceEpoch n))"
proof -
  let ?d = "microSecondsSinceEpoch when - microSecondsSinceEpoch n"
  have w: "wrap_int64 ?d = ?d" using assms by (intro wrap_int64_exact) auto
  define us where "us = (if ?d < 100 then 100 else ?d)"
  then have us: "0 \<le> us" "us = max 100 ?d" by auto
  have m: "us mod 1000000 < 1000000" "0 \<le> us mod 1000000" by simp_all
  have "howMuchTimeFromNow n when = (us div 1000000, us mod 1000000 * 1000)"
    using us(1) by (simp add: howMuchTimeFromNow_def w Let_def us_def [symmetric]
        kMicroSecondsPerSecond_def cdiv_nonneg crem_nonneg)
  moreover have "us div 1000000 * 1000000000 + us mod 1000000 * 1000 = 1000 * us"
    using div_mult_mod_eq [of us 1000000] by linarith
  ultimately show ?thesis
    using us m by (auto simp: pos_imp_zdiv_nonneg_iff)
qed

theorem howMuchTimeFromNow_bounds_witness:
  "case howMuchTimeFromNow (TimeStamp 5000000) (TimeStamp 4000000) of (sec, nsec) \<Rightarrow>
    0 \<le> sec \<and> 0 \<le> nsec \<and> nsec < 10 ^ 9 \<and> sec * 10 ^ 9 + nsec = 100000"
  using howMuchTimeFromNow_bounds [of "TimeStamp 4000000" "TimeStamp 5000000"] by simp

end
