(* ===== verification/LoopTimers.thy ===== *)
theory LoopTimers
  imports EventLoop TimerQueue
begin

text \<open>
  The loop together with its timers: \<open>runAt\<close>, \<open>runAfter\<close> and \<open>runEvery\<close> of \<open>net/EventLoop.cpp\<close> and the parts of
  \<open>net/TimerQueue.cpp\<close> that other threads call. A timer that another thread adds is created by that thread;
  a functor puts it into the queue, on the loop's thread. One loop per thread: \<open>loops\<close> is the variable
  \<open>t_loopInThisThread\<close> of every thread.
\<close>

section \<open>One loop per thread\<close>

definition EventLoop_ctor :: "tid \<Rightarrow> addr \<Rightarrow> (tid \<rightharpoonup> addr) \<Rightarrow> ('f EventLoop \<times> (tid \<rightharpoonup> addr)) res" where
  "EventLoop_ctor t this loops =
     (if loops t \<noteq> None then Inl FatalLog else Inr (newEventLoop t, loops(t \<mapsto> this)))"

definition EventLoop_dtor :: "tid \<Rightarrow> 'f EventLoop \<Rightarrow> (tid \<rightharpoonup> addr) \<Rightarrow> (tid \<rightharpoonup> addr) res" where
  "EventLoop_dtor t s loops = assertE (\<not> m_looping s) (Inr (loops(t := None)))"

definition getEventLoopOfCurrentThread :: "tid \<Rightarrow> (tid \<rightharpoonup> addr) \<Rightarrow> addr option" where
  "getEventLoopOfCurrentThread t loops = loops t"

section \<open>Timers of a loop\<close>

datatype 'u loop_fn = AddTimerInLoop addr | CancelInLoop TimerId | UserFn 'u

record 'u TimedLoop =
  tl_loop :: "'u loop_fn EventLoop"
  tl_timers :: TimerQueue

text \<open>Running a functor on the loop's thread; \<open>user\<close> is what the functors of the user do.\<close>

definition tl_run ::
  "('u \<Rightarrow> 'u TimedLoop \<Rightarrow> 'u TimedLoop res) \<Rightarrow> clock \<Rightarrow> 'u loop_fn \<Rightarrow> 'u TimedLoop \<Rightarrow> 'u TimedLoop res" where
  "tl_run user clk f s =
     (case f of
        AddTimerInLoop p \<Rightarrow> bindE (addTimerInLoop clk p (tl_timers s)) (\<lambda>q. Inr (s\<lparr>tl_timers := q\<rparr>))
      | CancelInLoop tid \<Rightarrow> bindE (cancelInLoop tid (tl_timers s)) (\<lambda>q. Inr (s\<lparr>tl_timers := q\<rparr>))
      | UserFn u \<Rightarrow> user u s)"

definition tl_runInLoop ::
  "('u \<Rightarrow> 'u TimedLoop \<Rightarrow> 'u TimedLoop res) \<Rightarrow> clock \<Rightarrow> tid \<Rightarrow> 'u loop_fn \<Rightarrow> 'u TimedLoop \<Rightarrow> 'u TimedLoop res" where
  "tl_runInLoop user clk t f s =
     (if isInloopThread t (tl_loop s) then tl_run user clk f s
      else Inr (s\<lparr>tl_loop := queueInLoop t f (tl_loop s)\<rparr>))"

definition tl_addTimer ::
  "('u \<Rightarrow> 'u TimedLoop \<Rightarrow> 'u TimedLoop res) \<Rightarrow> clock \<Rightarrow> tid \<Rightarrow> addr \<Rightarrow> action list \<Rightarrow> TimeStamp \<Rightarrow> double \<Rightarrow>
   'u TimedLoop \<Rightarrow> (TimerId \<times> 'u TimedLoop) res" where
  "tl_addTimer user clk t p cb when interval s =
     (let q = tl_timers s; (timer, numCreated') = newTimer cb when interval (s_numCreated q);
          s1 = s\<lparr>tl_timers := q\<lparr>timers := (timers q)(p \<mapsto> timer), s_numCreated := numCreated'\<rparr>\<rparr>
      in bindE (tl_runInLoop user clk t (AddTimerInLoop p) s1) (\<lambda>s2.
         Inr (\<lparr>id_timer = p, id_sequence = m_sequence timer\<rparr>, s2)))"

definition tl_cancel ::
  "('u \<Rightarrow> 'u TimedLoop \<Rightarrow> 'u TimedLoop res) \<Rightarrow> clock \<Rightarrow> tid \<Rightarrow> TimerId \<Rightarrow> 'u TimedLoop \<Rightarrow> 'u TimedLoop res" where
  "tl_cancel user clk t tid s = tl_runInLoop user clk t (CancelInLoop tid) s"

definition runAt ::
  "('u \<Rightarrow> 'u TimedLoop \<Rightarrow> 'u TimedLoop res) \<Rightarrow> clock \<Rightarrow> tid \<Rightarrow> addr \<Rightarrow> action list \<Rightarrow> TimeStamp \<Rightarrow>
   'u TimedLoop \<Rightarrow> (TimerId \<times> 'u TimedLoop) res" where
  "runAt user clk t p cb time s = tl_addTimer user clk t p cb time (Dbl 0 0) s"

definition runAfter ::
  "('u \<Rightarrow> 'u TimedLoop \<Rightarrow> 'u TimedLoop res) \<Rightarrow> clock \<Rightarrow> tid \<Rightarrow> addr \<Rightarrow> action list \<Rightarrow> double \<Rightarrow>
   'u TimedLoop \<Rightarrow> (TimerId \<times> 'u TimedLoop) res" where
  "runAfter user clk t p cb delay s =
     (case now clk (tl_timers s) of (n, q) \<Rightarrow> runAt user clk t p cb (addTime n delay) (s\<lparr>tl_timers := q\<rparr>))"

definition runEvery ::
  "('u \<Rightarrow> 'u TimedLoop \<Rightarrow> 'u TimedLoop res) \<Rightarrow> clock \<Rightarrow> tid \<Rightarrow> addr \<Rightarrow> action list \<Rightarrow> double \<Rightarrow>
   'u TimedLoop \<Rightarrow> (TimerId \<times> 'u TimedLoop) res" where
  "runEvery user clk t p cb interval s =
     (case now clk (tl_timers s) of (n, q) \<Rightarrow> tl_addTimer user clk t p cb (addTime n interval) interval (s\<lparr>tl_timers := q\<rparr>))"

text \<open>\<open>doPendingFunctors\<close> on this state.\<close>

definition tl_doPendingFunctors ::
  "('u \<Rightarrow> 'u TimedLoop \<Rightarrow> 'u TimedLoop res) \<Rightarrow> clock \<Rightarrow> 'u TimedLoop \<Rightarrow> 'u TimedLoop res" where
  "tl_doPendingFunctors user clk s =
     (let (functors, l1) = swap_pending (tl_loop s) in
      bindE (foldE (tl_run user clk) functors (s\<lparr>tl_loop := l1\<rparr>)) (\<lambda>s2.
      Inr (s2\<lparr>tl_loop := (tl_loop s2)\<lparr>m_callingPendingFunctors := False\<rparr>\<rparr>)))"

text \<open>The destructor of the queue deletes the timers in it.\<close>

definition delete_timer :: "Entry \<Rightarrow> TimerQueue \<Rightarrow> TimerQueue res" where
  "delete_timer e q = bindE (deref (snd e) q) (\<lambda>_. Inr (q\<lparr>timers := (timers q)(snd e := None)\<rparr>))"

definition destroyTimerQueue :: "TimerQueue \<Rightarrow> TimerQueue res" where
  "destroyTimerQueue q = foldE delete_timer (m_timers q) q"

section \<open>The armed descriptor\<close>

text \<open>When there are timers, the descriptor was last armed for the earliest of them.\<close>

definition tq_armed :: "clock \<Rightarrow> TimerQueue \<Rightarrow> bool" where
  "tq_armed clk q \<longleftrightarrow> (case m_timers q of [] \<Rightarrow> True
     | e # _ \<Rightarrow> \<exists>k. timerfd q = Some (howMuchTimeFromNow (TimeStamp_now (clk k)) (fst e)))"

lemma hd_min:
  assumes "sorted_wrt (<) (es :: Entry list)" and "e \<in> set es" and "\<forall>x \<in> set es. fst e \<le> fst x"
  shows "fst (hd es) = fst e"
  using assms by (cases es) (auto simp: less_prod_def less_le)

lemma armed_iff:
  assumes "sorted_wrt (<) (m_timers q)" and "e \<in> set (m_timers q)" and "\<forall>x \<in> set (m_timers q). fst e \<le> fst x"
  shows "tq_armed clk q \<longleftrightarrow> (\<exists>k. timerfd q = Some (howMuchTimeFromNow (TimeStamp_now (clk k)) (fst e)))"
  using hd_min [OF assms] assms(2) by (cases "m_timers q") (auto simp: tq_armed_def)

lemma addTimerInLoop_arms:
  assumes "tq_inv q" and "tq_armed clk q" and "timers q p = Some t" and "p \<notin> queued q" and "p < uintptr_max"
  shows "runs (\<lambda>q'. tq_inv q' \<and> tq_armed clk q' \<and> set (m_timers q') = insert (m_expiration t, p) (set (m_timers q)) \<and>
    timers q' = timers q) (addTimerInLoop clk p q)"
proof (rule runs_mono [OF addTimerInLoop_ok [OF assms(1,3-5), of clk]], elim conjE, intro conjI)
  let ?w = "m_expiration t"
  fix q'
  assume q': "tq_inv q'" "set (m_timers q') = insert (?w, p) (set (m_timers q))"
    "timerfd q' = (if earliest q ?w then Some (howMuchTimeFromNow (TimeStamp_now (clk (readings q))) ?w) else timerfd q)"
  have s: "sorted_wrt (<) (m_timers q')" "sorted_wrt (<) (m_timers q)" using q'(1) assms(1) by (simp_all add: tq_inv_def)
  show "tq_armed clk q'"
  proof (cases "earliest q ?w")
    case True
    then show ?thesis using q'(2,3) armed_iff [OF s(1), of "(?w, p)"] by (auto simp: earliest_def less_le)
  next
    case False
    then obtain e where e: "e \<in> set (m_timers q)" "fst e \<le> ?w" by (auto simp: earliest_def not_less)
    obtain e0 es where es: "m_timers q = e0 # es" using e(1) by (cases "m_timers q") auto
    have min: "\<forall>x \<in> set (m_timers q). fst e0 \<le> fst x" using s(2) es by (auto simp: less_prod_def less_le)
    moreover have "fst e0 \<le> ?w" using e min by force
    ultimately have "tq_armed clk q' \<longleftrightarrow> (\<exists>k. timerfd q' = Some (howMuchTimeFromNow (TimeStamp_now (clk k)) (fst e0)))"
      using armed_iff [OF s(1), of e0] q'(2) es by auto
    then show ?thesis using assms(2) False q'(3) es by (auto simp: tq_armed_def)
  qed
qed simp_all

text \<open>The functors put the timers into the queue, one after the other.\<close>

definition entry_of :: "TimerQueue \<Rightarrow> addr \<Rightarrow> Entry" where
  "entry_of q p = (m_expiration (the (timers q p)), p)"

definition waiting_timer :: "TimerQueue \<Rightarrow> addr \<Rightarrow> bool" where
  "waiting_timer q p \<longleftrightarrow> timers q p \<noteq> None \<and> p \<notin> queued q \<and> p < uintptr_max"

lemma run_adds:
  assumes "tq_inv (tl_timers s)" and "tq_armed clk (tl_timers s)" and "distinct ps" and "\<forall>p \<in> set ps. waiting_timer (tl_timers s) p"
  shows "runs (\<lambda>s'. tq_inv (tl_timers s') \<and> tq_armed clk (tl_timers s') \<and>
      set (m_timers (tl_timers s')) = set (m_timers (tl_timers s)) \<union> entry_of (tl_timers s) ` set ps \<and>
      timers (tl_timers s') = timers (tl_timers s) \<and> tl_loop s' = tl_loop s) (foldE (tl_run user clk) (map AddTimerInLoop ps) s)"
  using assms
proof (induction ps arbitrary: s)
  case (Cons p ps)
  let ?q = "tl_timers s"
  obtain t where t: "timers ?q p = Some t" using Cons.prems(4) by (auto simp: waiting_timer_def)
  from Cons.prems(4) have p: "p \<notin> queued ?q" "p < uintptr_max" by (simp_all add: waiting_timer_def)
  from runsE [OF addTimerInLoop_arms [OF Cons.prems(1,2) t p]] obtain q where
    q: "addTimerInLoop clk p ?q = Inr q" "tq_inv q" "tq_armed clk q" "set (m_timers q) = insert (m_expiration t, p) (set (m_timers ?q))"
      "timers q = timers ?q" by auto
  have w: "\<forall>x \<in> set ps. waiting_timer (tl_timers (s\<lparr>tl_timers := q\<rparr>)) x"
    using Cons.prems(3,4) q(4,5) by (auto simp: waiting_timer_def queued_def)
  have e: "entry_of q = entry_of ?q" "entry_of ?q p = (m_expiration t, p)" using q(5) t by (auto simp: entry_of_def)
  have "foldE (tl_run user clk) (map AddTimerInLoop (p # ps)) s =
      foldE (tl_run user clk) (map AddTimerInLoop ps) (s\<lparr>tl_timers := q\<rparr>)" using q(1) by (simp add: tl_run_def)
  then show ?case
    using Cons.IH [of "s\<lparr>tl_timers := q\<rparr>"] q w Cons.prems(3) e by (auto elim!: runs_mono)
qed simp

section \<open>Timers from other threads\<close>

text \<open>A request: the thread, the address of the new timer, its callback, when it is due and its interval.\<close>

type_synonym request = "tid \<times> addr \<times> action list \<times> TimeStamp \<times> double"

definition req_addr :: "request \<Rightarrow> addr" where
  "req_addr r = fst (snd r)"

definition req_entry :: "request \<Rightarrow> Entry" where
  "req_entry r = (fst (snd (snd (snd r))), req_addr r)"

definition post_timer ::
  "('u \<Rightarrow> 'u TimedLoop \<Rightarrow> 'u TimedLoop res) \<Rightarrow> clock \<Rightarrow> request \<Rightarrow> 'u TimedLoop \<Rightarrow> 'u TimedLoop res" where
  "post_timer user clk r s =
     (case r of (t, p, cb, when, interval) \<Rightarrow> bindE (tl_addTimer user clk t p cb when interval s) (\<lambda>(_, s'). Inr s'))"

lemma newTimer_expiration: "m_expiration (fst (newTimer cb when iv n)) = when"
  by (simp add: newTimer_def split: prod.split)

lemma post_one:
  assumes "fst r \<noteq> lp_threadId (tl_loop s)"
  shows "\<exists>tm n. post_timer user clk r s = Inr (s\<lparr>tl_timers := (tl_timers s)\<lparr>timers := (timers (tl_timers s))(req_addr r \<mapsto> tm), s_numCreated := n\<rparr>,
    tl_loop := queueInLoop (fst r) (AddTimerInLoop (req_addr r)) (tl_loop s)\<rparr>) \<and> m_expiration tm = fst (req_entry r)"
proof -
  obtain t p cb w iv where r: "r = (t, p, cb, w, iv)" by (cases r)
  obtain tm n where n: "newTimer cb w iv (s_numCreated (tl_timers s)) = (tm, n)" by fastforce
  then have "m_expiration tm = w" using newTimer_expiration [of cb w iv "s_numCreated (tl_timers s)"] by simp
  then show ?thesis
    using assms n by (auto simp: r post_timer_def tl_addTimer_def tl_runInLoop_def isInloopThread_def req_addr_def req_entry_def Let_def)
qed

text \<open>Posting only creates the timers, remembers the functors and wakes the loop.\<close>

definition posted :: "request list \<Rightarrow> 'u TimedLoop \<Rightarrow> 'u TimedLoop \<Rightarrow> bool" where
  "posted rs s s' \<longleftrightarrow> m_pendingFunctors (tl_loop s') = m_pendingFunctors (tl_loop s) @ map (\<lambda>r. AddTimerInLoop (req_addr r)) rs \<and>
     lp_threadId (tl_loop s') = lp_threadId (tl_loop s) \<and>
     m_timers (tl_timers s') = m_timers (tl_timers s) \<and> m_activeTimers (tl_timers s') = m_activeTimers (tl_timers s) \<and>
     timerfd (tl_timers s') = timerfd (tl_timers s) \<and>
     (\<forall>p. p \<notin> req_addr ` set rs \<longrightarrow> timers (tl_timers s') p = timers (tl_timers s) p) \<and>
     (\<forall>r \<in> set rs. timers (tl_timers s') (req_addr r) \<noteq> None \<and> entry_of (tl_timers s') (req_addr r) = req_entry r) \<and>
     (rs \<noteq> [] \<longrightarrow> 0 < wakeup_count (tl_loop s'))"

lemma posted_snoc:
  assumes "posted rs s s1" and "req_addr r \<notin> req_addr ` set rs" and "fst r \<noteq> lp_threadId (tl_loop s)"
  shows "\<exists>s2. post_timer user clk r s1 = Inr s2 \<and> posted (rs @ [r]) s s2"
proof -
  have "fst r \<noteq> lp_threadId (tl_loop s1)" using assms(1,3) by (simp add: posted_def)
  from post_one [OF this, of user clk] obtain tm n where tm: "m_expiration tm = fst (req_entry r)"
    "post_timer user clk r s1 = Inr (s1\<lparr>tl_timers := (tl_timers s1)\<lparr>timers := (timers (tl_timers s1))(req_addr r \<mapsto> tm), s_numCreated := n\<rparr>,
      tl_loop := queueInLoop (fst r) (AddTimerInLoop (req_addr r)) (tl_loop s1)\<rparr>)" by blast
  have "(fst (req_entry r), req_addr r) = req_entry r" by (simp add: req_entry_def)
  moreover have "req_addr x \<noteq> req_addr r" if "x \<in> set rs" for x using that assms(2) by (metis imageI)
  ultimately show ?thesis
    using assms(1,3) tm queueInLoop_wakes [of "tl_loop s1" "fst r" "AddTimerInLoop (req_addr r)"]
    by (simp add: posted_def entry_of_def)
qed

lemma post_all:
  assumes "distinct (map req_addr rs)" and "\<forall>r \<in> set rs. fst r \<noteq> lp_threadId (tl_loop s)"
  shows "runs (posted rs s) (foldE (post_timer user clk) rs s)"
  using assms
proof (induction rs rule: rev_induct)
  case (snoc r rs)
  then obtain s1 where s1: "foldE (post_timer user clk) rs s = Inr s1" "posted rs s s1" by (auto elim: runsE)
  from posted_snoc [OF s1(2), of r user clk] snoc.prems obtain s2 where
    "post_timer user clk r s1 = Inr s2" "posted (rs @ [r]) s s2" by auto
  with s1(1) show ?case by (simp add: foldE_append)
qed (simp add: posted_def)

lemma posted_inv:
  assumes "posted rs s s'" and "tq_inv (tl_timers s)" and "\<forall>r \<in> set rs. timers (tl_timers s) (req_addr r) = None \<and> req_addr r < uintptr_max"
  shows "tq_inv (tl_timers s')" "tq_armed clk (tl_timers s') = tq_armed clk (tl_timers s)"
    "\<forall>p \<in> req_addr ` set rs. waiting_timer (tl_timers s') p"
proof -
  have q: "p \<notin> queued (tl_timers s)" if "p \<in> req_addr ` set rs" for p
    using that assms(2,3) by (force simp: queued_def elim: tq_invD)
  then have same: "timers (tl_timers s') (snd e) = timers (tl_timers s) (snd e)" if "e \<in> set (m_timers (tl_timers s))" for e
  proof -
    have "snd e \<notin> req_addr ` set rs" using q [of "snd e"] that by (auto simp: queued_def)
    then show ?thesis using assms(1) by (simp add: posted_def)
  qed
  have "active_of (tl_timers s') e = active_of (tl_timers s) e" if "e \<in> set (m_timers (tl_timers s))" for e
    using same [OF that] by (simp add: active_of_def)
  then show "tq_inv (tl_timers s')"
    using assms(1,2) same by (auto simp: tq_inv_def posted_def cong: image_cong)
  show "tq_armed clk (tl_timers s') = tq_armed clk (tl_timers s)" using assms(1) by (simp add: tq_armed_def posted_def split: list.split)
  show "\<forall>p \<in> req_addr ` set rs. waiting_timer (tl_timers s') p"
    using assms(1,3) q by (auto simp: waiting_timer_def posted_def queued_def)
qed

section \<open>Properties\<close>

text \<open>
  C33: timers may be added from any thread. Other threads create timers at free addresses with \<open>addTimer\<close>,
  which \<open>runAt\<close>, \<open>runAfter\<close> and \<open>runEvery\<close> call, in any order: the queue does not change at once, but the
  loop's wake-up descriptor is readable; and when the loop has run its pending functors, exactly the new timers
  have joined the old ones, the queue is well formed, and the timer descriptor is armed for the earliest of all.
\<close>

theorem timers_from_threads:
  assumes "tq_inv (tl_timers s)" and "tq_armed clk (tl_timers s)" and "m_pendingFunctors (tl_loop s) = []"
    and "distinct (map req_addr rs)" and "rs \<noteq> []"
    and "\<forall>r \<in> set rs. fst r \<noteq> lp_threadId (tl_loop s) \<and> timers (tl_timers s) (req_addr r) = None \<and> req_addr r < uintptr_max"
  shows "runs (\<lambda>s1. m_timers (tl_timers s1) = m_timers (tl_timers s) \<and> 0 < wakeup_count (tl_loop s1) \<and>
      runs (\<lambda>s2. tq_inv (tl_timers s2) \<and> set (m_timers (tl_timers s2)) = set (m_timers (tl_timers s)) \<union> req_entry ` set rs \<and>
        m_pendingFunctors (tl_loop s2) = [] \<and>
        (\<exists>e k. e \<in> set (m_timers (tl_timers s2)) \<and> (\<forall>x \<in> set (m_timers (tl_timers s2)). fst e \<le> fst x) \<and>
           timerfd (tl_timers s2) = Some (howMuchTimeFromNow (TimeStamp_now (clk k)) (fst e))))
        (tl_doPendingFunctors user clk s1)) (foldE (post_timer user clk) rs s)"
proof (rule runs_mono [OF post_all [OF assms(4)]])
  show "\<forall>r \<in> set rs. fst r \<noteq> lp_threadId (tl_loop s)" using assms(6) by blast
next
  fix s1
  assume p: "posted rs s s1"
  have "\<forall>r \<in> set rs. timers (tl_timers s) (req_addr r) = None \<and> req_addr r < uintptr_max" using assms(6) by blast
  note inv = posted_inv [OF p assms(1) this]
  let ?l = "(tl_loop s1)\<lparr>m_callingPendingFunctors := True, m_pendingFunctors := []\<rparr>" and ?ps = "map req_addr rs"
  have pend: "swap_pending (tl_loop s1) = (map AddTimerInLoop ?ps, ?l)"
    using p assms(3) by (simp add: swap_pending_def posted_def comp_def)
  have "entry_of (tl_timers s1) ` set ?ps = req_entry ` set rs" using p by (auto simp: posted_def image_image)
  moreover have "m_timers (tl_timers s1) = m_timers (tl_timers s)" using p by (simp add: posted_def)
  moreover from run_adds [of "s1\<lparr>tl_loop := ?l\<rparr>" clk ?ps user] inv assms(2,4,6)
  obtain s2 where "foldE (tl_run user clk) (map AddTimerInLoop ?ps) (s1\<lparr>tl_loop := ?l\<rparr>) = Inr s2" "tq_inv (tl_timers s2)" "tq_armed clk (tl_timers s2)"
      "set (m_timers (tl_timers s2)) = set (m_timers (tl_timers s1)) \<union> entry_of (tl_timers s1) ` set ?ps" "tl_loop s2 = ?l"
    by (auto elim: runsE)
  ultimately have s2: "tl_doPendingFunctors user clk s1 = Inr (s2\<lparr>tl_loop := (tl_loop s2)\<lparr>m_callingPendingFunctors := False\<rparr>\<rparr>)"
      "tq_inv (tl_timers s2)" "tq_armed clk (tl_timers s2)" "set (m_timers (tl_timers s2)) = set (m_timers (tl_timers s)) \<union> req_entry ` set rs"
      "m_pendingFunctors (tl_loop s2) = []"
    using pend by (simp_all add: tl_doPendingFunctors_def)
  obtain e es where e: "m_timers (tl_timers s2) = e # es" using s2(4) assms(5) by (cases "m_timers (tl_timers s2)") auto
  have "\<forall>x \<in> set (m_timers (tl_timers s2)). fst e \<le> fst x" using s2(2) e by (auto simp: tq_inv_def less_prod_def less_le)
  moreover have "\<exists>k. timerfd (tl_timers s2) = Some (howMuchTimeFromNow (TimeStamp_now (clk k)) (fst e))"
    using s2(3) e by (simp add: tq_armed_def)
  moreover have "e \<in> set (m_timers (tl_timers s2))" using e by simp
  ultimately have "\<exists>e k. e \<in> set (m_timers (tl_timers s2)) \<and> (\<forall>x \<in> set (m_timers (tl_timers s2)). fst e \<le> fst x) \<and>
      timerfd (tl_timers s2) = Some (howMuchTimeFromNow (TimeStamp_now (clk k)) (fst e))" by blast
  then show "m_timers (tl_timers s1) = m_timers (tl_timers s) \<and> 0 < wakeup_count (tl_loop s1) \<and>
      runs (\<lambda>s2. tq_inv (tl_timers s2) \<and> set (m_timers (tl_timers s2)) = set (m_timers (tl_timers s)) \<union> req_entry ` set rs \<and>
        m_pendingFunctors (tl_loop s2) = [] \<and>
        (\<exists>e k. e \<in> set (m_timers (tl_timers s2)) \<and> (\<forall>x \<in> set (m_timers (tl_timers s2)). fst e \<le> fst x) \<and>
           timerfd (tl_timers s2) = Some (howMuchTimeFromNow (TimeStamp_now (clk k)) (fst e)))) (tl_doPendingFunctors user clk s1)"
    using p s2 assms(5) by (simp add: posted_def)
qed

definition idle_timed_loop :: "unit TimedLoop" where
  "idle_timed_loop = \<lparr>tl_loop = newEventLoop 1, tl_timers = newTimerQueue\<rparr>"

theorem timers_from_threads_witness:
  "runs (\<lambda>s1. m_timers (tl_timers s1) = [] \<and> 0 < wakeup_count (tl_loop s1) \<and>
      runs (\<lambda>s2. set (m_timers (tl_timers s2)) = {(TimeStamp 5000, 8), (TimeStamp 3000, 16)} \<and> m_pendingFunctors (tl_loop s2) = [])
        (tl_doPendingFunctors (\<lambda>_ s. Inr s) (\<lambda>_. (0, 0)) s1))
    (foldE (post_timer (\<lambda>_ s. Inr s) (\<lambda>_. (0, 0))) [(2, 8, [], TimeStamp 5000, Dbl 0 0), (3, 16, [], TimeStamp 3000, Dbl 0 0)] idle_timed_loop)"
proof -
  let ?rs = "[(2, 8, [], TimeStamp 5000, Dbl 0 0), (3, 16, [], TimeStamp 3000, Dbl 0 0)] :: request list"
  have "tq_inv (tl_timers idle_timed_loop)" "tq_armed (\<lambda>_. (0, 0)) (tl_timers idle_timed_loop)" "m_pendingFunctors (tl_loop idle_timed_loop) = []"
    "distinct (map req_addr ?rs)" "?rs \<noteq> []"
    "\<forall>r \<in> set ?rs. fst r \<noteq> lp_threadId (tl_loop idle_timed_loop) \<and> timers (tl_timers idle_timed_loop) (req_addr r) = None \<and> req_addr r < uintptr_max"
    by (simp_all add: idle_timed_loop_def newTimerQueue_inv) (simp_all add: newTimerQueue_def tq_armed_def newEventLoop_def req_addr_def uintptr_max_def)
  from timers_from_threads [OF this, of "\<lambda>_ s. Inr s"] show ?thesis
    by (rule runs_mono)
      (auto simp: idle_timed_loop_def newTimerQueue_def req_entry_def req_addr_def insert_commute intro: runs_mono)
qed

text \<open>The destructor frees every timer of the queue.\<close>

lemma delete_all:
  assumes "\<forall>e \<in> set es. timers q (snd e) \<noteq> None" and "distinct (map snd es)"
  shows "runs (\<lambda>q'. (\<forall>e \<in> set es. timers q' (snd e) = None) \<and> (\<forall>p. p \<notin> snd ` set es \<longrightarrow> timers q' p = timers q p)) (foldE delete_timer es q)"
  using assms
proof (induction es arbitrary: q)
  case (Cons e es)
  let ?q = "q\<lparr>timers := (timers q)(snd e := None)\<rparr>"
  have "\<forall>x \<in> set es. timers ?q (snd x) \<noteq> None" using Cons.prems by (auto simp: image_iff)
  moreover have "delete_timer e q = Inr ?q" using Cons.prems(1) by (auto simp: delete_timer_def deref_def)
  ultimately show ?case using Cons.IH [of ?q] Cons.prems by (auto elim!: runs_mono)
qed simp

lemma destroyed_queue_empty:
  assumes "tq_inv q"
  shows "runs (\<lambda>q'. \<forall>p \<in> queued q. timers q' p = None) (destroyTimerQueue q)"
proof -
  have "\<forall>e \<in> set (m_timers q). timers q (snd e) \<noteq> None" using assms by (force elim: tq_invD)
  moreover have "distinct (map snd (m_timers q))"
    using assms tq_inv_inj_snd [OF assms] sorted_wrt_distinct [of "m_timers q"] by (simp add: distinct_map tq_inv_def)
  ultimately have "runs (\<lambda>q'. (\<forall>e \<in> set (m_timers q). timers q' (snd e) = None) \<and>
      (\<forall>p. p \<notin> snd ` set (m_timers q) \<longrightarrow> timers q' p = timers q p)) (destroyTimerQueue q)"
    unfolding destroyTimerQueue_def by (rule delete_all)
  then show ?thesis by (rule runs_mono) (auto simp: queued_def)
qed

end
