(* ===== verification/BlockingQueue.thy ===== *)
theory BlockingQueue
  imports Prelude "HOL-Library.Multiset"
begin

text \<open>
  \<open>rpc/ConnectionQueue\<close> with what it is made of: \<open>submodules/concurrentqueue/blockingconcurrentqueue.h\<close> and
  \<open>lightweightsemaphore.h\<close>, for any number of threads. Each atomic operation on the counter and each call
  of the kernel's semaphore is one step of its thread. The counter is a mathematical integer: it lies
  between minus the number of threads and the number of elements. The lock-free queue inside
  (\<open>concurrentqueue.h\<close>) is taken at its contract: \<open>inner\<close> is the bag of its elements, enqueueing adds one or
  fails without effect, and \<open>try_dequeue\<close> removes some element or fails.
\<close>

section \<open>The semaphore\<close>

record LightweightSemaphore =
  m_count :: int
  m_sema :: nat
  m_maxSpins :: nat

definition newLightweightSemaphore :: "int \<Rightarrow> int \<Rightarrow> LightweightSemaphore res" where
  "newLightweightSemaphore initialCount maxSpins =
     assertE (0 \<le> initialCount)
       (assertE (0 \<le> maxSpins) (Inr \<lparr>m_count = initialCount, m_sema = 0, m_maxSpins = nat maxSpins\<rparr>))"

text \<open>
  Where a thread is within \<open>wait\<close>: before the load of \<open>tryWait\<close>, before its exchange with the value it
  expects, in the loop of \<open>waitWithPartialSpinning\<close> with the turns left, asleep in the kernel, in the loop
  after a time-out, or back with the result.
\<close>

datatype wait_pc =
    TryLoad | TryCas int | Spin nat | SpinCas nat int | Asleep | FixLoad | FixTry | FixCas int | Done bool

definition tryWait_next :: "LightweightSemaphore \<Rightarrow> wait_pc" where
  "tryWait_next s = (if m_count s > 0 then TryCas (m_count s) else Spin (m_maxSpins s))"

definition take_one :: "LightweightSemaphore \<Rightarrow> LightweightSemaphore" where
  "take_one s = s\<lparr>m_count := m_count s - 1\<rparr>"

text \<open>
  One step of \<open>wait(timeout_usecs)\<close>. \<open>weak\<close> is a spurious failure of the weak exchange, \<open>late\<close> says that the
  time-out comes first; \<open>None\<close> while the thread sleeps, and after the end.
\<close>

definition wait_step ::
  "bool \<Rightarrow> bool \<Rightarrow> int \<Rightarrow> wait_pc \<Rightarrow> LightweightSemaphore \<Rightarrow> (wait_pc \<times> LightweightSemaphore) option" where
  "wait_step weak late timeout pc s =
     (case pc of
        TryLoad \<Rightarrow> Some (tryWait_next s, s)
      | TryCas old \<Rightarrow> Some (if m_count s = old \<and> \<not> weak then (Done True, take_one s) else (tryWait_next s, s))
      | Spin (Suc k) \<Rightarrow> Some (if m_count s > 0 then SpinCas k (m_count s) else Spin k, s)
      | SpinCas k old \<Rightarrow> Some (if m_count s = old then (Done True, take_one s) else (Spin k, s))
      | Spin 0 \<Rightarrow> Some (if m_count s > 0 then Done True else if timeout = 0 then FixLoad else Asleep, take_one s)
      | Asleep \<Rightarrow>
          if timeout > 0 \<and> late then Some (FixLoad, s)
          else if m_sema s > 0 then Some (Done True, s\<lparr>m_sema := m_sema s - 1\<rparr>) else None
      | FixLoad \<Rightarrow> Some (if m_count s \<ge> 0 then FixTry else FixCas (m_count s), s)
      | FixTry \<Rightarrow> Some (if m_sema s > 0 then (Done True, s\<lparr>m_sema := m_sema s - 1\<rparr>) else (FixLoad, s))
      | FixCas old \<Rightarrow> Some (if m_count s = old then (Done False, s\<lparr>m_count := m_count s + 1\<rparr>) else (FixLoad, s))
      | Done _ \<Rightarrow> None)"

text \<open>\<open>signal\<close>: the addition, with the number of posts that have to follow, and one post.\<close>

definition signal_add :: "int \<Rightarrow> LightweightSemaphore \<Rightarrow> (nat \<times> LightweightSemaphore) res" where
  "signal_add cnt s =
     assertE (0 \<le> cnt)
       (let oldCount = m_count s; toRelease = (if - oldCount < cnt then - oldCount else cnt) in
        Inr (nat toRelease, s\<lparr>m_count := oldCount + cnt\<rparr>))"

definition sema_post :: "LightweightSemaphore \<Rightarrow> LightweightSemaphore" where
  "sema_post s = s\<lparr>m_sema := Suc (m_sema s)\<rparr>"

definition availableApprox :: "LightweightSemaphore \<Rightarrow> nat" where
  "availableApprox s = (if m_count s > 0 then nat (m_count s) else 0)"

text \<open>
  A thread that has counted itself and holds no permit yet; a thread that got its permit; and
  what the values it remembers are.
\<close>

fun waits :: "wait_pc \<Rightarrow> int" where
  "waits Asleep = 1" | "waits FixLoad = 1" | "waits FixTry = 1" | "waits (FixCas _) = 1" | "waits _ = 0"

fun holds :: "wait_pc \<Rightarrow> int" where
  "holds (Done True) = 1" | "holds _ = 0"

fun remembers :: "wait_pc \<Rightarrow> bool" where
  "remembers (TryCas old) = (old > 0)" | "remembers (SpinCas _ old) = (old > 0)" | "remembers (FixCas old) = (old < 0)"
| "remembers _ = True"

text \<open>How many of those who counted themselves have not been let in.\<close>

definition owed :: "LightweightSemaphore \<Rightarrow> int" where
  "owed s = int (m_sema s) + max 0 (- m_count s)"

text \<open>A step of \<open>wait\<close> moves permits from the counter to the thread, and creates none.\<close>

lemma wait_step_conserves:
  assumes "wait_step weak late timeout pc s = Some (pc', s')" and "remembers pc"
  shows "m_count s' + waits pc' + holds pc' = m_count s + waits pc + holds pc" "owed s' - waits pc' = owed s - waits pc"
    "remembers pc'"
  using assms
  by (auto simp: wait_step_def owed_def take_one_def tryWait_next_def split: wait_pc.splits nat.splits if_splits)

lemma signal_conserves:
  assumes "signal_add c s = Inr (k, s')"
  shows "m_count s' = m_count s + c" "int k + owed s' = owed s" "0 \<le> c"
  using assms by (auto simp: signal_add_def Let_def owed_def assertE_eq_Inr)

section \<open>The queue\<close>

text \<open>
  A thread of the queue: not in an operation; in \<open>enqueue\<close> after the element went in, before the signal;
  with posts left to do; in \<open>wait\<close> of a dequeue with the time-out; in the loop around \<open>try_dequeue\<close>.
\<close>

datatype bq_pc = Free | Enqueued | Posting nat | Waiting int wait_pc | Dequeuing

record 'a BlockingConcurrentQueue =
  inner :: "'a multiset"
  sema :: LightweightSemaphore
  bq_threads :: "bq_pc list"
  bq_in :: "'a multiset"
  bq_out :: "'a multiset"

definition newBlockingConcurrentQueue :: "int \<Rightarrow> nat \<Rightarrow> 'a BlockingConcurrentQueue res" where
  "newBlockingConcurrentQueue maxSpins threads =
     bindE (newLightweightSemaphore 0 maxSpins) (\<lambda>s.
     Inr \<lparr>inner = {#}, sema = s, bq_threads = replicate threads Free, bq_in = {#}, bq_out = {#}\<rparr>)"

definition at_pc :: "nat \<Rightarrow> bq_pc \<Rightarrow> 'a BlockingConcurrentQueue \<Rightarrow> 'a BlockingConcurrentQueue" where
  "at_pc i pc q = q\<lparr>bq_threads := (bq_threads q)[i := pc]\<rparr>"

text \<open>\<open>enqueue\<close>: the element goes in, the signal, the posts.\<close>

definition bq_enqueue :: "nat \<Rightarrow> 'a \<Rightarrow> 'a BlockingConcurrentQueue \<Rightarrow> 'a BlockingConcurrentQueue" where
  "bq_enqueue i x q = at_pc i Enqueued (q\<lparr>inner := add_mset x (inner q), bq_in := add_mset x (bq_in q)\<rparr>)"

definition bq_signal :: "nat \<Rightarrow> 'a BlockingConcurrentQueue \<Rightarrow> 'a BlockingConcurrentQueue res" where
  "bq_signal i q = bindE (signal_add 1 (sema q)) (\<lambda>(n, s). Inr (at_pc i (if n = 0 then Free else Posting n) (q\<lparr>sema := s\<rparr>)))"

definition bq_post :: "nat \<Rightarrow> nat \<Rightarrow> 'a BlockingConcurrentQueue \<Rightarrow> 'a BlockingConcurrentQueue" where
  "bq_post i n q = at_pc i (if n = 1 then Free else Posting (n - 1)) (q\<lparr>sema := sema_post (sema q)\<rparr>)"

text \<open>
  \<open>wait_dequeue\<close> (with the time-out -1) and \<open>wait_dequeue_timed\<close>. Back from \<open>wait\<close> with a permit the thread
  loops around \<open>try_dequeue\<close>; without one it waits again or gives up.
\<close>

definition bq_wait :: "bool \<Rightarrow> bool \<Rightarrow> nat \<Rightarrow> int \<Rightarrow> wait_pc \<Rightarrow> 'a BlockingConcurrentQueue \<Rightarrow> 'a BlockingConcurrentQueue option" where
  "bq_wait weak late i timeout pc q =
     (case wait_step weak late timeout pc (sema q) of
        None \<Rightarrow> None
      | Some (pc', s) \<Rightarrow>
          let q1 = q\<lparr>sema := s\<rparr> in
          Some (case pc' of
                  Done True \<Rightarrow> at_pc i Dequeuing q1
                | Done False \<Rightarrow> at_pc i (if timeout < 0 then Waiting timeout TryLoad else Free) q1
                | _ \<Rightarrow> at_pc i (Waiting timeout pc') q1))"

definition bq_dequeue :: "nat \<Rightarrow> 'a \<Rightarrow> 'a BlockingConcurrentQueue \<Rightarrow> 'a BlockingConcurrentQueue" where
  "bq_dequeue i x q = at_pc i Free (q\<lparr>inner := inner q - {#x#}, bq_out := add_mset x (bq_out q)\<rparr>)"

definition size_approx :: "'a BlockingConcurrentQueue \<Rightarrow> nat" where
  "size_approx q = availableApprox (sema q)"

text \<open>What the threads do, in any order.\<close>

inductive bq_reach :: "'a BlockingConcurrentQueue \<Rightarrow> bool" where
  start: "newBlockingConcurrentQueue spins k = Inr q \<Longrightarrow> bq_reach q"
| put: "\<lbrakk>bq_reach q; i < length (bq_threads q); bq_threads q ! i = Free\<rbrakk> \<Longrightarrow> bq_reach (bq_enqueue i x q)"
| signal: "\<lbrakk>bq_reach q; i < length (bq_threads q); bq_threads q ! i = Enqueued; bq_signal i q = Inr q'\<rbrakk> \<Longrightarrow> bq_reach q'"
| post: "\<lbrakk>bq_reach q; i < length (bq_threads q); bq_threads q ! i = Posting n\<rbrakk> \<Longrightarrow> bq_reach (bq_post i n q)"
| get: "\<lbrakk>bq_reach q; i < length (bq_threads q); bq_threads q ! i = Free\<rbrakk> \<Longrightarrow> bq_reach (at_pc i (Waiting timeout TryLoad) q)"
| wait: "\<lbrakk>bq_reach q; i < length (bq_threads q); bq_threads q ! i = Waiting timeout pc; bq_wait weak late i timeout pc q = Some q'\<rbrakk> \<Longrightarrow>
    bq_reach q'"
| taken: "\<lbrakk>bq_reach q; i < length (bq_threads q); bq_threads q ! i = Dequeuing; x \<in># inner q\<rbrakk> \<Longrightarrow> bq_reach (bq_dequeue i x q)"

section \<open>Invariant\<close>

text \<open>The threads' part of the permits, of the waiting, of the posts to come and of the signals to come.\<close>

fun permits :: "bq_pc \<Rightarrow> int" where
  "permits Dequeuing = 1" | "permits (Waiting t pc) = holds pc" | "permits _ = 0"

fun counted :: "bq_pc \<Rightarrow> int" where
  "counted (Waiting t pc) = waits pc" | "counted _ = 0"

fun posts :: "bq_pc \<Rightarrow> int" where
  "posts (Posting n) = int n" | "posts _ = 0"

fun unsignalled :: "bq_pc \<Rightarrow> int" where
  "unsignalled Enqueued = 1" | "unsignalled _ = 0"

fun bq_pc_ok :: "bq_pc \<Rightarrow> bool" where
  "bq_pc_ok (Posting n) = (n > 0)" | "bq_pc_ok (Waiting t pc) = (remembers pc \<and> pc \<noteq> Done True)" | "bq_pc_ok _ = True"

definition total :: "(bq_pc \<Rightarrow> int) \<Rightarrow> 'a BlockingConcurrentQueue \<Rightarrow> int" where
  "total f q = (\<Sum>pc \<leftarrow> bq_threads q. f pc)"

definition bq_inv :: "'a BlockingConcurrentQueue \<Rightarrow> bool" where
  "bq_inv q \<longleftrightarrow> bq_in q = inner q + bq_out q \<and> list_all bq_pc_ok (bq_threads q) \<and>
     m_count (sema q) + total counted q + total permits q + total unsignalled q = int (size (inner q)) \<and>
     owed (sema q) + total posts q = total counted q"

lemma total_at_pc:
  assumes "i < length (bq_threads q)"
  shows "total f (at_pc i pc q) = total f q + f pc - f (bq_threads q ! i)"
  using assms by (simp add: total_def at_pc_def sum_update)

lemma at_pc_simps [simp]:
  "inner (at_pc i pc q) = inner q" "sema (at_pc i pc q) = sema q" "bq_in (at_pc i pc q) = bq_in q" "bq_out (at_pc i pc q) = bq_out q"
  "bq_threads (at_pc i pc q) = (bq_threads q)[i := pc]"
  by (simp_all add: at_pc_def)

lemma total_other [simp]:
  "total f (q\<lparr>inner := a\<rparr>) = total f q" "total f (q\<lparr>sema := s\<rparr>) = total f q" "total f (q\<lparr>bq_in := a\<rparr>) = total f q" "total f (q\<lparr>bq_out := a\<rparr>) = total f q"
  by (simp_all add: total_def)

lemma ok_update: "list_all bq_pc_ok xs \<Longrightarrow> bq_pc_ok pc \<Longrightarrow> list_all bq_pc_ok (xs[i := pc])"
  by (auto simp: list_all_iff dest: set_update_subset_insert [THEN subsetD])

text \<open>A step of thread \<open>i\<close> keeps the invariant if it balances the parts of that thread.\<close>

lemma bq_inv_step:
  assumes "bq_inv q" and "i < length (bq_threads q)" and "bq_pc_ok pc"
    and "bq_threads q1 = bq_threads q" and "bq_in q1 = inner q1 + bq_out q1"
    and "m_count (sema q1) + counted pc + permits pc + unsignalled pc - int (size (inner q1)) =
      m_count (sema q) + counted (bq_threads q ! i) + permits (bq_threads q ! i) + unsignalled (bq_threads q ! i) - int (size (inner q))"
    and "owed (sema q1) + posts pc - counted pc = owed (sema q) + posts (bq_threads q ! i) - counted (bq_threads q ! i)"
  shows "bq_inv (at_pc i pc q1)"
proof -
  have "total f (at_pc i pc q1) = total f q + f pc - f (bq_threads q ! i)" for f
    using total_at_pc [of i q1 f pc] assms(2,4) by (simp add: total_def)
  then show ?thesis
    using assms ok_update [of "bq_threads q" pc i] by (simp add: bq_inv_def)
qed

lemma bq_wait_inv:
  assumes "bq_inv q" and "i < length (bq_threads q)" and "bq_threads q ! i = Waiting timeout pc"
    and "bq_wait weak late i timeout pc q = Some q'"
  shows "bq_inv q'"
proof -
  have ok: "remembers pc" "pc \<noteq> Done True"
    using assms(1-3) by (auto simp: bq_inv_def list_all_length dest!: spec [of _ i])
  then have h: "holds pc = 0" by (cases pc rule: holds.cases) auto
  obtain pc' s where st: "wait_step weak late timeout pc (sema q) = Some (pc', s)"
      "q' = at_pc i (case pc' of Done True \<Rightarrow> Dequeuing | Done False \<Rightarrow> if timeout < 0 then Waiting timeout TryLoad else Free
         | _ \<Rightarrow> Waiting timeout pc') (q\<lparr>sema := s\<rparr>)"
    using assms(4) by (auto simp: bq_wait_def Let_def split: option.splits wait_pc.splits bool.splits)
  show ?thesis
    unfolding st(2)
    by (rule bq_inv_step [OF assms(1,2)])
      (use wait_step_conserves [OF st(1) ok(1)] assms(1,3) h in \<open>auto simp: bq_inv_def split: wait_pc.splits bool.splits\<close>)
qed

lemma bq_reach_inv: "bq_reach q \<Longrightarrow> bq_inv q"
proof (induction rule: bq_reach.induct)
  case (start spins k q)
  then show ?case
    by (auto simp: newBlockingConcurrentQueue_def newLightweightSemaphore_def res_eq_Inr bq_inv_def total_def owed_def
        sum_list_replicate list_all_iff)
next
  case (put q i x)
  show ?case
    unfolding bq_enqueue_def by (rule bq_inv_step [OF put.IH put.hyps(2)]) (use put in \<open>auto simp: bq_inv_def\<close>)
next
  case (signal q i q')
  obtain n s where s: "signal_add 1 (sema q) = Inr (n, s)" "q' = at_pc i (if n = 0 then Free else Posting n) (q\<lparr>sema := s\<rparr>)"
    using signal.hyps(4) by (auto simp: bq_signal_def res_eq_Inr)
  show ?case
    unfolding s(2)
    by (rule bq_inv_step [OF signal.IH signal.hyps(2)]) (use signal signal_conserves [OF s(1)] in \<open>auto simp: bq_inv_def\<close>)
next
  case (post q i n)
  have "bq_pc_ok (Posting n)" using post.IH post.hyps by (auto simp: bq_inv_def list_all_length dest!: spec [of _ i])
  then show ?case
    unfolding bq_post_def
    by (intro bq_inv_step [OF post.IH post.hyps(2)]) (use post in \<open>auto simp: bq_inv_def owed_def sema_post_def of_nat_diff\<close>)
next
  case (get q i timeout)
  show ?case by (rule bq_inv_step [OF get.IH get.hyps(2)]) (use get in \<open>auto simp: bq_inv_def\<close>)
next
  case (wait q i timeout pc weak late q')
  show ?case by (rule bq_wait_inv [OF wait.IH wait.hyps(2-4)])
next
  case (taken q i x)
  obtain m where m: "inner q = add_mset x m" using taken.hyps(4) by (rule mset_add)
  then show ?case
    unfolding bq_dequeue_def
    by (intro bq_inv_step [OF taken.IH taken.hyps(2)]) (use taken m in \<open>simp_all add: bq_inv_def\<close>)
qed

text \<open>How many threads are at \<open>pc\<close>.\<close>

definition at_count :: "bq_pc \<Rightarrow> 'a BlockingConcurrentQueue \<Rightarrow> nat" where
  "at_count pc q = length (filter (\<lambda>x. x = pc) (bq_threads q))"

lemma holds_zero: "pc \<noteq> Done True \<Longrightarrow> holds pc = 0"
  by (induction pc rule: holds.induct) auto

lemma unsignalled_zero: "x \<noteq> Enqueued \<Longrightarrow> unsignalled x = 0"
  by (cases x) auto

lemma posts_zero1: "\<forall>n. Posting n \<noteq> x \<Longrightarrow> posts x = 0"
  by (cases x) auto

lemma permits_count: "list_all bq_pc_ok xs \<Longrightarrow> (\<Sum>x \<leftarrow> xs. permits x) = int (length (filter (\<lambda>x. x = Dequeuing) xs))"
proof (induction xs)
  case (Cons x xs)
  then show ?case by (cases x) (auto simp: holds_zero)
qed simp

lemma unsignalled_count: "(\<Sum>x \<leftarrow> xs. unsignalled x) = int (length (filter (\<lambda>x. x = Enqueued) xs))"
  by (induction xs) (auto simp: unsignalled_zero)

lemma posts_zero: "\<forall>n. Posting n \<notin> set xs \<Longrightarrow> (\<Sum>x \<leftarrow> xs. posts x) = 0"
  by (induction xs) (auto simp: posts_zero1)

lemma sum_nonneg: "(\<And>x. 0 \<le> f x) \<Longrightarrow> 0 \<le> (\<Sum>x \<leftarrow> xs. f x :: int)"
  by (induction xs) auto

lemma posts_nonneg: "0 \<le> posts x"
  by (cases x rule: posts.cases) auto

lemma counted_nonneg: "0 \<le> counted x"
proof (cases x)
  case (Waiting t pc)
  then show ?thesis by (cases pc rule: waits.cases) auto
qed auto

lemma blocked_asleep:
  assumes "wait_step weak late timeout pc s = None" and "pc \<noteq> Done b" and "pc \<noteq> Done (\<not> b)"
  shows "pc = Asleep" "m_sema s = 0"
  using assms by (auto simp: wait_step_def split: wait_pc.splits nat.splits if_splits)

lemma sum_member:
  assumes "x \<in> set xs" and "\<And>x. 0 \<le> f x"
  shows "(f x :: int) \<le> (\<Sum>x \<leftarrow> xs. f x)"
  using assms(1) by (induction xs) (use assms(2) sum_nonneg [of f] in \<open>auto simp: add_increasing\<close>)

section \<open>Properties\<close>

text \<open>
  C12: the blocking queue loses nothing and lets no consumer down. In every state that any number of
  producers and consumers can reach, with or without time-outs: the elements that went in are those
  that came out and those inside, each as often; there are at least as many elements inside as consumers
  past the semaphore, so that the loop around \<open>try_dequeue\<close> never runs on an empty queue; and when a
  consumer cannot leave its wait, and no producer is about to wake one, all elements inside belong to
  consumers past the semaphore and to producers before their signal. The size that \<open>size_approx\<close> reports
  is never too large.
\<close>

theorem queue_delivers:
  assumes "bq_reach q"
  shows "bq_in q = inner q + bq_out q \<and> at_count Dequeuing q + at_count Enqueued q \<le> size (inner q) \<and>
    (\<forall>i timeout pc weak late. i < length (bq_threads q) \<and> bq_threads q ! i = Waiting timeout pc \<and> pc \<noteq> Done False \<and>
       bq_wait weak late i timeout pc q = None \<and> (\<forall>n. Posting n \<notin> set (bq_threads q)) \<longrightarrow>
       size (inner q) = at_count Dequeuing q + at_count Enqueued q) \<and>
    size_approx q \<le> size (inner q)"
proof -
  note inv = bq_reach_inv [OF assms]
  have tot: "total permits q = int (at_count Dequeuing q)" "total unsignalled q = int (at_count Enqueued q)"
    using inv permits_count unsignalled_count by (auto simp: bq_inv_def total_def at_count_def)
  have nn: "0 \<le> total posts q" "0 \<le> total counted q"
    unfolding total_def by (auto intro!: sum_nonneg posts_nonneg counted_nonneg)
  have low: "0 \<le> m_count (sema q) + total counted q"
    using inv nn by (auto simp: bq_inv_def owed_def max_def split: if_splits)
  have bal: "m_count (sema q) + total counted q + int (at_count Dequeuing q) + int (at_count Enqueued q) = int (size (inner q))"
    using inv by (simp add: bq_inv_def tot)
  have blocked: "size (inner q) = at_count Dequeuing q + at_count Enqueued q"
    if "i < length (bq_threads q)" "bq_threads q ! i = Waiting timeout pc" "pc \<noteq> Done False" "bq_wait weak late i timeout pc q = None"
      "\<forall>n. Posting n \<notin> set (bq_threads q)" for i timeout pc weak late
  proof -
    have m: "Waiting timeout pc \<in> set (bq_threads q)" using that(1,2) nth_mem by fastforce
    then have "pc \<noteq> Done True" using inv by (auto simp: bq_inv_def list_all_iff)
    then have pc: "pc = Asleep" "m_sema (sema q) = 0"
      using blocked_asleep [of weak late timeout pc "sema q" False] that(3,4) by (auto simp: bq_wait_def Let_def split: option.splits)
    have "1 \<le> total counted q" using sum_member [of _ "bq_threads q" counted, OF m counted_nonneg] pc(1) by (simp add: total_def)
    moreover have "total posts q = 0" using posts_zero [OF that(5)] by (simp add: total_def)
    ultimately have "m_count (sema q) + total counted q = 0"
      using inv pc(2) by (auto simp: bq_inv_def owed_def max_def split: if_splits)
    then show ?thesis using bal by linarith
  qed
  have "size_approx q \<le> size (inner q)" using bal nn by (auto simp: size_approx_def availableApprox_def)
  moreover have "at_count Dequeuing q + at_count Enqueued q \<le> size (inner q)" using bal low by linarith
  ultimately show ?thesis using inv blocked by (auto simp: bq_inv_def)
qed

text \<open>A consumer has gone to sleep, and a producer has put an element in but not yet signalled.\<close>

definition sleeping_queue :: "nat BlockingConcurrentQueue" where
  "sleeping_queue = \<lparr>inner = {#}, sema = \<lparr>m_count = - 1, m_sema = 0, m_maxSpins = 0\<rparr>, bq_threads = [Waiting (- 1) Asleep, Free],
     bq_in = {#}, bq_out = {#}\<rparr>"

lemma sleeping_reached: "bq_reach sleeping_queue"
proof -
  let ?s = "\<lparr>m_count = 0, m_sema = 0, m_maxSpins = 0\<rparr>"
  let ?q = "\<lambda>pc. \<lparr>inner = {#}, sema = ?s, bq_threads = [pc, Free], bq_in = {#}, bq_out = {#}\<rparr> :: nat BlockingConcurrentQueue"
  have "bq_reach (?q Free)"
    by (rule bq_reach.start [of 0 2]) (simp add: newBlockingConcurrentQueue_def newLightweightSemaphore_def numeral_2_eq_2)
  from bq_reach.get [OF this, of 0 "- 1"] have "bq_reach (?q (Waiting (- 1) TryLoad))" by (simp add: at_pc_def)
  from bq_reach.wait [OF this, of 0 "- 1" TryLoad False False "?q (Waiting (- 1) (Spin 0))"] have "bq_reach (?q (Waiting (- 1) (Spin 0)))"
    by (simp add: bq_wait_def wait_step_def tryWait_next_def at_pc_def)
  from bq_reach.wait [OF this, of 0 "- 1" "Spin 0" False False sleeping_queue] show ?thesis
    by (simp add: bq_wait_def wait_step_def take_one_def at_pc_def sleeping_queue_def)
qed

theorem queue_delivers_witness:
  "bq_threads (bq_enqueue 1 7 sleeping_queue) = [Waiting (- 1) Asleep, Enqueued] \<and>
   bq_wait False False 0 (- 1) Asleep (bq_enqueue 1 7 sleeping_queue) = None \<and>
   size (inner (bq_enqueue 1 7 sleeping_queue)) =
     at_count Dequeuing (bq_enqueue 1 7 sleeping_queue) + at_count Enqueued (bq_enqueue 1 7 sleeping_queue)"
proof -
  let ?q = "bq_enqueue 1 7 sleeping_queue"
  have "bq_reach ?q" by (rule bq_reach.put [OF sleeping_reached]) (simp_all add: sleeping_queue_def)
  moreover have t: "bq_threads ?q = [Waiting (- 1) Asleep, Enqueued]" by (simp add: bq_enqueue_def sleeping_queue_def)
  moreover have n: "bq_wait False False 0 (- 1) Asleep ?q = None"
    by (simp add: bq_wait_def wait_step_def bq_enqueue_def sleeping_queue_def)
  moreover have "\<forall>n. Posting n \<notin> set (bq_threads ?q)" unfolding t by simp
  ultimately have "size (inner ?q) = at_count Dequeuing ?q + at_count Enqueued ?q"
    using queue_delivers [of ?q] by (metis bq_pc.distinct length_Cons nth_Cons_0 wait_pc.distinct zero_less_Suc)
  with t n show ?thesis by simp
qed

end
