(* ===== verification/Endian.thy ===== *)
theory Endian
  imports Prelude
begin

unbundle bit_operations_syntax

text \<open>
  \<open>net/Endian.h\<close>: conversion between host and network byte order. The byte order of the host is
  a parameter; an integer in memory is the list of its bytes in host order, and the conversion
  functions reorder them. The lemmas say that what reaches the wire does not depend on the host
  and that the conversions are inverse to each other.
\<close>

section \<open>Byte representations\<close>

datatype host_order = LittleEndian | BigEndian

fun be_bytes :: "nat \<Rightarrow> 'a::len word \<Rightarrow> byte list" where
  "be_bytes 0 w = []"
| "be_bytes (Suc n) w = be_bytes n (drop_bit 8 w) @ [ucast w]"

definition of_be :: "byte list \<Rightarrow> 'a::len word" where
  "of_be bs = foldl (\<lambda>acc b. push_bit 8 acc OR ucast b) 0 bs"

text \<open>The bytes an integer of \<open>n\<close> bytes occupies in memory, lowest address first.\<close>

definition store :: "host_order \<Rightarrow> nat \<Rightarrow> 'a::len word \<Rightarrow> byte list" where
  "store h n w = (case h of BigEndian \<Rightarrow> be_bytes n w | LittleEndian \<Rightarrow> rev (be_bytes n w))"

definition load :: "host_order \<Rightarrow> byte list \<Rightarrow> 'a::len word" where
  "load h bs = (case h of BigEndian \<Rightarrow> of_be bs | LittleEndian \<Rightarrow> of_be (rev bs))"

definition bswap :: "nat \<Rightarrow> 'a::len word \<Rightarrow> 'a word" where
  "bswap n w = of_be (rev (be_bytes n w))"

section \<open>The conversion functions\<close>

definition hostToNetwork64 :: "host_order \<Rightarrow> u64 \<Rightarrow> u64" where
  "hostToNetwork64 h w = (case h of LittleEndian \<Rightarrow> bswap 8 w | BigEndian \<Rightarrow> w)"

definition hostToNetwork32 :: "host_order \<Rightarrow> u32 \<Rightarrow> u32" where
  "hostToNetwork32 h w = (case h of LittleEndian \<Rightarrow> bswap 4 w | BigEndian \<Rightarrow> w)"

definition hostToNetwork16 :: "host_order \<Rightarrow> u16 \<Rightarrow> u16" where
  "hostToNetwork16 h w = (case h of LittleEndian \<Rightarrow> bswap 2 w | BigEndian \<Rightarrow> w)"

definition networkToHost64 :: "host_order \<Rightarrow> u64 \<Rightarrow> u64" where
  "networkToHost64 h w = (case h of LittleEndian \<Rightarrow> bswap 8 w | BigEndian \<Rightarrow> w)"

definition networkToHost32 :: "host_order \<Rightarrow> u32 \<Rightarrow> u32" where
  "networkToHost32 h w = (case h of LittleEndian \<Rightarrow> bswap 4 w | BigEndian \<Rightarrow> w)"

definition networkToHost16 :: "host_order \<Rightarrow> u16 \<Rightarrow> u16" where
  "networkToHost16 h w = (case h of LittleEndian \<Rightarrow> bswap 2 w | BigEndian \<Rightarrow> w)"

lemmas to_network_defs = hostToNetwork64_def hostToNetwork32_def hostToNetwork16_def
lemmas to_host_defs = networkToHost64_def networkToHost32_def networkToHost16_def

section \<open>Lemmas\<close>

lemma length_be_bytes [simp]: "length (be_bytes n w) = n"
  by (induction n arbitrary: w) simp_all

lemma length_store [simp]: "length (store h n w) = n"
  by (simp add: store_def split: host_order.split)

lemma of_be_Nil [simp]: "of_be [] = 0"
  by (simp add: of_be_def)

lemma of_be_snoc: "of_be (bs @ [b]) = push_bit 8 (of_be bs) OR ucast b"
  by (simp add: of_be_def)

lemma of_be_be_bytes: "of_be (be_bytes n w) = take_bit (8 * n) (w :: 'a::len word)"
proof (induction n arbitrary: w)
  case (Suc n)
  have "push_bit 8 (take_bit (8 * n) (drop_bit 8 w)) OR ucast (ucast w :: byte)
      = take_bit (8 * Suc n) w"
  proof (rule bit_eqI)
    fix m assume "possible_bit TYPE('a word) m"
    show "bit (push_bit 8 (take_bit (8 * n) (drop_bit 8 w)) OR ucast (ucast w :: byte)) m
        = bit (take_bit (8 * Suc n) w) m"
      by (cases "m < 8") (auto simp: bit_simps dest: bit_imp_le_length)
  qed
  then show ?case by (simp add: of_be_snoc Suc.IH)
qed simp

lemma of_be_be_bytes_exact [simp]:
  "LENGTH('a) = 8 * n \<Longrightarrow> of_be (be_bytes n w) = (w :: 'a::len word)"
  by (metis of_be_be_bytes take_bit_length_eq)

lemma bit_of_be_bound: "bit (of_be bs :: 'a::len word) m \<Longrightarrow> m < 8 * length bs"
proof (induction bs arbitrary: m rule: rev_induct)
  case (snoc b bs)
  then show ?case
    by (fastforce simp: of_be_snoc bit_simps dest: bit_imp_le_length)
qed simp

lemma be_bytes_of_be:
  "8 * length bs \<le> LENGTH('a) \<Longrightarrow> be_bytes (length bs) (of_be bs :: 'a::len word) = bs"
proof (induction bs rule: rev_induct)
  case (snoc b bs)
  have drop: "drop_bit 8 (of_be (bs @ [b]) :: 'a word) = of_be bs"
  proof (rule bit_eqI)
    fix m assume "possible_bit TYPE('a word) m"
    show "bit (drop_bit 8 (of_be (bs @ [b]) :: 'a word)) m = bit (of_be bs :: 'a word) m"
      using snoc.prems bit_of_be_bound [of bs m, where 'a = 'a]
      by (auto simp: of_be_snoc bit_simps dest: bit_imp_le_length)
  qed
  have low: "ucast (of_be (bs @ [b]) :: 'a word) = b"
  proof (rule bit_eqI)
    fix m assume "possible_bit TYPE(8 word) m"
    then show "bit (ucast (of_be (bs @ [b]) :: 'a word) :: byte) m = bit b m"
      using snoc.prems by (auto simp: of_be_snoc bit_simps)
  qed
  show ?case using snoc by (simp add: drop low)
qed simp

lemma load_store [simp]: "LENGTH('a) = 8 * n \<Longrightarrow> load h (store h n w) = (w :: 'a::len word)"
  by (cases h) (simp_all add: load_def store_def)

lemma bswap_bytes:
  assumes "LENGTH('a::len) = 8 * n"
  shows "be_bytes n (bswap n (w :: 'a word)) = rev (be_bytes n w)"
  using assms be_bytes_of_be [of "rev (be_bytes n w)", where 'a = 'a] by (simp add: bswap_def)

lemma bswap_bswap: "LENGTH('a::len) = 8 * n \<Longrightarrow> bswap n (bswap n (w :: 'a word)) = w"
  by (simp add: bswap_def [of n "bswap n w"] bswap_bytes)

lemma store_hostToNetwork32: "store h 4 (hostToNetwork32 h w) = be_bytes 4 w"
  by (cases h) (simp_all add: store_def hostToNetwork32_def bswap_bytes)

lemma store_hostToNetwork16: "store h 2 (hostToNetwork16 h w) = be_bytes 2 w"
  by (cases h) (simp_all add: store_def hostToNetwork16_def bswap_bytes)

lemma networkToHost_inverse:
  "networkToHost16 h (hostToNetwork16 h w16) = w16"
  "networkToHost32 h (hostToNetwork32 h w32) = w32"
  "networkToHost64 h (hostToNetwork64 h w64) = w64"
  by (cases h; simp add: to_network_defs to_host_defs bswap_bswap)+

lemma networkToHost32_load: "networkToHost32 h (load h (be_bytes 4 w)) = w"
  by (cases h) (simp_all add: load_def networkToHost32_def bswap_def [symmetric] bswap_bswap)

text \<open>
  What the conversions put on the wire. For every width the bytes that \<open>hostToNetwork\<close>
  leaves in memory are the big-endian representation, whatever the byte order of the host, and
  \<open>networkToHost\<close> of those bytes loaded back is the original value.
\<close>

theorem network_order_roundtrip:
  "store h 2 (hostToNetwork16 h a) = be_bytes 2 a \<and>
   store h 4 (hostToNetwork32 h b) = be_bytes 4 b \<and>
   store h 8 (hostToNetwork64 h c) = be_bytes 8 c \<and>
   networkToHost16 h' (load h' (store h 2 (hostToNetwork16 h a))) = a \<and>
   networkToHost32 h' (load h' (store h 4 (hostToNetwork32 h b))) = b \<and>
   networkToHost64 h' (load h' (store h 8 (hostToNetwork64 h c))) = c"
  by (intro conjI; cases h; cases h'; simp add: store_def load_def to_network_defs to_host_defs
      bswap_bytes bswap_def [symmetric] bswap_bswap)

end
