(* ===== verification/Buffer.thy ===== *)
theory Buffer
  imports Endian
begin

text \<open>
  \<open>net/Buffer.h\<close> and \<open>net/Buffer.cpp\<close>: the byte buffer every connection reads into and writes
  from. The state is the vector and the two indices, every member function is one definition,
  the assertions of the code are branches that abort, and \<open>size_t\<close> and \<open>int\<close> arithmetic is the
  machine's. The abstract view of a buffer is the list of its readable bytes; the interface
  locale \<open>byte_fifo\<close> states what clients rely on and is interpreted on the model.
\<close>

section \<open>State\<close>

definition kCheapPrepend :: nat where "kCheapPrepend = 8"
definition kInitialSize :: nat where "kInitialSize = 4096"
definition kExtraBufferSize :: nat where "kExtraBufferSize = 20480"

record Buffer =
  m_buffer :: "byte list"
  m_readerIndex :: nat
  m_writerIndex :: nat

section \<open>Operations\<close>

definition readableBytes :: "Buffer \<Rightarrow> nat" where
  "readableBytes b = size_sub (m_writerIndex b) (m_readerIndex b)"

definition writableBytes :: "Buffer \<Rightarrow> nat" where
  "writableBytes b = size_sub (length (m_buffer b)) (m_writerIndex b)"

definition prependableBytes :: "Buffer \<Rightarrow> nat" where
  "prependableBytes b = m_readerIndex b"

definition newBuffer :: "nat \<Rightarrow> Buffer res" where
  "newBuffer initialSize =
     bindE (vec_resize (size_add kCheapPrepend initialSize) 0 []) (\<lambda>v.
     let b = \<lparr>m_buffer = v, m_readerIndex = kCheapPrepend, m_writerIndex = kCheapPrepend\<rparr> in
     assertE (readableBytes b = 0)
     (assertE (writableBytes b = initialSize)
     (assertE (prependableBytes b = kCheapPrepend) (Inr b))))"

text \<open>\<open>peek\<close> and \<open>beginWrite\<close> are pointers into the storage: offsets from its start.\<close>

definition peek :: "Buffer \<Rightarrow> nat" where
  "peek b = m_readerIndex b"

definition beginWrite :: "Buffer \<Rightarrow> nat" where
  "beginWrite b = m_writerIndex b"

definition hasWritten :: "nat \<Rightarrow> Buffer \<Rightarrow> Buffer res" where
  "hasWritten len b =
     assertE (len \<le> writableBytes b)
       (Inr (b\<lparr>m_writerIndex := size_add (m_writerIndex b) len\<rparr>))"

definition unwrite :: "nat \<Rightarrow> Buffer \<Rightarrow> Buffer res" where
  "unwrite len b =
     assertE (len \<le> readableBytes b)
       (Inr (b\<lparr>m_writerIndex := size_sub (m_writerIndex b) len\<rparr>))"

definition retrieveAll :: "Buffer \<Rightarrow> Buffer" where
  "retrieveAll b = b\<lparr>m_readerIndex := kCheapPrepend, m_writerIndex := kCheapPrepend\<rparr>"

definition retrieve :: "nat \<Rightarrow> Buffer \<Rightarrow> Buffer res" where
  "retrieve len b =
     assertE (len \<le> readableBytes b)
       (if len < readableBytes b
        then Inr (b\<lparr>m_readerIndex := size_add (m_readerIndex b) len\<rparr>)
        else Inr (retrieveAll b))"

definition retrieveAsString :: "nat \<Rightarrow> Buffer \<Rightarrow> (byte list \<times> Buffer) res" where
  "retrieveAsString len b =
     assertE (len \<le> readableBytes b)
       (bindE (vec_read (peek b) len (m_buffer b)) (\<lambda>result.
        bindE (retrieve len b) (\<lambda>b'. Inr (result, b'))))"

definition retrieveAllAsString :: "Buffer \<Rightarrow> (byte list \<times> Buffer) res" where
  "retrieveAllAsString b = retrieveAsString (readableBytes b) b"

text \<open>The parameter of \<open>makeSpace\<close> is an \<open>int\<close>; using it with a \<open>size_t\<close> converts it back.\<close>

definition makeSpace :: "int \<Rightarrow> Buffer \<Rightarrow> Buffer res" where
  "makeSpace len b =
     (if size_add (writableBytes b) (prependableBytes b)
           < size_add (size_of_int len) kCheapPrepend
      then bindE (vec_resize (size_add (m_writerIndex b) (size_of_int len)) 0 (m_buffer b))
             (\<lambda>v. Inr (b\<lparr>m_buffer := v\<rparr>))
      else assertE (kCheapPrepend < m_readerIndex b)
        (let readable = readableBytes b in
         bindE (vec_read (m_readerIndex b) readable (m_buffer b)) (\<lambda>xs.
         bindE (vec_write kCheapPrepend xs (m_buffer b)) (\<lambda>v.
         let b' = b\<lparr>m_buffer := v, m_readerIndex := kCheapPrepend,
                    m_writerIndex := size_add kCheapPrepend readable\<rparr> in
         assertE (readable = readableBytes b') (Inr b')))))"

definition Buffer_append :: "byte list \<Rightarrow> Buffer \<Rightarrow> Buffer res" where
  "Buffer_append data b =
     (let len = length data in
      bindE (if writableBytes b < len then makeSpace (wrap_int32 (int len)) b else Inr b) (\<lambda>b1.
      assertE (len \<le> writableBytes b1)
        (bindE (vec_write (beginWrite b1) data (m_buffer b1)) (\<lambda>v.
         hasWritten len (b1\<lparr>m_buffer := v\<rparr>)))))"

definition prepend :: "byte list \<Rightarrow> Buffer \<Rightarrow> Buffer res" where
  "prepend data b =
     assertE (length data \<le> prependableBytes b)
       (let r = size_sub (m_readerIndex b) (length data) in
        bindE (vec_write r data (m_buffer b)) (\<lambda>v.
        Inr (b\<lparr>m_buffer := v, m_readerIndex := r\<rparr>)))"

text \<open>
  \<open>readFd\<close>. The system call \<open>readv\<close> is a parameter: given the lengths of the two I/O vectors it
  returns an error number or the bytes it delivered, which fill the vectors in order. The result
  is the buffer, the value returned and the saved error number.
\<close>

definition readFd ::
  "(nat list \<Rightarrow> errno + byte list) \<Rightarrow> Buffer \<Rightarrow> (Buffer \<times> int \<times> errno option) res" where
  "readFd readv b =
     (let writable = writableBytes b;
          iov = (if writable < kExtraBufferSize then [writable, kExtraBufferSize] else [writable])
      in case readv iov of
           Inl err \<Rightarrow> Inr (b, - 1, Some err)
         | Inr data \<Rightarrow>
             let n = length data in
             bindE (vec_write (m_writerIndex b) (take writable data) (m_buffer b)) (\<lambda>v.
             let b1 = b\<lparr>m_buffer := v\<rparr>; extrabuf = drop writable data in
             if n \<le> writable
             then Inr (b1\<lparr>m_writerIndex := size_add (m_writerIndex b1) n\<rparr>, int n, None)
             else bindE (Buffer_append extrabuf (b1\<lparr>m_writerIndex := length (m_buffer b1)\<rparr>)) (\<lambda>b2.
                  Inr (b2, int n, None))))"

definition peekInt32 :: "host_order \<Rightarrow> Buffer \<Rightarrow> int res" where
  "peekInt32 h b =
     assertE (4 \<le> readableBytes b)
       (bindE (vec_read (peek b) 4 (m_buffer b)) (\<lambda>bs.
        Inr (sint (networkToHost32 h (load h bs)))))"

section \<open>Invariant and abstraction\<close>

text \<open>
  The picture in \<open>Buffer.h\<close>: \<open>0 <= readerIndex <= writerIndex <= size\<close>. The size of a vector of
  bytes is below \<open>2 ^ 63\<close>.
\<close>

definition buffer_inv :: "Buffer \<Rightarrow> bool" where
  "buffer_inv b \<longleftrightarrow> m_readerIndex b \<le> m_writerIndex b \<and> m_writerIndex b \<le> length (m_buffer b) \<and>
     kCheapPrepend \<le> length (m_buffer b) \<and> length (m_buffer b) < 2 ^ 63"

definition content :: "Buffer \<Rightarrow> byte list" where
  "content b = take (m_writerIndex b - m_readerIndex b) (drop (m_readerIndex b) (m_buffer b))"

text \<open>The bytes an append may still take: the length must fit the \<open>int\<close> of \<open>makeSpace\<close>.\<close>

definition fits :: "Buffer \<Rightarrow> nat \<Rightarrow> bool" where
  "fits b n \<longleftrightarrow> n < 2 ^ 31 \<and> length (m_buffer b) + n < 2 ^ 63"

text \<open>What \<open>readv\<close> promises: no more bytes than the vectors hold.\<close>

definition readv_ok :: "(nat list \<Rightarrow> errno + byte list) \<Rightarrow> bool" where
  "readv_ok readv \<longleftrightarrow> (\<forall>iov data. readv iov = Inr data \<longrightarrow> length data \<le> sum_list iov)"

declare buffer_inv_def [inv_defs]

lemmas const_defs = kCheapPrepend_def kInitialSize_def kExtraBufferSize_def


section \<open>The layout of a buffer\<close>

text \<open>
  \<open>layout b pre c post\<close>: the storage is the prependable bytes \<open>pre\<close>, the readable bytes \<open>c\<close>
  and the writable bytes \<open>post\<close>. Proofs about an operation are list algebra on the layout.
\<close>

definition layout :: "Buffer \<Rightarrow> byte list \<Rightarrow> byte list \<Rightarrow> byte list \<Rightarrow> bool" where
  "layout b pre c post \<longleftrightarrow> m_buffer b = pre @ c @ post \<and> m_readerIndex b = length pre \<and>
     m_writerIndex b = length pre + length c \<and>
     8 \<le> length pre + length c + length post \<and> length pre + length c + length post < 2 ^ 63"

lemma layout_content: "layout b pre c post \<Longrightarrow> content b = c"
  by (simp add: layout_def content_def)

lemma layout_inv: "layout b pre c post \<Longrightarrow> buffer_inv b"
  by (simp add: layout_def buffer_inv_def kCheapPrepend_def)

lemma buffer_layout:
  assumes "buffer_inv b"
  obtains pre post where "layout b pre (content b) post"
proof
  let ?r = "m_readerIndex b" and ?w = "m_writerIndex b"
  have "m_buffer b = take ?r (m_buffer b) @ take (?w - ?r) (drop ?r (m_buffer b)) @ drop ?w (m_buffer b)"
    using assms unfolding buffer_inv_def
    by (metis append_take_drop_id drop_drop le_add_diff_inverse2)
  then show "layout b (take ?r (m_buffer b)) (content b) (drop ?w (m_buffer b))"
    using assms by (auto simp: layout_def content_def buffer_inv_def kCheapPrepend_def min_def)
qed

lemma layout_sizes [conv_simps]:
  assumes "layout b pre c post"
  shows "readableBytes b = length c" "writableBytes b = length post"
    "prependableBytes b = length pre"
  using assms
  by (simp_all add: layout_def readableBytes_def writableBytes_def prependableBytes_def size_sub_exact)

lemma length_content: "buffer_inv b \<Longrightarrow> length (content b) = readableBytes b"
  by (metis buffer_layout layout_sizes(1))

lemma content_retrieveAll [simp]: "content (retrieveAll b) = []"
  by (simp add: content_def retrieveAll_def)

lemma retrieveAll_inv: "buffer_inv b \<Longrightarrow> buffer_inv (retrieveAll b)"
  by (auto simp: buffer_inv_def retrieveAll_def)

section \<open>Each operation on the layout\<close>

lemma newBuffer_ok:
  assumes "n < 2 ^ 62"
  shows "runs (\<lambda>b. layout b (replicate 8 0) [] (replicate n 0)) (newBuffer n)"
  using assms
  by (simp add: newBuffer_def runs_simps size_add_exact const_defs readableBytes_def
      writableBytes_def size_sub_exact prependableBytes_def layout_def replicate_add [symmetric])

lemma hasWritten_layout:
  assumes "layout b pre c (d @ post)"
  shows "runs (\<lambda>b'. layout b' pre (c @ d) post) (hasWritten (length d) b)"
  using assms layout_sizes [OF assms]
  by (simp add: hasWritten_def runs_simps layout_def size_add_exact)

lemma unwrite_layout:
  assumes "layout b pre (c @ d) post"
  shows "runs (\<lambda>b'. layout b' pre c (d @ post)) (unwrite (length d) b)"
  using assms layout_sizes [OF assms]
  by (simp add: unwrite_def runs_simps layout_def size_sub_exact)

lemma retrieve_layout:
  assumes "layout b pre (d @ c) post"
  shows "runs (\<lambda>b'. m_buffer b' = m_buffer b \<and>
      (if c = [] then b' = retrieveAll b else layout b' (pre @ d) c post))
    (retrieve (length d) b)"
  using assms layout_sizes [OF assms]
  by (auto simp: retrieve_def runs_simps layout_def size_add_exact retrieveAll_def)

lemma vec_read_layout:
  "layout b pre (d @ c) post \<Longrightarrow> vec_read (peek b) (length d) (m_buffer b) = Inr d"
  by (simp add: vec_read_def peek_def layout_def)

lemma prepend_layout:
  assumes "layout b (pre @ d) c post" and "length e = length d"
  shows "runs (\<lambda>b'. layout b' pre (e @ c) post) (prepend e b)"
  using assms layout_sizes [OF assms(1)]
  by (simp add: prepend_def runs_simps layout_def size_sub_exact Let_def)

lemma layout_facts:
  assumes "layout b pre c post"
  shows "buffer_inv b" "content b = c" "m_readerIndex b = length pre"
    "length (m_buffer b) = length pre + length c + length post"
  using assms by (simp_all add: layout_inv layout_content) (simp_all add: layout_def)

text \<open>
  \<open>makeSpace\<close> has two ways to make room: grow the vector, or move the readable bytes to the
  front. Both keep the content.
\<close>

lemma makeSpace_grow:
  assumes L: "layout b pre c post" and "length pre + length post < n + 8" and "length post < n"
    and "n < 2 ^ 31" and "length pre + length c + n < 2 ^ 63"
  shows "runs (\<lambda>b'. layout b' pre c (post @ replicate (n - length post) 0)) (makeSpace (int n) b)"
  using assms layout_sizes [OF L]
  by (simp add: makeSpace_def runs_simps layout_def size_add_exact size_of_int_exact
      kCheapPrepend_def)

lemma makeSpace_move:
  assumes L: "layout b pre c post" and "n + 8 \<le> length pre + length post" and "length post < n"
    and "n < 2 ^ 31"
  shows "runs (\<lambda>b'. layout b' (take 8 pre) c (drop (8 + length c) (m_buffer b)))
    (makeSpace (int n) b)"
proof -
  define post' where "post' = drop (8 + length c) (m_buffer b)"
  have pre: "8 < length pre" using assms by simp
  have post': "length post' = length pre + length post - 8" "take 8 (m_buffer b) = take 8 pre"
    using L pre by (simp_all add: post'_def layout_def)
  let ?b = "b\<lparr>m_buffer := take 8 pre @ c @ post', m_readerIndex := 8, m_writerIndex := 8 + length c\<rparr>"
  have L': "layout ?b (take 8 pre) c post'"
    using L pre post' by (simp add: layout_def)
  have "vec_read (m_readerIndex b) (readableBytes b) (m_buffer b) = Inr c"
    using vec_read_layout [of b pre c "[]" post] layout_sizes [OF L] L by (simp add: peek_def)
  moreover have "vec_write 8 c (m_buffer b) = Inr (take 8 pre @ c @ post')"
    using L pre post' by (simp add: vec_write_def post'_def layout_def)
  ultimately have "makeSpace (int n) b = Inr ?b"
    using assms layout_sizes [OF L] layout_sizes [OF L'] pre
    by (simp add: makeSpace_def Let_def size_add_exact size_of_int_exact kCheapPrepend_def layout_def)
  then show ?thesis using L' by (simp add: post'_def)
qed

lemma makeSpace_ok:
  assumes "buffer_inv b" and "writableBytes b < n" and "fits b n"
  shows "runs (\<lambda>b'. buffer_inv b' \<and> content b' = content b \<and> n \<le> writableBytes b' \<and>
      min 8 (m_readerIndex b) \<le> m_readerIndex b' \<and> length (m_buffer b') \<le> length (m_buffer b) + n)
    (makeSpace (int n) b)"
proof -
  from assms(1) obtain pre post where L: "layout b pre (content b) post" by (rule buffer_layout)
  note S = layout_sizes [OF L] layout_facts [OF L]
  have n: "length post < n" "n < 2 ^ 31" "length pre + length (content b) + n < 2 ^ 63"
    using assms S by (simp_all add: fits_def)
  show ?thesis
  proof (cases "length pre + length post < n + 8")
    case True
    show ?thesis
      using n S(7) by (intro runs_mono [OF makeSpace_grow [OF L True n]])
        (auto simp: layout_facts layout_sizes S(6))
  next
    case False
    show ?thesis
      using n S False by (intro runs_mono [OF makeSpace_move [OF L]])
        (auto simp: layout_facts layout_sizes)
  qed
qed

lemma copy_in:
  assumes "buffer_inv b" and "length d \<le> writableBytes b"
  shows "runs (\<lambda>b'. buffer_inv b' \<and> content b' = content b @ d \<and>
      m_readerIndex b' = m_readerIndex b \<and> length (m_buffer b') = length (m_buffer b))
    (assertE (length d \<le> writableBytes b)
      (bindE (vec_write (beginWrite b) d (m_buffer b)) (\<lambda>v.
       hasWritten (length d) (b\<lparr>m_buffer := v\<rparr>))))"
proof -
  from assms(1) obtain pre post where L: "layout b pre (content b) post" by (rule buffer_layout)
  let ?post = "drop (length d) post"
  let ?b = "b\<lparr>m_buffer := pre @ content b @ d @ ?post\<rparr>"
  have L': "layout ?b pre (content b) (d @ ?post)"
    using L assms layout_sizes [OF L] by (simp add: layout_def)
  have "vec_write (beginWrite b) d (m_buffer b) = Inr (pre @ content b @ d @ ?post)"
    using L assms(2) layout_sizes [OF L] by (simp add: vec_write_def beginWrite_def layout_def)
  then show ?thesis
    using assms(2) layout_facts [OF L] layout_sizes [OF L]
    by (auto intro!: runs_mono [OF hasWritten_layout [OF L']] simp: layout_facts)
qed

text \<open>
  An append makes room when it has to and then copies. Under \<open>fits\<close> no assertion fails and no
  write leaves the storage.
\<close>

lemma Buffer_append_ok:
  assumes "buffer_inv b" and "fits b (length d)"
  shows "runs (\<lambda>b'. buffer_inv b' \<and> content b' = content b @ d \<and>
      min 8 (m_readerIndex b) \<le> m_readerIndex b' \<and>
      length (m_buffer b') \<le> length (m_buffer b) + length d) (Buffer_append d b)"
proof (cases "writableBytes b < length d")
  case True
  have "runs (\<lambda>b'. runs (\<lambda>b'. buffer_inv b' \<and> content b' = content b @ d \<and>
      min 8 (m_readerIndex b) \<le> m_readerIndex b' \<and>
      length (m_buffer b') \<le> length (m_buffer b) + length d)
     (assertE (length d \<le> writableBytes b')
      (bindE (vec_write (beginWrite b') d (m_buffer b')) (\<lambda>v.
       hasWritten (length d) (b'\<lparr>m_buffer := v\<rparr>))))) (makeSpace (int (length d)) b)"
    by (rule runs_mono [OF makeSpace_ok [OF assms(1) True assms(2)]], rule runs_mono [OF copy_in])
      auto
  with True assms(2) show ?thesis
    by (simp add: Buffer_append_def Let_def runs_bindE fits_def wrap_int32_exact)
next
  case False
  then show ?thesis
    using runs_mono [OF copy_in [OF assms(1)]] by (simp add: Buffer_append_def Let_def)
qed

lemma prepend_ok:
  assumes "buffer_inv b" and "length d \<le> prependableBytes b"
  shows "runs (\<lambda>b'. buffer_inv b' \<and> content b' = d @ content b \<and>
      m_readerIndex b' = m_readerIndex b - length d \<and> length (m_buffer b') = length (m_buffer b))
    (prepend d b)"
proof -
  from assms(1) obtain pre post where L: "layout b pre (content b) post" by (rule buffer_layout)
  let ?k = "length pre - length d"
  have "layout b (take ?k pre @ drop ?k pre) (content b) post" "length d = length (drop ?k pre)"
    using L assms(2) layout_sizes [OF L] by simp_all
  from runs_mono [OF prepend_layout [OF this]] show ?thesis
    using layout_facts [OF L] assms(2) layout_sizes [OF L] by (auto simp: layout_facts)
qed

lemma retrieve_ok:
  assumes "buffer_inv b" and "len \<le> length (content b)"
  shows "runs (\<lambda>b'. buffer_inv b' \<and> content b' = drop len (content b) \<and>
      min 8 (m_readerIndex b) \<le> m_readerIndex b' \<and> m_buffer b' = m_buffer b) (retrieve len b)"
proof -
  from assms(1) obtain pre post where L: "layout b pre (content b) post" by (rule buffer_layout)
  have L': "layout b pre (take len (content b) @ drop len (content b)) post" using L by simp
  have len: "length (take len (content b)) = len" using assms(2) by simp
  show ?thesis
  proof (rule runs_mono [OF retrieve_layout [OF L', unfolded len]])
    fix b' assume b': "m_buffer b' = m_buffer b \<and> (if drop len (content b) = [] then b' = retrieveAll b
      else layout b' (pre @ take len (content b)) (drop len (content b)) post)"
    show "buffer_inv b' \<and> content b' = drop len (content b) \<and>
      min 8 (m_readerIndex b) \<le> m_readerIndex b' \<and> m_buffer b' = m_buffer b"
    proof (cases "drop len (content b) = []")
      case True
      with b' have "b' = retrieveAll b" by simp
      moreover have "min 8 (m_readerIndex b) \<le> m_readerIndex (retrieveAll b)"
        by (simp add: retrieveAll_def kCheapPrepend_def)
      ultimately show ?thesis
        using True assms(1) b' by (auto simp: retrieveAll_inv)
    next
      case False
      then show ?thesis using b' layout_facts [of b'] layout_facts(3) [OF L] by fastforce
    qed
  qed
qed

lemma retrieveAsString_ok:
  assumes "buffer_inv b" and "len \<le> length (content b)"
  shows "runs (\<lambda>(s, b'). s = take len (content b) \<and> buffer_inv b' \<and>
      content b' = drop len (content b)) (retrieveAsString len b)"
proof -
  from assms(1) obtain pre post where L: "layout b pre (content b) post" by (rule buffer_layout)
  have "vec_read (peek b) len (m_buffer b) = Inr (take len (content b))"
    using vec_read_layout [of b pre "take len (content b)" "drop len (content b)" post] L assms(2)
    by simp
  then show ?thesis
    using assms runs_mono [OF retrieve_ok [OF assms]]
    by (simp add: retrieveAsString_def runs_simps length_content)
qed

lemma unwrite_ok:
  assumes "buffer_inv b" and "len \<le> length (content b)"
  shows "runs (\<lambda>b'. buffer_inv b' \<and> content b' = take (length (content b) - len) (content b))
    (unwrite len b)"
proof -
  let ?k = "length (content b) - len"
  from assms(1) obtain pre post where L: "layout b pre (content b) post" by (rule buffer_layout)
  then have "layout b pre (take ?k (content b) @ drop ?k (content b)) post" by simp
  from runs_mono [OF unwrite_layout [OF this]] show ?thesis
    using assms(2) by (simp add: layout_facts)
qed

lemma peekInt32_ok:
  assumes "buffer_inv b" and "content b = be_bytes 4 (w :: u32) @ rest"
  shows "peekInt32 h b = Inr (sint w)"
proof -
  from assms(1) obtain pre post where L: "layout b pre (content b) post" by (rule buffer_layout)
  have "vec_read (peek b) 4 (m_buffer b) = Inr (be_bytes 4 w)"
    using vec_read_layout [of b pre "be_bytes 4 w" rest post] L assms(2) by simp
  moreover have "4 \<le> readableBytes b"
    using length_content [OF assms(1)] assms(2) by simp
  ultimately show ?thesis by (simp add: peekInt32_def networkToHost32_load)
qed

lemma readFd_ok:
  assumes "buffer_inv b" and "length (m_buffer b) + kExtraBufferSize < 2 ^ 63"
    and "readv_ok readv"
    and iov: "iov = (if writableBytes b < kExtraBufferSize then [writableBytes b, kExtraBufferSize]
                else [writableBytes b])"
  shows "runs (\<lambda>(b', n, err). case readv iov of
      Inl e \<Rightarrow> b' = b \<and> n = - 1 \<and> err = Some e
    | Inr data \<Rightarrow> buffer_inv b' \<and> content b' = content b @ data \<and> n = int (length data) \<and> err = None)
    (readFd readv b)"
proof (cases "readv iov")
  case (Inl e)
  then show ?thesis by (simp add: readFd_def iov [symmetric] Let_def)
next
  case (Inr data)
  let ?w = "writableBytes b"
  have max: "length data \<le> ?w + kExtraBufferSize" "?w \<ge> kExtraBufferSize \<longrightarrow> length data \<le> ?w"
    using assms(3) Inr by (force simp: readv_ok_def iov split: if_splits)+
  from assms(1) obtain pre post where L: "layout b pre (content b) post" by (rule buffer_layout)
  note S = layout_sizes [OF L] layout_facts [OF L]
  let ?d = "take ?w data"
  define b1 where "b1 = b\<lparr>m_buffer := pre @ content b @ ?d @ drop (length ?d) post\<rparr>"
  have L1: "layout b1 pre (content b) (?d @ drop (length ?d) post)"
    using L S by (simp add: layout_def b1_def)
  have W: "vec_write (m_writerIndex b) ?d (m_buffer b) = Inr (m_buffer b1)"
    using L S by (simp add: vec_write_def layout_def b1_def)
  have b1: "b\<lparr>m_buffer := m_buffer b1\<rparr> = b1" by (simp add: b1_def)
  show ?thesis
  proof (cases "length data \<le> ?w")
    case True
    with L1 have "layout (b1\<lparr>m_writerIndex := size_add (m_writerIndex b1) (length data)\<rparr>) pre
        (content b @ data) (drop (length data) post)"
      using S by (simp add: layout_def size_add_exact)
    with True Inr W b1 show ?thesis
      by (simp add: readFd_def iov [symmetric] Let_def layout_facts)
  next
    case False
    let ?b2 = "b1\<lparr>m_writerIndex := length (m_buffer b1)\<rparr>"
    have "layout ?b2 pre (content b @ ?d) []" using L1 S False by (simp add: layout_def)
    then have 2: "buffer_inv ?b2" "content ?b2 = content b @ ?d"
      by (simp_all add: layout_facts)
    have "fits ?b2 (length (drop ?w data))"
      using max assms(2) False L1 S by (auto simp: fits_def kExtraBufferSize_def layout_def)
    from runs_mono [OF Buffer_append_ok [OF 2(1) this]] show ?thesis
      using False Inr W b1 2
      by (simp add: readFd_def iov [symmetric] Let_def runs_bindE)
  qed
qed

section \<open>The interface clients rely on\<close>

text \<open>
  A byte queue with head room: \<open>push\<close> adds at the end, \<open>pop\<close> removes from the front, \<open>unshift\<close>
  puts a header in front. \<open>room\<close> is the head room and \<open>cap\<close> bounds the storage.
\<close>

locale byte_fifo =
  fixes inv :: "'b \<Rightarrow> bool" and bytes :: "'b \<Rightarrow> byte list"
    and room :: "'b \<Rightarrow> nat" and cap :: "'b \<Rightarrow> nat"
    and push :: "byte list \<Rightarrow> 'b \<Rightarrow> 'b res"
    and unshift :: "byte list \<Rightarrow> 'b \<Rightarrow> 'b res"
    and pop :: "nat \<Rightarrow> 'b \<Rightarrow> 'b res"
  assumes push_law: "inv b \<Longrightarrow> length d < 2 ^ 31 \<Longrightarrow> cap b + length d < 2 ^ 63 \<Longrightarrow>
      runs (\<lambda>b'. inv b' \<and> bytes b' = bytes b @ d \<and> min 8 (room b) \<le> room b' \<and>
        cap b' \<le> cap b + length d) (push d b)"
    and unshift_law: "inv b \<Longrightarrow> length d \<le> room b \<Longrightarrow>
      runs (\<lambda>b'. inv b' \<and> bytes b' = d @ bytes b \<and> room b' = room b - length d \<and> cap b' = cap b)
        (unshift d b)"
    and pop_law: "inv b \<Longrightarrow> n \<le> length (bytes b) \<Longrightarrow>
      runs (\<lambda>b'. inv b' \<and> bytes b' = drop n (bytes b) \<and> min 8 (room b) \<le> room b' \<and> cap b' = cap b)
        (pop n b)"
begin

lemma push_all:
  assumes "inv b" and "\<forall>d \<in> set ds. length d < 2 ^ 31" and "cap b + length (concat ds) < 2 ^ 63"
  shows "runs (\<lambda>b'. inv b' \<and> bytes b' = bytes b @ concat ds \<and> min 8 (room b) \<le> room b' \<and>
    cap b' \<le> cap b + length (concat ds)) (foldE push ds b)"
  using assms
proof (induction ds arbitrary: b)
  case (Cons d ds)
  have "runs (\<lambda>b'. inv b' \<and> bytes b' = bytes b @ d \<and> min 8 (room b) \<le> room b' \<and>
      cap b' \<le> cap b + length d) (push d b)"
    using Cons.prems by (intro push_law) auto
  then show ?case
    unfolding foldE.simps runs_bindE
  proof (rule runs_mono)
    fix b' assume b': "inv b' \<and> bytes b' = bytes b @ d \<and> min 8 (room b) \<le> room b' \<and>
      cap b' \<le> cap b + length d"
    show "runs (\<lambda>b'. inv b' \<and> bytes b' = bytes b @ concat (d # ds) \<and> min 8 (room b) \<le> room b' \<and>
        cap b' \<le> cap b + length (concat (d # ds))) (foldE push ds b')"
      using Cons.prems b' by (intro runs_mono [OF Cons.IH]) auto
  qed
qed simp

text \<open>First in, first out: what is popped after any pushes is a prefix of what was there and what came.\<close>

lemma push_all_pop:
  assumes "inv b" and "\<forall>d \<in> set ds. length d < 2 ^ 31" and "cap b + length (concat ds) < 2 ^ 63"
    and "n \<le> length (bytes b @ concat ds)"
  shows "runs (\<lambda>b'. inv b' \<and> bytes b' = drop n (bytes b @ concat ds))
    (bindE (foldE push ds b) (pop n))"
  unfolding runs_bindE
proof (rule runs_mono [OF push_all [OF assms(1-3)]])
  fix b' assume "inv b' \<and> bytes b' = bytes b @ concat ds \<and> min 8 (room b) \<le> room b' \<and>
    cap b' \<le> cap b + length (concat ds)"
  then show "runs (\<lambda>b'. inv b' \<and> bytes b' = drop n (bytes b @ concat ds)) (pop n b')"
    using assms(4) by (intro runs_mono [OF pop_law]) auto
qed

text \<open>A payload pushed behind what is there, and a header put in front of it.\<close>

lemma push_unshift:
  assumes "inv b" and "length d < 2 ^ 31" and "cap b + length d < 2 ^ 63"
    and "length h \<le> min 8 (room b)"
  shows "runs (\<lambda>b'. inv b' \<and> bytes b' = h @ bytes b @ d \<and> cap b' \<le> cap b + length d)
    (bindE (push d b) (unshift h))"
  unfolding runs_bindE
proof (rule runs_mono [OF push_law [OF assms(1-3)]])
  fix b' assume "inv b' \<and> bytes b' = bytes b @ d \<and> min 8 (room b) \<le> room b' \<and>
    cap b' \<le> cap b + length d"
  then show "runs (\<lambda>b'. inv b' \<and> bytes b' = h @ bytes b @ d \<and> cap b' \<le> cap b + length d) (unshift h b')"
    using assms(4) by (intro runs_mono [OF unshift_law]) auto
qed

end

interpretation buf: byte_fifo buffer_inv content m_readerIndex "\<lambda>b. length (m_buffer b)"
  Buffer_append prepend retrieve
proof
  fix b d
  show "runs (\<lambda>b'. buffer_inv b' \<and> content b' = content b @ d \<and>
      min 8 (m_readerIndex b) \<le> m_readerIndex b' \<and>
      length (m_buffer b') \<le> length (m_buffer b) + length d) (Buffer_append d b)"
    if "buffer_inv b" "length d < 2 ^ 31" "length (m_buffer b) + length d < 2 ^ 63"
    using that by (intro Buffer_append_ok) (auto simp: fits_def)
  show "runs (\<lambda>b'. buffer_inv b' \<and> content b' = d @ content b \<and>
      m_readerIndex b' = m_readerIndex b - length d \<and> length (m_buffer b') = length (m_buffer b))
    (prepend d b)"
    if "buffer_inv b" "length d \<le> m_readerIndex b"
    using that by (intro prepend_ok) (auto simp: prependableBytes_def)
next
  fix b n
  assume "buffer_inv b" "n \<le> length (content b)"
  from runs_mono [OF retrieve_ok [OF this]]
  show "runs (\<lambda>b'. buffer_inv b' \<and> content b' = drop n (content b) \<and>
      min 8 (m_readerIndex b) \<le> m_readerIndex b' \<and> length (m_buffer b') = length (m_buffer b))
    (retrieve n b)"
    by simp
qed

section \<open>Properties\<close>

text \<open>
  C4: the buffer is a first-in first-out byte queue. Appending any sequence of chunks (each
  shorter than \<open>2 ^ 31\<close> bytes) and then retrieving \<open>n\<close> bytes never fails an assertion or writes
  outside the storage, keeps \<open>readerIndex <= writerIndex <= size\<close>, and leaves exactly the old
  readable bytes followed by the chunks, without the first \<open>n\<close>.
\<close>

theorem buffer_fifo:
  assumes "buffer_inv b" and "\<forall>d \<in> set ds. length d < 2 ^ 31"
    and "length (m_buffer b) + length (concat ds) < 2 ^ 63"
    and "n \<le> length (content b @ concat ds)"
  shows "runs (\<lambda>b'. buffer_inv b' \<and> content b' = drop n (content b @ concat ds))
    (bindE (foldE Buffer_append ds b) (retrieve n))"
  using assms by (rule buf.push_all_pop)

theorem buffer_fifo_witness:
  "runs (\<lambda>b'. buffer_inv b' \<and> content b' = [3, 4, 5 :: byte])
    (bindE (foldE Buffer_append [[1, 2, 3], [4, 5]]
      \<lparr>m_buffer = [0, 0, 0, 0, 0, 0, 0, 0], m_readerIndex = 8, m_writerIndex = 8\<rparr>) (retrieve 2))"
  using buffer_fifo [of "\<lparr>m_buffer = [0, 0, 0, 0, 0, 0, 0, 0], m_readerIndex = 8, m_writerIndex = 8\<rparr>"
      "[[1, 2, 3], [4, 5]]" 2]
  by (simp add: buffer_inv_def content_def kCheapPrepend_def)

text \<open>
  C10: \<open>readFd\<close> moves exactly the bytes that \<open>readv\<close> delivered to the end of the readable
  bytes, whether they fit the writable area or spill into the stack buffer; on an error the
  buffer is unchanged, the result is \<open>-1\<close> and the error number is saved.
\<close>

theorem readFd_appends:
  assumes "buffer_inv b" and "length (m_buffer b) + kExtraBufferSize < 2 ^ 63" and "readv_ok readv"
  shows "runs (\<lambda>(b', n, err).
      case readv (if writableBytes b < kExtraBufferSize then [writableBytes b, kExtraBufferSize]
                  else [writableBytes b]) of
        Inl e \<Rightarrow> b' = b \<and> n = - 1 \<and> err = Some e
      | Inr data \<Rightarrow> buffer_inv b' \<and> content b' = content b @ data \<and> n = int (length data) \<and> err = None)
    (readFd readv b)"
  using readFd_ok [OF assms refl] .

definition eof_after_two :: "nat list \<Rightarrow> errno + byte list" where
  "eof_after_two iov = Inr (take (sum_list iov) [7, 9])"

theorem readFd_appends_witness:
  "runs (\<lambda>(b', n, err). buffer_inv b' \<and> content b' = [7, 9 :: byte] \<and> n = 2 \<and> err = None)
    (readFd eof_after_two
      \<lparr>m_buffer = [0, 0, 0, 0, 0, 0, 0, 0, 0], m_readerIndex = 8, m_writerIndex = 8\<rparr>)"
proof -
  have "readv_ok eof_after_two" by (simp add: readv_ok_def eof_after_two_def)
  from readFd_appends [OF _ _ this,
      of "\<lparr>m_buffer = [0, 0, 0, 0, 0, 0, 0, 0, 0], m_readerIndex = 8, m_writerIndex = 8\<rparr>"]
  show ?thesis
    by (simp add: buffer_inv_def content_def kCheapPrepend_def kExtraBufferSize_def
        writableBytes_def size_sub_def eof_after_two_def)
qed

text \<open>
  \<open>append\<close> passes its \<open>size_t\<close> length to the \<open>int\<close> parameter of \<open>makeSpace\<close>. For \<open>2 ^ 32\<close>
  bytes the parameter is 0, no room is made, and the process aborts in an assertion, although the
  vector could have grown.
\<close>

theorem append_truncated_length:
  assumes "buffer_inv b" and "m_readerIndex b = kCheapPrepend" and "writableBytes b < 2 ^ 32"
    and "length d = 2 ^ 32"
  shows "Buffer_append d b = Inl AssertFail"
proof -
  have "writableBytes b + 8 < 2 ^ 64" using assms(3) by simp
  moreover have "wrap_int32 (2 ^ 32) = 0" by (simp add: wrap_int32_def)
  ultimately show ?thesis
    using assms
    by (simp add: Buffer_append_def makeSpace_def Let_def prependableBytes_def kCheapPrepend_def
        size_add_def size_of_int_def)
qed

theorem append_truncated_length_witness:
  "Buffer_append (replicate (2 ^ 32) 0)
     \<lparr>m_buffer = [0, 0, 0, 0, 0, 0, 0, 0], m_readerIndex = 8, m_writerIndex = 8\<rparr> = Inl AssertFail"
  by (rule append_truncated_length)
    (simp_all add: buffer_inv_def kCheapPrepend_def writableBytes_def size_sub_def)

end
