(* ===== verification/RpcMessage.thy ===== *)
theory RpcMessage
  imports Endian
begin

unbundle bit_operations_syntax

text \<open>
  \<open>rpc/rpc.pb.h\<close> and \<open>rpc/rpc.pb.cc\<close>: the message every request and response travels in.
  The fields, the constructor, \<open>Clear\<close>, the accessors, \<open>MergeFrom\<close>, \<open>CopyFrom\<close>,
  \<open>ByteSizeLong\<close>, \<open>_InternalSerialize\<close> and \<open>_InternalParse\<close> are definitions; the functions of
  the protobuf runtime library they call, which is not part of the repository, are the fields of
  the parameter \<open>runtime\<close>, and the documented behaviour of that library is the locale
  \<open>protobuf_runtime\<close>. Strings are byte lists; the unknown fields are kept as their raw bytes.
\<close>

section \<open>Data\<close>

datatype MessageType = VALID | REQUEST | RESPONSE | ERROR

primrec MessageType_value :: "MessageType \<Rightarrow> int" where
  "MessageType_value VALID = 0"
| "MessageType_value REQUEST = 1"
| "MessageType_value RESPONSE = 2"
| "MessageType_value ERROR = 3"

definition MessageType_IsValid :: "int \<Rightarrow> bool" where
  "MessageType_IsValid v \<longleftrightarrow> v \<in> {0, 1, 2, 3}"

datatype ErrorCode = NO_ERROR | WRONG_PROTO | NO_SERVICE | NO_METHOD | INVALID_REQUEST
  | INVALID_RESPONSE | TIMEOUT

primrec ErrorCode_value :: "ErrorCode \<Rightarrow> int" where
  "ErrorCode_value NO_ERROR = 0"
| "ErrorCode_value WRONG_PROTO = 1"
| "ErrorCode_value NO_SERVICE = 2"
| "ErrorCode_value NO_METHOD = 3"
| "ErrorCode_value INVALID_REQUEST = 4"
| "ErrorCode_value INVALID_RESPONSE = 5"
| "ErrorCode_value TIMEOUT = 6"

definition ErrorCode_IsValid :: "int \<Rightarrow> bool" where
  "ErrorCode_IsValid v \<longleftrightarrow> v \<in> {0, 1, 2, 3, 4, 5, 6}"

text \<open>The enum fields are stored as \<open>int\<close>, so they may hold values outside the enumeration.\<close>

record RpcMessage =
  m_service :: "byte list"
  m_method :: "byte list"
  m_request :: "byte list"
  m_response :: "byte list"
  m_id :: u64
  m_type :: int
  m_error :: int
  m_unknown :: "byte list"

definition RpcMessage_ctor :: RpcMessage where
  "RpcMessage_ctor = \<lparr>m_service = [], m_method = [], m_request = [], m_response = [], m_id = 0,
     m_type = 0, m_error = 0, m_unknown = []\<rparr>"

definition RpcMessage_Clear :: "RpcMessage \<Rightarrow> RpcMessage" where
  "RpcMessage_Clear m = m\<lparr>m_service := [], m_method := [], m_request := [], m_response := [],
     m_id := 0, m_type := 0, m_error := 0, m_unknown := []\<rparr>"

definition set_type :: "MessageType \<Rightarrow> RpcMessage \<Rightarrow> RpcMessage" where
  "set_type v m = m\<lparr>m_type := MessageType_value v\<rparr>"

definition set_id :: "u64 \<Rightarrow> RpcMessage \<Rightarrow> RpcMessage" where
  "set_id v m = m\<lparr>m_id := v\<rparr>"

definition set_service :: "byte list \<Rightarrow> RpcMessage \<Rightarrow> RpcMessage" where
  "set_service v m = m\<lparr>m_service := v\<rparr>"

definition set_method :: "byte list \<Rightarrow> RpcMessage \<Rightarrow> RpcMessage" where
  "set_method v m = m\<lparr>m_method := v\<rparr>"

definition set_request :: "byte list \<Rightarrow> RpcMessage \<Rightarrow> RpcMessage" where
  "set_request v m = m\<lparr>m_request := v\<rparr>"

definition set_response :: "byte list \<Rightarrow> RpcMessage \<Rightarrow> RpcMessage" where
  "set_response v m = m\<lparr>m_response := v\<rparr>"

definition set_error :: "ErrorCode \<Rightarrow> RpcMessage \<Rightarrow> RpcMessage" where
  "set_error v m = m\<lparr>m_error := ErrorCode_value v\<rparr>"

definition clear_type :: "RpcMessage \<Rightarrow> RpcMessage" where
  "clear_type m = m\<lparr>m_type := 0\<rparr>"

definition clear_id :: "RpcMessage \<Rightarrow> RpcMessage" where
  "clear_id m = m\<lparr>m_id := 0\<rparr>"

definition clear_error :: "RpcMessage \<Rightarrow> RpcMessage" where
  "clear_error m = m\<lparr>m_error := 0\<rparr>"

text \<open>
  \<open>release\<close> hands out the string and leaves the field empty; \<open>set_allocated\<close> takes a string over,
  and a null pointer empties the field.
\<close>

definition clear_service :: "RpcMessage \<Rightarrow> RpcMessage" where
  "clear_service m = m\<lparr>m_service := []\<rparr>"

definition release_service :: "RpcMessage \<Rightarrow> byte list \<times> RpcMessage" where
  "release_service m = (m_service m, m\<lparr>m_service := []\<rparr>)"

definition set_allocated_service :: "byte list option \<Rightarrow> RpcMessage \<Rightarrow> RpcMessage" where
  "set_allocated_service v m = m\<lparr>m_service := (case v of None \<Rightarrow> [] | Some s \<Rightarrow> s)\<rparr>"

definition clear_method :: "RpcMessage \<Rightarrow> RpcMessage" where
  "clear_method m = m\<lparr>m_method := []\<rparr>"

definition release_method :: "RpcMessage \<Rightarrow> byte list \<times> RpcMessage" where
  "release_method m = (m_method m, m\<lparr>m_method := []\<rparr>)"

definition set_allocated_method :: "byte list option \<Rightarrow> RpcMessage \<Rightarrow> RpcMessage" where
  "set_allocated_method v m = m\<lparr>m_method := (case v of None \<Rightarrow> [] | Some s \<Rightarrow> s)\<rparr>"

definition clear_request :: "RpcMessage \<Rightarrow> RpcMessage" where
  "clear_request m = m\<lparr>m_request := []\<rparr>"

definition release_request :: "RpcMessage \<Rightarrow> byte list \<times> RpcMessage" where
  "release_request m = (m_request m, m\<lparr>m_request := []\<rparr>)"

definition set_allocated_request :: "byte list option \<Rightarrow> RpcMessage \<Rightarrow> RpcMessage" where
  "set_allocated_request v m = m\<lparr>m_request := (case v of None \<Rightarrow> [] | Some s \<Rightarrow> s)\<rparr>"

definition clear_response :: "RpcMessage \<Rightarrow> RpcMessage" where
  "clear_response m = m\<lparr>m_response := []\<rparr>"

definition release_response :: "RpcMessage \<Rightarrow> byte list \<times> RpcMessage" where
  "release_response m = (m_response m, m\<lparr>m_response := []\<rparr>)"

definition set_allocated_response :: "byte list option \<Rightarrow> RpcMessage \<Rightarrow> RpcMessage" where
  "set_allocated_response v m = m\<lparr>m_response := (case v of None \<Rightarrow> [] | Some s \<Rightarrow> s)\<rparr>"

definition RpcMessage_copy_ctor :: "RpcMessage \<Rightarrow> RpcMessage" where
  "RpcMessage_copy_ctor from =
     (let m = RpcMessage_ctor\<lparr>m_unknown := m_unknown from\<rparr>;
          m = (if m_service from \<noteq> [] then m\<lparr>m_service := m_service from\<rparr> else m);
          m = (if m_method from \<noteq> [] then m\<lparr>m_method := m_method from\<rparr> else m);
          m = (if m_request from \<noteq> [] then m\<lparr>m_request := m_request from\<rparr> else m);
          m = (if m_response from \<noteq> [] then m\<lparr>m_response := m_response from\<rparr> else m)
      in m\<lparr>m_id := m_id from, m_type := m_type from, m_error := m_error from\<rparr>)"

definition RpcMessage_MergeFrom :: "RpcMessage \<Rightarrow> RpcMessage \<Rightarrow> RpcMessage" where
  "RpcMessage_MergeFrom from m0 =
     (let m = m0\<lparr>m_unknown := m_unknown m0 @ m_unknown from\<rparr>;
          m = (if 0 < length (m_service from) then m\<lparr>m_service := m_service from\<rparr> else m);
          m = (if 0 < length (m_method from) then m\<lparr>m_method := m_method from\<rparr> else m);
          m = (if 0 < length (m_request from) then m\<lparr>m_request := m_request from\<rparr> else m);
          m = (if 0 < length (m_response from) then m\<lparr>m_response := m_response from\<rparr> else m);
          m = (if m_id from \<noteq> 0 then m\<lparr>m_id := m_id from\<rparr> else m);
          m = (if m_type from \<noteq> 0 then m\<lparr>m_type := m_type from\<rparr> else m)
      in if m_error from \<noteq> 0 then m\<lparr>m_error := m_error from\<rparr> else m)"

definition RpcMessage_CopyFrom :: "RpcMessage \<Rightarrow> RpcMessage \<Rightarrow> RpcMessage" where
  "RpcMessage_CopyFrom from m = RpcMessage_MergeFrom from (RpcMessage_Clear m)"

definition RpcMessage_InternalSwap :: "RpcMessage \<times> RpcMessage \<Rightarrow> RpcMessage \<times> RpcMessage" where
  "RpcMessage_InternalSwap p = (case p of (a, b) \<Rightarrow>
     (a\<lparr>m_unknown := m_unknown b, m_service := m_service b, m_method := m_method b,
        m_request := m_request b, m_response := m_response b, m_id := m_id b, m_type := m_type b,
        m_error := m_error b\<rparr>,
      b\<lparr>m_unknown := m_unknown a, m_service := m_service a, m_method := m_method a,
        m_request := m_request a, m_response := m_response a, m_id := m_id a, m_type := m_type a,
        m_error := m_error a\<rparr>))"

section \<open>The protobuf runtime\<close>

text \<open>
  A reader takes the remaining input and returns the value and what is left, or \<open>None\<close> where
  the library returns a null pointer. A writer returns the bytes it appends.
\<close>

record runtime =
  WriteEnumToArray :: "nat \<Rightarrow> int \<Rightarrow> byte list"
  WriteFixed64ToArray :: "nat \<Rightarrow> u64 \<Rightarrow> byte list"
  WriteStringMaybeAliased :: "nat \<Rightarrow> byte list \<Rightarrow> byte list"
  WriteBytesMaybeAliased :: "nat \<Rightarrow> byte list \<Rightarrow> byte list"
  SerializeUnknownFields :: "byte list \<Rightarrow> byte list"
  EnumSize :: "int \<Rightarrow> nat"
  StringSize :: "byte list \<Rightarrow> nat"
  BytesSize :: "byte list \<Rightarrow> nat"
  UnknownFieldsSize :: "byte list \<Rightarrow> nat"
  ReadTag :: "byte list \<Rightarrow> (u32 \<times> byte list) option"
  ReadVarint64 :: "byte list \<Rightarrow> (u64 \<times> byte list) option"
  UnalignedLoad64 :: "byte list \<Rightarrow> (u64 \<times> byte list) option"
  InlineGreedyStringParser :: "byte list \<Rightarrow> (byte list \<times> byte list) option"
  VerifyUTF8 :: "byte list \<Rightarrow> bool"
  UnknownFieldParse :: "u32 \<Rightarrow> byte list \<Rightarrow> (byte list \<times> byte list) option"

section \<open>Serialization\<close>

definition InternalSerialize :: "runtime \<Rightarrow> RpcMessage \<Rightarrow> byte list" where
  "InternalSerialize rt m =
     (if m_type m \<noteq> 0 then WriteEnumToArray rt 1 (m_type m) else []) @
     (if m_id m \<noteq> 0 then WriteFixed64ToArray rt 2 (m_id m) else []) @
     (if 0 < length (m_service m) then WriteStringMaybeAliased rt 3 (m_service m) else []) @
     (if 0 < length (m_method m) then WriteStringMaybeAliased rt 4 (m_method m) else []) @
     (if 0 < length (m_request m) then WriteBytesMaybeAliased rt 5 (m_request m) else []) @
     (if 0 < length (m_response m) then WriteBytesMaybeAliased rt 6 (m_response m) else []) @
     (if m_error m \<noteq> 0 then WriteEnumToArray rt 7 (m_error m) else []) @
     (if m_unknown m \<noteq> [] then SerializeUnknownFields rt (m_unknown m) else [])"

definition ByteSizeLong :: "runtime \<Rightarrow> RpcMessage \<Rightarrow> nat" where
  "ByteSizeLong rt m =
     (let total_size =
        (if 0 < length (m_service m) then 1 + StringSize rt (m_service m) else 0) +
        (if 0 < length (m_method m) then 1 + StringSize rt (m_method m) else 0) +
        (if 0 < length (m_request m) then 1 + BytesSize rt (m_request m) else 0) +
        (if 0 < length (m_response m) then 1 + BytesSize rt (m_response m) else 0) +
        (if m_id m \<noteq> 0 then 1 + 8 else 0) +
        (if m_type m \<noteq> 0 then 1 + EnumSize rt (m_type m) else 0) +
        (if m_error m \<noteq> 0 then 1 + EnumSize rt (m_error m) else 0)
      in if m_unknown m \<noteq> [] then total_size + UnknownFieldsSize rt (m_unknown m) else total_size)"

section \<open>Parsing\<close>

text \<open>
  One turn of the loop reads a tag and a field. It goes on with the rest of the input, stops at
  an end-group tag or a zero tag (the label \<open>success\<close>), or fails (the label \<open>failure\<close>).
\<close>

datatype parse_step =
    Continue RpcMessage "byte list"
  | Success RpcMessage u32 "byte list"
  | Failure RpcMessage

text \<open>\<open>static_cast<int>(uint64_t)\<close>: the low 32 bits as a signed number.\<close>

definition enum_of_u64 :: "u64 \<Rightarrow> int" where
  "enum_of_u64 v = sint (ucast v :: u32)"

definition parse_unusual :: "runtime \<Rightarrow> u32 \<Rightarrow> byte list \<Rightarrow> RpcMessage \<Rightarrow> parse_step" where
  "parse_unusual rt tag ptr m =
     (if tag AND 7 = 4 \<or> tag = 0 then Success m tag ptr
      else case UnknownFieldParse rt tag ptr of
             None \<Rightarrow> Failure m
           | Some (raw, ptr') \<Rightarrow> Continue (m\<lparr>m_unknown := m_unknown m @ raw\<rparr>) ptr')"

definition InternalParse_step :: "runtime \<Rightarrow> byte list \<Rightarrow> RpcMessage \<Rightarrow> parse_step" where
  "InternalParse_step rt bs m =
     (case ReadTag rt bs of
        None \<Rightarrow> Failure m
      | Some (tag, ptr) \<Rightarrow>
          let field = unat (drop_bit 3 tag); low = (ucast tag :: byte) in
          if field = 1 \<and> low = 8 then
            (case ReadVarint64 rt ptr of None \<Rightarrow> Failure m
             | Some (val, ptr') \<Rightarrow> Continue (m\<lparr>m_type := enum_of_u64 val\<rparr>) ptr')
          else if field = 2 \<and> low = 17 then
            (case UnalignedLoad64 rt ptr of None \<Rightarrow> Failure m
             | Some (val, ptr') \<Rightarrow> Continue (m\<lparr>m_id := val\<rparr>) ptr')
          else if field = 3 \<and> low = 26 then
            (case InlineGreedyStringParser rt ptr of None \<Rightarrow> Failure m
             | Some (str, ptr') \<Rightarrow>
                 let m' = m\<lparr>m_service := str\<rparr> in
                 if VerifyUTF8 rt str then Continue m' ptr' else Failure m')
          else if field = 4 \<and> low = 34 then
            (case InlineGreedyStringParser rt ptr of None \<Rightarrow> Failure m
             | Some (str, ptr') \<Rightarrow>
                 let m' = m\<lparr>m_method := str\<rparr> in
                 if VerifyUTF8 rt str then Continue m' ptr' else Failure m')
          else if field = 5 \<and> low = 42 then
            (case InlineGreedyStringParser rt ptr of None \<Rightarrow> Failure m
             | Some (str, ptr') \<Rightarrow> Continue (m\<lparr>m_request := str\<rparr>) ptr')
          else if field = 6 \<and> low = 50 then
            (case InlineGreedyStringParser rt ptr of None \<Rightarrow> Failure m
             | Some (str, ptr') \<Rightarrow> Continue (m\<lparr>m_response := str\<rparr>) ptr')
          else if field = 7 \<and> low = 56 then
            (case ReadVarint64 rt ptr of None \<Rightarrow> Failure m
             | Some (val, ptr') \<Rightarrow> Continue (m\<lparr>m_error := enum_of_u64 val\<rparr>) ptr')
          else parse_unusual rt tag ptr m)"

text \<open>
  The loop, with a bound on its turns; \<open>None\<close> means that the bound was too small. The result is
  the message, the tag given to \<open>ctx->SetLastTag\<close> if there was one and, unless parsing failed, the
  input that is left. Every turn consumes at least one byte (\<open>step_consumes\<close>), so one turn per
  input byte and one more is enough (\<open>parse_enough\<close>). A fixed64 field that runs past the input is
  a failure of the turn here; the library notices it when the next turn asks \<open>ctx->Done\<close>.
\<close>

fun InternalParse :: "nat \<Rightarrow> runtime \<Rightarrow> byte list \<Rightarrow> RpcMessage \<Rightarrow>
    (RpcMessage \<times> u32 option \<times> byte list option) option" where
  "InternalParse 0 rt bs m = None"
| "InternalParse (Suc n) rt bs m =
     (if bs = [] then Some (m, None, Some [])
      else case InternalParse_step rt bs m of
             Failure m' \<Rightarrow> Some (m', None, None)
           | Success m' tag bs' \<Rightarrow> Some (m', Some tag, Some bs')
           | Continue m' bs' \<Rightarrow> InternalParse n rt bs' m')"

text \<open>
  \<open>ParseFromString\<close> of the base class, which is documented to clear the message, to parse the
  whole input into it and to report whether that succeeded; a parser that stopped at a tag has not
  ended at the limit of the input.
\<close>

definition ParseFromString :: "runtime \<Rightarrow> byte list \<Rightarrow> RpcMessage \<Rightarrow> (bool \<times> RpcMessage) option" where
  "ParseFromString rt bs m =
     (case InternalParse (Suc (length bs)) rt bs (RpcMessage_Clear m) of
        None \<Rightarrow> None
      | Some (m', last_tag, rest) \<Rightarrow> Some (last_tag = None \<and> rest = Some [], m'))"

text \<open>Messages a sender can build: enum values and lengths in range, names in UTF-8, no unknown fields.\<close>

definition valid_message :: "runtime \<Rightarrow> RpcMessage \<Rightarrow> bool" where
  "valid_message rt m \<longleftrightarrow> - (2 ^ 31) \<le> m_type m \<and> m_type m < 2 ^ 31 \<and>
     - (2 ^ 31) \<le> m_error m \<and> m_error m < 2 ^ 31 \<and>
     length (m_service m) < 2 ^ 31 \<and> length (m_method m) < 2 ^ 31 \<and>
     length (m_request m) < 2 ^ 31 \<and> length (m_response m) < 2 ^ 31 \<and>
     VerifyUTF8 rt (m_service m) \<and> VerifyUTF8 rt (m_method m) \<and> m_unknown m = []"

lemma enum_of_u64_of_int:
  assumes "- (2 ^ 31) \<le> v" and "v < 2 ^ 31"
  shows "enum_of_u64 (word_of_int v) = v"
proof -
  have "(ucast (word_of_int v :: u64) :: u32) = word_of_int v"
    by (rule bit_eqI) (simp add: bit_simps)
  then show ?thesis
    using assms by (simp add: enum_of_u64_def signed_of_int signed_take_bit_int_eq_self)
qed

section \<open>What the code relies on in the runtime\<close>

text \<open>
  The documented behaviour of the library: what a writer of a field wrote, \<open>ReadTag\<close> followed by
  the reader of that wire type reads back (tag \<open>8 * f + wire_type\<close>), readers consume input, and
  the size functions count what the writers write. Field numbers up to 15 have one-byte tags.
\<close>

locale protobuf_runtime =
  fixes rt :: runtime
  assumes enum_field: "1 \<le> f \<Longrightarrow> f \<le> 15 \<Longrightarrow> - (2 ^ 31) \<le> v \<Longrightarrow> v < 2 ^ 31 \<Longrightarrow>
      \<exists>p. ReadTag rt (WriteEnumToArray rt f v @ r) = Some (of_nat (8 * f), p) \<and>
          ReadVarint64 rt p = Some (word_of_int v, r)"
    and fixed64_field: "1 \<le> f \<Longrightarrow> f \<le> 15 \<Longrightarrow>
      \<exists>p. ReadTag rt (WriteFixed64ToArray rt f w @ r) = Some (of_nat (8 * f + 1), p) \<and>
          UnalignedLoad64 rt p = Some (w, r)"
    and string_field: "1 \<le> f \<Longrightarrow> f \<le> 15 \<Longrightarrow> length s < 2 ^ 31 \<Longrightarrow>
      \<exists>p. ReadTag rt (WriteStringMaybeAliased rt f s @ r) = Some (of_nat (8 * f + 2), p) \<and>
          InlineGreedyStringParser rt p = Some (s, r)"
    and bytes_field: "1 \<le> f \<Longrightarrow> f \<le> 15 \<Longrightarrow> length s < 2 ^ 31 \<Longrightarrow>
      \<exists>p. ReadTag rt (WriteBytesMaybeAliased rt f s @ r) = Some (of_nat (8 * f + 2), p) \<and>
          InlineGreedyStringParser rt p = Some (s, r)"
    and tag_consumes: "ReadTag rt bs = Some (t, p) \<Longrightarrow> length p < length bs"
    and varint_consumes: "ReadVarint64 rt bs = Some (x, p) \<Longrightarrow> length p \<le> length bs"
    and load_consumes: "UnalignedLoad64 rt bs = Some (x, p) \<Longrightarrow> length p \<le> length bs"
    and string_consumes: "InlineGreedyStringParser rt bs = Some (s, p) \<Longrightarrow> length p \<le> length bs"
    and unknown_consumes: "UnknownFieldParse rt t bs = Some (raw, p) \<Longrightarrow> length p \<le> length bs"
    and enum_size: "1 \<le> f \<Longrightarrow> f \<le> 15 \<Longrightarrow> length (WriteEnumToArray rt f v) = 1 + EnumSize rt v"
    and fixed64_size: "1 \<le> f \<Longrightarrow> f \<le> 15 \<Longrightarrow> length (WriteFixed64ToArray rt f w) = 9"
    and string_size: "1 \<le> f \<Longrightarrow> f \<le> 15 \<Longrightarrow> length (WriteStringMaybeAliased rt f s) = 1 + StringSize rt s"
    and bytes_size: "1 \<le> f \<Longrightarrow> f \<le> 15 \<Longrightarrow> length (WriteBytesMaybeAliased rt f s) = 1 + BytesSize rt s"
    and unknown_size: "length (SerializeUnknownFields rt u) = UnknownFieldsSize rt u"
    and empty_utf8: "VerifyUTF8 rt []"
begin

lemma step_consumes:
  assumes "InternalParse_step rt bs m = Continue m' bs'"
  shows "length bs' < length bs"
proof (cases "ReadTag rt bs")
  case (Some tp)
  then obtain t p where tp: "ReadTag rt bs = Some (t, p)" by (cases tp) auto
  have "length bs' \<le> length p"
    using assms tp
    by (auto simp: InternalParse_step_def parse_unusual_def Let_def
        dest: varint_consumes load_consumes string_consumes unknown_consumes
        split: if_splits option.splits prod.splits)
  with tag_consumes [OF tp] show ?thesis by simp
qed (use assms in \<open>simp add: InternalParse_step_def\<close>)

text \<open>The loop ends: one turn per byte and one more is enough, and more make no difference.\<close>

lemma parse_enough: "length bs < n \<Longrightarrow> InternalParse n rt bs m \<noteq> None"
proof (induction n arbitrary: bs m)
  case (Suc n)
  then show ?case
    by (auto split: parse_step.splits dest!: step_consumes)
qed simp

lemma parse_fuel:
  "length bs < n \<Longrightarrow> length bs < k \<Longrightarrow> InternalParse n rt bs m = InternalParse k rt bs m"
proof (induction n arbitrary: k bs m)
  case (Suc n)
  then obtain k' where k: "k = Suc k'" by (cases k) auto
  show ?case
  proof (cases "InternalParse_step rt bs m")
    case (Continue m' bs')
    have "InternalParse n rt bs' m' = InternalParse k' rt bs' m'"
      using step_consumes [OF Continue] Suc.prems k by (intro Suc.IH) auto
    with Continue k show ?thesis by simp
  qed (use k in simp_all)
qed simp

lemma parse_Continue:
  assumes "InternalParse_step rt bs m = Continue m' bs'"
  shows "InternalParse (Suc (length bs)) rt bs m = InternalParse (Suc (length bs')) rt bs' m'"
proof -
  have "length bs' < length bs" using assms by (rule step_consumes)
  then show ?thesis
    using assms parse_fuel [of bs' "length bs" "Suc (length bs')" m'] by auto
qed

text \<open>Each written field is read back by one turn of the loop.\<close>

lemma step_type:
  "- (2 ^ 31) \<le> v \<Longrightarrow> v < 2 ^ 31 \<Longrightarrow>
   InternalParse_step rt (WriteEnumToArray rt 1 v @ r) m = Continue (m\<lparr>m_type := v\<rparr>) r"
  using enum_field [of 1 v r]
  by (auto simp: InternalParse_step_def enum_of_u64_of_int Let_def)

lemma step_error:
  "- (2 ^ 31) \<le> v \<Longrightarrow> v < 2 ^ 31 \<Longrightarrow>
   InternalParse_step rt (WriteEnumToArray rt 7 v @ r) m = Continue (m\<lparr>m_error := v\<rparr>) r"
  using enum_field [of 7 v r]
  by (auto simp: InternalParse_step_def enum_of_u64_of_int Let_def)

lemma step_id:
  "InternalParse_step rt (WriteFixed64ToArray rt 2 w @ r) m = Continue (m\<lparr>m_id := w\<rparr>) r"
  using fixed64_field [of 2 w r] by (auto simp: InternalParse_step_def Let_def)

lemma step_strings:
  assumes "length s < 2 ^ 31"
  shows "VerifyUTF8 rt s \<Longrightarrow>
      InternalParse_step rt (WriteStringMaybeAliased rt 3 s @ r) m = Continue (m\<lparr>m_service := s\<rparr>) r"
    and "VerifyUTF8 rt s \<Longrightarrow>
      InternalParse_step rt (WriteStringMaybeAliased rt 4 s @ r) m = Continue (m\<lparr>m_method := s\<rparr>) r"
    and "InternalParse_step rt (WriteBytesMaybeAliased rt 5 s @ r) m = Continue (m\<lparr>m_request := s\<rparr>) r"
    and "InternalParse_step rt (WriteBytesMaybeAliased rt 6 s @ r) m = Continue (m\<lparr>m_response := s\<rparr>) r"
  using string_field [of 3 s r] string_field [of 4 s r] bytes_field [of 5 s r] bytes_field [of 6 s r] assms
  by (auto simp: InternalParse_step_def Let_def)

lemma parse_optional:
  assumes "c \<Longrightarrow> InternalParse_step rt (w @ r) m = Continue m' r" and "\<not> c \<Longrightarrow> m' = m"
  shows "InternalParse (Suc (length ((if c then w else []) @ r))) rt ((if c then w else []) @ r) m
    = InternalParse (Suc (length r)) rt r m'"
  using assms parse_Continue [of "w @ r" m m' r] by (cases c) simp_all

lemma parse_serialize:
  assumes "valid_message rt m"
  shows "ParseFromString rt (InternalSerialize rt m) m0 = Some (True, m)"
proof -
  let ?P = "\<lambda>bs m. InternalParse (Suc (length bs)) rt bs m"
  let ?w7 = "(if m_error m \<noteq> 0 then WriteEnumToArray rt 7 (m_error m) else []) @ []"
  let ?w6 = "(if 0 < length (m_response m) then WriteBytesMaybeAliased rt 6 (m_response m) else []) @ ?w7"
  let ?w5 = "(if 0 < length (m_request m) then WriteBytesMaybeAliased rt 5 (m_request m) else []) @ ?w6"
  let ?w4 = "(if 0 < length (m_method m) then WriteStringMaybeAliased rt 4 (m_method m) else []) @ ?w5"
  let ?w3 = "(if 0 < length (m_service m) then WriteStringMaybeAliased rt 3 (m_service m) else []) @ ?w4"
  let ?w2 = "(if m_id m \<noteq> 0 then WriteFixed64ToArray rt 2 (m_id m) else []) @ ?w3"
  let ?w1 = "(if m_type m \<noteq> 0 then WriteEnumToArray rt 1 (m_type m) else []) @ ?w2"
  let ?m1 = "RpcMessage_ctor\<lparr>m_type := m_type m\<rparr>"
  let ?m2 = "?m1\<lparr>m_id := m_id m\<rparr>"
  let ?m3 = "?m2\<lparr>m_service := m_service m\<rparr>"
  let ?m4 = "?m3\<lparr>m_method := m_method m\<rparr>"
  let ?m5 = "?m4\<lparr>m_request := m_request m\<rparr>"
  let ?m6 = "?m5\<lparr>m_response := m_response m\<rparr>"
  let ?m7 = "?m6\<lparr>m_error := m_error m\<rparr>"
  note v = assms [unfolded valid_message_def]
  have "?P ?w1 RpcMessage_ctor = ?P ?w2 ?m1"
    using v by (intro parse_optional step_type) (simp_all add: RpcMessage_ctor_def)
  also have "\<dots> = ?P ?w3 ?m2"
    by (intro parse_optional step_id) (simp_all add: RpcMessage_ctor_def)
  also have "\<dots> = ?P ?w4 ?m3"
    using v by (intro parse_optional step_strings) (simp_all add: RpcMessage_ctor_def)
  also have "\<dots> = ?P ?w5 ?m4"
    using v by (intro parse_optional step_strings) (simp_all add: RpcMessage_ctor_def)
  also have "\<dots> = ?P ?w6 ?m5"
    using v by (intro parse_optional step_strings) (simp_all add: RpcMessage_ctor_def)
  also have "\<dots> = ?P ?w7 ?m6"
    using v by (intro parse_optional step_strings) (simp_all add: RpcMessage_ctor_def)
  also have "\<dots> = ?P [] ?m7"
    using v by (intro parse_optional step_error) (simp_all add: RpcMessage_ctor_def)
  finally have "?P ?w1 RpcMessage_ctor = Some (?m7, None, Some [])" by simp
  moreover have "InternalSerialize rt m = ?w1"
    using v by (simp only: InternalSerialize_def append_Nil2 append_assoc if_False) simp
  moreover have "?m7 = m" using v by (simp add: RpcMessage_ctor_def)
  moreover have "RpcMessage_Clear m0 = RpcMessage_ctor"
    by (simp add: RpcMessage_Clear_def RpcMessage_ctor_def)
  ultimately show ?thesis by (simp only: ParseFromString_def option.case prod.case) simp
qed

lemma serialize_size: "length (InternalSerialize rt m) = ByteSizeLong rt m"
  by (simp add: InternalSerialize_def ByteSizeLong_def enum_size fixed64_size string_size bytes_size
      unknown_size)

end

section \<open>Properties\<close>

text \<open>
  C7: the round trip of the message format. Over any runtime with the documented behaviour, a
  message a sender can build, serialized and parsed into any message object, comes back field by
  field, whatever the object held before; and \<open>ByteSizeLong\<close> is the length of the serialization.
\<close>

theorem message_roundtrip:
  assumes "protobuf_runtime rt" and "valid_message rt m"
  shows "ParseFromString rt (InternalSerialize rt m) m0 = Some (True, m) \<and>
    length (InternalSerialize rt m) = ByteSizeLong rt m"
  using protobuf_runtime.parse_serialize [OF assms] protobuf_runtime.serialize_size [OF assms(1)]
  by simp

text \<open>
  Parsing ends on every input, the hostile ones included: the loop of \<open>_InternalParse\<close> needs at
  most one turn per byte, so \<open>ParseFromString\<close> always reports success or failure.
\<close>

theorem parse_terminates:
  assumes "protobuf_runtime rt"
  shows "\<exists>ok m'. ParseFromString rt bs m = Some (ok, m')"
  using protobuf_runtime.parse_enough [OF assms, of bs "Suc (length bs)" "RpcMessage_Clear m"]
  by (auto simp: ParseFromString_def)


end
