(* ===== verification/Protobuf_Wire.thy ===== *)
theory Protobuf_Wire
  imports RpcMessage
begin

text \<open>
  The published protobuf wire format (base-128 varints, tags, little-endian fixed64,
  length-delimited fields) as a concrete \<open>runtime\<close>. It shows that the laws of
  \<open>protobuf_runtime\<close> hold together, and it is what the witnesses of the message layer run on.
\<close>

section \<open>Varints\<close>

fun enc_varint :: "nat \<Rightarrow> byte list" where
  "enc_varint n = (if n < 128 then [of_nat n] else of_nat (n mod 128 + 128) # enc_varint (n div 128))"

declare enc_varint.simps [simp del]

fun dec_varint :: "nat \<Rightarrow> byte list \<Rightarrow> (nat \<times> byte list) option" where
  "dec_varint 0 bs = None"
| "dec_varint (Suc k) [] = None"
| "dec_varint (Suc k) (b # bs) =
     (if unat b < 128 then Some (unat b, bs)
      else case dec_varint k bs of None \<Rightarrow> None
           | Some (v, r) \<Rightarrow> Some (unat b - 128 + 128 * v, r))"

lemma dec_enc: "n < 128 ^ k \<Longrightarrow> 0 < k \<Longrightarrow> dec_varint k (enc_varint n @ r) = Some (n, r)"
proof (induction n arbitrary: k rule: enc_varint.induct)
  case (1 n)
  show ?case
  proof (cases "n < 128")
    case True
    from 1(3) obtain k' where "k = Suc k'" by (cases k) auto
    with True show ?thesis by (simp add: enc_varint.simps [of n] unat_of_nat)
  next
    case False
    with 1(2) obtain k' where k: "k = Suc k'" by (cases k) auto
    have "n div 128 < 128 ^ k'"
      using 1(2) k by (metis less_mult_imp_div_less mult.commute power_Suc)
    moreover have "0 < k'" using False 1(2) k by (cases k') auto
    ultimately have "dec_varint k' (enc_varint (n div 128) @ r) = Some (n div 128, r)"
      using False 1(1) by simp
    moreover have "unat (of_nat (n mod 128 + 128) :: byte) = n mod 128 + 128"
      using mod_less_divisor [of 128 n]
      by (simp only: unat_of_nat take_bit_nat_eq_self_iff) (simp add: take_bit_nat_eq_self)
    moreover have "n mod 128 + 128 * (n div 128) = n" by simp
    ultimately show ?thesis
      using False k by (simp add: enc_varint.simps [of n] del: of_nat_add)
  qed
qed

lemma dec_consumes: "dec_varint k bs = Some (v, r) \<Longrightarrow> length r < length bs"
proof (induction k bs arbitrary: v r rule: dec_varint.induct)
  case (3 k b bs)
  then show ?case
    by (fastforce split: if_splits option.splits)
qed simp_all

lemma length_enc_small: "n < 128 \<Longrightarrow> length (enc_varint n) = 1"
  by (simp add: enc_varint.simps)

section \<open>UTF-8\<close>

definition cont :: "byte \<Rightarrow> bool" where
  "cont b \<longleftrightarrow> 128 \<le> unat b \<and> unat b < 192"

fun utf8 :: "byte list \<Rightarrow> bool" where
  "utf8 [] = True"
| "utf8 (a # as) =
     (if unat a < 128 then utf8 as
      else if 194 \<le> unat a \<and> unat a < 224
        then (case as of b # bs \<Rightarrow> cont b \<and> utf8 bs | _ \<Rightarrow> False)
      else if 224 \<le> unat a \<and> unat a < 240
        then (case as of b # c # cs \<Rightarrow> cont b \<and> cont c \<and> (unat a = 224 \<longrightarrow> 160 \<le> unat b) \<and>
                (unat a = 237 \<longrightarrow> unat b < 160) \<and> utf8 cs | _ \<Rightarrow> False)
      else if 240 \<le> unat a \<and> unat a < 245
        then (case as of b # c # d # ds \<Rightarrow> cont b \<and> cont c \<and> cont d \<and>
                (unat a = 240 \<longrightarrow> 144 \<le> unat b) \<and> (unat a = 244 \<longrightarrow> unat b < 144) \<and> utf8 ds
              | _ \<Rightarrow> False)
      else False)"

section \<open>The runtime\<close>

definition u64_of_enum :: "int \<Rightarrow> nat" where
  "u64_of_enum v = nat (v mod 2 ^ 64)"

definition wire_string :: "byte list \<Rightarrow> (byte list \<times> byte list) option" where
  "wire_string bs = (case dec_varint 5 bs of None \<Rightarrow> None
     | Some (n, r) \<Rightarrow> if n \<le> length r then Some (take n r, drop n r) else None)"

definition wire_fixed :: "nat \<Rightarrow> byte list \<Rightarrow> (byte list \<times> byte list) option" where
  "wire_fixed n bs = (if n \<le> length bs then Some (take n bs, drop n bs) else None)"

definition wire_unknown :: "u32 \<Rightarrow> byte list \<Rightarrow> (byte list \<times> byte list) option" where
  "wire_unknown tag bs =
     (let rest = (if unat tag mod 8 = 0 then map_option snd (dec_varint 10 bs)
                  else if unat tag mod 8 = 1 then map_option snd (wire_fixed 8 bs)
                  else if unat tag mod 8 = 2 then map_option snd (wire_string bs)
                  else if unat tag mod 8 = 5 then map_option snd (wire_fixed 4 bs)
                  else None)
      in case rest of None \<Rightarrow> None
         | Some r \<Rightarrow> Some (enc_varint (unat tag) @ take (length bs - length r) bs, r))"

definition wire :: runtime where
  "wire = \<lparr>WriteEnumToArray = (\<lambda>f v. enc_varint (8 * f) @ enc_varint (u64_of_enum v)),
     WriteFixed64ToArray = (\<lambda>f w. enc_varint (8 * f + 1) @ rev (be_bytes 8 w)),
     WriteStringMaybeAliased = (\<lambda>f s. enc_varint (8 * f + 2) @ enc_varint (length s) @ s),
     WriteBytesMaybeAliased = (\<lambda>f s. enc_varint (8 * f + 2) @ enc_varint (length s) @ s),
     SerializeUnknownFields = (\<lambda>u. u),
     EnumSize = (\<lambda>v. length (enc_varint (u64_of_enum v))),
     StringSize = (\<lambda>s. length (enc_varint (length s)) + length s),
     BytesSize = (\<lambda>s. length (enc_varint (length s)) + length s),
     UnknownFieldsSize = length,
     ReadTag = (\<lambda>bs. map_option (\<lambda>(v, r). (of_nat v, r)) (dec_varint 5 bs)),
     ReadVarint64 = (\<lambda>bs. map_option (\<lambda>(v, r). (of_nat v, r)) (dec_varint 10 bs)),
     UnalignedLoad64 = (\<lambda>bs. map_option (\<lambda>(d, r). (of_be (rev d), r)) (wire_fixed 8 bs)),
     InlineGreedyStringParser = wire_string,
     VerifyUTF8 = utf8,
     UnknownFieldParse = wire_unknown\<rparr>"

lemma wire_string_field:
  "length s < 2 ^ 31 \<Longrightarrow> wire_string (enc_varint (length s) @ s @ r) = Some (s, r)"
  by (simp add: wire_string_def dec_enc)

lemma wire_string_consumes: "wire_string bs = Some (s, r) \<Longrightarrow> length r \<le> length bs"
  by (auto simp: wire_string_def dest!: dec_consumes split: option.splits if_splits)

lemma wire_unknown_consumes: "wire_unknown t bs = Some (raw, r) \<Longrightarrow> length r \<le> length bs"
  by (auto simp: wire_unknown_def wire_fixed_def Let_def dest!: dec_consumes wire_string_consumes
      split: option.splits if_splits)

interpretation wire: protobuf_runtime wire
proof
  fix f :: nat and v :: int and w :: u64 and s r :: "byte list"
  assume f: "1 \<le> f" "f \<le> 15"
  have tag: "ReadTag wire (enc_varint (8 * f + k) @ x) = Some (of_nat (8 * f + k), x)" if "k < 8" for k x
    using f that by (simp add: wire_def dec_enc)
  show "\<exists>p. ReadTag wire (WriteFixed64ToArray wire f w @ r) = Some (of_nat (8 * f + 1), p) \<and>
      UnalignedLoad64 wire p = Some (w, r)"
    using tag [of 1 "rev (be_bytes 8 w) @ r"]
    by (intro exI [of _ "rev (be_bytes 8 w) @ r"]) (simp add: wire_def wire_fixed_def)
  show "length (WriteEnumToArray wire f v) = 1 + EnumSize wire v"
    "length (WriteFixed64ToArray wire f w) = 9"
    "length (WriteStringMaybeAliased wire f s) = 1 + StringSize wire s"
    "length (WriteBytesMaybeAliased wire f s) = 1 + BytesSize wire s"
    using f by (simp_all add: wire_def length_enc_small)
  show "\<exists>p. ReadTag wire (WriteEnumToArray wire f v @ r) = Some (of_nat (8 * f), p) \<and>
      ReadVarint64 wire p = Some (word_of_int v, r)"
    if "- (2 ^ 31) \<le> v" "v < 2 ^ 31"
  proof -
    have "u64_of_enum v < 2 ^ 64"
      using pos_mod_bound [of "2 ^ 64" v] by (simp add: u64_of_enum_def nat_less_iff)
    then have D: "dec_varint 10 (enc_varint (u64_of_enum v) @ r) = Some (u64_of_enum v, r)"
      by (intro dec_enc) simp_all
    have "(word_of_int (int (u64_of_enum v)) :: u64) = word_of_int v"
      unfolding word_of_int_eq_iff by (simp add: u64_of_enum_def take_bit_eq_mod)
    then have W: "(of_nat (u64_of_enum v) :: u64) = word_of_int v" by simp
    show ?thesis
      using tag [of 0 "enc_varint (u64_of_enum v) @ r"] D W
      by (intro exI [of _ "enc_varint (u64_of_enum v) @ r"] conjI) (simp_all add: wire_def)
  qed
  show "\<exists>p. ReadTag wire (WriteStringMaybeAliased wire f s @ r) = Some (of_nat (8 * f + 2), p) \<and>
      InlineGreedyStringParser wire p = Some (s, r)"
    "\<exists>p. ReadTag wire (WriteBytesMaybeAliased wire f s @ r) = Some (of_nat (8 * f + 2), p) \<and>
      InlineGreedyStringParser wire p = Some (s, r)"
    if "length s < 2 ^ 31"
    using tag [of 2 "enc_varint (length s) @ s @ r"] wire_string_field [OF that, of r]
    by (force simp: wire_def)+
qed (auto simp: wire_def wire_fixed_def dest: dec_consumes wire_string_consumes wire_unknown_consumes
      split: if_splits)

section \<open>The properties of messages on the published wire format\<close>

definition sample_response :: RpcMessage where
  "sample_response = RpcMessage_ctor\<lparr>m_type := 2, m_id := 5, m_response := [1, 2]\<rparr>"

theorem message_roundtrip_witness:
  "ParseFromString wire (InternalSerialize wire sample_response) RpcMessage_ctor =
     Some (True, sample_response) \<and>
   length (InternalSerialize wire sample_response) = ByteSizeLong wire sample_response"
  by (rule message_roundtrip [OF wire.protobuf_runtime_axioms])
    (simp add: valid_message_def sample_response_def RpcMessage_ctor_def wire_def)

theorem parse_terminates_witness:
  "\<exists>ok m'. ParseFromString wire [26, 200, 0] RpcMessage_ctor = Some (ok, m')"
  by (rule parse_terminates [OF wire.protobuf_runtime_axioms])

end
