(* ===== verification/RpcCoder.thy ===== *)
theory RpcCoder
  imports Buffer Protobuf_Wire
begin

text \<open>
  \<open>rpc/RpcCoder.h\<close> and \<open>rpc/RpcCoder.cpp\<close>: a message travels as a frame, a four-byte
  big-endian length followed by the serialized message. Both overloads of \<open>pack\<close> and \<open>unpack\<close>
  are modelled on the model of \<open>Buffer\<close>, with the arithmetic on \<open>int32_t\<close> and its conversion to
  \<open>size_t\<close> as in the code.
\<close>

section \<open>Operations\<close>

definition kHeaderLen :: int where "kHeaderLen = 4"

text \<open>
  \<open>kHeaderLen + len\<close> on \<open>int32_t\<close>: overflow of signed arithmetic is undefined behaviour.
\<close>

definition frame_len :: "int \<Rightarrow> int res" where
  "frame_len len = (if kHeaderLen + len < 2 ^ 31 then Inr (kHeaderLen + len) else Inl Undefined)"

text \<open>\<open>std::string(data, n)\<close>: throws when \<open>n\<close> exceeds \<open>max_size\<close>, else copies \<open>n\<close> bytes.\<close>

definition std_string :: "nat \<Rightarrow> nat \<Rightarrow> byte list \<Rightarrow> byte list res" where
  "std_string p n v = (if n < 2 ^ 62 then vec_read p n v else Inl LengthError)"

text \<open>The member function \<open>unpack\<close>: the message is the codec's own \<open>_rpcMsg\<close>.\<close>

definition RpcCoder_unpack ::
  "host_order \<Rightarrow> runtime \<Rightarrow> RpcMessage \<Rightarrow> Buffer \<Rightarrow> (bool \<times> RpcMessage \<times> Buffer) res" where
  "RpcCoder_unpack h rt rpcMsg buf =
     bindE (peekInt32 h buf) (\<lambda>len.
     bindE (frame_len len) (\<lambda>total.
     if size_of_int total \<le> readableBytes buf
     then bindE (std_string (peek buf + nat kHeaderLen) (size_of_int len) (m_buffer buf)) (\<lambda>data.
          case ParseFromString rt data rpcMsg of
            None \<Rightarrow> Inl Undefined
          | Some (ok, msg) \<Rightarrow>
              if \<not> ok then Inr (False, msg, buf)
              else bindE (retrieve (size_of_int total) buf) (\<lambda>buf'. Inr (True, msg, buf')))
     else Inr (False, rpcMsg, buf)))"

definition RpcCoder_pack :: "host_order \<Rightarrow> runtime \<Rightarrow> byte list \<Rightarrow> RpcMessage \<Rightarrow> Buffer \<Rightarrow>
    (bool \<times> RpcMessage \<times> Buffer) res" where
  "RpcCoder_pack h rt rsp rpcMsg buf =
     (let msg = set_response rsp (set_type RESPONSE rpcMsg);
          bufStr = InternalSerialize rt msg in
      bindE (Buffer_append bufStr buf) (\<lambda>buf1.
      let len = hostToNetwork32 h (of_nat (readableBytes buf1)) in
      bindE (prepend (store h 4 len) buf1) (\<lambda>buf2.
      Inr (True, msg, buf2))))"

text \<open>The static overloads; this \<open>unpack\<close> only logs a parse error and drops the frame anyway.\<close>

definition unpack_static ::
  "host_order \<Rightarrow> runtime \<Rightarrow> Buffer \<Rightarrow> RpcMessage \<Rightarrow> (RpcMessage \<times> Buffer) res" where
  "unpack_static h rt buf msg =
     bindE (peekInt32 h buf) (\<lambda>len.
     bindE (frame_len len) (\<lambda>total.
     if size_of_int total \<le> readableBytes buf
     then bindE (std_string (peek buf + nat kHeaderLen) (size_of_int len) (m_buffer buf)) (\<lambda>data.
          case ParseFromString rt data msg of
            None \<Rightarrow> Inl Undefined
          | Some (ok, msg') \<Rightarrow>
              bindE (retrieve (size_of_int total) buf) (\<lambda>buf'. Inr (msg', buf')))
     else Inr (msg, buf)))"

definition pack_static :: "host_order \<Rightarrow> runtime \<Rightarrow> Buffer \<Rightarrow> RpcMessage \<Rightarrow> Buffer res" where
  "pack_static h rt buf msg =
     bindE (Buffer_append (InternalSerialize rt msg) buf) (\<lambda>buf1.
     let len = hostToNetwork32 h (of_nat (readableBytes buf1)) in
     prepend (store h 4 len) buf1)"

section \<open>Frames\<close>

definition frame :: "byte list \<Rightarrow> byte list" where
  "frame d = be_bytes 4 (of_nat (length d) :: u32) @ d"

lemma be_bytes_4: "be_bytes 4 (w :: u32) =
    [ucast (drop_bit 24 w), ucast (drop_bit 16 w), ucast (drop_bit 8 w), ucast w]"
  by (simp add: numeral_eq_Suc)

lemma sint_small: "n < 2 ^ 31 \<Longrightarrow> sint (of_nat n :: u32) = int n"
  by (simp add: signed_of_nat signed_take_bit_int_eq_self)

lemma pack_bytes:
  assumes "buffer_inv b" and "length d < 2 ^ 31" and "length (m_buffer b) + length d < 2 ^ 63"
    and "4 \<le> m_readerIndex b"
  shows "runs (\<lambda>b'. buffer_inv b' \<and> content b' = frame (content b @ d) \<and>
      length (m_buffer b') \<le> length (m_buffer b) + length d)
    (bindE (Buffer_append d b) (\<lambda>b1. prepend (store h 4 (hostToNetwork32 h (of_nat (readableBytes b1)))) b1))"
  unfolding runs_bindE
proof (rule runs_mono [OF buf.push_law [OF assms(1-3)]])
  fix b1 assume b1: "buffer_inv b1 \<and> content b1 = content b @ d \<and>
    min 8 (m_readerIndex b) \<le> m_readerIndex b1 \<and> length (m_buffer b1) \<le> length (m_buffer b) + length d"
  then have "readableBytes b1 = length (content b @ d)" by (metis length_content)
  then show "runs (\<lambda>b'. buffer_inv b' \<and> content b' = frame (content b @ d) \<and>
      length (m_buffer b') \<le> length (m_buffer b) + length d)
    (prepend (store h 4 (hostToNetwork32 h (of_nat (readableBytes b1)))) b1)"
    using b1 assms(4)
    by (intro runs_mono [OF buf.unshift_law]) (auto simp: store_hostToNetwork32 frame_def)
qed

text \<open>What the two overloads of \<open>unpack\<close> see when a whole frame is there.\<close>

lemma frame_header:
  assumes "buffer_inv b" and "content b = frame d @ rest" and "length d + 4 < 2 ^ 31"
  shows "peekInt32 h b = Inr (int (length d))" "frame_len (int (length d)) = Inr (int (length d + 4))"
    "size_of_int (int (length d + 4)) = length d + 4"
    "size_of_int (int (length d + 4)) \<le> readableBytes b"
    "std_string (peek b + 4) (size_of_int (int (length d))) (m_buffer b) = Inr d"
    "runs (\<lambda>b'. buffer_inv b' \<and> content b' = rest) (retrieve (length d + 4) b)"
proof -
  show "peekInt32 h b = Inr (int (length d))"
    using peekInt32_ok [OF assms(1), of "of_nat (length d)" "d @ rest"] assms(2,3)
    by (simp add: frame_def sint_small)
  show "frame_len (int (length d)) = Inr (int (length d + 4))"
    using assms(3) by (simp add: frame_len_def kHeaderLen_def)
  show 1: "size_of_int (int (length d + 4)) = length d + 4"
    using assms(3) by (simp add: size_of_int_def)
  show "size_of_int (int (length d + 4)) \<le> readableBytes b"
    using length_content [OF assms(1)] assms(2) 1 by (simp add: frame_def)
  from assms(1) obtain pre post where L: "layout b pre (content b) post" by (rule buffer_layout)
  then have "m_buffer b = pre @ be_bytes 4 (of_nat (length d) :: u32) @ d @ rest @ post"
    "m_readerIndex b = length pre"
    using assms(2) by (simp_all add: layout_def frame_def)
  then show "std_string (peek b + 4) (size_of_int (int (length d))) (m_buffer b) = Inr d"
    using assms(3) by (simp add: std_string_def vec_read_def peek_def size_of_int_def)
  show "runs (\<lambda>b'. buffer_inv b' \<and> content b' = rest) (retrieve (length d + 4) b)"
    using runs_mono [OF retrieve_ok [OF assms(1), of "length d + 4"]] assms(2)
    by (simp add: frame_def)
qed

lemma unpack_frame:
  assumes "buffer_inv b" and "content b = frame d @ rest" and "length d + 4 < 2 ^ 31"
    and "ParseFromString rt d m0 = Some (ok, m)"
  shows "runs (\<lambda>(ok', m', b'). ok' = ok \<and> m' = m \<and> buffer_inv b' \<and>
      content b' = (if ok then rest else content b)) (RpcCoder_unpack h rt m0 b)"
    and "runs (\<lambda>(m', b'). m' = m \<and> buffer_inv b' \<and> content b' = rest) (unpack_static h rt b m0)"
  using frame_header [OF assms(1-3)] assms(1,4)
  by (cases ok; simp add: RpcCoder_unpack_def unpack_static_def kHeaderLen_def runs_simps)+


text \<open>
  A header whose length is not covered by what has arrived: both overloads leave the buffer as it
  is, and the message too.
\<close>

lemma unpack_incomplete:
  assumes "buffer_inv b" and "content b = be_bytes 4 (w :: u32) @ rest"
    and "0 \<le> sint w" and "sint w + 4 < 2 ^ 31" and "length rest < nat (sint w)"
  shows "RpcCoder_unpack h rt m b = Inr (False, m, b)" and "unpack_static h rt b m = Inr (m, b)"
proof -
  have 1: "peekInt32 h b = Inr (sint w)" by (rule peekInt32_ok [OF assms(1,2)])
  have 2: "frame_len (sint w) = Inr (sint w + 4)"
    using assms(4) by (simp add: frame_len_def kHeaderLen_def)
  have 3: "\<not> size_of_int (sint w + 4) \<le> readableBytes b"
    using assms length_content [OF assms(1)] by (simp add: size_of_int_def)
  show "RpcCoder_unpack h rt m b = Inr (False, m, b)" and "unpack_static h rt b m = Inr (m, b)"
    using 1 2 3 by (simp_all add: RpcCoder_unpack_def unpack_static_def)
qed

lemma unpack_partial:
  assumes "buffer_inv b" and "content b = take k (frame d)" and "4 \<le> k" and "k < length d + 4"
    and "length d + 4 < 2 ^ 31"
  shows "RpcCoder_unpack h rt m b = Inr (False, m, b) \<and> unpack_static h rt b m = Inr (m, b)"
proof -
  have c: "content b = be_bytes 4 (of_nat (length d) :: u32) @ take (k - 4) d"
    using assms(2,3) by (simp add: frame_def)
  have s: "sint (of_nat (length d) :: u32) = int (length d)" using assms(5) by (simp add: sint_small)
  show ?thesis
    using unpack_incomplete [OF assms(1) c] s assms(3-5) by simp
qed

section \<open>Properties\<close>

text \<open>
  C2: the round trip of the codec. A valid message packed into an empty buffer is one frame, a
  big-endian length and the serialized message, whatever the byte order of the sending host; a
  receiver of any byte order, whose buffer holds that frame followed by other bytes, unpacks
  exactly that message with either overload of \<open>unpack\<close> and keeps exactly the bytes that follow
  the frame.
\<close>

theorem pack_unpack_roundtrip:
  assumes "protobuf_runtime rt" and "valid_message rt m"
    and "length (InternalSerialize rt m) + 4 < 2 ^ 31"
    and "buffer_inv out" and "content out = []" and "4 \<le> m_readerIndex out"
    and "length (m_buffer out) + length (InternalSerialize rt m) < 2 ^ 63"
    and "buffer_inv inp" and "content inp = frame (InternalSerialize rt m) @ rest"
  shows "runs (\<lambda>out'. buffer_inv out' \<and> content out' = frame (InternalSerialize rt m))
      (pack_static h rt out m) \<and>
    runs (\<lambda>(ok, m', inp'). ok \<and> m' = m \<and> buffer_inv inp' \<and> content inp' = rest)
      (RpcCoder_unpack h' rt m0 inp) \<and>
    runs (\<lambda>(m', inp'). m' = m \<and> buffer_inv inp' \<and> content inp' = rest) (unpack_static h' rt inp m0)"
proof (intro conjI)
  note parse = protobuf_runtime.parse_serialize [OF assms(1,2), of m0]
  show "runs (\<lambda>out'. buffer_inv out' \<and> content out' = frame (InternalSerialize rt m))
      (pack_static h rt out m)"
    using runs_mono [OF pack_bytes [OF assms(4) _ assms(7,6)]] assms(3,5)
    by (simp add: pack_static_def Let_def)
  show "runs (\<lambda>(ok, m', inp'). ok \<and> m' = m \<and> buffer_inv inp' \<and> content inp' = rest)
      (RpcCoder_unpack h' rt m0 inp)"
    by (rule runs_mono [OF unpack_frame(1) [OF assms(8,9,3) parse]]) auto
  show "runs (\<lambda>(m', inp'). m' = m \<and> buffer_inv inp' \<and> content inp' = rest) (unpack_static h' rt inp m0)"
    by (rule unpack_frame(2) [OF assms(8,9,3) parse])
qed

definition ping_request :: RpcMessage where
  "ping_request = RpcMessage_ctor\<lparr>m_type := 1, m_service := [69], m_method := [112]\<rparr>"

lemma ping_request_bytes: "InternalSerialize wire ping_request = [8, 1, 26, 1, 69, 34, 1, 112]"
  by code_simp

theorem pack_unpack_roundtrip_witness:
  "runs (\<lambda>out'. buffer_inv out' \<and> content out' = [0, 0, 0, 8, 8, 1, 26, 1, 69, 34, 1, 112])
      (pack_static LittleEndian wire
        \<lparr>m_buffer = replicate 8 0, m_readerIndex = 8, m_writerIndex = 8\<rparr> ping_request) \<and>
    runs (\<lambda>(ok, m', inp'). ok \<and> m' = ping_request \<and> buffer_inv inp' \<and> content inp' = [255])
      (RpcCoder_unpack BigEndian wire RpcMessage_ctor
        \<lparr>m_buffer = replicate 8 0 @ [0, 0, 0, 8, 8, 1, 26, 1, 69, 34, 1, 112, 255],
         m_readerIndex = 8, m_writerIndex = 21\<rparr>)"
proof -
  have f: "frame [8, 1, 26, 1, 69, 34, 1, 112] = [0, 0, 0, 8, 8, 1, 26, 1, 69, 34, 1, 112]"
    by (simp add: frame_def be_bytes_4)
  have v: "valid_message wire ping_request"
    by (simp add: valid_message_def ping_request_def RpcMessage_ctor_def wire_def)
  show ?thesis
    using pack_unpack_roundtrip [OF wire.protobuf_runtime_axioms v,
        of "\<lparr>m_buffer = replicate 8 0, m_readerIndex = 8, m_writerIndex = 8\<rparr>"
          "\<lparr>m_buffer = replicate 8 0 @ [0, 0, 0, 8, 8, 1, 26, 1, 69, 34, 1, 112, 255],
            m_readerIndex = 8, m_writerIndex = 21\<rparr>" "[255]" LittleEndian BigEndian RpcMessage_ctor]
    unfolding ping_request_bytes f
    by (simp add: buffer_inv_def content_def kCheapPrepend_def)
qed

text \<open>
  A frame of which only a part has arrived is left alone: as long as the four header bytes
  are there and announce a length that is not yet readable, both overloads return without
  touching the buffer or the message, so that the next call sees the same prefix and more.
\<close>

theorem unpack_waits_for_frame:
  assumes "buffer_inv b" and "content b = take k (frame d)" and "4 \<le> k" and "k < length d + 4"
    and "length d + 4 < 2 ^ 31"
  shows "RpcCoder_unpack h rt m b = Inr (False, m, b) \<and> unpack_static h rt b m = Inr (m, b)"
  using assms by (rule unpack_partial)

theorem unpack_waits_for_frame_witness:
  "RpcCoder_unpack LittleEndian wire RpcMessage_ctor
     \<lparr>m_buffer = replicate 8 0 @ [0, 0, 0, 2, 7], m_readerIndex = 8, m_writerIndex = 13\<rparr> =
   Inr (False, RpcMessage_ctor,
     \<lparr>m_buffer = replicate 8 0 @ [0, 0, 0, 2, 7], m_readerIndex = 8, m_writerIndex = 13\<rparr>)"
proof -
  have "take 5 (frame [7, 9]) = [0, 0, 0, 2, 7]" by code_simp
  then show ?thesis
    using unpack_waits_for_frame [of "\<lparr>m_buffer = replicate 8 0 @ [0, 0, 0, 2, 7], m_readerIndex = 8,
        m_writerIndex = 13\<rparr>" 5 "[7, 9]" LittleEndian wire RpcMessage_ctor]
    by (simp add: buffer_inv_def content_def kCheapPrepend_def)
qed

text \<open>
  C32: two inputs of a peer that end the receiving process. With fewer than four readable bytes,
  which is what a segment boundary inside a header leaves, \<open>peekInt32\<close> fails its assertion; with
  a header between -4 and -1 the comparison of sizes succeeds and the conversion of the negative
  length to \<open>size_t\<close> makes the \<open>std::string\<close> constructor throw.
\<close>

theorem unpack_hostile_header:
  assumes "buffer_inv b"
    and "length (content b) < 4 \<or>
         content b = be_bytes 4 (w :: u32) @ rest \<and> - 4 \<le> sint w \<and> sint w < 0"
  shows "RpcCoder_unpack h rt m b = Inl (if length (content b) < 4 then AssertFail else LengthError) \<and>
    unpack_static h rt b m = Inl (if length (content b) < 4 then AssertFail else LengthError)"
  using assms(2)
proof
  assume "length (content b) < 4"
  then show ?thesis
    using length_content [OF assms(1)]
    by (simp add: RpcCoder_unpack_def unpack_static_def peekInt32_def)
next
  assume w: "content b = be_bytes 4 w @ rest \<and> - 4 \<le> sint w \<and> sint w < 0"
  then have 1: "peekInt32 h b = Inr (sint w)" by (intro peekInt32_ok [OF assms(1)]) simp
  have 2: "frame_len (sint w) = Inr (sint w + 4)" using w by (simp add: frame_len_def kHeaderLen_def)
  have 3: "size_of_int (sint w + 4) \<le> readableBytes b"
    using length_content [OF assms(1)] w by (auto simp: size_of_int_def)
  have "(sint w + 2 ^ 64) mod 2 ^ 64 = sint w + 2 ^ 64" using w by (intro mod_pos_pos_trivial) simp_all
  then have "sint w mod 2 ^ 64 = sint w + 2 ^ 64" by simp
  then have 4: "std_string p (size_of_int (sint w)) v = Inl LengthError" for p v
    using w by (auto simp: std_string_def size_of_int_def nat_less_iff)
  show ?thesis
    using 1 2 3 4 w by (simp add: RpcCoder_unpack_def unpack_static_def)
qed

theorem unpack_hostile_header_witness:
  "RpcCoder_unpack LittleEndian wire RpcMessage_ctor
     \<lparr>m_buffer = replicate 8 0 @ [255, 255, 255, 255], m_readerIndex = 8, m_writerIndex = 12\<rparr> =
   Inl LengthError"
proof -
  have "be_bytes 4 (- 1 :: u32) = [255, 255, 255, 255]" by code_simp
  then show ?thesis
    using unpack_hostile_header [of "\<lparr>m_buffer = replicate 8 0 @ [255, 255, 255, 255],
        m_readerIndex = 8, m_writerIndex = 12\<rparr>" "- 1" "[]" LittleEndian wire RpcMessage_ctor]
    by (simp add: buffer_inv_def content_def kCheapPrepend_def)
qed

text \<open>
  \<open>pack\<close> writes the length of everything that is readable, not of the message it appends. Into
  a buffer that still holds bytes of an earlier frame it therefore puts one frame header around
  both, in front of the bytes already there.
\<close>

theorem pack_covers_old_bytes:
  assumes "buffer_inv b" and "4 \<le> m_readerIndex b" and "length (InternalSerialize rt m) < 2 ^ 31"
    and "length (m_buffer b) + length (InternalSerialize rt m) < 2 ^ 63"
  shows "runs (\<lambda>b'. content b' = frame (content b @ InternalSerialize rt m)) (pack_static h rt b m)"
  using runs_mono [OF pack_bytes [OF assms(1,3,4,2)]] by (simp add: pack_static_def Let_def)

theorem pack_covers_old_bytes_witness:
  "runs (\<lambda>b'. content b' = [0, 0, 0, 10, 0, 0, 8, 1, 26, 1, 69, 34, 1, 112])
    (pack_static LittleEndian wire
      \<lparr>m_buffer = replicate 10 0, m_readerIndex = 8, m_writerIndex = 10\<rparr> ping_request)"
proof -
  have "replicate 2 0 = [0, 0 :: byte]" by (simp add: numeral_2_eq_2)
  moreover have "frame ([0, 0] @ [8, 1, 26, 1, 69, 34, 1, 112]) = [0, 0, 0, 10, 0, 0, 8, 1, 26, 1, 69, 34, 1, 112]"
    by (simp add: frame_def be_bytes_4)
  ultimately show ?thesis
    using pack_covers_old_bytes [of "\<lparr>m_buffer = replicate 10 0, m_readerIndex = 8, m_writerIndex = 10\<rparr>"
        wire ping_request LittleEndian]
    by (simp add: ping_request_bytes buffer_inv_def content_def kCheapPrepend_def)
qed

end
