(* ===== verification/TcpConnection.thy ===== *)
theory TcpConnection
  imports Buffer Channel
begin

text \<open>
  \<open>net/TcpConnection.h\<close> and \<open>net/TcpConnection.cpp\<close>: the life of one connection, its buffers, and the
  bytes it hands to the kernel. \<open>sockets::write\<close> and \<open>readv\<close> are parameters. \<open>written\<close> is the history of
  bytes the kernel accepted, \<open>shut_wr\<close> tells that the writing side was shut down, \<open>tasks\<close> what the
  connection has queued on its loop, and \<open>log\<close> the user callbacks it has called. The channel's
  registration with the poller is the subject of the theory \<open>Epoll\<close>; here the channel's mask counts.
  \<open>t\<close> is the thread that calls, \<open>loop_tid\<close> the thread of the loop.

  A functor that \<open>send\<close> posts from another thread holds a pointer to the caller's bytes; the model
  takes them as they are when the functor is made, that is, the caller must leave them alone until
  it has run.
\<close>

section \<open>Data\<close>

datatype StateE = kDisConnected | kConnecting | kDisConnecting | kConnected

datatype conn_task = SendInLoop "byte list" | ShutdownInLoop | ForceCloseInLoop | WriteComplete
  | HighWater nat

datatype conn_event = ConnectionCb bool | MessageCb | CloseCb | SoError

record TcpConnection =
  loop_tid :: tid
  m_name :: string
  m_state :: StateE
  p_channel :: "unit Channel"
  m_inputBuffer :: Buffer
  m_outputBuffer :: Buffer
  highWaterMark :: nat
  has_connectionCallBack :: bool
  has_writeCompleteCallBack :: bool
  has_highWaterMarkCallback :: bool
  written :: "byte list"
  shut_wr :: bool
  tasks :: "conn_task list"
  log :: "conn_event list"

type_synonym sys_write = "byte list \<Rightarrow> errno + nat"

definition EWOULDBLOCK :: errno where "EWOULDBLOCK = 11"
definition EPIPE :: errno where "EPIPE = 32"
definition ECONNRESET :: errno where "ECONNRESET = 104"

definition newTcpConnection :: "tid \<Rightarrow> string \<Rightarrow> fd \<Rightarrow> TcpConnection res" where
  "newTcpConnection t name sockfd =
     bindE (newBuffer kInitialSize) (\<lambda>inp.
     bindE (newBuffer kInitialSize) (\<lambda>out.
     Inr \<lparr>loop_tid = t, m_name = name, m_state = kConnecting,
       p_channel = (newChannel sockfd)\<lparr>m_readCallBack := Some (), m_writeCallBack := Some (),
         m_closeCallBack := Some (), m_errorCallBack := Some ()\<rparr>,
       m_inputBuffer = inp, m_outputBuffer = out, highWaterMark = 64 * 1024 * 1024,
       has_connectionCallBack = False, has_writeCompleteCallBack = False,
       has_highWaterMarkCallback = False, written = [], shut_wr = False, tasks = [], log = []\<rparr>))"

section \<open>Small operations\<close>

definition in_loop :: "tid \<Rightarrow> TcpConnection \<Rightarrow> 'a res \<Rightarrow> 'a res" where
  "in_loop t c m = (if t = loop_tid c then m else Inl FatalLog)"

definition isConnected :: "TcpConnection \<Rightarrow> bool" where
  "isConnected c \<longleftrightarrow> m_state c = kConnected"

definition isDisConnected :: "TcpConnection \<Rightarrow> bool" where
  "isDisConnected c \<longleftrightarrow> m_state c = kDisConnected"

definition stateToString :: "TcpConnection \<Rightarrow> string" where
  "stateToString c =
     (case m_state c of
        kDisConnected \<Rightarrow> ''kDisConnected''
      | kConnecting \<Rightarrow> ''kConnecting''
      | kConnected \<Rightarrow> ''kConnected''
      | kDisConnecting \<Rightarrow> ''kDisConnecting'')"

text \<open>The assignment \<open>highWaterMark = highWaterMark\<close> is to the parameter itself.\<close>

definition setHighWaterMarkCallback :: "nat \<Rightarrow> TcpConnection \<Rightarrow> TcpConnection" where
  "setHighWaterMarkCallback mark c = c\<lparr>has_highWaterMarkCallback := True\<rparr>"

definition setWriteCompleteCallback :: "TcpConnection \<Rightarrow> TcpConnection" where
  "setWriteCompleteCallback c = c\<lparr>has_writeCompleteCallBack := True\<rparr>"

definition setConnectionCallBack :: "TcpConnection \<Rightarrow> TcpConnection" where
  "setConnectionCallBack c = c\<lparr>has_connectionCallBack := True\<rparr>"

definition conn_mask :: "mask_op \<Rightarrow> TcpConnection \<Rightarrow> TcpConnection" where
  "conn_mask m c =
     c\<lparr>p_channel := (p_channel c)\<lparr>m_events := apply_mask m (m_events (p_channel c)), m_addedToLoop := True\<rparr>\<rparr>"

definition queue_task :: "conn_task \<Rightarrow> TcpConnection \<Rightarrow> TcpConnection" where
  "queue_task k c = c\<lparr>tasks := tasks c @ [k]\<rparr>"

definition emit :: "conn_event \<Rightarrow> TcpConnection \<Rightarrow> TcpConnection" where
  "emit e c = c\<lparr>log := log c @ [e]\<rparr>"

section \<open>Operations\<close>

definition connectEstablished :: "tid \<Rightarrow> TcpConnection \<Rightarrow> TcpConnection res" where
  "connectEstablished t c =
     in_loop t c
       (assertE (m_state c = kConnecting)
         (let c1 = conn_mask EnableReading (c\<lparr>m_state := kConnected\<rparr>) in
          Inr (if has_connectionCallBack c1 then emit (ConnectionCb (isConnected c1)) c1 else c1)))"

text \<open>
  \<open>sendInLoop\<close>: what is written directly and what is left; \<open>None\<close> when the peer is gone.
\<close>

definition try_write :: "sys_write \<Rightarrow> byte list \<Rightarrow> TcpConnection \<Rightarrow> nat \<times> bool \<times> TcpConnection" where
  "try_write wr data c =
     (if \<not> isWriting (p_channel c) \<and> readableBytes (m_outputBuffer c) = 0
      then (case wr data of
              Inr n \<Rightarrow>
                let c1 = c\<lparr>written := written c @ take n data\<rparr> in
                (n, False, if length data - n = 0 \<and> has_writeCompleteCallBack c
                           then queue_task WriteComplete c1 else c1)
            | Inl err \<Rightarrow> (0, err \<noteq> EWOULDBLOCK \<and> (err = EPIPE \<or> err = ECONNRESET), c))
      else (0, False, c))"

definition note_high_water :: "nat \<Rightarrow> TcpConnection \<Rightarrow> TcpConnection" where
  "note_high_water remaining c =
     (let oldLen = readableBytes (m_outputBuffer c) in
      if oldLen + remaining \<ge> highWaterMark c \<and> oldLen < remaining \<and> has_highWaterMarkCallback c
      then queue_task (HighWater (oldLen + remaining)) c else c)"

definition buffer_rest :: "byte list \<Rightarrow> TcpConnection \<Rightarrow> TcpConnection res" where
  "buffer_rest rest c =
     bindE (Buffer_append rest (m_outputBuffer c)) (\<lambda>out.
     let c1 = c\<lparr>m_outputBuffer := out\<rparr> in
     Inr (if \<not> isWriting (p_channel c1) then conn_mask EnableWriting c1 else c1))"

definition sendInLoop :: "sys_write \<Rightarrow> tid \<Rightarrow> byte list \<Rightarrow> TcpConnection \<Rightarrow> TcpConnection res" where
  "sendInLoop wr t data c =
     in_loop t c
       (if m_state c = kDisConnected then Inr c
        else (case try_write wr data c of (nwrote, faultError, c1) \<Rightarrow>
          let remaining = size_sub (length data) nwrote in
          assertE (remaining \<le> length data)
            (if \<not> faultError \<and> remaining > 0
             then buffer_rest (drop nwrote data) (note_high_water remaining c1)
             else Inr c1)))"

definition TcpConnection_send :: "sys_write \<Rightarrow> tid \<Rightarrow> byte list \<Rightarrow> TcpConnection \<Rightarrow> TcpConnection res" where
  "TcpConnection_send wr t data c =
     (if m_state c = kConnected
      then if t = loop_tid c then sendInLoop wr t data c
           else Inr (queue_task (SendInLoop data) c)
      else Inr c)"

definition shutdownInLoop :: "tid \<Rightarrow> TcpConnection \<Rightarrow> TcpConnection res" where
  "shutdownInLoop t c =
     in_loop t c (Inr (if \<not> isWriting (p_channel c) then c\<lparr>shut_wr := True\<rparr> else c))"

definition shutdown :: "tid \<Rightarrow> TcpConnection \<Rightarrow> TcpConnection res" where
  "shutdown t c =
     (if m_state c = kConnected
      then let c1 = c\<lparr>m_state := kDisConnecting\<rparr> in
           if t = loop_tid c1 then shutdownInLoop t c1 else Inr (queue_task ShutdownInLoop c1)
      else Inr c)"

definition conn_handleClose :: "tid \<Rightarrow> TcpConnection \<Rightarrow> TcpConnection res" where
  "conn_handleClose t c =
     in_loop t c
       (assertE (m_state c = kConnected \<or> m_state c = kDisConnecting)
         (let c1 = conn_mask DisableAll (c\<lparr>m_state := kDisConnected\<rparr>) in
          Inr (emit CloseCb (emit (ConnectionCb (isConnected c1)) c1))))"

definition conn_handleError :: "TcpConnection \<Rightarrow> TcpConnection" where
  "conn_handleError c = emit SoError c"

definition conn_handleRead ::
  "(nat list \<Rightarrow> errno + byte list) \<Rightarrow> tid \<Rightarrow> TcpConnection \<Rightarrow> TcpConnection res" where
  "conn_handleRead readv t c =
     bindE (readFd readv (m_inputBuffer c)) (\<lambda>(inp, n, savedErrno).
       let c1 = c\<lparr>m_inputBuffer := inp\<rparr> in
       if n > 0 then Inr (emit MessageCb c1)
       else if n = 0 then conn_handleClose t c1
       else Inr (conn_handleError c1))"

definition conn_handleWrite :: "sys_write \<Rightarrow> tid \<Rightarrow> TcpConnection \<Rightarrow> TcpConnection res" where
  "conn_handleWrite wr t c =
     in_loop t c
       (if isWriting (p_channel c)
        then bindE (vec_read (peek (m_outputBuffer c)) (readableBytes (m_outputBuffer c))
                     (m_buffer (m_outputBuffer c))) (\<lambda>data.
          case wr data of
            Inl _ \<Rightarrow> Inr c
          | Inr n \<Rightarrow>
              if n > 0
              then bindE (retrieve n (m_outputBuffer c)) (\<lambda>out.
                let c1 = c\<lparr>m_outputBuffer := out, written := written c @ take n data\<rparr> in
                if readableBytes out = 0
                then let c2 = conn_mask DisableWriting c1;
                         c3 = (if has_writeCompleteCallBack c2 then queue_task WriteComplete c2 else c2)
                     in if m_state c3 = kDisConnecting then shutdownInLoop t c3 else Inr c3
                else Inr c1)
              else Inr c)
        else Inr c)"

definition connectDestroyed :: "tid \<Rightarrow> TcpConnection \<Rightarrow> TcpConnection res" where
  "connectDestroyed t c =
     in_loop t c
       (let c1 = (if m_state c = kConnected then conn_mask DisableAll (c\<lparr>m_state := kDisConnected\<rparr>) else c) in
        assertE (isNoneEvent (p_channel c1))
          (Inr (c1\<lparr>p_channel := (p_channel c1)\<lparr>m_addedToLoop := False\<rparr>\<rparr>)))"

definition forceClose :: "TcpConnection \<Rightarrow> TcpConnection" where
  "forceClose c =
     (if m_state c = kConnected \<or> m_state c = kDisConnecting
      then queue_task ForceCloseInLoop (c\<lparr>m_state := kDisConnecting\<rparr>) else c)"

definition forceCloseInLoop :: "tid \<Rightarrow> TcpConnection \<Rightarrow> TcpConnection res" where
  "forceCloseInLoop t c =
     in_loop t c
       (if m_state c = kConnected \<or> m_state c = kDisConnecting then conn_handleClose t c else Inr c)"

definition destroyTcpConnection :: "TcpConnection \<Rightarrow> unit res" where
  "destroyTcpConnection c = assertE (m_state c = kDisConnected) (Inr ())"

text \<open>The loop runs a task the connection queued; the user callbacks have no effect of their own here.\<close>

definition run_task :: "sys_write \<Rightarrow> tid \<Rightarrow> conn_task \<Rightarrow> TcpConnection \<Rightarrow> TcpConnection res" where
  "run_task wr t k c =
     (case k of
        SendInLoop data \<Rightarrow> sendInLoop wr t data c
      | ShutdownInLoop \<Rightarrow> shutdownInLoop t c
      | ForceCloseInLoop \<Rightarrow> forceCloseInLoop t c
      | WriteComplete \<Rightarrow> Inr c
      | HighWater _ \<Rightarrow> Inr c)"

section \<open>Invariant\<close>

text \<open>
  While the connection is up its channel reads, and it writes exactly when there are bytes waiting
  in the output buffer; before and after that the channel is off. The close callback has been
  called exactly if the connection was closed by \<open>handleClose\<close>, and then once.
\<close>

definition conn_up :: "TcpConnection \<Rightarrow> bool" where
  "conn_up c \<longleftrightarrow> m_state c = kConnected \<or> m_state c = kDisConnecting"

definition closes :: "TcpConnection \<Rightarrow> nat" where
  "closes c = length (filter (\<lambda>e. e = CloseCb) (log c))"

definition conn_inv :: "TcpConnection \<Rightarrow> bool" where
  "conn_inv c \<longleftrightarrow> buffer_inv (m_inputBuffer c) \<and> buffer_inv (m_outputBuffer c) \<and>
     m_events (p_channel c) = ev_mask (conn_up c) (conn_up c \<and> content (m_outputBuffer c) \<noteq> []) \<and>
     (m_state c = kConnecting \<longrightarrow> content (m_outputBuffer c) = []) \<and>
     closes c \<le> (if m_state c = kDisConnected then 1 else 0)"

text \<open>What \<open>write\<close> is documented to do: accept a prefix, or fail.\<close>

definition wr_ok :: "sys_write \<Rightarrow> bool" where
  "wr_ok wr \<longleftrightarrow> (\<forall>data. case wr data of Inl _ \<Rightarrow> True | Inr n \<Rightarrow> n \<le> length data)"

text \<open>The bytes the connection has taken from its user and not given up: on the wire or buffered.\<close>

definition sent :: "TcpConnection \<Rightarrow> byte list" where
  "sent c = written c @ content (m_outputBuffer c)"

text \<open>The direct write that \<open>sendInLoop\<close> tries fails because the peer is gone.\<close>

definition peer_gone :: "sys_write \<Rightarrow> byte list \<Rightarrow> TcpConnection \<Rightarrow> bool" where
  "peer_gone wr data c \<longleftrightarrow> content (m_outputBuffer c) = [] \<and> wr data \<in> {Inl EPIPE, Inl ECONNRESET}"

lemma conn_inv_writing:
  assumes "conn_inv c"
  shows "isWriting (p_channel c) \<longleftrightarrow> conn_up c \<and> content (m_outputBuffer c) \<noteq> []"
    and "isReading (p_channel c) \<longleftrightarrow> conn_up c"
    and "isNoneEvent (p_channel c) \<longleftrightarrow> \<not> conn_up c"
  using assms mask_bits [of "p_channel c" "conn_up c" "conn_up c \<and> content (m_outputBuffer c) \<noteq> []"]
  by (auto simp: conn_inv_def)

lemma readable_content: "buffer_inv b \<Longrightarrow> readableBytes b = 0 \<longleftrightarrow> content b = []"
  using length_content [of b] by (metis length_0_conv)

lemma conn_mask_simps [simp]:
  "m_state (conn_mask m c) = m_state c" "m_inputBuffer (conn_mask m c) = m_inputBuffer c"
  "m_outputBuffer (conn_mask m c) = m_outputBuffer c" "written (conn_mask m c) = written c"
  "loop_tid (conn_mask m c) = loop_tid c" "log (conn_mask m c) = log c" "tasks (conn_mask m c) = tasks c"
  "shut_wr (conn_mask m c) = shut_wr c" "highWaterMark (conn_mask m c) = highWaterMark c"
  "has_writeCompleteCallBack (conn_mask m c) = has_writeCompleteCallBack c"
  "m_events (p_channel (conn_mask m c)) = apply_mask m (m_events (p_channel c))"
  by (simp_all add: conn_mask_def)

lemma queue_task_simps [simp]:
  "m_state (queue_task k c) = m_state c" "m_inputBuffer (queue_task k c) = m_inputBuffer c"
  "m_outputBuffer (queue_task k c) = m_outputBuffer c" "written (queue_task k c) = written c"
  "loop_tid (queue_task k c) = loop_tid c" "log (queue_task k c) = log c"
  "shut_wr (queue_task k c) = shut_wr c" "p_channel (queue_task k c) = p_channel c"
  "highWaterMark (queue_task k c) = highWaterMark c" "tasks (queue_task k c) = tasks c @ [k]"
  by (simp_all add: queue_task_def)

lemma emit_simps [simp]:
  "m_state (emit e c) = m_state c" "m_inputBuffer (emit e c) = m_inputBuffer c"
  "m_outputBuffer (emit e c) = m_outputBuffer c" "written (emit e c) = written c"
  "loop_tid (emit e c) = loop_tid c" "log (emit e c) = log c @ [e]" "tasks (emit e c) = tasks c"
  "shut_wr (emit e c) = shut_wr c" "p_channel (emit e c) = p_channel c"
  by (simp_all add: emit_def)

lemma conn_inv_cong:
  assumes "conn_inv c" and "m_state c' = m_state c" and "m_inputBuffer c' = m_inputBuffer c"
    and "m_outputBuffer c' = m_outputBuffer c" and "m_events (p_channel c') = m_events (p_channel c)"
    and "closes c' = closes c"
  shows "conn_inv c'"
  using assms by (simp add: conn_inv_def conn_up_def)

section \<open>Sending\<close>

lemma try_write_ok:
  assumes "conn_inv c" and "wr_ok wr" and "conn_up c" and tw: "try_write wr data c = (n, fault, c1)"
  shows "n \<le> length data" and "fault \<longleftrightarrow> peer_gone wr data c" and "conn_inv c1" and "conn_up c1"
    and "written c1 = written c @ take n data" and "m_outputBuffer c1 = m_outputBuffer c"
    and "content (m_outputBuffer c) \<noteq> [] \<Longrightarrow> n = 0"
    and "m_state c1 = m_state c" "loop_tid c1 = loop_tid c"
    and "fault \<Longrightarrow> n = 0" and "shut_wr c1 = shut_wr c"
proof -
  have inv: "buffer_inv (m_outputBuffer c)" using assms(1) by (simp add: conn_inv_def)
  have direct: "\<not> isWriting (p_channel c) \<and> readableBytes (m_outputBuffer c) = 0 \<longleftrightarrow>
      content (m_outputBuffer c) = []"
    using conn_inv_writing(1) [OF assms(1)] readable_content [OF inv] by auto
  have bound: "k \<le> length data" if "wr data = Inr k" for k
    using assms(2) that by (auto simp: wr_ok_def dest: spec [of _ data])
  show "n \<le> length data" "fault \<longleftrightarrow> peer_gone wr data c"
      "written c1 = written c @ take n data" "m_outputBuffer c1 = m_outputBuffer c"
      "content (m_outputBuffer c) \<noteq> [] \<Longrightarrow> n = 0" "m_state c1 = m_state c" "loop_tid c1 = loop_tid c"
      "fault \<Longrightarrow> n = 0" "shut_wr c1 = shut_wr c"
    using tw bound unfolding try_write_def direct peer_gone_def
    by (auto simp: Let_def EWOULDBLOCK_def EPIPE_def ECONNRESET_def split: sum.splits if_splits)
  show "conn_inv c1" "conn_up c1"
    using tw assms(1,3) unfolding try_write_def direct
    by (auto simp: Let_def conn_up_def closes_def split: sum.splits if_splits
        elim!: conn_inv_cong)
qed

lemma note_high_water_simps [simp]:
  "m_state (note_high_water r c) = m_state c" "m_inputBuffer (note_high_water r c) = m_inputBuffer c"
  "m_outputBuffer (note_high_water r c) = m_outputBuffer c" "written (note_high_water r c) = written c"
  "loop_tid (note_high_water r c) = loop_tid c" "log (note_high_water r c) = log c"
  "shut_wr (note_high_water r c) = shut_wr c" "p_channel (note_high_water r c) = p_channel c"
  by (simp_all add: note_high_water_def Let_def)

lemma buffer_rest_ok:
  assumes "conn_inv c" and "conn_up c" and "rest \<noteq> []" and "length rest < 2 ^ 31"
    and "length (m_buffer (m_outputBuffer c)) + length rest < 2 ^ 63"
  shows "runs (\<lambda>c'. conn_inv c' \<and> m_state c' = m_state c \<and> loop_tid c' = loop_tid c \<and>
      sent c' = sent c @ rest \<and> shut_wr c' = shut_wr c \<and> written c' = written c \<and>
      length (m_buffer (m_outputBuffer c')) \<le> length (m_buffer (m_outputBuffer c)) + length rest)
    (buffer_rest rest c)"
proof -
  have out: "buffer_inv (m_outputBuffer c)" using assms(1) by (simp add: conn_inv_def)
  from buf.push_law [OF out assms(4,5)] obtain b where
    b: "Buffer_append rest (m_outputBuffer c) = Inr b" "buffer_inv b"
      "content b = content (m_outputBuffer c) @ rest"
      "length (m_buffer b) \<le> length (m_buffer (m_outputBuffer c)) + length rest"
    by (auto simp: runs_iff)
  have ev: "m_events (p_channel c) = ev_mask True (content (m_outputBuffer c) \<noteq> [])"
    using assms(1,2) by (simp add: conn_inv_def)
  show ?thesis
  proof (cases "isWriting (p_channel c)")
    case True
    then have "m_events (p_channel c) = ev_mask True True" using ev mask_bits(2) [OF ev] by simp
    then show ?thesis
      using assms(1-3) b True
      by (auto simp: buffer_rest_def Let_def conn_inv_def conn_up_def closes_def sent_def)
  next
    case False
    then have "m_events (p_channel c) = ev_mask True False" using ev mask_bits(2) [OF ev] by simp
    then have "apply_mask EnableWriting (m_events (p_channel c)) = ev_mask True True"
      using apply_mask_switch [of EnableWriting True False] by simp
    then show ?thesis
      using assms(1-3) b False
      by (auto simp: buffer_rest_def Let_def conn_inv_def conn_up_def closes_def sent_def)
  qed
qed

lemma sendInLoop_ok:
  assumes "conn_inv c" and "wr_ok wr" and "conn_up c" and "t = loop_tid c"
    and "length data < 2 ^ 31" and "length (m_buffer (m_outputBuffer c)) + length data < 2 ^ 63"
  shows "runs (\<lambda>c'. conn_inv c' \<and> m_state c' = m_state c \<and> loop_tid c' = loop_tid c \<and>
      sent c' = (if peer_gone wr data c then sent c else sent c @ data) \<and> shut_wr c' = shut_wr c \<and>
      (\<exists>w. written c' = written c @ w) \<and>
      length (m_buffer (m_outputBuffer c')) \<le> length (m_buffer (m_outputBuffer c)) + length data)
    (sendInLoop wr t data c)"
proof -
  obtain n fault c1 where tw: "try_write wr data c = (n, fault, c1)" by (cases "try_write wr data c")
  note T = try_write_ok [OF assms(1-3) tw]
  have up: "m_state c \<noteq> kDisConnected" using assms(3) by (auto simp: conn_up_def)
  have rem: "size_sub (length data) n = length data - n"
    using T(1) assms(5) by (simp add: size_sub_exact)
  show ?thesis
  proof (cases "fault \<or> length data - n = 0")
    case True
    then have "take n data = data \<or> fault" using T(1) by auto
    then have "sent c1 = (if peer_gone wr data c then sent c else sent c @ data)"
      using T True by (cases "content (m_outputBuffer c) = []") (auto simp: sent_def)
    moreover have "sendInLoop wr t data c = Inr c1"
      using up True tw rem assms(4) by (auto simp: sendInLoop_def in_loop_def)
    ultimately show ?thesis using T by simp
  next
    case False
    let ?c2 = "note_high_water (length data - n) c1"
    have i2: "conn_inv ?c2" using T(3) by (rule conn_inv_cong) (simp_all add: closes_def)
    have u2: "conn_up ?c2" using T(4) by (simp add: conn_up_def)
    have "sent ?c2 @ drop n data = sent c @ data"
      using T(5-7) by (cases "content (m_outputBuffer c) = []") (auto simp: sent_def)
    moreover have "sendInLoop wr t data c = buffer_rest (drop n data) ?c2"
      using up False tw rem assms(4) by (simp add: sendInLoop_def in_loop_def)
    ultimately show ?thesis
      using False T assms(5,6) by (auto intro!: runs_mono [OF buffer_rest_ok [OF i2 u2]])
  qed
qed

section \<open>Draining\<close>

lemma output_bytes:
  assumes "buffer_inv b"
  shows "vec_read (peek b) (readableBytes b) (m_buffer b) = Inr (content b)"
proof -
  from assms obtain pre post where "layout b pre (content b) post" by (rule buffer_layout)
  then show ?thesis using vec_read_layout [of b pre "content b" "[]" post] length_content [OF assms] by simp
qed

lemma conn_handleWrite_ok:
  assumes "conn_inv c" and "wr_ok wr" and "t = loop_tid c"
  shows "runs (\<lambda>c'. conn_inv c' \<and> m_state c' = m_state c \<and> loop_tid c' = loop_tid c \<and> sent c' = sent c \<and>
      length (m_buffer (m_outputBuffer c')) = length (m_buffer (m_outputBuffer c)) \<and>
      (\<exists>w. written c' = written c @ w) \<and>
      (shut_wr c' \<longleftrightarrow> shut_wr c \<or> m_state c = kDisConnecting \<and> content (m_outputBuffer c) \<noteq> [] \<and>
        content (m_outputBuffer c') = []))
    (conn_handleWrite wr t c)"
proof (cases "isWriting (p_channel c)")
  case False
  then show ?thesis
    using assms conn_inv_writing(1) [OF assms(1)] by (auto simp: conn_handleWrite_def in_loop_def conn_up_def)
next
  case True
  then have up: "conn_up c" and ne: "content (m_outputBuffer c) \<noteq> []"
    using conn_inv_writing(1) [OF assms(1)] by simp_all
  have out: "buffer_inv (m_outputBuffer c)" using assms(1) by (simp add: conn_inv_def)
  let ?d = "content (m_outputBuffer c)"
  show ?thesis
  proof (cases "\<exists>n. wr ?d = Inr n \<and> 0 < n")
    case False
    then have "conn_handleWrite wr t c = Inr c"
      using True assms(3) output_bytes [OF out]
      by (auto simp: conn_handleWrite_def in_loop_def split: sum.splits)
    then show ?thesis using assms(1) by auto
  next
    case True
    then obtain n where n: "wr ?d = Inr n" "0 < n" by blast
    have le: "n \<le> length ?d" using assms(2) n(1) by (auto simp: wr_ok_def dest: spec [of _ ?d])
    from buf.pop_law [OF out le] obtain b where b: "retrieve n (m_outputBuffer c) = Inr b" "buffer_inv b"
        "content b = drop n ?d" "length (m_buffer b) = length (m_buffer (m_outputBuffer c))"
      by (auto simp: runs_iff)
    let ?c1 = "c\<lparr>m_outputBuffer := b, written := written c @ take n ?d\<rparr>"
    have sent: "sent ?c1 = sent c" using b(3) by (simp add: sent_def)
    have ev: "m_events (p_channel c) = ev_mask True True"
      using assms(1) up ne by (simp add: conn_inv_def)
    have hw: "conn_handleWrite wr t c =
        (if readableBytes b = 0
         then let c2 = conn_mask DisableWriting ?c1;
                  c3 = (if has_writeCompleteCallBack c2 then queue_task WriteComplete c2 else c2)
              in if m_state c3 = kDisConnecting then shutdownInLoop t c3 else Inr c3
         else Inr ?c1)"
      using \<open>isWriting (p_channel c)\<close> assms(3) output_bytes [OF out] n b(1)
      by (simp add: conn_handleWrite_def in_loop_def Let_def)
    show ?thesis
    proof (cases "content b = []")
      case False
      then have "conn_inv ?c1" using assms(1) up ne b(2) by (auto simp: conn_inv_def conn_up_def closes_def)
      then show ?thesis using False hw readable_content [OF b(2)] sent b(4) by simp
    next
      case True
      let ?c2 = "conn_mask DisableWriting ?c1"
      let ?c3 = "if has_writeCompleteCallBack ?c2 then queue_task WriteComplete ?c2 else ?c2"
      have off: "m_events (p_channel ?c3) = ev_mask True False"
        using ev apply_mask_switch [of DisableWriting True True] by simp
      have c3: "m_state ?c3 = m_state c" "m_outputBuffer ?c3 = b" "m_inputBuffer ?c3 = m_inputBuffer c"
        "log ?c3 = log c" "written ?c3 = written c @ take n ?d" "loop_tid ?c3 = loop_tid c" "shut_wr ?c3 = shut_wr c"
        by simp_all
      have i3: "conn_inv ?c3"
        using assms(1) up b(2) True off c3 by (auto simp: conn_inv_def conn_up_def closes_def)
      then have "\<not> isWriting (p_channel ?c3)" using True conn_inv_writing(1) [OF i3] c3(2) by simp
      moreover have "conn_inv (?c3\<lparr>shut_wr := True\<rparr>)"
        using i3 by (rule conn_inv_cong) (simp_all add: closes_def)
      ultimately show ?thesis
        using True hw readable_content [OF b(2)] sent b(4) i3 c3 assms(3) ne
        unfolding shutdownInLoop_def in_loop_def Let_def
        by (auto simp: sent_def)
    qed
  qed
qed

section \<open>Opening and closing\<close>

lemma connectEstablished_ok:
  assumes "conn_inv c" and "m_state c = kConnecting" and "t = loop_tid c"
  shows "runs (\<lambda>c'. conn_inv c' \<and> m_state c' = kConnected \<and> sent c' = sent c \<and> loop_tid c' = loop_tid c \<and>
      shut_wr c' = shut_wr c \<and> m_outputBuffer c' = m_outputBuffer c) (connectEstablished t c)"
proof -
  have "m_events (p_channel c) = ev_mask False False" "content (m_outputBuffer c) = []"
    using assms(1,2) by (simp_all add: conn_inv_def conn_up_def)
  then show ?thesis
    using assms apply_mask_switch [of EnableReading False False]
    by (simp add: connectEstablished_def in_loop_def Let_def conn_inv_def conn_up_def closes_def sent_def)
qed

lemma conn_handleClose_ok:
  assumes "conn_inv c" and "conn_up c" and "t = loop_tid c"
  shows "runs (\<lambda>c'. conn_inv c' \<and> m_state c' = kDisConnected \<and> sent c' = sent c \<and> loop_tid c' = loop_tid c \<and>
      shut_wr c' = shut_wr c \<and> closes c' = Suc (closes c) \<and> m_outputBuffer c' = m_outputBuffer c)
    (conn_handleClose t c)"
proof -
  have "closes c = 0" using assms(1,2) by (auto simp: conn_inv_def conn_up_def)
  then show ?thesis
    using assms
    by (simp add: conn_handleClose_def in_loop_def Let_def conn_inv_def conn_up_def closes_def sent_def
        apply_mask_def ev_mask_def kNoneEvent_def)
qed

lemma shutdownInLoop_ok:
  assumes "conn_inv c" and "t = loop_tid c"
  shows "runs (\<lambda>c'. conn_inv c' \<and> m_state c' = m_state c \<and> sent c' = sent c \<and> loop_tid c' = loop_tid c \<and>
      m_outputBuffer c' = m_outputBuffer c \<and>
      (shut_wr c' \<longleftrightarrow> shut_wr c \<or> \<not> conn_up c \<or> content (m_outputBuffer c) = [])) (shutdownInLoop t c)"
proof -
  have "conn_inv (c\<lparr>shut_wr := True\<rparr>)"
    using assms(1) by (rule conn_inv_cong) (simp_all add: closes_def)
  then show ?thesis
    using assms conn_inv_writing(1) [OF assms(1)] by (auto simp: shutdownInLoop_def in_loop_def sent_def)
qed

lemma conn_handleRead_ok:
  assumes "conn_inv c" and "conn_up c" and "t = loop_tid c" and "readv_ok readv"
    and "length (m_buffer (m_inputBuffer c)) + kExtraBufferSize < 2 ^ 63"
  shows "runs (\<lambda>c'. conn_inv c' \<and> sent c' = sent c \<and> loop_tid c' = loop_tid c \<and> shut_wr c' = shut_wr c \<and>
      (m_state c' = m_state c \<or> m_state c' = kDisConnected) \<and> m_outputBuffer c' = m_outputBuffer c)
    (conn_handleRead readv t c)"
proof -
  have inp: "buffer_inv (m_inputBuffer c)" using assms(1) by (simp add: conn_inv_def)
  define iov where "iov = (if writableBytes (m_inputBuffer c) < kExtraBufferSize
    then [writableBytes (m_inputBuffer c), kExtraBufferSize] else [writableBytes (m_inputBuffer c)])"
  have "runs (\<lambda>(b', n, err). buffer_inv b') (readFd readv (m_inputBuffer c))"
    using readFd_ok [OF inp assms(5,4) iov_def] inp by (cases "readv iov") (auto elim!: runs_mono)
  then obtain b n err where b: "readFd readv (m_inputBuffer c) = Inr (b, n, err)" "buffer_inv b"
    by (auto simp: runs_iff)
  let ?c = "c\<lparr>m_inputBuffer := b\<rparr>"
  have i: "conn_inv ?c" "conn_up ?c"
    using assms(1,2) b(2) by (simp_all add: conn_inv_def conn_up_def closes_def)
  have e: "conn_inv (emit ev ?c)" if "ev \<noteq> CloseCb" for ev
    using i(1) that by (elim conn_inv_cong) (simp_all add: closes_def)
  from conn_handleClose_ok [OF i, of t] assms(3) show ?thesis
    using b(1) e [of MessageCb] e [of SoError] assms(3)
    by (auto simp: conn_handleRead_def conn_handleError_def Let_def sent_def elim!: runs_mono)
qed

section \<open>All operations\<close>

text \<open>
  Everything that can happen to a connection: the calls of its owner and of other threads, the
  events of its channel (delivered while the channel is on), and the tasks it queued on its loop.
  Each rule takes the result of the operation; sizes stay within what a buffer can hold.
\<close>

definition room_for :: "byte list \<Rightarrow> TcpConnection \<Rightarrow> bool" where
  "room_for data c \<longleftrightarrow> length data < 2 ^ 31 \<and> length (m_buffer (m_outputBuffer c)) + length data < 2 ^ 63"

inductive conn_step :: "TcpConnection \<Rightarrow> TcpConnection \<Rightarrow> bool" where
  established: "connectEstablished (loop_tid c) c = Inr c' \<Longrightarrow> conn_step c c'"
| readable: "isReading (p_channel c) \<Longrightarrow> readv_ok readv \<Longrightarrow>
    length (m_buffer (m_inputBuffer c)) + kExtraBufferSize < 2 ^ 63 \<Longrightarrow>
    conn_handleRead readv (loop_tid c) c = Inr c' \<Longrightarrow> conn_step c c'"
| writable: "wr_ok wr \<Longrightarrow> conn_handleWrite wr (loop_tid c) c = Inr c' \<Longrightarrow> conn_step c c'"
| hang_up: "conn_handleClose (loop_tid c) c = Inr c' \<Longrightarrow> conn_step c c'"
| error: "conn_step c (conn_handleError c)"
| send: "wr_ok wr \<Longrightarrow> room_for data c \<Longrightarrow> TcpConnection_send wr t data c = Inr c' \<Longrightarrow> conn_step c c'"
| shut: "shutdown t c = Inr c' \<Longrightarrow> conn_step c c'"
| force: "conn_step c (forceClose c)"
| task: "tasks c = k # ks \<Longrightarrow> wr_ok wr \<Longrightarrow> (\<forall>data. k = SendInLoop data \<longrightarrow> room_for data c) \<Longrightarrow>
    run_task wr (loop_tid c) k (c\<lparr>tasks := ks\<rparr>) = Inr c' \<Longrightarrow> conn_step c c'"
| destroyed: "connectDestroyed (loop_tid c) c = Inr c' \<Longrightarrow> conn_step c c'"
| callbacks: "conn_step c (setConnectionCallBack (setWriteCompleteCallback (setHighWaterMarkCallback n c)))"

inductive conn_reach :: "TcpConnection \<Rightarrow> bool" where
  new: "newTcpConnection t name sockfd = Inr c \<Longrightarrow> conn_reach c"
| step: "conn_reach c \<Longrightarrow> conn_step c c' \<Longrightarrow> conn_reach c'"

lemma new_inv: "newTcpConnection t name sockfd = Inr c \<Longrightarrow> conn_inv c"
proof -
  assume c: "newTcpConnection t name sockfd = Inr c"
  have "runs (\<lambda>b. buffer_inv b \<and> content b = []) (newBuffer kInitialSize)"
    using runs_mono [OF newBuffer_ok [of kInitialSize]] by (simp add: kInitialSize_def layout_facts)
  then obtain b where b: "newBuffer kInitialSize = Inr b" "buffer_inv b" "content b = []"
    by (auto simp: runs_iff)
  with c show ?thesis
    by (auto simp: newTcpConnection_def conn_inv_def conn_up_def closes_def newChannel_def ev_mask_def)
qed

lemma queue_task_inv: "conn_inv c \<Longrightarrow> conn_inv (queue_task k c)"
  by (erule conn_inv_cong) (simp_all add: closes_def)

lemma tasks_inv: "conn_inv c \<Longrightarrow> conn_inv (c\<lparr>tasks := ks\<rparr>)"
  by (erule conn_inv_cong) (simp_all add: closes_def)

lemma disconnecting_inv: "conn_inv c \<Longrightarrow> conn_up c \<Longrightarrow> conn_inv (c\<lparr>m_state := kDisConnecting\<rparr>)"
  by (auto simp: conn_inv_def conn_up_def closes_def)

lemma sendInLoop_inv:
  assumes "conn_inv c" and "m_state c \<noteq> kConnecting" and "wr_ok wr" and "room_for data c"
    and "sendInLoop wr (loop_tid c) data c = Inr c'"
  shows "conn_inv c'"
proof (cases "conn_up c")
  case True
  then show ?thesis
    using runs_eqD [OF sendInLoop_ok [OF assms(1,3) True refl] assms(5)] assms(4) by (simp add: room_for_def)
next
  case False
  then have "m_state c = kDisConnected" using assms(2) by (cases "m_state c") (auto simp: conn_up_def)
  then show ?thesis using assms(1,5) by (simp add: sendInLoop_def in_loop_def)
qed

lemma sendInLoop_state: "sendInLoop wr t data c = Inr c' \<Longrightarrow> m_state c' = m_state c"
  by (auto simp: sendInLoop_def in_loop_def try_write_def buffer_rest_def Let_def res_eq_Inr
      split: if_splits sum.splits prod.splits)

definition conn_good :: "TcpConnection \<Rightarrow> bool" where
  "conn_good c \<longleftrightarrow> conn_inv c \<and> (m_state c = kConnecting \<longrightarrow> tasks c = [])"

lemma state_cases: "conn_up c \<or> m_state c = kConnecting \<or> m_state c = kDisConnected"
  by (cases "m_state c") (auto simp: conn_up_def)

lemma up_not_connecting: "conn_up c \<Longrightarrow> m_state c \<noteq> kConnecting" "conn_up c \<Longrightarrow> m_state c \<noteq> kDisConnected"
  by (auto simp: conn_up_def)

lemma run_task_good:
  assumes "conn_good c" and "tasks c = k # ks" and "wr_ok wr" and "\<forall>data. k = SendInLoop data \<longrightarrow> room_for data c"
    and "run_task wr (loop_tid c) k (c\<lparr>tasks := ks\<rparr>) = Inr c'"
  shows "conn_good c'"
proof -
  let ?c = "c\<lparr>tasks := ks\<rparr>"
  have i: "conn_inv ?c" and nc: "m_state ?c \<noteq> kConnecting"
    using assms(1,2) tasks_inv by (auto simp: conn_good_def)
  show ?thesis
  proof (cases k)
    case (SendInLoop data)
    with assms(4,5) have r: "room_for data ?c" and e: "sendInLoop wr (loop_tid ?c) data ?c = Inr c'"
      by (simp_all add: run_task_def room_for_def)
    from sendInLoop_inv [OF i nc assms(3) r e] sendInLoop_state [OF e] nc show ?thesis
      by (simp add: conn_good_def)
  next
    case ShutdownInLoop
    with assms(5) have e: "shutdownInLoop (loop_tid ?c) ?c = Inr c'" by (simp add: run_task_def)
    from runs_eqD [OF shutdownInLoop_ok [OF i refl] e] nc show ?thesis by (simp add: conn_good_def)
  next
    case ForceCloseInLoop
    show ?thesis
    proof (cases "conn_up ?c")
      case True
      with assms(5) ForceCloseInLoop have e: "conn_handleClose (loop_tid ?c) ?c = Inr c'"
        by (simp add: run_task_def forceCloseInLoop_def in_loop_def conn_up_def)
      from runs_eqD [OF conn_handleClose_ok [OF i True refl] e] show ?thesis by (simp add: conn_good_def)
    next
      case False
      then show ?thesis
        using assms(5) ForceCloseInLoop i nc
        by (auto simp: run_task_def forceCloseInLoop_def in_loop_def conn_up_def conn_good_def)
    qed
  qed (use assms(5) i nc in \<open>auto simp: run_task_def conn_good_def\<close>)
qed

lemma send_good:
  assumes "conn_good c" and "wr_ok wr" and "room_for data c" and "TcpConnection_send wr t data c = Inr c'"
  shows "conn_good c'"
proof (cases "m_state c = kConnected \<and> t = loop_tid c")
  case True
  then have "conn_up c" "sendInLoop wr (loop_tid c) data c = Inr c'"
    using assms(4) by (simp_all add: conn_up_def TcpConnection_send_def)
  moreover have "conn_inv c" "m_state c \<noteq> kConnecting" using True assms(1) by (simp_all add: conn_good_def)
  ultimately show ?thesis
    using sendInLoop_inv [OF _ _ assms(2,3)] sendInLoop_state True by (simp add: conn_good_def)
next
  case False
  then show ?thesis
    using assms(1,4) queue_task_inv by (auto simp: TcpConnection_send_def conn_good_def split: if_splits)
qed

lemma shutdown_ok:
  assumes "conn_inv c" and "m_state c = kConnected" and "t = loop_tid c"
  shows "runs (\<lambda>c'. conn_inv c' \<and> m_state c' = kDisConnecting \<and> sent c' = sent c \<and> loop_tid c' = loop_tid c \<and>
      m_outputBuffer c' = m_outputBuffer c \<and>
      (shut_wr c' \<longleftrightarrow> shut_wr c \<or> content (m_outputBuffer c) = [])) (shutdown t c)"
proof -
  let ?c = "c\<lparr>m_state := kDisConnecting\<rparr>"
  have "conn_inv ?c" using disconnecting_inv [OF assms(1)] assms(2) by (simp add: conn_up_def)
  from shutdownInLoop_ok [OF this, of t] assms show ?thesis
    by (auto simp: shutdown_def conn_up_def sent_def elim!: runs_mono)
qed

lemma shutdown_good:
  assumes "conn_good c" and "shutdown t c = Inr c'"
  shows "conn_good c'"
proof (cases "m_state c = kConnected")
  case True
  note c = assms(1) [unfolded conn_good_def]
  show ?thesis
  proof (cases "t = loop_tid c")
    case in_thread: True
    have "conn_inv c' \<and> m_state c' = kDisConnecting"
      using shutdown_ok [of c t] c True in_thread assms(2) by simp
    then show ?thesis by (simp add: conn_good_def)
  next
    case False
    then have "c' = queue_task ShutdownInLoop (c\<lparr>m_state := kDisConnecting\<rparr>)"
      using True assms(2) by (simp add: shutdown_def)
    then show ?thesis
      using c True disconnecting_inv queue_task_inv by (simp add: conn_good_def conn_up_def)
  qed
next
  case False
  then show ?thesis using assms by (simp add: shutdown_def)
qed

lemma destroyed_good: "conn_good c \<Longrightarrow> connectDestroyed (loop_tid c) c = Inr c' \<Longrightarrow> conn_good c'"
  using conn_inv_writing(3) [of c]
  by (cases "m_state c = kConnected")
    (auto simp: conn_good_def connectDestroyed_def in_loop_def Let_def assertE_eq_Inr conn_inv_def
      conn_up_def closes_def apply_mask_def ev_mask_def kNoneEvent_def)

lemma step_good: "conn_step c c' \<Longrightarrow> conn_good c \<Longrightarrow> conn_good c'"
proof (induction rule: conn_step.induct)
  case (established c c')
  then have "m_state c = kConnecting"
    by (simp add: connectEstablished_def in_loop_def assertE_eq_Inr)
  then show ?case
    using runs_eqD [OF connectEstablished_ok [OF _ _ refl] established(1)] established(2)
    by (simp add: conn_good_def)
next
  case (readable c readv c')
  then have "conn_inv c" "conn_up c" using conn_inv_writing(2) by (auto simp: conn_good_def)
  then show ?case
    using runs_eqD [OF conn_handleRead_ok [OF _ _ refl readable(2,3)] readable(4)] up_not_connecting
    by (auto simp: conn_good_def)
next
  case (writable wr c c')
  then have i: "conn_inv c" by (simp add: conn_good_def)
  have "c' = c" if "m_state c = kConnecting"
    using that writable(2) conn_inv_writing(1) [OF i] by (auto simp: conn_handleWrite_def in_loop_def conn_up_def)
  then show ?case
    using runs_eqD [OF conn_handleWrite_ok [OF i writable(1) refl] writable(2)] writable(3)
    by (auto simp: conn_good_def)
next
  case (hang_up c c')
  then have "conn_up c" by (simp add: conn_handleClose_def in_loop_def assertE_eq_Inr conn_up_def)
  then show ?case
    using runs_eqD [OF conn_handleClose_ok [OF _ _ refl] hang_up(1)] hang_up(2) by (simp add: conn_good_def)
next
  case (error c)
  then show ?case by (auto simp: conn_good_def conn_handleError_def closes_def elim!: conn_inv_cong)
next
  case (force c)
  then show ?case
    using queue_task_inv disconnecting_inv by (auto simp: conn_good_def forceClose_def conn_up_def)
next
  case (callbacks c n)
  then show ?case
    by (auto simp: conn_good_def setConnectionCallBack_def setWriteCompleteCallback_def
        setHighWaterMarkCallback_def closes_def elim!: conn_inv_cong)
qed (auto intro: send_good shutdown_good run_task_good destroyed_good)

lemma closes_iff: "closes c \<noteq> 0 \<longleftrightarrow> CloseCb \<in> set (log c)"
  by (auto simp: closes_def filter_empty_conv)

lemma reach_good: "conn_reach c \<Longrightarrow> conn_good c"
proof (induction rule: conn_reach.induct)
  case (new t name sockfd c)
  then show ?case
    using new_inv [OF new] by (auto simp: conn_good_def newTcpConnection_def res_eq_Inr)
qed (rule step_good)

section \<open>Properties\<close>

text \<open>
  A run of a connection that is up: \<open>Some data\<close> is a send on the loop thread, \<open>None\<close> the channel
  becoming writable; each comes with what the kernel answers.
\<close>

type_synonym io = "sys_write \<times> byte list option"

definition io_step :: "io \<Rightarrow> TcpConnection \<Rightarrow> TcpConnection res" where
  "io_step e c = (case snd e of Some data \<Rightarrow> sendInLoop (fst e) (loop_tid c) data c
     | None \<Rightarrow> conn_handleWrite (fst e) (loop_tid c) c)"

definition io_data :: "io list \<Rightarrow> byte list" where
  "io_data es = concat (map (\<lambda>e. case snd e of Some data \<Rightarrow> data | None \<Rightarrow> []) es)"

text \<open>A kernel that accepts a prefix or says that it would block; the peer is there.\<close>

definition peer_alive :: "sys_write \<Rightarrow> bool" where
  "peer_alive wr \<longleftrightarrow> wr_ok wr \<and> (\<forall>data. wr data \<noteq> Inl EPIPE \<and> wr data \<noteq> Inl ECONNRESET)"

lemma io_step_ok:
  assumes "conn_inv c" and "conn_up c" and "peer_alive wr" and "length d < 2 ^ 31"
    and "length (m_buffer (m_outputBuffer c)) + length d < 2 ^ 63" and "d = io_data [(wr, x)]"
  shows "runs (\<lambda>c'. conn_inv c' \<and> conn_up c' \<and> sent c' = sent c @ d \<and> (\<exists>w. written c' = written c @ w) \<and>
      length (m_buffer (m_outputBuffer c')) \<le> length (m_buffer (m_outputBuffer c)) + length d)
    (io_step (wr, x) c)"
proof (cases x)
  case None
  then show ?thesis
    using assms runs_mono [OF conn_handleWrite_ok [of c wr "loop_tid c"]]
    by (simp add: io_step_def io_data_def peer_alive_def conn_up_def)
next
  case (Some data)
  have "\<not> peer_gone wr data c" using assms(3) by (auto simp: peer_alive_def peer_gone_def)
  then show ?thesis
    using assms Some runs_mono [OF sendInLoop_ok [of c wr "loop_tid c" data]]
    by (simp add: io_step_def io_data_def peer_alive_def conn_up_def)
qed

lemma io_data_Nil [simp]: "io_data [] = []"
  by (simp add: io_data_def)

lemma io_data_Cons: "io_data (e # es) = io_data [e] @ io_data es"
  by (simp add: io_data_def)

text \<open>
  C3: a connection is a reliable byte stream towards the kernel. For any interleaving of sends on
  the loop thread and writable events, whatever prefix of each write the kernel accepts or however
  often it would block, no operation aborts, and the bytes on the wire followed by the bytes in the
  output buffer are what they were before, followed by the data of all sends in order: nothing is
  lost, duplicated or reordered. The channel waits for writability exactly while bytes are waiting.
\<close>

theorem stream_in_order:
  assumes "conn_inv c" and "conn_up c"
    and "\<forall>e \<in> set es. peer_alive (fst e) \<and> length (io_data [e]) < 2 ^ 31"
    and "length (m_buffer (m_outputBuffer c)) + length (io_data es) < 2 ^ 63"
  shows "runs (\<lambda>c'. conn_inv c' \<and>
      written c' @ content (m_outputBuffer c') = written c @ content (m_outputBuffer c) @ io_data es \<and>
      (\<exists>w. written c' = written c @ w) \<and>
      (isWriting (p_channel c') \<longleftrightarrow> content (m_outputBuffer c') \<noteq> [])) (foldE io_step es c)"
proof -
  have "runs (\<lambda>c'. conn_inv c' \<and> conn_up c' \<and> sent c' = sent c @ io_data es \<and> (\<exists>w. written c' = written c @ w))
      (foldE io_step es c)"
    using assms
  proof (induction es arbitrary: c)
    case (Cons e es)
    have s: "io_data (e # es) = io_data [e] @ io_data es" by (rule io_data_Cons)
    have d: "length (io_data [e]) < 2 ^ 31"
        "length (m_buffer (m_outputBuffer c)) + length (io_data [e]) < 2 ^ 63"
      using Cons.prems(3,4) s by auto
    show ?case
      unfolding foldE.simps runs_bindE
    proof (rule runs_mono [OF io_step_ok [of c "fst e" "io_data [e]" "snd e", unfolded prod.collapse]])
      fix c' assume c': "conn_inv c' \<and> conn_up c' \<and> sent c' = sent c @ io_data [e] \<and>
        (\<exists>w. written c' = written c @ w) \<and>
        length (m_buffer (m_outputBuffer c')) \<le> length (m_buffer (m_outputBuffer c)) + length (io_data [e])"
      have "runs (\<lambda>c''. conn_inv c'' \<and> conn_up c'' \<and> sent c'' = sent c' @ io_data es \<and>
          (\<exists>w. written c'' = written c' @ w)) (foldE io_step es c')"
        using c' Cons.prems(3,4) s by (intro Cons.IH) auto
      then show "runs (\<lambda>c''. conn_inv c'' \<and> conn_up c'' \<and> sent c'' = sent c @ io_data (e # es) \<and>
          (\<exists>w. written c'' = written c @ w)) (foldE io_step es c')"
        using c' s by (elim runs_mono) auto
    qed (use Cons.prems d in auto)
  qed auto
  then show ?thesis
    using conn_inv_writing(1) by (auto simp: sent_def elim!: runs_mono)
qed

definition two_at_a_time :: sys_write where
  "two_at_a_time data = Inr (min 2 (length data))"

definition sample_conn :: TcpConnection where
  "sample_conn = \<lparr>loop_tid = 1, m_name = ''c'', m_state = kConnected,
     p_channel = (newChannel 5)\<lparr>m_events := kReadEvent\<rparr>,
     m_inputBuffer = \<lparr>m_buffer = replicate 8 0, m_readerIndex = 8, m_writerIndex = 8\<rparr>,
     m_outputBuffer = \<lparr>m_buffer = replicate 8 0, m_readerIndex = 8, m_writerIndex = 8\<rparr>,
     highWaterMark = 4, has_connectionCallBack = True, has_writeCompleteCallBack = False,
     has_highWaterMarkCallback = True, written = [], shut_wr = False, tasks = [], log = []\<rparr>"

lemma sample_conn_inv: "conn_inv sample_conn" "conn_up sample_conn"
  by (simp_all add: conn_inv_def conn_up_def sample_conn_def buffer_inv_def content_def closes_def
      newChannel_def ev_mask_def kCheapPrepend_def)

lemma two_at_a_time_ok: "peer_alive two_at_a_time"
  by (simp add: peer_alive_def wr_ok_def two_at_a_time_def)

theorem stream_in_order_witness:
  "runs (\<lambda>c'. written c' @ content (m_outputBuffer c') = [1, 2, 3, 4 :: byte])
    (foldE io_step [(two_at_a_time, Some [1, 2, 3]), (two_at_a_time, None), (two_at_a_time, Some [4])]
      sample_conn)"
proof -
  have d: "io_data [(two_at_a_time, Some [1, 2, 3]), (two_at_a_time, None), (two_at_a_time, Some [4])] =
      [1, 2, 3, 4]"
    by (simp add: io_data_def)
  have w: "written sample_conn = []" "content (m_outputBuffer sample_conn) = []"
    "length (m_buffer (m_outputBuffer sample_conn)) = 8"
    by (simp_all add: sample_conn_def content_def)
  have "\<forall>e \<in> set [(two_at_a_time, Some [1, 2, 3]), (two_at_a_time, None), (two_at_a_time, Some [4])].
      peer_alive (fst e) \<and> length (io_data [e]) < 2 ^ 31"
    using two_at_a_time_ok by (simp add: io_data_def)
  from runs_mono [OF stream_in_order [OF sample_conn_inv this]] show ?thesis
    unfolding d w by simp
qed


lemma reach_closed: "\<exists>c. conn_reach c \<and> CloseCb \<in> set (log c)"
proof -
  obtain b where "newBuffer kInitialSize = Inr b"
    using newBuffer_ok [of kInitialSize] by (auto simp: runs_iff kInitialSize_def)
  then obtain c0 where c0: "newTcpConnection 1 ''c'' 5 = Inr c0" by (simp add: newTcpConnection_def)
  then have "conn_inv c0" "m_state c0 = kConnecting" "loop_tid c0 = 1"
    using new_inv by (auto simp: newTcpConnection_def res_eq_Inr)
  then obtain c1 where c1: "connectEstablished (loop_tid c0) c0 = Inr c1" "conn_inv c1" "m_state c1 = kConnected"
    using connectEstablished_ok [OF _ _ refl] by (fastforce simp: runs_iff)
  then obtain c2 where c2: "conn_handleClose (loop_tid c1) c1 = Inr c2" "closes c2 = Suc (closes c1)"
    using conn_handleClose_ok [of c1 "loop_tid c1"] by (fastforce simp: runs_iff conn_up_def)
  have "conn_reach c2"
    using c0 c1(1) c2(1) by (blast intro: conn_reach.intros conn_step.intros)
  moreover have "CloseCb \<in> set (log c2)" using c2(2) closes_iff [of c2] by simp
  ultimately show ?thesis by blast
qed


text \<open>
  C27: \<open>shutdown\<close> loses no output. Called on the loop thread it closes the writing side at once only
  if nothing is buffered; otherwise the connection stays half open, and it is the writable event
  that empties the output buffer which closes the writing side, not an earlier one.
\<close>

theorem shutdown_after_drain:
  assumes "conn_inv c" and "m_state c = kConnected" and "\<not> shut_wr c" and "t = loop_tid c"
  shows "runs (\<lambda>c1. m_state c1 = kDisConnecting \<and> sent c1 = sent c \<and>
      (shut_wr c1 \<longleftrightarrow> content (m_outputBuffer c1) = []) \<and>
      (\<forall>wr. wr_ok wr \<longrightarrow> runs (\<lambda>c2. sent c2 = sent c \<and>
        (shut_wr c2 \<longleftrightarrow> content (m_outputBuffer c2) = [])) (conn_handleWrite wr t c1))) (shutdown t c)"
proof (rule runs_mono [OF shutdown_ok [OF assms(1,2,4)]])
  fix c1 assume c1: "conn_inv c1 \<and> m_state c1 = kDisConnecting \<and> sent c1 = sent c \<and> loop_tid c1 = loop_tid c \<and>
      m_outputBuffer c1 = m_outputBuffer c \<and> (shut_wr c1 \<longleftrightarrow> shut_wr c \<or> content (m_outputBuffer c) = [])"
  have "runs (\<lambda>c2. sent c2 = sent c \<and> (shut_wr c2 \<longleftrightarrow> content (m_outputBuffer c2) = []))
      (conn_handleWrite wr t c1)" if "wr_ok wr" for wr
  proof (rule runs_mono [OF conn_handleWrite_ok [of c1 wr t]])
    fix c2 assume c2: "conn_inv c2 \<and> m_state c2 = m_state c1 \<and> loop_tid c2 = loop_tid c1 \<and> sent c2 = sent c1 \<and>
      length (m_buffer (m_outputBuffer c2)) = length (m_buffer (m_outputBuffer c1)) \<and>
      (\<exists>w. written c2 = written c1 @ w) \<and>
      (shut_wr c2 \<longleftrightarrow> shut_wr c1 \<or> m_state c1 = kDisConnecting \<and> content (m_outputBuffer c1) \<noteq> [] \<and>
        content (m_outputBuffer c2) = [])"
    then have "content (m_outputBuffer c1) = [] \<longrightarrow> content (m_outputBuffer c2) = []"
      by (auto simp: sent_def)
    then show "sent c2 = sent c \<and> (shut_wr c2 \<longleftrightarrow> content (m_outputBuffer c2) = [])"
      using c1 c2 assms(3) by auto
  qed (use c1 that assms(4) in auto)
  then show "m_state c1 = kDisConnecting \<and> sent c1 = sent c \<and> (shut_wr c1 \<longleftrightarrow> content (m_outputBuffer c1) = []) \<and>
    (\<forall>wr. wr_ok wr \<longrightarrow> runs (\<lambda>c2. sent c2 = sent c \<and> (shut_wr c2 \<longleftrightarrow> content (m_outputBuffer c2) = []))
      (conn_handleWrite wr t c1))"
    using c1 assms(3) by auto
qed

theorem shutdown_after_drain_witness:
  "runs (\<lambda>c1. m_state c1 = kDisConnecting \<and> shut_wr c1) (shutdown 1 sample_conn)"
proof -
  have "m_state sample_conn = kConnected" "\<not> shut_wr sample_conn" "1 = loop_tid sample_conn"
    by (simp_all add: sample_conn_def)
  note d = shutdown_after_drain [OF sample_conn_inv(1) this]
  have "sent sample_conn = []" by (simp add: sent_def sample_conn_def content_def)
  then show ?thesis using d by (auto simp: sent_def elim!: runs_mono)
qed

text \<open>
  The high water mark can be crossed without notice. \<open>sendInLoop\<close> compares the buffered length
  with the length of the new data instead of with the mark, so when at least as many bytes are
  buffered as arrive, no high-water task is queued, even if this send takes the buffer from below
  the mark to above it. (And \<open>setHighWaterMarkCallback\<close> does not change the mark.)
\<close>

theorem high_water_missed:
  assumes "conn_inv c" and "conn_up c" and "t = loop_tid c" and "room_for data c"
    and "length data \<le> length (content (m_outputBuffer c))" and "data \<noteq> []"
  shows "runs (\<lambda>c'. tasks c' = tasks c \<and> content (m_outputBuffer c') = content (m_outputBuffer c) @ data)
      (sendInLoop wr t data c) \<and>
    highWaterMark (setHighWaterMarkCallback mark c) = highWaterMark c"
proof -
  have out: "buffer_inv (m_outputBuffer c)" using assms(1) by (simp add: conn_inv_def)
  have "content (m_outputBuffer c) \<noteq> []" using assms(5,6) by auto
  then have tw: "try_write wr data c = (0, False, c)"
    using conn_inv_writing(1) [OF assms(1)] assms(2) by (simp add: try_write_def)
  have nh: "note_high_water (length data) c = c"
    using assms(5) length_content [OF out] by (simp add: note_high_water_def Let_def)
  have "size_sub (length data) 0 = length data" using assms(4) by (simp add: size_sub_exact room_for_def)
  then have "sendInLoop wr t data c = buffer_rest data c"
    using assms(2,3,6) tw nh by (auto simp: sendInLoop_def in_loop_def conn_up_def)
  moreover have "runs (\<lambda>b. content b = content (m_outputBuffer c) @ data) (Buffer_append data (m_outputBuffer c))"
    using runs_mono [OF buf.push_law [OF out, of data]] assms(4) by (simp add: room_for_def)
  ultimately show ?thesis
    by (auto simp: buffer_rest_def runs_bindE Let_def setHighWaterMarkCallback_def elim!: runs_mono)
qed

theorem high_water_missed_witness:
  "runs (\<lambda>c'. tasks c' = [] \<and> content (m_outputBuffer c') = [1, 2, 3, 4, 5])
    (sendInLoop two_at_a_time 1 [4, 5]
      (sample_conn\<lparr>p_channel := (newChannel 5)\<lparr>m_events := 7\<rparr>, m_outputBuffer :=
        \<lparr>m_buffer = replicate 8 0 @ [1, 2, 3], m_readerIndex = 8, m_writerIndex = 11\<rparr>\<rparr>))"
proof -
  let ?c = "sample_conn\<lparr>p_channel := (newChannel 5)\<lparr>m_events := 7\<rparr>, m_outputBuffer :=
    \<lparr>m_buffer = replicate 8 0 @ [1, 2, 3], m_readerIndex = 8, m_writerIndex = 11\<rparr>\<rparr>"
  have c: "content (m_outputBuffer ?c) = [1, 2, 3]" "tasks ?c = []"
    by (simp_all add: content_def sample_conn_def)
  have "conn_inv ?c"
    by (simp add: conn_inv_def conn_up_def sample_conn_def buffer_inv_def content_def closes_def
        newChannel_def ev_mask_def event_defs kCheapPrepend_def)
  moreover have "conn_up ?c" "1 = loop_tid ?c" "room_for [4, 5] ?c"
    by (simp_all add: sample_conn_def conn_up_def room_for_def)
  ultimately show ?thesis
    using high_water_missed [of ?c 1 "[4, 5]" two_at_a_time 0] unfolding c by simp
qed

text \<open>
  Two ways a connection ends the process. A hang-up event for a connection that is already
  disconnected fails the assertion in \<open>handleClose\<close>; the kernel reports hang-ups for a descriptor
  with an empty mask too, and the channel stays registered until \<open>connectDestroyed\<close> runs. And
  \<open>connectDestroyed\<close> of a connection whose \<open>shutdown\<close> is under way fails the assertion in the
  channel's \<open>remove\<close>, because only a connected one has its channel disabled.
\<close>

theorem connection_aborts:
  assumes "conn_inv c" and "t = loop_tid c"
  shows "(m_state c = kDisConnected \<longrightarrow> conn_handleClose t c = Inl AssertFail) \<and>
    (m_state c = kDisConnecting \<longrightarrow> connectDestroyed t c = Inl AssertFail)"
  using assms conn_inv_writing(3) [OF assms(1)]
  by (simp add: conn_handleClose_def connectDestroyed_def in_loop_def Let_def conn_up_def)

theorem connection_aborts_witness:
  "connectDestroyed 1 (sample_conn\<lparr>m_state := kDisConnecting\<rparr>) = Inl AssertFail"
  using connection_aborts [of "sample_conn\<lparr>m_state := kDisConnecting\<rparr>" 1]
    disconnecting_inv [OF sample_conn_inv] by (simp add: sample_conn_def)

end
