(* ===== verification/RpcFrame.thy ===== *)
theory RpcFrame
  imports RpcCoder TcpConnection
begin

text \<open>
  \<open>rpc/RpcFrame.cpp\<close> and \<open>rpc/RpcClient.cpp\<close>: the server's worker loop, which unpacks a request from
  the input buffer of a connection, calls the service and sends the response, and the client, which
  sends one request and parses one response. Both run on the model of \<open>TcpConnection\<close>.

  The services a user registers are a parameter: for a service name the methods, and for a method
  how its request is parsed and what it answers, all as serialized bytes.
\<close>

section \<open>The server\<close>

record rpc_method =
  ParseRequest :: "byte list \<Rightarrow> byte list option"
  CallMethod :: "byte list \<Rightarrow> byte list"

type_synonym services = "byte list \<rightharpoonup> (byte list \<rightharpoonup> rpc_method)"

record RpcFrame =
  f_running :: bool
  f_threadNums :: int
  f_services :: services

definition newRpcFrame :: RpcFrame where
  "newRpcFrame = \<lparr>f_running = False, f_threadNums = 0, f_services = Map.empty\<rparr>"

definition setWorkers :: "int \<Rightarrow> RpcFrame \<Rightarrow> RpcFrame res" where
  "setWorkers n f = assertE (f_threadNums f = 0) (Inr (f\<lparr>f_threadNums := n\<rparr>))"

definition registerService :: "byte list \<Rightarrow> (byte list \<rightharpoonup> rpc_method) \<Rightarrow> RpcFrame \<Rightarrow> RpcFrame" where
  "registerService srv_name s f = f\<lparr>f_services := (f_services f)(srv_name \<mapsto> s)\<rparr>"

text \<open>How a turn of the worker loop ends. \<open>Sent p n\<close>: a functor that sends the \<open>n\<close> bytes at offset \<open>p\<close>
  of the connection's own output buffer is queued on its loop.\<close>

datatype turn = UnpackFailed | NoService | NoMethod | RequestParseFailed | Sent nat nat | NotConnected

text \<open>
  \<open>conn->send(conn->getOutputBuffer())\<close> on a worker thread: the functor gets the address and the
  length of the readable bytes, and the buffer is reset at once.
\<close>

definition send_own_buffer :: "TcpConnection \<Rightarrow> turn \<times> TcpConnection" where
  "send_own_buffer c =
     (if m_state c = kConnected
      then (Sent (peek (m_outputBuffer c)) (readableBytes (m_outputBuffer c)),
            c\<lparr>m_outputBuffer := retrieveAll (m_outputBuffer c)\<rparr>)
      else (NotConnected, c))"

definition worker_turn ::
  "host_order \<Rightarrow> runtime \<Rightarrow> services \<Rightarrow> TcpConnection \<Rightarrow> (turn \<times> TcpConnection) res" where
  "worker_turn h rt services c =
     bindE (RpcCoder_unpack h rt RpcMessage_ctor (m_inputBuffer c)) (\<lambda>(ok, inputMsg, inp).
       let c1 = c\<lparr>m_inputBuffer := inp\<rparr> in
       if \<not> ok then Inr (UnpackFailed, c1)
       else case services (m_service inputMsg) of
         None \<Rightarrow> Inr (NoService, c1)
       | Some service \<Rightarrow>
           (case service (m_method inputMsg) of
              None \<Rightarrow> Inr (NoMethod, c1)
            | Some method \<Rightarrow>
                (case ParseRequest method (m_request inputMsg) of
                   None \<Rightarrow> Inr (RequestParseFailed, c1)
                 | Some req \<Rightarrow>
                     bindE (RpcCoder_pack h rt (CallMethod method req) RpcMessage_ctor (m_outputBuffer c1))
                       (\<lambda>(_, _, out). Inr (send_own_buffer (c1\<lparr>m_outputBuffer := out\<rparr>))))))"

text \<open>
  The functor on the loop thread. It reads the bytes where the address points now; if what is left
  after the direct write does not fit the buffer, growing it moves the storage under the copy.
\<close>

definition run_own_send :: "sys_write \<Rightarrow> nat \<Rightarrow> nat \<Rightarrow> TcpConnection \<Rightarrow> TcpConnection res" where
  "run_own_send wr p n c =
     bindE (vec_read p n (m_buffer (m_outputBuffer c))) (\<lambda>data.
       case try_write wr data c of (nwrote, fault, _) \<Rightarrow>
         if \<not> fault \<and> writableBytes (m_outputBuffer c) < n - nwrote then Inl Undefined
         else sendInLoop wr (loop_tid c) data c)"

section \<open>The client\<close>

text \<open>\<open>rsp\<close> is what \<open>_parse_rsp\<close> was given, \<open>loop_quit\<close> that the client's loop was told to quit.\<close>

record RpcClient =
  cli_conn :: TcpConnection
  cli_send_msg :: "byte list"
  rsp :: "byte list option"
  loop_quit :: bool

definition CallMethod_request :: "byte list \<Rightarrow> byte list \<Rightarrow> byte list \<Rightarrow> RpcMessage" where
  "CallMethod_request srv_name mthd_name request =
     set_request request (set_method mthd_name (set_service srv_name (set_type REQUEST RpcMessage_ctor)))"

definition CallMethod_send_msg ::
  "host_order \<Rightarrow> runtime \<Rightarrow> byte list \<Rightarrow> byte list \<Rightarrow> byte list \<Rightarrow> byte list" where
  "CallMethod_send_msg h rt srv_name mthd_name request =
     (let send_msg = InternalSerialize rt (CallMethod_request srv_name mthd_name request);
          len = hostToNetwork32 h (of_nat (length send_msg))
      in store h 4 len @ send_msg)"

definition onConnection :: "sys_write \<Rightarrow> tid \<Rightarrow> RpcClient \<Rightarrow> RpcClient res" where
  "onConnection wr t cl =
     (if isConnected (cli_conn cl)
      then bindE (TcpConnection_send wr t (cli_send_msg cl) (cli_conn cl)) (\<lambda>c. Inr (cl\<lparr>cli_conn := c\<rparr>))
      else bindE (shutdown t (cli_conn cl)) (\<lambda>c. Inr (cl\<lparr>cli_conn := c, loop_quit := True\<rparr>)))"

definition onMessage :: "host_order \<Rightarrow> runtime \<Rightarrow> tid \<Rightarrow> RpcClient \<Rightarrow> RpcClient res" where
  "onMessage h rt t cl =
     bindE (unpack_static h rt (m_inputBuffer (cli_conn cl)) RpcMessage_ctor) (\<lambda>(msg, inp).
       let c1 = (cli_conn cl)\<lparr>m_inputBuffer := inp\<rparr>;
           r = (if m_type msg = MessageType_value RESPONSE then Some (m_response msg) else rsp cl)
       in bindE (shutdown t c1) (\<lambda>c2. Inr (cl\<lparr>cli_conn := c2, rsp := r\<rparr>)))"

section \<open>Requests and responses\<close>

definition response_msg :: "byte list \<Rightarrow> RpcMessage" where
  "response_msg r = set_response r (set_type RESPONSE RpcMessage_ctor)"

lemma response_msg_fields [simp]:
  "m_type (response_msg r) = MessageType_value RESPONSE" "m_response (response_msg r) = r"
  by (simp_all add: response_msg_def set_response_def set_type_def)

lemma response_valid: "protobuf_runtime rt \<Longrightarrow> length r < 2 ^ 31 \<Longrightarrow> valid_message rt (response_msg r)"
  by (simp add: valid_message_def response_msg_def set_response_def set_type_def RpcMessage_ctor_def
      protobuf_runtime.empty_utf8)

lemma request_fields [simp]:
  "m_service (CallMethod_request s m q) = s" "m_method (CallMethod_request s m q) = m"
  "m_request (CallMethod_request s m q) = q"
  by (simp_all add: CallMethod_request_def set_request_def set_method_def set_service_def set_type_def)

lemma send_msg_frame:
  "CallMethod_send_msg h rt s m q = frame (InternalSerialize rt (CallMethod_request s m q))"
  by (simp add: CallMethod_send_msg_def frame_def store_hostToNetwork32 Let_def)

text \<open>A request of which the server knows service and method, and that the method can parse.\<close>

definition serves :: "services \<Rightarrow> RpcMessage \<Rightarrow> byte list \<Rightarrow> bool" where
  "serves services msg r \<longleftrightarrow>
     (case services (m_service msg) of None \<Rightarrow> False | Some service \<Rightarrow>
        (case service (m_method msg) of None \<Rightarrow> False | Some method \<Rightarrow>
           (case ParseRequest method (m_request msg) of None \<Rightarrow> False | Some req \<Rightarrow> r = CallMethod method req)))"

lemma worker_unpacks:
  assumes "protobuf_runtime rt" and "valid_message rt msg" and "length (InternalSerialize rt msg) + 4 < 2 ^ 31"
    and "buffer_inv (m_inputBuffer c)" and "content (m_inputBuffer c) = frame (InternalSerialize rt msg) @ rest"
  obtains inp where "RpcCoder_unpack h rt RpcMessage_ctor (m_inputBuffer c) = Inr (True, msg, inp)"
    and "buffer_inv inp" and "content inp = rest"
proof -
  note parse = protobuf_runtime.parse_serialize [OF assms(1,2), of RpcMessage_ctor]
  from unpack_frame(1) [OF assms(4,5,3) parse, of h] that show thesis by (auto simp: runs_iff)
qed

lemma RpcCoder_pack_eq:
  "RpcCoder_pack h rt r RpcMessage_ctor b =
     bindE (bindE (Buffer_append (InternalSerialize rt (response_msg r)) b)
       (\<lambda>b1. prepend (store h 4 (hostToNetwork32 h (of_nat (readableBytes b1)))) b1))
     (\<lambda>b2. Inr (True, response_msg r, b2))"
  by (simp add: RpcCoder_pack_def response_msg_def Let_def bindE_assoc)

lemma peek_bytes: "buffer_inv b \<Longrightarrow> vec_read (peek b) (readableBytes b) (m_buffer b) = Inr (content b)"
  by (rule output_bytes)

lemma worker_replies:
  assumes "protobuf_runtime rt" and "valid_message rt msg" and "length (InternalSerialize rt msg) + 4 < 2 ^ 31"
    and "conn_inv c" and "content (m_inputBuffer c) = frame (InternalSerialize rt msg) @ rest"
    and "serves services msg r" and "m_state c = kConnected" and "content (m_outputBuffer c) = []"
    and "4 \<le> m_readerIndex (m_outputBuffer c)" and "length (InternalSerialize rt (response_msg r)) + 4 < 2 ^ 31"
    and "length (m_buffer (m_outputBuffer c)) < 2 ^ 62"
  shows "runs (\<lambda>(out, c'). conn_inv c' \<and> content (m_inputBuffer c') = rest \<and> m_state c' = kConnected \<and>
      loop_tid c' = loop_tid c \<and> written c' = written c \<and>
      content (m_outputBuffer c') = [] \<and> length (m_buffer (m_outputBuffer c')) < 2 ^ 62 + 2 ^ 31 \<and>
      m_writerIndex (m_outputBuffer c') = 8 \<and>
      (case out of Sent p n \<Rightarrow> vec_read p n (m_buffer (m_outputBuffer c')) =
           Inr (frame (InternalSerialize rt (response_msg r))) \<and>
           n = 4 + length (InternalSerialize rt (response_msg r))
       | _ \<Rightarrow> False)) (worker_turn h rt services c)"
proof -
  have inv: "buffer_inv (m_inputBuffer c)" "buffer_inv (m_outputBuffer c)"
    using assms(4) by (simp_all add: conn_inv_def)
  from worker_unpacks [OF assms(1-3) inv(1) assms(5)] obtain inp where
    u: "RpcCoder_unpack h rt RpcMessage_ctor (m_inputBuffer c) = Inr (True, msg, inp)"
      "buffer_inv inp" "content inp = rest" .
  let ?d = "InternalSerialize rt (response_msg r)"
  have "length ?d < 2 ^ 31" "length (m_buffer (m_outputBuffer c)) + length ?d < 2 ^ 63"
    using assms(10,11) by simp_all
  from pack_bytes [OF inv(2) this assms(9), of h] obtain b where b: "buffer_inv b" "content b = frame ?d"
      "length (m_buffer b) \<le> length (m_buffer (m_outputBuffer c)) + length ?d"
      "RpcCoder_pack h rt r RpcMessage_ctor (m_outputBuffer c) = Inr (True, response_msg r, b)"
    using assms(8) by (auto simp: runs_iff RpcCoder_pack_eq)
  let ?c = "c\<lparr>m_inputBuffer := inp, m_outputBuffer := retrieveAll b\<rparr>"
  have "worker_turn h rt services c = Inr (Sent (peek b) (readableBytes b), ?c)"
    using u(1) b(4) assms(6,7)
    by (auto simp: worker_turn_def serves_def send_own_buffer_def split: option.splits)
  moreover have "conn_inv ?c"
    using assms(4,7,8) u(2) retrieveAll_inv [OF b(1)]
    by (simp add: conn_inv_def conn_up_def closes_def)
  moreover have "m_buffer (retrieveAll b) = m_buffer b" "m_writerIndex (retrieveAll b) = 8"
    by (simp_all add: retrieveAll_def kCheapPrepend_def)
  moreover have "readableBytes b = 4 + length ?d"
    using length_content [OF b(1)] b(2) by (simp add: frame_def)
  ultimately show ?thesis
    using peek_bytes [OF b(1)] b(2,3) u(3) assms(7,10,11) by simp
qed

lemma own_send_ok:
  assumes "conn_inv c" and "m_state c = kConnected" and "wr_ok wr" and "content (m_outputBuffer c) = []"
    and "vec_read p n (m_buffer (m_outputBuffer c)) = Inr data" and "n < 2 ^ 31"
    and "length (m_buffer (m_outputBuffer c)) + n < 2 ^ 63" and "m_writerIndex (m_outputBuffer c) = 8"
    and "wr data = Inr k" and "k = n \<or> 8 \<le> k"
  shows "runs (\<lambda>c'. conn_inv c' \<and> m_state c' = kConnected \<and> sent c' = sent c @ data) (run_own_send wr p n c)"
proof -
  have len: "length data = n" "p + n \<le> length (m_buffer (m_outputBuffer c))"
    using assms(5) by (auto simp: vec_read_def split: if_splits)
  have up: "conn_up c" using assms(2) by (simp add: conn_up_def)
  obtain n' fault c1 where tw: "try_write wr data c = (n', fault, c1)" by (cases "try_write wr data c")
  have "\<not> isWriting (p_channel c) \<and> readableBytes (m_outputBuffer c) = 0"
    using conn_inv_writing(1) [OF assms(1)] assms(1,4) readable_content by (simp add: conn_inv_def)
  then have n': "n' = k" using tw assms(9) by (simp add: try_write_def Let_def)
  have inv: "buffer_inv (m_outputBuffer c)" using assms(1) by (simp add: conn_inv_def)
  have "n - k \<le> writableBytes (m_outputBuffer c)"
    using assms(6-8,10) len(2) inv by (auto simp: writableBytes_def buffer_inv_def size_sub_exact)
  then have "run_own_send wr p n c = sendInLoop wr (loop_tid c) data c"
    using assms(5) tw n' by (simp add: run_own_send_def)
  moreover have "\<not> peer_gone wr data c" using assms(9) by (simp add: peer_gone_def)
  ultimately show ?thesis
    using runs_mono [OF sendInLoop_ok [OF assms(1,3) up refl, of data]] assms(2,6,7) len(1) by simp
qed

lemma client_parses:
  assumes "protobuf_runtime rt" and "length r < 2 ^ 31"
    and "length (InternalSerialize rt (response_msg r)) + 4 < 2 ^ 31"
    and "conn_inv (cli_conn cl)" and "m_state (cli_conn cl) = kConnected" and "t = loop_tid (cli_conn cl)"
    and "content (m_inputBuffer (cli_conn cl)) = frame (InternalSerialize rt (response_msg r)) @ rest"
  shows "runs (\<lambda>cl'. rsp cl' = Some r \<and> conn_inv (cli_conn cl') \<and> m_state (cli_conn cl') = kDisConnecting \<and>
      loop_tid (cli_conn cl') = t \<and> loop_quit cl' = loop_quit cl \<and> sent (cli_conn cl') = sent (cli_conn cl) \<and>
      (shut_wr (cli_conn cl') \<longleftrightarrow> shut_wr (cli_conn cl) \<or> content (m_outputBuffer (cli_conn cl)) = []))
    (onMessage h rt t cl)"
proof -
  have inv: "buffer_inv (m_inputBuffer (cli_conn cl))" using assms(4) by (simp add: conn_inv_def)
  note parse = protobuf_runtime.parse_serialize [OF assms(1) response_valid [OF assms(1,2)], of RpcMessage_ctor]
  from unpack_frame(2) [OF inv assms(7,3) parse, of h] obtain inp where
    u: "unpack_static h rt (m_inputBuffer (cli_conn cl)) RpcMessage_ctor = Inr (response_msg r, inp)"
      "buffer_inv inp"
    by (auto simp: runs_iff)
  let ?c = "(cli_conn cl)\<lparr>m_inputBuffer := inp\<rparr>"
  have "conn_inv ?c" using assms(4) u(2) by (simp add: conn_inv_def conn_up_def closes_def)
  from shutdown_ok [OF this, of t] assms(5,6) show ?thesis
    by (auto simp: onMessage_def u(1) runs_bindE sent_def elim!: runs_mono)
qed

section \<open>Properties\<close>

text \<open>
  C1: a call from end to end. The bytes \<open>CallMethod\<close> of the client sends, arrived in the input buffer
  of a connection of the server (of any byte order) whose output buffer is idle, make one turn of
  the worker loop call the registered method and post a send; the functor of that send gives the
  connection exactly one frame to transmit, provided the kernel takes the frame or at least its first
  eight bytes at once, and keeps the bytes after the request for the next turn; and a client whose input buffer
  has received that frame hands the method's answer to the caller.
\<close>

theorem rpc_call_roundtrip:
  assumes "protobuf_runtime rt" and "valid_message rt (CallMethod_request s m q)"
    and "length (InternalSerialize rt (CallMethod_request s m q)) + 4 < 2 ^ 31"
    and "conn_inv c" and "m_state c = kConnected" and "content (m_outputBuffer c) = []"
    and "m_readerIndex (m_outputBuffer c) = 8" and "length (m_buffer (m_outputBuffer c)) < 2 ^ 62"
    and "content (m_inputBuffer c) = CallMethod_send_msg h rt s m q @ rest"
    and "serves services (CallMethod_request s m q) r" and "length r < 2 ^ 31"
    and "length (InternalSerialize rt (response_msg r)) + 4 < 2 ^ 31"
    and "wr_ok wr" and "\<And>data. \<exists>k. wr data = Inr k \<and> (k = length data \<or> 8 \<le> k)"
    and "conn_inv (cli_conn cl)" and "m_state (cli_conn cl) = kConnected"
    and "content (m_inputBuffer (cli_conn cl)) = frame (InternalSerialize rt (response_msg r))"
  shows "\<exists>p n c1 c2 cl'. worker_turn h' rt services c = Inr (Sent p n, c1) \<and>
      content (m_inputBuffer c1) = rest \<and> run_own_send wr p n c1 = Inr c2 \<and>
      sent c2 = sent c @ frame (InternalSerialize rt (response_msg r)) \<and>
      onMessage h rt (loop_tid (cli_conn cl)) cl = Inr cl' \<and> rsp cl' = Some r"
proof -
  let ?f = "frame (InternalSerialize rt (response_msg r))"
  have "content (m_inputBuffer c) = frame (InternalSerialize rt (CallMethod_request s m q)) @ rest"
    "4 \<le> m_readerIndex (m_outputBuffer c)"
    using assms(7,9) by (simp_all add: send_msg_frame)
  from worker_replies [OF assms(1-4) this(1) assms(10,5,6) this(2) assms(12,8), of h'] obtain out c1 where
    w: "worker_turn h' rt services c = Inr (out, c1)" "conn_inv c1" "m_state c1 = kConnected"
      "content (m_inputBuffer c1) = rest" "content (m_outputBuffer c1) = []" "written c1 = written c"
      "length (m_buffer (m_outputBuffer c1)) < 2 ^ 62 + 2 ^ 31" "m_writerIndex (m_outputBuffer c1) = 8"
      and out: "case out of Sent p n \<Rightarrow> vec_read p n (m_buffer (m_outputBuffer c1)) = Inr ?f \<and>
           n = 4 + length (InternalSerialize rt (response_msg r)) | _ \<Rightarrow> False"
    by (rule runsE) (case_tac x, simp)
  from out obtain p n where pn: "out = Sent p n" "vec_read p n (m_buffer (m_outputBuffer c1)) = Inr ?f"
      "n = 4 + length (InternalSerialize rt (response_msg r))"
    by (cases out) simp_all
  obtain k where k: "wr ?f = Inr k" "k = n \<or> 8 \<le> k" using assms(14) [of ?f] pn(3) by (auto simp: frame_def)
  have "n < 2 ^ 31" "length (m_buffer (m_outputBuffer c1)) + n < 2 ^ 63"
    using w(7) pn(3) assms(12) by simp_all
  from own_send_ok [OF w(2,3) assms(13) w(5) pn(2) this w(8) k] obtain c2 where
    "run_own_send wr p n c1 = Inr c2" "sent c2 = sent c1 @ ?f"
    by (auto simp: runs_iff)
  moreover have "sent c1 = sent c" using w(5,6) assms(6) by (simp add: sent_def)
  moreover have "\<exists>cl'. onMessage h rt (loop_tid (cli_conn cl)) cl = Inr cl' \<and> rsp cl' = Some r"
    using client_parses [OF assms(1,11,12,15,16) refl, of "[]" h] assms(17) by (auto simp: runs_iff)
  ultimately show ?thesis using w(1,4) pn(1) by metis
qed

definition take_all :: sys_write where "take_all data = Inr (length data)"

definition seven_service :: services where
  "seven_service = [[69] \<mapsto> [[112] \<mapsto> \<lparr>ParseRequest = Some, CallMethod = \<lambda>_. [7]\<rparr>]]"

definition served_conn :: TcpConnection where
  "served_conn = sample_conn\<lparr>m_inputBuffer :=
     \<lparr>m_buffer = replicate 8 0 @ [0, 0, 0, 8, 8, 1, 26, 1, 69, 34, 1, 112], m_readerIndex = 8, m_writerIndex = 20\<rparr>\<rparr>"

lemma served_conn_inv: "conn_inv served_conn"
  using sample_conn_inv by (simp add: served_conn_def conn_inv_def conn_up_def closes_def buffer_inv_def kCheapPrepend_def)

lemma served_conn_simps [simp]:
  "m_state served_conn = kConnected" "content (m_outputBuffer served_conn) = []"
  "m_readerIndex (m_outputBuffer served_conn) = 8" "length (m_buffer (m_outputBuffer served_conn)) = 8"
  "content (m_inputBuffer served_conn) = [0, 0, 0, 8, 8, 1, 26, 1, 69, 34, 1, 112]" "written served_conn = []"
  by (simp_all add: served_conn_def sample_conn_def content_def)

lemma request_bytes: "InternalSerialize wire (CallMethod_request [69] [112] []) = [8, 1, 26, 1, 69, 34, 1, 112]"
  by code_simp

lemma seven_bytes: "InternalSerialize wire (response_msg [7]) = [8, 2, 50, 1, 7]"
  by code_simp

lemma request_frame: "CallMethod_send_msg h wire [69] [112] [] = [0, 0, 0, 8, 8, 1, 26, 1, 69, 34, 1, 112]"
  unfolding send_msg_frame request_bytes by (simp add: frame_def be_bytes_4)

lemma request_valid: "valid_message wire (CallMethod_request [69] [112] [])"
  by (simp add: valid_message_def CallMethod_request_def set_request_def set_method_def set_service_def
      set_type_def RpcMessage_ctor_def wire_def)

definition seven_client :: RpcClient where
  "seven_client = \<lparr>cli_conn = sample_conn\<lparr>m_inputBuffer :=
     \<lparr>m_buffer = replicate 8 0 @ [0, 0, 0, 5, 8, 2, 50, 1, 7], m_readerIndex = 8, m_writerIndex = 17\<rparr>\<rparr>,
     cli_send_msg = [], rsp = None, loop_quit = False\<rparr>"

lemma seven_client_simps [simp]:
  "m_state (cli_conn seven_client) = kConnected" "loop_tid (cli_conn seven_client) = 1"
  "content (m_inputBuffer (cli_conn seven_client)) = [0, 0, 0, 5, 8, 2, 50, 1, 7]"
  by (simp_all add: seven_client_def sample_conn_def content_def)

lemma seven_client_inv: "conn_inv (cli_conn seven_client)"
  using sample_conn_inv
  by (simp add: seven_client_def conn_inv_def conn_up_def closes_def buffer_inv_def kCheapPrepend_def)

theorem rpc_call_roundtrip_witness:
  "\<exists>p n c1 c2 cl'. worker_turn BigEndian wire seven_service served_conn = Inr (Sent p n, c1) \<and>
      run_own_send take_all p n c1 = Inr c2 \<and> sent c2 = [0, 0, 0, 5, 8, 2, 50, 1, 7] \<and>
      onMessage LittleEndian wire 1 seven_client = Inr cl' \<and> rsp cl' = Some [7]"
proof -
  have s: "serves seven_service (CallMethod_request [69] [112] []) [7]"
    by (simp add: serves_def seven_service_def)
  have w: "wr_ok take_all" "\<And>data. \<exists>k. take_all data = Inr k \<and> (k = length data \<or> 8 \<le> k)"
    by (simp_all add: wr_ok_def take_all_def)
  have f: "frame [8, 2, 50, 1, 7] = [0, 0, 0, 5, 8, 2, 50, 1, 7]"
    by (simp add: frame_def be_bytes_4)
  have "sent served_conn = []" by (simp add: sent_def)
  then show ?thesis
    using rpc_call_roundtrip [OF wire.protobuf_runtime_axioms request_valid _ served_conn_inv _ _ _ _ _ s _ _ w
        seven_client_inv, of LittleEndian "[]" BigEndian]
    unfolding request_bytes seven_bytes request_frame f by simp blast
qed

text \<open>
  C20: the requests a worker does not serve. If the service or the method is not registered, or the
  method's parser refuses the request, the turn takes the request out of the input buffer and does
  nothing else: the connection gets no answer, not even an error, and stays as it was.
\<close>

theorem worker_drops_request:
  assumes "protobuf_runtime rt" and "valid_message rt msg" and "length (InternalSerialize rt msg) + 4 < 2 ^ 31"
    and "conn_inv c" and "content (m_inputBuffer c) = frame (InternalSerialize rt msg) @ rest"
    and "\<nexists>r. serves services msg r"
  shows "\<exists>inp. content inp = rest \<and> worker_turn h rt services c =
    Inr (case services (m_service msg) of
           None \<Rightarrow> NoService
         | Some service \<Rightarrow> if service (m_method msg) = None then NoMethod else RequestParseFailed,
         c\<lparr>m_inputBuffer := inp\<rparr>)"
proof -
  have "buffer_inv (m_inputBuffer c)" using assms(4) by (simp add: conn_inv_def)
  from worker_unpacks [OF assms(1-3) this assms(5)] obtain inp where
    u: "RpcCoder_unpack h rt RpcMessage_ctor (m_inputBuffer c) = Inr (True, msg, inp)" "content inp = rest" .
  then show ?thesis
    using assms(6)
    by (intro exI [of _ inp]) (auto simp: worker_turn_def serves_def Let_def split: option.splits)
qed

theorem worker_drops_request_witness:
  "\<exists>inp. content inp = [] \<and> worker_turn LittleEndian wire Map.empty served_conn =
     Inr (NoService, served_conn\<lparr>m_inputBuffer := inp\<rparr>)"
  using worker_drops_request [OF wire.protobuf_runtime_axioms request_valid _ served_conn_inv,
      of "[]" Map.empty LittleEndian]
  unfolding request_bytes by (simp add: frame_def be_bytes_4 serves_def)



end
