(* ===== verification/Sockets.thy ===== *)
theory Sockets
  imports Endian TimeStamp
begin

text \<open>
  \<open>net/InetAddress.h\<close>, \<open>net/InetAddress.cpp\<close>, \<open>net/SocketOps.h\<close>, \<open>net/SocketOps.cpp\<close>, \<open>net/Socket.h\<close> and
  \<open>net/Socket.cpp\<close>: addresses as they lie in memory, their text form, and the wrappers of the socket calls
  with what they do about errors. What a system call returns is a parameter; the printed form of an
  IPv6 address is a parameter too, the IPv4 functions of the C library are modelled.
\<close>

section \<open>Addresses\<close>

text \<open>A port is the 16-bit field in memory, an address its bytes in memory, 4 or 16 of them.\<close>

datatype sockaddr = Sockaddr_in u16 "byte list" | Sockaddr_in6 u16 "byte list" | Sockaddr_none u16

datatype sa_family = AF_INET | AF_INET6 | AF_UNSPEC

fun family :: "sockaddr \<Rightarrow> sa_family" where
  "family (Sockaddr_in p a) = AF_INET"
| "family (Sockaddr_in6 p a) = AF_INET6"
| "family (Sockaddr_none p) = AF_UNSPEC"

fun port_field :: "sockaddr \<Rightarrow> u16" where
  "port_field (Sockaddr_in p a) = p"
| "port_field (Sockaddr_in6 p a) = p"
| "port_field (Sockaddr_none p) = p"

definition kInaddrAny :: u32 where "kInaddrAny = 0"
definition kInaddrLoopback :: u32 where "kInaddrLoopback = 0x7f000001"

definition InetAddress_port :: "host_order \<Rightarrow> u16 \<Rightarrow> bool \<Rightarrow> bool \<Rightarrow> sockaddr" where
  "InetAddress_port h port loopbackOnly ipv6 =
     (if ipv6
      then Sockaddr_in6 (hostToNetwork16 h port) (if loopbackOnly then replicate 15 0 @ [1] else replicate 16 0)
      else let ip = (if loopbackOnly then kInaddrLoopback else kInaddrAny) in
           Sockaddr_in (hostToNetwork16 h port) (store h 4 (hostToNetwork32 h ip)))"

text \<open>
  \<open>inet_pton\<close> for IPv4: decimal numbers up to 255 without leading zeros, separated by points. \<open>done\<close> holds
  the finished ones, \<open>cur\<close> the number being read, \<open>saw\<close> tells that it has a digit.
\<close>

definition digit_value :: "char \<Rightarrow> nat option" where
  "digit_value c = (if 48 \<le> (of_char c :: nat) \<and> (of_char c :: nat) \<le> 57 then Some (of_char c - 48) else None)"

fun inet_pton_loop :: "string \<Rightarrow> nat list \<Rightarrow> nat \<Rightarrow> bool \<Rightarrow> byte list option" where
  "inet_pton_loop [] fin cur saw =
     (if saw \<and> length fin = 3 then Some (map of_nat (fin @ [cur])) else None)"
| "inet_pton_loop (c # cs) fin cur saw =
     (case digit_value c of
        Some d \<Rightarrow>
          if saw \<and> cur = 0 then None
          else if cur * 10 + d > 255 then None
          else if \<not> saw \<and> length fin + 1 > 4 then None
          else inet_pton_loop cs fin (cur * 10 + d) True
      | None \<Rightarrow>
          if c = CHR ''.'' \<and> saw
          then if length fin + 1 = 4 then None else inet_pton_loop cs (fin @ [cur]) 0 False
          else None)"

definition inet_pton :: "string \<Rightarrow> byte list option" where
  "inet_pton s = inet_pton_loop s [] 0 False"

definition inet_ntop4 :: "byte list \<Rightarrow> string" where
  "inet_ntop4 a =
     dec_nat (unat (a ! 0)) @ ''.'' @ dec_nat (unat (a ! 1)) @ ''.'' @
     dec_nat (unat (a ! 2)) @ ''.'' @ dec_nat (unat (a ! 3))"

text \<open>\<open>fromIpPort\<close> only logs when the text is not an address; the constructor has zeroed the structure before.\<close>

definition fromIpPort :: "host_order \<Rightarrow> string \<Rightarrow> u16 \<Rightarrow> byte list \<Rightarrow> sockaddr" where
  "fromIpPort h ip port old_addr =
     Sockaddr_in (hostToNetwork16 h port) (case inet_pton ip of Some a \<Rightarrow> a | None \<Rightarrow> old_addr)"

definition InetAddress_ip :: "host_order \<Rightarrow> string \<Rightarrow> u16 \<Rightarrow> bool \<Rightarrow> sockaddr" where
  "InetAddress_ip h ip port ipv6 = fromIpPort h ip port (replicate 4 0)"

definition ipNetEndian :: "host_order \<Rightarrow> sockaddr \<Rightarrow> u32 res" where
  "ipNetEndian h a = (case a of Sockaddr_in p ip \<Rightarrow> Inr (load h ip) | _ \<Rightarrow> Inl AssertFail)"

text \<open>\<open>toIp\<close> into a zeroed buffer of \<open>sz\<close> characters; the result is the string in it.\<close>

definition toIp :: "(byte list \<Rightarrow> string) \<Rightarrow> nat \<Rightarrow> sockaddr \<Rightarrow> string res" where
  "toIp ntop6 sz a =
     (case a of
        Sockaddr_in p ip \<Rightarrow> assertE (16 \<le> sz) (Inr (inet_ntop4 ip))
      | Sockaddr_in6 p ip \<Rightarrow> assertE (46 \<le> sz) (Inr (ntop6 ip))
      | Sockaddr_none p \<Rightarrow> Inr [])"

definition toIpPort :: "host_order \<Rightarrow> (byte list \<Rightarrow> string) \<Rightarrow> nat \<Rightarrow> sockaddr \<Rightarrow> string res" where
  "toIpPort h ntop6 sz a =
     bindE (toIp ntop6 sz a) (\<lambda>buf.
     let end = length buf; port = networkToHost16 h (port_field a) in
     assertE (sz > end)
       (Inr (buf @ take (sz - end - 1) ('':'' @ dec_nat (unat port)))))"

definition InetAddress_toIpPort :: "host_order \<Rightarrow> (byte list \<Rightarrow> string) \<Rightarrow> sockaddr \<Rightarrow> string res" where
  "InetAddress_toIpPort h ntop6 a = toIpPort h ntop6 64 a"

section \<open>Socket calls\<close>

text \<open>A system call returns a value or sets \<open>errno\<close>.\<close>

type_synonym 'a sys = "errno + 'a"

definition EAGAIN :: errno where "EAGAIN = 11"
definition ECONNABORTED :: errno where "ECONNABORTED = 103"
definition EINTR :: errno where "EINTR = 4"
definition EPROTO :: errno where "EPROTO = 71"
definition EPERM :: errno where "EPERM = 1"
definition EMFILE :: errno where "EMFILE = 24"
definition EINVAL :: errno where "EINVAL = 22"

lemmas errno_defs = EAGAIN_def ECONNABORTED_def EINTR_def EPROTO_def EPERM_def EMFILE_def EINVAL_def

text \<open>\<open>createSocket\<close>: with the close-on-exec flag, and without it when the kernel does not know the flag.\<close>

definition createSocket :: "(bool \<Rightarrow> fd sys) \<Rightarrow> fd sys" where
  "createSocket socket =
     (case socket True of
        Inr sock \<Rightarrow> Inr sock
      | Inl e \<Rightarrow> if e \<noteq> EINVAL then Inl e else socket False)"

definition createNonblockingOrDie :: "fd sys \<Rightarrow> fd res" where
  "createNonblockingOrDie r = (case r of Inr f \<Rightarrow> Inr f | Inl _ \<Rightarrow> Inl FatalLog)"

text \<open>
  \<open>bindOrDie\<close> and \<open>connect\<close> pass \<open>sizeof(struct sockaddr)\<close>, 16 bytes, as the length of the address whatever its family.
\<close>

definition sockaddr_len :: nat where "sockaddr_len = 16"

definition bindOrDie :: "(sockaddr \<Rightarrow> nat \<Rightarrow> unit sys) \<Rightarrow> sockaddr \<Rightarrow> unit res" where
  "bindOrDie bind a = (case bind a sockaddr_len of Inr _ \<Rightarrow> Inr () | Inl _ \<Rightarrow> Inl FatalLog)"

definition sockets_connect :: "(sockaddr \<Rightarrow> nat \<Rightarrow> unit sys) \<Rightarrow> sockaddr \<Rightarrow> unit sys" where
  "sockets_connect conn a = conn a sockaddr_len"

definition listenOrDie :: "unit sys \<Rightarrow> unit res" where
  "listenOrDie r = (case r of Inr _ \<Rightarrow> Inr () | Inl _ \<Rightarrow> Inl FatalLog)"

text \<open>\<open>accept\<close>: an error outside the list of expected ones is logged as fatal.\<close>

definition sockets_accept :: "(fd \<times> sockaddr) sys \<Rightarrow> (fd \<times> sockaddr) sys res" where
  "sockets_accept r =
     (case r of
        Inr x \<Rightarrow> Inr (Inr x)
      | Inl e \<Rightarrow>
          if e \<in> {EAGAIN, ECONNABORTED, EINTR, EPROTO, EPERM, EMFILE} then Inr (Inl e) else Inl FatalLog)"

definition Socket_accept :: "(fd \<times> sockaddr) sys \<Rightarrow> sockaddr \<Rightarrow> (fd sys \<times> sockaddr) res" where
  "Socket_accept r peeraddr =
     bindE (sockets_accept r) (\<lambda>x.
     Inr (case x of Inr (connfd, addr) \<Rightarrow> (Inr connfd, addr) | Inl e \<Rightarrow> (Inl e, peeraddr)))"

definition getLocalAddr :: "sockaddr sys \<Rightarrow> sockaddr" where
  "getLocalAddr r = (case r of Inr a \<Rightarrow> a | Inl _ \<Rightarrow> Sockaddr_none 0)"

definition getPeerAddr :: "sockaddr sys \<Rightarrow> sockaddr" where
  "getPeerAddr r = (case r of Inr a \<Rightarrow> a | Inl _ \<Rightarrow> Sockaddr_none 0)"

definition getSocketError :: "nat sys \<Rightarrow> nat" where
  "getSocketError r = (case r of Inl e \<Rightarrow> e | Inr optval \<Rightarrow> optval)"

text \<open>
  \<open>isSelfConnect\<close> reads both structures with the layout of the local family. In a structure of the
  other family, or in one left zeroed, the bytes at the place of the address are zero.
\<close>

fun addr4 :: "sockaddr \<Rightarrow> byte list" where
  "addr4 (Sockaddr_in p a) = a"
| "addr4 _ = replicate 4 0"

fun addr6 :: "sockaddr \<Rightarrow> byte list" where
  "addr6 (Sockaddr_in6 p a) = a"
| "addr6 _ = replicate 16 0"

definition isSelfConnect :: "sockaddr sys \<Rightarrow> sockaddr sys \<Rightarrow> bool" where
  "isSelfConnect localr peerr =
     (let localaddr = getLocalAddr localr; peeraddr = getPeerAddr peerr in
      if family localaddr = AF_INET
      then port_field localaddr = port_field peeraddr \<and> addr4 localaddr = addr4 peeraddr
      else if family localaddr = AF_INET6
      then port_field localaddr = port_field peeraddr \<and> addr6 localaddr = addr6 peeraddr
      else False)"

section \<open>Socket options\<close>

record Socket =
  sock_fd :: fd
  opt_nodelay :: bool
  opt_reuseaddr :: bool
  opt_reuseport :: bool
  opt_keepalive :: bool

definition newSocket :: "fd \<Rightarrow> Socket" where
  "newSocket f = \<lparr>sock_fd = f, opt_nodelay = False, opt_reuseaddr = False, opt_reuseport = False, opt_keepalive = False\<rparr>"

text \<open>The setters; a failed \<open>setsockopt\<close> is only logged.\<close>

definition setTcpNoDelay :: "bool \<Rightarrow> bool \<Rightarrow> Socket \<Rightarrow> Socket" where
  "setTcpNoDelay ok on s = (if ok then s\<lparr>opt_nodelay := on\<rparr> else s)"

definition setReuseAddr :: "bool \<Rightarrow> bool \<Rightarrow> Socket \<Rightarrow> Socket" where
  "setReuseAddr ok on s = (if ok then s\<lparr>opt_reuseaddr := on\<rparr> else s)"

definition setReusePort :: "bool \<Rightarrow> bool \<Rightarrow> Socket \<Rightarrow> Socket" where
  "setReusePort ok on s = (if ok then s\<lparr>opt_reuseport := on\<rparr> else s)"

definition setKeepAlive :: "bool \<Rightarrow> bool \<Rightarrow> Socket \<Rightarrow> Socket" where
  "setKeepAlive ok on s = (if ok then s\<lparr>opt_keepalive := on\<rparr> else s)"

section \<open>Text of an address\<close>

lemma digit_value_digit [simp]: "d < 10 \<Longrightarrow> digit_value (digit d) = Some d"
  by (simp add: digit_value_def)

lemma digit_value_point [simp]: "digit_value (CHR ''.'') = None"
  by (simp add: digit_value_def)

lemma unat_bounds: "unat (w :: byte) < 256" "unat (p :: u16) < 65536"
  using unsigned_less [of w, where 'a = nat] unsigned_less [of p, where 'a = nat] by simp_all

lemma dec_nat_byte:
  assumes "n < 256"
  shows "dec_nat n = (if n < 10 then [digit n] else if n < 100 then [digit (n div 10), digit (n mod 10)]
    else [digit (n div 100), digit (n div 10 mod 10), digit (n mod 10)])"
proof -
  have "n div 10 div 10 = n div 100" by (simp add: div_mult2_eq [symmetric])
  moreover have "n div 100 < 10" using assms by simp
  moreover have "n div 10 < 10 \<longleftrightarrow> n < 100" by (simp add: div_less_iff_less_mult)
  ultimately show ?thesis
    using dec_nat.simps [of n] dec_nat.simps [of "n div 10"] dec_nat.simps [of "n div 100"] by simp
qed

lemma pton_number:
  assumes "n < 256" and "length fin < 4"
  shows "inet_pton_loop (dec_nat n @ rest) fin 0 False = inet_pton_loop rest fin n True"
proof -
  consider "n < 10" | "10 \<le> n" "n < 100" | "100 \<le> n" by linarith
  then show ?thesis
  proof cases
    case 1
    then show ?thesis using assms by (simp add: dec_nat_byte)
  next
    case 2
    then have "n div 10 < 10" "n div 10 \<noteq> 0" by simp_all
    then show ?thesis using assms 2 by (simp add: dec_nat_byte)
  next
    case 3
    then have "n div 100 < 10" "n div 100 \<noteq> 0" using assms by simp_all
    moreover have "n div 100 * 10 + n div 10 mod 10 = n div 10"
      using div_mult_mod_eq [of "n div 10" 10] by (simp add: div_mult2_eq [symmetric])
    moreover have "n div 10 < 256" using assms by simp
    ultimately show ?thesis using assms 3 by (simp add: dec_nat_byte)
  qed
qed

lemma pton_ntop4:
  assumes "length a = 4"
  shows "inet_pton (inet_ntop4 a) = Some a"
proof -
  have b: "unat (a ! i) < 256" for i by (rule unat_bounds)
  have a: "a = [a ! 0, a ! 1, a ! 2, a ! 3]"
    using assms by (auto simp: numeral_eq_Suc length_Suc_conv)
  have "inet_pton (inet_ntop4 a) = Some [a ! 0, a ! 1, a ! 2, a ! 3]"
    by (simp add: inet_pton_def inet_ntop4_def pton_number [OF b] pton_number [OF b, where rest = "[]", simplified])
  then show ?thesis using a by simp
qed

lemma length_ntop4: "length (inet_ntop4 ip) \<le> 15"
proof -
  have "length (dec_nat (unat w)) \<le> 3" for w :: byte
    using length_dec_nat [of "unat w" 2] unat_bounds(1) [of w] by simp
  from this [of "ip ! 0"] this [of "ip ! 1"] this [of "ip ! 2"] this [of "ip ! 3"]
  show ?thesis by (simp add: inet_ntop4_def)
qed

lemma length_port: "length (dec_nat (unat (port :: u16))) \<le> 5"
  using length_dec_nat [of "unat port" 4] unat_bounds(2) [of port] by simp

lemma ip_port_text:
  assumes "length ip = 4"
  shows "InetAddress_ip h (inet_ntop4 ip) port ipv6 = Sockaddr_in (hostToNetwork16 h port) ip"
    "InetAddress_toIpPort h ntop6 (Sockaddr_in (hostToNetwork16 h port) ip) = Inr (inet_ntop4 ip @ '':'' @ dec_nat (unat port))"
  using length_ntop4 [of ip] length_port [of port]
  by (simp_all add: InetAddress_ip_def fromIpPort_def pton_ntop4 [OF assms] InetAddress_toIpPort_def toIpPort_def
      toIp_def networkToHost_inverse)

lemma toIpPort4: "\<exists>s. InetAddress_toIpPort h ntop6 (Sockaddr_in p ip) = Inr s \<and> length s \<le> 21"
  using length_ntop4 [of ip] length_port [of "networkToHost16 h p"]
  by (simp add: InetAddress_toIpPort_def toIpPort_def toIp_def)

section \<open>Properties\<close>

text \<open>
  The text of an IPv4 address and port. An \<open>InetAddress\<close> made from the dotted text of four bytes and
  a port stores port and address in network order, whatever the byte order of the host, its
  \<open>toIpPort\<close> is that text with the port in decimal, and it fits the buffer.
\<close>

theorem address_text_roundtrip:
  assumes "length ip = 4"
  shows "(case InetAddress_ip h (inet_ntop4 ip) port ipv6 of
            Sockaddr_in p a \<Rightarrow> store h 2 p = be_bytes 2 port \<and> a = ip | _ \<Rightarrow> False) \<and>
    InetAddress_toIpPort h ntop6 (InetAddress_ip h (inet_ntop4 ip) port ipv6) =
      Inr (inet_ntop4 ip @ '':'' @ dec_nat (unat port))"
  using store_hostToNetwork16 [of h port] ip_port_text [OF assms] by simp

theorem address_text_roundtrip_witness:
  "InetAddress_toIpPort LittleEndian (\<lambda>_. []) (InetAddress_ip LittleEndian ''127.0.0.1'' 80 False) =
     Inr ''127.0.0.1:80''"
proof -
  have "dec_nat 127 = ''127''" "dec_nat 0 = ''0''" "dec_nat 1 = ''1''" "dec_nat 80 = ''80''" by code_simp+
  then have "inet_ntop4 [127, 0, 0, 1] = ''127.0.0.1''" "dec_nat (unat (80 :: u16)) = ''80''"
    by (simp_all add: inet_ntop4_def)
  then show ?thesis
    using address_text_roundtrip [of "[127, 0, 0, 1]" LittleEndian 80 False "\<lambda>_. []"] by simp
qed

end
