(* ===== verification/Acceptor.thy ===== *)
theory Acceptor
  imports Channel Sockets
begin

text \<open>
  \<open>net/Acceptor.h\<close> and \<open>net/Acceptor.cpp\<close>: the listening socket, and the spare descriptor that lets the
  acceptor turn a connection away when the process has no descriptors left. What the system calls
  return is a parameter; \<open>ac_accepted\<close> lists the calls of the callback, \<open>ac_closed\<close> the descriptors closed.
\<close>

section \<open>Operations\<close>

record Acceptor =
  ac_tid :: tid
  m_acceptSocket :: Socket
  m_acceptChannel :: "unit Channel"
  has_newConnectionCallBack :: bool
  m_listenning :: bool
  m_idleFd :: fd
  ac_accepted :: "(fd \<times> sockaddr) list"
  ac_closed :: "fd list"

text \<open>The constructor sets the address option twice, the second time to \<open>reuseport\<close>.\<close>

definition newAcceptor ::
  "tid \<Rightarrow> fd sys \<Rightarrow> fd \<Rightarrow> (sockaddr \<Rightarrow> nat \<Rightarrow> unit sys) \<Rightarrow> sockaddr \<Rightarrow> bool \<Rightarrow> Acceptor res" where
  "newAcceptor t socket idle bind listenAddr reuseport =
     bindE (createNonblockingOrDie socket) (\<lambda>sockfd.
     assertE (idle \<ge> 0)
       (let s = setReuseAddr True reuseport (setReuseAddr True True (newSocket sockfd)) in
        bindE (bindOrDie bind listenAddr) (\<lambda>_.
        Inr \<lparr>ac_tid = t, m_acceptSocket = s, m_acceptChannel = (newChannel sockfd)\<lparr>m_readCallBack := Some ()\<rparr>,
          has_newConnectionCallBack = False, m_listenning = False, m_idleFd = idle, ac_accepted = [], ac_closed = []\<rparr>)))"

definition setNewConnectionCallBack :: "Acceptor \<Rightarrow> Acceptor" where
  "setNewConnectionCallBack a = a\<lparr>has_newConnectionCallBack := True\<rparr>"

definition ac_in_loop :: "tid \<Rightarrow> Acceptor \<Rightarrow> 'a res \<Rightarrow> 'a res" where
  "ac_in_loop t a m = (if t = ac_tid a then m else Inl FatalLog)"

definition Acceptor_listen :: "unit sys \<Rightarrow> tid \<Rightarrow> Acceptor \<Rightarrow> Acceptor res" where
  "Acceptor_listen r t a =
     ac_in_loop t a
       (let a1 = a\<lparr>m_listenning := True\<rparr> in
        bindE (listenOrDie r) (\<lambda>_.
        Inr (a1\<lparr>m_acceptChannel := (m_acceptChannel a1)
          \<lparr>m_events := apply_mask EnableReading (m_events (m_acceptChannel a1)), m_addedToLoop := True\<rparr>\<rparr>)))"

definition destroyAcceptor :: "Acceptor \<Rightarrow> Acceptor" where
  "destroyAcceptor a =
     a\<lparr>m_acceptChannel := (m_acceptChannel a)\<lparr>m_events := apply_mask DisableAll (m_events (m_acceptChannel a)),
         m_addedToLoop := False\<rparr>,
       ac_closed := ac_closed a @ [m_idleFd a]\<rparr>"

text \<open>
  \<open>handleRead\<close>: \<open>r\<close> is what \<open>accept4\<close> returns, \<open>r2\<close> and \<open>idle\<close> what the second \<open>accept\<close> and the \<open>open\<close> return
  when there are no descriptors left; a failed call returns -1.
\<close>

definition ac_handleRead :: "(fd \<times> sockaddr) sys \<Rightarrow> fd \<Rightarrow> fd \<Rightarrow> tid \<Rightarrow> Acceptor \<Rightarrow> Acceptor res" where
  "ac_handleRead r r2 idle t a =
     ac_in_loop t a
       (bindE (Socket_accept r (Sockaddr_in 0 (replicate 4 0))) (\<lambda>(connfd, peerAddr).
        case connfd of
          Inr f \<Rightarrow>
            if has_newConnectionCallBack a then Inr (a\<lparr>ac_accepted := ac_accepted a @ [(f, peerAddr)]\<rparr>)
            else Inr (a\<lparr>ac_closed := ac_closed a @ [f]\<rparr>)
        | Inl e \<Rightarrow>
            if e = EMFILE
            then Inr (a\<lparr>m_idleFd := idle, ac_closed := ac_closed a @ [m_idleFd a, r2]\<rparr>)
            else Inr a))"

section \<open>What they do\<close>

text \<open>With the default option of the server the address cannot be reused at once.\<close>

lemma acceptor_reuse_off:
  assumes "newAcceptor t socket idle bind addr reuseport = Inr a"
  shows "opt_reuseaddr (m_acceptSocket a) = reuseport" "\<not> opt_reuseport (m_acceptSocket a)"
  using assms
  by (auto simp: newAcceptor_def res_eq_Inr Let_def setReuseAddr_def newSocket_def)

text \<open>
  Out of descriptors, the waiting connection is accepted with the spare one and closed, so that the
  peer sees an end instead of a hang; every other expected error changes nothing.
\<close>

lemma handleRead_out_of_descriptors:
  "ac_handleRead (Inl EMFILE) r2 idle (ac_tid a) a =
     Inr (a\<lparr>m_idleFd := idle, ac_closed := ac_closed a @ [m_idleFd a, r2]\<rparr>)"
  "e \<in> {EAGAIN, ECONNABORTED, EINTR, EPROTO, EPERM} \<Longrightarrow> ac_handleRead (Inl e) r2 idle (ac_tid a) a = Inr a"
  "e \<notin> {EAGAIN, ECONNABORTED, EINTR, EPROTO, EPERM, EMFILE} \<Longrightarrow> ac_handleRead (Inl e) r2 idle (ac_tid a) a = Inl FatalLog"
  by (auto simp: ac_handleRead_def ac_in_loop_def Socket_accept_def sockets_accept_def errno_defs)

lemma handleRead_accepts:
  "has_newConnectionCallBack a \<Longrightarrow>
     ac_handleRead (Inr (f, p)) r2 idle (ac_tid a) a = Inr (a\<lparr>ac_accepted := ac_accepted a @ [(f, p)]\<rparr>)"
  by (simp add: ac_handleRead_def ac_in_loop_def Socket_accept_def sockets_accept_def)

end
