(* ===== verification/Connections.thy ===== *)
theory Connections
  imports TcpConnection
begin

text \<open>
  What the owners of connections, \<open>TcpServer\<close> and \<open>TcpClient\<close>, rely on: a new connection can be established,
  no operation changes the name or the loop of a connection, and a connection whose close callback has
  run is disconnected and can be destroyed. Owners keep connections in a heap by address.
\<close>

section \<open>New connections\<close>

lemma dec_nat_inj: "dec_nat m = dec_nat n \<longleftrightarrow> m = n"
  by (metis value_of_dec_nat)

lemma newTcpConnection_ok:
  "\<exists>c. newTcpConnection t name f = Inr c \<and> m_state c = kConnecting \<and> m_name c = name \<and> loop_tid c = t"
proof -
  have "runs (\<lambda>b. True) (newBuffer kInitialSize)"
    using runs_mono [OF newBuffer_ok [of kInitialSize]] by (simp add: kInitialSize_def)
  then show ?thesis by (auto simp: newTcpConnection_def runs_iff)
qed

lemma established_name:
  "connectEstablished t c = Inr c' \<Longrightarrow> m_name c' = m_name c"
  by (auto simp: connectEstablished_def in_loop_def assertE_eq_Inr Let_def conn_mask_def emit_def split: if_splits)

text \<open>What a new connection is after \<open>connectEstablished\<close>.\<close>

lemma fresh_connection:
  obtains c where "bindE (newTcpConnection t name f) (\<lambda>conn.
      connectEstablished t (conn\<lparr>has_connectionCallBack := True, has_writeCompleteCallBack := w\<rparr>)) = Inr c"
    "m_name c = name" "conn_inv c" "conn_up c" "loop_tid c = t"
proof -
  obtain c0 where c0: "newTcpConnection t name f = Inr c0" "m_state c0 = kConnecting" "m_name c0 = name" "loop_tid c0 = t"
    using newTcpConnection_ok by blast
  let ?c = "c0\<lparr>has_connectionCallBack := True, has_writeCompleteCallBack := w\<rparr>"
  have "conn_inv ?c" using new_inv [OF c0(1)] by (simp add: conn_inv_def conn_up_def closes_def)
  from runsE [OF connectEstablished_ok [OF this, of t]] c0 obtain c where
    c: "connectEstablished t ?c = Inr c" "conn_inv c" "m_state c = kConnected" "loop_tid c = t" by auto
  moreover from established_name [OF c(1)] have "m_name c = name" using c0(3) by simp
  ultimately show thesis using that [of c] c0(1) by (simp add: conn_up_def)
qed

section \<open>Identity\<close>

text \<open>No operation changes the name or the loop of a connection.\<close>

definition same_conn :: "TcpConnection \<Rightarrow> TcpConnection \<Rightarrow> bool" where
  "same_conn c c' \<longleftrightarrow> m_name c' = m_name c \<and> loop_tid c' = loop_tid c"

definition keeps :: "TcpConnection \<Rightarrow> TcpConnection res \<Rightarrow> bool" where
  "keeps c m \<longleftrightarrow> (\<forall>c'. m = Inr c' \<longrightarrow> same_conn c c')"

lemma keeps_simps [simp]: "keeps c (Inl e)" "keeps c (Inr c') \<longleftrightarrow> same_conn c c'"
  by (simp_all add: keeps_def)

lemma keeps_intros:
  "(\<And>x. m = Inr x \<Longrightarrow> keeps c (f x)) \<Longrightarrow> keeps c (bindE m f)" "keeps c r \<Longrightarrow> keeps c (assertE b r)"
  "keeps c r \<Longrightarrow> keeps c (in_loop t c' r)" "(b \<Longrightarrow> keeps c r) \<Longrightarrow> (\<not> b \<Longrightarrow> keeps c r') \<Longrightarrow> keeps c (if b then r else r')"
  by (auto simp: keeps_def assertE_eq_Inr in_loop_def bindE_eq_Inr split: if_splits)

lemma same_conn_simps [simp]:
  "same_conn c (conn_mask m c') = same_conn c c'" "same_conn c (queue_task k c') = same_conn c c'"
  "same_conn c (emit e c') = same_conn c c'"
  "same_conn c (c'\<lparr>m_state := st\<rparr>) = same_conn c c'" "same_conn c (c'\<lparr>m_outputBuffer := b\<rparr>) = same_conn c c'"
  "same_conn c (c'\<lparr>m_inputBuffer := b\<rparr>) = same_conn c c'" "same_conn c (c'\<lparr>written := w\<rparr>) = same_conn c c'"
  "same_conn c (c'\<lparr>shut_wr := sh\<rparr>) = same_conn c c'" "same_conn c (c'\<lparr>p_channel := ch\<rparr>) = same_conn c c'"
  "same_conn (c\<lparr>tasks := ts\<rparr>) c' = same_conn c c'" "same_conn c c"
  by (auto simp: same_conn_def conn_mask_def queue_task_def emit_def)

lemma note_high_water_same [simp]: "same_conn c (note_high_water n c') = same_conn c c'"
  by (simp add: note_high_water_def Let_def)

lemma same_conn_trans: "same_conn a b \<Longrightarrow> same_conn b c \<Longrightarrow> same_conn a c"
  by (simp add: same_conn_def)

lemma shutdownInLoop_same: "same_conn c c' \<Longrightarrow> keeps c (shutdownInLoop t c')"
  unfolding shutdownInLoop_def by (intro keeps_intros) simp

lemma close_same: "same_conn c c' \<Longrightarrow> keeps c (conn_handleClose t c')"
  unfolding conn_handleClose_def Let_def by (intro keeps_intros) simp

lemma try_write_same: "try_write wr data c = (n, b, c') \<Longrightarrow> same_conn c c'"
  by (auto simp: try_write_def Let_def split: if_splits sum.splits)

lemma buffer_rest_same: "same_conn c c' \<Longrightarrow> keeps c (buffer_rest d c')"
  unfolding buffer_rest_def Let_def by (intro keeps_intros) simp

lemma sendInLoop_same:
  assumes "same_conn c c'"
  shows "keeps c (sendInLoop wr t data c')"
proof (cases "try_write wr data c'")
  case (fields n b c1)
  have "same_conn c c1" using same_conn_trans [OF assms try_write_same [OF fields]] .
  then show ?thesis
    unfolding sendInLoop_def Let_def fields prod.case
    by (intro keeps_intros buffer_rest_same) (simp_all add: assms)
qed

lemma handleWrite_same: "keeps c (conn_handleWrite wr t c)"
  unfolding conn_handleWrite_def Let_def
  by (intro keeps_intros) (auto split: sum.split intro!: keeps_intros shutdownInLoop_same)

lemma handleRead_same: "keeps c (conn_handleRead readv t c)"
  unfolding conn_handleRead_def Let_def conn_handleError_def
  by (intro keeps_intros) (auto split: prod.split intro!: keeps_intros close_same)

lemma run_task_same: "same_conn c c' \<Longrightarrow> keeps c (run_task wr t k c')"
  unfolding run_task_def forceCloseInLoop_def
  by (cases k) (auto intro!: keeps_intros sendInLoop_same shutdownInLoop_same close_same)

lemma step_same: "conn_step c c' \<Longrightarrow> same_conn c c'"
proof (induction rule: conn_step.induct)
  case (established c c')
  have "keeps c (connectEstablished (loop_tid c) c)"
    unfolding connectEstablished_def Let_def by (intro keeps_intros) simp
  then show ?case using established by (simp add: keeps_def)
next
  case (send wr data c t c')
  have "keeps c (TcpConnection_send wr t data c)"
    unfolding TcpConnection_send_def by (auto intro!: keeps_intros sendInLoop_same)
  then show ?case using send by (simp add: keeps_def)
next
  case (shut t c c')
  have "keeps c (shutdown t c)"
    unfolding shutdown_def Let_def by (auto intro!: keeps_intros shutdownInLoop_same)
  then show ?case using shut by (simp add: keeps_def)
next
  case (task c k ks wr c')
  then show ?case using run_task_same [of c "c\<lparr>tasks := ks\<rparr>" wr] by (auto simp: keeps_def same_conn_def)
next
  case (destroyed c c')
  have "keeps c (connectDestroyed (loop_tid c) c)"
    unfolding connectDestroyed_def Let_def by (intro keeps_intros) simp
  then show ?case using destroyed by (simp add: keeps_def)
next
  case (hang_up c c')
  then show ?case using close_same [of c c] by (simp add: keeps_def)
next
  case (callbacks c n)
  show ?case
    by (simp add: setConnectionCallBack_def setWriteCompleteCallback_def setHighWaterMarkCallback_def same_conn_def)
qed (auto simp: conn_handleError_def forceClose_def dest!: handleRead_same [unfolded keeps_def, rule_format]
  handleWrite_same [unfolded keeps_def, rule_format])

section \<open>Closed connections\<close>

lemma closed_state: "conn_inv c \<Longrightarrow> closes d < closes c \<Longrightarrow> m_state c = kDisConnected"
  by (auto simp: conn_inv_def split: if_splits)

lemma destroyed_disconnected:
  assumes "conn_inv c" and "m_state c = kDisConnected"
  shows "\<exists>c'. connectDestroyed (loop_tid c) c = Inr c' \<and> destroyTcpConnection c' = Inr ()"
proof -
  have "m_events (p_channel c) = ev_mask False False" using assms by (simp add: conn_inv_def conn_up_def)
  then show ?thesis
    using assms(2) by (simp add: connectDestroyed_def in_loop_def isNoneEvent_def destroyTcpConnection_def ev_mask_def
        kNoneEvent_def)
qed

lemma shutdown_up: "conn_up c \<Longrightarrow> shutdown t c = Inr c' \<Longrightarrow> conn_up c'"
  by (auto simp: shutdown_def shutdownInLoop_def in_loop_def conn_up_def Let_def split: if_splits)

end
