(* ===== verification/ThreadPool.thy ===== *)
theory ThreadPool
  imports Prelude "HOL-Library.Multiset"
begin

text \<open>
  \<open>base/Thread.h\<close>, \<open>base/Thread.cpp\<close>, \<open>base/ThreadPool.h\<close> and \<open>base/ThreadPool.cpp\<close>: threads with the
  assertions on their life, and the pool with its bounded queue. Each critical section is one step. A
  call that waits on a condition variable is one that cannot return yet (\<open>None\<close>); as the waits are loops
  that test their condition again, it returns in a state where the condition holds. \<open>accepted\<close>, \<open>taken\<close>
  and \<open>finished\<close> are histories.
\<close>

section \<open>Threads\<close>

record Thread =
  m_isStarted :: bool
  m_isJoined :: bool

definition newThread :: Thread where
  "newThread = \<lparr>m_isStarted = False, m_isJoined = False\<rparr>"

text \<open>\<open>start\<close>; the pointer to the \<open>std::thread\<close> is set exactly when the thread was started.\<close>

definition Thread_start :: "Thread \<Rightarrow> Thread res" where
  "Thread_start t = assertE (\<not> m_isStarted t) (Inr (t\<lparr>m_isStarted := True\<rparr>))"

definition Thread_join :: "Thread \<Rightarrow> Thread res" where
  "Thread_join t = assertE (m_isStarted t) (assertE (\<not> m_isJoined t) (Inr (t\<lparr>m_isJoined := True\<rparr>)))"

definition Thread_detach :: "Thread \<Rightarrow> Thread res" where
  "Thread_detach t = assertE (m_isStarted t) (assertE (\<not> m_isJoined t) (Inr t))"

section \<open>The pool\<close>

datatype 't worker_pc = Init | AtTest | AtTake | Executing 't | Exited

record 't ThreadPool =
  tp_threads :: "Thread list"
  tp_queue :: "'t list"
  tp_maxQueueSize :: nat
  tp_running :: bool
  tp_init :: "'t option"
  workers :: "'t worker_pc list"
  accepted :: "'t list"
  taken :: "'t list"
  finished :: "'t list"

definition newThreadPool :: "'t ThreadPool" where
  "newThreadPool = \<lparr>tp_threads = [], tp_queue = [], tp_maxQueueSize = 0, tp_running = False, tp_init = None,
     workers = [], accepted = [], taken = [], finished = []\<rparr>"

text \<open>\<open>setMaxQueueSize\<close> converts its \<open>int\<close> to \<open>size_t\<close>.\<close>

definition setMaxQueueSize :: "int \<Rightarrow> 't ThreadPool \<Rightarrow> 't ThreadPool" where
  "setMaxQueueSize maxSize p = p\<lparr>tp_maxQueueSize := size_of_int maxSize\<rparr>"

definition setThreadInitCallback :: "'t \<Rightarrow> 't ThreadPool \<Rightarrow> 't ThreadPool" where
  "setThreadInitCallback cb p = p\<lparr>tp_init := Some cb\<rparr>"

definition isFull :: "'t ThreadPool \<Rightarrow> bool" where
  "isFull p \<longleftrightarrow> tp_maxQueueSize p > 0 \<and> length (tp_queue p) \<ge> tp_maxQueueSize p"

definition queueSize :: "'t ThreadPool \<Rightarrow> nat" where
  "queueSize p = length (tp_queue p)"

definition add_thread :: "nat \<Rightarrow> 't ThreadPool \<Rightarrow> 't ThreadPool res" where
  "add_thread i p =
     bindE (Thread_start newThread) (\<lambda>t.
     Inr (p\<lparr>tp_threads := tp_threads p @ [t], workers := workers p @ [Init]\<rparr>))"

text \<open>\<open>start\<close>; \<open>reserve\<close> refuses a negative count, and with no threads the init callback, if there is one, runs on the caller's thread.\<close>

definition ThreadPool_start :: "int \<Rightarrow> 't ThreadPool \<Rightarrow> 't ThreadPool res" where
  "ThreadPool_start numThreads p =
     assertE (tp_threads p = [])
       (if numThreads < 0 then Inl LengthError else
        bindE (foldE add_thread [0..<nat numThreads] (p\<lparr>tp_running := True\<rparr>)) (\<lambda>p1.
        Inr (case tp_init p1 of
               Some cb \<Rightarrow> if numThreads = 0 then p1\<lparr>finished := finished p1 @ [cb]\<rparr> else p1
             | None \<Rightarrow> p1)))"

fun join_all :: "Thread list \<Rightarrow> Thread list res" where
  "join_all [] = Inr []"
| "join_all (t # ts) = bindE (Thread_join t) (\<lambda>t'. bindE (join_all ts) (\<lambda>ts'. Inr (t' # ts')))"

text \<open>\<open>stop\<close>: the critical section, and the joins, which return when all workers have left.\<close>

definition request_stop :: "'t ThreadPool \<Rightarrow> 't ThreadPool" where
  "request_stop p = p\<lparr>tp_running := False\<rparr>"

definition ThreadPool_stop :: "'t ThreadPool \<Rightarrow> 't ThreadPool option res" where
  "ThreadPool_stop p =
     (let p1 = request_stop p in
      bindE (join_all (tp_threads p1)) (\<lambda>ts.
      Inr (if \<forall>w \<in> set (workers p1). w = Exited then Some (p1\<lparr>tp_threads := ts\<rparr>) else None)))"

definition destroyThreadPool :: "'t ThreadPool \<Rightarrow> 't ThreadPool option res" where
  "destroyThreadPool p = (if tp_running p then ThreadPool_stop p else Inr (Some p))"

text \<open>\<open>run\<close>.\<close>

definition ThreadPool_run :: "'t \<Rightarrow> 't ThreadPool \<Rightarrow> 't ThreadPool option res" where
  "ThreadPool_run task p =
     (if tp_threads p = [] then Inr (Some (p\<lparr>finished := finished p @ [task]\<rparr>))
      else if isFull p \<and> tp_running p then Inr None
      else if \<not> tp_running p then Inr (Some p)
      else assertE (\<not> isFull p)
        (Inr (Some (p\<lparr>tp_queue := tp_queue p @ [task], accepted := accepted p @ [task]\<rparr>))))"

text \<open>\<open>take\<close>: \<open>Some None\<close> is the empty \<open>std::function\<close> a stopped pool returns.\<close>

definition ThreadPool_take :: "'t ThreadPool \<Rightarrow> ('t option \<times> 't ThreadPool) option" where
  "ThreadPool_take p =
     (case tp_queue p of
        [] \<Rightarrow> if tp_running p then None else Some (None, p)
      | task # rest \<Rightarrow> Some (Some task, p\<lparr>tp_queue := rest, taken := taken p @ [task]\<rparr>))"

text \<open>\<open>runInThread\<close>: one step of worker \<open>i\<close>; \<open>None\<close> while it waits in \<open>take\<close> or has left.\<close>

definition runInThread :: "nat \<Rightarrow> 't ThreadPool \<Rightarrow> 't ThreadPool option" where
  "runInThread i p =
     (case workers p ! i of
        Init \<Rightarrow> Some (p\<lparr>workers := (workers p)[i := AtTest]\<rparr>)
      | AtTest \<Rightarrow> Some (p\<lparr>workers := (workers p)[i := if tp_running p then AtTake else Exited]\<rparr>)
      | AtTake \<Rightarrow>
          (case ThreadPool_take p of
             None \<Rightarrow> None
           | Some (None, p1) \<Rightarrow> Some (p1\<lparr>workers := (workers p1)[i := AtTest]\<rparr>)
           | Some (Some task, p1) \<Rightarrow> Some (p1\<lparr>workers := (workers p1)[i := Executing task]\<rparr>))
      | Executing task \<Rightarrow> Some (p\<lparr>workers := (workers p)[i := AtTest], finished := finished p @ [task]\<rparr>)
      | Exited \<Rightarrow> None)"

section \<open>Reachable states\<close>

text \<open>A pool with threads: clients submit, workers step, someone stops it.\<close>

inductive pool_reach :: "'t ThreadPool \<Rightarrow> bool" where
  started: "\<lbrakk>0 < n; ThreadPool_start n (setMaxQueueSize m newThreadPool) = Inr p\<rbrakk> \<Longrightarrow> pool_reach p"
| submit: "\<lbrakk>pool_reach p; ThreadPool_run task p = Inr (Some p')\<rbrakk> \<Longrightarrow> pool_reach p'"
| work: "\<lbrakk>pool_reach p; i < length (workers p); runInThread i p = Some p'\<rbrakk> \<Longrightarrow> pool_reach p'"
| stop: "pool_reach p \<Longrightarrow> pool_reach (request_stop p)"

fun in_hand :: "'t worker_pc list \<Rightarrow> 't multiset" where
  "in_hand [] = {#}"
| "in_hand (Executing t # ws) = add_mset t (in_hand ws)"
| "in_hand (_ # ws) = in_hand ws"

definition pool_inv :: "'t ThreadPool \<Rightarrow> bool" where
  "pool_inv p \<longleftrightarrow> tp_threads p \<noteq> [] \<and> length (workers p) = length (tp_threads p) \<and>
     accepted p = taken p @ tp_queue p \<and>
     (tp_maxQueueSize p > 0 \<longrightarrow> length (tp_queue p) \<le> tp_maxQueueSize p) \<and>
     mset (taken p) = mset (finished p) + in_hand (workers p)"

definition pc_task :: "'t worker_pc \<Rightarrow> 't multiset" where
  "pc_task w = (case w of Executing t \<Rightarrow> {#t#} | _ \<Rightarrow> {#})"

lemma in_hand_sum: "in_hand ws = sum_list (map pc_task ws)"
  by (induction ws rule: in_hand.induct) (simp_all add: pc_task_def)

lemma in_hand_update:
  "i < length ws \<Longrightarrow> in_hand (ws[i := w]) + pc_task (ws ! i) = in_hand ws + pc_task w"
proof (induction ws arbitrary: i)
  case (Cons v ws)
  then show ?case by (cases i) (simp_all add: in_hand_sum add.assoc add.commute add.left_commute)
qed simp

lemma add_threads:
  "foldE add_thread xs p = Inr (p\<lparr>tp_threads := tp_threads p @ replicate (length xs) \<lparr>m_isStarted = True, m_isJoined = False\<rparr>,
     workers := workers p @ replicate (length xs) Init\<rparr>)"
  by (induction xs arbitrary: p)
    (simp_all add: add_thread_def Thread_start_def newThread_def)

lemma in_hand_fresh: "in_hand (replicate n Init) = {#}"
  by (induction n) simp_all

lemma pool_start_inv:
  assumes "0 < n" and "ThreadPool_start n (setMaxQueueSize m newThreadPool) = Inr p"
  shows "pool_inv p"
  using assms
  by (auto simp: ThreadPool_start_def add_threads setMaxQueueSize_def newThreadPool_def pool_inv_def in_hand_fresh)

lemma submit_inv: "pool_inv p \<Longrightarrow> ThreadPool_run task p = Inr (Some p') \<Longrightarrow> pool_inv p'"
  by (auto simp: ThreadPool_run_def pool_inv_def isFull_def split: if_splits)

lemma work_inv:
  assumes "pool_inv p" and "i < length (workers p)" and "runInThread i p = Some p'"
  shows "pool_inv p'"
proof -
  note upd = in_hand_update [OF assms(2)]
  show ?thesis
  proof (cases "workers p ! i")
    case AtTake
    show ?thesis
    proof (cases "tp_queue p")
      case Nil
      then show ?thesis
        using assms upd [of AtTest] AtTake
        by (auto simp: runInThread_def ThreadPool_take_def pool_inv_def pc_task_def split: if_splits)
    next
      case (Cons t rest)
      then show ?thesis
        using assms upd [of "Executing t"] AtTake
        by (auto simp: runInThread_def ThreadPool_take_def pool_inv_def pc_task_def)
    qed
  qed (use assms upd [of AtTest] upd [of AtTake] upd [of Exited] in
      \<open>auto simp: runInThread_def pool_inv_def pc_task_def\<close>)
qed

lemma pool_stop_inv: "pool_inv p \<Longrightarrow> pool_inv (request_stop p)"
  by (simp add: request_stop_def pool_inv_def)

lemma pool_reach_inv: "pool_reach p \<Longrightarrow> pool_inv p"
  by (induction rule: pool_reach.induct) (auto intro: pool_start_inv submit_inv work_inv pool_stop_inv)

section \<open>Properties\<close>

text \<open>
  C9: the pool is a bounded first-in first-out queue. In every state reachable by submissions, steps
  of the workers and \<open>stop\<close>, in any interleaving, the workers have taken the accepted tasks in the
  order of submission, what they have not taken is in the queue, every task taken was finished or
  is in the hands of exactly one worker, and a queue with a bound never exceeds it; a submission to a
  running pool waits exactly if the queue is full, and its assertion never fails.
\<close>

theorem pool_bounded_fifo:
  assumes "pool_reach p"
  shows "accepted p = taken p @ tp_queue p \<and> mset (taken p) = mset (finished p) + in_hand (workers p) \<and>
    (tp_maxQueueSize p > 0 \<longrightarrow> queueSize p \<le> tp_maxQueueSize p) \<and>
    (tp_running p \<longrightarrow> (ThreadPool_run task p = Inr None \<longleftrightarrow> isFull p)) \<and>
    (\<exists>r. ThreadPool_run task p = Inr r)"
  using pool_reach_inv [OF assms] by (auto simp: pool_inv_def queueSize_def ThreadPool_run_def)

theorem pool_bounded_fifo_witness:
  "\<exists>p :: nat ThreadPool. pool_reach p \<and> accepted p = [7] \<and> accepted p = taken p @ tp_queue p \<and>
     queueSize p \<le> 1 \<and> ThreadPool_run 8 p = Inr None"
proof -
  let ?t = "\<lparr>m_isStarted = True, m_isJoined = False\<rparr>"
  let ?p0 = "\<lparr>tp_threads = [?t], tp_queue = [], tp_maxQueueSize = 1, tp_running = True, tp_init = None,
    workers = [Init], accepted = [], taken = [], finished = []\<rparr> :: nat ThreadPool"
  let ?p1 = "?p0\<lparr>tp_queue := [7], accepted := [7]\<rparr>"
  have "ThreadPool_start 1 (setMaxQueueSize 1 newThreadPool) = Inr ?p0"
    by (simp add: ThreadPool_start_def setMaxQueueSize_def newThreadPool_def add_thread_def Thread_start_def
        newThread_def size_of_int_def)
  then have "pool_reach ?p0" by (rule started [rotated]) simp
  moreover have "ThreadPool_run 7 ?p0 = Inr (Some ?p1)" by (simp add: ThreadPool_run_def isFull_def)
  ultimately have r: "pool_reach ?p1" by (rule submit)
  have "isFull ?p1" by (simp add: isFull_def)
  then show ?thesis using r pool_bounded_fifo [OF r, of 8] by (intro exI [of _ ?p1]) simp
qed

end
