(* ===== verification/EventLoopPool.thy ===== *)
theory EventLoopPool
  imports ThreadPool
begin

text \<open>
  \<open>net/EventLoopThread.h\<close>, \<open>net/EventLoopThread.cpp\<close>, \<open>net/EventLoopThreadPool.h\<close> and
  \<open>net/EventLoopThreadPool.cpp\<close>: a thread that runs an event loop, and the pool that hands out its
  loops in turn. A loop is a value of type \<open>'l\<close>, its address. The handshake between \<open>startLoop\<close> and the
  new thread is split into its critical sections.
\<close>

section \<open>A thread with a loop\<close>

text \<open>Where the new thread is: its loop not yet published, published and running, or left.\<close>

datatype elt_pc = NotRunning | Preparing | Looping | Left

record 'l EventLoopThread =
  p_loop :: "'l option"
  et_exiting :: bool
  et_thread :: Thread
  et_pc :: elt_pc
  et_quit :: bool

definition newEventLoopThread :: "'l EventLoopThread" where
  "newEventLoopThread = \<lparr>p_loop = None, et_exiting = False, et_thread = newThread, et_pc = NotRunning, et_quit = False\<rparr>"

text \<open>\<open>startLoop\<close> up to its wait.\<close>

definition startLoop_begin :: "'l EventLoopThread \<Rightarrow> 'l EventLoopThread res" where
  "startLoop_begin e =
     assertE (\<not> m_isStarted (et_thread e))
       (bindE (Thread_start (et_thread e)) (\<lambda>t. Inr (e\<lparr>et_thread := t, et_pc := Preparing\<rparr>)))"

text \<open>\<open>threadFunc\<close>: the loop on its stack, at address \<open>l\<close>, is published; later the loop ends.\<close>

definition threadFunc_publish :: "'l \<Rightarrow> 'l EventLoopThread \<Rightarrow> 'l EventLoopThread" where
  "threadFunc_publish l e =
     (if et_pc e = Preparing then e\<lparr>p_loop := Some l, et_pc := Looping\<rparr> else e)"

definition threadFunc_end :: "'l EventLoopThread \<Rightarrow> 'l EventLoopThread" where
  "threadFunc_end e =
     (if et_pc e = Looping \<and> et_quit e then e\<lparr>p_loop := None, et_pc := Left\<rparr> else e)"

text \<open>The wait of \<open>startLoop\<close>: \<open>None\<close> while the pointer is null.\<close>

definition startLoop_wait :: "'l EventLoopThread \<Rightarrow> 'l option" where
  "startLoop_wait e = p_loop e"

definition startLoop :: "'l \<Rightarrow> 'l EventLoopThread \<Rightarrow> ('l option \<times> 'l EventLoopThread) res" where
  "startLoop l e =
     bindE (startLoop_begin e) (\<lambda>e1.
     let e2 = threadFunc_publish l e1 in Inr (startLoop_wait e2, e2))"

definition destroyEventLoopThread :: "'l EventLoopThread \<Rightarrow> 'l EventLoopThread res" where
  "destroyEventLoopThread e =
     (let e1 = e\<lparr>et_exiting := True\<rparr> in
      if p_loop e1 \<noteq> None
      then bindE (Thread_join (et_thread e1)) (\<lambda>t. Inr (threadFunc_end (e1\<lparr>et_thread := t, et_quit := True\<rparr>)))
      else Inr e1)"

section \<open>The pool\<close>

record 'l EventLoopThreadPool =
  p_baseLoop :: 'l
  base_tid :: tid
  m_started :: bool
  m_numThreads :: int
  m_next :: int
  m_eventLoopThreads :: "'l EventLoopThread list"
  m_eventLoops :: "'l list"
  init_calls :: "'l list"

definition newEventLoopThreadPool :: "'l \<Rightarrow> tid \<Rightarrow> 'l EventLoopThreadPool" where
  "newEventLoopThreadPool l t = \<lparr>p_baseLoop = l, base_tid = t, m_started = False, m_numThreads = 0, m_next = 0,
     m_eventLoopThreads = [], m_eventLoops = [], init_calls = []\<rparr>"

definition setThreadNum :: "int \<Rightarrow> 'l EventLoopThreadPool \<Rightarrow> 'l EventLoopThreadPool" where
  "setThreadNum n p = p\<lparr>m_numThreads := n\<rparr>"

definition elp_in_loop :: "tid \<Rightarrow> 'l EventLoopThreadPool \<Rightarrow> 'a res \<Rightarrow> 'a res" where
  "elp_in_loop t p m = (if t = base_tid p then m else Inl FatalLog)"

text \<open>The body of the loop in \<open>start\<close>; \<open>mk i\<close> is the address of the loop of thread \<open>i\<close>.\<close>

definition start_one :: "(nat \<Rightarrow> 'l) \<Rightarrow> bool \<Rightarrow> nat \<Rightarrow> 'l EventLoopThreadPool \<Rightarrow> 'l EventLoopThreadPool res" where
  "start_one mk cb i p =
     bindE (startLoop (mk i) newEventLoopThread) (\<lambda>(l, e).
       case l of
         None \<Rightarrow> Inl Undefined
       | Some a \<Rightarrow> Inr (p\<lparr>m_eventLoopThreads := m_eventLoopThreads p @ [e],
           m_eventLoops := m_eventLoops p @ [a],
           init_calls := init_calls p @ (if cb then [a] else [])\<rparr>))"

definition EventLoopThreadPool_start ::
  "(nat \<Rightarrow> 'l) \<Rightarrow> bool \<Rightarrow> tid \<Rightarrow> 'l EventLoopThreadPool \<Rightarrow> 'l EventLoopThreadPool res" where
  "EventLoopThreadPool_start mk cb t p =
     assertE (\<not> m_started p)
       (elp_in_loop t p
         (bindE (foldE (start_one mk cb) [0..<nat (m_numThreads p)] (p\<lparr>m_started := True\<rparr>)) (\<lambda>p1.
          Inr (if m_numThreads p1 = 0 \<and> cb then p1\<lparr>init_calls := init_calls p1 @ [p_baseLoop p1]\<rparr> else p1))))"

definition getNextLoop :: "tid \<Rightarrow> 'l EventLoopThreadPool \<Rightarrow> ('l \<times> 'l EventLoopThreadPool) res" where
  "getNextLoop t p =
     elp_in_loop t p
       (assertE (m_started p)
         (if m_eventLoops p \<noteq> []
          then if size_of_int (m_next p) < length (m_eventLoops p)
               then let l = m_eventLoops p ! size_of_int (m_next p);
                        n = m_next p + 1;
                        n' = (if size_of_int n \<ge> length (m_eventLoops p) then 0 else n)
                    in Inr (l, p\<lparr>m_next := n'\<rparr>)
               else Inl Undefined
          else Inr (p_baseLoop p, p)))"

definition getLoopForHash :: "tid \<Rightarrow> nat \<Rightarrow> 'l EventLoopThreadPool \<Rightarrow> 'l res" where
  "getLoopForHash t hashCode p =
     elp_in_loop t p
       (Inr (if m_eventLoops p \<noteq> [] then m_eventLoops p ! (hashCode mod length (m_eventLoops p)) else p_baseLoop p))"

definition getAllLoops :: "tid \<Rightarrow> 'l EventLoopThreadPool \<Rightarrow> 'l list res" where
  "getAllLoops t p =
     elp_in_loop t p
       (assertE (m_started p)
         (Inr (if m_eventLoops p = [] then [p_baseLoop p] else m_eventLoops p)))"

text \<open>\<open>k\<close> calls of \<open>getNextLoop\<close>.\<close>

fun next_loops :: "tid \<Rightarrow> nat \<Rightarrow> 'l EventLoopThreadPool \<Rightarrow> 'l list res" where
  "next_loops t 0 p = Inr []"
| "next_loops t (Suc k) p = bindE (getNextLoop t p) (\<lambda>(l, p1). bindE (next_loops t k p1) (\<lambda>ls. Inr (l # ls)))"

section \<open>Starting\<close>

lemma startLoop_fresh:
  "startLoop l newEventLoopThread = Inr (Some l, \<lparr>p_loop = Some l, et_exiting = False,
     et_thread = \<lparr>m_isStarted = True, m_isJoined = False\<rparr>, et_pc = Looping, et_quit = False\<rparr>)"
  by (simp add: startLoop_def startLoop_begin_def threadFunc_publish_def startLoop_wait_def newEventLoopThread_def
      newThread_def Thread_start_def)

lemma start_loops:
  "runs (\<lambda>p'. m_eventLoops p' = m_eventLoops p @ map mk is \<and> m_started p' = m_started p \<and> base_tid p' = base_tid p \<and>
      p_baseLoop p' = p_baseLoop p \<and> m_next p' = m_next p \<and> m_numThreads p' = m_numThreads p \<and>
      init_calls p' = init_calls p @ (if cb then map mk is else [])) (foldE (start_one mk cb) is p)"
proof (induction "is" arbitrary: p)
  case (Cons i "is")
  show ?case
    using Cons.IH [of "p\<lparr>m_eventLoopThreads := m_eventLoopThreads p @ [\<lparr>p_loop = Some (mk i), et_exiting = False,
        et_thread = \<lparr>m_isStarted = True, m_isJoined = False\<rparr>, et_pc = Looping, et_quit = False\<rparr>],
        m_eventLoops := m_eventLoops p @ [mk i], init_calls := init_calls p @ (if cb then [mk i] else [])\<rparr>"]
    by (auto simp: start_one_def startLoop_fresh elim!: runs_mono)
qed simp

lemma pool_started:
  assumes "EventLoopThreadPool_start mk cb t p = Inr p'"
  shows "m_started p'"
proof -
  let ?n = "[0..<nat (m_numThreads p)]"
  from runsE [OF start_loops [of "p\<lparr>m_started := True\<rparr>" mk ?n cb]] obtain p0 where
    "foldE (start_one mk cb) ?n (p\<lparr>m_started := True\<rparr>) = Inr p0" "m_started p0" by auto
  then show ?thesis
    using assms by (auto simp: EventLoopThreadPool_start_def elp_in_loop_def assertE_eq_Inr split: if_splits)
qed

lemma next_loops_cycle:
  assumes "m_started p" and "t = base_tid p" and "m_eventLoops p = ls" and "ls \<noteq> []" and "length ls < 2 ^ 31"
    and "m_next p = int j" and "j < length ls"
  shows "next_loops t k p = Inr (map (\<lambda>i. ls ! ((j + i) mod length ls)) [0..<k])"
  using assms
proof (induction k arbitrary: p j)
  case (Suc k)
  let ?n = "length ls"
  have j: "size_of_int (int j) = j" "size_of_int (int j + 1) = Suc j"
    using Suc.prems(5,7) by (simp_all add: size_of_int_exact nat_add_distrib)
  let ?j = "if Suc j \<ge> ?n then 0 else Suc j"
  have step: "getNextLoop t p = Inr (ls ! j, p\<lparr>m_next := int ?j\<rparr>)"
    using Suc.prems j by (simp add: getNextLoop_def elp_in_loop_def Let_def)
  have "next_loops t k (p\<lparr>m_next := int ?j\<rparr>) = Inr (map (\<lambda>i. ls ! ((?j + i) mod ?n)) [0..<k])"
    using Suc.prems by (intro Suc.IH) auto
  moreover have "(?j + i) mod ?n = (j + Suc i) mod ?n" for i
  proof (cases "Suc j = ?n")
    case True
    then have "j + Suc i = ?n + i" by simp
    then show ?thesis using True by (simp only: mod_add_self1) simp
  next
    case False
    then show ?thesis using Suc.prems(7) by simp
  qed
  ultimately have "next_loops t (Suc k) p = Inr (ls ! j # map (\<lambda>i. ls ! ((j + Suc i) mod ?n)) [0..<k])"
    by (simp add: step)
  moreover have "[0..<Suc k] = 0 # map Suc [0..<k]" by (simp add: upt_conv_Cons map_Suc_upt del: upt_Suc)
  ultimately show ?case using Suc.prems(7) by (simp add: comp_def del: upt_Suc)
qed simp

section \<open>Properties\<close>

text \<open>
  Loops are handed out in turn. A pool started with \<open>n\<close> threads, \<open>n\<close> positive, has their \<open>n\<close> loops, each
  initialised once, and any number of calls of \<open>getNextLoop\<close> goes through them cyclically from the first;
  without threads every call returns the base loop. No assertion fails and no index is out of range.
\<close>

theorem pool_round_robin:
  assumes "0 \<le> n" and "n < 2 ^ 31"
  shows "runs (\<lambda>p. next_loops t k p =
      Inr (map (\<lambda>i. if n = 0 then l else mk (i mod nat n)) [0..<k]) \<and>
      getAllLoops t p = Inr (if n = 0 then [l] else map mk [0..<nat n]) \<and>
      init_calls p = (if \<not> cb then [] else if n = 0 then [l] else map mk [0..<nat n]))
    (EventLoopThreadPool_start mk cb t (setThreadNum n (newEventLoopThreadPool l t)))"
proof -
  let ?p = "setThreadNum n (newEventLoopThreadPool l t)"
  from start_loops [of "?p\<lparr>m_started := True\<rparr>" mk "[0..<nat n]" cb] obtain p where
    p: "foldE (start_one mk cb) [0..<nat n] (?p\<lparr>m_started := True\<rparr>) = Inr p" "m_eventLoops p = map mk [0..<nat n]"
      "m_started p" "base_tid p = t" "p_baseLoop p = l" "m_next p = 0" "m_numThreads p = n"
      "init_calls p = (if cb then map mk [0..<nat n] else [])"
    by (auto simp: runs_iff setThreadNum_def newEventLoopThreadPool_def)
  let ?p1 = "if n = 0 \<and> cb then p\<lparr>init_calls := init_calls p @ [l]\<rparr> else p"
  have start: "EventLoopThreadPool_start mk cb t ?p = Inr ?p1"
    using p by (simp add: EventLoopThreadPool_start_def elp_in_loop_def setThreadNum_def newEventLoopThreadPool_def)
  have "next_loops t k ?p1 = Inr (map (\<lambda>i. if n = 0 then l else mk (i mod nat n)) [0..<k])"
  proof (cases "n = 0")
    case True
    have "next_loops t k q = Inr (replicate k l)"
      if "m_started q" "base_tid q = t" "m_eventLoops q = []" "p_baseLoop q = l" for q
      using that by (induction k) (simp_all add: getNextLoop_def elp_in_loop_def)
    then show ?thesis using True p by (simp add: map_replicate_const)
  next
    case False
    then have "nat n \<noteq> 0" using assms by simp
    then show ?thesis
      using next_loops_cycle [of p t "map mk [0..<nat n]" 0 k] p assms False by (simp add: nat_less_iff)
  qed
  then show ?thesis
    using p assms by (simp add: start getAllLoops_def elp_in_loop_def)
qed

theorem pool_round_robin_witness:
  "runs (\<lambda>p. next_loops 1 5 p = Inr [10, 11, 12, 10, 11 :: nat])
    (EventLoopThreadPool_start (\<lambda>i. 10 + i) False 1 (setThreadNum 3 (newEventLoopThreadPool 9 1)))"
proof -
  have "map (\<lambda>i. if (3 :: int) = 0 then 9 else 10 + i mod nat 3) [0..<5] = [10, 11, 12, 10, 11 :: nat]" by code_simp
  then show ?thesis
    using pool_round_robin [of 3 1 5 9 "\<lambda>i. 10 + i" False] by (auto elim!: runs_mono)
qed

end
