(* ===== verification/TcpServer.thy ===== *)
theory TcpServer
  imports Acceptor Connections EventLoopPool "HOL-Library.AList"
begin

text \<open>
  \<open>rpc/TcpServer.h\<close> and \<open>rpc/TcpServer.cpp\<close>: the server accepts connections, keeps them in a map by name
  and drops them when they are closed. Connections live in a heap, \<open>sv_heap\<close>, at addresses that the
  map and the functors queued on the loop share; an object is gone once its \<open>connectDestroyed\<close> has run. All
  connections run on the loop of the acceptor, as in the code.
\<close>

section \<open>Operations\<close>

record TcpServer =
  sv_tid :: tid
  sv_ipPort :: string
  sv_name :: string
  sv_acceptor :: Acceptor
  sv_threadPool :: "nat EventLoopThreadPool"
  sv_hasWriteComplete :: bool
  sv_nextConnId :: int
  sv_connections :: "(string \<times> addr) list"
  sv_heap :: "addr \<rightharpoonup> TcpConnection"
  sv_nextAddr :: addr
  sv_destroy :: "addr list"

definition newTcpServer ::
  "tid \<Rightarrow> fd sys \<Rightarrow> fd \<Rightarrow> (sockaddr \<Rightarrow> nat \<Rightarrow> unit sys) \<Rightarrow> host_order \<Rightarrow> (byte list \<Rightarrow> string) \<Rightarrow>
   sockaddr \<Rightarrow> string \<Rightarrow> bool \<Rightarrow> TcpServer res" where
  "newTcpServer t socket idle bind h ntop6 listenAddr nameArg kReusePort =
     bindE (InetAddress_toIpPort h ntop6 listenAddr) (\<lambda>ipPort.
     bindE (newAcceptor t socket idle bind listenAddr kReusePort) (\<lambda>acceptor.
     Inr \<lparr>sv_tid = t, sv_ipPort = ipPort, sv_name = nameArg, sv_acceptor = setNewConnectionCallBack acceptor,
       sv_threadPool = newEventLoopThreadPool 0 t, sv_hasWriteComplete = False, sv_nextConnId = 1,
       sv_connections = [], sv_heap = Map.empty, sv_nextAddr = 0, sv_destroy = []\<rparr>))"

definition TcpServer_setThreadNum :: "int \<Rightarrow> TcpServer \<Rightarrow> TcpServer res" where
  "TcpServer_setThreadNum n s =
     assertE (0 \<le> n) (Inr (s\<lparr>sv_threadPool := setThreadNum n (sv_threadPool s)\<rparr>))"

definition TcpServer_start :: "(nat \<Rightarrow> nat) \<Rightarrow> bool \<Rightarrow> unit sys \<Rightarrow> tid \<Rightarrow> TcpServer \<Rightarrow> TcpServer res" where
  "TcpServer_start mk cb lr t s =
     bindE (EventLoopThreadPool_start mk cb t (sv_threadPool s)) (\<lambda>p.
     assertE (\<not> m_listenning (sv_acceptor s))
       (bindE (Acceptor_listen lr t (sv_acceptor s)) (\<lambda>a.
        Inr (s\<lparr>sv_acceptor := a, sv_threadPool := p\<rparr>))))"

definition sv_in_loop :: "tid \<Rightarrow> TcpServer \<Rightarrow> 'a res \<Rightarrow> 'a res" where
  "sv_in_loop t s m = (if t = sv_tid s then m else Inl FatalLog)"

definition connName :: "TcpServer \<Rightarrow> string" where
  "connName s = sv_name s @ take 63 (''-'' @ sv_ipPort s @ ''#'' @ dec_int (sv_nextConnId s))"

definition sv_newConnection :: "tid \<Rightarrow> fd \<Rightarrow> TcpServer \<Rightarrow> TcpServer res" where
  "sv_newConnection t sockfd s =
     sv_in_loop t s
       (if sv_nextConnId s = 2 ^ 31 - 1 then Inl Undefined else
        let name = connName s; s1 = s\<lparr>sv_nextConnId := sv_nextConnId s + 1\<rparr>; a = sv_nextAddr s1 in
        bindE (newTcpConnection (sv_tid s1) name sockfd) (\<lambda>conn.
        let conn1 = conn\<lparr>has_connectionCallBack := True, has_writeCompleteCallBack := sv_hasWriteComplete s1\<rparr>;
            s2 = s1\<lparr>sv_nextAddr := Suc a, sv_connections := AList.update name a (sv_connections s1)\<rparr> in
        bindE (connectEstablished t conn1) (\<lambda>conn2. Inr (s2\<lparr>sv_heap := (sv_heap s2)(a \<mapsto> conn2)\<rparr>))))"

definition removeConnectionInLoop :: "tid \<Rightarrow> addr \<Rightarrow> TcpServer \<Rightarrow> TcpServer res" where
  "removeConnectionInLoop t a s =
     sv_in_loop t s
       (case sv_heap s a of
          None \<Rightarrow> Inl Undefined
        | Some conn \<Rightarrow>
            let n = (if map_of (sv_connections s) (m_name conn) = None then 0 else 1 :: nat) in
            assertE (n = 1)
              (Inr (s\<lparr>sv_connections := AList.delete (m_name conn) (sv_connections s),
                sv_destroy := sv_destroy s @ [a]\<rparr>)))"

text \<open>
  An operation \<open>f\<close> of the connection at \<open>a\<close>. The close callback of a connection is \<open>removeConnection\<close>, which
  runs \<open>removeConnectionInLoop\<close> at once on the loop's thread.
\<close>

definition sv_event :: "tid \<Rightarrow> addr \<Rightarrow> (TcpConnection \<Rightarrow> TcpConnection res) \<Rightarrow> TcpServer \<Rightarrow> TcpServer res" where
  "sv_event t a f s =
     (case sv_heap s a of
        None \<Rightarrow> Inl Undefined
      | Some conn \<Rightarrow>
          bindE (f conn) (\<lambda>conn'.
          let s1 = s\<lparr>sv_heap := (sv_heap s)(a \<mapsto> conn')\<rparr> in
          if closes conn < closes conn' then removeConnectionInLoop t a s1 else Inr s1))"

text \<open>The loop runs the first queued \<open>connectDestroyed\<close>, which held the last pointer to the connection.\<close>

definition sv_run_destroy :: "tid \<Rightarrow> TcpServer \<Rightarrow> TcpServer res" where
  "sv_run_destroy t s =
     (case sv_destroy s of
        [] \<Rightarrow> Inr s
      | a # as \<Rightarrow>
          (case sv_heap s a of
             None \<Rightarrow> Inl Undefined
           | Some conn \<Rightarrow>
               bindE (connectDestroyed t conn) (\<lambda>conn'.
               bindE (destroyTcpConnection conn') (\<lambda>_.
               Inr (s\<lparr>sv_heap := (sv_heap s)(a := None), sv_destroy := as\<rparr>)))))"

text \<open>The destructor runs \<open>connectDestroyed\<close> of every connection in the map and gives its pointer up.\<close>

definition destroy_item :: "tid \<Rightarrow> string \<times> addr \<Rightarrow> TcpServer \<Rightarrow> TcpServer res" where
  "destroy_item t x s =
     (case sv_heap s (snd x) of
        None \<Rightarrow> Inl Undefined
      | Some conn \<Rightarrow>
          bindE (connectDestroyed t conn) (\<lambda>conn'.
          bindE (destroyTcpConnection conn') (\<lambda>_. Inr (s\<lparr>sv_heap := (sv_heap s)(snd x := None)\<rparr>))))"

definition destroyTcpServer :: "tid \<Rightarrow> TcpServer \<Rightarrow> TcpServer res" where
  "destroyTcpServer t s = sv_in_loop t s (foldE (destroy_item t) (sv_connections s) s)"

section \<open>Invariant\<close>

text \<open>
  The map and the heap agree: an entry leads to a live connection of that name, which is up; a
  connection that waits for its destruction is disconnected and not in the map; nothing else lives.
\<close>

definition sv_name_of :: "TcpServer \<Rightarrow> int \<Rightarrow> string" where
  "sv_name_of s i = sv_name s @ take 63 (''-'' @ sv_ipPort s @ ''#'' @ dec_int i)"

definition sv_listed :: "TcpServer \<Rightarrow> string \<Rightarrow> addr \<Rightarrow> bool" where
  "sv_listed s n a \<longleftrightarrow> a < sv_nextAddr s \<and> a \<notin> set (sv_destroy s) \<and>
     (\<exists>i. 1 \<le> i \<and> i < sv_nextConnId s \<and> n = sv_name_of s i) \<and>
     (\<exists>c. sv_heap s a = Some c \<and> m_name c = n \<and> conn_inv c \<and> conn_up c \<and> loop_tid c = sv_tid s)"

definition sv_dying :: "TcpServer \<Rightarrow> addr \<Rightarrow> bool" where
  "sv_dying s a \<longleftrightarrow> a < sv_nextAddr s \<and>
     (\<exists>c. sv_heap s a = Some c \<and> conn_inv c \<and> m_state c = kDisConnected \<and> loop_tid c = sv_tid s)"

definition sv_inv :: "TcpServer \<Rightarrow> bool" where
  "sv_inv s \<longleftrightarrow> length (sv_ipPort s) \<le> 51 \<and> 1 \<le> sv_nextConnId s \<and> sv_nextConnId s < 2 ^ 31 \<and>
     distinct (map fst (sv_connections s)) \<and> distinct (map snd (sv_connections s)) \<and> distinct (sv_destroy s) \<and>
     (\<forall>(n, a) \<in> set (sv_connections s). sv_listed s n a) \<and> (\<forall>a \<in> set (sv_destroy s). sv_dying s a) \<and>
     (\<forall>a. sv_heap s a \<noteq> None \<longrightarrow> a \<in> snd ` set (sv_connections s) \<or> a \<in> set (sv_destroy s))"

lemma sv_invD:
  assumes "sv_inv s"
  shows "(n, a) \<in> set (sv_connections s) \<Longrightarrow> sv_listed s n a" "a \<in> set (sv_destroy s) \<Longrightarrow> sv_dying s a"
    "sv_heap s a = Some c \<Longrightarrow> a \<in> snd ` set (sv_connections s) \<or> a \<in> set (sv_destroy s)"
    "length (sv_ipPort s) \<le> 51" "1 \<le> sv_nextConnId s" "sv_nextConnId s < 2 ^ 31"
    "distinct (map fst (sv_connections s))" "distinct (map snd (sv_connections s))" "distinct (sv_destroy s)"
  using assms by (auto simp: sv_inv_def)

lemma sv_name_inj:
  assumes "length (sv_ipPort s) \<le> 51" and "1 \<le> i" "i < 2 ^ 31" "1 \<le> j" "j < 2 ^ 31"
    and "sv_name_of s i = sv_name_of s j"
  shows "i = j"
proof -
  have l: "length (dec_int k) \<le> 10" if "1 \<le> k" "k < 2 ^ 31" for k
    using length_dec_nat [of "nat k" 9] that by (simp add: dec_int_def nat_less_iff)
  have "take 63 (''-'' @ sv_ipPort s @ ''#'' @ dec_int k) = ''-'' @ sv_ipPort s @ ''#'' @ dec_int k"
    if "1 \<le> k" "k < 2 ^ 31" for k
    using l [OF that] assms(1) by (intro take_all) simp
  with assms have "dec_int i = dec_int j" by (simp add: sv_name_of_def)
  then show ?thesis using assms(2,4) by (simp add: dec_int_def dec_nat_inj)
qed

lemma map_of_fresh: "k \<notin> fst ` set xs \<Longrightarrow> AList.update k v xs = xs @ [(k, v)]"
  by (induction xs) auto

section \<open>Preservation\<close>

lemma sv_accept_ok:
  fixes sockfd :: fd
  assumes "sv_inv s" and "sv_nextConnId s < 2 ^ 31 - 1"
  shows "runs (\<lambda>s'. sv_inv s' \<and> sv_tid s' = sv_tid s \<and> length (sv_connections s') = Suc (length (sv_connections s)) \<and>
      sv_nextConnId s' = sv_nextConnId s + 1 \<and> sv_destroy s' = sv_destroy s) (sv_newConnection (sv_tid s) sockfd s)"
proof -
  let ?n = "connName s" and ?a = "sv_nextAddr s"
  obtain c where c: "bindE (newTcpConnection (sv_tid s) ?n sockfd) (\<lambda>conn.
      connectEstablished (sv_tid s) (conn\<lparr>has_connectionCallBack := True,
        has_writeCompleteCallBack := sv_hasWriteComplete s\<rparr>)) = Inr c"
    "m_name c = ?n" "conn_inv c" "conn_up c" "loop_tid c = sv_tid s"
    by (rule fresh_connection)
  note inv = sv_invD [OF assms(1)]
  have name: "?n = sv_name_of s (sv_nextConnId s)" by (simp add: connName_def sv_name_of_def)
  have fresh: "?n \<notin> fst ` set (sv_connections s)"
  proof
    assume "?n \<in> fst ` set (sv_connections s)"
    then obtain a where "(?n, a) \<in> set (sv_connections s)" by auto
    with inv(1) have "sv_listed s ?n a" by blast
    then obtain i where "1 \<le> i" "i < sv_nextConnId s" "?n = sv_name_of s i" unfolding sv_listed_def by blast
    with sv_name_inj [OF inv(4,5,6), of i] inv(6) name show False by simp
  qed
  define s' where "s' = s\<lparr>sv_nextConnId := sv_nextConnId s + 1, sv_nextAddr := Suc ?a,
      sv_connections := sv_connections s @ [(?n, ?a)], sv_heap := (sv_heap s)(?a \<mapsto> c)\<rparr>"
  have "sv_newConnection (sv_tid s) sockfd s = Inr s'"
    using c(1) assms(2) map_of_fresh [OF fresh, of ?a]
    by (auto simp: sv_newConnection_def sv_in_loop_def Let_def bindE_eq_Inr s'_def)
  moreover have "sv_inv s'"
  proof -
    have fs: "sv_tid s' = sv_tid s" "sv_nextConnId s' = sv_nextConnId s + 1" "sv_nextAddr s' = Suc ?a"
      "sv_destroy s' = sv_destroy s" "sv_heap s' = (sv_heap s)(?a \<mapsto> c)" "sv_connections s' = sv_connections s @ [(?n, ?a)]"
      "sv_ipPort s' = sv_ipPort s" "sv_name_of s' = sv_name_of s"
      by (simp_all add: s'_def sv_name_of_def fun_eq_iff)
    have "a < ?a" if "(n, a) \<in> set (sv_connections s)" for n a using inv(1) [OF that] by (simp add: sv_listed_def)
    then have a1: "?a \<notin> snd ` set (sv_connections s)" by fastforce
    have "a < ?a" if "a \<in> set (sv_destroy s)" for a using inv(2) [OF that] by (simp add: sv_dying_def)
    then have a2: "?a \<notin> set (sv_destroy s)" by blast
    have "sv_listed s' n a" if "(n, a) \<in> set (sv_connections s)" for n a
      using inv(1) [OF that] unfolding sv_listed_def fs by force
    moreover have "sv_listed s' ?n ?a"
      unfolding sv_listed_def fs using c(2-5) name inv(5) a2 by (auto intro!: exI [of _ "sv_nextConnId s"])
    moreover have "sv_dying s' a" if "a \<in> set (sv_destroy s)" for a
      using inv(2) [OF that] unfolding sv_dying_def fs by force
    moreover have "a \<in> insert ?a (snd ` set (sv_connections s) \<union> set (sv_destroy s))" if "sv_heap s' a \<noteq> None" for a
      using that inv(3) by (auto simp: fs split: if_splits)
    ultimately show ?thesis
      using inv(4-9) fresh assms(2) a1 unfolding sv_inv_def fs by auto
  qed
  ultimately show ?thesis by (simp add: s'_def)
qed


lemma sv_other:
  assumes "sv_inv s" and "(n, a) \<in> set (sv_connections s)"
  shows "map_of (sv_connections s) n = Some a" "a \<notin> set (sv_destroy s)"
    "(n', a) \<in> set (sv_connections s) \<Longrightarrow> n' = n"
proof -
  note inv = sv_invD [OF assms(1)]
  show "map_of (sv_connections s) n = Some a" using inv(7) assms(2) by simp
  show "a \<notin> set (sv_destroy s)" using inv(1) [OF assms(2)] by (simp add: sv_listed_def)
  show "(n', a) \<in> set (sv_connections s) \<Longrightarrow> n' = n"
    using inv(8) assms(2) by (fastforce simp: distinct_map inj_on_def)
qed

text \<open>An event that leaves the connection up.\<close>

lemma sv_traffic_ok:
  assumes "sv_inv s" and "(n, a) \<in> set (sv_connections s)" and "m_name c = n" "conn_inv c" "conn_up c" "loop_tid c = sv_tid s"
  shows "sv_inv (s\<lparr>sv_heap := (sv_heap s)(a \<mapsto> c)\<rparr>)"
proof -
  define s' where "s' = s\<lparr>sv_heap := (sv_heap s)(a \<mapsto> c)\<rparr>"
  note inv = sv_invD [OF assms(1)] and other = sv_other [OF assms(1,2)]
  have fs: "sv_tid s' = sv_tid s" "sv_nextConnId s' = sv_nextConnId s" "sv_nextAddr s' = sv_nextAddr s"
    "sv_destroy s' = sv_destroy s" "sv_heap s' = (sv_heap s)(a \<mapsto> c)" "sv_connections s' = sv_connections s"
    "sv_ipPort s' = sv_ipPort s" "sv_name_of s' = sv_name_of s"
    by (simp_all add: s'_def sv_name_of_def fun_eq_iff)
  have "sv_listed s' n' a'" if "(n', a') \<in> set (sv_connections s)" for n' a'
    using inv(1) [OF that] assms(3-6) other(3) that unfolding sv_listed_def fs by auto
  moreover have "sv_dying s' a'" if "a' \<in> set (sv_destroy s)" for a'
    using inv(2) [OF that] other(2) that unfolding sv_dying_def fs by auto
  moreover have "a' \<in> snd ` set (sv_connections s) \<union> set (sv_destroy s)" if "sv_heap s' a' \<noteq> None" for a'
    using that inv(3) [of a'] assms(2) by (cases "a' = a") (force simp: fs)+
  ultimately have "sv_inv s'" using inv(4-9) unfolding sv_inv_def fs by auto
  then show ?thesis by (simp add: s'_def)
qed

text \<open>The end of a connection: the assertion of \<open>removeConnectionInLoop\<close> holds.\<close>

lemma sv_remove_ok:
  assumes "sv_inv s" and "(n, a) \<in> set (sv_connections s)" and "m_name c = n" "conn_inv c"
    "m_state c = kDisConnected" "loop_tid c = sv_tid s"
  shows "runs (\<lambda>s'. sv_inv s' \<and> sv_tid s' = sv_tid s \<and> map_of (sv_connections s') n = None \<and> sv_destroy s' = sv_destroy s @ [a] \<and>
      sv_nextConnId s' = sv_nextConnId s)
    (removeConnectionInLoop (sv_tid s) a (s\<lparr>sv_heap := (sv_heap s)(a \<mapsto> c)\<rparr>))"
proof -
  define s' where "s' = s\<lparr>sv_heap := (sv_heap s)(a \<mapsto> c), sv_connections := AList.delete n (sv_connections s),
      sv_destroy := sv_destroy s @ [a]\<rparr>"
  note inv = sv_invD [OF assms(1)] and other = sv_other [OF assms(1,2)]
  have fs: "sv_tid s' = sv_tid s" "sv_nextConnId s' = sv_nextConnId s" "sv_nextAddr s' = sv_nextAddr s"
    "sv_destroy s' = sv_destroy s @ [a]" "sv_heap s' = (sv_heap s)(a \<mapsto> c)"
    "sv_connections s' = AList.delete n (sv_connections s)" "sv_ipPort s' = sv_ipPort s" "sv_name_of s' = sv_name_of s"
    by (simp_all add: s'_def sv_name_of_def fun_eq_iff)
  have rem: "removeConnectionInLoop (sv_tid s) a (s\<lparr>sv_heap := (sv_heap s)(a \<mapsto> c)\<rparr>) = Inr s'"
    using other(1) assms(3) by (simp add: removeConnectionInLoop_def sv_in_loop_def s'_def)
  have del: "AList.delete n (sv_connections s) = filter (\<lambda>(k, _). k \<noteq> n) (sv_connections s)"
    by (auto simp: AList.delete_eq intro: filter_cong)
  have "sv_listed s' n' a'" if "(n', a') \<in> set (sv_connections s)" "n' \<noteq> n" for n' a'
    using inv(1) [OF that(1)] other(3) [of n'] that unfolding sv_listed_def fs by (cases "a' = a") auto
  moreover have "a < sv_nextAddr s" using inv(1) [OF assms(2)] by (simp add: sv_listed_def)
  then have "sv_dying s' a'" if "a' \<in> set (sv_destroy s @ [a])" for a'
    using inv(2) that assms(4-6) unfolding sv_dying_def fs by auto
  moreover have "\<forall>a'. sv_heap s' a' \<noteq> None \<longrightarrow>
      a' \<in> snd ` set (AList.delete n (sv_connections s)) \<or> a' \<in> set (sv_destroy s @ [a])"
  proof (intro allI impI)
    fix a' assume "sv_heap s' a' \<noteq> None"
    then show "a' \<in> snd ` set (AList.delete n (sv_connections s)) \<or> a' \<in> set (sv_destroy s @ [a])"
      using inv(3) [of a'] inv(7) assms(2)
      by (auto simp: fs del image_iff split: if_splits) (metis eq_key_imp_eq_value)
  qed
  ultimately have "sv_inv s'"
    using inv(4-9) other(2) unfolding sv_inv_def fs(4,6,7) fs(2)
    by (intro conjI) (simp_all add: del distinct_map_filter split_def)
  then show ?thesis by (simp add: rem fs AList.delete_conv')
qed

lemma sv_destroy_ok:
  assumes "sv_inv s"
  shows "runs (\<lambda>s'. sv_inv s' \<and> sv_destroy s' = tl (sv_destroy s) \<and> sv_connections s' = sv_connections s \<and>
      sv_tid s' = sv_tid s \<and> sv_nextConnId s' = sv_nextConnId s) (sv_run_destroy (sv_tid s) s)"
proof (cases "sv_destroy s")
  case Nil
  then show ?thesis using assms by (simp add: sv_run_destroy_def)
next
  case (Cons a as)
  note inv = sv_invD [OF assms]
  define s' where "s' = s\<lparr>sv_heap := (sv_heap s)(a := None), sv_destroy := as\<rparr>"
  have fs: "sv_tid s' = sv_tid s" "sv_nextConnId s' = sv_nextConnId s" "sv_nextAddr s' = sv_nextAddr s"
    "sv_destroy s' = as" "sv_heap s' = (sv_heap s)(a := None)" "sv_connections s' = sv_connections s"
    "sv_ipPort s' = sv_ipPort s" "sv_name_of s' = sv_name_of s"
    by (simp_all add: s'_def sv_name_of_def fun_eq_iff)
  from inv(2) [of a] Cons obtain c where c: "sv_heap s a = Some c" "conn_inv c" "m_state c = kDisConnected"
    "loop_tid c = sv_tid s" by (auto simp: sv_dying_def)
  from destroyed_disconnected [OF c(2,3)] c(4) have run: "sv_run_destroy (sv_tid s) s = Inr s'"
    using Cons c(1) by (auto simp: sv_run_destroy_def s'_def)
  have "sv_listed s' n' a'" if "(n', a') \<in> set (sv_connections s)" for n' a'
    using inv(1) [OF that] Cons unfolding sv_listed_def fs by auto
  moreover have "sv_dying s' a'" if "a' \<in> set as" for a'
    using inv(2) [of a'] inv(9) that Cons unfolding sv_dying_def fs by auto
  moreover have "a' \<in> snd ` set (sv_connections s) \<union> set as" if "sv_heap s' a' \<noteq> None" for a'
    using that inv(3) [of a'] Cons by (auto simp: fs split: if_splits)
  ultimately have "sv_inv s'"
    using inv(4-9) Cons unfolding sv_inv_def fs by auto
  then show ?thesis by (simp add: run fs Cons)
qed

section \<open>Reachable states\<close>

inductive sv_reach :: "TcpServer \<Rightarrow> bool" where
  new: "newTcpServer t socket idle bind h ntop6 addr name rp = Inr s \<Longrightarrow> length (sv_ipPort s) \<le> 51 \<Longrightarrow> sv_reach s"
| threads: "sv_reach s \<Longrightarrow> TcpServer_setThreadNum n s = Inr s' \<Longrightarrow> sv_reach s'"
| start: "sv_reach s \<Longrightarrow> TcpServer_start mk cb lr t s = Inr s' \<Longrightarrow> sv_reach s'"
| accept: "sv_reach s \<Longrightarrow> sv_newConnection t sockfd s = Inr s' \<Longrightarrow> sv_reach s'"
| event: "sv_reach s \<Longrightarrow> (n, a) \<in> set (sv_connections s) \<Longrightarrow> (\<And>c c'. f c = Inr c' \<Longrightarrow> conn_step c c') \<Longrightarrow>
    (\<And>c c'. f c = Inr c' \<Longrightarrow> conn_up c \<Longrightarrow> conn_up c' \<or> closes c < closes c') \<Longrightarrow>
    sv_event (sv_tid s) a f s = Inr s' \<Longrightarrow> sv_reach s'"
| destroy: "sv_reach s \<Longrightarrow> sv_run_destroy (sv_tid s) s = Inr s' \<Longrightarrow> sv_reach s'"

lemma sv_inv_frame:
  assumes "sv_inv s"
  shows "sv_inv (s\<lparr>sv_threadPool := p\<rparr>)" "sv_inv (s\<lparr>sv_acceptor := a\<rparr>)"
proof -
  have "sv_name_of (s\<lparr>sv_threadPool := p\<rparr>) = sv_name_of s" "sv_name_of (s\<lparr>sv_acceptor := a\<rparr>) = sv_name_of s"
    by (simp_all add: sv_name_of_def fun_eq_iff)
  then show "sv_inv (s\<lparr>sv_threadPool := p\<rparr>)" "sv_inv (s\<lparr>sv_acceptor := a\<rparr>)"
    using assms by (simp_all add: sv_inv_def sv_listed_def sv_dying_def)
qed

lemma sv_event_inv:
  assumes "sv_inv s" and "(n, a) \<in> set (sv_connections s)" and "\<And>c c'. f c = Inr c' \<Longrightarrow> conn_step c c'"
    and "\<And>c c'. f c = Inr c' \<Longrightarrow> conn_up c \<Longrightarrow> conn_up c' \<or> closes c < closes c'"
    and "sv_event (sv_tid s) a f s = Inr s'"
  shows "sv_inv s'"
proof -
  from sv_invD(1) [OF assms(1,2)] obtain c where c: "sv_heap s a = Some c" "m_name c = n" "conn_inv c" "conn_up c"
    "loop_tid c = sv_tid s" by (auto simp: sv_listed_def)
  with assms(5) obtain c' where f: "f c = Inr c'"
    and r: "(if closes c < closes c' then removeConnectionInLoop (sv_tid s) a (s\<lparr>sv_heap := (sv_heap s)(a \<mapsto> c')\<rparr>)
      else Inr (s\<lparr>sv_heap := (sv_heap s)(a \<mapsto> c')\<rparr>)) = Inr s'"
    by (auto simp: sv_event_def bindE_eq_Inr Let_def)
  have st: "conn_step c c'" using assms(3) [OF f] .
  have i: "conn_inv c'" using step_good [OF st] c(3,4) up_not_connecting by (auto simp: conn_good_def)
  have sm: "m_name c' = n" "loop_tid c' = sv_tid s" using step_same [OF st] c by (simp_all add: same_conn_def)
  show ?thesis
  proof (cases "closes c < closes c'")
    case True
    from runs_eqD [OF sv_remove_ok [OF assms(1,2) sm(1) i closed_state [OF i True] sm(2)]] r True
    show ?thesis by auto
  next
    case False
    then show ?thesis using sv_traffic_ok [OF assms(1,2) sm(1) i _ sm(2)] assms(4) [OF f c(4)] r by auto
  qed
qed

lemma sv_reach_inv: "sv_reach s \<Longrightarrow> sv_inv s"
proof (induction rule: sv_reach.induct)
  case (new t socket idle bind h ntop6 addr name rp s)
  then show ?case by (auto simp: newTcpServer_def res_eq_Inr sv_inv_def)
next
  case (threads s n s')
  then show ?case using sv_inv_frame by (auto simp: TcpServer_setThreadNum_def assertE_eq_Inr)
next
  case (start s mk cb lr t s')
  then obtain p a where "s' = s\<lparr>sv_acceptor := a, sv_threadPool := p\<rparr>" by (auto simp: TcpServer_start_def res_eq_Inr)
  then show ?case using sv_inv_frame start(3) by metis
next
  case (accept s t sockfd s')
  then have "t = sv_tid s" "sv_nextConnId s \<noteq> 2 ^ 31 - 1"
    by (auto simp: sv_newConnection_def sv_in_loop_def split: if_splits)
  moreover from this sv_invD(6) [OF accept(3)] have "sv_nextConnId s < 2 ^ 31 - 1" by simp
  from runs_eqD [OF sv_accept_ok [OF accept(3) this, of sockfd]] accept(2) calculation(1) show ?case by blast
next
  case (event s n a f s')
  then show ?case using sv_event_inv by blast
next
  case (destroy s s')
  then show ?case using runs_eqD [OF sv_destroy_ok] by blast
qed

text \<open>Closing a connection that is in the map.\<close>

lemma sv_close_ok:
  assumes "sv_inv s" and "(n, a) \<in> set (sv_connections s)"
  shows "runs (\<lambda>s'. sv_inv s' \<and> map_of (sv_connections s') n = None \<and> sv_destroy s' = sv_destroy s @ [a] \<and>
      sv_nextConnId s' = sv_nextConnId s) (sv_event (sv_tid s) a (conn_handleClose (sv_tid s)) s)"
proof -
  from sv_invD(1) [OF assms] obtain c where c: "sv_heap s a = Some c" "m_name c = n" "conn_inv c" "conn_up c"
    "loop_tid c = sv_tid s" by (auto simp: sv_listed_def)
  from runsE [OF conn_handleClose_ok [OF c(3,4), of "sv_tid s"]] c(5) obtain c' where
    c': "conn_handleClose (sv_tid s) c = Inr c'" "conn_inv c'" "m_state c' = kDisConnected" "closes c' = Suc (closes c)"
    by auto
  have "m_name c' = n" "loop_tid c' = sv_tid s"
    using close_same [of c c "sv_tid s"] c c'(1) by (simp_all add: keeps_def same_conn_def)
  from runs_mono [OF sv_remove_ok [OF assms this(1) c'(2,3) this(2)]] show ?thesis
    using c(1) c'(1,4) by (simp add: sv_event_def)
qed

text \<open>Running all queued functors frees what waits for its destruction.\<close>

fun sv_run_all :: "tid \<Rightarrow> nat \<Rightarrow> TcpServer \<Rightarrow> TcpServer res" where
  "sv_run_all t 0 s = Inr s"
| "sv_run_all t (Suc k) s = bindE (sv_run_destroy t s) (sv_run_all t k)"

lemma sv_run_all_ok:
  assumes "sv_inv s" and "t = sv_tid s"
  shows "runs (\<lambda>s'. sv_inv s' \<and> sv_destroy s' = drop k (sv_destroy s) \<and> sv_connections s' = sv_connections s)
    (sv_run_all t k s)"
  using assms
proof (induction k arbitrary: s)
  case (Suc k)
  from runsE [OF sv_destroy_ok [OF Suc.prems(1)]] obtain s1 where
    s1: "sv_run_destroy (sv_tid s) s = Inr s1" "sv_inv s1" "sv_destroy s1 = tl (sv_destroy s)"
      "sv_connections s1 = sv_connections s" "sv_tid s1 = sv_tid s" by auto
  show ?case
    using runs_mono [OF Suc.IH [of s1]] s1 Suc.prems(2) by (simp add: drop_Suc)
qed simp

lemma sv_heap_dom: "sv_inv s \<Longrightarrow> dom (sv_heap s) = snd ` set (sv_connections s) \<union> set (sv_destroy s)"
  using sv_invD(1,2,3) [of s] by (fastforce simp: sv_listed_def sv_dying_def)

section \<open>Destruction\<close>

text \<open>
  The destructor of the server is fine with open connections, but not with one that is half closed:
  \<open>connectDestroyed\<close> takes only a connected connection down and asserts that its channel is off.
\<close>

lemma destroyed_half_closed:
  assumes "conn_inv c" and "m_state c = kDisConnecting"
  shows "connectDestroyed (loop_tid c) c = Inl AssertFail"
proof -
  have "m_events (p_channel c) = ev_mask True (content (m_outputBuffer c) \<noteq> [])"
    using assms by (simp add: conn_inv_def conn_up_def)
  then show ?thesis
    using assms(2) by (auto simp: connectDestroyed_def in_loop_def isNoneEvent_def ev_mask_def event_defs)
qed

text \<open>A second call of \<open>start\<close> ends the process in the assertion of the thread pool.\<close>

lemma start_twice:
  assumes "TcpServer_start mk cb lr t s = Inr s'"
  shows "TcpServer_start mk' cb' lr' t' s' = Inl AssertFail"
proof -
  from assms obtain p where p: "EventLoopThreadPool_start mk cb t (sv_threadPool s) = Inr p" "sv_threadPool s' = p"
    by (auto simp: TcpServer_start_def res_eq_Inr)
  from pool_started [OF p(1)] have "m_started p" .
  then show ?thesis using p(2) by (simp add: TcpServer_start_def EventLoopThreadPool_start_def)
qed

text \<open>A server that has accepted two connections, one of which is closed.\<close>

lemma reach_new:
  obtains s where "sv_reach s" "sv_nextConnId s = 1" "sv_connections s = []" "sv_destroy s = []"
proof -
  let ?new = "newTcpServer 1 (Inr 7) 8 (\<lambda>_ _. Inr ()) LittleEndian (\<lambda>_. []) (Sockaddr_in 80 [127, 0, 0, 1]) ''srv'' False"
  obtain ip where "InetAddress_toIpPort LittleEndian (\<lambda>_. []) (Sockaddr_in 80 [127, 0, 0, 1]) = Inr ip" "length ip \<le> 21"
    using toIpPort4 by blast
  then obtain s where "?new = Inr s" "sv_nextConnId s = 1" "sv_connections s = []" "sv_destroy s = []" "length (sv_ipPort s) \<le> 51"
    by (simp add: newTcpServer_def newAcceptor_def createNonblockingOrDie_def bindOrDie_def Let_def)
  with that [of s] sv_reach.new show thesis by blast
qed

lemma reach_accept:
  assumes "sv_reach s" and "sv_nextConnId s < 2 ^ 31 - 1"
  obtains s' where "sv_reach s'" "sv_connections s' \<noteq> []" "sv_nextConnId s' = sv_nextConnId s + 1" "sv_destroy s' = sv_destroy s"
proof -
  from runsE [OF sv_accept_ok [OF sv_reach_inv [OF assms(1)] assms(2), of 9]] obtain s' where
    s': "sv_newConnection (sv_tid s) 9 s = Inr s'" "length (sv_connections s') = Suc (length (sv_connections s))"
      "sv_nextConnId s' = sv_nextConnId s + 1" "sv_destroy s' = sv_destroy s" by blast
  show thesis
    by (rule that [OF sv_reach.accept [OF assms(1) s'(1)] _ s'(3,4)]) (use s'(2) in auto)
qed

lemma reach_close:
  assumes "sv_reach s" and "(n, a) \<in> set (sv_connections s)"
  obtains s' where "sv_reach s'" "sv_nextConnId s' = sv_nextConnId s" "sv_destroy s' = sv_destroy s @ [a]"
proof -
  from runsE [OF sv_close_ok [OF sv_reach_inv [OF assms(1)] assms(2)]] obtain s' where
    s': "sv_event (sv_tid s) a (conn_handleClose (sv_tid s)) s = Inr s'" "sv_destroy s' = sv_destroy s @ [a]"
      "sv_nextConnId s' = sv_nextConnId s" by blast
  have "sv_reach s'"
  proof (rule sv_reach.event [OF assms _ _ s'(1)])
    fix c c' assume e: "conn_handleClose (sv_tid s) c = Inr c'"
    then have "sv_tid s = loop_tid c" by (simp add: conn_handleClose_def in_loop_def split: if_splits)
    with e show "conn_step c c'" by (auto intro: conn_step.hang_up)
    show "conn_up c' \<or> closes c < closes c'"
      using e by (auto simp: conn_handleClose_def in_loop_def assertE_eq_Inr Let_def closes_def emit_def conn_mask_def
          split: if_splits)
  qed
  then show thesis by (rule that [OF _ s'(3,2)])
qed

lemma reach_two:
  obtains s n a b where "sv_reach s" "(n, a) \<in> set (sv_connections s)" "sv_destroy s = [b]"
proof -
  obtain s0 where s0: "sv_reach s0" "sv_nextConnId s0 = 1" "sv_destroy s0 = []" by (rule reach_new)
  obtain s1 where s1: "sv_reach s1" "sv_connections s1 \<noteq> []" "sv_nextConnId s1 = sv_nextConnId s0 + 1" "sv_destroy s1 = sv_destroy s0"
    by (rule reach_accept [OF s0(1)]) (simp_all add: s0)
  obtain m b where mb: "(m, b) \<in> set (sv_connections s1)" using s1(2) by (cases "sv_connections s1") auto
  obtain s2 where s2: "sv_reach s2" "sv_nextConnId s2 = sv_nextConnId s1" "sv_destroy s2 = sv_destroy s1 @ [b]"
    by (rule reach_close [OF s1(1) mb])
  obtain s3 where s3: "sv_reach s3" "sv_connections s3 \<noteq> []" "sv_destroy s3 = sv_destroy s2"
    by (rule reach_accept [OF s2(1)]) (simp_all add: s0 s1 s2)
  obtain n a where na: "(n, a) \<in> set (sv_connections s3)" using s3(2) by (cases "sv_connections s3") auto
  show thesis by (rule that [OF s3(1) na, of b]) (simp add: s3 s2 s1 s0)
qed

section \<open>Properties\<close>

text \<open>
  C26: the server's book-keeping. In every state the server can reach, through accepted connections, any
  events of open connections and the functors of its loop, the map leads by name to a live connection of
  that name that is up, names and objects are unique, a closed connection is in the map no longer and
  still alive until its destruction has run, and nothing else is alive. Closing any connection of the
  map returns (the assertion of \<open>removeConnectionInLoop\<close> holds), takes it out of the map and queues its
  destruction, and so does the loop's next destruction.
\<close>

theorem server_connections:
  assumes "sv_reach s"
  shows "distinct (map fst (sv_connections s)) \<and> distinct (map snd (sv_connections s)) \<and>
    (\<forall>(n, a) \<in> set (sv_connections s). \<exists>c. sv_heap s a = Some c \<and> m_name c = n \<and> isDisConnected c = False \<and>
       runs (\<lambda>s'. map_of (sv_connections s') n = None \<and> a \<in> set (sv_destroy s'))
         (sv_event (sv_tid s) a (conn_handleClose (sv_tid s)) s)) \<and>
    (\<forall>a \<in> set (sv_destroy s). a \<notin> snd ` set (sv_connections s) \<and>
       (\<exists>c. sv_heap s a = Some c \<and> isDisConnected c)) \<and>
    dom (sv_heap s) = snd ` set (sv_connections s) \<union> set (sv_destroy s) \<and>
    runs (\<lambda>s'. sv_destroy s' = tl (sv_destroy s)) (sv_run_destroy (sv_tid s) s)"
proof -
  have i: "sv_inv s" by (rule sv_reach_inv [OF assms])
  note inv = sv_invD [OF i]
  have "\<exists>c. sv_heap s a = Some c \<and> m_name c = n \<and> isDisConnected c = False \<and>
       runs (\<lambda>s'. map_of (sv_connections s') n = None \<and> a \<in> set (sv_destroy s'))
         (sv_event (sv_tid s) a (conn_handleClose (sv_tid s)) s)" if "(n, a) \<in> set (sv_connections s)" for n a
    using inv(1) [OF that] runs_mono [OF sv_close_ok [OF i that]]
    by (auto simp: sv_listed_def conn_up_def isDisConnected_def)
  moreover have "a \<notin> snd ` set (sv_connections s) \<and> (\<exists>c. sv_heap s a = Some c \<and> isDisConnected c)"
    if "a \<in> set (sv_destroy s)" for a
  proof -
    have "a \<notin> snd ` set (sv_connections s)" using sv_other(2) [OF i] that by fastforce
    then show ?thesis using inv(2) [OF that] by (auto simp: sv_dying_def isDisConnected_def)
  qed
  moreover have "runs (\<lambda>s'. sv_destroy s' = tl (sv_destroy s)) (sv_run_destroy (sv_tid s) s)"
    by (rule runs_mono [OF sv_destroy_ok [OF i]]) simp
  ultimately show ?thesis using inv(7,8) sv_heap_dom [OF i] by blast
qed

theorem server_connections_witness:
  "\<exists>s n a b. sv_reach s \<and> (n, a) \<in> set (sv_connections s) \<and> sv_destroy s = [b] \<and> a \<noteq> b \<and>
     runs (\<lambda>s'. map_of (sv_connections s') n = None) (sv_event (sv_tid s) a (conn_handleClose (sv_tid s)) s)"
proof -
  obtain s n a b where s: "sv_reach s" "(n, a) \<in> set (sv_connections s)" "sv_destroy s = [b]" by (rule reach_two)
  from server_connections [OF s(1)] s(2) have "runs (\<lambda>s'. map_of (sv_connections s') n = None \<and> a \<in> set (sv_destroy s'))
      (sv_event (sv_tid s) a (conn_handleClose (sv_tid s)) s)" by blast
  then have "runs (\<lambda>s'. map_of (sv_connections s') n = None) (sv_event (sv_tid s) a (conn_handleClose (sv_tid s)) s)"
    by (rule runs_mono) simp
  moreover from server_connections [OF s(1)] s(2,3) have "a \<noteq> b" by force
  ultimately show ?thesis using s by blast
qed



end
