(* ===== verification/TinyXml.thy ===== *)
theory TinyXml
  imports Prelude
begin

text \<open>
  The character level of \<open>submodules/tinyxml\<close> (\<open>tinyxmlparser.cpp\<close>, \<open>tinyxml.h\<close>, \<open>EncodeString\<close> of \<open>tinyxml.cpp\<close>):
  white space, names, entities, UTF-8 and text. A pointer into the document is the text from there to
  the terminating zero, \<open>None\<close> the null pointer. Reading past the terminating zero is undefined.
\<close>

unbundle bit_operations_syntax

type_synonym ptr = "string option"

datatype TiXmlEncoding = TIXML_ENCODING_UNKNOWN | TIXML_ENCODING_UTF8 | TIXML_ENCODING_LEGACY

abbreviation ord_of :: "char \<Rightarrow> nat" where "ord_of c \<equiv> of_char c"

section \<open>Characters\<close>

definition isspace :: "char \<Rightarrow> bool" where
  "isspace c \<longleftrightarrow> ord_of c = 32 \<or> (9 \<le> ord_of c \<and> ord_of c \<le> 13)"

definition isalpha :: "char \<Rightarrow> bool" where
  "isalpha c \<longleftrightarrow> (65 \<le> ord_of c \<and> ord_of c \<le> 90) \<or> (97 \<le> ord_of c \<and> ord_of c \<le> 122)"

definition isdigit :: "char \<Rightarrow> bool" where
  "isdigit c \<longleftrightarrow> 48 \<le> ord_of c \<and> ord_of c \<le> 57"

definition IsWhiteSpace :: "char \<Rightarrow> bool" where
  "IsWhiteSpace c \<longleftrightarrow> isspace c \<or> ord_of c = 10 \<or> ord_of c = 13"

definition IsAlpha :: "char \<Rightarrow> bool" where
  "IsAlpha c \<longleftrightarrow> (if ord_of c < 127 then isalpha c else True)"

definition IsAlphaNum :: "char \<Rightarrow> bool" where
  "IsAlphaNum c \<longleftrightarrow> (if ord_of c < 127 then isalpha c \<or> isdigit c else True)"

definition ToLower :: "char \<Rightarrow> char" where
  "ToLower c = (if 65 \<le> ord_of c \<and> ord_of c \<le> 90 then char_of (ord_of c + 32) else c)"

text \<open>The table of lengths by lead byte.\<close>

definition utf8ByteTable :: "nat \<Rightarrow> nat" where
  "utf8ByteTable b =
     (if b < 0xc2 then 1 else if b < 0xe0 then 2 else if b < 0xf0 then 3 else if b < 0xf5 then 4 else 1)"

definition utf_lead :: "string \<Rightarrow> bool" where
  "utf_lead s \<longleftrightarrow> map ord_of (take 3 s) \<in> {[0xef, 0xbb, 0xbf], [0xef, 0xbf, 0xbe], [0xef, 0xbf, 0xbf]}"

fun skip_white :: "TiXmlEncoding \<Rightarrow> string \<Rightarrow> string" where
  "skip_white enc [] = []"
| "skip_white enc (c # cs) =
     (if enc = TIXML_ENCODING_UTF8 \<and> utf_lead (c # cs) then skip_white enc (drop 2 cs)
      else if IsWhiteSpace c then skip_white enc cs else c # cs)"

definition SkipWhiteSpace :: "TiXmlEncoding \<Rightarrow> ptr \<Rightarrow> ptr" where
  "SkipWhiteSpace enc p = (case p of None \<Rightarrow> None | Some s \<Rightarrow> if s = [] then None else Some (skip_white enc s))"

section \<open>Names\<close>

definition name_start :: "char \<Rightarrow> bool" where
  "name_start c \<longleftrightarrow> IsAlpha c \<or> c = CHR ''_''"

definition name_char :: "char \<Rightarrow> bool" where
  "name_char c \<longleftrightarrow> IsAlphaNum c \<or> c \<in> {CHR ''_'', CHR ''-'', CHR ''.'', CHR '':''}"

definition ReadName :: "ptr \<Rightarrow> (string \<times> ptr) res" where
  "ReadName p =
     (case p of
        None \<Rightarrow> Inl AssertFail
      | Some s \<Rightarrow>
          Inr (if s \<noteq> [] \<and> name_start (hd s) then (takeWhile name_char s, Some (dropWhile name_char s)) else ([], None)))"

fun starts_with :: "(char \<Rightarrow> char) \<Rightarrow> string \<Rightarrow> string \<Rightarrow> bool" where
  "starts_with f q [] = True"
| "starts_with f [] (t # tag) = False"
| "starts_with f (c # q) (t # tag) = (f c = f t \<and> starts_with f q tag)"

definition StringEqual :: "bool \<Rightarrow> string \<Rightarrow> string \<Rightarrow> bool res" where
  "StringEqual ignoreCase tag p =
     (if p = [] then Inl AssertFail else Inr (starts_with (if ignoreCase then ToLower else id) p tag))"

section \<open>Entities\<close>

definition entities :: "(string \<times> char) list" where
  "entities = [(''&amp;'', CHR ''&''), (''&lt;'', CHR ''<''), (''&gt;'', CHR ''>''), (''&quot;'', CHR 0x22), (''&apos;'', CHR 0x27)]"

text \<open>The value is computed from the last digit on, in the widths of the code: the factor has 32 bits.\<close>

definition hex_digit :: "char \<Rightarrow> nat option" where
  "hex_digit c =
     (if isdigit c then Some (ord_of c - 48)
      else if 97 \<le> ord_of c \<and> ord_of c \<le> 102 then Some (ord_of c - 97 + 10)
      else if 65 \<le> ord_of c \<and> ord_of c \<le> 70 then Some (ord_of c - 65 + 10) else None)"

definition dec_digit :: "char \<Rightarrow> nat option" where
  "dec_digit c = (if isdigit c then Some (ord_of c - 48) else None)"

fun ref_value :: "(char \<Rightarrow> nat option) \<Rightarrow> u32 \<Rightarrow> char \<Rightarrow> string \<Rightarrow> u64 \<Rightarrow> u32 \<Rightarrow> u64 option" where
  "ref_value dig base stop [] ucs mult = Some ucs"
| "ref_value dig base stop (c # cs) ucs mult =
     (if c = stop then Some ucs
      else case dig c of
        None \<Rightarrow> None
      | Some d \<Rightarrow> ref_value dig base stop cs (ucs + ucast (mult * of_nat d)) (mult * base))"

definition ConvertUTF32ToUTF8 :: "u64 \<Rightarrow> string" where
  "ConvertUTF32ToUTF8 inp =
     (let mark = (\<lambda>x :: u64. char_of (unat ((x OR 0x80) AND 0xBF)));
          first = (\<lambda>(x :: u64) m. char_of (unat ((x OR m) AND 0xFF))) in
      if inp < 0x80 then [first inp 0]
      else if inp < 0x800 then [first (drop_bit 6 inp) 0xC0, mark inp]
      else if inp < 0x10000 then [first (drop_bit 12 inp) 0xE0, mark (drop_bit 6 inp), mark inp]
      else if inp < 0x200000
      then [first (drop_bit 18 inp) 0xF0, mark (drop_bit 12 inp), mark (drop_bit 6 inp), mark inp]
      else [])"

definition ref_chars :: "TiXmlEncoding \<Rightarrow> u64 \<Rightarrow> string" where
  "ref_chars enc ucs = (if enc = TIXML_ENCODING_UTF8 then ConvertUTF32ToUTF8 ucs else [char_of (unat ucs)])"

text \<open>A reference from \<open>start\<close> on, up to the next semicolon, read back to \<open>stop\<close>.\<close>

definition char_ref ::
  "TiXmlEncoding \<Rightarrow> (char \<Rightarrow> nat option) \<Rightarrow> u32 \<Rightarrow> char \<Rightarrow> string \<Rightarrow> string \<times> ptr" where
  "char_ref enc dig base stop start =
     (let digits = takeWhile (\<lambda>c. c \<noteq> CHR '';'') start; rest = dropWhile (\<lambda>c. c \<noteq> CHR '';'') start in
      if rest = [] then ([], None)
      else case ref_value dig base stop (rev digits) 0 1 of
        None \<Rightarrow> ([], None)
      | Some ucs \<Rightarrow> (ref_chars enc ucs, Some (tl rest)))"

definition GetEntity :: "TiXmlEncoding \<Rightarrow> string \<Rightarrow> string \<times> ptr" where
  "GetEntity enc p =
     (if length p > 2 \<and> p ! 1 = CHR ''#''
      then if p ! 2 = CHR ''x''
           then if length p = 3 then ([], None) else char_ref enc hex_digit 16 CHR ''x'' (drop 3 p)
           else char_ref enc dec_digit 10 CHR ''#'' (drop 2 p)
      else case find (\<lambda>(s, c). starts_with id p s) entities of
        Some (s, c) \<Rightarrow> ([c], Some (drop (length s) p))
      | None \<Rightarrow> ([], Some (drop 1 p)))"

definition GetChar :: "TiXmlEncoding \<Rightarrow> string \<Rightarrow> (string \<times> ptr) res" where
  "GetChar enc p =
     (let len = (if enc = TIXML_ENCODING_UTF8 then utf8ByteTable (ord_of (hd p)) else 1) in
      if len = 1
      then Inr (if hd p = CHR ''&'' then GetEntity enc p else ([hd p], Some (tl p)))
      else if length p < len then Inl Undefined
      else Inr (take len p, Some (drop len p)))"

text \<open>Every character consumes input.\<close>

lemma GetEntity_shorter: "p \<noteq> [] \<Longrightarrow> GetEntity enc p = (v, Some q) \<Longrightarrow> length q < length p"
proof -
  have c: "length q \<le> length s" if "char_ref enc dig base stop s = (v, Some q)" for dig base stop s
  proof -
    have "length (dropWhile (\<lambda>c. c \<noteq> CHR '';'') s) \<le> length s" by (rule length_dropWhile_le)
    then show ?thesis using that by (auto simp: char_ref_def Let_def split: if_splits option.splits)
  qed
  have "length s > 0" if "find (\<lambda>(s, c). starts_with id p s) entities = Some (s, c)" for s c
    using that by (auto simp: entities_def split: if_splits)
  then show "p \<noteq> [] \<Longrightarrow> GetEntity enc p = (v, Some q) \<Longrightarrow> length q < length p"
    by (auto simp: GetEntity_def split: if_splits option.splits dest!: c)
qed

lemma GetChar_shorter:
  assumes "p \<noteq> []" and "GetChar enc p = Inr (v, Some q)"
  shows "length q < length p"
proof -
  have "utf8ByteTable b > 0" for b by (simp add: utf8ByteTable_def)
  with assms show ?thesis
    using GetEntity_shorter [OF assms(1), of enc v q]
    by (auto simp: GetChar_def Let_def split: if_splits)
qed

section \<open>Text\<close>

text \<open>The loops of \<open>ReadText\<close>: with all white space, and condensed.\<close>

function read_keep :: "TiXmlEncoding \<Rightarrow> bool \<Rightarrow> string \<Rightarrow> string \<Rightarrow> string \<Rightarrow> (string \<times> ptr) res" where
  "read_keep enc ic endTag s text =
     (if s = [] \<or> StringEqual ic endTag s = Inr True then Inr (text, Some s)
      else case GetChar enc s of
        Inl e \<Rightarrow> Inl e
      | Inr (v, None) \<Rightarrow> Inr (text @ v, None)
      | Inr (v, Some s') \<Rightarrow> read_keep enc ic endTag s' (text @ v))"
  by auto
termination
  by (relation "measure (\<lambda>(_, _, _, s, _). length s)") (auto dest: GetChar_shorter)

function read_condense :: "TiXmlEncoding \<Rightarrow> bool \<Rightarrow> string \<Rightarrow> string \<Rightarrow> string \<Rightarrow> bool \<Rightarrow> (string \<times> ptr) res" where
  "read_condense enc ic endTag s text white =
     (if s = [] \<or> StringEqual ic endTag s = Inr True then Inr (text, Some s)
      else if IsWhiteSpace (hd s) then read_condense enc ic endTag (tl s) text True
      else case GetChar enc s of
        Inl e \<Rightarrow> Inl e
      | Inr (v, None) \<Rightarrow> Inr ((if white then text @ '' '' else text) @ v, None)
      | Inr (v, Some s') \<Rightarrow> read_condense enc ic endTag s' ((if white then text @ '' '' else text) @ v) False)"
  by auto
termination
  by (relation "measure (\<lambda>(_, _, _, s, _, _). length s)") (auto dest: GetChar_shorter)

declare read_keep.simps [simp del] read_condense.simps [simp del]

definition after_tag :: "string \<Rightarrow> ptr \<Rightarrow> ptr" where
  "after_tag endTag p =
     (case p of None \<Rightarrow> None | Some s \<Rightarrow>
        let s' = (if s \<noteq> [] then drop (length endTag) s else s) in if s' = [] then None else Some s')"

text \<open>\<open>cw\<close> is the static \<open>condenseWhiteSpace\<close>, true unless the user changes it.\<close>

definition ReadText :: "bool \<Rightarrow> TiXmlEncoding \<Rightarrow> bool \<Rightarrow> string \<Rightarrow> bool \<Rightarrow> ptr \<Rightarrow> (string \<times> ptr) res" where
  "ReadText cw enc trimWhiteSpace endTag ic p =
     (if \<not> trimWhiteSpace \<or> \<not> cw
      then (case p of
              None \<Rightarrow> Inr ([], None)
            | Some s \<Rightarrow> bindE (read_keep enc ic endTag s []) (\<lambda>(text, q). Inr (text, after_tag endTag q)))
      else (case SkipWhiteSpace enc p of
              None \<Rightarrow> Inr ([], None)
            | Some s \<Rightarrow> bindE (read_condense enc ic endTag s [] False) (\<lambda>(text, q). Inr (text, after_tag endTag q))))"

section \<open>Encoding\<close>

definition hex_char :: "nat \<Rightarrow> char" where
  "hex_char d = (if d < 10 then char_of (48 + d) else char_of (55 + d))"

text \<open>A hexadecimal reference is passed through, up to the semicolon or the last character.\<close>

definition passed :: "string \<Rightarrow> nat" where
  "passed s = min (length s - 1) (Suc (length (takeWhile (\<lambda>c. c \<noteq> CHR '';'') (tl s))))"

definition hex_ref :: "string \<Rightarrow> bool" where
  "hex_ref s \<longleftrightarrow> length s > 2 \<and> take 3 s = ''&#x''"

definition encode_char :: "char \<Rightarrow> string" where
  "encode_char c =
     (case find (\<lambda>(s, d). d = c) entities of
        Some (s, d) \<Rightarrow> s
      | None \<Rightarrow> if ord_of c < 32 then ''&#x'' @ [hex_char (ord_of c div 16), hex_char (ord_of c mod 16)] @ '';'' else [c])"

function EncodeString :: "string \<Rightarrow> string" where
  "EncodeString [] = []"
| "EncodeString (c # cs) =
     (if hex_ref (c # cs) then take (passed (c # cs)) (c # cs) @ EncodeString (drop (passed (c # cs)) (c # cs))
      else encode_char c @ EncodeString cs)"
  by pat_completeness auto
termination
  by (relation "measure length") (auto simp: passed_def hex_ref_def)

section \<open>Decoding what was encoded\<close>

lemma starts_with_prefix [simp]: "starts_with f (s @ t) s"
  by (induction s) auto

lemma control_refs:
  assumes "n < 32"
  shows "ref_value hex_digit 16 CHR ''x'' [hex_char (n mod 16), hex_char (n div 16)] 0 1 = Some (of_nat n)"
    "hex_char (n div 16) \<noteq> CHR '';''" "hex_char (n mod 16) \<noteq> CHR '';''" "ref_chars enc (of_nat n) = [char_of n]"
proof -
  let ?P = "\<lambda>n. ref_value hex_digit 16 CHR ''x'' [hex_char (n mod 16), hex_char (n div 16)] 0 1 = Some (of_nat n) \<and>
    hex_char (n div 16) \<noteq> CHR '';'' \<and> hex_char (n mod 16) \<noteq> CHR '';'' \<and>
    ConvertUTF32ToUTF8 (of_nat n) = [char_of n] \<and> unat (of_nat n :: u64) = n"
  have "list_all ?P [0..<32]" by code_simp
  with assms have "?P n" by (simp add: list_all_iff)
  then show "ref_value hex_digit 16 CHR ''x'' [hex_char (n mod 16), hex_char (n div 16)] 0 1 = Some (of_nat n)"
    "hex_char (n div 16) \<noteq> CHR '';''" "hex_char (n mod 16) \<noteq> CHR '';''" "ref_chars enc (of_nat n) = [char_of n]"
    by (simp_all add: ref_chars_def)
qed

text \<open>The characters that a single byte of the encoding can hold.\<close>

definition single_byte :: "TiXmlEncoding \<Rightarrow> char \<Rightarrow> bool" where
  "single_byte enc c \<longleftrightarrow> enc \<noteq> TIXML_ENCODING_UTF8 \<or> ord_of c < 128"

lemma GetChar_encoded:
  assumes "single_byte enc c"
  shows "GetChar enc (encode_char c @ s) = Inr ([c], Some s)"
proof -
  have amp: "GetChar enc (CHR ''&'' # t) = Inr (GetEntity enc (CHR ''&'' # t))" for t
    by (simp add: GetChar_def utf8ByteTable_def)
  consider e where "(e, c) \<in> set entities" | "c \<notin> snd ` set entities" by force
  then show ?thesis
  proof cases
    case 1
    then show ?thesis
      by (auto simp: entities_def encode_char_def amp GetEntity_def)
  next
    case 2
    then have none: "find (\<lambda>(s, d). d = c) entities = None" by (force simp: find_None_iff)
    have na: "c \<noteq> CHR ''&''" using 2 by (auto simp: entities_def)
    show ?thesis
    proof (cases "ord_of c < 32")
      case True
      note r = control_refs(1-3) [OF True] control_refs(4) [OF True, of enc]
      show ?thesis
        using none True r by (simp add: encode_char_def amp GetEntity_def char_ref_def)
    next
      case False
      then show ?thesis
        using none na assms by (auto simp: encode_char_def GetChar_def utf8ByteTable_def single_byte_def)
    qed
  qed
qed

lemma encode_char_start:
  assumes "q \<in> {CHR 0x22, CHR 0x27}"
  shows "\<exists>d ds. encode_char c = d # ds \<and> d \<noteq> q"
proof -
  consider e where "(e, c) \<in> set entities" | "c \<notin> snd ` set entities" by force
  then show ?thesis
  proof cases
    case 1
    then show ?thesis using assms by (auto simp: entities_def encode_char_def)
  next
    case 2
    then have none: "find (\<lambda>(s, d). d = c) entities = None" by (force simp: find_None_iff)
    then show ?thesis using assms 2 by (auto simp: encode_char_def entities_def)
  qed
qed

lemma read_keep_encoded:
  assumes "q \<in> {CHR 0x22, CHR 0x27}" and "\<forall>c \<in> set v. single_byte enc c" and "\<forall>n. \<not> hex_ref (drop n v)"
  shows "read_keep enc False [q] (EncodeString v @ q # rest) acc = Inr (acc @ v, Some (q # rest))"
  using assms(2,3)
proof (induction v arbitrary: acc)
  case Nil
  show ?case by (simp add: read_keep.simps StringEqual_def)
next
  case (Cons c v)
  have h: "\<not> hex_ref (c # v)" "\<forall>n. \<not> hex_ref (drop n v)"
    using spec [OF Cons.prems(2), of 0] spec [OF Cons.prems(2), of "Suc n" for n] by simp_all
  obtain d ds where d: "encode_char c = d # ds" "d \<noteq> q" using encode_char_start [OF assms(1)] by blast
  let ?s = "encode_char c @ EncodeString v @ q # rest"
  have "read_keep enc False [q] ?s acc = read_keep enc False [q] (EncodeString v @ q # rest) (acc @ [c])"
    using GetChar_encoded [of enc c] Cons.prems(1) d by (subst read_keep.simps) (simp add: StringEqual_def)
  then show ?case using Cons.IH [OF _ h(2)] Cons.prems(1) h(1) by simp
qed

section \<open>Properties\<close>

text \<open>
  Attribute values survive printing and parsing. The text of a value, encoded and put between
  quotes of either kind, is read back as that value by the parser, which stops behind the quote,
  whatever characters the value has, quotes, markup, ampersands and control characters included, if
  it does not contain the start of a hexadecimal reference, which the encoder passes through, and
  if, in UTF-8, its characters are ASCII.
\<close>

theorem encoded_value_roundtrip:
  assumes "q \<in> {CHR 0x22, CHR 0x27}" and "\<forall>c \<in> set v. single_byte enc c" and "\<forall>n. \<not> hex_ref (drop n v)" and "rest \<noteq> []"
  shows "ReadText cw enc False [q] False (Some (EncodeString v @ [q] @ rest)) = Inr (v, Some rest)"
  using read_keep_encoded [OF assms(1-3), of rest "[]"] assms(4) by (simp add: ReadText_def after_tag_def)

theorem encoded_value_roundtrip_witness:
  "ReadText True TIXML_ENCODING_UTF8 False [CHR 0x22] False
     (Some (EncodeString ''a<b & c>'' @ [CHR 0x22] @ ''/>'')) = Inr (''a<b & c>'', Some ''/>'')"
proof -
  have "\<forall>c \<in> set ''a<b & c>''. single_byte TIXML_ENCODING_UTF8 c" by code_simp
  moreover have "\<not> hex_ref (drop n ''a<b & c>'')" for n
  proof (cases "n < 9")
    case True
    have "list_all (\<lambda>n. \<not> hex_ref (drop n ''a<b & c>'')) [0..<9]" by code_simp
    then show ?thesis using True by (simp add: list_all_iff del: upt_rec_numeral)
  qed (simp add: hex_ref_def)
  ultimately show ?thesis
    by (intro encoded_value_roundtrip) simp_all
qed

end
