(* ===== verification/XmlDocument.thy ===== *)
theory XmlDocument
  imports TinyXml
begin

text \<open>
  The document level of \<open>submodules/tinyxml\<close>: nodes, the \<open>Parse\<close> methods of \<open>tinyxmlparser.cpp\<close>, and the parts
  of \<open>tinyxml.cpp\<close> that a reader of documents uses (\<open>LoadFile\<close>, children, text). The children of a
  node are a list, the linked list of the code. An error is recorded in the document, the first one
  only. Rows and columns of nodes are left out here; \<open>XmlCursor\<close> has the function that counts them.

  \<open>ReadValue\<close> calls itself for the elements within an element; its first argument bounds the depth and
  the number of nodes, \<open>None\<close> says that the bound was too small. One more than the length of the text is
  always enough.
\<close>

section \<open>Nodes and errors\<close>

datatype TiXmlNode =
    TiXmlElement string "(string \<times> string) list" "TiXmlNode list"
  | TiXmlText bool string
  | TiXmlComment string
  | TiXmlUnknown string
  | TiXmlDeclaration string string string

datatype xml_error =
    TIXML_ERROR_OPENING_FILE | TIXML_ERROR_PARSING_ELEMENT | TIXML_ERROR_FAILED_TO_READ_ELEMENT_NAME
  | TIXML_ERROR_READING_ELEMENT_VALUE | TIXML_ERROR_READING_ATTRIBUTES | TIXML_ERROR_PARSING_EMPTY
  | TIXML_ERROR_READING_END_TAG | TIXML_ERROR_PARSING_UNKNOWN | TIXML_ERROR_PARSING_COMMENT
  | TIXML_ERROR_PARSING_DECLARATION | TIXML_ERROR_DOCUMENT_EMPTY | TIXML_ERROR_PARSING_CDATA

type_synonym err = "xml_error option"

definition SetError :: "xml_error \<Rightarrow> err \<Rightarrow> err" where
  "SetError e err = (case err of Some x \<Rightarrow> Some x | None \<Rightarrow> Some e)"

fun node_value :: "TiXmlNode \<Rightarrow> string" where
  "node_value (TiXmlElement v as ch) = v"
| "node_value (TiXmlText cd v) = v"
| "node_value (TiXmlComment v) = v"
| "node_value (TiXmlUnknown v) = v"
| "node_value (TiXmlDeclaration v e s) = []"

fun isElement :: "TiXmlNode \<Rightarrow> bool" where
  "isElement (TiXmlElement v as ch) = True"
| "isElement n = False"

fun children :: "TiXmlNode \<Rightarrow> TiXmlNode list" where
  "children (TiXmlElement v as ch) = ch"
| "children n = []"

text \<open>A C string ends at its first zero.\<close>

definition cstr :: "string \<Rightarrow> string" where
  "cstr s = takeWhile (\<lambda>c. c \<noteq> CHR 0x00) s"

definition FirstChild :: "string \<Rightarrow> TiXmlNode list \<Rightarrow> TiXmlNode option" where
  "FirstChild v ch = find (\<lambda>n. cstr (node_value n) = v) ch"

definition FirstChildElement :: "TiXmlNode list \<Rightarrow> TiXmlNode option" where
  "FirstChildElement ch = find isElement ch"

text \<open>\<open>GetText\<close>: \<open>None\<close> is the null pointer.\<close>

definition GetText :: "TiXmlNode \<Rightarrow> string option" where
  "GetText n = (case children n of TiXmlText cd v # _ \<Rightarrow> Some (cstr v) | _ \<Rightarrow> None)"

definition Blank :: "TiXmlNode \<Rightarrow> bool" where
  "Blank n = list_all IsWhiteSpace (node_value n)"

section \<open>Leaves\<close>

text \<open>Text up to \<open>endTag\<close>, without entities.\<close>

fun scan_to :: "string \<Rightarrow> string \<Rightarrow> string \<Rightarrow> string \<times> string" where
  "scan_to endTag [] v = (v, [])"
| "scan_to endTag (c # s) v =
     (if starts_with id (c # s) endTag then (v, c # s) else scan_to endTag s (v @ [c]))"

definition Unknown_Parse :: "TiXmlEncoding \<Rightarrow> ptr \<Rightarrow> err \<Rightarrow> (TiXmlNode \<times> ptr \<times> err) res" where
  "Unknown_Parse enc p err =
     (case SkipWhiteSpace enc p of
        None \<Rightarrow> Inl AssertFail
      | Some s \<Rightarrow>
          if s = [] \<or> hd s \<noteq> CHR ''<'' then Inr (TiXmlUnknown [], None, SetError TIXML_ERROR_PARSING_UNKNOWN err)
          else Inr (TiXmlUnknown (takeWhile (\<lambda>c. c \<noteq> CHR ''>'') (tl s)),
                    Some (drop 1 (dropWhile (\<lambda>c. c \<noteq> CHR ''>'') (tl s))), err))"

definition Comment_Parse :: "TiXmlEncoding \<Rightarrow> ptr \<Rightarrow> err \<Rightarrow> (TiXmlNode \<times> ptr \<times> err) res" where
  "Comment_Parse enc p err =
     (case SkipWhiteSpace enc p of
        None \<Rightarrow> Inl AssertFail
      | Some s \<Rightarrow>
          bindE (StringEqual False ''<!--'' s) (\<lambda>eq.
          if \<not> eq then Inr (TiXmlComment [], None, SetError TIXML_ERROR_PARSING_COMMENT err)
          else case scan_to ''-->'' (drop 4 s) [] of (v, r) \<Rightarrow>
            Inr (TiXmlComment v, Some (if r \<noteq> [] then drop 3 r else r), err)))"

definition Text_Parse :: "bool \<Rightarrow> TiXmlEncoding \<Rightarrow> bool \<Rightarrow> string \<Rightarrow> err \<Rightarrow> (TiXmlNode \<times> ptr \<times> err) res" where
  "Text_Parse cw enc cdata s err =
     bindE (if cdata then Inr True else StringEqual False ''<![CDATA['' s) (\<lambda>cd.
     if cd
     then bindE (StringEqual False ''<![CDATA['' s) (\<lambda>eq.
       if \<not> eq then Inr (TiXmlText True [], None, SetError TIXML_ERROR_PARSING_CDATA err)
       else case scan_to '']]>'' (drop 9 s) [] of (v, r) \<Rightarrow>
         bindE (ReadText cw enc False '']]>'' False (Some r)) (\<lambda>(_, q). Inr (TiXmlText True v, q, err)))
     else bindE (ReadText cw enc True ''<'' False (Some s)) (\<lambda>(v, q).
       Inr (TiXmlText False v, (case q of Some r \<Rightarrow> if r = [] then None else Some (CHR ''<'' # r) | None \<Rightarrow> None), err)))"

section \<open>Attributes\<close>

text \<open>A value without quotes; the pointer is null when a quote appears in it.\<close>

fun unquoted :: "string \<Rightarrow> string \<Rightarrow> string \<times> ptr" where
  "unquoted [] v = (v, Some [])"
| "unquoted (c # s) v =
     (if IsWhiteSpace c \<or> c = CHR ''/'' \<or> c = CHR ''>'' then (v, Some (c # s))
      else if c = CHR 0x27 \<or> c = CHR 0x22 then (v, None)
      else unquoted s (v @ [c]))"

definition attr_value :: "bool \<Rightarrow> bool \<Rightarrow> TiXmlEncoding \<Rightarrow> string \<Rightarrow> err \<Rightarrow> (string \<times> ptr \<times> err) res" where
  "attr_value doc cw enc s err =
     (if hd s = CHR 0x27 \<or> hd s = CHR 0x22
      then bindE (ReadText cw enc False [hd s] False (Some (tl s))) (\<lambda>(v, q). Inr (v, q, err))
      else case unquoted s [] of
        (v, Some r) \<Rightarrow> Inr (v, Some r, err)
      | (v, None) \<Rightarrow> Inr (v, None, if doc then SetError TIXML_ERROR_READING_ATTRIBUTES err else err))"

definition null_or_end :: "ptr \<Rightarrow> bool" where
  "null_or_end p \<longleftrightarrow> p = None \<or> p = Some []"

text \<open>\<open>doc\<close> says whether the attribute knows its document, to report errors to.\<close>

definition Attribute_Parse ::
  "bool \<Rightarrow> bool \<Rightarrow> TiXmlEncoding \<Rightarrow> ptr \<Rightarrow> err \<Rightarrow> ((string \<times> string) \<times> ptr \<times> err) res" where
  "Attribute_Parse doc cw enc p err =
     (let fail = (if doc then SetError TIXML_ERROR_READING_ATTRIBUTES err else err);
          p1 = SkipWhiteSpace enc p in
      if null_or_end p1 then Inr (([], []), None, err)
      else bindE (ReadName p1) (\<lambda>(name, p2).
        if null_or_end p2 then Inr ((name, []), None, fail)
        else let p3 = SkipWhiteSpace enc p2 in
          if null_or_end p3 \<or> hd (the p3) \<noteq> CHR ''='' then Inr ((name, []), None, fail)
          else let p4 = SkipWhiteSpace enc (Some (tl (the p3))) in
            if null_or_end p4 then Inr ((name, []), None, fail)
            else bindE (attr_value doc cw enc (the p4) err) (\<lambda>(v, q, err'). Inr ((name, v), q, err'))))"

section \<open>Lengths\<close>

lemma skip_white_length: "length (skip_white enc s) \<le> length s"
  by (induction enc s rule: skip_white.induct) auto

lemma skip_white_hd: "skip_white enc s \<noteq> [] \<Longrightarrow> \<not> IsWhiteSpace (hd (skip_white enc s))"
  by (induction enc s rule: skip_white.induct) (auto split: if_splits)

lemma skip_white_shorter: "skip_white enc s \<noteq> s \<Longrightarrow> length (skip_white enc s) < length s"
proof (induction enc s rule: skip_white.induct)
  case (2 enc c cs)
  show ?case
    using skip_white_length [of enc "drop 2 cs"] skip_white_length [of enc cs] 2(3) by (auto split: if_splits)
qed simp

lemma skip_length: "SkipWhiteSpace enc p = Some s \<Longrightarrow> \<exists>t. p = Some t \<and> t \<noteq> [] \<and> length s \<le> length t"
  using skip_white_length by (auto simp: SkipWhiteSpace_def split: option.splits if_splits)

lemma read_keep_length: "read_keep enc ic tag s acc = Inr (v, Some q) \<Longrightarrow> length q \<le> length s"
proof (induction enc ic tag s acc rule: read_keep.induct)
  case (1 enc ic tag s acc)
  show ?case
  proof (cases "s = [] \<or> StringEqual ic tag s = Inr True")
    case True
    then show ?thesis using 1(2) by (simp add: read_keep.simps)
  next
    case False
    with 1(2) obtain w r where g: "GetChar enc s = Inr (w, Some r)" "read_keep enc ic tag r (acc @ w) = Inr (v, Some q)"
      by (subst (asm) read_keep.simps) (auto split: sum.splits prod.splits option.splits)
    then show ?thesis using 1(1) [OF False g(1) refl refl g(2)] GetChar_shorter [OF _ g(1)] False by simp
  qed
qed

lemma read_condense_length: "read_condense enc ic tag s acc w = Inr (v, Some q) \<Longrightarrow> length q \<le> length s"
proof (induction enc ic tag s acc w rule: read_condense.induct)
  case (1 enc ic tag s acc w)
  consider "s = [] \<or> StringEqual ic tag s = Inr True" | "\<not> (s = [] \<or> StringEqual ic tag s = Inr True)" "IsWhiteSpace (hd s)"
    | "\<not> (s = [] \<or> StringEqual ic tag s = Inr True)" "\<not> IsWhiteSpace (hd s)" by blast
  then show ?case
  proof cases
    case 2
    then have "read_condense enc ic tag (tl s) acc True = Inr (v, Some q)"
      using 1(3) by (subst (asm) read_condense.simps) simp
    from 1(1) [OF 2 this] show ?thesis by (simp add: le_diff_conv)
  next
    case 3
    let ?acc = "if w then acc @ '' '' else acc"
    from 3 1(3) obtain x r where g: "GetChar enc s = Inr (x, Some r)" "read_condense enc ic tag r (?acc @ x) False = Inr (v, Some q)"
      by (subst (asm) read_condense.simps) (auto split: sum.splits prod.splits option.splits)
    then show ?thesis using 1(2) [OF 3 g(1) refl refl g(2)] GetChar_shorter [OF _ g(1)] 3 by simp
  qed (use 1(3) in \<open>simp add: read_condense.simps\<close>)
qed

lemma after_tag_length: "after_tag tag p = Some q \<Longrightarrow> \<exists>s. p = Some s \<and> s \<noteq> [] \<and> q \<noteq> [] \<and> q = drop (length tag) s"
  by (auto simp: after_tag_def Let_def split: option.splits if_splits)

lemma ReadText_length:
  assumes "ReadText cw enc trim tag ic p = Inr (v, Some q)"
  shows "\<exists>s. p = Some s \<and> length q + length tag \<le> length s \<and> q \<noteq> []"
proof (cases "\<not> trim \<or> \<not> cw")
  case True
  with assms obtain s r where s: "p = Some s" "read_keep enc ic tag s [] = Inr (v, r)" "after_tag tag r = Some q"
    by (auto simp: ReadText_def bindE_eq_Inr split: option.splits)
  then show ?thesis using after_tag_length [OF s(3)] read_keep_length [of enc ic tag s "[]" v] by fastforce
next
  case False
  with assms obtain s r where s: "SkipWhiteSpace enc p = Some s" "read_condense enc ic tag s [] False = Inr (v, r)"
    "after_tag tag r = Some q"
    by (auto simp: ReadText_def bindE_eq_Inr split: option.splits)
  then show ?thesis
    using after_tag_length [OF s(3)] read_condense_length [of enc ic tag s "[]" False v] skip_length [OF s(1)] by fastforce
qed

lemma unquoted_length: "unquoted s v = (w, Some q) \<Longrightarrow> length q \<le> length s"
  by (induction s v rule: unquoted.induct) (auto split: if_splits)

lemma attr_value_length: "attr_value doc cw enc s err = Inr (v, Some q, e) \<Longrightarrow> s \<noteq> [] \<Longrightarrow> length q \<le> length s"
  using unquoted_length [of s "[]"] ReadText_length [of cw enc False "[hd s]" False "Some (tl s)"]
  by (fastforce simp: attr_value_def bindE_eq_Inr split: if_splits prod.splits option.splits)

lemma ReadName_length:
  assumes "ReadName p = Inr (n, Some q)"
  shows "\<exists>s. p = Some s \<and> length q < length s"
proof -
  from assms obtain s where s: "p = Some s" "s \<noteq> []" "name_start (hd s)" "q = dropWhile name_char s"
    by (auto simp: ReadName_def split: option.splits if_splits)
  have "name_char (hd s)" using s(3) by (auto simp: name_start_def name_char_def IsAlpha_def IsAlphaNum_def)
  then show ?thesis using s length_dropWhile_le [of name_char "tl s"] by (cases s) (auto simp: less_Suc_eq_le)
qed

lemma Attribute_length:
  assumes "Attribute_Parse doc cw enc p err = Inr (nv, Some q, e)"
  shows "\<exists>s. p = Some s \<and> length q < length s"
proof -
  define p1 where "p1 = SkipWhiteSpace enc p"
  from assms obtain n p2 where p2: "\<not> null_or_end p1" "ReadName p1 = Inr (n, p2)" "\<not> null_or_end p2"
    by (auto simp: Attribute_Parse_def p1_def Let_def bindE_eq_Inr split: if_splits)
  define p3 where "p3 = SkipWhiteSpace enc p2"
  define p4 where "p4 = SkipWhiteSpace enc (Some (tl (the p3)))"
  from assms p2 obtain v where v: "\<not> null_or_end p3" "\<not> null_or_end p4" "attr_value doc cw enc (the p4) err = Inr (v, Some q, e)"
    by (auto simp: Attribute_Parse_def p1_def [symmetric] p3_def p4_def Let_def bindE_eq_Inr split: if_splits)
  have ne: "\<exists>s. x = Some s \<and> s \<noteq> []" if "\<not> null_or_end x" for x using that by (auto simp: null_or_end_def)
  obtain s1 s2 s3 s4 where s: "p1 = Some s1" "p2 = Some s2" "p3 = Some s3" "p4 = Some s4" "s3 \<noteq> []" "s4 \<noteq> []"
    using ne [OF p2(1)] ne [OF p2(3)] ne [OF v(1)] ne [OF v(2)] by blast
  obtain t where t: "p = Some t" "length s1 \<le> length t" using skip_length [of enc p s1] s(1) p1_def by auto
  have "length s2 < length s1" using ReadName_length [of p1 n s2] p2(2) s by auto
  moreover have "length s3 \<le> length s2" using skip_length [of enc p2 s3] s p3_def by auto
  moreover have "length s4 \<le> length (tl s3)" using skip_length [of enc "Some (tl s3)" s4] s p4_def by auto
  moreover have "length q \<le> length s4" using attr_value_length [of doc cw enc s4 err v q e] v(3) s by simp
  ultimately show ?thesis using t by auto
qed

section \<open>Declarations\<close>

text \<open>The loop over the attributes of a declaration; the fields are version, encoding and standalone.\<close>

definition decl_field :: "string \<Rightarrow> string \<Rightarrow> string \<times> string \<times> string \<Rightarrow> string \<times> string \<times> string" where
  "decl_field s v f =
     (if starts_with ToLower s ''version'' then (v, snd f)
      else if starts_with ToLower s ''encoding'' then (fst f, v, snd (snd f))
      else (fst f, fst (snd f), v))"

function decl_loop ::
  "bool \<Rightarrow> TiXmlEncoding \<Rightarrow> string \<Rightarrow> string \<times> string \<times> string \<Rightarrow> err \<Rightarrow> ((string \<times> string \<times> string) \<times> ptr \<times> err) res" where
  "decl_loop cw enc s f err =
     (if s = [] then Inr (f, None, err)
      else if hd s = CHR ''>'' then Inr (f, Some (tl s), err)
      else let s1 = skip_white enc s in
        if s1 = [] then Inl AssertFail
        else if starts_with ToLower s1 ''version'' \<or> starts_with ToLower s1 ''encoding'' \<or> starts_with ToLower s1 ''standalone''
        then (case Attribute_Parse False cw enc (Some s1) err of
            Inl e \<Rightarrow> Inl e
          | Inr (nv, q, err') \<Rightarrow>
              (case q of
                 None \<Rightarrow> Inr (decl_field s1 (snd nv) f, None, err')
               | Some r \<Rightarrow> decl_loop cw enc r (decl_field s1 (snd nv) f) err'))
        else decl_loop cw enc (dropWhile (\<lambda>c. c \<noteq> CHR ''>'' \<and> \<not> IsWhiteSpace c) s1) f err)"
  by auto
termination
proof (relation "measure (\<lambda>(_, _, s, _, _). length s)", goal_cases)
  case (2 cw enc s f err s1 b nv y q err' r)
  then show ?case using Attribute_length [of False cw enc "Some s1" err nv r err'] skip_white_length [of enc s] by auto
next
  case (3 cw enc s f err s1)
  let ?P = "\<lambda>c. c \<noteq> CHR ''>'' \<and> \<not> IsWhiteSpace c"
  have "length (dropWhile ?P s1) < length s"
  proof (cases "s1 = s")
    case True
    then have "?P (hd s)" using 3(2,3,4) skip_white_hd [of enc s] by simp
    then show ?thesis using True 3(1) length_dropWhile_le [of ?P "tl s"] by (cases s) (simp_all add: less_Suc_eq_le)
  next
    case False
    then have "length s1 < length s" using skip_white_shorter [of enc s] 3(3) by simp
    then show ?thesis using length_dropWhile_le [of ?P s1] by (rule le_less_trans [rotated])
  qed
  then show ?case by simp
qed auto

declare decl_loop.simps [simp del]

definition Declaration_Parse :: "bool \<Rightarrow> TiXmlEncoding \<Rightarrow> ptr \<Rightarrow> err \<Rightarrow> (TiXmlNode \<times> ptr \<times> err) res" where
  "Declaration_Parse cw enc p err =
     (case SkipWhiteSpace enc p of
        Some s \<Rightarrow>
          if s \<noteq> [] \<and> starts_with ToLower s ''<?xml''
          then bindE (decl_loop cw enc (drop 5 s) ([], [], []) err)
            (\<lambda>((v, e, sa), q, err'). Inr (TiXmlDeclaration v e sa, q, err'))
          else Inr (TiXmlDeclaration [] [] [], None, SetError TIXML_ERROR_PARSING_DECLARATION err)
      | None \<Rightarrow> Inr (TiXmlDeclaration [] [] [], None, SetError TIXML_ERROR_PARSING_DECLARATION err))"

section \<open>What comes next\<close>

datatype node_kind = KDeclaration | KComment | KCdata | KUnknown | KElement

definition Identify :: "TiXmlEncoding \<Rightarrow> ptr \<Rightarrow> node_kind option" where
  "Identify enc p =
     (case SkipWhiteSpace enc p of
        None \<Rightarrow> None
      | Some s \<Rightarrow>
          if s = [] \<or> hd s \<noteq> CHR ''<'' then None
          else if starts_with ToLower s ''<?xml'' then Some KDeclaration
          else if starts_with id s ''<!--'' then Some KComment
          else if starts_with id s ''<![CDATA['' then Some KCdata
          else if starts_with id s ''<!'' then Some KUnknown
          else if length s > 1 \<and> (IsAlpha (s ! 1) \<or> s ! 1 = CHR ''_'') then Some KElement
          else Some KUnknown)"

section \<open>Elements\<close>

datatype tag_end = Finished ptr | Content string

text \<open>The loop over the attributes, up to the end of the start tag.\<close>

function elem_attrs ::
  "bool \<Rightarrow> TiXmlEncoding \<Rightarrow> string \<Rightarrow> (string \<times> string) list \<Rightarrow> err \<Rightarrow> ((string \<times> string) list \<times> tag_end \<times> err) res" where
  "elem_attrs cw enc s attrs err =
     (if s = [] then Inr (attrs, Finished (Some []), err)
      else let s1 = skip_white enc s in
        if s1 = [] then Inr (attrs, Finished None, SetError TIXML_ERROR_READING_ATTRIBUTES err)
        else if hd s1 = CHR ''/''
        then if tl s1 = [] \<or> hd (tl s1) \<noteq> CHR ''>''
             then Inr (attrs, Finished None, SetError TIXML_ERROR_PARSING_EMPTY err)
             else Inr (attrs, Finished (Some (tl (tl s1))), err)
        else if hd s1 = CHR ''>'' then Inr (attrs, Content (tl s1), err)
        else (case Attribute_Parse True cw enc (Some s1) err of
            Inl e \<Rightarrow> Inl e
          | Inr (nv, q, err') \<Rightarrow>
              (case q of
                 None \<Rightarrow> Inr (attrs, Finished None, SetError TIXML_ERROR_PARSING_ELEMENT err')
               | Some r \<Rightarrow>
                   if r = [] \<or> fst nv \<in> set (map fst attrs)
                   then Inr (attrs, Finished None, SetError TIXML_ERROR_PARSING_ELEMENT err')
                   else elem_attrs cw enc r (attrs @ [nv]) err')))"
  by auto
termination
proof (relation "measure (\<lambda>(_, _, s, _, _). length s)", goal_cases)
  case (2 cw enc s attrs err s1 b nv y q err' r)
  then show ?case using Attribute_length [of True cw enc "Some s1" err nv r err'] skip_white_length [of enc s] by auto
qed auto

declare elem_attrs.simps [simp del]

type_synonym 'a bounded = "'a res option"

definition bindP :: "'a bounded \<Rightarrow> ('a \<Rightarrow> 'b bounded) \<Rightarrow> 'b bounded" where
  "bindP m f = (case m of None \<Rightarrow> None | Some (Inl e) \<Rightarrow> Some (Inl e) | Some (Inr x) \<Rightarrow> f x)"

text \<open>\<open>read_value\<close> is \<open>ReadValue\<close> of the element; the rest of the function checks the end tag.\<close>

definition end_tag :: "TiXmlEncoding \<Rightarrow> string \<Rightarrow> ptr \<Rightarrow> err \<Rightarrow> ptr \<times> err" where
  "end_tag enc name p err =
     (if null_or_end p then (None, SetError TIXML_ERROR_READING_END_TAG err)
      else if starts_with id (the p) (''</'' @ name)
      then let q = SkipWhiteSpace enc (Some (drop (length name + 2) (the p))) in
           if \<not> null_or_end q \<and> hd (the q) = CHR ''>'' then (Some (tl (the q)), err)
           else (None, SetError TIXML_ERROR_READING_END_TAG err)
      else (None, SetError TIXML_ERROR_READING_END_TAG err))"

definition Element_Parse ::
  "(string \<Rightarrow> err \<Rightarrow> (TiXmlNode list \<times> ptr \<times> err) bounded) \<Rightarrow> bool \<Rightarrow> TiXmlEncoding \<Rightarrow> ptr \<Rightarrow> err \<Rightarrow>
   (TiXmlNode \<times> ptr \<times> err) bounded" where
  "Element_Parse read_value cw enc p err =
     (let p1 = SkipWhiteSpace enc p; empty = TiXmlElement [] [] [] in
      if null_or_end p1 \<or> hd (the p1) \<noteq> CHR ''<'' then Some (Inr (empty, None, SetError TIXML_ERROR_PARSING_ELEMENT err))
      else bindP (Some (ReadName (SkipWhiteSpace enc (Some (tl (the p1)))))) (\<lambda>(name, p2).
        if null_or_end p2
        then Some (Inr (TiXmlElement name [] [], None, SetError TIXML_ERROR_FAILED_TO_READ_ELEMENT_NAME err))
        else bindP (Some (elem_attrs cw enc (the p2) [] err)) (\<lambda>(attrs, e, err1).
          case e of
            Finished q \<Rightarrow> Some (Inr (TiXmlElement name attrs [], q, err1))
          | Content s \<Rightarrow>
              bindP (read_value s err1) (\<lambda>(ch, p3, err2).
              case end_tag enc name p3 err2 of (q, err3) \<Rightarrow> Some (Inr (TiXmlElement name attrs ch, q, err3))))))"

definition Node_Parse ::
  "(string \<Rightarrow> err \<Rightarrow> (TiXmlNode list \<times> ptr \<times> err) bounded) \<Rightarrow> bool \<Rightarrow> TiXmlEncoding \<Rightarrow> node_kind \<Rightarrow> string \<Rightarrow> err \<Rightarrow>
   (TiXmlNode \<times> ptr \<times> err) bounded" where
  "Node_Parse read_value cw enc k s err =
     (case k of
        KDeclaration \<Rightarrow> Some (Declaration_Parse cw enc (Some s) err)
      | KComment \<Rightarrow> Some (Comment_Parse enc (Some s) err)
      | KCdata \<Rightarrow> Some (Text_Parse cw enc True s err)
      | KUnknown \<Rightarrow> Some (Unknown_Parse enc (Some s) err)
      | KElement \<Rightarrow> Element_Parse read_value cw enc (Some s) err)"

fun ReadValue ::
  "nat \<Rightarrow> bool \<Rightarrow> TiXmlEncoding \<Rightarrow> ptr \<Rightarrow> TiXmlNode list \<Rightarrow> err \<Rightarrow> (TiXmlNode list \<times> ptr \<times> err) bounded" where
  "ReadValue 0 cw enc pw ch err = None"
| "ReadValue (Suc n) cw enc pw ch err =
     (case SkipWhiteSpace enc pw of
        None \<Rightarrow> Some (Inr (ch, None, SetError TIXML_ERROR_READING_ELEMENT_VALUE err))
      | Some s \<Rightarrow>
          if s = [] then Some (Inr (ch, Some [], err))
          else if hd s \<noteq> CHR ''<''
          then bindP (Some (Text_Parse cw enc False (if cw then s else the pw) err)) (\<lambda>(node, q, err1).
            ReadValue n cw enc q (if Blank node then ch else ch @ [node]) err1)
          else if starts_with id s ''</'' then Some (Inr (ch, Some s, err))
          else case Identify enc (Some s) of
            None \<Rightarrow> Some (Inr (ch, None, err))
          | Some k \<Rightarrow>
              bindP (Node_Parse (\<lambda>t e. ReadValue n cw enc (Some t) [] e) cw enc k s err) (\<lambda>(node, q, err1).
              ReadValue n cw enc q (ch @ [node]) err1))"

section \<open>Documents\<close>

record TiXmlDocument =
  doc_nodes :: "TiXmlNode list"
  doc_error :: err
  useMicrosoftBOM :: bool

definition Error :: "TiXmlDocument \<Rightarrow> bool" where
  "Error d \<longleftrightarrow> doc_error d \<noteq> None"

definition RootElement :: "TiXmlDocument \<Rightarrow> TiXmlNode option" where
  "RootElement d = FirstChildElement (doc_nodes d)"

text \<open>A declaration tells the encoding, unless it is known.\<close>

definition doc_encoding :: "TiXmlEncoding \<Rightarrow> TiXmlNode \<Rightarrow> TiXmlEncoding" where
  "doc_encoding enc node =
     (case node of
        TiXmlDeclaration v e sa \<Rightarrow>
          if enc = TIXML_ENCODING_UNKNOWN
          then if cstr e = [] \<or> starts_with ToLower (cstr e) ''UTF-8'' \<or> starts_with ToLower (cstr e) ''UTF8''
               then TIXML_ENCODING_UTF8 else TIXML_ENCODING_LEGACY
          else enc
      | _ \<Rightarrow> enc)"

fun doc_loop ::
  "nat \<Rightarrow> bool \<Rightarrow> TiXmlEncoding \<Rightarrow> ptr \<Rightarrow> TiXmlNode list \<Rightarrow> err \<Rightarrow> (TiXmlNode list \<times> err) bounded" where
  "doc_loop 0 cw enc p nodes err = None"
| "doc_loop (Suc n) cw enc p nodes err =
     (if null_or_end p then Some (Inr (nodes, err))
      else case Identify enc p of
        None \<Rightarrow> Some (Inr (nodes, err))
      | Some k \<Rightarrow>
          bindP (Node_Parse (\<lambda>t e. ReadValue n cw enc (Some t) [] e) cw enc k (the p) err) (\<lambda>(node, q, err1).
          let enc' = doc_encoding enc node in
          doc_loop n cw enc' (SkipWhiteSpace enc' q) (nodes @ [node]) err1))"

definition Document_Parse :: "nat \<Rightarrow> bool \<Rightarrow> TiXmlEncoding \<Rightarrow> string \<Rightarrow> TiXmlDocument bounded" where
  "Document_Parse n cw encoding s =
     (if s = [] then Some (Inr \<lparr>doc_nodes = [], doc_error = SetError TIXML_ERROR_DOCUMENT_EMPTY None, useMicrosoftBOM = False\<rparr>)
      else let bom = (encoding = TIXML_ENCODING_UNKNOWN \<and> map ord_of (take 3 s) = [0xef, 0xbb, 0xbf]);
               enc = (if bom then TIXML_ENCODING_UTF8 else encoding) in
        bindP (doc_loop n cw enc (SkipWhiteSpace enc (Some s)) [] None) (\<lambda>(nodes, err).
        Some (Inr \<lparr>doc_nodes = nodes,
          doc_error = (if nodes = [] then SetError TIXML_ERROR_DOCUMENT_EMPTY err else err), useMicrosoftBOM = bom\<rparr>)))"

text \<open>Line ends become line feeds; the text ends at the first zero.\<close>

fun normalize_newlines :: "string \<Rightarrow> string" where
  "normalize_newlines [] = []"
| "normalize_newlines (c # cs) =
     (if c = CHR 0x00 then []
      else if c = CHR 0x0D then CHR 0x0A # normalize_newlines (if cs \<noteq> [] \<and> hd cs = CHR 0x0A then tl cs else cs)
      else c # normalize_newlines cs)"

text \<open>\<open>content\<close> is what the file has, \<open>None\<close> when it cannot be opened or read.\<close>

definition LoadFile :: "string option \<Rightarrow> TiXmlDocument bounded" where
  "LoadFile content =
     (let failed = (\<lambda>e. Some (Inr \<lparr>doc_nodes = [], doc_error = Some e, useMicrosoftBOM = False\<rparr>)) in
      case content of
        None \<Rightarrow> failed TIXML_ERROR_OPENING_FILE
      | Some buf \<Rightarrow>
          if buf = [] then failed TIXML_ERROR_DOCUMENT_EMPTY
          else Document_Parse (length buf + 2) True TIXML_ENCODING_UNKNOWN (normalize_newlines buf))"

section \<open>Markup\<close>

text \<open>Names as users choose them, and where white space is skipped.\<close>

definition good_name :: "string \<Rightarrow> bool" where
  "good_name n \<longleftrightarrow> n \<noteq> [] \<and> isalpha (hd n) \<and> list_all (\<lambda>c. name_char c \<and> ord_of c < 127) n"

lemma skip_white_char: "33 \<le> ord_of c \<Longrightarrow> ord_of c < 127 \<Longrightarrow> skip_white enc (c # s) = c # s"
  by (auto simp: utf_lead_def IsWhiteSpace_def isspace_def)

lemma skip_char: "33 \<le> ord_of c \<Longrightarrow> ord_of c < 127 \<Longrightarrow> SkipWhiteSpace enc (Some (c # s)) = Some (c # s)"
  by (simp add: SkipWhiteSpace_def skip_white_char del: skip_white.simps)

lemma skip_marks [simp]:
  "SkipWhiteSpace enc (Some (CHR ''<'' # s)) = Some (CHR ''<'' # s)" "SkipWhiteSpace enc (Some (CHR ''>'' # s)) = Some (CHR ''>'' # s)"
  "skip_white enc (CHR ''>'' # s) = CHR ''>'' # s"
  by (rule skip_char skip_white_char; simp)+

lemma start_tag_end: "elem_attrs cw enc (CHR ''>'' # s) a err = Inr (a, Content s, err)"
  by (subst elem_attrs.simps) (simp add: Let_def del: skip_white.simps)

lemma end_tag_found: "end_tag enc n (Some (''</'' @ n @ ''>'' @ r)) err = (Some r, err)"
proof -
  have "starts_with id (''</'' @ n @ ''>'' @ r) (''</'' @ n)"
    using starts_with_prefix [of id "''</'' @ n" "''>'' @ r"] by simp
  then show ?thesis by (simp add: end_tag_def null_or_end_def)
qed

lemma markup_no_name: "\<not> name_char CHR ''>''" "\<not> name_char CHR ''=''" "\<not> name_char CHR '' ''"
  by (simp_all add: name_char_def IsAlphaNum_def isalpha_def isdigit_def)

lemma name_read:
  assumes "good_name n" and "\<not> name_char c"
  shows "ReadName (Some (n @ c # s)) = Inr (n, Some (c # s))" and "SkipWhiteSpace enc (Some (n @ c # s)) = Some (n @ c # s)"
    and "skip_white enc (n @ c # s) = n @ c # s"
proof -
  obtain d w where n: "n = d # w" using assms(1) by (cases n) (auto simp: good_name_def)
  have d: "isalpha d" "ord_of d < 127" using assms(1) n by (auto simp: good_name_def)
  then show "SkipWhiteSpace enc (Some (n @ c # s)) = Some (n @ c # s)" "skip_white enc (n @ c # s) = n @ c # s"
    using n by (auto simp: isalpha_def intro!: skip_char skip_white_char simp del: skip_white.simps)
  have "\<forall>x \<in> set n. name_char x" using assms(1) by (auto simp: good_name_def list_all_iff)
  then have "takeWhile name_char (n @ c # s) = n" "dropWhile name_char (n @ c # s) = c # s"
    using assms(2) by (simp_all add: takeWhile_append dropWhile_append)
  moreover have "name_start d" using d by (simp add: name_start_def IsAlpha_def)
  ultimately show "ReadName (Some (n @ c # s)) = Inr (n, Some (c # s))"
    using n by (simp add: ReadName_def)
qed

section \<open>Progress\<close>

definition plen :: "ptr \<Rightarrow> nat" where
  "plen p = (case p of None \<Rightarrow> 0 | Some s \<Rightarrow> length s)"

lemma plen_simps [simp]: "plen None = 0" "plen (Some s) = length s"
  by (simp_all add: plen_def)

lemma skip_plen: "plen (SkipWhiteSpace enc p) \<le> plen p"
  using skip_white_length by (simp add: SkipWhiteSpace_def split: option.split)

lemma scan_to_length: "scan_to tag s v = (w, r) \<Longrightarrow> length r \<le> length s"
  by (induction tag s v rule: scan_to.induct) (auto split: if_splits)

lemma starts_with_ne: "starts_with f s (c # cs) \<Longrightarrow> s \<noteq> []"
  by (cases s) auto

lemma Unknown_plen: "Unknown_Parse enc (Some s) err = Inr (node, q, e) \<Longrightarrow> s \<noteq> [] \<Longrightarrow> plen q < length s"
  using skip_white_length [of enc s] length_dropWhile_le [of "\<lambda>c. c \<noteq> CHR ''>''" "tl (skip_white enc s)"]
  by (cases "skip_white enc s") (auto simp: Unknown_Parse_def SkipWhiteSpace_def split: if_splits)

lemma Comment_plen: "Comment_Parse enc (Some s) err = Inr (node, q, e) \<Longrightarrow> s \<noteq> [] \<Longrightarrow> plen q < length s"
  using skip_white_length [of enc s] scan_to_length [of "''-->''" "drop 4 (skip_white enc s)" "[]"]
  by (cases "skip_white enc s")
    (force simp: Comment_Parse_def SkipWhiteSpace_def StringEqual_def split: if_splits prod.splits)+

lemma decl_loop_plen: "decl_loop cw enc s f err = Inr (g, q, e) \<Longrightarrow> plen q \<le> length s"
proof (induction cw enc s f err rule: decl_loop.induct)
  case (1 cw enc s f err)
  let ?s = "skip_white enc s"
  let ?attr = "starts_with ToLower ?s ''version'' \<or> starts_with ToLower ?s ''encoding'' \<or> starts_with ToLower ?s ''standalone''"
  consider "s = [] \<or> hd s = CHR ''>''" | "s \<noteq> []" "hd s \<noteq> CHR ''>''" "?s \<noteq> []" "?attr" | "s \<noteq> []" "hd s \<noteq> CHR ''>''" "?s \<noteq> []" "\<not> ?attr"
    using 1(3) by (subst (asm) decl_loop.simps) (auto simp: Let_def split: if_splits)
  then show ?case
  proof cases
    case 1
    then show ?thesis
      using \<open>decl_loop cw enc s f err = Inr (g, q, e)\<close> by (subst (asm) decl_loop.simps) (auto split: if_splits)
  next
    case 2
    from 1(3) 2 obtain nv r err' where a: "Attribute_Parse False cw enc (Some ?s) err = Inr (nv, r, err')"
      and r: "(case r of None \<Rightarrow> Inr (decl_field ?s (snd nv) f, None, err')
        | Some t \<Rightarrow> decl_loop cw enc t (decl_field ?s (snd nv) f) err') = Inr (g, q, e)"
      unfolding decl_loop.simps [of cw enc s f err] by (auto simp: Let_def split: sum.splits prod.splits)
    show ?thesis
    proof (cases r)
      case None
      then show ?thesis using r by auto
    next
      case (Some t)
      have "length t < length ?s" using Attribute_length [OF a [unfolded Some]] by auto
      moreover have "plen q \<le> length t"
        using 1(1) [OF 2(1,2) refl 2(3,4) a refl refl Some] r Some by simp
      ultimately show ?thesis using skip_white_length [of enc s] by simp
    qed
  next
    case 3
    let ?t = "dropWhile (\<lambda>c. c \<noteq> CHR ''>'' \<and> \<not> IsWhiteSpace c) ?s"
    from 1(3) 3 have "decl_loop cw enc ?t f err = Inr (g, q, e)"
      by (subst (asm) decl_loop.simps) (auto simp: Let_def)
    from 1(2) [OF 3(1,2) refl 3(3,4) this] show ?thesis
      using length_dropWhile_le [of "\<lambda>c. c \<noteq> CHR ''>'' \<and> \<not> IsWhiteSpace c" ?s] skip_white_length [of enc s] by linarith
  qed
qed

lemma Declaration_plen: "Declaration_Parse cw enc (Some s) err = Inr (node, q, e) \<Longrightarrow> s \<noteq> [] \<Longrightarrow> plen q < length s"
  using skip_white_length [of enc s] decl_loop_plen [of cw enc "drop 5 (skip_white enc s)"]
  by (cases "skip_white enc s") (fastforce simp: Declaration_Parse_def SkipWhiteSpace_def bindE_eq_Inr split: if_splits)+

text \<open>Text makes progress when it does not start with the end tag.\<close>

lemma read_keep_less:
  assumes "read_keep enc ic tag s acc = Inr (v, Some q)" and "s \<noteq> []" and "StringEqual ic tag s \<noteq> Inr True"
  shows "length q < length s"
proof -
  from assms obtain w r where g: "GetChar enc s = Inr (w, Some r)" "read_keep enc ic tag r (acc @ w) = Inr (v, Some q)"
    by (subst (asm) read_keep.simps) (auto split: sum.splits prod.splits option.splits)
  show ?thesis using read_keep_length [OF g(2)] GetChar_shorter [OF assms(2) g(1)] by simp
qed

lemma read_condense_less:
  assumes "read_condense enc ic tag s acc wh = Inr (v, Some q)" and "s \<noteq> []" and "StringEqual ic tag s \<noteq> Inr True"
  shows "length q < length s"
proof (cases "IsWhiteSpace (hd s)")
  case True
  then have "read_condense enc ic tag (tl s) acc True = Inr (v, Some q)"
    using assms by (subst (asm) read_condense.simps) simp
  from read_condense_length [OF this] show ?thesis using assms(2) by (cases s) auto
next
  case False
  let ?acc = "if wh then acc @ '' '' else acc"
  from False assms obtain w r where g: "GetChar enc s = Inr (w, Some r)" "read_condense enc ic tag r (?acc @ w) False = Inr (v, Some q)"
    by (subst (asm) read_condense.simps) (auto split: sum.splits prod.splits option.splits)
  show ?thesis using read_condense_length [OF g(2)] GetChar_shorter [OF assms(2) g(1)] by simp
qed

lemma ReadText_less:
  assumes "ReadText cw enc True ''<'' False (Some s) = Inr (v, Some r)" and "s \<noteq> []" and "hd s \<noteq> CHR ''<''"
  shows "Suc (length r) < length s"
proof (cases cw)
  case False
  with assms obtain q where q: "read_keep enc False ''<'' s [] = Inr (v, q)" "after_tag ''<'' q = Some r"
    by (auto simp: ReadText_def bindE_eq_Inr)
  obtain t where t: "q = Some t" "t \<noteq> []" "r = drop 1 t" using after_tag_length [OF q(2)] by auto
  have "length t < length s"
    using read_keep_less [OF q(1) [unfolded t(1)] assms(2)] assms(2,3) by (cases s) (auto simp: StringEqual_def)
  then show ?thesis using t by (cases t) auto
next
  case True
  let ?s = "skip_white enc s"
  from True assms obtain q where q: "read_condense enc False ''<'' ?s [] False = Inr (v, q)" "after_tag ''<'' q = Some r"
    by (auto simp: ReadText_def bindE_eq_Inr SkipWhiteSpace_def)
  obtain t where t: "q = Some t" "t \<noteq> []" "r = drop 1 t" using after_tag_length [OF q(2)] by auto
  have "length t < length s"
  proof (cases "?s = s")
    case True
    then show ?thesis
      using read_condense_less [OF q(1) [unfolded t(1)]] assms(2,3) by (cases s) (auto simp: StringEqual_def)
  next
    case False
    then show ?thesis
      using read_condense_length [OF q(1) [unfolded t(1)]] skip_white_shorter [of enc s] by simp
  qed
  then show ?thesis using t by (cases t) auto
qed

lemma Text_plen: "Text_Parse cw enc False s err = Inr (node, q, e) \<Longrightarrow> s \<noteq> [] \<Longrightarrow> hd s \<noteq> CHR ''<'' \<Longrightarrow> plen q < length s"
  using ReadText_less [of cw enc s]
  by (cases s) (fastforce simp: Text_Parse_def bindE_eq_Inr StringEqual_def split: option.splits if_splits prod.splits)+

lemma Cdata_plen:
  assumes "Text_Parse cw enc True s err = Inr (node, q, e)" and "s \<noteq> []"
  shows "plen q < length s"
proof (cases q)
  case (Some r)
  obtain v t where st: "scan_to '']]>'' (drop 9 s) [] = (v, t)" by fastforce
  with assms Some obtain w where "ReadText cw enc False '']]>'' False (Some t) = Inr (w, Some r)"
    by (auto simp: Text_Parse_def bindE_eq_Inr StringEqual_def split: if_splits)
  then have "length r + 3 \<le> length t" using ReadText_length by fastforce
  then show ?thesis using scan_to_length [OF st] Some by simp
qed (use assms in simp)

lemma elem_attrs_length:
  "elem_attrs cw enc s a err = Inr (b, t, e) \<Longrightarrow>
     (case t of Finished q \<Rightarrow> plen q \<le> length s | Content r \<Rightarrow> length r < length s)"
proof (induction cw enc s a err rule: elem_attrs.induct)
  case (1 cw enc s a err)
  let ?s = "skip_white enc s"
  have l: "length ?s \<le> length s" by (rule skip_white_length)
  show ?case
  proof (cases "s = [] \<or> ?s = [] \<or> hd ?s = CHR ''/'' \<or> hd ?s = CHR ''>''")
    case True
    then show ?thesis
      using 1(2) l by (subst (asm) elem_attrs.simps) (cases ?s; auto simp: Let_def split: if_splits)
  next
    case False
    with 1(2) obtain nv q err' where a: "Attribute_Parse True cw enc (Some ?s) err = Inr (nv, q, err')"
      by (subst (asm) elem_attrs.simps) (auto simp: Let_def split: sum.splits)
    show ?thesis
    proof (cases "null_or_end q \<or> fst nv \<in> set (map fst a)")
      case True
      then have "t = Finished None"
        using 1(2) False a by (subst (asm) elem_attrs.simps) (auto simp: Let_def null_or_end_def split: option.splits)
      then show ?thesis by simp
    next
      case rec: False
      then obtain r where r: "q = Some r" "r \<noteq> []" "fst nv \<notin> set (map fst a)" by (auto simp: null_or_end_def)
      have n: "s \<noteq> []" "?s \<noteq> []" "hd ?s \<noteq> CHR ''/''" "hd ?s \<noteq> CHR ''>''" "\<not> (r = [] \<or> fst nv \<in> set (map fst a))"
        using False r by auto
      have "elem_attrs cw enc r (a @ [nv]) err' = Inr (b, t, e)"
        using 1(2) n a r(1) by (subst (asm) elem_attrs.simps) (simp add: Let_def)
      from 1(1) [OF n(1) refl n(2-4) a refl refl r(1) n(5) this]
      have "case t of Finished q \<Rightarrow> plen q \<le> length r | Content u \<Rightarrow> length u < length r" .
      moreover have "length r < length ?s" using Attribute_length [OF a [unfolded r(1)]] by auto
      ultimately show ?thesis using l by (cases t) auto
    qed
  qed
qed

lemma end_tag_plen: "end_tag enc name p err = (q, e) \<Longrightarrow> plen q \<le> plen p"
  using skip_plen [of enc "Some (drop (length name + 2) (the p))"]
  by (cases p; cases "SkipWhiteSpace enc (Some (drop (length name + 2) (the p)))")
    (auto simp: end_tag_def null_or_end_def Let_def split: if_splits)

text \<open>A reader that always has an answer, and does not go back.\<close>

definition answers :: "nat \<Rightarrow> ('a \<times> ptr \<times> err) bounded \<Rightarrow> bool" where
  "answers n m \<longleftrightarrow> (\<exists>r. m = Some r \<and> (\<forall>x q e. r = Inr (x, q, e) \<longrightarrow> plen q \<le> n))"

lemma answers_bindP:
  assumes "answers k m" and "\<And>x q e. m = Some (Inr (x, q, e)) \<Longrightarrow> plen q \<le> k \<Longrightarrow> answers n (f (x, q, e))"
  shows "answers n (bindP m f)"
proof -
  from assms(1) obtain r where r: "m = Some r" "\<And>x q e. r = Inr (x, q, e) \<Longrightarrow> plen q \<le> k" by (auto simp: answers_def)
  show ?thesis
  proof (cases r)
    case (Inl f)
    then show ?thesis using r by (simp add: bindP_def answers_def)
  next
    case (Inr y)
    obtain x q e where "y = (x, q, e)" by (cases y) auto
    then show ?thesis using assms(2) [of x q e] r Inr by (simp add: bindP_def)
  qed
qed

lemma answers_Some: "answers n (Some m) \<longleftrightarrow> (\<forall>x q e. m = Inr (x, q, e) \<longrightarrow> plen q \<le> n)"
  by (simp add: answers_def)

lemma bindP_Some: "bindP (Some m) f = (case m of Inl e \<Rightarrow> Some (Inl e) | Inr x \<Rightarrow> f x)"
  by (simp add: bindP_def)

lemma Element_answers:
  assumes "s \<noteq> []" and rv: "\<And>t e. length t < length s \<Longrightarrow> answers (length t) (rv t e)"
  shows "answers (length s - 1) (Element_Parse rv cw enc (Some s) err)"
proof -
  define p1 where "p1 = SkipWhiteSpace enc (Some s)"
  show ?thesis
  proof (cases "null_or_end p1 \<or> hd (the p1) \<noteq> CHR ''<''")
    case True
    then show ?thesis by (simp add: Element_Parse_def Let_def p1_def answers_Some)
  next
    case False
    then obtain s1 where s1: "p1 = Some s1" "s1 \<noteq> []" by (auto simp: null_or_end_def)
    have l1: "length s1 \<le> length s" using skip_plen [of enc "Some s"] s1(1) p1_def by simp
    define p2 where "p2 = SkipWhiteSpace enc (Some (tl s1))"
    have l2: "plen p2 \<le> length s - 1" using skip_plen [of enc "Some (tl s1)"] l1 p2_def by simp
    have ep: "Element_Parse rv cw enc (Some s) err = bindP (Some (ReadName p2)) (\<lambda>(name, p3).
        if null_or_end p3
        then Some (Inr (TiXmlElement name [] [], None, SetError TIXML_ERROR_FAILED_TO_READ_ELEMENT_NAME err))
        else bindP (Some (elem_attrs cw enc (the p3) [] err)) (\<lambda>(attrs, e, err1).
          case e of
            Finished q \<Rightarrow> Some (Inr (TiXmlElement name attrs [], q, err1))
          | Content u \<Rightarrow> bindP (rv u err1) (\<lambda>(ch, p4, err2).
              case end_tag enc name p4 err2 of (q, err3) \<Rightarrow> Some (Inr (TiXmlElement name attrs ch, q, err3)))))"
      using False s1(1) by (simp add: Element_Parse_def Let_def p1_def [symmetric] p2_def)
    show ?thesis
    proof (cases "ReadName p2")
      case (Inl f)
      then show ?thesis by (simp add: ep bindP_Some answers_Some)
    next
      case (Inr y)
      obtain name p3 where y: "ReadName p2 = Inr (name, p3)" using Inr by (cases y) auto
      show ?thesis
      proof (cases "null_or_end p3")
        case True
        then show ?thesis by (simp add: ep y bindP_Some answers_Some)
      next
        case False
        then obtain s3 where s3: "p3 = Some s3" by (auto simp: null_or_end_def)
        have l3: "length s3 < length s" using ReadName_length [OF y [unfolded s3]] l2 by (cases p2) auto
        show ?thesis
        proof (cases "elem_attrs cw enc s3 [] err")
          case (Inl f)
          then show ?thesis using False by (simp add: ep y s3 bindP_Some answers_Some)
        next
          case (Inr z)
          obtain attrs e err1 where z: "elem_attrs cw enc s3 [] err = Inr (attrs, e, err1)" using Inr by (cases z) auto
          note le = elem_attrs_length [OF z]
          show ?thesis
          proof (cases e)
            case (Finished q)
            then show ?thesis using le l3 False by (simp add: ep y s3 z bindP_Some answers_Some)
          next
            case (Content u)
            then have u: "length u < length s" using le l3 by simp
            have "answers (length s - 1) (bindP (rv u err1) (\<lambda>(ch, p4, err2).
                case end_tag enc name p4 err2 of (q, err3) \<Rightarrow> Some (Inr (TiXmlElement name attrs ch, q, err3))))"
            proof (rule answers_bindP [OF rv [OF u]])
              fix ch p4 err2 assume "plen p4 \<le> length u"
              then show "answers (length s - 1) (case (ch, p4, err2) of (ch, p4, err2) \<Rightarrow>
                  case end_tag enc name p4 err2 of (q, err3) \<Rightarrow> Some (Inr (TiXmlElement name attrs ch, q, err3)))"
                using u end_tag_plen [of enc name p4 err2] by (fastforce simp: answers_Some split: prod.splits)
            qed
            then show ?thesis using Content False by (simp add: ep y s3 z bindP_Some)
          qed
        qed
      qed
    qed
  qed
qed

lemma Node_answers:
  assumes "s \<noteq> []" and "\<And>t e. length t < length s \<Longrightarrow> answers (length t) (rv t e)"
  shows "answers (length s - 1) (Node_Parse rv cw enc k s err)"
proof -
  have less: "plen q \<le> length s - 1" if "plen q < length s" for q using that by simp
  show ?thesis
    using Element_answers [OF assms, where cw = cw and enc = enc and err = err] assms(1)
    by (cases k) (auto simp: Node_Parse_def answers_Some intro!: less
        dest: Declaration_plen Comment_plen Cdata_plen Unknown_plen)
qed

lemma ReadValue_answers: "plen pw < n \<Longrightarrow> answers (plen pw) (ReadValue n cw enc pw ch err)"
proof (induction n arbitrary: pw ch err)
  case (Suc n)
  show ?case
  proof (cases "SkipWhiteSpace enc pw")
    case None
    then show ?thesis by (simp add: answers_Some)
  next
    case (Some s)
    have l: "length s \<le> plen pw" using skip_plen [of enc pw] Some by simp
    obtain w where w: "pw = Some w" "w \<noteq> []" "s = skip_white enc w" using Some by (auto simp: SkipWhiteSpace_def split: option.splits if_splits)
    have rec: "answers (plen pw) (ReadValue n cw enc q ch' err')" if "plen q < plen pw" for q ch' err'
    proof -
      have "answers (plen q) (ReadValue n cw enc q ch' err')" using that Suc.prems by (intro Suc.IH) simp
      then show ?thesis using that by (force simp: answers_def)
    qed
    consider "s = []" | "s \<noteq> []" "hd s \<noteq> CHR ''<''" | "s \<noteq> []" "hd s = CHR ''<''" by blast
    then show ?thesis
    proof cases
      case 1
      then show ?thesis using Some by (simp add: answers_Some)
    next
      case 2
      let ?t = "if cw then s else w"
      have t: "?t \<noteq> []" "hd ?t \<noteq> CHR ''<''"
      proof -
        have "skip_white enc w = w" if "hd w = CHR ''<''"
          using that w(2) by (cases w) (auto simp: utf_lead_def IsWhiteSpace_def isspace_def)
        then show "?t \<noteq> []" "hd ?t \<noteq> CHR ''<''" using 2 w by auto
      qed
      have "plen q < plen pw" if "Text_Parse cw enc False ?t err = Inr (node, q, e)" for node q e
        using Text_plen [OF that t] l w(1) by (simp split: if_splits)
      then have "answers (plen pw) (bindP (Some (Text_Parse cw enc False ?t err)) (\<lambda>(node, q, err1).
            ReadValue n cw enc q (if Blank node then ch else ch @ [node]) err1))"
        using rec by (auto simp: bindP_Some answers_Some split: sum.splits)
      then show ?thesis using 2 Some w(1) by (cases cw) simp_all
    next
      case 3
      show ?thesis
      proof (cases "starts_with id s ''</'' \<or> Identify enc (Some s) = None")
        case True
        then show ?thesis using 3 Some l by (auto simp: answers_Some)
      next
        case False
        then obtain k where k: "Identify enc (Some s) = Some k" by auto
        have "answers (length t) (ReadValue n cw enc (Some t) [] e)" if "length t < length s" for t e
          using Suc.IH [of "Some t"] that l Suc.prems by simp
        from Node_answers [OF 3(1) this]
        have "answers (length s - 1) (Node_Parse (\<lambda>t e. ReadValue n cw enc (Some t) [] e) cw enc k s err)" .
        then have "answers (plen pw) (bindP (Node_Parse (\<lambda>t e. ReadValue n cw enc (Some t) [] e) cw enc k s err)
            (\<lambda>(node, q, err1). ReadValue n cw enc q (ch @ [node]) err1))"
        proof (rule answers_bindP)
          fix node q e assume "plen q \<le> length s - 1"
          then have "plen q < plen pw" using 3(1) l by (cases s) auto
          then show "answers (plen pw) (case (node, q, e) of (node, q, err1) \<Rightarrow> ReadValue n cw enc q (ch @ [node]) err1)"
            using rec by simp
        qed
        then show ?thesis using 3 False k Some by simp
      qed
    qed
  qed
qed simp

lemma doc_loop_returns: "plen p < n \<Longrightarrow> doc_loop n cw enc p nodes err \<noteq> None"
proof (induction n arbitrary: enc p nodes err)
  case (Suc n)
  show ?case
  proof (cases "null_or_end p \<or> Identify enc p = None")
    case False
    then obtain s k where s: "p = Some s" "s \<noteq> []" "Identify enc p = Some k" by (auto simp: null_or_end_def)
    have "answers (length t) (ReadValue n cw enc (Some t) [] e)" if "length t < length s" for t e
      using ReadValue_answers [of "Some t"] that Suc.prems s(1) by simp
    from Node_answers [where rv = "\<lambda>t e. ReadValue n cw enc (Some t) [] e", OF s(2) this, of cw enc k err]
    obtain r where r: "Node_Parse (\<lambda>t e. ReadValue n cw enc (Some t) [] e) cw enc k s err = Some r"
      "\<And>x q e. r = Inr (x, q, e) \<Longrightarrow> plen q \<le> length s - 1" by (auto simp: answers_def)
    have "doc_loop n cw enc' (SkipWhiteSpace enc' q) nodes' e \<noteq> None" if "r = Inr (x, q, e)" for x q e enc' nodes'
    proof (rule Suc.IH)
      show "plen (SkipWhiteSpace enc' q) < n"
        using r(2) [OF that] skip_plen [of enc' q] Suc.prems s(1,2) by (cases s) auto
    qed
    then show ?thesis
      using False s r(1) by (auto simp: bindP_Some Let_def split: sum.splits)
  qed auto
qed simp

lemma bindP_returns: "m \<noteq> None \<Longrightarrow> (\<And>x. f x \<noteq> None) \<Longrightarrow> bindP m f \<noteq> None"
  by (auto simp: bindP_def split: sum.splits)

lemma Document_returns:
  assumes "length s < n"
  shows "Document_Parse n cw enc s \<noteq> None"
proof (cases "s = []")
  case False
  have "plen (SkipWhiteSpace e (Some s)) < n" for e using skip_plen [of e "Some s"] assms by simp
  then have d: "doc_loop n cw e (SkipWhiteSpace e (Some s)) [] None \<noteq> None" for e by (rule doc_loop_returns)
  show ?thesis
    unfolding Document_Parse_def Let_def if_not_P [OF False]
    by (rule bindP_returns [OF d]) (simp split: prod.split)
qed (simp add: Document_Parse_def)

lemma normalize_length: "length (normalize_newlines s) \<le> length s"
  by (induction s rule: normalize_newlines.induct) (auto simp: Let_def split: if_splits)

section \<open>Properties\<close>


end
