(* ===== verification/LocalConfig.thy ===== *)
theory LocalConfig
  imports XmlDocument Logger Sockets
begin

text \<open>
  \<open>rpc/LocalConfig.h\<close> and \<open>rpc/LocalConfig.cpp\<close>: the singleton that holds the server's configuration, read from
  an XML file. Following a null pointer, of a missing node, of a node that is no element, or of an
  element without text, is undefined. What the file system holds is a parameter.
\<close>

section \<open>Operations\<close>

record LocalConfig =
  server_ip :: string
  server_port :: u16
  server_log_level :: LogLevel
  server_workers_num :: int

text \<open>The statics of the class.\<close>

record config_statics =
  config_file :: "string option"
  local_config :: "LocalConfig option"

definition SetConfigFile :: "string \<Rightarrow> config_statics \<Rightarrow> bool \<times> config_statics" where
  "SetConfigFile f st = (if config_file st = None then (True, st\<lparr>config_file := Some f\<rparr>) else (False, st))"

text \<open>\<open>atoi\<close>: white space, a sign, digits; a value that is no \<open>int\<close> is undefined.\<close>

fun atoi_digits :: "string \<Rightarrow> int \<Rightarrow> int" where
  "atoi_digits [] n = n"
| "atoi_digits (c # cs) n = (if isdigit c then atoi_digits cs (10 * n + (int (ord_of c) - 48)) else n)"

definition atoi :: "string \<Rightarrow> int res" where
  "atoi s =
     (let t = dropWhile isspace s;
          n = (if t \<noteq> [] \<and> hd t = CHR ''-'' then - atoi_digits (tl t) 0
               else if t \<noteq> [] \<and> hd t = CHR ''+'' then atoi_digits (tl t) 0
               else atoi_digits t 0)
      in if - (2 ^ 31) \<le> n \<and> n < 2 ^ 31 then Inr n else Inl Undefined)"

definition LogLevelHash :: "(string \<times> LogLevel) list" where
  "LogLevelHash = [(''TRACE'', TRACE), (''DEBUG'', DEBUG), (''INFO'', INFO), (''WARN'', WARN), (''ERROR'', LERROR), (''FATAL'', FATAL)]"

text \<open>\<open>tmp_node->ToElement()->GetText()\<close>.\<close>

definition element_text :: "TiXmlNode option \<Rightarrow> string res" where
  "element_text n =
     (case n of
        None \<Rightarrow> Inl Undefined
      | Some e \<Rightarrow> if isElement e then (case GetText e of None \<Rightarrow> Inl Undefined | Some t \<Rightarrow> Inr t) else Inl Undefined)"

definition read_config :: "TiXmlNode \<Rightarrow> LocalConfig \<Rightarrow> LocalConfig res" where
  "read_config node c =
     bindE (element_text (FirstChild ''ip'' (children node))) (\<lambda>ip.
     bindE (element_text (FirstChild ''port'' (children node))) (\<lambda>port_text.
     bindE (atoi port_text) (\<lambda>port.
     bindE (case FirstChild ''loglevel'' (children node) of
              None \<Rightarrow> Inr INFO
            | Some n \<Rightarrow> bindE (element_text (Some n)) (\<lambda>log_level.
                Inr (case map_of LogLevelHash log_level of None \<Rightarrow> INFO | Some l \<Rightarrow> l))) (\<lambda>level.
     bindE (case FirstChild ''workers'' (children node) of
              None \<Rightarrow> Inr 1
            | Some n \<Rightarrow> bindE (element_text (Some n)) atoi) (\<lambda>xml_workers_num.
     Inr (c\<lparr>server_ip := ip, server_port := word_of_int port, server_log_level := level,
       server_workers_num := (if xml_workers_num > 1 then xml_workers_num else 1)\<rparr>))))))"

text \<open>
  \<open>ReadXml\<close> on the new object \<open>c\<close>, whose port, level and workers are not initialized. \<open>files\<close> gives what a
  file holds; a null file name is undefined.
\<close>

definition ReadXml :: "(string \<Rightarrow> string option) \<Rightarrow> config_statics \<Rightarrow> LocalConfig \<Rightarrow> LocalConfig bounded" where
  "ReadXml files st c =
     (case config_file st of
        None \<Rightarrow> Some (Inl Undefined)
      | Some f \<Rightarrow>
          bindP (LoadFile (files f)) (\<lambda>doc.
          Some (if Error doc then Inl ExitFailure
                else case RootElement doc of
                  None \<Rightarrow> Inl Undefined
                | Some re \<Rightarrow>
                    (case FirstChild ''LocalConfig'' (children re) of
                       None \<Rightarrow> Inr c
                     | Some node \<Rightarrow> read_config node c))))"

definition GetInstance ::
  "(string \<Rightarrow> string option) \<Rightarrow> LocalConfig \<Rightarrow> config_statics \<Rightarrow> (LocalConfig \<times> config_statics) bounded" where
  "GetInstance files c st =
     (case local_config st of
        Some cfg \<Rightarrow> Some (Inr (cfg, st))
      | None \<Rightarrow> bindP (ReadXml files st c) (\<lambda>cfg. Some (Inr (cfg, st\<lparr>local_config := Some cfg\<rparr>))))"

section \<open>Reading simple documents\<close>

text \<open>
  A document as a user writes it: elements with plain text, without white space, markup or entities.
\<close>

definition plain_char :: "char \<Rightarrow> bool" where
  "plain_char c \<longleftrightarrow> 33 \<le> ord_of c \<and> ord_of c < 127 \<and> c \<noteq> CHR ''<'' \<and> c \<noteq> CHR ''&''"

definition plain :: "string \<Rightarrow> bool" where
  "plain v \<longleftrightarrow> v \<noteq> [] \<and> list_all plain_char v"

definition element :: "string \<Rightarrow> string \<Rightarrow> string" where
  "element n content = ''<'' @ n @ ''>'' @ content @ ''</'' @ n @ ''>''"

lemma plain_GetChar: "plain_char c \<Longrightarrow> GetChar enc (c # s) = Inr ([c], Some s)"
  by (auto simp: GetChar_def plain_char_def utf8ByteTable_def)

lemma plain_not_white: "plain_char c \<Longrightarrow> \<not> IsWhiteSpace c"
  by (auto simp: plain_char_def IsWhiteSpace_def isspace_def)

lemma read_plain:
  "list_all plain_char v \<Longrightarrow> read_condense enc False ''<'' (v @ CHR ''<'' # r) acc False = Inr (acc @ v, Some (CHR ''<'' # r))"
proof (induction v arbitrary: acc)
  case Nil
  show ?case by (simp add: read_condense.simps StringEqual_def)
next
  case (Cons c v)
  then have c: "c \<noteq> CHR ''<''" by (auto simp: plain_char_def)
  show ?case
    using Cons c plain_GetChar plain_not_white by (subst read_condense.simps) (simp add: StringEqual_def)
qed

lemma Text_plain:
  assumes "plain v" and "r \<noteq> []"
  shows "Text_Parse True enc False (v @ CHR ''<'' # r) err = Inr (TiXmlText False v, Some (CHR ''<'' # r), err)"
proof -
  obtain c w where v: "v = c # w" "plain_char c" using assms(1) by (cases v) (auto simp: plain_def)
  have "c \<noteq> CHR ''<''" "33 \<le> ord_of c" "ord_of c < 127" using v(2) by (auto simp: plain_char_def)
  moreover have "read_condense enc False ''<'' (v @ CHR ''<'' # r) [] False = Inr (v, Some (CHR ''<'' # r))"
    using read_plain [of v enc r "[]"] assms(1) by (simp add: plain_def)
  ultimately show ?thesis
    using assms(2) v(1)
    by (simp add: Text_Parse_def StringEqual_def ReadText_def skip_char after_tag_def)
qed

text \<open>An element whose content a reader understands.\<close>

lemma Element_good:
  assumes "good_name n" and "rv (content @ ''</'' @ n @ ''>'' @ rest) err = Some (Inr (ch, Some (''</'' @ n @ ''>'' @ rest), err'))"
  shows "Element_Parse rv cw enc (Some (element n content @ rest)) err = Some (Inr (TiXmlElement n [] ch, Some rest, err'))"
  using name_read(2) [OF assms(1) markup_no_name(1), of enc "content @ ''</'' @ n @ ''>'' @ rest"]
    name_read(1) [OF assms(1) markup_no_name(1), of "content @ ''</'' @ n @ ''>'' @ rest"] assms(2) end_tag_found [of enc n rest err']
  by (simp add: Element_Parse_def element_def null_or_end_def bindP_def start_tag_end)

lemma ReadValue_end: "ReadValue (Suc k) cw enc (Some (''</'' @ r)) ch err = Some (Inr (ch, Some (''</'' @ r), err))"
  by simp

lemma ReadValue_text:
  assumes "plain v"
  shows "ReadValue (Suc (Suc k)) True enc (Some (v @ ''</'' @ r)) [] err =
    Some (Inr ([TiXmlText False v], Some (''</'' @ r), err))"
proof -
  obtain c w where v: "v = c # w" "plain_char c" using assms by (cases v) (auto simp: plain_def)
  have c: "c \<noteq> CHR ''<''" "33 \<le> ord_of c" "ord_of c < 127" using v(2) by (auto simp: plain_char_def)
  have s: "SkipWhiteSpace enc (Some (v @ ''</'' @ r)) = Some (v @ ''</'' @ r)" using v(1) c by (simp add: skip_char)
  have "\<not> Blank (TiXmlText False v)" using v plain_not_white by (simp add: Blank_def)
  then show ?thesis
    using s v(1) c(1) Text_plain [OF assms, of "CHR ''/'' # r" enc err] ReadValue_end [of k True enc r "[TiXmlText False v]" err]
    by (simp add: bindP_Some del: ReadValue.simps(1)) 
qed

lemma Identify_element:
  assumes "good_name n"
  shows "Identify enc (Some (element n content @ rest)) = Some KElement" "\<not> starts_with id (element n content @ rest) ''</''"
proof -
  obtain c w where n: "n = c # w" using assms by (cases n) (auto simp: good_name_def)
  have c: "isalpha c" "ord_of c < 127" using assms n by (auto simp: good_name_def)
  have "65 \<le> ord_of (ToLower c)" using c by (auto simp: isalpha_def ToLower_def)
  then have "ToLower c \<noteq> CHR ''?''" by auto
  moreover have "c \<noteq> CHR ''!''" "c \<noteq> CHR ''/''" using c(1) by (auto simp: isalpha_def)
  moreover have "ToLower CHR ''?'' = CHR ''?''" by (simp add: ToLower_def)
  ultimately show "Identify enc (Some (element n content @ rest)) = Some KElement" "\<not> starts_with id (element n content @ rest) ''</''"
    using n c by (simp_all add: Identify_def element_def IsAlpha_def)
qed

lemma ReadValue_element:
  assumes "good_name n"
    and "ReadValue k True enc (Some (content @ ''</'' @ n @ ''>'' @ rest)) [] err =
      Some (Inr (ch, Some (''</'' @ n @ ''>'' @ rest), err))"
  shows "ReadValue (Suc k) True enc (Some (element n content @ rest)) acc err =
    ReadValue k True enc (Some rest) (acc @ [TiXmlElement n [] ch]) err"
proof -
  let ?rv = "\<lambda>t e. ReadValue k True enc (Some t) [] e"
  have e: "Element_Parse ?rv True enc (Some (element n content @ rest)) err = Some (Inr (TiXmlElement n [] ch, Some rest, err))"
    by (rule Element_good [where rv = ?rv, OF assms])
  have el: "\<exists>r. element n content @ rest = CHR ''<'' # r" by (simp add: element_def)
  then have "SkipWhiteSpace enc (Some (element n content @ rest)) = Some (element n content @ rest)" by auto
  then show ?thesis
    using e Identify_element [OF assms(1)] el by (auto simp: Node_Parse_def bindP_def)
qed

definition fields :: "(string \<times> string) list \<Rightarrow> string" where
  "fields fs = concat (map (\<lambda>(n, v). element n v) fs)"

definition field_nodes :: "(string \<times> string) list \<Rightarrow> TiXmlNode list" where
  "field_nodes fs = map (\<lambda>(n, v). TiXmlElement n [] [TiXmlText False v]) fs"

lemma ReadValue_fields:
  assumes "\<forall>(n, v) \<in> set fs. good_name n \<and> plain v"
  shows "ReadValue (length fs + Suc (Suc k)) True enc (Some (fields fs @ tail)) acc err =
    ReadValue (Suc (Suc k)) True enc (Some tail) (acc @ field_nodes fs) err"
  using assms
proof (induction fs arbitrary: acc)
  case Nil
  then show ?case by (simp add: fields_def field_nodes_def)
next
  case (Cons f fs)
  obtain n v where f: "f = (n, v)" by (cases f)
  let ?rest = "fields fs @ tail" and ?k = "length fs + Suc (Suc k)"
  have "ReadValue ?k True enc (Some (v @ ''</'' @ n @ ''>'' @ ?rest)) [] err =
      Some (Inr ([TiXmlText False v], Some (''</'' @ n @ ''>'' @ ?rest), err))"
    using ReadValue_text [of v "length fs + k" enc "n @ ''>'' @ ?rest" err] Cons.prems f by simp
  from ReadValue_element [OF _ this, of acc] Cons.prems f
  have "ReadValue (Suc ?k) True enc (Some (element n v @ ?rest)) acc err =
      ReadValue ?k True enc (Some ?rest) (acc @ [TiXmlElement n [] [TiXmlText False v]]) err" by simp
  then show ?case
    using Cons.IH [of "acc @ [TiXmlElement n [] [TiXmlText False v]]"] Cons.prems f
    by (simp add: fields_def field_nodes_def)
qed

section \<open>Numbers\<close>

lemma atoi_digits_fold:
  "list_all isdigit s \<Longrightarrow> atoi_digits s (int n) = int (foldl (\<lambda>n c. 10 * n + (ord_of c - 48)) n s)"
proof (induction s arbitrary: n)
  case (Cons c s)
  have "atoi_digits (c # s) (int n) = atoi_digits s (int (10 * n + (ord_of c - 48)))"
    using Cons.prems by (simp add: isdigit_def of_nat_diff algebra_simps)
  also have "\<dots> = int (foldl (\<lambda>n c. 10 * n + (ord_of c - 48)) (10 * n + (ord_of c - 48)) s)"
    by (rule Cons.IH) (use Cons.prems in simp)
  finally show ?case by simp
qed simp

lemma dec_nat_isdigit: "list_all isdigit (dec_nat n)"
  by (auto simp: list_all_iff isdigit_def dest!: dec_nat_digits)

lemma dec_nat_plain: "plain (dec_nat n)"
proof -
  have "plain_char c" if d: "isdigit c" for c using d by (auto simp: isdigit_def plain_char_def)
  moreover have "dec_nat n \<noteq> []" by (subst dec_nat.simps) simp
  ultimately show ?thesis using dec_nat_isdigit [of n] by (auto simp: plain_def list_all_iff)
qed

lemma atoi_dec_nat:
  assumes "n < 2 ^ 31"
  shows "atoi (dec_nat n) = Inr (int n)"
proof -
  obtain c s where s: "dec_nat n = c # s" using dec_nat_plain [of n] by (cases "dec_nat n") (auto simp: plain_def)
  then have c: "isdigit c" using dec_nat_isdigit [of n] by simp
  then have "\<not> isspace c" "c \<noteq> CHR ''-''" "c \<noteq> CHR ''+''" by (auto simp: isdigit_def isspace_def)
  moreover have "atoi_digits (dec_nat n) 0 = int n"
    using atoi_digits_fold [OF dec_nat_isdigit, of n 0] value_of_dec_nat [of n] by (simp add: value_of_def)
  ultimately show ?thesis using s assms by (simp add: atoi_def Let_def)
qed

section \<open>The configuration file\<close>

definition config_text :: "string \<Rightarrow> (string \<times> string) list \<Rightarrow> string" where
  "config_text rt fs = element rt (element ''LocalConfig'' (fields fs))"

definition config_fields_ok :: "(string \<times> string) list \<Rightarrow> bool" where
  "config_fields_ok fs \<longleftrightarrow> list_all (\<lambda>(n, v). good_name n \<and> plain v) fs"

lemma normalize_id: "\<forall>c \<in> set s. 33 \<le> ord_of c \<Longrightarrow> normalize_newlines s = s"
proof (induction s)
  case (Cons c s)
  then have "c \<noteq> CHR 0x00" "c \<noteq> CHR 0x0D" by auto
  then show ?case using Cons by simp
qed simp

lemma good_name_chars: "good_name n \<Longrightarrow> c \<in> set n \<Longrightarrow> 33 \<le> ord_of c"
  by (auto simp: good_name_def list_all_iff name_char_def IsAlphaNum_def isalpha_def isdigit_def split: if_splits)

lemma element_chars:
  assumes "good_name n" and "\<forall>c \<in> set v. 33 \<le> ord_of c"
  shows "\<forall>c \<in> set (element n v). 33 \<le> ord_of c"
  using assms good_name_chars [OF assms(1)] by (auto simp: element_def)

lemma fields_chars: "config_fields_ok fs \<Longrightarrow> \<forall>c \<in> set (fields fs). 33 \<le> ord_of c"
proof (induction fs)
  case (Cons f fs)
  obtain n v where f: "f = (n, v)" by (cases f)
  have "\<forall>c \<in> set v. 33 \<le> ord_of c" using Cons.prems f by (auto simp: config_fields_ok_def plain_def plain_char_def list_all_iff)
  then show ?case using Cons element_chars [of n v] f by (auto simp: config_fields_ok_def fields_def)
qed (simp add: fields_def)

lemma LocalConfig_name: "good_name ''LocalConfig''"
  by (simp add: good_name_def name_char_def IsAlphaNum_def isalpha_def)

lemma fields_length: "length fs \<le> length (fields fs)"
  by (induction fs) (auto simp: fields_def element_def split: prod.split)

lemma doc_single:
  assumes "t \<noteq> []" and "Identify enc (Some t) = Some KElement"
    and "Element_Parse (\<lambda>t e. ReadValue (Suc m) True enc (Some t) [] e) True enc (Some t) None =
      Some (Inr (TiXmlElement n a ch, Some [], None))"
  shows "doc_loop (Suc (Suc m)) True enc (Some t) [] None = Some (Inr ([TiXmlElement n a ch], None))"
  using assms
  by (simp add: null_or_end_def Node_Parse_def bindP_def doc_encoding_def SkipWhiteSpace_def del: ReadValue.simps)

lemma load_config_text:
  assumes "good_name rt" and "config_fields_ok fs"
  shows "LoadFile (Some (config_text rt fs)) = Some (Inr \<lparr>doc_nodes = [TiXmlElement rt [] [TiXmlElement ''LocalConfig'' [] (field_nodes fs)]],
    doc_error = None, useMicrosoftBOM = False\<rparr>)"
proof -
  let ?t = "config_text rt fs" and ?lc = "element ''LocalConfig'' (fields fs)" and ?enc = TIXML_ENCODING_UNKNOWN
  have ok: "\<forall>(n, v) \<in> set fs. good_name n \<and> plain v" using assms(2) by (auto simp: config_fields_ok_def list_all_iff)
  have norm: "normalize_newlines ?t = ?t"
    unfolding config_text_def
    by (intro normalize_id element_chars assms(1) LocalConfig_name fields_chars assms(2))
  obtain j where j: "length ?t + 1 = Suc (length fs + Suc (Suc j))"
    using fields_length [of fs] by (auto simp: config_text_def element_def intro: that [of "length ?t - length fs - 2"])
  have lc: "ReadValue (length fs + Suc (Suc j)) True ?enc (Some (fields fs @ ''</'' @ ''LocalConfig'' @ ''>'' @ ''</'' @ rt @ ''>'')) [] None =
      Some (Inr (field_nodes fs, Some (''</'' @ ''LocalConfig'' @ ''>'' @ ''</'' @ rt @ ''>''), None))"
    using ReadValue_fields [OF ok, of j ?enc "''</'' @ ''LocalConfig'' @ ''>'' @ ''</'' @ rt @ ''>''" "[]" None]
      ReadValue_end [of "Suc j" True ?enc "''LocalConfig'' @ ''>'' @ ''</'' @ rt @ ''>''" "field_nodes fs" None] by simp
  have rv: "ReadValue (length ?t + 1) True ?enc (Some (?lc @ ''</'' @ rt @ ''>'' @ [])) [] None =
      Some (Inr ([TiXmlElement ''LocalConfig'' [] (field_nodes fs)], Some (''</'' @ rt @ ''>'' @ []), None))"
    using ReadValue_element [OF LocalConfig_name lc, of "[]"]
      ReadValue_end [of "length fs + Suc j" True ?enc "rt @ ''>''" "[TiXmlElement ''LocalConfig'' [] (field_nodes fs)]" None]
    unfolding j by simp
  have el: "Element_Parse (\<lambda>t e. ReadValue (length ?t + 1) True ?enc (Some t) [] e) True ?enc (Some (?t @ [])) None =
      Some (Inr (TiXmlElement rt [] [TiXmlElement ''LocalConfig'' [] (field_nodes fs)], Some [], None))"
    unfolding config_text_def
    by (rule Element_good [where rv = "\<lambda>t e. ReadValue (length ?t + 1) True ?enc (Some t) [] e", OF assms(1) rv, unfolded config_text_def])
  have hd: "\<exists>r. ?t = CHR ''<'' # r" by (simp add: config_text_def element_def)
  then have sk: "SkipWhiteSpace ?enc (Some ?t) = Some ?t" "?t \<noteq> []" "map ord_of (take 3 ?t) \<noteq> [0xef, 0xbb, 0xbf]" by auto
  have id: "Identify ?enc (Some ?t) = Some KElement"
    using Identify_element(1) [OF assms(1), of ?enc ?lc "[]"] by (simp add: config_text_def)
  have "doc_loop (Suc (Suc (length ?t))) True ?enc (Some ?t) [] None =
      Some (Inr ([TiXmlElement rt [] [TiXmlElement ''LocalConfig'' [] (field_nodes fs)]], None))"
    by (rule doc_single [OF sk(2) id]) (use el in \<open>simp del: ReadValue.simps\<close>)
  then show ?thesis
    using norm sk by (simp add: LoadFile_def Document_Parse_def Let_def bindP_def del: doc_loop.simps)
qed

text \<open>What the reader finds in such a document.\<close>

lemma cstr_id: "(\<And>c. c \<in> set s \<Longrightarrow> 33 \<le> ord_of c) \<Longrightarrow> cstr s = s"
  by (induction s) (force simp: cstr_def)+

lemma name_cstr: "good_name n \<Longrightarrow> cstr n = n"
  by (rule cstr_id) (rule good_name_chars)

lemma plain_cstr: "plain v \<Longrightarrow> cstr v = v"
  by (rule cstr_id) (auto simp: plain_def plain_char_def list_all_iff)

lemma FirstChild_fields:
  assumes "config_fields_ok fs"
  shows "FirstChild x (field_nodes fs) = map_option (\<lambda>v. TiXmlElement x [] [TiXmlText False v]) (map_of fs x)"
  using assms
proof (induction fs)
  case (Cons f fs)
  then show ?case by (cases f) (auto simp: FirstChild_def field_nodes_def config_fields_ok_def name_cstr)
qed (simp add: FirstChild_def field_nodes_def)

lemma field_text:
  assumes "config_fields_ok fs" and "map_of fs x = Some v"
  shows "element_text (Some (TiXmlElement x [] [TiXmlText False v])) = Inr v"
proof -
  have "plain v" using assms map_of_SomeD [OF assms(2)] by (auto simp: config_fields_ok_def list_all_iff)
  then show ?thesis by (simp add: element_text_def GetText_def plain_cstr)
qed

text \<open>What is read: the level, the number of workers, and the whole.\<close>

definition config_level :: "(string \<times> string) list \<Rightarrow> LogLevel" where
  "config_level fs = (case map_of fs ''loglevel'' of None \<Rightarrow> INFO | Some l \<Rightarrow> case map_of LogLevelHash l of None \<Rightarrow> INFO | Some x \<Rightarrow> x)"

definition config_workers :: "nat option \<Rightarrow> int" where
  "config_workers w = (case w of None \<Rightarrow> 1 | Some n \<Rightarrow> max 1 (int n))"

definition config_made :: "LocalConfig \<Rightarrow> string \<Rightarrow> nat \<Rightarrow> (string \<times> string) list \<Rightarrow> nat option \<Rightarrow> LocalConfig" where
  "config_made c ip port fs w = c\<lparr>server_ip := ip, server_port := of_nat port, server_log_level := config_level fs,
     server_workers_num := config_workers w\<rparr>"

lemma config_made_simps [simp]:
  "server_ip (config_made c ip port fs w) = ip" "server_port (config_made c ip port fs w) = of_nat port"
  "server_log_level (config_made c ip port fs w) = config_level fs" "server_workers_num (config_made c ip port fs w) = config_workers w"
  by (simp_all add: config_made_def)

lemma read_config_fields:
  assumes "config_fields_ok fs" and "map_of fs ''ip'' = Some ip" and "map_of fs ''port'' = Some (dec_nat port)"
    and "port < 65536" and "map_of fs ''workers'' = map_option dec_nat w" and "\<forall>n. w = Some n \<longrightarrow> n < 2 ^ 31"
  shows "read_config (TiXmlElement ''LocalConfig'' [] (field_nodes fs)) c = Inr (config_made c ip port fs w)"
proof -
  note field = FirstChild_fields [OF assms(1)] and tx = field_text [OF assms(1)]
  have p: "atoi (dec_nat port) = Inr (int port)" using assms(4) by (intro atoi_dec_nat) simp
  have w: "(case FirstChild ''workers'' (field_nodes fs) of None \<Rightarrow> Inr 1 | Some n \<Rightarrow> bindE (element_text (Some n)) atoi) =
      Inr (case w of None \<Rightarrow> 1 | Some n \<Rightarrow> int n)"
    using assms(5,6) tx [of "''workers''"] atoi_dec_nat by (cases w) (simp_all add: field)
  have l: "(case FirstChild ''loglevel'' (field_nodes fs) of None \<Rightarrow> Inr INFO
      | Some n \<Rightarrow> bindE (element_text (Some n)) (\<lambda>log_level. Inr (case map_of LogLevelHash log_level of None \<Rightarrow> INFO | Some l \<Rightarrow> l))) =
      Inr (config_level fs)"
    using tx [of "''loglevel''"] by (cases "map_of fs ''loglevel''") (simp_all add: field config_level_def)
  have "(if (case w of None \<Rightarrow> 1 | Some n \<Rightarrow> int n) > 1 then (case w of None \<Rightarrow> 1 | Some n \<Rightarrow> int n) else 1) = config_workers w"
    by (simp add: config_workers_def split: option.split)
  then show ?thesis
    unfolding read_config_def children.simps w l
    using tx [OF assms(2)] tx [OF assms(3)] assms(2,3) p by (simp add: field config_made_def)
qed

lemma instance_read:
  assumes "good_name rt" and "config_fields_ok fs" and "map_of fs ''ip'' = Some ip" and "map_of fs ''port'' = Some (dec_nat port)"
    and "port < 65536" and "map_of fs ''workers'' = map_option dec_nat w" and "\<forall>n. w = Some n \<longrightarrow> n < 2 ^ 31"
    and "files cfg = Some (config_text rt fs)" and "config_file st = Some cfg" and "local_config st = None"
  shows "GetInstance files c st = Some (Inr (config_made c ip port fs w, st\<lparr>local_config := Some (config_made c ip port fs w)\<rparr>))"
proof -
  let ?lc = "TiXmlElement ''LocalConfig'' [] (field_nodes fs)"
  have "FirstChild ''LocalConfig'' [?lc] = Some ?lc" using LocalConfig_name by (simp add: FirstChild_def name_cstr)
  then have "ReadXml files st c = Some (Inr (config_made c ip port fs w))"
    using assms(8,9) load_config_text [OF assms(1,2)] read_config_fields [OF assms(2-7), of c]
    by (simp add: ReadXml_def bindP_def Error_def RootElement_def FirstChildElement_def)
  then show ?thesis using assms(10) by (simp add: GetInstance_def bindP_def)
qed

lemma unat_port: "port < 65536 \<Longrightarrow> unat (of_nat port :: u16) = port"
  by (simp add: unsigned_of_nat take_bit_nat_eq_self)

section \<open>Properties\<close>

text \<open>
  The configuration file is read. From a file with any root element around \<open>LocalConfig\<close> and, in
  it, elements with plain text in any order, the first \<open>ip\<close> and \<open>port\<close> among them, the parser builds the
  document and the configuration has that address and that port; the level is the one named by
  \<open>loglevel\<close>, \<open>INFO\<close> when there is none or its name is unknown; the number of workers is the one given,
  but at least one, and one when it is missing. The instance is remembered, and a second request
  returns it without reading the file again.
\<close>

theorem config_is_read:
  assumes "good_name rt" and "config_fields_ok fs" and "map_of fs ''ip'' = Some ip" and "map_of fs ''port'' = Some (dec_nat port)"
    and "port < 65536" and "map_of fs ''workers'' = map_option dec_nat workers" and "\<forall>w. workers = Some w \<longrightarrow> w < 2 ^ 31"
    and "files cfg = Some (config_text rt fs)" and "config_file st = Some cfg" and "local_config st = None"
  shows "\<exists>c st'. GetInstance files c0 st = Some (Inr (c, st')) \<and> server_ip c = ip \<and> unat (server_port c) = port \<and>
    server_log_level c = (case map_of fs ''loglevel'' of None \<Rightarrow> INFO | Some l \<Rightarrow> case map_of LogLevelHash l of None \<Rightarrow> INFO | Some x \<Rightarrow> x) \<and>
    server_workers_num c = (case workers of None \<Rightarrow> 1 | Some w \<Rightarrow> max 1 (int w)) \<and>
    GetInstance files' c1 st' = Some (Inr (c, st'))"
  unfolding instance_read [where files = files and cfg = cfg, OF assms] config_level_def [symmetric] config_workers_def [symmetric]
  by (simp add: unat_port [OF assms(5)] GetInstance_def)

theorem config_is_read_witness:
  "\<exists>c st'. GetInstance (\<lambda>_. Some (config_text ''Server'' [(''ip'', ''127.0.0.1''), (''port'', ''80''), (''loglevel'', ''WARN''), (''workers'', ''3'')]))
       \<lparr>server_ip = [], server_port = 0, server_log_level = TRACE, server_workers_num = 0\<rparr>
       \<lparr>config_file = Some ''localconfig.xml'', local_config = None\<rparr> = Some (Inr (c, st')) \<and>
     server_ip c = ''127.0.0.1'' \<and> unat (server_port c) = 80 \<and> server_log_level c = WARN \<and> server_workers_num c = 3"
proof -
  let ?fs = "[(''ip'', ''127.0.0.1''), (''port'', ''80''), (''loglevel'', ''WARN''), (''workers'', ''3'')]"
  let ?c0 = "\<lparr>server_ip = [], server_port = 0, server_log_level = TRACE, server_workers_num = 0\<rparr>"
  let ?st = "\<lparr>config_file = Some ''localconfig.xml'', local_config = None\<rparr>"
  have n: "dec_nat 80 = ''80''" "dec_nat 3 = ''3''" by code_simp+
  have "good_name ''Server''" "config_fields_ok ?fs" by code_simp+
  moreover have "map_of ?fs ''ip'' = Some ''127.0.0.1''" "map_of ?fs ''port'' = Some (dec_nat 80)"
    "map_of ?fs ''workers'' = map_option dec_nat (Some 3)" "map_of ?fs ''loglevel'' = Some ''WARN''" by (simp_all add: n)
  moreover have "map_of LogLevelHash ''WARN'' = Some WARN" by (simp add: LogLevelHash_def)
  ultimately show ?thesis
    using config_is_read [of "''Server''" ?fs "''127.0.0.1''" 80 "Some 3" "\<lambda>_. Some (config_text ''Server'' ?fs)" "''localconfig.xml''" ?st ?c0
        "\<lambda>_. None" ?c0] by auto
qed

end
