(* ===== verification/RpcService.thy ===== *)
theory RpcService
  imports RpcFrame TcpServer LocalConfig ThreadPool EventLoop
begin

text \<open>
  \<open>rpc/RpcService.h\<close> with \<open>start\<close> and the destructor of \<open>rpc/RpcFrame.cpp\<close>: a server is configured from
  a file, gets its services and is started, which starts the workers, lets the acceptor listen and
  enters the loop. What the kernel answers is a parameter: \<open>sock\<close>, \<open>idle\<close>, \<open>bind\<close> and \<open>lr\<close> are the results
  of \<open>socket\<close>, \<open>open\<close>, \<open>bind\<close> and \<open>listen\<close>.
\<close>

section \<open>Operations\<close>

text \<open>The only task of the frame's pool is its initialization, \<open>RpcFrame::workerLoop\<close>.\<close>

datatype pool_task = WorkerLoop

record RpcService =
  rs_config :: LocalConfig
  rs_listenLoop :: "unit EventLoop"
  rs_listenAddr :: sockaddr
  rs_toWorkersIO :: TcpServer
  rs_frame :: RpcFrame
  rs_pool :: "pool_task ThreadPool"

text \<open>
  The constructor, on thread \<open>t\<close>. It returns the object, the statics of the configuration and the new
  log level of the process.
\<close>

definition newRpcService ::
  "(string \<Rightarrow> string option) \<Rightarrow> LocalConfig \<Rightarrow> fd Sockets.sys \<Rightarrow> fd \<Rightarrow> (sockaddr \<Rightarrow> nat \<Rightarrow> unit Sockets.sys) \<Rightarrow> host_order \<Rightarrow>
   (byte list \<Rightarrow> string) \<Rightarrow> tid \<Rightarrow> string \<Rightarrow> config_statics \<Rightarrow> (RpcService \<times> config_statics \<times> LogLevel) bounded" where
  "newRpcService files c0 sock idle bind h ntop6 t cfg st =
     (case SetConfigFile cfg st of (ok, st1) \<Rightarrow>
        if \<not> ok then Some (Inl AssertFail)
        else bindP (GetInstance files c0 st1) (\<lambda>(c, st2).
          let listenAddr = InetAddress_ip h (server_ip c) (server_port c) False in
          Some (bindE (newTcpServer t sock idle bind h ntop6 listenAddr ''reactor_in_io'' False) (\<lambda>sv.
            Inr (\<lparr>rs_config = c, rs_listenLoop = newEventLoop t, rs_listenAddr = listenAddr, rs_toWorkersIO = sv,
                   rs_frame = newRpcFrame, rs_pool = newThreadPool\<rparr>, st2, server_log_level c)))))"

definition rs_registerService :: "byte list \<Rightarrow> (byte list \<rightharpoonup> rpc_method) \<Rightarrow> RpcService \<Rightarrow> RpcService" where
  "rs_registerService srv_name sv s = s\<lparr>rs_frame := registerService srv_name sv (rs_frame s)\<rparr>"

text \<open>
  \<open>RpcFrame::start\<close> up to the first round of the loop. \<open>None\<close>: without workers the pool calls
  \<open>workerLoop\<close> on this thread, where it runs as long as \<open>_running\<close> is set, and nothing behind it happens.
\<close>

definition RpcFrame_start :: "(nat \<Rightarrow> nat) \<Rightarrow> unit Sockets.sys \<Rightarrow> tid \<Rightarrow> RpcService \<Rightarrow> RpcService option res" where
  "RpcFrame_start mk lr t s =
     assertE (\<not> f_running (rs_frame s))
       (let s1 = s\<lparr>rs_frame := (rs_frame s)\<lparr>f_running := True\<rparr>\<rparr>;
            n = f_threadNums (rs_frame s1) in
        bindE (ThreadPool_start n (setMaxQueueSize 50 (setThreadInitCallback WorkerLoop (rs_pool s1)))) (\<lambda>pool.
        if n = 0 then Inr None
        else bindE (TcpServer_start mk False lr t (rs_toWorkersIO s1)) (\<lambda>sv.
             bindE (loop_enter t (rs_listenLoop s1)) (\<lambda>lp.
             Inr (Some (s1\<lparr>rs_pool := pool, rs_toWorkersIO := sv, rs_listenLoop := lp\<rparr>))))))"

definition RpcService_start :: "(nat \<Rightarrow> nat) \<Rightarrow> unit Sockets.sys \<Rightarrow> tid \<Rightarrow> RpcService \<Rightarrow> RpcService option res" where
  "RpcService_start mk lr t s =
     bindE (setWorkers (server_workers_num (rs_config s)) (rs_frame s)) (\<lambda>f.
     RpcFrame_start mk lr t (s\<lparr>rs_frame := f\<rparr>))"

text \<open>The destructor of the frame; \<open>None\<close> while a worker has not left its loop.\<close>

definition destroyRpcFrame :: "RpcService \<Rightarrow> RpcService option res" where
  "destroyRpcFrame s =
     (let s1 = s\<lparr>rs_frame := (rs_frame s)\<lparr>f_running := False\<rparr>\<rparr> in
      bindE (ThreadPool_stop (rs_pool s1)) (\<lambda>r. Inr (map_option (\<lambda>pool. s1\<lparr>rs_pool := pool\<rparr>) r)))"

section \<open>Starting\<close>

text \<open>The services are registered in the order of the list; a later one replaces an earlier one of its name.\<close>

definition register_all :: "(byte list \<times> (byte list \<rightharpoonup> rpc_method)) list \<Rightarrow> RpcService \<Rightarrow> RpcService" where
  "register_all svs s = fold (\<lambda>(n, sv). rs_registerService n sv) svs s"

lemma register_all_eq:
  "register_all svs s = s\<lparr>rs_frame := (rs_frame s)\<lparr>f_services := f_services (rs_frame s) ++ map_of (rev svs)\<rparr>\<rparr>"
proof (induction svs arbitrary: s)
  case (Cons x svs)
  obtain n sv where x: "x = (n, sv)" by (cases x)
  have "register_all (x # svs) s = register_all svs (rs_registerService n sv s)" by (simp add: register_all_def x)
  also have "\<dots> = s\<lparr>rs_frame := (rs_frame s)\<lparr>f_services := (f_services (rs_frame s))(n \<mapsto> sv) ++ map_of (rev svs)\<rparr>\<rparr>"
    unfolding Cons.IH by (simp add: rs_registerService_def registerService_def)
  finally show ?case by (simp add: x map_add_assoc)
qed (simp add: register_all_def)

lemma service_made:
  assumes "good_name rt" and "config_fields_ok fs" and "map_of fs ''ip'' = Some (inet_ntop4 ip)" and "length ip = 4"
    and "map_of fs ''port'' = Some (dec_nat port)" and "port < 65536"
    and "map_of fs ''workers'' = map_option dec_nat w" and "\<forall>n. w = Some n \<longrightarrow> n < 2 ^ 31"
    and "files cfg = Some (config_text rt fs)" and "config_file st = None" and "local_config st = None"
    and "0 \<le> idle" and "bind (Sockaddr_in (hostToNetwork16 h (of_nat port)) ip) sockaddr_len = Inr ()"
  obtains s st' where "newRpcService files c0 (Inr sockfd) idle bind h ntop6 t cfg st = Some (Inr (s, st', config_level fs))"
    "config_file st' = Some cfg" "rs_config s = config_made c0 (inet_ntop4 ip) port fs w" "rs_frame s = newRpcFrame"
    "rs_pool s = newThreadPool" "rs_listenLoop s = newEventLoop t" "rs_listenAddr s = Sockaddr_in (hostToNetwork16 h (of_nat port)) ip"
    "sv_ipPort (rs_toWorkersIO s) = inet_ntop4 ip @ '':'' @ dec_nat port" "sv_threadPool (rs_toWorkersIO s) = newEventLoopThreadPool 0 t"
    "ac_tid (sv_acceptor (rs_toWorkersIO s)) = t" "\<not> m_listenning (sv_acceptor (rs_toWorkersIO s))"
proof -
  let ?c = "config_made c0 (inet_ntop4 ip) port fs w" and ?st = "st\<lparr>config_file := Some cfg\<rparr>"
  have inst: "GetInstance files c0 ?st = Some (Inr (?c, ?st\<lparr>local_config := Some ?c\<rparr>))"
    by (rule instance_read [where rt = rt and cfg = cfg]) (use assms in simp_all)
  let ?a = "Sockaddr_in (hostToNetwork16 h (of_nat port)) ip"
  obtain sv where sv: "newTcpServer t (Inr sockfd) idle bind h ntop6 ?a ''reactor_in_io'' False = Inr sv"
      "sv_ipPort sv = inet_ntop4 ip @ '':'' @ dec_nat port" "sv_threadPool sv = newEventLoopThreadPool 0 t"
      "ac_tid (sv_acceptor sv) = t" "\<not> m_listenning (sv_acceptor sv)"
    using ip_port_text(2) [OF assms(4), of h ntop6 "of_nat port"] assms(12,13) unat_port [OF assms(6)]
    by (simp add: newTcpServer_def newAcceptor_def createNonblockingOrDie_def bindOrDie_def Let_def setNewConnectionCallBack_def)
  show thesis
    by (rule that [of "\<lparr>rs_config = ?c, rs_listenLoop = newEventLoop t, rs_listenAddr = ?a, rs_toWorkersIO = sv,
            rs_frame = newRpcFrame, rs_pool = newThreadPool\<rparr>" "?st\<lparr>local_config := Some ?c\<rparr>"])
      (use inst sv assms(10) ip_port_text(1) [OF assms(4), of h "of_nat port" False]
        in \<open>simp_all add: newRpcService_def SetConfigFile_def bindP_def Let_def\<close>)
qed

lemma pool_starts:
  assumes "0 < n"
  shows "\<exists>p. ThreadPool_start n (setMaxQueueSize 50 (setThreadInitCallback cb newThreadPool)) = Inr p \<and>
    length (tp_threads p) = nat n \<and> list_all m_isStarted (tp_threads p) \<and> list_all (\<lambda>t. \<not> m_isJoined t) (tp_threads p) \<and>
    workers p = replicate (nat n) Init \<and> tp_init p = Some cb"
  using assms
  by (simp add: ThreadPool_start_def add_threads setMaxQueueSize_def setThreadInitCallback_def newThreadPool_def list_all_iff)

lemma server_starts:
  assumes "sv_threadPool sv = newEventLoopThreadPool 0 t" and "ac_tid (sv_acceptor sv) = t" and "\<not> m_listenning (sv_acceptor sv)"
  shows "\<exists>sv'. TcpServer_start mk False (Inr ()) t sv = Inr sv' \<and> sv_ipPort sv' = sv_ipPort sv \<and> m_listenning (sv_acceptor sv')"
  using assms
  by (simp add: TcpServer_start_def EventLoopThreadPool_start_def newEventLoopThreadPool_def elp_in_loop_def
      Acceptor_listen_def ac_in_loop_def listenOrDie_def Let_def)

lemma join_ok: "list_all m_isStarted ts \<Longrightarrow> list_all (\<lambda>t. \<not> m_isJoined t) ts \<Longrightarrow> \<exists>ts'. join_all ts = Inr ts'"
  by (induction ts) (auto simp: Thread_join_def)

lemma frame_starts:
  assumes "f_threadNums (rs_frame s) = 0" and "\<not> f_running (rs_frame s)" and "rs_pool s = newThreadPool" and "rs_listenLoop s = newEventLoop t"
    and "sv_threadPool (rs_toWorkersIO s) = newEventLoopThreadPool 0 t" and "ac_tid (sv_acceptor (rs_toWorkersIO s)) = t"
    and "\<not> m_listenning (sv_acceptor (rs_toWorkersIO s))" and "1 \<le> server_workers_num (rs_config s)"
  obtains s' where "RpcService_start mk (Inr ()) t s = Inr (Some s')" "rs_config s' = rs_config s"
    "rs_frame s' = (rs_frame s)\<lparr>f_threadNums := server_workers_num (rs_config s), f_running := True\<rparr>"
    "m_looping (rs_listenLoop s')" "sv_ipPort (rs_toWorkersIO s') = sv_ipPort (rs_toWorkersIO s)"
    "m_listenning (sv_acceptor (rs_toWorkersIO s'))" "int (length (tp_threads (rs_pool s'))) = server_workers_num (rs_config s)"
    "list_all m_isStarted (tp_threads (rs_pool s'))" "list_all (\<lambda>t. \<not> m_isJoined t) (tp_threads (rs_pool s'))"
    "workers (rs_pool s') = replicate (nat (server_workers_num (rs_config s))) Init"
proof -
  let ?n = "server_workers_num (rs_config s)"
  obtain p where p: "ThreadPool_start ?n (setMaxQueueSize 50 (setThreadInitCallback WorkerLoop newThreadPool)) = Inr p"
      "length (tp_threads p) = nat ?n" "list_all m_isStarted (tp_threads p)" "list_all (\<lambda>t. \<not> m_isJoined t) (tp_threads p)"
      "workers p = replicate (nat ?n) Init"
    using pool_starts [of ?n WorkerLoop] assms(8) by force
  obtain sv where sv: "TcpServer_start mk False (Inr ()) t (rs_toWorkersIO s) = Inr sv"
      "sv_ipPort sv = sv_ipPort (rs_toWorkersIO s)" "m_listenning (sv_acceptor sv)"
    using server_starts [OF assms(5-7)] by blast
  show thesis
    by (rule that [of "s\<lparr>rs_frame := (rs_frame s)\<lparr>f_threadNums := ?n, f_running := True\<rparr>, rs_pool := p, rs_toWorkersIO := sv,
          rs_listenLoop := (newEventLoop t)\<lparr>m_quit := False, m_looping := True\<rparr>\<rparr>"])
      (use assms p sv in \<open>simp_all add: RpcService_start_def setWorkers_def RpcFrame_start_def Let_def loop_enter_def
          isInloopThread_def newEventLoop_def\<close>)
qed

lemma stuck_workers:
  assumes "list_all m_isStarted (tp_threads (rs_pool s))" and "list_all (\<lambda>t. \<not> m_isJoined t) (tp_threads (rs_pool s))"
    and "w \<in> set (workers (rs_pool s))" and "w \<noteq> Exited"
  shows "destroyRpcFrame s = Inr None"
  using join_ok [OF assms(1,2)] assms(3,4)
  by (auto simp: destroyRpcFrame_def Let_def ThreadPool_stop_def request_stop_def)

section \<open>Properties\<close>


text \<open>A configuration with three workers on port 80 of the local host.\<close>

definition sample_fields :: "(string \<times> string) list" where
  "sample_fields = [(''ip'', ''127.0.0.1''), (''port'', ''80''), (''workers'', ''3'')]"

lemma sample_ok:
  "config_fields_ok sample_fields" "map_of sample_fields ''ip'' = Some (inet_ntop4 [127, 0, 0, 1])"
  "map_of sample_fields ''port'' = Some (dec_nat 80)" "map_of sample_fields ''workers'' = map_option dec_nat (Some 3)"
  "good_name ''Server''"
  by code_simp+


end
