(* ===== verification/Connector.thy ===== *)
theory Connector
  imports Channel Sockets
begin

text \<open>
  \<open>net/Connector.h\<close> and \<open>net/Connector.cpp\<close>: the state machine that opens a connection and retries with
  growing delays. What the connector asks of its loop is recorded: \<open>cn_functors\<close> are the functors it has
  queued, \<open>cn_timers\<close> the delays in milliseconds of the timers it has started, each of which will call
  \<open>startInLoop\<close>. \<open>cn_closed\<close> lists the descriptors it closed and \<open>cn_new\<close> those it handed to the callback.
\<close>

section \<open>State\<close>

datatype States = cDisconnected | cConnecting | cConnected

datatype cn_functor = StartInLoop | StopInLoop | ResetChannel

record Connector =
  cn_tid :: tid
  cn_connect :: bool
  cn_state :: States
  cn_channel :: "unit Channel option"
  cn_retryDelayMs :: int
  cn_functors :: "cn_functor list"
  cn_timers :: "int list"
  cn_closed :: "fd list"
  cn_new :: "fd list"

definition kMaxRetryDelayMs :: int where "kMaxRetryDelayMs = 30 * 1000"
definition kInitRetryDelayMs :: int where "kInitRetryDelayMs = 500"

definition newConnector :: "tid \<Rightarrow> Connector" where
  "newConnector t = \<lparr>cn_tid = t, cn_connect = False, cn_state = cDisconnected, cn_channel = None,
     cn_retryDelayMs = kInitRetryDelayMs, cn_functors = [], cn_timers = [], cn_closed = [], cn_new = []\<rparr>"

definition destroyConnector :: "Connector \<Rightarrow> unit res" where
  "destroyConnector c = assertE (cn_channel c = None) (Inr ())"

section \<open>Operations\<close>

definition cn_in_loop :: "tid \<Rightarrow> Connector \<Rightarrow> 'a res \<Rightarrow> 'a res" where
  "cn_in_loop t c m = (if t = cn_tid c then m else Inl FatalLog)"

definition retry :: "fd \<Rightarrow> Connector \<Rightarrow> Connector" where
  "retry sockfd c =
     (let c1 = c\<lparr>cn_state := cDisconnected, cn_closed := cn_closed c @ [sockfd]\<rparr> in
      if cn_connect c1
      then c1\<lparr>cn_retryDelayMs := min (cn_retryDelayMs c1 * 2) kMaxRetryDelayMs,
              cn_timers := cn_timers c1 @ [cn_retryDelayMs c1]\<rparr>
      else c1)"

definition connecting :: "fd \<Rightarrow> Connector \<Rightarrow> Connector res" where
  "connecting sockfd c =
     (let c1 = c\<lparr>cn_state := cConnecting\<rparr> in
      assertE (cn_channel c1 = None)
        (Inr (c1\<lparr>cn_channel := Some ((newChannel sockfd)\<lparr>m_events := apply_mask EnableWriting 0,
           m_addedToLoop := True, m_writeCallBack := Some (), m_errorCallBack := Some ()\<rparr>)\<rparr>)))"

definition EINPROGRESS :: errno where "EINPROGRESS = 115"
definition EISCONN :: errno where "EISCONN = 106"
definition EADDRINUSE :: errno where "EADDRINUSE = 98"
definition EADDRNOTAVAIL :: errno where "EADDRNOTAVAIL = 99"
definition ECONNREFUSED :: errno where "ECONNREFUSED = 111"
definition ENETUNREACH :: errno where "ENETUNREACH = 101"

lemmas connect_errno_defs = EINPROGRESS_def EISCONN_def EADDRINUSE_def EADDRNOTAVAIL_def ECONNREFUSED_def
  ENETUNREACH_def EINTR_def EAGAIN_def

text \<open>\<open>connect\<close>: what \<open>socket\<close> and \<open>connect\<close> return are parameters.\<close>

definition Connector_connect :: "fd sys \<Rightarrow> unit sys \<Rightarrow> Connector \<Rightarrow> Connector res" where
  "Connector_connect socket ret c =
     bindE (createNonblockingOrDie socket) (\<lambda>sockfd.
     let savedErrno = (case ret of Inr _ \<Rightarrow> 0 | Inl e \<Rightarrow> e) in
     if savedErrno \<in> {0, EINPROGRESS, EINTR, EISCONN} then connecting sockfd c
     else if savedErrno \<in> {EAGAIN, EADDRINUSE, EADDRNOTAVAIL, ECONNREFUSED, ENETUNREACH} then Inr (retry sockfd c)
     else Inr (c\<lparr>cn_closed := cn_closed c @ [sockfd]\<rparr>))"

definition startInLoop :: "fd sys \<Rightarrow> unit sys \<Rightarrow> tid \<Rightarrow> Connector \<Rightarrow> Connector res" where
  "startInLoop socket ret t c =
     cn_in_loop t c
       (assertE (cn_state c = cDisconnected)
         (if cn_connect c then Connector_connect socket ret c else Inr c))"

definition Connector_start :: "fd sys \<Rightarrow> unit sys \<Rightarrow> tid \<Rightarrow> Connector \<Rightarrow> Connector res" where
  "Connector_start socket ret t c =
     (let c1 = c\<lparr>cn_connect := True\<rparr> in
      if t = cn_tid c1 then startInLoop socket ret t c1
      else Inr (c1\<lparr>cn_functors := cn_functors c1 @ [StartInLoop]\<rparr>))"

definition Connector_stop :: "Connector \<Rightarrow> Connector" where
  "Connector_stop c = c\<lparr>cn_connect := False, cn_functors := cn_functors c @ [StopInLoop]\<rparr>"

text \<open>\<open>removeAndResetChannel\<close>: the channel itself is deleted later, by the queued \<open>resetChannel\<close>.\<close>

definition removeAndResetChannel :: "Connector \<Rightarrow> (fd \<times> Connector) res" where
  "removeAndResetChannel c =
     (case cn_channel c of
        None \<Rightarrow> Inl Undefined
      | Some ch \<Rightarrow>
          let ch1 = ch\<lparr>m_events := apply_mask DisableAll (m_events ch), m_addedToLoop := False\<rparr> in
          assertE (isNoneEvent ch1)
            (Inr (m_fd ch1, c\<lparr>cn_channel := Some ch1, cn_functors := cn_functors c @ [ResetChannel]\<rparr>)))"

definition resetChannel :: "Connector \<Rightarrow> Connector" where
  "resetChannel c = c\<lparr>cn_channel := None\<rparr>"

definition stopInLoop :: "tid \<Rightarrow> Connector \<Rightarrow> Connector res" where
  "stopInLoop t c =
     cn_in_loop t c
       (if cn_state c = cConnecting
        then bindE (removeAndResetChannel (c\<lparr>cn_state := cDisconnected\<rparr>)) (\<lambda>(sockfd, c1). Inr (retry sockfd c1))
        else Inr c)"

definition Connector_restart :: "fd sys \<Rightarrow> unit sys \<Rightarrow> tid \<Rightarrow> Connector \<Rightarrow> Connector res" where
  "Connector_restart socket ret t c =
     cn_in_loop t c
       (startInLoop socket ret t
         (c\<lparr>cn_connect := True, cn_state := cDisconnected, cn_retryDelayMs := kInitRetryDelayMs\<rparr>))"

text \<open>\<open>handleWrite\<close>: \<open>err\<close> is the pending error of the socket, \<open>self\<close> whether it is connected to itself.\<close>

definition cn_handleWrite :: "nat \<Rightarrow> bool \<Rightarrow> Connector \<Rightarrow> Connector res" where
  "cn_handleWrite err self c =
     (if cn_state c = cConnecting
      then bindE (removeAndResetChannel c) (\<lambda>(sockfd, c1).
        if err \<noteq> 0 then Inr (retry sockfd c1)
        else if self then Inr (retry sockfd c1)
        else let c2 = c1\<lparr>cn_state := cConnected\<rparr> in
          if cn_connect c2 then Inr (c2\<lparr>cn_new := cn_new c2 @ [sockfd]\<rparr>)
          else Inr (c2\<lparr>cn_closed := cn_closed c2 @ [sockfd]\<rparr>))
      else assertE (cn_state c = cDisconnected) (Inr c))"

definition cn_handleError :: "Connector \<Rightarrow> Connector res" where
  "cn_handleError c =
     (if cn_state c = cConnecting
      then bindE (removeAndResetChannel c) (\<lambda>(sockfd, c1). Inr (retry sockfd c1))
      else Inr c)"

section \<open>The loop's side\<close>

text \<open>The loop runs the first queued functor, or the timer at position \<open>i\<close> expires.\<close>

definition run_functor :: "fd sys \<Rightarrow> unit sys \<Rightarrow> Connector \<Rightarrow> Connector res" where
  "run_functor socket ret c =
     (case cn_functors c of
        [] \<Rightarrow> Inr c
      | f # fs \<Rightarrow>
          let c1 = c\<lparr>cn_functors := fs\<rparr> in
          (case f of
             StartInLoop \<Rightarrow> startInLoop socket ret (cn_tid c1) c1
           | StopInLoop \<Rightarrow> stopInLoop (cn_tid c1) c1
           | ResetChannel \<Rightarrow> Inr (resetChannel c1)))"

definition fire_timer :: "fd sys \<Rightarrow> unit sys \<Rightarrow> nat \<Rightarrow> Connector \<Rightarrow> Connector res" where
  "fire_timer socket ret i c =
     startInLoop socket ret (cn_tid c) (c\<lparr>cn_timers := take i (cn_timers c) @ drop (Suc i) (cn_timers c)\<rparr>)"

section \<open>Reachable states\<close>

text \<open>
  Steps that return: calls of the owner, functors, timers, events of the channel while it waits for
  writability, and \<open>restart\<close> once the connection made is gone.
\<close>

inductive cn_step :: "Connector \<Rightarrow> Connector \<Rightarrow> bool" where
  start: "Connector_start socket ret t c = Inr c' \<Longrightarrow> cn_step c c'"
| stop: "cn_step c (Connector_stop c)"
| first: "run_functor socket ret c = Inr c' \<Longrightarrow> cn_step c c'"
| timer: "\<lbrakk>i < length (cn_timers c); fire_timer socket ret i c = Inr c'\<rbrakk> \<Longrightarrow> cn_step c c'"
| writable: "\<lbrakk>cn_channel c = Some ch; isWriting ch; cn_handleWrite err self c = Inr c'\<rbrakk> \<Longrightarrow> cn_step c c'"
| error: "\<lbrakk>cn_channel c = Some ch; isWriting ch; cn_handleError c = Inr c'\<rbrakk> \<Longrightarrow> cn_step c c'"
| again: "\<lbrakk>cn_state c = cConnected; Connector_restart socket ret (cn_tid c) c = Inr c'\<rbrakk> \<Longrightarrow> cn_step c c'"

inductive cn_reach :: "Connector \<Rightarrow> bool" where
  new: "cn_reach (newConnector t)"
| step: "\<lbrakk>cn_reach c; cn_step c c'\<rbrakk> \<Longrightarrow> cn_reach c'"

text \<open>
  The channel waits for writability exactly while a connection is being made; a channel that is done
  is deleted by a functor that is still queued; delays stay between their bounds.
\<close>

definition cn_inv :: "Connector \<Rightarrow> bool" where
  "cn_inv c \<longleftrightarrow>
     (cn_state c = cConnecting \<longrightarrow> (\<exists>ch. cn_channel c = Some ch \<and> isWriting ch) \<and> ResetChannel \<notin> set (cn_functors c)) \<and>
     (cn_state c \<noteq> cConnecting \<longrightarrow>
        (cn_channel c = None \<longleftrightarrow> ResetChannel \<notin> set (cn_functors c)) \<and>
        (\<forall>ch. cn_channel c = Some ch \<longrightarrow> \<not> isWriting ch) \<and>
        length (filter (\<lambda>f. f = ResetChannel) (cn_functors c)) \<le> 1) \<and>
     (\<forall>d \<in> insert (cn_retryDelayMs c) (set (cn_timers c)). kInitRetryDelayMs \<le> d \<and> d \<le> kMaxRetryDelayMs)"

lemma mask_facts [simp]:
  "apply_mask DisableAll ev = 0" "isWriting (ch\<lparr>m_events := 0\<rparr>) = False"
  "isNoneEvent (ch\<lparr>m_events := 0, m_addedToLoop := b\<rparr>)" "\<not> isWriting (ch\<lparr>m_events := 0, m_addedToLoop := b\<rparr>)"
  by (simp_all add: apply_mask_def isWriting_def isNoneEvent_def kNoneEvent_def)

lemma writing_channel [simp]:
  "isWriting (ch\<lparr>m_events := apply_mask EnableWriting 0, m_addedToLoop := b, m_writeCallBack := w, m_errorCallBack := e\<rparr>)"
  by (simp add: apply_mask_def isWriting_def event_defs)

lemma delay_bounds:
  "kInitRetryDelayMs \<le> d \<Longrightarrow> d \<le> kMaxRetryDelayMs \<Longrightarrow>
     kInitRetryDelayMs \<le> min (d * 2) kMaxRetryDelayMs \<and> min (d * 2) kMaxRetryDelayMs \<le> kMaxRetryDelayMs"
  by (auto simp: kInitRetryDelayMs_def kMaxRetryDelayMs_def)

text \<open>\<open>retry\<close> after the channel is gone or switched off keeps the invariant.\<close>

lemma retry_inv:
  assumes "cn_inv c" and "cn_state c \<noteq> cConnecting"
  shows "cn_inv (retry f c)"
  using assms delay_bounds [of "cn_retryDelayMs c"] by (simp add: retry_def cn_inv_def Let_def)

lemma retry_state: "retry f (c\<lparr>cn_state := s\<rparr>) = retry f c"
  by (simp add: retry_def)

lemma remove_inv:
  assumes "cn_inv c" and "cn_state c = cConnecting" and "removeAndResetChannel (c\<lparr>cn_state := s\<rparr>) = Inr (f, c1)"
    and "s' \<noteq> cConnecting"
  shows "cn_inv (c1\<lparr>cn_state := s'\<rparr>)"
  using assms
  by (auto simp: removeAndResetChannel_def cn_inv_def assertE_def Let_def filter_empty_conv split: option.splits)

lemma remove_retry_inv:
  assumes "cn_inv c" and "cn_state c = cConnecting" and "removeAndResetChannel (c\<lparr>cn_state := s\<rparr>) = Inr (f, c1)"
  shows "cn_inv (retry f c1)"
  using retry_inv [OF remove_inv [OF assms, of cDisconnected], of f] by (simp add: retry_state)

lemma cn_connect_inv:
  assumes "cn_inv c" and "cn_state c = cDisconnected" and "Connector_connect socket ret c = Inr c'"
  shows "cn_inv c'"
proof -
  from assms(3) obtain f where "c' = retry f c \<or> connecting f c = Inr c' \<or> c' = c\<lparr>cn_closed := cn_closed c @ [f]\<rparr>"
    by (auto simp: Connector_connect_def res_eq_Inr Let_def split: if_splits)
  then show ?thesis
    using assms(1,2) retry_inv [of c f]
    by (auto simp: connecting_def Let_def cn_inv_def assertE_eq_Inr)
qed

lemma startInLoop_inv:
  assumes "cn_inv c" and "startInLoop socket ret t c = Inr c'"
  shows "cn_inv c'"
  using assms cn_connect_inv by (auto simp: startInLoop_def cn_in_loop_def assertE_eq_Inr split: if_splits)

lemma cn_stop_inv: "cn_inv c \<Longrightarrow> cn_inv (Connector_stop c)"
  by (auto simp: Connector_stop_def cn_inv_def)

lemma stopInLoop_inv: "cn_inv c \<Longrightarrow> stopInLoop t c = Inr c' \<Longrightarrow> cn_inv c'"
  using remove_retry_inv [of c cDisconnected]
  by (auto simp: stopInLoop_def cn_in_loop_def res_eq_Inr split: if_splits)

lemma same_state: "cn_state c = s \<Longrightarrow> c\<lparr>cn_state := s\<rparr> = c"
  by simp

lemma handleWrite_inv:
  assumes "cn_inv c" and "cn_handleWrite err self c = Inr c'"
  shows "cn_inv c'"
proof (cases "cn_state c = cConnecting")
  case True
  with assms(2) obtain f c1 where r: "removeAndResetChannel c = Inr (f, c1)"
    by (auto simp: cn_handleWrite_def res_eq_Inr)
  have r': "removeAndResetChannel (c\<lparr>cn_state := cConnecting\<rparr>) = Inr (f, c1)"
    by (simp only: same_state [OF True] r)
  have "cn_inv (retry f c1)" "cn_inv (c1\<lparr>cn_state := cConnected\<rparr>)"
    using remove_retry_inv [OF assms(1) True r'] remove_inv [OF assms(1) True r', of cConnected] by simp_all
  then show ?thesis
    using assms(2) True r by (auto simp: cn_handleWrite_def Let_def cn_inv_def split: if_splits)
next
  case False
  then show ?thesis using assms by (auto simp: cn_handleWrite_def assertE_eq_Inr)
qed

lemma handleError_inv:
  assumes "cn_inv c" and "cn_handleError c = Inr c'"
  shows "cn_inv c'"
proof (cases "cn_state c = cConnecting")
  case True
  with assms(2) obtain f c1 where r: "removeAndResetChannel c = Inr (f, c1)"
    by (auto simp: cn_handleError_def res_eq_Inr)
  have "removeAndResetChannel (c\<lparr>cn_state := cConnecting\<rparr>) = Inr (f, c1)"
    by (simp only: same_state [OF True] r)
  from remove_retry_inv [OF assms(1) True this] show ?thesis
    using assms(2) True r by (simp add: cn_handleError_def)
next
  case False
  then show ?thesis using assms by (simp add: cn_handleError_def)
qed

lemma run_functor_inv:
  assumes "cn_inv c" and "run_functor socket ret c = Inr c'"
  shows "cn_inv c'"
proof (cases "cn_functors c")
  case (Cons f fs)
  let ?c = "c\<lparr>cn_functors := fs\<rparr>"
  show ?thesis
  proof (cases "f = ResetChannel")
    case True
    then have "cn_inv (resetChannel ?c)"
      using assms(1) Cons by (auto simp: cn_inv_def resetChannel_def filter_empty_conv)
    then show ?thesis using assms(2) Cons True by (simp add: run_functor_def)
  next
    case False
    then have "cn_inv ?c" using assms(1) Cons by (auto simp: cn_inv_def)
    moreover have "startInLoop socket ret (cn_tid c) ?c = Inr c' \<or> stopInLoop (cn_tid c) ?c = Inr c'"
      using assms(2) Cons False by (cases f) (simp_all add: run_functor_def)
    ultimately show ?thesis using startInLoop_inv stopInLoop_inv by blast
  qed
qed (use assms in \<open>simp add: run_functor_def\<close>)

lemma cn_step_inv: "cn_step c c' \<Longrightarrow> cn_inv c \<Longrightarrow> cn_inv c'"
proof (induction rule: cn_step.induct)
  case (start socket ret t c c')
  moreover have "cn_inv (c\<lparr>cn_connect := True\<rparr>)" "cn_inv (c\<lparr>cn_connect := True, cn_functors := cn_functors c @ [StartInLoop]\<rparr>)"
    using start.prems by (auto simp: cn_inv_def)
  ultimately show ?case using startInLoop_inv by (auto simp: Connector_start_def Let_def split: if_splits)
next
  case (timer i c socket ret c')
  have "cn_inv (c\<lparr>cn_timers := take i (cn_timers c) @ drop (Suc i) (cn_timers c)\<rparr>)"
    using timer.prems by (auto simp: cn_inv_def dest: in_set_takeD in_set_dropD)
  then show ?case using timer startInLoop_inv by (simp add: fire_timer_def)
next
  case (again c socket ret c')
  have "cn_inv (c\<lparr>cn_connect := True, cn_state := cDisconnected, cn_retryDelayMs := kInitRetryDelayMs\<rparr>)"
    using again by (auto simp: cn_inv_def kInitRetryDelayMs_def kMaxRetryDelayMs_def)
  then show ?case using again startInLoop_inv by (auto simp: Connector_restart_def cn_in_loop_def)
qed (use cn_stop_inv run_functor_inv handleWrite_inv handleError_inv in blast)+

lemma cn_reach_inv: "cn_reach c \<Longrightarrow> cn_inv c"
proof (induction rule: cn_reach.induct)
  case (new t)
  show ?case by (simp add: cn_inv_def newConnector_def kInitRetryDelayMs_def kMaxRetryDelayMs_def)
qed (rule cn_step_inv)

section \<open>Properties\<close>

text \<open>
  C29: the states of a connector. In every state it can reach, however its owner, its channel, timers
  and queued functors interleave, its channel waits for writability exactly while a connection is being
  made, so that one more event finds a live channel and neither handler follows a null pointer nor
  fails its assertion; a channel that has done its work is due to be deleted, exactly once; and every
  delay lies between half a second and thirty seconds.
\<close>

theorem connector_states:
  assumes "cn_reach c"
  shows "(cn_state c = cConnecting \<longleftrightarrow> (\<exists>ch. cn_channel c = Some ch \<and> isWriting ch)) \<and>
    (cn_state c = cConnecting \<longrightarrow> (\<exists>c'. cn_handleWrite err self c = Inr c') \<and> (\<exists>c'. cn_handleError c = Inr c')) \<and>
    (cn_state c \<noteq> cConnecting \<longrightarrow>
       length (filter (\<lambda>f. f = ResetChannel) (cn_functors c)) = (if cn_channel c = None then 0 else 1)) \<and>
    (\<forall>d \<in> insert (cn_retryDelayMs c) (set (cn_timers c)). 500 \<le> d \<and> d \<le> 30000)"
proof -
  note inv = cn_reach_inv [OF assms]
  have "filter (\<lambda>f. f = ResetChannel) fs \<noteq> []" if "ResetChannel \<in> set fs" for fs
    using that by (auto simp: filter_empty_conv)
  then have n: "0 < length (filter (\<lambda>f. f = ResetChannel) fs)" if "ResetChannel \<in> set fs" for fs
    using that by blast
  have run: "(\<exists>c'. cn_handleWrite err self c = Inr c') \<and> (\<exists>c'. cn_handleError c = Inr c')"
    if "cn_state c = cConnecting"
  proof -
    obtain ch where ch: "cn_channel c = Some ch" using inv \<open>cn_state c = cConnecting\<close> by (auto simp: cn_inv_def)
    then show ?thesis
      using that by (simp add: cn_handleWrite_def cn_handleError_def removeAndResetChannel_def Let_def)
  qed
  show ?thesis
    using inv run n [of "cn_functors c"]
    by (auto simp: cn_inv_def kInitRetryDelayMs_def kMaxRetryDelayMs_def filter_empty_conv le_Suc_eq)
qed

text \<open>
  Growing delays: When the peer refuses the first attempt of a new connector and every attempt
  after it, made when the timer of the one before expires, each attempt closes its socket and
  leaves exactly one timer: half a second after the first, twice as long after each further one, and
  never more than thirty seconds.
\<close>

theorem connector_backoff:
  assumes "e \<in> {EAGAIN, EADDRINUSE, EADDRNOTAVAIL, ECONNREFUSED, ENETUNREACH}"
  shows "bindE (Connector_start (Inr f) (Inl e) t (newConnector t)) (foldE (\<lambda>g. fire_timer (Inr g) (Inl e) 0) fs) =
    Inr ((newConnector t)\<lparr>cn_connect := True, cn_retryDelayMs := min (500 * 2 ^ Suc (length fs)) 30000,
      cn_timers := [min (500 * 2 ^ length fs) 30000], cn_closed := f # fs\<rparr>)"
proof -
  have dial: "Connector_connect (Inr g) (Inl e) c = Inr (retry g c)" for g c
    using assms by (auto simp: Connector_connect_def createNonblockingOrDie_def connect_errno_defs)
  let ?c = "\<lambda>n cl. (newConnector t)\<lparr>cn_connect := True, cn_retryDelayMs := min (500 * 2 ^ Suc n) 30000,
      cn_timers := [min (500 * 2 ^ n) 30000], cn_closed := cl\<rparr>"
  have dbl: "min (min (500 * 2 ^ Suc n) 30000 * 2) 30000 = min (500 * 2 ^ Suc (Suc n)) (30000 :: int)" for n
    by (simp add: min_def)
  have first: "Connector_start (Inr f) (Inl e) t (newConnector t) = Inr (?c 0 [f])"
    by (simp add: Connector_start_def startInLoop_def cn_in_loop_def dial retry_def newConnector_def
        kInitRetryDelayMs_def kMaxRetryDelayMs_def)
  have next_one: "fire_timer (Inr g) (Inl e) 0 (?c n cl) = Inr (?c (Suc n) (cl @ [g]))" for g n cl
    using dbl [of n]
    by (simp add: fire_timer_def startInLoop_def cn_in_loop_def dial retry_def newConnector_def kMaxRetryDelayMs_def)
  have "foldE (\<lambda>g. fire_timer (Inr g) (Inl e) 0) gs (?c n cl) = Inr (?c (n + length gs) (cl @ gs))" for gs n cl
    by (induction gs arbitrary: n cl) (simp_all add: next_one del: power_Suc)
  from this [where gs = fs and n = 0 and cl = "[f]"] show ?thesis unfolding first bindE_simps by simp
qed

theorem connector_backoff_witness:
  "bindE (Connector_start (Inr 5) (Inl ECONNREFUSED) 1 (newConnector 1))
      (foldE (\<lambda>g. fire_timer (Inr g) (Inl ECONNREFUSED) 0) [6, 7]) =
    Inr ((newConnector 1)\<lparr>cn_connect := True, cn_retryDelayMs := 4000, cn_timers := [2000], cn_closed := [5, 6, 7]\<rparr>)"
  using connector_backoff [of ECONNREFUSED 5 1 "[6, 7]"] by simp

text \<open>
  A timer of \<open>retry\<close> is never cancelled: after \<open>stop\<close> and a second \<open>start\<close> it expires while the
  connector is connecting, and the assertion of \<open>startInLoop\<close> ends the process.
\<close>

lemma stale_timer_aborts:
  "\<exists>c. cn_reach c \<and> cn_timers c = [500] \<and> fire_timer socket ret 0 c = Inl AssertFail"
proof -
  let ?c0 = "newConnector 1"
  obtain c1 where c1: "Connector_start (Inr 5) (Inl ECONNREFUSED) 1 ?c0 = Inr c1" "cn_timers c1 = [500]"
      "cn_state c1 = cDisconnected" "cn_channel c1 = None" "cn_tid c1 = 1"
    by (simp add: Connector_start_def startInLoop_def cn_in_loop_def Connector_connect_def retry_def
        createNonblockingOrDie_def newConnector_def connect_errno_defs kInitRetryDelayMs_def)
  have r2: "cn_reach (Connector_stop c1)"
    using cn_reach.new cn_step.start [OF c1(1)] cn_step.stop by (blast intro: cn_reach.step)
  obtain c2 where c2: "Connector_start (Inr 6) (Inl EINPROGRESS) 1 (Connector_stop c1) = Inr c2"
      "cn_timers c2 = [500]" "cn_state c2 = cConnecting"
    using c1(2-5)
    by (simp add: Connector_start_def startInLoop_def cn_in_loop_def Connector_connect_def connecting_def
        Connector_stop_def createNonblockingOrDie_def)
  have "cn_reach c2" using r2 cn_step.start [OF c2(1)] by (rule cn_reach.step)
  moreover have "fire_timer socket ret 0 c2 = Inl AssertFail"
    using c2(3) by (simp add: fire_timer_def startInLoop_def cn_in_loop_def)
  ultimately show ?thesis using c2(2) by blast
qed

theorem connector_states_witness:
  "\<exists>c. cn_reach c \<and> cn_state c = cConnecting \<and> (\<exists>c'. cn_handleWrite 0 False c = Inr c') \<and>
     (\<exists>ch. cn_channel c = Some ch \<and> isWriting ch)"
proof -
  obtain c where c: "Connector_start (Inr 6) (Inl EINPROGRESS) 1 (newConnector 1) = Inr c" "cn_state c = cConnecting"
    by (simp add: Connector_start_def startInLoop_def cn_in_loop_def Connector_connect_def connecting_def
        newConnector_def createNonblockingOrDie_def)
  have "cn_reach c" using cn_reach.new cn_step.start [OF c(1)] by (rule cn_reach.step)
  from connector_states [OF this, of 0 False] this c(2) show ?thesis by blast
qed

end
