(* ===== verification/TcpClient.thy ===== *)
theory TcpClient
  imports Connector Connections
begin

text \<open>
  \<open>rpc/TcpClient.h\<close> and \<open>rpc/TcpClient.cpp\<close>: a client owns a connector and at most one connection. Connections
  live in a heap shared by \<open>connection_\<close> and the functors queued on the loop, as for the server. What
  the socket calls return, and the text of the peer's address, are parameters.
\<close>

section \<open>Operations\<close>

record TcpClient =
  cl_tid :: tid
  cl_connector :: Connector
  cl_name :: string
  cl_hasWriteComplete :: bool
  cl_retry :: bool
  cl_connect :: bool
  cl_nextConnId :: int
  cl_connection :: "addr option"
  cl_heap :: "addr \<rightharpoonup> TcpConnection"
  cl_nextAddr :: addr
  cl_destroy :: "addr list"

definition newTcpClient :: "tid \<Rightarrow> string \<Rightarrow> TcpClient" where
  "newTcpClient t nameArg = \<lparr>cl_tid = t, cl_connector = newConnector t, cl_name = nameArg, cl_hasWriteComplete = False,
     cl_retry = False, cl_connect = True, cl_nextConnId = 1, cl_connection = None, cl_heap = Map.empty,
     cl_nextAddr = 0, cl_destroy = []\<rparr>"

definition enableRetry :: "TcpClient \<Rightarrow> TcpClient" where
  "enableRetry cl = cl\<lparr>cl_retry := True\<rparr>"

definition TcpClient_connect :: "fd sys \<Rightarrow> unit sys \<Rightarrow> tid \<Rightarrow> TcpClient \<Rightarrow> TcpClient res" where
  "TcpClient_connect socket ret t cl =
     (let cl1 = cl\<lparr>cl_connect := True\<rparr> in
      bindE (Connector_start socket ret t (cl_connector cl1)) (\<lambda>cn. Inr (cl1\<lparr>cl_connector := cn\<rparr>)))"

definition TcpClient_disconnect :: "tid \<Rightarrow> TcpClient \<Rightarrow> TcpClient res" where
  "TcpClient_disconnect t cl =
     (let cl1 = cl\<lparr>cl_connect := False\<rparr> in
      case cl_connection cl1 of
        None \<Rightarrow> Inr cl1
      | Some a \<Rightarrow>
          (case cl_heap cl1 a of
             None \<Rightarrow> Inl Undefined
           | Some conn \<Rightarrow> bindE (shutdown t conn) (\<lambda>conn'. Inr (cl1\<lparr>cl_heap := (cl_heap cl1)(a \<mapsto> conn')\<rparr>))))"

definition TcpClient_stop :: "TcpClient \<Rightarrow> TcpClient" where
  "TcpClient_stop cl = cl\<lparr>cl_connect := False, cl_connector := Connector_stop (cl_connector cl)\<rparr>"

definition cl_in_loop :: "tid \<Rightarrow> TcpClient \<Rightarrow> 'a res \<Rightarrow> 'a res" where
  "cl_in_loop t cl m = (if t = cl_tid cl then m else Inl FatalLog)"

text \<open>The text after the name goes through a buffer of 32 characters.\<close>

definition cl_connName :: "string \<Rightarrow> TcpClient \<Rightarrow> string" where
  "cl_connName peer cl = cl_name cl @ take 31 ('':'' @ peer @ ''#'' @ dec_int (cl_nextConnId cl))"

definition cl_newConnection :: "string \<Rightarrow> tid \<Rightarrow> fd \<Rightarrow> TcpClient \<Rightarrow> TcpClient res" where
  "cl_newConnection peer t sockfd cl =
     cl_in_loop t cl
       (if cl_nextConnId cl = 2 ^ 31 - 1 then Inl Undefined else
        let name = cl_connName peer cl; cl1 = cl\<lparr>cl_nextConnId := cl_nextConnId cl + 1\<rparr>; a = cl_nextAddr cl1 in
        bindE (newTcpConnection (cl_tid cl1) name sockfd) (\<lambda>conn.
        let conn1 = conn\<lparr>has_connectionCallBack := True, has_writeCompleteCallBack := cl_hasWriteComplete cl1\<rparr>;
            cl2 = cl1\<lparr>cl_nextAddr := Suc a, cl_connection := Some a\<rparr> in
        bindE (connectEstablished t conn1) (\<lambda>conn2. Inr (cl2\<lparr>cl_heap := (cl_heap cl2)(a \<mapsto> conn2)\<rparr>))))"

text \<open>The connector's channel becomes writable; its callback for a new connection is \<open>newConnection\<close>.\<close>

definition cl_writable :: "nat \<Rightarrow> bool \<Rightarrow> string \<Rightarrow> tid \<Rightarrow> TcpClient \<Rightarrow> TcpClient res" where
  "cl_writable err self peer t cl =
     bindE (cn_handleWrite err self (cl_connector cl)) (\<lambda>cn.
     let cl1 = cl\<lparr>cl_connector := cn\<rparr> in
     if length (cn_new (cl_connector cl)) < length (cn_new cn)
     then cl_newConnection peer t (last (cn_new cn)) cl1 else Inr cl1)"

definition cl_removeConnection :: "fd sys \<Rightarrow> unit sys \<Rightarrow> tid \<Rightarrow> addr \<Rightarrow> TcpClient \<Rightarrow> TcpClient res" where
  "cl_removeConnection socket ret t a cl =
     cl_in_loop t cl
       (case cl_heap cl a of
          None \<Rightarrow> Inl Undefined
        | Some conn \<Rightarrow>
            assertE (cl_tid cl = loop_tid conn)
              (assertE (cl_connection cl = Some a)
                (let cl1 = cl\<lparr>cl_connection := None, cl_destroy := cl_destroy cl @ [a]\<rparr> in
                 if cl_retry cl1 \<and> cl_connect cl1
                 then bindE (Connector_restart socket ret t (cl_connector cl1)) (\<lambda>cn. Inr (cl1\<lparr>cl_connector := cn\<rparr>))
                 else Inr cl1)))"

text \<open>An operation \<open>f\<close> of the connection at \<open>a\<close>, whose close callback is \<open>removeConnection\<close>.\<close>

definition cl_event ::
  "fd sys \<Rightarrow> unit sys \<Rightarrow> tid \<Rightarrow> addr \<Rightarrow> (TcpConnection \<Rightarrow> TcpConnection res) \<Rightarrow> TcpClient \<Rightarrow> TcpClient res" where
  "cl_event socket ret t a f cl =
     (case cl_heap cl a of
        None \<Rightarrow> Inl Undefined
      | Some conn \<Rightarrow>
          bindE (f conn) (\<lambda>conn'.
          let cl1 = cl\<lparr>cl_heap := (cl_heap cl)(a \<mapsto> conn')\<rparr> in
          if closes conn < closes conn' then cl_removeConnection socket ret t a cl1 else Inr cl1))"

definition cl_run_destroy :: "tid \<Rightarrow> TcpClient \<Rightarrow> TcpClient res" where
  "cl_run_destroy t cl =
     (case cl_destroy cl of
        [] \<Rightarrow> Inr cl
      | a # as \<Rightarrow>
          (case cl_heap cl a of
             None \<Rightarrow> Inl Undefined
           | Some conn \<Rightarrow>
               bindE (connectDestroyed t conn) (\<lambda>conn'.
               bindE (destroyTcpConnection conn') (\<lambda>_.
               Inr (cl\<lparr>cl_heap := (cl_heap cl)(a := None), cl_destroy := as\<rparr>)))))"

text \<open>The destructor; \<open>unique\<close> says whether the client holds the only pointer to its connection.\<close>

definition destroyTcpClient :: "bool \<Rightarrow> TcpClient \<Rightarrow> TcpClient res" where
  "destroyTcpClient unique cl =
     (case cl_connection cl of
        Some a \<Rightarrow>
          (case cl_heap cl a of
             None \<Rightarrow> Inl Undefined
           | Some conn \<Rightarrow>
               assertE (cl_tid cl = loop_tid conn)
                 (Inr (cl\<lparr>cl_connection := None,
                   cl_heap := (cl_heap cl)(a \<mapsto> (if unique then forceClose conn else conn))\<rparr>)))
      | None \<Rightarrow> Inr (cl\<lparr>cl_connector := Connector_stop (cl_connector cl)\<rparr>))"

section \<open>Reachable states\<close>

inductive cl_reach :: "TcpClient \<Rightarrow> bool" where
  new: "cl_reach (newTcpClient t name)"
| retry: "cl_reach cl \<Longrightarrow> cl_reach (enableRetry cl)"
| connect: "cl_reach cl \<Longrightarrow> TcpClient_connect socket ret t cl = Inr cl' \<Longrightarrow> cl_reach cl'"
| disconnect: "cl_reach cl \<Longrightarrow> TcpClient_disconnect t cl = Inr cl' \<Longrightarrow> cl_reach cl'"
| stop: "cl_reach cl \<Longrightarrow> cl_reach (TcpClient_stop cl)"
| first: "cl_reach cl \<Longrightarrow> run_functor socket ret (cl_connector cl) = Inr cn \<Longrightarrow> cl_reach (cl\<lparr>cl_connector := cn\<rparr>)"
| timer: "cl_reach cl \<Longrightarrow> i < length (cn_timers (cl_connector cl)) \<Longrightarrow>
    fire_timer socket ret i (cl_connector cl) = Inr cn \<Longrightarrow> cl_reach (cl\<lparr>cl_connector := cn\<rparr>)"
| error: "cl_reach cl \<Longrightarrow> cn_channel (cl_connector cl) = Some ch \<Longrightarrow> isWriting ch \<Longrightarrow>
    cn_handleError (cl_connector cl) = Inr cn \<Longrightarrow> cl_reach (cl\<lparr>cl_connector := cn\<rparr>)"
| writable: "cl_reach cl \<Longrightarrow> cn_channel (cl_connector cl) = Some ch \<Longrightarrow> isWriting ch \<Longrightarrow>
    cl_writable err self peer t cl = Inr cl' \<Longrightarrow> cl_reach cl'"
| event: "cl_reach cl \<Longrightarrow> cl_connection cl = Some a \<Longrightarrow> (\<And>c c'. f c = Inr c' \<Longrightarrow> conn_step c c') \<Longrightarrow>
    (\<And>c c'. f c = Inr c' \<Longrightarrow> conn_up c \<Longrightarrow> conn_up c' \<or> closes c < closes c') \<Longrightarrow>
    cl_event socket ret (cl_tid cl) a f cl = Inr cl' \<Longrightarrow> cl_reach cl'"
| destroy: "cl_reach cl \<Longrightarrow> cl_run_destroy (cl_tid cl) cl = Inr cl' \<Longrightarrow> cl_reach cl'"

text \<open>The connection is open and the connector idle while there is one; closed ones wait for their destruction.\<close>

definition cl_inv :: "TcpClient \<Rightarrow> bool" where
  "cl_inv cl \<longleftrightarrow> cn_inv (cl_connector cl) \<and> cn_tid (cl_connector cl) = cl_tid cl \<and>
     1 \<le> cl_nextConnId cl \<and> cl_nextConnId cl < 2 ^ 31 \<and> distinct (cl_destroy cl) \<and>
     (\<forall>a \<in> dom (cl_heap cl). a < cl_nextAddr cl) \<and>
     dom (cl_heap cl) = set_option (cl_connection cl) \<union> set (cl_destroy cl) \<and>
     set_option (cl_connection cl) \<inter> set (cl_destroy cl) = {} \<and>
     (\<forall>a \<in> set_option (cl_connection cl). cn_state (cl_connector cl) = cConnected \<and>
        (\<exists>c. cl_heap cl a = Some c \<and> conn_inv c \<and> conn_up c \<and> loop_tid c = cl_tid cl)) \<and>
     (\<forall>a \<in> set (cl_destroy cl). \<exists>c. cl_heap cl a = Some c \<and> conn_inv c \<and> m_state c = kDisConnected \<and> loop_tid c = cl_tid cl)"

section \<open>Preservation\<close>

text \<open>What a step of the connector keeps while it is connected.\<close>

definition cn_keeps :: "Connector \<Rightarrow> Connector \<Rightarrow> bool" where
  "cn_keeps c c' \<longleftrightarrow> cn_tid c' = cn_tid c \<and> (cn_state c = cConnected \<longrightarrow> cn_state c' = cConnected)"

lemma retry_tid [simp]: "cn_tid (retry f c) = cn_tid c"
  by (simp add: retry_def Let_def)

lemma removed_keeps: "removeAndResetChannel c = Inr (f, c') \<Longrightarrow> cn_tid c' = cn_tid c \<and> cn_state c' = cn_state c \<and>
    cn_new c' = cn_new c \<and> cn_connect c' = cn_connect c"
  by (auto simp: removeAndResetChannel_def assertE_eq_Inr Let_def split: option.splits)

lemma startInLoop_keeps: "startInLoop socket ret t c = Inr c' \<Longrightarrow> cn_tid c' = cn_tid c \<and> cn_state c = cDisconnected"
  by (auto simp: startInLoop_def cn_in_loop_def assertE_eq_Inr Connector_connect_def connecting_def bindE_eq_Inr Let_def
      split: if_splits)

lemma stopInLoop_keeps: "stopInLoop t c = Inr c' \<Longrightarrow> cn_keeps c c'"
  by (auto simp: stopInLoop_def cn_in_loop_def cn_keeps_def bindE_eq_Inr split: if_splits dest: removed_keeps)

lemma connector_steps_keep:
  "Connector_start socket ret t c = Inr c' \<Longrightarrow> cn_keeps c c'"
  "cn_keeps c (Connector_stop c)"
  "run_functor socket ret c = Inr c' \<Longrightarrow> cn_keeps c c'"
  "fire_timer socket ret i c = Inr c' \<Longrightarrow> cn_keeps c c'"
  "cn_handleError c = Inr c' \<Longrightarrow> cn_keeps c c'"
proof -
  show "Connector_start socket ret t c = Inr c' \<Longrightarrow> cn_keeps c c'"
    by (auto simp: Connector_start_def Let_def cn_keeps_def split: if_splits dest: startInLoop_keeps)
  show "cn_keeps c (Connector_stop c)" by (simp add: cn_keeps_def Connector_stop_def)
  show "run_functor socket ret c = Inr c' \<Longrightarrow> cn_keeps c c'"
    by (auto simp: run_functor_def Let_def cn_keeps_def resetChannel_def split: list.splits cn_functor.splits
        dest: startInLoop_keeps stopInLoop_keeps [unfolded cn_keeps_def])
  show "fire_timer socket ret i c = Inr c' \<Longrightarrow> cn_keeps c c'"
    by (auto simp: fire_timer_def cn_keeps_def dest: startInLoop_keeps)
  show "cn_handleError c = Inr c' \<Longrightarrow> cn_keeps c c'"
    by (auto simp: cn_handleError_def cn_keeps_def bindE_eq_Inr split: if_splits dest: removed_keeps)
qed

lemma cl_connector_ok:
  assumes "cl_inv cl" and "cn_step (cl_connector cl) cn" and "cn_keeps (cl_connector cl) cn"
  shows "cl_inv (cl\<lparr>cl_connector := cn\<rparr>)"
  using assms cn_step_inv [OF assms(2)] by (auto simp: cl_inv_def cn_keeps_def)

lemma cl_flags_ok: "cl_inv cl \<Longrightarrow> cl_inv (cl\<lparr>cl_connect := b\<rparr>)" "cl_inv cl \<Longrightarrow> cl_inv (cl\<lparr>cl_retry := b\<rparr>)"
  by (simp_all add: cl_inv_def)

lemma cl_inv_connD:
  assumes "cl_inv cl" and "cl_connection cl = Some a"
  obtains c where "cl_heap cl a = Some c" "conn_inv c" "conn_up c" "loop_tid c = cl_tid cl"
    "cn_state (cl_connector cl) = cConnected" "a \<notin> set (cl_destroy cl)"
  using assms by (auto simp: cl_inv_def)

lemma cl_traffic_ok:
  assumes "cl_inv cl" and "cl_connection cl = Some a" and "conn_inv c" "conn_up c" "loop_tid c = cl_tid cl"
  shows "cl_inv (cl\<lparr>cl_heap := (cl_heap cl)(a \<mapsto> c)\<rparr>)"
  using assms by (auto simp: cl_inv_def)

lemma cl_disconnect_inv:
  assumes "cl_inv cl" and "TcpClient_disconnect t cl = Inr cl'"
  shows "cl_inv cl'"
proof (cases "cl_connection cl")
  case None
  then show ?thesis using assms cl_flags_ok by (auto simp: TcpClient_disconnect_def Let_def)
next
  case (Some a)
  obtain c where c: "cl_heap cl a = Some c" "conn_inv c" "conn_up c" "loop_tid c = cl_tid cl"
    by (rule cl_inv_connD [OF assms(1) Some])
  with Some assms(2) obtain c' where c': "shutdown t c = Inr c'"
    "cl' = (cl\<lparr>cl_connect := False\<rparr>)\<lparr>cl_heap := (cl_heap cl)(a \<mapsto> c')\<rparr>"
    by (auto simp: TcpClient_disconnect_def Let_def bindE_eq_Inr)
  have "conn_step c c'" by (rule conn_step.shut [OF c'(1)])
  from step_good [OF this] step_same [OF this] have "conn_inv c'" "loop_tid c' = cl_tid cl"
    using c up_not_connecting by (auto simp: conn_good_def same_conn_def)
  moreover have "conn_up c'" by (rule shutdown_up [OF c(3) c'(1)])
  moreover have "cl_inv (cl\<lparr>cl_connect := False\<rparr>)" using assms(1) by (rule cl_flags_ok)
  ultimately show ?thesis
    using cl_traffic_ok [of "cl\<lparr>cl_connect := False\<rparr>" a c'] Some c'(2) by simp
qed

lemma cl_new_ok:
  assumes "cl_inv cl" and "cl_connection cl = None" and "cn_state (cl_connector cl) = cConnected"
    and "cl_nextConnId cl < 2 ^ 31 - 1"
  shows "runs (\<lambda>cl'. cl_inv cl' \<and> cl_connection cl' = Some (cl_nextAddr cl) \<and> cl_destroy cl' = cl_destroy cl \<and>
      cl_connector cl' = cl_connector cl \<and> cl_retry cl' = cl_retry cl \<and> cl_connect cl' = cl_connect cl \<and>
      cl_tid cl' = cl_tid cl \<and>
      (\<exists>c. cl_heap cl' (cl_nextAddr cl) = Some c \<and> m_name c = cl_connName peer cl))
    (cl_newConnection peer (cl_tid cl) sockfd cl)"
proof -
  let ?n = "cl_connName peer cl" and ?a = "cl_nextAddr cl"
  obtain c where c: "bindE (newTcpConnection (cl_tid cl) ?n sockfd) (\<lambda>conn.
      connectEstablished (cl_tid cl) (conn\<lparr>has_connectionCallBack := True,
        has_writeCompleteCallBack := cl_hasWriteComplete cl\<rparr>)) = Inr c"
    "m_name c = ?n" "conn_inv c" "conn_up c" "loop_tid c = cl_tid cl"
    by (rule fresh_connection)
  define cl' where "cl' = cl\<lparr>cl_nextConnId := cl_nextConnId cl + 1, cl_nextAddr := Suc ?a,
      cl_connection := Some ?a, cl_heap := (cl_heap cl)(?a \<mapsto> c)\<rparr>"
  have "cl_newConnection peer (cl_tid cl) sockfd cl = Inr cl'"
    using c(1) assms(4) by (auto simp: cl_newConnection_def cl_in_loop_def Let_def bindE_eq_Inr cl'_def)
  moreover have "?a \<notin> set (cl_destroy cl)" using assms(1) by (auto simp: cl_inv_def)
  then have "cl_inv cl'"
    using assms c(3-5) by (auto simp: cl_inv_def cl'_def less_Suc_eq)
  ultimately show ?thesis using c(2) by (simp add: cl'_def)
qed

lemma handleWrite_keeps:
  assumes "cn_handleWrite err self c = Inr c'"
  shows "cn_tid c' = cn_tid c" "cn_state c = cConnecting \<or> c' = c"
    "length (cn_new c) < length (cn_new c') \<longleftrightarrow> cn_state c = cConnecting \<and> err = 0 \<and> \<not> self \<and> cn_connect c"
    "length (cn_new c) < length (cn_new c') \<Longrightarrow> cn_state c' = cConnected"
proof -
  let ?P = "cn_tid c' = cn_tid c \<and> (cn_state c = cConnecting \<or> c' = c) \<and>
    (length (cn_new c) < length (cn_new c') \<longleftrightarrow> cn_state c = cConnecting \<and> err = 0 \<and> \<not> self \<and> cn_connect c) \<and>
    (length (cn_new c) < length (cn_new c') \<longrightarrow> cn_state c' = cConnected)"
  have ?P
  proof (cases "cn_state c = cConnecting")
    case True
    with assms obtain f c1 where r: "removeAndResetChannel c = Inr (f, c1)" by (auto simp: cn_handleWrite_def bindE_eq_Inr)
    have "c' = (if err = 0 \<and> \<not> self then if cn_connect c1 then c1\<lparr>cn_state := cConnected, cn_new := cn_new c1 @ [f]\<rparr>
        else c1\<lparr>cn_state := cConnected, cn_closed := cn_closed c1 @ [f]\<rparr> else retry f c1)"
      using assms True r by (cases "err = 0"; cases self) (simp_all add: cn_handleWrite_def Let_def split: if_splits)
    then show ?thesis using removed_keeps [OF r] True by (simp add: retry_def Let_def)
  next
    case False
    then show ?thesis using assms by (auto simp: cn_handleWrite_def assertE_eq_Inr)
  qed
  then show "cn_tid c' = cn_tid c" "cn_state c = cConnecting \<or> c' = c"
    "length (cn_new c) < length (cn_new c') \<longleftrightarrow> cn_state c = cConnecting \<and> err = 0 \<and> \<not> self \<and> cn_connect c"
    "length (cn_new c) < length (cn_new c') \<Longrightarrow> cn_state c' = cConnected" by blast+
qed

lemma cl_writable_inv:
  assumes "cl_inv cl" and "cn_channel (cl_connector cl) = Some ch" and "isWriting ch"
    and "cl_writable err self peer t cl = Inr cl'"
  shows "cl_inv cl'"
proof -
  from assms(4) obtain cn where cn: "cn_handleWrite err self (cl_connector cl) = Inr cn"
    and r: "(if length (cn_new (cl_connector cl)) < length (cn_new cn)
      then cl_newConnection peer t (last (cn_new cn)) (cl\<lparr>cl_connector := cn\<rparr>) else Inr (cl\<lparr>cl_connector := cn\<rparr>)) = Inr cl'"
    by (auto simp: cl_writable_def bindE_eq_Inr Let_def)
  note k = handleWrite_keeps [OF cn]
  have "cn_keeps (cl_connector cl) cn" using k(1,2) by (auto simp: cn_keeps_def)
  then have i: "cl_inv (cl\<lparr>cl_connector := cn\<rparr>)"
    by (rule cl_connector_ok [OF assms(1) cn_step.writable [OF assms(2,3) cn]])
  show ?thesis
  proof (cases "length (cn_new (cl_connector cl)) < length (cn_new cn)")
    case True
    let ?cl = "cl\<lparr>cl_connector := cn\<rparr>"
    have "cn_state (cl_connector cl) = cConnecting" using k(3) True by simp
    then have none: "cl_connection ?cl = None" using assms(1) by (cases "cl_connection cl") (auto simp: cl_inv_def)
    from r True have new: "cl_newConnection peer t (last (cn_new cn)) ?cl = Inr cl'" by simp
    then have t: "t = cl_tid ?cl" "cl_nextConnId ?cl \<noteq> 2 ^ 31 - 1"
      by (auto simp: cl_newConnection_def cl_in_loop_def split: if_splits)
    then have "cl_nextConnId ?cl < 2 ^ 31 - 1" using i by (auto simp: cl_inv_def)
    from runs_eqD [OF cl_new_ok [OF i none _ this]] new t(1) k(4) [OF True] show ?thesis by auto
  next
    case False
    then show ?thesis using r i by auto
  qed
qed

text \<open>The connection ends: both assertions of \<open>removeConnection\<close> hold.\<close>

lemma cl_closed_inv:
  assumes "cl_inv cl" and "cl_connection cl = Some a" and "conn_inv c" "m_state c = kDisConnected" "loop_tid c = cl_tid cl"
  shows "cl_inv (cl\<lparr>cl_heap := (cl_heap cl)(a \<mapsto> c), cl_connection := None, cl_destroy := cl_destroy cl @ [a]\<rparr>)"
  using assms by (auto simp: cl_inv_def)

lemma restart_keeps:
  assumes "Connector_restart socket ret t c = Inr c'"
  shows "cn_tid c' = cn_tid c" "t = cn_tid c"
  using assms startInLoop_keeps by (auto simp: Connector_restart_def cn_in_loop_def split: if_splits dest: startInLoop_keeps)

lemma cl_remove_inv:
  assumes "cl_inv cl" and "cl_connection cl = Some a" and "conn_inv c" "m_state c = kDisConnected" "loop_tid c = cl_tid cl"
    and "cl_removeConnection socket ret t a (cl\<lparr>cl_heap := (cl_heap cl)(a \<mapsto> c)\<rparr>) = Inr cl'"
  shows "cl_inv cl'"
proof -
  let ?cl = "cl\<lparr>cl_heap := (cl_heap cl)(a \<mapsto> c), cl_connection := None, cl_destroy := cl_destroy cl @ [a]\<rparr>"
  have i: "cl_inv ?cl" by (rule cl_closed_inv [OF assms(1-5)])
  have st: "cn_state (cl_connector cl) = cConnected" using assms(1,2) by (simp add: cl_inv_def)
  show ?thesis
  proof (cases "cl_retry cl \<and> cl_connect cl")
    case True
    with assms(6) obtain cn where cn: "Connector_restart socket ret t (cl_connector cl) = Inr cn" "cl' = ?cl\<lparr>cl_connector := cn\<rparr>"
      by (auto simp: cl_removeConnection_def cl_in_loop_def assertE_eq_Inr bindE_eq_Inr Let_def split: if_splits)
    have "cn_inv cn"
      using cn_step_inv [OF cn_step.again [OF st, of socket ret cn]] cn(1) restart_keeps [OF cn(1)] assms(1) by (simp add: cl_inv_def)
    then show ?thesis using i cn(2) restart_keeps(1) [OF cn(1)] by (auto simp: cl_inv_def)
  next
    case False
    with assms(6) have "cl' = ?cl"
      by (auto simp: cl_removeConnection_def cl_in_loop_def assertE_eq_Inr bindE_eq_Inr Let_def split: if_splits)
    with i show ?thesis by simp
  qed
qed

lemma cl_event_inv:
  assumes "cl_inv cl" and "cl_connection cl = Some a" and "\<And>c c'. f c = Inr c' \<Longrightarrow> conn_step c c'"
    and "\<And>c c'. f c = Inr c' \<Longrightarrow> conn_up c \<Longrightarrow> conn_up c' \<or> closes c < closes c'"
    and "cl_event socket ret t a f cl = Inr cl'"
  shows "cl_inv cl'"
proof -
  obtain c where c: "cl_heap cl a = Some c" "conn_inv c" "conn_up c" "loop_tid c = cl_tid cl"
    by (rule cl_inv_connD [OF assms(1,2)])
  with assms(5) obtain c' where f: "f c = Inr c'"
    and r: "(if closes c < closes c' then cl_removeConnection socket ret t a (cl\<lparr>cl_heap := (cl_heap cl)(a \<mapsto> c')\<rparr>)
      else Inr (cl\<lparr>cl_heap := (cl_heap cl)(a \<mapsto> c')\<rparr>)) = Inr cl'"
    by (auto simp: cl_event_def bindE_eq_Inr Let_def)
  have st: "conn_step c c'" using assms(3) [OF f] .
  have i: "conn_inv c'" "loop_tid c' = cl_tid cl"
    using step_good [OF st] step_same [OF st] c(2-4) up_not_connecting by (auto simp: conn_good_def same_conn_def)
  show ?thesis
  proof (cases "closes c < closes c'")
    case True
    then show ?thesis
      using r cl_remove_inv [OF assms(1,2) i(1) closed_state [OF i(1) True] i(2), of socket ret t] by simp
  next
    case False
    then show ?thesis using cl_traffic_ok [OF assms(1,2) i(1) _ i(2)] assms(4) [OF f c(3)] r by auto
  qed
qed

lemma cl_destroy_ok:
  assumes "cl_inv cl"
  shows "runs (\<lambda>cl'. cl_inv cl' \<and> cl_destroy cl' = tl (cl_destroy cl)) (cl_run_destroy (cl_tid cl) cl)"
proof (cases "cl_destroy cl")
  case Nil
  then show ?thesis using assms by (simp add: cl_run_destroy_def)
next
  case (Cons a as)
  with assms obtain c where c: "cl_heap cl a = Some c" "conn_inv c" "m_state c = kDisConnected" "loop_tid c = cl_tid cl"
    by (auto simp: cl_inv_def)
  from destroyed_disconnected [OF c(2,3)] c(4)
  have "cl_run_destroy (cl_tid cl) cl = Inr (cl\<lparr>cl_heap := (cl_heap cl)(a := None), cl_destroy := as\<rparr>)"
    using Cons c(1) by (auto simp: cl_run_destroy_def)
  moreover have "cl_inv (cl\<lparr>cl_heap := (cl_heap cl)(a := None), cl_destroy := as\<rparr>)"
    using assms Cons by (auto simp: cl_inv_def)
  ultimately show ?thesis using Cons by simp
qed

lemma cl_reach_inv: "cl_reach cl \<Longrightarrow> cl_inv cl"
proof (induction rule: cl_reach.induct)
  case (new t name)
  show ?case using cn_reach_inv [OF cn_reach.new] by (simp add: newTcpClient_def cl_inv_def) (simp add: newConnector_def)
next
  case (connect cl socket ret t cl')
  then obtain cn where cn: "Connector_start socket ret t (cl_connector cl) = Inr cn"
    "cl' = cl\<lparr>cl_connector := cn\<rparr>\<lparr>cl_connect := True\<rparr>"
    by (auto simp: TcpClient_connect_def bindE_eq_Inr Let_def)
  then show ?case
    using cl_connector_ok [OF connect(3) cn_step.start [OF cn(1)] connector_steps_keep(1) [OF cn(1)]] cl_flags_ok(1) by simp
next
  case (stop cl)
  have "cl_inv (cl\<lparr>cl_connect := False\<rparr>)" by (rule cl_flags_ok(1) [OF stop(2)])
  from cl_connector_ok [OF this cn_step.stop connector_steps_keep(2)] show ?case by (simp add: TcpClient_stop_def)
next
  case (first cl socket ret cn)
  show ?case by (rule cl_connector_ok [OF first(3) cn_step.first [OF first(2)] connector_steps_keep(3) [OF first(2)]])
next
  case (timer cl i socket ret cn)
  show ?case by (rule cl_connector_ok [OF timer(4) cn_step.timer [OF timer(2,3)] connector_steps_keep(4) [OF timer(3)]])
next
  case (error cl ch cn)
  show ?case by (rule cl_connector_ok [OF error(5) cn_step.error [OF error(2-4)] connector_steps_keep(5) [OF error(4)]])
next
  case (event cl a f socket ret cl')
  show ?case by (rule cl_event_inv [OF event(6,2,3,4,5)])
next
  case (destroy cl cl')
  then show ?case using runs_eqD [OF cl_destroy_ok] by blast
qed (auto simp: enableRetry_def intro: cl_flags_ok cl_disconnect_inv cl_writable_inv)

section \<open>Properties\<close>

text \<open>A connector that is done with its connection, and whose old channel is deleted, can start again.\<close>

lemma restart_connects:
  assumes "cn_inv c" and "cn_state c = cConnected" and "ResetChannel \<notin> set (cn_functors c)"
  shows "runs (\<lambda>c'. cn_state c' = cConnecting \<and> cn_retryDelayMs c' = kInitRetryDelayMs)
    (Connector_restart (Inr sockfd) (Inr ()) (cn_tid c) c)"
proof -
  have "cn_channel c = None" using assms by (simp add: cn_inv_def)
  then show ?thesis
    by (simp add: Connector_restart_def cn_in_loop_def startInLoop_def Connector_connect_def createNonblockingOrDie_def
        connecting_def)
qed


text \<open>A client that connects, is connected and whose connector has deleted its channel.\<close>

lemma client_connected:
  obtains cl a where "cl_reach cl" "cl_connection cl = Some a" "cn_functors (cl_connector cl) = []"
    "cl_retry cl" "cl_connect cl" "cl_tid cl = 1"
proof -
  let ?c0 = "enableRetry (newTcpClient 1 ''cli'')"
  have r0: "cl_reach ?c0" by (intro cl_reach.retry cl_reach.new)
  obtain c1 where c1: "TcpClient_connect (Inr 5) (Inr ()) 1 ?c0 = Inr c1" "cn_state (cl_connector c1) = cConnecting"
    "cn_functors (cl_connector c1) = []" "cn_connect (cl_connector c1)" "cl_nextConnId c1 = 1" "cl_connection c1 = None" "cl_tid c1 = 1"
    "cl_retry c1" "cl_connect c1"
    by (simp add: TcpClient_connect_def enableRetry_def newTcpClient_def newConnector_def Connector_start_def startInLoop_def
        cn_in_loop_def Connector_connect_def createNonblockingOrDie_def connecting_def Let_def)
  have r1: "cl_reach c1" by (rule cl_reach.connect [OF r0 c1(1)])
  have i1: "cn_inv (cl_connector c1)" using cl_reach_inv [OF r1] by (simp add: cl_inv_def)
  then obtain ch where ch: "cn_channel (cl_connector c1) = Some ch" "isWriting ch" using c1(2) by (auto simp: cn_inv_def)
  obtain cn where cn: "cn_handleWrite 0 False (cl_connector c1) = Inr cn" "cn_functors cn = [ResetChannel]" "cn_state cn = cConnected"
    "length (cn_new (cl_connector c1)) < length (cn_new cn)"
    using c1(2,3,4) ch(1) by (simp add: cn_handleWrite_def removeAndResetChannel_def Let_def)
  have i2: "cl_inv (c1\<lparr>cl_connector := cn\<rparr>)"
    using cl_connector_ok [OF cl_reach_inv [OF r1] cn_step.writable [OF ch cn(1)]] handleWrite_keeps(1) [OF cn(1)] c1(2)
    by (simp add: cn_keeps_def)
  from runsE [OF cl_new_ok [OF i2, of "''peer''" "last (cn_new cn)"]] c1 cn(3) obtain c2 where
    c2: "cl_newConnection ''peer'' 1 (last (cn_new cn)) (c1\<lparr>cl_connector := cn\<rparr>) = Inr c2"
      "cl_connection c2 = Some (cl_nextAddr c1)" "cl_connector c2 = cn" "cl_retry c2" "cl_connect c2" "cl_tid c2 = 1"
    by auto
  have "cl_writable 0 False ''peer'' 1 c1 = Inr c2" using cn(1,4) c2(1) by (simp add: cl_writable_def)
  then have r2: "cl_reach c2" by (rule cl_reach.writable [OF r1 ch])
  have "run_functor (Inr 0) (Inr ()) (cl_connector c2) = Inr (resetChannel (cn\<lparr>cn_functors := []\<rparr>))"
    using c2(3) cn(2) by (simp add: run_functor_def)
  from that [OF cl_reach.first [OF r2 this], of "cl_nextAddr c1"] show thesis
    using c2 by (simp add: resetChannel_def)
qed


end
