(* ===== verification/RpcCall.thy ===== *)
theory RpcCall
  imports RpcFrame TcpClient
begin

text \<open>
  \<open>rpc/RpcClient.cpp\<close> on its \<open>TcpClient\<close>: a session is what the client owns, from its construction through
  \<open>CallMethod\<close> to its destruction. The loop of the client is a sequence of iterations, each a list of the
  events and queued functors it handles; the loop looks at the quit flag between iterations. The
  callbacks that a connection of the theory \<open>TcpConnection\<close> has noted in its log are called here.
\<close>

section \<open>The session\<close>

record session =
  ss_cli :: TcpClient
  ss_send_msg :: "byte list"
  ss_rsp :: "byte list option"
  ss_quit :: bool

definition newRpcClient :: "tid \<Rightarrow> session" where
  "newRpcClient t = \<lparr>ss_cli = newTcpClient t ''RpcClient'', ss_send_msg = [], ss_rsp = None, ss_quit = False\<rparr>"

text \<open>\<open>CallMethod\<close> up to the loop, whose \<open>loop\<close> first clears the quit flag.\<close>

definition CallMethod_connect ::
  "host_order \<Rightarrow> runtime \<Rightarrow> fd Sockets.sys \<Rightarrow> unit Sockets.sys \<Rightarrow> byte list \<Rightarrow> byte list \<Rightarrow> byte list \<Rightarrow>
     session \<Rightarrow> session res" where
  "CallMethod_connect h rt socket ret srv_name mthd_name request ss =
     (let ss1 = ss\<lparr>ss_send_msg := CallMethod_send_msg h rt srv_name mthd_name request\<rparr> in
      bindE (TcpClient_connect socket ret (cl_tid (ss_cli ss1)) (ss_cli ss1)) (\<lambda>cl.
      Inr (ss1\<lparr>ss_cli := cl, ss_quit := False\<rparr>)))"

text \<open>A callback of the client on the connection at address \<open>a\<close>.\<close>

definition on_conn :: "addr \<Rightarrow> (RpcClient \<Rightarrow> RpcClient res) \<Rightarrow> session \<Rightarrow> session res" where
  "on_conn a g ss =
     (case cl_heap (ss_cli ss) a of
        None \<Rightarrow> Inl Undefined
      | Some c \<Rightarrow>
          bindE (g \<lparr>cli_conn = c, cli_send_msg = ss_send_msg ss, rsp = ss_rsp ss, loop_quit = ss_quit ss\<rparr>) (\<lambda>r.
          Inr (ss\<lparr>ss_cli := (ss_cli ss)\<lparr>cl_heap := (cl_heap (ss_cli ss))(a \<mapsto> cli_conn r)\<rparr>,
                  ss_rsp := rsp r, ss_quit := loop_quit r\<rparr>)))"

definition ss_callback ::
  "host_order \<Rightarrow> runtime \<Rightarrow> sys_write \<Rightarrow> fd Sockets.sys \<Rightarrow> unit Sockets.sys \<Rightarrow> addr \<Rightarrow> conn_event \<Rightarrow> session \<Rightarrow> session res" where
  "ss_callback h rt wr socket ret a e ss =
     (let t = cl_tid (ss_cli ss) in
      case e of
        ConnectionCb _ \<Rightarrow> on_conn a (onConnection wr t) ss
      | MessageCb \<Rightarrow> on_conn a (onMessage h rt t) ss
      | CloseCb \<Rightarrow> bindE (cl_removeConnection socket ret t a (ss_cli ss)) (\<lambda>cl. Inr (ss\<lparr>ss_cli := cl\<rparr>))
      | SoError \<Rightarrow> Inr ss)"

text \<open>An operation \<open>f\<close> of the client's connection, followed by the callbacks it noted.\<close>

definition ss_event ::
  "host_order \<Rightarrow> runtime \<Rightarrow> sys_write \<Rightarrow> fd Sockets.sys \<Rightarrow> unit Sockets.sys \<Rightarrow>
     (TcpConnection \<Rightarrow> TcpConnection res) \<Rightarrow> session \<Rightarrow> session res" where
  "ss_event h rt wr socket ret f ss =
     (let cl = ss_cli ss in
      case cl_connection cl of
        None \<Rightarrow> Inl Undefined
      | Some a \<Rightarrow>
          (case cl_heap cl a of
             None \<Rightarrow> Inl Undefined
           | Some c \<Rightarrow>
               bindE (f c) (\<lambda>c'.
               foldE (ss_callback h rt wr socket ret a) (drop (length (log c)) (log c'))
                 (ss\<lparr>ss_cli := cl\<lparr>cl_heap := (cl_heap cl)(a \<mapsto> c')\<rparr>\<rparr>))))"

datatype ss_ev = Writable nat bool string | Refused | Readable "nat list \<Rightarrow> errno + byte list" | Drain
  | FirstFunctor | Expired nat | DestroyFunctor

definition ss_step ::
  "host_order \<Rightarrow> runtime \<Rightarrow> sys_write \<Rightarrow> fd Sockets.sys \<Rightarrow> unit Sockets.sys \<Rightarrow> ss_ev \<Rightarrow> session \<Rightarrow> session res" where
  "ss_step h rt wr socket ret ev ss =
     (let cl = ss_cli ss; t = cl_tid cl; a = cl_nextAddr cl;
          connector = (\<lambda>r. bindE r (\<lambda>cn. Inr (ss\<lparr>ss_cli := cl\<lparr>cl_connector := cn\<rparr>\<rparr>)))
      in case ev of
        Writable err self peer \<Rightarrow>
          bindE (cl_writable err self peer t cl) (\<lambda>cl'.
          if cl_nextAddr cl' = a then Inr (ss\<lparr>ss_cli := cl'\<rparr>)
          else (case cl_heap cl' a of
                  None \<Rightarrow> Inl Undefined
                | Some c \<Rightarrow> foldE (ss_callback h rt wr socket ret a) (log c) (ss\<lparr>ss_cli := cl'\<rparr>)))
      | Refused \<Rightarrow> connector (cn_handleError (cl_connector cl))
      | Readable readv \<Rightarrow> ss_event h rt wr socket ret (conn_handleRead readv t) ss
      | Drain \<Rightarrow> ss_event h rt wr socket ret (conn_handleWrite wr t) ss
      | FirstFunctor \<Rightarrow> connector (run_functor socket ret (cl_connector cl))
      | Expired i \<Rightarrow> connector (fire_timer socket ret i (cl_connector cl))
      | DestroyFunctor \<Rightarrow> bindE (cl_run_destroy t cl) (\<lambda>cl'. Inr (ss\<lparr>ss_cli := cl'\<rparr>)))"

text \<open>The loop over its iterations, and \<open>CallMethod\<close> with the iterations its loop makes.\<close>

primrec ss_loop ::
  "host_order \<Rightarrow> runtime \<Rightarrow> sys_write \<Rightarrow> fd Sockets.sys \<Rightarrow> unit Sockets.sys \<Rightarrow> ss_ev list list \<Rightarrow> session \<Rightarrow> session res" where
  "ss_loop h rt wr socket ret [] ss = Inr ss"
| "ss_loop h rt wr socket ret (evs # its) ss =
     (if ss_quit ss then Inr ss
      else bindE (foldE (ss_step h rt wr socket ret) evs ss) (ss_loop h rt wr socket ret its))"

definition RpcClient_CallMethod ::
  "host_order \<Rightarrow> runtime \<Rightarrow> sys_write \<Rightarrow> fd Sockets.sys \<Rightarrow> unit Sockets.sys \<Rightarrow> byte list \<Rightarrow> byte list \<Rightarrow> byte list \<Rightarrow>
     ss_ev list list \<Rightarrow> session \<Rightarrow> session res" where
  "RpcClient_CallMethod h rt wr socket ret srv_name mthd_name request its ss =
     bindE (CallMethod_connect h rt socket ret srv_name mthd_name request ss) (ss_loop h rt wr socket ret its)"

text \<open>The destructor: the client of the connection, then its connector.\<close>

definition destroyRpcClient :: "session \<Rightarrow> unit res" where
  "destroyRpcClient ss =
     bindE (destroyTcpClient True (ss_cli ss)) (\<lambda>cl.
     if cl_connection (ss_cli ss) = None then destroyConnector (cl_connector cl) else Inr ())"

section \<open>Connecting\<close>

text \<open>The connection at the moment its connection callback runs.\<close>

definition just_connected :: "tid \<Rightarrow> TcpConnection \<Rightarrow> bool" where
  "just_connected t c \<longleftrightarrow> conn_inv c \<and> m_state c = kConnected \<and> loop_tid c = t \<and> log c = [ConnectionCb True] \<and>
     content (m_inputBuffer c) = [] \<and> content (m_outputBuffer c) = [] \<and> written c = [] \<and> \<not> shut_wr c \<and>
     length (m_buffer (m_inputBuffer c)) < 2 ^ 13 \<and> length (m_buffer (m_outputBuffer c)) < 2 ^ 13"

lemma new_just_connected:
  obtains c where "bindE (newTcpConnection t name f) (\<lambda>conn.
      connectEstablished t (conn\<lparr>has_connectionCallBack := True, has_writeCompleteCallBack := w\<rparr>)) = Inr c"
    "just_connected t c"
proof -
  have "runs (\<lambda>b. layout b (replicate 8 0) [] (replicate kInitialSize 0)) (newBuffer kInitialSize)"
    by (rule newBuffer_ok) (simp add: kInitialSize_def)
  then obtain b where b0: "newBuffer kInitialSize = Inr b" "layout b (replicate 8 0) [] (replicate kInitialSize 0)"
    by (rule runsE)
  have "length (m_buffer b) = 8 + kInitialSize" using b0(2) by (simp add: layout_def)
  then have b: "newBuffer kInitialSize = Inr b" "buffer_inv b" "content b = []" "length (m_buffer b) < 2 ^ 13"
    using b0(1) layout_facts [OF b0(2)] by (simp_all add: kInitialSize_def)
  obtain c0 where c0: "newTcpConnection t name f = Inr c0" "m_inputBuffer c0 = b" "m_outputBuffer c0 = b"
    "written c0 = []" "\<not> shut_wr c0" "log c0 = []" "m_state c0 = kConnecting" "loop_tid c0 = t"
    using b(1) by (simp add: newTcpConnection_def)
  let ?c = "c0\<lparr>has_connectionCallBack := True, has_writeCompleteCallBack := w\<rparr>"
  have "conn_inv ?c" using new_inv [OF c0(1)] by (simp add: conn_inv_def conn_up_def closes_def)
  from runsE [OF connectEstablished_ok [OF this, of t]] c0 obtain c where
    c: "connectEstablished t ?c = Inr c" "conn_inv c" "m_state c = kConnected" "loop_tid c = t" by auto
  moreover from c(1) c0 have "log c = [ConnectionCb True]" "m_inputBuffer c = b" "m_outputBuffer c = b" "written c = []"
    "\<not> shut_wr c"
    by (auto simp: connectEstablished_def in_loop_def conn_mask_def emit_def isConnected_def)
  ultimately show thesis using that [of c] c0(1) b by (simp add: just_connected_def)
qed

text \<open>A client that waits for its connection, and one whose connection is \<open>c\<close>.\<close>

definition ss_waiting :: "tid \<Rightarrow> byte list \<Rightarrow> session \<Rightarrow> bool" where
  "ss_waiting t msg ss \<longleftrightarrow> ss_send_msg ss = msg \<and> ss_rsp ss = None \<and> \<not> ss_quit ss \<and>
     (\<exists>ch. cn_channel (cl_connector (ss_cli ss)) = Some ch) \<and> cn_state (cl_connector (ss_cli ss)) = cConnecting \<and>
     cn_connect (cl_connector (ss_cli ss)) \<and> cn_functors (cl_connector (ss_cli ss)) = [] \<and> cn_tid (cl_connector (ss_cli ss)) = t \<and>
     cl_tid (ss_cli ss) = t \<and> cl_heap (ss_cli ss) = Map.empty \<and> cl_destroy (ss_cli ss) = [] \<and> cl_nextAddr (ss_cli ss) = 0 \<and>
     cl_nextConnId (ss_cli ss) = 1 \<and> \<not> cl_retry (ss_cli ss)"

definition ss_open :: "tid \<Rightarrow> TcpConnection \<Rightarrow> session \<Rightarrow> bool" where
  "ss_open t c ss \<longleftrightarrow> \<not> ss_quit ss \<and> cn_channel (cl_connector (ss_cli ss)) = None \<and>
     cn_state (cl_connector (ss_cli ss)) = cConnected \<and> cn_tid (cl_connector (ss_cli ss)) = t \<and>
     cl_tid (ss_cli ss) = t \<and> cl_connection (ss_cli ss) = Some 0 \<and> cl_heap (ss_cli ss) = [0 \<mapsto> c] \<and>
     cl_destroy (ss_cli ss) = [] \<and> \<not> cl_retry (ss_cli ss) \<and> conn_inv c \<and> loop_tid c = t"

lemma call_waits:
  "runs (ss_waiting t (CallMethod_send_msg h rt s m q))
    (CallMethod_connect h rt (Inr sockfd) (Inr ()) s m q (newRpcClient t))"
  by (simp add: CallMethod_connect_def newRpcClient_def newTcpClient_def newConnector_def TcpClient_connect_def
      Connector_start_def startInLoop_def cn_in_loop_def Connector_connect_def createNonblockingOrDie_def connecting_def
      ss_waiting_def Let_def)

text \<open>The connection callback sends the request.\<close>

lemma connection_sends:
  assumes "just_connected t c" and "wr_ok wr" and "length msg < 2 ^ 31" and "wr msg \<notin> {Inl EPIPE, Inl ECONNRESET}"
  shows "runs (\<lambda>r. conn_inv (cli_conn r) \<and> m_state (cli_conn r) = kConnected \<and> loop_tid (cli_conn r) = t \<and>
      sent (cli_conn r) = msg \<and> m_inputBuffer (cli_conn r) = m_inputBuffer c \<and> log (cli_conn r) = log c \<and>
      rsp r = None \<and> \<not> loop_quit r)
    (onConnection wr t \<lparr>cli_conn = c, cli_send_msg = msg, rsp = None, loop_quit = False\<rparr>)"
proof -
  have c: "conn_inv c" "m_state c = kConnected" "loop_tid c = t" "content (m_outputBuffer c) = []" "written c = []"
    "length (m_buffer (m_outputBuffer c)) < 2 ^ 13" using assms(1) by (simp_all add: just_connected_def)
  have "conn_up c" "length (m_buffer (m_outputBuffer c)) + length msg < 2 ^ 63"
    using c assms(3) by (simp_all add: conn_up_def)
  from sendInLoop_ok [OF c(1) assms(2) this(1) _ assms(3) this(2), of t] c assms(4)
  obtain c' where c': "sendInLoop wr t msg c = Inr c'" "conn_inv c'" "m_state c' = kConnected" "loop_tid c' = t" "sent c' = msg"
    by (auto simp: runs_iff sent_def peer_gone_def)
  from c'(1) have "m_inputBuffer c' = m_inputBuffer c \<and> log c' = log c"
    by (auto simp: sendInLoop_def in_loop_def try_write_def buffer_rest_def note_high_water_def assertE_eq_Inr bindE_eq_Inr
        Let_def split: if_splits sum.splits)
  with c' c(2,3) show ?thesis by (simp add: onConnection_def isConnected_def TcpConnection_send_def)
qed

lemma call_sends:
  assumes "ss_waiting t msg ss" and "wr_ok wr" and "length msg < 2 ^ 31" and "wr msg \<notin> {Inl EPIPE, Inl ECONNRESET}"
  shows "runs (\<lambda>ss'. ss_rsp ss' = None \<and> (\<exists>c. ss_open t c ss' \<and> m_state c = kConnected \<and> sent c = msg \<and>
      content (m_inputBuffer c) = [] \<and> length (m_buffer (m_inputBuffer c)) < 2 ^ 13))
    (ss_loop h rt wr socket ret [[Writable 0 False peer, FirstFunctor]] ss)"
proof -
  let ?cl = "ss_cli ss" and ?cn = "cl_connector (ss_cli ss)"
  obtain ch where ch: "cn_channel ?cn = Some ch" using assms(1) by (auto simp: ss_waiting_def)
  note w = assms(1) [unfolded ss_waiting_def]
  obtain cn f where cn: "cn_handleWrite 0 False ?cn = Inr cn" "cn_functors cn = [ResetChannel]" "cn_state cn = cConnected"
    "cn_new cn = cn_new ?cn @ [f]" "cn_tid cn = t"
    using w ch by (simp add: cn_handleWrite_def removeAndResetChannel_def Let_def)
  obtain c where c: "bindE (newTcpConnection t (cl_connName peer ?cl) f) (\<lambda>conn. connectEstablished t
      (conn\<lparr>has_connectionCallBack := True, has_writeCompleteCallBack := cl_hasWriteComplete ?cl\<rparr>)) = Inr c" "just_connected t c"
    by (rule new_just_connected)
  define cl1 where "cl1 = ?cl\<lparr>cl_connector := cn, cl_nextConnId := 2, cl_nextAddr := 1, cl_connection := Some 0,
      cl_heap := [0 \<mapsto> c]\<rparr>"
  have "cl_connName peer (?cl\<lparr>cl_connector := cn\<rparr>) = cl_connName peer ?cl" by (simp add: cl_connName_def)
  then have new: "cl_writable 0 False peer t ?cl = Inr cl1"
    using cn w c(1) by (auto simp: cl_writable_def cl_newConnection_def cl_in_loop_def bindE_eq_Inr Let_def cl1_def)
  have log: "log c = [ConnectionCb True]" using c(2) by (simp add: just_connected_def)
  from connection_sends [OF c(2) assms(2-4)] obtain r where
    r: "onConnection wr t \<lparr>cli_conn = c, cli_send_msg = msg, rsp = None, loop_quit = False\<rparr> = Inr r"
      "conn_inv (cli_conn r)" "m_state (cli_conn r) = kConnected" "loop_tid (cli_conn r) = t" "sent (cli_conn r) = msg"
      "m_inputBuffer (cli_conn r) = m_inputBuffer c" "rsp r = None" "\<not> loop_quit r" by (auto simp: runs_iff)
  have inp: "content (m_inputBuffer c) = []" "length (m_buffer (m_inputBuffer c)) < 2 ^ 13"
    using c(2) by (simp_all add: just_connected_def)
  have q: "ss_send_msg ss = msg" "ss_rsp ss = None" "ss_quit ss = False" "cl_tid ?cl = t" "cl_nextAddr ?cl = 0" using w by auto
  have h1: "cl_heap cl1 0 = Some c" "cl_nextAddr cl1 = 1" "cl_tid cl1 = t" "cl_heap cl1 = [0 \<mapsto> c]" using q by (simp_all add: cl1_def)
  have cb: "ss_callback h rt wr socket ret 0 (ConnectionCb True) (ss\<lparr>ss_cli := cl1\<rparr>) =
      Inr (ss\<lparr>ss_cli := cl1\<lparr>cl_heap := [0 \<mapsto> cli_conn r]\<rparr>, ss_rsp := rsp r, ss_quit := loop_quit r\<rparr>)"
    by (simp add: ss_callback_def on_conn_def h1 q r(1))
  have st: "ss_step h rt wr socket ret (Writable 0 False peer) ss =
      Inr (ss\<lparr>ss_cli := cl1\<lparr>cl_heap := [0 \<mapsto> cli_conn r]\<rparr>, ss_rsp := rsp r, ss_quit := loop_quit r\<rparr>)"
    by (simp add: ss_step_def q new h1(1,2) log cb)
  show ?thesis
    using q r(2-8) inp cn w
    by (simp add: st) (simp add: ss_step_def run_functor_def cl1_def ss_open_def resetChannel_def,
      intro exI [of _ "cli_conn r"], simp)
qed

section \<open>The response\<close>

text \<open>What \<open>readv\<close> returns when \<open>data\<close> has arrived; nothing is the end of the stream.\<close>

definition arrives :: "byte list \<Rightarrow> nat list \<Rightarrow> errno + byte list" where
  "arrives data iov = Inr (take (sum_list iov) data)"

lemma arrives_ok: "readv_ok (arrives data)"
  by (simp add: readv_ok_def arrives_def)

lemma read_arrived:
  assumes "buffer_inv b" and "length (m_buffer b) + kExtraBufferSize < 2 ^ 63" and "length data \<le> kExtraBufferSize"
  shows "runs (\<lambda>(b', n, err). buffer_inv b' \<and> content b' = content b @ data \<and> n = int (length data)) (readFd (arrives data) b)"
proof -
  define iov where "iov = (if writableBytes b < kExtraBufferSize then [writableBytes b, kExtraBufferSize] else [writableBytes b])"
  have "arrives data iov = Inr data" using assms(3) by (simp add: arrives_def iov_def)
  then show ?thesis using runs_mono [OF readFd_ok [OF assms(1,2) arrives_ok iov_def, of data]] by fastforce
qed

lemma read_end:
  assumes "buffer_inv b"
  shows "readFd (arrives []) b = Inr (b, 0, None)"
  using assms by (simp add: readFd_def arrives_def vec_write_def Let_def buffer_inv_def size_add_exact)

lemma call_answered:
  assumes "protobuf_runtime rt" and "length r < 2 ^ 31" and "length (frame (InternalSerialize rt (response_msg r))) \<le> kExtraBufferSize"
    and "ss_open t c ss" and "m_state c = kConnected" and "content (m_inputBuffer c) = []" "length (m_buffer (m_inputBuffer c)) < 2 ^ 13"
  shows "runs (\<lambda>ss'. ss_rsp ss' = Some r \<and> (\<exists>c'. ss_open t c' ss' \<and> m_state c' = kDisConnecting \<and> sent c' = sent c \<and>
      (shut_wr c' \<longleftrightarrow> shut_wr c \<or> content (m_outputBuffer c) = [])))
    (ss_loop h rt wr socket ret [[Readable (arrives (frame (InternalSerialize rt (response_msg r))))]] ss)"
proof -
  let ?d = "frame (InternalSerialize rt (response_msg r))"
  note o = assms(4) [unfolded ss_open_def]
  have i: "conn_inv c" "buffer_inv (m_inputBuffer c)" using o by (simp_all add: conn_inv_def)
  have "length (m_buffer (m_inputBuffer c)) + kExtraBufferSize < 2 ^ 63" using assms(7) by (simp add: kExtraBufferSize_def)
  from read_arrived [OF i(2) this assms(3)] obtain b n e where
    b: "readFd (arrives ?d) (m_inputBuffer c) = Inr (b, n, e)" "buffer_inv b" "content b = ?d" "n = int (length ?d)"
    using assms(6) by (auto simp: runs_iff)
  have pos: "0 < n" using b(4) by (simp add: frame_def)
  define c1 where "c1 = emit MessageCb (c\<lparr>m_inputBuffer := b\<rparr>)"
  have hr: "conn_handleRead (arrives ?d) t c = Inr c1" using b(1) pos by (simp add: conn_handleRead_def c1_def)
  have c1: "conn_inv c1" "m_state c1 = kConnected" "loop_tid c1 = t" "content (m_inputBuffer c1) = ?d @ []" "sent c1 = sent c"
    "shut_wr c1 = shut_wr c" "m_outputBuffer c1 = m_outputBuffer c" "log c1 = log c @ [MessageCb]"
    using i(1) b(2,3) assms(5) o by (simp_all add: c1_def conn_inv_def conn_up_def closes_def sent_def)
  let ?cl = "\<lparr>cli_conn = c1, cli_send_msg = ss_send_msg ss, rsp = ss_rsp ss, loop_quit = False\<rparr>"
  have "length (InternalSerialize rt (response_msg r)) + 4 < 2 ^ 31"
    using assms(3) by (simp add: frame_def kExtraBufferSize_def)
  from client_parses [OF assms(1,2) this, of ?cl t "[]" h] c1 obtain m where
    m: "onMessage h rt t ?cl = Inr m" "rsp m = Some r" "conn_inv (cli_conn m)" "m_state (cli_conn m) = kDisConnecting"
      "loop_tid (cli_conn m) = t" "\<not> loop_quit m" "sent (cli_conn m) = sent c"
      "shut_wr (cli_conn m) \<longleftrightarrow> shut_wr c \<or> content (m_outputBuffer c) = []" by (auto simp: runs_iff)
  have st: "ss_step h rt wr socket ret (Readable (arrives ?d)) ss = Inr (ss\<lparr>ss_cli := (ss_cli ss)\<lparr>cl_heap := [0 \<mapsto> cli_conn m]\<rparr>,
      ss_rsp := rsp m, ss_quit := loop_quit m\<rparr>)"
    using o by (simp add: ss_step_def ss_event_def hr c1(8) ss_callback_def on_conn_def m(1))
  have "ss_open t (cli_conn m) (ss\<lparr>ss_cli := (ss_cli ss)\<lparr>cl_heap := [0 \<mapsto> cli_conn m]\<rparr>, ss_rsp := rsp m, ss_quit := loop_quit m\<rparr>)"
    using o m(3,5,6) by (simp add: ss_open_def)
  then show ?thesis using o m st by auto
qed

section \<open>The end\<close>

text \<open>A client whose call is over: it holds no connection, and its connector is not used again.\<close>

definition ss_done :: "tid \<Rightarrow> session \<Rightarrow> bool" where
  "ss_done t ss \<longleftrightarrow> ss_quit ss \<and> cl_connection (ss_cli ss) = None \<and> cl_heap (ss_cli ss) = Map.empty \<and> cl_destroy (ss_cli ss) = [] \<and>
     cn_state (cl_connector (ss_cli ss)) = cConnected \<and> cn_channel (cl_connector (ss_cli ss)) = None \<and>
     cn_tid (cl_connector (ss_cli ss)) = t \<and> cl_tid (ss_cli ss) = t"

lemma call_ends:
  assumes "ss_open t c ss" and "conn_up c"
  shows "runs (\<lambda>ss'. ss_done t ss' \<and> ss_rsp ss' = ss_rsp ss)
    (ss_loop h rt wr socket ret [[Readable (arrives []), DestroyFunctor]] ss)"
proof -
  note o = assms(1) [unfolded ss_open_def]
  have i: "conn_inv c" "buffer_inv (m_inputBuffer c)" using o by (simp_all add: conn_inv_def)
  from runsE [OF conn_handleClose_ok [OF i(1) assms(2), of t]] o obtain c' where
    c': "conn_handleClose t c = Inr c'" "conn_inv c'" "m_state c' = kDisConnected" "loop_tid c' = t" by auto
  have hr: "conn_handleRead (arrives []) t c = Inr c'" using c'(1) read_end [OF i(2)] by (simp add: conn_handleRead_def)
  have log: "log c' = log c @ [ConnectionCb False, CloseCb]"
    using c'(1) by (auto simp: conn_handleClose_def in_loop_def assertE_eq_Inr isConnected_def Let_def split: if_splits)
  let ?r = "\<lparr>cli_conn = c', cli_send_msg = ss_send_msg ss, rsp = ss_rsp ss, loop_quit = False\<rparr>"
  have oc: "onConnection wr t ?r = Inr (?r\<lparr>loop_quit := True\<rparr>)"
    using c'(3) by (simp add: onConnection_def isConnected_def shutdown_def)
  have st: "ss_step h rt wr socket ret (Readable (arrives [])) ss = Inr (ss\<lparr>ss_cli := (ss_cli ss)\<lparr>cl_heap := [0 \<mapsto> c'],
      cl_connection := None, cl_destroy := [0]\<rparr>, ss_quit := True\<rparr>)"
    using o c'(4) by (simp add: ss_step_def ss_event_def hr log ss_callback_def on_conn_def oc cl_removeConnection_def cl_in_loop_def)
  from destroyed_disconnected [OF c'(2,3)] c'(4) obtain c2 where
    "connectDestroyed t c' = Inr c2" "destroyTcpConnection c2 = Inr ()" by auto
  with o st show ?thesis by (simp add: ss_step_def cl_run_destroy_def ss_done_def)
qed

lemma done_again:
  assumes "ss_done t ss"
  shows "CallMethod_connect h rt socket ret s m q ss = Inl AssertFail" and "destroyRpcClient ss = Inr ()"
  using assms
  by (simp_all add: ss_done_def CallMethod_connect_def TcpClient_connect_def Connector_start_def startInLoop_def cn_in_loop_def
      destroyRpcClient_def destroyTcpClient_def destroyConnector_def Connector_stop_def Let_def)

lemma ss_loop_append:
  "ss_loop h rt wr socket ret (its @ its') ss = bindE (ss_loop h rt wr socket ret its ss) (ss_loop h rt wr socket ret its')"
proof (induction its arbitrary: ss)
  case Nil
  show ?case by simp
next
  case (Cons evs its)
  have IH: "ss_loop h rt wr socket ret (its @ its') = (\<lambda>x. bindE (ss_loop h rt wr socket ret its x) (ss_loop h rt wr socket ret its'))"
    by (rule ext) (rule Cons)
  have quit: "ss_quit ss \<Longrightarrow> ss_loop h rt wr socket ret its' ss = Inr ss" by (cases its') simp_all
  show ?case using quit by (simp add: IH bindE_assoc)
qed

lemma take_2: "take 1 [x, y, z] = [x]" "take 2 [x, y, z] = [x] @ [y]" "[x, y, z] @ ws = [x] @ [y] @ [z] @ ws"
  by simp_all

text \<open>The three iterations of a call: the socket connects, the response arrives, the server closes.\<close>

definition connect_it :: "string \<Rightarrow> ss_ev list" where
  "connect_it peer = [Writable 0 False peer, FirstFunctor]"

definition answer_it :: "byte list \<Rightarrow> ss_ev list" where
  "answer_it response = [Readable (arrives response)]"

definition close_it :: "ss_ev list" where
  "close_it = [Readable (arrives []), DestroyFunctor]"

section \<open>Properties\<close>

text \<open>
  C11: a call of the client, from construction to destruction. When the socket connects, the client's
  connection gets exactly the request frame to transmit; when a response frame of at most \<open>kExtraBufferSize\<close> bytes
  has arrived in one piece, its answer is handed to the caller and the connection is half closed; when
  the server closes, the loop ends, whatever would come after, with the answer in place and every
  connection destroyed, and the client can be destroyed. The same client cannot call a second time: the
  assertion of \<open>startInLoop\<close> on the connector's state fails.
\<close>

theorem rpc_client_session:
  assumes "protobuf_runtime rt" and "wr_ok wr" and "length (CallMethod_send_msg h rt s m q) < 2 ^ 31"
    and "wr (CallMethod_send_msg h rt s m q) \<notin> {Inl EPIPE, Inl ECONNRESET}"
    and "length r < 2 ^ 31" and "length (frame (InternalSerialize rt (response_msg r))) \<le> kExtraBufferSize"
    and call: "call = (\<lambda>its. RpcClient_CallMethod h rt wr (Inr sockfd) (Inr ()) s m q its (newRpcClient t))"
    and its: "its = [connect_it peer, answer_it (frame (InternalSerialize rt (response_msg r))), close_it]"
  shows "\<exists>ss1 ss2 ss3 c1 c2. call (take 1 its) = Inr ss1 \<and> ss_rsp ss1 = None \<and> cl_heap (ss_cli ss1) = [0 \<mapsto> c1] \<and>
      m_state c1 = kConnected \<and> sent c1 = CallMethod_send_msg h rt s m q \<and>
    call (take 2 its) = Inr ss2 \<and> ss_rsp ss2 = Some r \<and> \<not> ss_quit ss2 \<and> cl_heap (ss_cli ss2) = [0 \<mapsto> c2] \<and>
      m_state c2 = kDisConnecting \<and> sent c2 = sent c1 \<and> (content (m_outputBuffer c1) = [] \<longrightarrow> shut_wr c2) \<and>
    call (its @ later) = Inr ss3 \<and> ss_quit ss3 \<and> ss_rsp ss3 = Some r \<and>
      cl_heap (ss_cli ss3) = Map.empty \<and> destroyRpcClient ss3 = Inr () \<and>
      CallMethod_connect h rt socket ret s' m' q' ss3 = Inl AssertFail"
proof -
  let ?loop = "ss_loop h rt wr (Inr sockfd) (Inr ())" and ?d = "frame (InternalSerialize rt (response_msg r))"
  from runsE [OF call_waits [of t h rt s m q sockfd]] obtain ss0 where
    0: "CallMethod_connect h rt (Inr sockfd) (Inr ()) s m q (newRpcClient t) = Inr ss0" "ss_waiting t (CallMethod_send_msg h rt s m q) ss0" .
  from runsE [OF call_sends [OF 0(2) assms(2-4), of h rt "Inr sockfd" "Inr ()" peer]] obtain ss1 c1 where
    1: "?loop [connect_it peer] ss0 = Inr ss1" "ss_rsp ss1 = None" "ss_open t c1 ss1" "m_state c1 = kConnected" "sent c1 = CallMethod_send_msg h rt s m q"
      "content (m_inputBuffer c1) = []" "length (m_buffer (m_inputBuffer c1)) < 2 ^ 13" unfolding connect_it_def by blast
  from runsE [OF call_answered [OF assms(1,5,6) 1(3,4,6,7), of h wr "Inr sockfd" "Inr ()"]]
  obtain ss2 c2 where
    2: "?loop [answer_it ?d] ss1 = Inr ss2" "ss_rsp ss2 = Some r" "ss_open t c2 ss2" "m_state c2 = kDisConnecting" "sent c2 = sent c1"
      "shut_wr c2 \<longleftrightarrow> shut_wr c1 \<or> content (m_outputBuffer c1) = []" unfolding answer_it_def by blast
  have "conn_up c2" using 2(4) by (simp add: conn_up_def)
  from runsE [OF call_ends [OF 2(3) this, of h rt wr "Inr sockfd" "Inr ()"]] obtain ss3 where
    3: "?loop [close_it] ss2 = Inr ss3" "ss_done t ss3" "ss_rsp ss3 = ss_rsp ss2" unfolding close_it_def by blast
  have later: "?loop later ss3 = Inr ss3" using 3(2) by (cases later) (simp_all add: ss_done_def)
  have "call [connect_it peer] = Inr ss1" using 0(1) 1(1) by (simp add: call RpcClient_CallMethod_def)
  moreover have "call ([connect_it peer] @ [answer_it ?d]) = Inr ss2"
    using 0(1) 1(1) 2(1) by (simp add: call RpcClient_CallMethod_def ss_loop_append del: append.simps ss_loop.simps)
  moreover have "call ([connect_it peer] @ [answer_it ?d] @ [close_it] @ later) = Inr ss3"
    using 0(1) 1(1) 2(1) 3(1) later
    by (simp add: call RpcClient_CallMethod_def ss_loop_append del: append.simps ss_loop.simps)
  moreover have "cl_heap (ss_cli ss1) = [0 \<mapsto> c1]" "cl_heap (ss_cli ss2) = [0 \<mapsto> c2]" "\<not> ss_quit ss2"
    using 1(3) 2(3) by (simp_all add: ss_open_def)
  moreover have "ss_quit ss3" "cl_heap (ss_cli ss3) = Map.empty" using 3(2) by (simp_all add: ss_done_def)
  ultimately show ?thesis
    unfolding its take_2 using 1(2,4,5) 2(2,4-6) 3(3) done_again [OF 3(2)]
    by (intro exI [of _ ss1] exI [of _ ss2] exI [of _ ss3] exI [of _ c1] exI [of _ c2]) simp
qed

theorem rpc_client_session_witness:
  "\<exists>ss. RpcClient_CallMethod LittleEndian wire take_all (Inr 5) (Inr ()) [69] [112] []
     [[Writable 0 False ''peer'', FirstFunctor], [Readable (arrives [0, 0, 0, 5, 8, 2, 50, 1, 7])],
      [Readable (arrives []), DestroyFunctor]] (newRpcClient 1) = Inr ss \<and> ss_rsp ss = Some [7] \<and> ss_quit ss \<and>
     destroyRpcClient ss = Inr ()"
proof -
  have w: "wr_ok take_all" "take_all d \<notin> {Inl EPIPE, Inl ECONNRESET}" for d
    by (simp_all add: wr_ok_def take_all_def)
  have f: "frame (InternalSerialize wire (response_msg [7])) = [0, 0, 0, 5, 8, 2, 50, 1, 7]"
    unfolding seven_bytes by (simp add: frame_def be_bytes_4)
  from rpc_client_session [where rt = wire and wr = take_all and h = LittleEndian and s = "[69]" and m = "[112]" and q = "[]"
      and r = "[7]" and t = 1 and sockfd = 5 and peer = "''peer''" and later = "[]", OF wire.protobuf_runtime_axioms w(1) _ w(2) _ _ refl refl]
  show ?thesis unfolding f request_frame connect_it_def answer_it_def close_it_def by (simp add: kExtraBufferSize_def) blast
qed

end
