(* ===== verification/XmlCursor.thy ===== *)
theory XmlCursor
  imports TinyXml
begin

text \<open>
  \<open>TiXmlParsingData\<close> of \<open>submodules/tinyxml/tinyxmlparser.cpp\<close>, which counts rows and columns up to a position
  of the text. \<open>s\<close> is the text from \<open>p\<close> on and \<open>d\<close> the distance from \<open>p\<close> to the position asked for. The loop
  need not end, so its first argument bounds the number of its turns.
\<close>

record TiXmlParsingData =
  c_row :: int
  c_col :: int
  c_stamp :: string
  c_tabsize :: int

definition newTiXmlParsingData :: "string \<Rightarrow> int \<Rightarrow> int \<Rightarrow> int \<Rightarrow> TiXmlParsingData" where
  "newTiXmlParsingData start tabsize row col = \<lparr>c_row = row, c_col = col, c_stamp = start, c_tabsize = tabsize\<rparr>"

text \<open>One turn: the text and distance after it, with row and column.\<close>

type_synonym cursor = "string \<times> int \<times> int \<times> int"

definition skip_pair :: "char \<Rightarrow> string \<Rightarrow> nat" where
  "skip_pair c s = (if tl s \<noteq> [] \<and> hd (tl s) = c then 2 else 1)"

definition stamp_turn :: "TiXmlEncoding \<Rightarrow> int \<Rightarrow> cursor \<Rightarrow> cursor" where
  "stamp_turn enc tabsize st =
     (case st of (s, d, row, col) \<Rightarrow>
        let go = (\<lambda>k r c. (drop k s, d - int k, r, c)); b = ord_of (hd s) in
        if b = 13 then go (skip_pair CHR 0x0A s) (row + 1) 0
        else if b = 10 then go (skip_pair CHR 0x0D s) (row + 1) 0
        else if b = 9 then go 1 row ((col div tabsize + 1) * tabsize)
        else if b = 0xef
        then if enc = TIXML_ENCODING_UTF8
             then if length s \<ge> 3 then go 3 row (if utf_lead s then col else col + 1) else st
             else go 1 row (col + 1)
        else go (if enc = TIXML_ENCODING_UTF8 then utf8ByteTable b else 1) row (col + 1))"

text \<open>\<open>Some None\<close>: the terminating zero was met before the position, and the cursor stays as it was.\<close>

fun stamp_loop :: "nat \<Rightarrow> TiXmlEncoding \<Rightarrow> int \<Rightarrow> cursor \<Rightarrow> cursor option option" where
  "stamp_loop 0 enc tabsize st = None"
| "stamp_loop (Suc n) enc tabsize st =
     (if fst (snd st) \<le> 0 then Some (Some st)
      else if fst st = [] then Some None
      else stamp_loop n enc tabsize (stamp_turn enc tabsize st))"

definition Stamp :: "nat \<Rightarrow> TiXmlEncoding \<Rightarrow> int \<Rightarrow> TiXmlParsingData \<Rightarrow> TiXmlParsingData option" where
  "Stamp n enc d data =
     (if c_tabsize data < 1 then Some data
      else case stamp_loop n enc (c_tabsize data) (c_stamp data, d, c_row data, c_col data) of
        None \<Rightarrow> None
      | Some None \<Rightarrow> Some data
      | Some (Some (s, _, row, col)) \<Rightarrow> Some (data\<lparr>c_row := row, c_col := col, c_stamp := s\<rparr>))"

section \<open>When it ends\<close>

text \<open>A lead byte \<open>0xEF\<close> with two characters behind it, at every place of the text.\<close>

definition leads_whole :: "string \<Rightarrow> bool" where
  "leads_whole s \<longleftrightarrow> (\<forall>k < length s. length s < k + 3 \<longrightarrow> ord_of (s ! k) \<noteq> 0xef)"

lemma leads_whole_drop: "leads_whole s \<Longrightarrow> leads_whole (drop k s)"
  by (auto simp: leads_whole_def)

lemma stamp_turn_progress:
  assumes "s \<noteq> []" and "enc = TIXML_ENCODING_UTF8 \<Longrightarrow> leads_whole s"
  shows "\<exists>k r c. stamp_turn enc tabsize (s, d, row, col) = (drop k s, d - int k, r, c) \<and> 0 < k"
proof -
  have "ord_of (hd s) \<noteq> 0xef" if "enc = TIXML_ENCODING_UTF8" "length s < 3"
    using assms(2) [OF that(1)] assms(1) that(2) by (auto simp: leads_whole_def hd_conv_nth)
  moreover have "0 < skip_pair x s" for x by (simp add: skip_pair_def)
  moreover have "0 < utf8ByteTable b" for b by (simp add: utf8ByteTable_def)
  ultimately show ?thesis by (auto simp: stamp_turn_def Let_def not_le)
qed

lemma stamp_ends:
  assumes "enc = TIXML_ENCODING_UTF8 \<Longrightarrow> leads_whole s" and "nat d < n"
  shows "\<exists>r. stamp_loop n enc tabsize (s, d, row, col) = Some r"
  using assms
proof (induction n arbitrary: s d row col)
  case (Suc n)
  show ?case
  proof (cases "d \<le> 0 \<or> s = []")
    case False
    then obtain k r c where k: "stamp_turn enc tabsize (s, d, row, col) = (drop k s, d - int k, r, c)" "0 < k"
      using stamp_turn_progress [OF _ Suc.prems(1)] by blast
    have "\<exists>r'. stamp_loop n enc tabsize (drop k s, d - int k, r, c) = Some r'"
      using Suc.prems k(2) leads_whole_drop False by (intro Suc.IH) auto
    then show ?thesis using False k(1) by simp
  qed auto
qed simp

text \<open>Otherwise the loop meets the lead byte and stays there, however long it runs.\<close>

lemma stamp_hangs:
  assumes "s \<noteq> []" and "length s < 3" and "ord_of (hd s) = 0xef" and "0 < d"
  shows "stamp_loop n TIXML_ENCODING_UTF8 tabsize (s, d, row, col) = None"
  using assms by (induction n) (simp_all add: stamp_turn_def)

section \<open>Properties\<close>

text \<open>
  Counting rows and columns comes to an end with at most one turn per character up to the position,
  in every encoding but UTF-8, and in UTF-8 if every byte \<open>0xEF\<close> of the text has two bytes behind it.
  Without them, the loop stops moving at that byte and never ends.
\<close>

theorem cursor_ends:
  assumes "1 \<le> c_tabsize data" and "0 < d"
  shows "(enc \<noteq> TIXML_ENCODING_UTF8 \<or> leads_whole (c_stamp data) \<longrightarrow> (\<exists>data'. Stamp (nat d + 1) enc d data = Some data')) \<and>
    (enc = TIXML_ENCODING_UTF8 \<and> length (c_stamp data) \<in> {1, 2} \<and> ord_of (hd (c_stamp data)) = 0xef \<longrightarrow>
       (\<forall>n. Stamp n enc d data = None))"
proof (intro conjI impI allI)
  assume "enc \<noteq> TIXML_ENCODING_UTF8 \<or> leads_whole (c_stamp data)"
  then obtain r where r: "stamp_loop (nat d + 1) enc (c_tabsize data) (c_stamp data, d, c_row data, c_col data) = Some r"
    using stamp_ends [of enc "c_stamp data" d "nat d + 1" "c_tabsize data" "c_row data" "c_col data"] by (metis less_add_one)
  then show "\<exists>data'. Stamp (nat d + 1) enc d data = Some data'"
    unfolding Stamp_def r by (cases r) (simp_all split: prod.split)
next
  fix n
  assume a: "enc = TIXML_ENCODING_UTF8 \<and> length (c_stamp data) \<in> {1, 2} \<and> ord_of (hd (c_stamp data)) = 0xef"
  then have "c_stamp data \<noteq> []" by auto
  with a have "stamp_loop n enc (c_tabsize data) (c_stamp data, d, c_row data, c_col data) = None"
    using stamp_hangs [of "c_stamp data" d] assms(2) by auto
  then show "Stamp n enc d data = None" using assms(1) by (simp add: Stamp_def)
qed

theorem cursor_ends_witness:
  "(\<exists>data'. Stamp 6 TIXML_ENCODING_UTF8 5 (newTiXmlParsingData ''<a />'' 4 0 0) = Some data') \<and>
   Stamp 1000 TIXML_ENCODING_UTF8 2 (newTiXmlParsingData [CHR 0xEF, CHR '' ''] 4 0 0) = None"
proof -
  let ?a = "newTiXmlParsingData ''<a />'' 4 0 0" and ?b = "newTiXmlParsingData [CHR 0xEF, CHR '' ''] 4 0 0"
  have "leads_whole ''<a />''"
    unfolding leads_whole_def
  proof (intro allI impI)
    fix k :: nat assume "k < length ''<a />''"
    then have "k \<in> {0, 1, 2, 3, 4}" by auto
    then show "ord_of (''<a />'' ! k) \<noteq> 0xef" by auto
  qed
  then have "leads_whole (c_stamp ?a)" by (simp add: newTiXmlParsingData_def)
  then have "\<exists>data'. Stamp 6 TIXML_ENCODING_UTF8 5 ?a = Some data'"
    using cursor_ends [of ?a 5 TIXML_ENCODING_UTF8] by (simp add: newTiXmlParsingData_def)
  moreover have "Stamp 1000 TIXML_ENCODING_UTF8 2 ?b = None"
    using cursor_ends [of ?b 2 TIXML_ENCODING_UTF8] by (simp add: newTiXmlParsingData_def)
  ultimately show ?thesis by blast
qed

end
