(* ===== verification/TinyStr.thy ===== *)
theory TinyStr
  imports TinyXml
begin

text \<open>
  \<open>submodules/tinyxml/tinystr.h\<close> and \<open>tinystr.cpp\<close>: the string class of the XML parser. A string is the address
  of its representation on a heap; address 0 is the static \<open>nullrep_\<close> that all empty strings share. Memory
  that \<open>new\<close> returns is not initialised: its bytes are given by a parameter \<open>g\<close>. A \<open>const char *\<close> is a
  literal or points into a representation, so that reading freed memory shows. Sizes are those of a 64-bit
  machine; an allocation of \<open>2 ^ 63\<close> bytes or more throws.
\<close>

section \<open>Memory\<close>

abbreviation nul :: char where "nul \<equiv> CHR 0x00"

record Rep =
  rep_size :: nat
  rep_capacity :: nat
  rep_str :: "char list"

record sheap =
  sh_rep :: "addr \<rightharpoonup> Rep"
  sh_next :: addr

datatype src = Lit "char list" | At addr nat

definition nullrep :: Rep where
  "nullrep = \<lparr>rep_size = 0, rep_capacity = 0, rep_str = [nul]\<rparr>"

definition fetch :: "src \<Rightarrow> nat \<Rightarrow> sheap \<Rightarrow> char list res" where
  "fetch s n h =
     (case s of
        Lit cs \<Rightarrow> vec_read 0 n (cs @ [nul])
      | At a p \<Rightarrow> (case sh_rep h a of None \<Rightarrow> Inl Undefined | Some r \<Rightarrow> vec_read p n (rep_str r)))"

definition write_chars :: "addr \<Rightarrow> nat \<Rightarrow> char list \<Rightarrow> sheap \<Rightarrow> sheap res" where
  "write_chars a p xs h =
     (case sh_rep h a of
        None \<Rightarrow> Inl Undefined
      | Some r \<Rightarrow> bindE (vec_write p xs (rep_str r)) (\<lambda>s. Inr (h\<lparr>sh_rep := (sh_rep h)(a \<mapsto> r\<lparr>rep_str := s\<rparr>)\<rparr>)))"

text \<open>The C string that starts at an offset; without a terminating zero the read runs out of the object.\<close>

definition cstr_from :: "addr \<Rightarrow> nat \<Rightarrow> sheap \<Rightarrow> char list res" where
  "cstr_from a p h =
     (case sh_rep h a of
        None \<Rightarrow> Inl Undefined
      | Some r \<Rightarrow> if nul \<in> set (drop p (rep_str r)) then Inr (takeWhile (\<lambda>c. c \<noteq> nul) (drop p (rep_str r))) else Inl Undefined)"

definition strlen :: "char list \<Rightarrow> nat" where
  "strlen cs = length (takeWhile (\<lambda>c. c \<noteq> nul) cs)"

section \<open>Representations\<close>

definition rep_of :: "(Rep \<Rightarrow> 'a) \<Rightarrow> addr \<Rightarrow> sheap \<Rightarrow> 'a res" where
  "rep_of f a h = (case sh_rep h a of None \<Rightarrow> Inl Undefined | Some r \<Rightarrow> Inr (f r))"

definition set_size :: "nat \<Rightarrow> addr \<Rightarrow> sheap \<Rightarrow> sheap res" where
  "set_size sz a h =
     (case sh_rep h a of
        None \<Rightarrow> Inl Undefined
      | Some r \<Rightarrow> bindE (vec_write sz [nul] (rep_str r)) (\<lambda>s.
          Inr (h\<lparr>sh_rep := (sh_rep h)(a \<mapsto> r\<lparr>rep_size := sz, rep_str := s\<rparr>)\<rparr>)))"

definition sizeof_Rep :: nat where "sizeof_Rep = 24"

text \<open>\<open>init\<close>: the characters start 16 bytes into the object.\<close>

definition str_init :: "(nat \<Rightarrow> char) \<Rightarrow> nat \<Rightarrow> nat \<Rightarrow> sheap \<Rightarrow> (addr \<times> sheap) res" where
  "str_init g sz cap h =
     (if cap \<noteq> 0
      then let bytesNeeded = size_add sizeof_Rep cap;
               intsNeeded = size_sub (size_add bytesNeeded 4) 1 div 4;
               a = sh_next h
           in if 2 ^ 63 \<le> 4 * intsNeeded then Inl LengthError
              else bindE (vec_write sz [nul] (map g [0..<4 * intsNeeded - 16])) (\<lambda>s.
                Inr (a, h\<lparr>sh_rep := (sh_rep h)(a \<mapsto> \<lparr>rep_size = sz, rep_capacity = cap, rep_str = s\<rparr>), sh_next := Suc a\<rparr>))
      else Inr (0, h))"

text \<open>\<open>quit\<close>: what is freed can no longer be read.\<close>

definition str_quit :: "addr \<Rightarrow> sheap \<Rightarrow> sheap res" where
  "str_quit a h =
     (if a \<noteq> 0
      then case sh_rep h a of None \<Rightarrow> Inl Undefined | Some _ \<Rightarrow> Inr (h\<lparr>sh_rep := (sh_rep h)(a := None)\<rparr>)
      else Inr h)"

section \<open>Construction and destruction\<close>

definition TiXmlString_empty :: addr where "TiXmlString_empty = 0"

definition TiXmlString_len :: "(nat \<Rightarrow> char) \<Rightarrow> src \<Rightarrow> nat \<Rightarrow> sheap \<Rightarrow> (addr \<times> sheap) res" where
  "TiXmlString_len g str len h =
     bindE (str_init g len len h) (\<lambda>(a, h1).
     bindE (fetch str len h1) (\<lambda>xs.
     bindE (write_chars a 0 xs h1) (\<lambda>h2. Inr (a, h2))))"

definition TiXmlString_chars :: "(nat \<Rightarrow> char) \<Rightarrow> char list \<Rightarrow> sheap \<Rightarrow> (addr \<times> sheap) res" where
  "TiXmlString_chars g cs h = TiXmlString_len g (Lit cs) (strlen cs) h"

definition TiXmlString_copy :: "(nat \<Rightarrow> char) \<Rightarrow> addr \<Rightarrow> sheap \<Rightarrow> (addr \<times> sheap) res" where
  "TiXmlString_copy g c h = bindE (rep_of rep_size c h) (\<lambda>n. TiXmlString_len g (At c 0) n h)"

section \<open>Assignment and concatenation\<close>

definition str_reserve :: "(nat \<Rightarrow> char) \<Rightarrow> nat \<Rightarrow> addr \<Rightarrow> sheap \<Rightarrow> (addr \<times> sheap) res" where
  "str_reserve g cap a h =
     bindE (rep_of rep_capacity a h) (\<lambda>c.
     if cap > c
     then bindE (rep_of rep_size a h) (\<lambda>n.
          bindE (str_init g n cap h) (\<lambda>(tmp, h1).
          bindE (fetch (At a 0) n h1) (\<lambda>xs.
          bindE (write_chars tmp 0 xs h1) (\<lambda>h2.
          bindE (str_quit a h2) (\<lambda>h3. Inr (tmp, h3))))))
     else Inr (a, h))"

definition str_assign :: "(nat \<Rightarrow> char) \<Rightarrow> src \<Rightarrow> nat \<Rightarrow> addr \<Rightarrow> sheap \<Rightarrow> (addr \<times> sheap) res" where
  "str_assign g str len a h =
     bindE (rep_of rep_capacity a h) (\<lambda>cap.
     if len > cap \<or> cap > (3 * (len + 8)) mod 2 ^ 64
     then bindE (str_init g len len h) (\<lambda>(tmp, h1).
          bindE (fetch str len h1) (\<lambda>xs.
          bindE (write_chars tmp 0 xs h1) (\<lambda>h2.
          bindE (str_quit a h2) (\<lambda>h3. Inr (tmp, h3)))))
     else bindE (fetch str len h) (\<lambda>xs.
          bindE (write_chars a 0 xs h) (\<lambda>h1.
          bindE (set_size len a h1) (\<lambda>h2. Inr (a, h2)))))"

definition str_append :: "(nat \<Rightarrow> char) \<Rightarrow> src \<Rightarrow> nat \<Rightarrow> addr \<Rightarrow> sheap \<Rightarrow> (addr \<times> sheap) res" where
  "str_append g str len a h =
     bindE (rep_of rep_size a h) (\<lambda>n.
     bindE (rep_of rep_capacity a h) (\<lambda>cap.
     let newsize = size_add n len in
     bindE (if newsize > cap then str_reserve g (size_add newsize cap) a h else Inr (a, h)) (\<lambda>(b, h1).
     bindE (fetch str len h1) (\<lambda>xs.
     bindE (rep_of rep_size b h1) (\<lambda>m.
     bindE (write_chars b m xs h1) (\<lambda>h2.
     bindE (set_size newsize b h2) (\<lambda>h3. Inr (b, h3))))))))"

definition assign_chars :: "(nat \<Rightarrow> char) \<Rightarrow> char list \<Rightarrow> addr \<Rightarrow> sheap \<Rightarrow> (addr \<times> sheap) res" where
  "assign_chars g cs a h = str_assign g (Lit cs) (strlen cs) a h"

definition assign_str :: "(nat \<Rightarrow> char) \<Rightarrow> addr \<Rightarrow> addr \<Rightarrow> sheap \<Rightarrow> (addr \<times> sheap) res" where
  "assign_str g c a h = bindE (rep_of rep_size c h) (\<lambda>n. str_assign g (At c 0) n a h)"

definition append_chars :: "(nat \<Rightarrow> char) \<Rightarrow> char list \<Rightarrow> addr \<Rightarrow> sheap \<Rightarrow> (addr \<times> sheap) res" where
  "append_chars g cs a h = str_append g (Lit cs) (strlen cs) a h"

definition append_char :: "(nat \<Rightarrow> char) \<Rightarrow> char \<Rightarrow> addr \<Rightarrow> sheap \<Rightarrow> (addr \<times> sheap) res" where
  "append_char g c a h = str_append g (Lit [c]) 1 a h"

definition append_str :: "(nat \<Rightarrow> char) \<Rightarrow> addr \<Rightarrow> addr \<Rightarrow> sheap \<Rightarrow> (addr \<times> sheap) res" where
  "append_str g c a h = bindE (rep_of rep_size c h) (\<lambda>n. str_append g (At c 0) n a h)"

definition str_clear :: "(nat \<Rightarrow> char) \<Rightarrow> addr \<Rightarrow> sheap \<Rightarrow> (addr \<times> sheap) res" where
  "str_clear g a h = bindE (str_quit a h) (str_init g 0 0)"

text \<open>\<open>operator +\<close>, with a string or a \<open>const char *\<close> on either side.\<close>

definition str_plus :: "(nat \<Rightarrow> char) \<Rightarrow> addr \<Rightarrow> addr \<Rightarrow> sheap \<Rightarrow> (addr \<times> sheap) res" where
  "str_plus g a b h =
     bindE (rep_of rep_size a h) (\<lambda>m.
     bindE (rep_of rep_size b h) (\<lambda>n.
     bindE (str_reserve g (size_add m n) TiXmlString_empty h) (\<lambda>(t, h1).
     bindE (append_str g a t h1) (\<lambda>(t, h2). append_str g b t h2))))"

definition str_plus_chars :: "(nat \<Rightarrow> char) \<Rightarrow> addr \<Rightarrow> char list \<Rightarrow> sheap \<Rightarrow> (addr \<times> sheap) res" where
  "str_plus_chars g a cs h =
     bindE (rep_of rep_size a h) (\<lambda>m.
     bindE (str_reserve g (size_add m (strlen cs)) TiXmlString_empty h) (\<lambda>(t, h1).
     bindE (append_str g a t h1) (\<lambda>(t, h2). str_append g (Lit cs) (strlen cs) t h2)))"

definition chars_plus_str :: "(nat \<Rightarrow> char) \<Rightarrow> char list \<Rightarrow> addr \<Rightarrow> sheap \<Rightarrow> (addr \<times> sheap) res" where
  "chars_plus_str g cs b h =
     bindE (rep_of rep_size b h) (\<lambda>n.
     bindE (str_reserve g (size_add (strlen cs) n) TiXmlString_empty h) (\<lambda>(t, h1).
     bindE (str_append g (Lit cs) (strlen cs) t h1) (\<lambda>(t, h2). append_str g b t h2)))"

section \<open>Access\<close>

definition str_at :: "nat \<Rightarrow> addr \<Rightarrow> sheap \<Rightarrow> char res" where
  "str_at i a h =
     bindE (rep_of rep_size a h) (\<lambda>n. assertE (i < n)
       (bindE (fetch (At a i) 1 h) (\<lambda>xs. Inr (hd xs))))"

definition npos :: nat where "npos = 2 ^ 64 - 1"

fun find_char :: "char \<Rightarrow> nat \<Rightarrow> char list \<Rightarrow> nat" where
  "find_char c i [] = npos"
| "find_char c i (x # xs) = (if x = c then i else find_char c (Suc i) xs)"

definition str_find :: "char \<Rightarrow> nat \<Rightarrow> addr \<Rightarrow> sheap \<Rightarrow> nat res" where
  "str_find c offset a h =
     bindE (rep_of rep_size a h) (\<lambda>n.
     if offset \<ge> n then Inr npos else bindE (cstr_from a offset h) (\<lambda>s. Inr (find_char c offset s)))"

section \<open>Comparison\<close>

fun strcmp :: "char list \<Rightarrow> char list \<Rightarrow> int" where
  "strcmp [] [] = 0"
| "strcmp [] (d # ds) = - int (ord_of d)"
| "strcmp (c # cs) [] = int (ord_of c)"
| "strcmp (c # cs) (d # ds) = (if c = d then strcmp cs ds else int (ord_of c) - int (ord_of d))"

definition str_eq :: "addr \<Rightarrow> addr \<Rightarrow> sheap \<Rightarrow> bool res" where
  "str_eq a b h =
     bindE (rep_of rep_size a h) (\<lambda>m.
     bindE (rep_of rep_size b h) (\<lambda>n.
     if m = n then bindE (cstr_from a 0 h) (\<lambda>s. bindE (cstr_from b 0 h) (\<lambda>t. Inr (strcmp s t = 0))) else Inr False))"

definition str_less :: "addr \<Rightarrow> addr \<Rightarrow> sheap \<Rightarrow> bool res" where
  "str_less a b h = bindE (cstr_from a 0 h) (\<lambda>s. bindE (cstr_from b 0 h) (\<lambda>t. Inr (strcmp s t < 0)))"

definition str_eq_chars :: "addr \<Rightarrow> char list \<Rightarrow> sheap \<Rightarrow> bool res" where
  "str_eq_chars a cs h = bindE (cstr_from a 0 h) (\<lambda>s. Inr (strcmp s (takeWhile (\<lambda>c. c \<noteq> nul) cs) = 0))"

definition notE :: "bool res \<Rightarrow> bool res" where
  "notE m = bindE m (\<lambda>b. Inr (\<not> b))"

definition str_neq :: "addr \<Rightarrow> addr \<Rightarrow> sheap \<Rightarrow> bool res" where "str_neq a b h = notE (str_eq a b h)"
definition str_greater :: "addr \<Rightarrow> addr \<Rightarrow> sheap \<Rightarrow> bool res" where "str_greater a b h = str_less b a h"
definition str_leq :: "addr \<Rightarrow> addr \<Rightarrow> sheap \<Rightarrow> bool res" where "str_leq a b h = notE (str_less b a h)"
definition str_geq :: "addr \<Rightarrow> addr \<Rightarrow> sheap \<Rightarrow> bool res" where "str_geq a b h = notE (str_less a b h)"

section \<open>Well-formed heaps\<close>

definition contents :: "Rep \<Rightarrow> char list" where
  "contents r = take (rep_size r) (rep_str r)"

definition rep_ok :: "Rep \<Rightarrow> bool" where
  "rep_ok r \<longleftrightarrow> rep_size r \<le> rep_capacity r \<and> rep_capacity r < length (rep_str r) \<and> rep_str r ! rep_size r = nul \<and>
     rep_size r < 2 ^ 60 \<and> rep_capacity r < 2 ^ 61"

definition heap_ok :: "sheap \<Rightarrow> bool" where
  "heap_ok h \<longleftrightarrow> sh_rep h 0 = Some nullrep \<and>
     (\<forall>a r. sh_rep h a = Some r \<longrightarrow> a < sh_next h \<and> rep_ok r \<and> (a \<noteq> 0 \<longrightarrow> 0 < rep_capacity r))"

definition val :: "sheap \<Rightarrow> addr \<Rightarrow> char list option" where
  "val h a = map_option contents (sh_rep h a)"

text \<open>
  The string at \<open>a\<close> has become the string \<open>xs\<close> at \<open>a'\<close>: no other string is touched, and the old
  representation is freed if there is a new one.
\<close>

definition becomes :: "sheap \<Rightarrow> addr \<Rightarrow> sheap \<Rightarrow> addr \<Rightarrow> char list \<Rightarrow> bool" where
  "becomes h a h' a' xs \<longleftrightarrow> heap_ok h' \<and> val h' a' = Some xs \<and> sh_next h \<le> sh_next h' \<and>
     (a' = 0 \<or> a' = a \<or> sh_next h \<le> a') \<and> (\<forall>b. b \<noteq> 0 \<longrightarrow> b \<noteq> a \<longrightarrow> b \<noteq> a' \<longrightarrow> sh_rep h' b = sh_rep h b) \<and>
     (a' \<noteq> a \<longrightarrow> a \<noteq> 0 \<longrightarrow> sh_rep h' a = None)"

lemma nullrep_ok [simp]: "rep_ok nullrep" "contents nullrep = []"
  by (simp_all add: rep_ok_def nullrep_def contents_def)

lemma nullrep_fields [simp]: "rep_size nullrep = 0" "rep_capacity nullrep = 0" "rep_str nullrep = [nul]"
  by (simp_all add: nullrep_def)

lemma heap_okD:
  assumes "heap_ok h" and "sh_rep h a = Some r"
  shows "rep_ok r" "a < sh_next h" "a \<noteq> 0 \<Longrightarrow> 0 < rep_capacity r" "a = 0 \<Longrightarrow> r = nullrep"
  using assms by (auto simp: heap_ok_def)

lemma heap_ok_null [simp]: "heap_ok h \<Longrightarrow> sh_rep h 0 = Some nullrep"
  by (simp add: heap_ok_def)

lemma length_contents [simp]: "rep_ok r \<Longrightarrow> length (contents r) = rep_size r"
  by (simp add: contents_def rep_ok_def)

lemma next_pos: "heap_ok h \<Longrightarrow> 0 < sh_next h"
  by (auto simp: heap_ok_def)

lemma next_fresh: "heap_ok h \<Longrightarrow> sh_next h \<le> a \<Longrightarrow> sh_rep h a = None"
  by (cases "sh_rep h a") (use heap_okD(2) in fastforce)+

section \<open>Allocation\<close>

definition alloc :: "Rep \<Rightarrow> sheap \<Rightarrow> sheap" where
  "alloc r h = h\<lparr>sh_rep := (sh_rep h)(sh_next h \<mapsto> r), sh_next := Suc (sh_next h)\<rparr>"

definition free :: "addr \<Rightarrow> sheap \<Rightarrow> sheap" where
  "free a h = (if a = 0 then h else h\<lparr>sh_rep := (sh_rep h)(a := None)\<rparr>)"

lemma init_null: "str_init g sz 0 h = Inr (0, h)"
  by (simp add: str_init_def)

lemma init_alloc:
  assumes "sz \<le> cap" and "0 < cap" and "cap < 2 ^ 61"
  obtains s where "str_init g sz cap h = Inr (sh_next h, alloc \<lparr>rep_size = sz, rep_capacity = cap, rep_str = s\<rparr> h)"
    "cap < length s" "s ! sz = nul"
proof -
  define n where "n = (27 + cap) div 4"
  have "27 + cap < 4 * n + 4" "4 * n \<le> 27 + cap" unfolding n_def by simp_all
  then have n: "cap + 24 \<le> 4 * n" "\<not> 2 ^ 63 \<le> 4 * n" using assms(3) by simp_all
  have i: "size_sub (size_add (size_add sizeof_Rep cap) 4) 1 div 4 = n"
    using assms(3) by (simp add: sizeof_Rep_def size_add_exact size_sub_exact n_def)
  let ?m = "map g [0..<4 * n - 16]"
  have l: "sz + 1 \<le> length ?m" using n assms(1) by simp
  define s where "s = take sz ?m @ [nul] @ drop (sz + 1) ?m"
  have "str_init g sz cap h = Inr (sh_next h, alloc \<lparr>rep_size = sz, rep_capacity = cap, rep_str = s\<rparr> h)"
    using i l n(2) assms(2) by (simp add: str_init_def Let_def vec_write_def alloc_def s_def)
  moreover have "length s = length ?m" using l by (simp add: s_def)
  moreover have "s ! sz = nul" using l unfolding s_def by (simp add: nth_append)
  ultimately show thesis using that [of s] n(1) by simp
qed

lemma fetch_alloc: "heap_ok h \<Longrightarrow> fetch s n h = Inr xs \<Longrightarrow> fetch s n (alloc r h) = Inr xs"
  by (auto simp: fetch_def alloc_def heap_ok_def split: src.splits option.splits)

lemma fetch_length: "fetch s n h = Inr xs \<Longrightarrow> length xs = n"
  by (auto simp: fetch_def vec_read_def split: src.splits option.splits if_splits)

lemma put_alloc: "write_chars (sh_next h) p xs (alloc r h) = bindE (vec_write p xs (rep_str r)) (\<lambda>s. Inr (alloc (r\<lparr>rep_str := s\<rparr>) h))"
  by (cases h) (simp add: write_chars_def alloc_def)

lemma quit_free: "sh_rep h a = Some r \<Longrightarrow> str_quit a h = Inr (free a h)"
  by (simp add: str_quit_def free_def)

lemma heap_ok_alloc:
  assumes "heap_ok h" and "rep_ok r" and "0 < rep_capacity r"
  shows "heap_ok (alloc r h)"
  using assms next_pos [OF assms(1)] by (auto simp: heap_ok_def alloc_def less_Suc_eq)

text \<open>A new representation replaces that at \<open>a\<close>.\<close>

lemma replaced_becomes:
  assumes "heap_ok h" and "sh_rep h a = Some q" and "rep_ok r" and "0 < rep_capacity r"
  shows "becomes h a (free a (alloc r h)) (sh_next h) (contents r)"
  using assms heap_okD(2) [OF assms(1,2)] next_pos [OF assms(1)]
  by (auto simp: becomes_def free_def heap_ok_def alloc_def val_def less_Suc_eq)

lemma emptied_becomes:
  assumes "heap_ok h" and "sh_rep h a = Some q"
  shows "becomes h a (free a h) 0 []"
  using assms by (auto simp: becomes_def free_def heap_ok_def val_def)

text \<open>The representation at \<open>a\<close> is overwritten.\<close>

lemma updated_becomes:
  assumes "heap_ok h" and "sh_rep h a = Some q" and "rep_ok r" and "rep_capacity r = rep_capacity q" and "a = 0 \<Longrightarrow> r = nullrep"
  shows "becomes h a (h\<lparr>sh_rep := (sh_rep h)(a \<mapsto> r)\<rparr>) a (contents r)"
  using assms by (auto simp: becomes_def heap_ok_def val_def)

text \<open>A fresh representation filled with \<open>xs\<close>.\<close>

lemma fill_alloc:
  assumes "length xs \<le> cap" and "0 < cap" and "cap < 2 ^ 61" and "length xs < 2 ^ 60"
  obtains r h1 where "str_init g (length xs) cap h = Inr (sh_next h, h1)" "\<exists>r1. h1 = alloc r1 h"
    "write_chars (sh_next h) 0 xs h1 = Inr (alloc r h)" "rep_ok r" "contents r = xs" "rep_capacity r = cap"
proof -
  obtain s where s: "str_init g (length xs) cap h = Inr (sh_next h, alloc \<lparr>rep_size = length xs, rep_capacity = cap, rep_str = s\<rparr> h)"
    "cap < length s" "s ! length xs = nul" by (rule init_alloc [OF assms(1-3)])
  let ?r = "\<lparr>rep_size = length xs, rep_capacity = cap, rep_str = xs @ drop (length xs) s\<rparr>"
  have "rep_ok ?r" using s(2,3) assms by (simp add: rep_ok_def nth_append)
  moreover have "contents ?r = xs" by (simp add: contents_def)
  moreover have "write_chars (sh_next h) 0 xs (alloc \<lparr>rep_size = length xs, rep_capacity = cap, rep_str = s\<rparr> h) = Inr (alloc ?r h)"
    using s(2) assms(1) by (simp add: put_alloc vec_write_def)
  ultimately show thesis using that s(1) by fastforce
qed

section \<open>Operations\<close>

lemma null_capacity: "heap_ok h \<Longrightarrow> sh_rep h a = Some r \<Longrightarrow> rep_capacity r = 0 \<Longrightarrow> a = 0"
  using heap_okD(3) [of h a r] by auto

lemma fetch_self: "rep_ok r \<Longrightarrow> sh_rep h a = Some r \<Longrightarrow> fetch (At a 0) (rep_size r) h = Inr (contents r)"
  by (simp add: fetch_def vec_read_def rep_ok_def contents_def)

text \<open>\<open>memmove\<close> to offset \<open>p\<close>, then the new size.\<close>

lemma write_becomes:
  assumes "heap_ok h" and "sh_rep h a = Some r" and "p + length xs \<le> rep_capacity r" and "p \<le> rep_size r" and "p + length xs < 2 ^ 60"
  obtains h1 h2 where "write_chars a p xs h = Inr h1" "set_size (p + length xs) a h1 = Inr h2"
    "becomes h a h2 a (take p (contents r) @ xs)"
proof -
  have ok: "rep_ok r" by (rule heap_okD(1) [OF assms(1,2)])
  let ?s = "take p (rep_str r) @ xs @ drop (p + length xs) (rep_str r)"
  let ?r = "r\<lparr>rep_size := p + length xs, rep_str := ?s[p + length xs := nul]\<rparr>"
  have l: "p + length xs < length (rep_str r)" using ok assms(3) by (simp add: rep_ok_def)
  then have s: "length ?s = length (rep_str r)" by simp
  have "write_chars a p xs h = Inr (h\<lparr>sh_rep := (sh_rep h)(a \<mapsto> r\<lparr>rep_str := ?s\<rparr>)\<rparr>)"
    using assms(2) l by (simp add: write_chars_def vec_write_def)
  moreover have "set_size (p + length xs) a (h\<lparr>sh_rep := (sh_rep h)(a \<mapsto> r\<lparr>rep_str := ?s\<rparr>)\<rparr>) =
      Inr (h\<lparr>sh_rep := (sh_rep h)(a \<mapsto> ?r)\<rparr>)"
    using l s by (simp add: set_size_def vec_write_def upd_conv_take_nth_drop)
  moreover have r: "rep_ok ?r" "contents ?r = take p (contents r) @ xs"
    using ok s l assms(3-5) by (simp_all add: rep_ok_def contents_def min_def)
  moreover have "a = 0 \<Longrightarrow> ?r = nullrep"
    using heap_okD(4) [OF assms(1,2)] assms(3,4) by (simp add: nullrep_def)
  ultimately show thesis using that updated_becomes [OF assms(1,2) r(1)] by (auto simp del: append.simps)
qed

lemma put_null: "heap_ok h \<Longrightarrow> write_chars 0 0 [] h = Inr h"
  by (cases h) (auto simp: write_chars_def vec_write_def nullrep_def heap_ok_def fun_upd_idem)

lemma assign_ok:
  assumes "heap_ok h" and "sh_rep h a = Some r" and "fetch s n h = Inr xs" and "n < 2 ^ 60"
  obtains a' h' where "str_assign g s n a h = Inr (a', h')" "becomes h a h' a' xs"
proof (cases "n > rep_capacity r \<or> rep_capacity r > (3 * (n + 8)) mod 2 ^ 64")
  case True
  have n: "length xs = n" by (rule fetch_length [OF assms(3)])
  show thesis
  proof (cases "n = 0")
    case z: True
    then have "str_assign g s n a h = Inr (0, free a h)"
      using True assms(1-3) quit_free [OF assms(2)] n by (simp add: str_assign_def rep_of_def init_null put_null)
    then show thesis using that emptied_becomes [OF assms(1,2)] n z by simp
  next
    case False
    obtain r1 h1 where f: "str_init g n n h = Inr (sh_next h, h1)" "\<exists>r1. h1 = alloc r1 h"
      "write_chars (sh_next h) 0 xs h1 = Inr (alloc r1 h)" "rep_ok r1" "contents r1 = xs" "rep_capacity r1 = n"
      by (rule fill_alloc [of xs n g h, unfolded n]) (use False assms(4) in simp_all)
    have "sh_rep (alloc r1 h) a = Some r" using assms(2) heap_okD(2) [OF assms(1,2)] by (simp add: alloc_def)
    then have "str_assign g s n a h = Inr (sh_next h, free a (alloc r1 h))"
      using True assms(2) f(1,3) fetch_alloc [OF assms(1,3)] f(2) quit_free by (auto simp: str_assign_def rep_of_def)
    then show thesis using that replaced_becomes [OF assms(1,2) f(4)] f(5,6) False by simp
  qed
next
  case False
  have n: "length xs = n" by (rule fetch_length [OF assms(3)])
  obtain h1 h2 where "write_chars a 0 xs h = Inr h1" "set_size (0 + length xs) a h1 = Inr h2" "becomes h a h2 a (take 0 (contents r) @ xs)"
    by (rule write_becomes [OF assms(1,2), of 0 xs]) (use False n assms(4) in auto)
  then show thesis using that [of a h2] False assms(2,3) n by (simp add: str_assign_def rep_of_def)
qed

lemma reserve_ok:
  assumes "heap_ok h" and "sh_rep h a = Some r" and "cap < 2 ^ 61"
  obtains (same) "cap \<le> rep_capacity r" "str_reserve g cap a h = Inr (a, h)"
  | (new) r1 where "rep_capacity r < cap" "str_reserve g cap a h = Inr (sh_next h, free a (alloc r1 h))" "rep_ok r1" "contents r1 = contents r"
      "rep_size r1 = rep_size r" "rep_capacity r1 = cap"
proof (cases "cap > rep_capacity r")
  case True
  have ok: "rep_ok r" by (rule heap_okD(1) [OF assms(1,2)])
  have l: "length (contents r) = rep_size r" using ok by (simp add: contents_def rep_ok_def)
  obtain r1 h1 where f: "str_init g (rep_size r) cap h = Inr (sh_next h, h1)" "\<exists>r1. h1 = alloc r1 h"
      "write_chars (sh_next h) 0 (contents r) h1 = Inr (alloc r1 h)" "rep_ok r1" "contents r1 = contents r" "rep_capacity r1 = cap"
    by (rule fill_alloc [of "contents r" cap g h, unfolded l]) (use True assms(3) ok in \<open>auto simp: rep_ok_def\<close>)
  have "length (contents r1) = rep_size r1" using f(4) by (simp add: contents_def rep_ok_def)
  moreover have "sh_rep (alloc r1 h) a = Some r" using assms(2) heap_okD(2) [OF assms(1,2)] by (simp add: alloc_def)
  then have "str_reserve g cap a h = Inr (sh_next h, free a (alloc r1 h))"
    using True assms(2) f(1,3) fetch_alloc [OF assms(1) fetch_self [OF ok assms(2)]] f(2) quit_free
    by (auto simp: str_reserve_def rep_of_def)
  ultimately show thesis using new [of r1] True f(4-6) l by simp
next
  case False
  then show thesis using same assms(2) by (simp add: str_reserve_def rep_of_def)
qed

text \<open>What is appended is outside the string, or it fits: then no pointer to freed memory is read.\<close>

definition src_safe :: "src \<Rightarrow> nat \<Rightarrow> addr \<Rightarrow> Rep \<Rightarrow> bool" where
  "src_safe s n a r \<longleftrightarrow> rep_size r + n \<le> rep_capacity r \<or> (case s of Lit _ \<Rightarrow> True | At b _ \<Rightarrow> b = 0 \<or> b \<noteq> a)"

lemma becomes_write: "becomes h a h1 b xs \<Longrightarrow> becomes h1 b h2 b ys \<Longrightarrow> becomes h a h2 b ys"
  by (auto simp: becomes_def)

lemma fetch_free:
  assumes "heap_ok h" and "fetch s n h = Inr xs" and "case s of Lit _ \<Rightarrow> True | At b _ \<Rightarrow> b = 0 \<or> b \<noteq> a"
  shows "fetch s n (free a (alloc r h)) = Inr xs"
  using fetch_alloc [OF assms(1,2), of r] assms(3) by (auto simp: fetch_def free_def split: src.splits)

lemma str_append_ok:
  assumes "heap_ok h" and "sh_rep h a = Some r" and "fetch s n h = Inr xs" and "rep_size r + n < 2 ^ 60" and "src_safe s n a r"
  obtains a' h' where "str_append g s n a h = Inr (a', h')" "becomes h a h' a' (contents r @ xs)"
proof -
  have ok: "rep_ok r" by (rule heap_okD(1) [OF assms(1,2)])
  have n: "length xs = n" by (rule fetch_length [OF assms(3)])
  have sz: "size_add (rep_size r) n = rep_size r + n" "size_add (rep_size r + n) (rep_capacity r) = rep_size r + n + rep_capacity r"
    using assms(4) ok by (simp_all add: size_add_exact rep_ok_def)
  show thesis
  proof (cases "rep_size r + n \<le> rep_capacity r")
    case True
    obtain h1 h2 where w: "write_chars a (rep_size r) xs h = Inr h1" "set_size (rep_size r + length xs) a h1 = Inr h2"
      "becomes h a h2 a (take (rep_size r) (contents r) @ xs)"
      by (rule write_becomes [OF assms(1,2), of "rep_size r" xs]) (use True n assms(4) in auto)
    have "take (rep_size r) (contents r) = contents r" by (simp add: contents_def)
    then show thesis using that [of a h2] w True assms(2,3) n sz by (simp add: str_append_def rep_of_def)
  next
    case False
    have "rep_size r + n + rep_capacity r < 2 ^ 61" using assms(4) ok False by simp
    then obtain r1 where r1: "str_reserve g (rep_size r + n + rep_capacity r) a h = Inr (sh_next h, free a (alloc r1 h))" "rep_ok r1"
      "contents r1 = contents r" "rep_size r1 = rep_size r" "rep_capacity r1 = rep_size r + n + rep_capacity r"
      using False by (cases rule: reserve_ok [OF assms(1,2), of "rep_size r + n + rep_capacity r" g]) auto
    let ?h = "free a (alloc r1 h)"
    have b: "becomes h a ?h (sh_next h) (contents r)"
      using replaced_becomes [OF assms(1,2) r1(2)] r1(3,5) False by (cases "rep_capacity r1 = 0") auto
    have h: "heap_ok ?h" "sh_rep ?h (sh_next h) = Some r1"
      using b heap_okD(2) [OF assms(1,2)] by (auto simp: becomes_def free_def alloc_def)
    have x: "fetch s n ?h = Inr xs" using assms(5) False fetch_free [OF assms(1,3)] by (simp add: src_safe_def)
    obtain h1 h2 where w: "write_chars (sh_next h) (rep_size r1) xs ?h = Inr h1" "set_size (rep_size r1 + length xs) (sh_next h) h1 = Inr h2"
      "becomes ?h (sh_next h) h2 (sh_next h) (take (rep_size r1) (contents r1) @ xs)"
      by (rule write_becomes [OF h, of "rep_size r1" xs]) (use r1 n assms(4) in auto)
    have "take (rep_size r1) (contents r1) = contents r" using r1(2,3) length_contents [OF r1(2)] by simp
    then show thesis
      using that [of "sh_next h" h2] becomes_write [OF b w(3)] w(1,2) False assms(2) n sz r1(1,4) h(2) x
      by (simp add: str_append_def rep_of_def)
  qed
qed

text \<open>Appending a string to itself reads freed memory when it does not fit.\<close>

lemma self_append_undefined:
  assumes "heap_ok h" and "sh_rep h a = Some r" and "a \<noteq> 0" and "rep_capacity r < 2 * rep_size r" and "rep_size r < 2 ^ 59"
  shows "append_str g a a h = Inl Undefined"
proof -
  have ok: "rep_ok r" by (rule heap_okD(1) [OF assms(1,2)])
  let ?cap = "2 * rep_size r + rep_capacity r"
  have sz: "size_add (rep_size r) (rep_size r) = 2 * rep_size r" "size_add (2 * rep_size r) (rep_capacity r) = ?cap" "?cap < 2 ^ 61"
    using ok assms(4,5) by (simp_all add: size_add_exact rep_ok_def)
  obtain r1 where "str_reserve g ?cap a h = Inr (sh_next h, free a (alloc r1 h))"
    using assms(4) by (cases rule: reserve_ok [OF assms(1,2) sz(3), of g]) auto
  moreover have "sh_rep (free a (alloc r1 h)) a = None" using assms(3) by (simp add: free_def)
  ultimately show ?thesis
    using sz(1,2) assms(2,4) by (simp add: append_str_def str_append_def rep_of_def fetch_def)
qed

section \<open>Programs over strings\<close>

text \<open>
  Statements over string variables; \<open>Plus\<close> is the statement \<open>i = j + k\<close>, whose temporary is destroyed at its end.
\<close>

datatype str_op = AssignC nat "char list" | AssignS nat nat | AppendC nat "char list" | Push nat char | AppendS nat nat
  | Reserve nat nat | Clear nat | Swap nat nat | Plus nat nat nat | Declare "char list" | CopyOf nat | DropLast

definition set_var :: "nat \<Rightarrow> addr list \<Rightarrow> (addr \<times> sheap) res \<Rightarrow> (addr list \<times> sheap) res" where
  "set_var i vs m = bindE m (\<lambda>(a, h). Inr (vs[i := a], h))"

definition new_var :: "addr list \<Rightarrow> (addr \<times> sheap) res \<Rightarrow> (addr list \<times> sheap) res" where
  "new_var vs m = bindE m (\<lambda>(a, h). Inr (vs @ [a], h))"

fun str_exec :: "(nat \<Rightarrow> char) \<Rightarrow> str_op \<Rightarrow> addr list \<times> sheap \<Rightarrow> (addr list \<times> sheap) res" where
  "str_exec g (AssignC i cs) (vs, h) = set_var i vs (assign_chars g cs (vs ! i) h)"
| "str_exec g (AssignS i j) (vs, h) = set_var i vs (assign_str g (vs ! j) (vs ! i) h)"
| "str_exec g (AppendC i cs) (vs, h) = set_var i vs (append_chars g cs (vs ! i) h)"
| "str_exec g (Push i c) (vs, h) = set_var i vs (append_char g c (vs ! i) h)"
| "str_exec g (AppendS i j) (vs, h) = set_var i vs (append_str g (vs ! j) (vs ! i) h)"
| "str_exec g (Reserve i n) (vs, h) = set_var i vs (str_reserve g n (vs ! i) h)"
| "str_exec g (Clear i) (vs, h) = set_var i vs (str_clear g (vs ! i) h)"
| "str_exec g (Swap i j) (vs, h) = Inr (vs[i := vs ! j, j := vs ! i], h)"
| "str_exec g (Plus i j k) (vs, h) =
     bindE (str_plus g (vs ! j) (vs ! k) h) (\<lambda>(t, h1).
     bindE (assign_str g t (vs ! i) h1) (\<lambda>(a, h2).
     bindE (str_quit t h2) (\<lambda>h3. Inr (vs[i := a], h3))))"
| "str_exec g (Declare cs) (vs, h) = new_var vs (TiXmlString_chars g cs h)"
| "str_exec g (CopyOf j) (vs, h) = new_var vs (TiXmlString_copy g (vs ! j) h)"
| "str_exec g DropLast (vs, h) = bindE (str_quit (last vs) h) (\<lambda>h1. Inr (butlast vs, h1))"

abbreviation c_string :: "char list \<Rightarrow> char list" where "c_string cs \<equiv> takeWhile (\<lambda>c. c \<noteq> nul) cs"

fun str_spec :: "str_op \<Rightarrow> char list list \<Rightarrow> char list list" where
  "str_spec (AssignC i cs) xs = xs[i := c_string cs]"
| "str_spec (AssignS i j) xs = xs[i := xs ! j]"
| "str_spec (AppendC i cs) xs = xs[i := xs ! i @ c_string cs]"
| "str_spec (Push i c) xs = xs[i := xs ! i @ [c]]"
| "str_spec (AppendS i j) xs = xs[i := xs ! i @ xs ! j]"
| "str_spec (Reserve i n) xs = xs"
| "str_spec (Clear i) xs = xs[i := []]"
| "str_spec (Swap i j) xs = xs[i := xs ! j, j := xs ! i]"
| "str_spec (Plus i j k) xs = xs[i := xs ! j @ xs ! k]"
| "str_spec (Declare cs) xs = xs @ [c_string cs]"
| "str_spec (CopyOf j) xs = xs @ [xs ! j]"
| "str_spec DropLast xs = butlast xs"

text \<open>Variables exist, no string is appended to itself, and lengths stay below \<open>2 ^ 60\<close>.\<close>

fun str_pre :: "str_op \<Rightarrow> char list list \<Rightarrow> bool" where
  "str_pre (AssignC i cs) xs \<longleftrightarrow> i < length xs"
| "str_pre (AssignS i j) xs \<longleftrightarrow> i < length xs \<and> j < length xs"
| "str_pre (AppendC i cs) xs \<longleftrightarrow> i < length xs"
| "str_pre (Push i c) xs \<longleftrightarrow> i < length xs"
| "str_pre (AppendS i j) xs \<longleftrightarrow> i < length xs \<and> j < length xs \<and> i \<noteq> j"
| "str_pre (Reserve i n) xs \<longleftrightarrow> i < length xs \<and> n < 2 ^ 61"
| "str_pre (Clear i) xs \<longleftrightarrow> i < length xs"
| "str_pre (Swap i j) xs \<longleftrightarrow> i < length xs \<and> j < length xs"
| "str_pre (Plus i j k) xs \<longleftrightarrow> i < length xs \<and> j < length xs \<and> k < length xs"
| "str_pre (Declare cs) xs \<longleftrightarrow> True"
| "str_pre (CopyOf j) xs \<longleftrightarrow> j < length xs"
| "str_pre DropLast xs \<longleftrightarrow> xs \<noteq> []"

fun str_run_ok :: "str_op list \<Rightarrow> char list list \<Rightarrow> bool" where
  "str_run_ok [] xs \<longleftrightarrow> True"
| "str_run_ok (p # ps) xs \<longleftrightarrow> str_pre p xs \<and> (\<forall>x \<in> set (str_spec p xs). length x < 2 ^ 60) \<and> str_run_ok ps (str_spec p xs)"

text \<open>The variables own the heap: each representation but the null one belongs to one variable.\<close>

definition vars_ok :: "addr list \<Rightarrow> sheap \<Rightarrow> char list list \<Rightarrow> bool" where
  "vars_ok vs h xs \<longleftrightarrow> heap_ok h \<and> length vs = length xs \<and> (\<forall>i < length xs. val h (vs ! i) = Some (xs ! i)) \<and>
     (\<forall>i < length xs. \<forall>j < length xs. vs ! i = vs ! j \<longrightarrow> i = j \<or> vs ! i = 0) \<and> dom (sh_rep h) = insert 0 (set vs)"

lemma vars_okD:
  assumes "vars_ok vs h xs" and "i < length xs"
  obtains r where "sh_rep h (vs ! i) = Some r" "contents r = xs ! i" "rep_size r = length (xs ! i)" "rep_ok r"
    "fetch (At (vs ! i) 0) (length (xs ! i)) h = Inr (xs ! i)"
proof -
  from assms obtain r where r: "sh_rep h (vs ! i) = Some r" "contents r = xs ! i" by (auto simp: vars_ok_def val_def)
  have "heap_ok h" using assms(1) by (simp add: vars_ok_def)
  from heap_okD(1) [OF this r(1)] have ok: "rep_ok r" .
  then have "rep_size r = length (xs ! i)" using r(2) length_contents [OF ok] by simp
  with that r ok fetch_self [OF ok r(1)] show thesis by simp
qed

lemma vars_set:
  assumes "vars_ok vs h xs" and "i < length xs" and "becomes h (vs ! i) h' a x"
  shows "vars_ok (vs[i := a]) h' (xs[i := x])"
proof -
  note v = assms(1) [unfolded vars_ok_def]
  note b = assms(3) [unfolded becomes_def]
  have fresh: "vs ! j \<noteq> a \<or> a = 0" if "j < length xs" "j \<noteq> i" for j
  proof -
    have "vs ! j < sh_next h" using vars_okD [OF assms(1) that(1)] heap_okD(2) v by metis
    then show ?thesis using b v that assms(2) by (metis leD)
  qed
  have other: "sh_rep h' (vs ! j) = sh_rep h (vs ! j)" if "j < length xs" "j \<noteq> i" for j
  proof (cases "vs ! j = 0")
    case True
    then show ?thesis using v b by simp
  next
    case False
    then show ?thesis using fresh [OF that] b v that assms(2) by metis
  qed
  have others: "b \<in> set (vs[i := a]) \<longleftrightarrow> b = a \<or> (\<exists>j < length xs. j \<noteq> i \<and> vs ! j = b)" for b
    using v assms(2) by (auto simp: in_set_conv_nth nth_list_update)
  have dom: "dom (sh_rep h') = insert 0 (set (vs[i := a]))"
  proof (intro set_eqI)
    fix c
    have vs: "c \<in> set vs \<longleftrightarrow> c = vs ! i \<or> (\<exists>j < length xs. j \<noteq> i \<and> vs ! j = c)"
      using v assms(2) by (auto simp: in_set_conv_nth)
    have d: "c \<in> dom (sh_rep h) \<longleftrightarrow> c = 0 \<or> c \<in> set vs" using v by auto
    show "c \<in> dom (sh_rep h') \<longleftrightarrow> c \<in> insert 0 (set (vs[i := a]))"
    proof (cases "c = 0 \<or> c = a")
      case True
      then show ?thesis using b others by (auto simp: val_def)
    next
      case False
      show ?thesis
      proof (cases "c = vs ! i")
        case True
        then have "sh_rep h' c = None" using False b by auto
        moreover have "\<not> (\<exists>j < length xs. j \<noteq> i \<and> vs ! j = c)" using v assms(2) True False by blast
        ultimately show ?thesis using False others by auto
      next
        case ne: False
        then have "sh_rep h' c = sh_rep h c" using False b by auto
        then show ?thesis using False ne d others vs by (simp add: domIff)
      qed
    qed
  qed
  have "val h' ((vs[i := a]) ! j) = Some (xs[i := x] ! j)" if "j < length xs" for j
    using that v b other by (cases "j = i") (simp_all add: val_def)
  moreover have "j = k \<or> vs[i := a] ! j = 0" if "j < length xs" "k < length xs" "vs[i := a] ! j = vs[i := a] ! k" for j k
    using that v fresh by (cases "j = i"; cases "k = i") auto
  ultimately show ?thesis using v b dom by (simp add: vars_ok_def)
qed

text \<open>A new string is an empty one that has been set; the last one can be destroyed.\<close>

lemma vars_null: "vars_ok vs h xs \<Longrightarrow> vars_ok (vs @ [0]) h (xs @ [[]])"
  by (auto simp: vars_ok_def nth_append val_def less_Suc_eq)

lemma vars_new:
  assumes "vars_ok vs h xs" and "becomes h 0 h' a x"
  shows "vars_ok (vs @ [a]) h' (xs @ [x])"
proof -
  have "length vs = length xs" using assms(1) by (simp add: vars_ok_def)
  then show ?thesis
    using vars_set [OF vars_null [OF assms(1)], of "length xs" h' a x] assms(2) by (simp add: nth_append list_update_append)
qed

lemma vars_drop:
  assumes "vars_ok (vs @ [a]) h (xs @ [x])"
  obtains h' where "str_quit a h = Inr h'" "vars_ok vs h' xs"
proof -
  note v = assms [unfolded vars_ok_def]
  have "a \<in> dom (sh_rep h)" using v by simp
  then obtain r where r: "sh_rep h a = Some r" by blast
  from emptied_becomes [OF _ r] v have "becomes h a (free a h) 0 []" by simp
  with vars_set [OF assms, of "length xs" "free a h" 0 "[]"] v have w: "vars_ok (vs @ [0]) (free a h) (xs @ [[]])"
    by (simp add: nth_append list_update_append)
  have at: "(vs @ [0]) ! i = vs ! i" "(xs @ [[]]) ! i = xs ! i" "i < length (xs @ [[]])" if "i < length xs" for i
    using that v by (simp_all add: nth_append)
  have "val (free a h) (vs ! i) = Some (xs ! i)" if "i < length xs" for i
    using w at [OF that] unfolding vars_ok_def by metis
  moreover have "i = j \<or> vs ! i = 0" if "i < length xs" "j < length xs" "vs ! i = vs ! j" for i j
    using w at [OF that(1)] at [OF that(2)] that(3) unfolding vars_ok_def by metis
  ultimately have "vars_ok vs (free a h) xs" using w by (auto simp: vars_ok_def)
  with that quit_free [OF r] show thesis by blast
qed

lemma fetch_chars: "fetch (Lit cs) (strlen cs) h = Inr (c_string cs)"
proof -
  have "strlen cs \<le> length cs" by (simp add: strlen_def length_takeWhile_le)
  moreover have "take (strlen cs) cs = c_string cs" by (metis strlen_def takeWhile_eq_take)
  ultimately show ?thesis by (simp add: fetch_def vec_read_def)
qed

text \<open>Construction is assignment to an empty string.\<close>

lemma new_ok:
  assumes "heap_ok h" and "fetch s n h = Inr xs" and "n < 2 ^ 60"
  obtains a h' where "TiXmlString_len g s n h = Inr (a, h')" "becomes h 0 h' a xs"
proof (cases "n = 0")
  case True
  have "xs = []" using fetch_length [OF assms(2)] True by simp
  then have "TiXmlString_len g s n h = Inr (0, h)"
    using True assms(1,2) by (simp add: TiXmlString_len_def init_null put_null)
  moreover have "becomes h 0 h 0 []" using assms(1) emptied_becomes [of h 0] by (simp add: free_def)
  ultimately show thesis using that \<open>xs = []\<close> by simp
next
  case False
  have n: "length xs = n" by (rule fetch_length [OF assms(2)])
  obtain r1 h1 where f: "str_init g n n h = Inr (sh_next h, h1)" "\<exists>r1. h1 = alloc r1 h"
    "write_chars (sh_next h) 0 xs h1 = Inr (alloc r1 h)" "rep_ok r1" "contents r1 = xs" "rep_capacity r1 = n"
    by (rule fill_alloc [of xs n g h, unfolded n]) (use False assms(3) in simp_all)
  have "TiXmlString_len g s n h = Inr (sh_next h, alloc r1 h)"
    using f(1-3) fetch_alloc [OF assms(1,2)] by (auto simp: TiXmlString_len_def)
  moreover have "becomes h 0 (alloc r1 h) (sh_next h) xs"
    using replaced_becomes [of h 0 nullrep r1] assms(1) f(4-6) False by (simp add: free_def)
  ultimately show thesis using that by simp
qed

section \<open>Steps\<close>

lemma exec_assign:
  assumes "vars_ok vs h xs" and "i < length xs" and "fetch s n h = Inr x" and "n < 2 ^ 60"
  shows "runs (\<lambda>(vs', h'). vars_ok vs' h' (xs[i := x])) (set_var i vs (str_assign g s n (vs ! i) h))"
proof -
  obtain r where r: "sh_rep h (vs ! i) = Some r" by (rule vars_okD [OF assms(1,2)])
  have "heap_ok h" using assms(1) by (simp add: vars_ok_def)
  from assign_ok [OF this r assms(3,4), of g] obtain a h' where "str_assign g s n (vs ! i) h = Inr (a, h')" "becomes h (vs ! i) h' a x" .
  with vars_set [OF assms(1,2)] show ?thesis by (simp add: set_var_def)
qed

lemma exec_append:
  assumes "vars_ok vs h xs" and "i < length xs" and "fetch s n h = Inr x" and "length (xs ! i) + n < 2 ^ 60"
    and "case s of Lit _ \<Rightarrow> True | At b _ \<Rightarrow> b = 0 \<or> b \<noteq> vs ! i"
  shows "runs (\<lambda>(vs', h'). vars_ok vs' h' (xs[i := xs ! i @ x])) (set_var i vs (str_append g s n (vs ! i) h))"
proof -
  obtain r where r: "sh_rep h (vs ! i) = Some r" "contents r = xs ! i" "rep_size r = length (xs ! i)"
    by (rule vars_okD [OF assms(1,2)])
  have "heap_ok h" using assms(1) by (simp add: vars_ok_def)
  moreover have "rep_size r + n < 2 ^ 60" "src_safe s n (vs ! i) r" using assms(4,5) r(3) by (simp_all add: src_safe_def)
  ultimately obtain a h' where "str_append g s n (vs ! i) h = Inr (a, h')" "becomes h (vs ! i) h' a (contents r @ x)"
    using str_append_ok [OF _ r(1) assms(3), of g] by blast
  with vars_set [OF assms(1,2)] r(2) show ?thesis by (simp add: set_var_def)
qed

lemma exec_append_str:
  assumes "vars_ok vs h xs" and "i < length xs" and "j < length xs" and "i \<noteq> j" and "length (xs ! i) + length (xs ! j) < 2 ^ 60"
  shows "runs (\<lambda>(vs', h'). vars_ok vs' h' (xs[i := xs ! i @ xs ! j])) (set_var i vs (append_str g (vs ! j) (vs ! i) h))"
proof -
  obtain r where r: "sh_rep h (vs ! j) = Some r" "rep_size r = length (xs ! j)"
    "fetch (At (vs ! j) 0) (length (xs ! j)) h = Inr (xs ! j)" by (rule vars_okD [OF assms(1,3)])
  have "vs ! j = 0 \<or> vs ! j \<noteq> vs ! i" using assms(1-4) unfolding vars_ok_def by metis
  then show ?thesis using exec_append [OF assms(1,2) r(3), of g] assms(5) r(1,2) by (simp add: append_str_def rep_of_def)
qed

lemma exec_assign_str:
  assumes "vars_ok vs h xs" and "i < length xs" and "j < length xs" and "length (xs ! j) < 2 ^ 60"
  shows "runs (\<lambda>(vs', h'). vars_ok vs' h' (xs[i := xs ! j])) (set_var i vs (assign_str g (vs ! j) (vs ! i) h))"
proof -
  obtain r where r: "sh_rep h (vs ! j) = Some r" "rep_size r = length (xs ! j)"
    "fetch (At (vs ! j) 0) (length (xs ! j)) h = Inr (xs ! j)" by (rule vars_okD [OF assms(1,3)])
  then show ?thesis using exec_assign [OF assms(1,2) r(3), of g] assms(4) by (simp add: assign_str_def rep_of_def)
qed

lemma exec_reserve:
  assumes "vars_ok vs h xs" and "i < length xs" and "n < 2 ^ 61"
  shows "runs (\<lambda>(vs', h'). vars_ok vs' h' xs) (set_var i vs (str_reserve g n (vs ! i) h))"
proof -
  obtain r where r: "sh_rep h (vs ! i) = Some r" "contents r = xs ! i" by (rule vars_okD [OF assms(1,2)])
  have h: "heap_ok h" using assms(1) by (simp add: vars_ok_def)
  from h r(1) assms(3) show ?thesis
  proof (cases rule: reserve_ok [where g = g])
    case same
    have "length vs = length xs" using assms(1) by (simp add: vars_ok_def)
    then show ?thesis using same(2) assms(1) by (simp add: set_var_def)
  next
    case (new r1)
    have "becomes h (vs ! i) (free (vs ! i) (alloc r1 h)) (sh_next h) (xs ! i)"
      using replaced_becomes [OF h r(1) new(3)] new(1,4,6) r(2) by auto
    from vars_set [OF assms(1,2) this] show ?thesis using new(2) by (simp add: set_var_def)
  qed
qed

lemma last_var:
  "length vs = n \<Longrightarrow> runs (\<lambda>(vs', h'). Q vs' h') (set_var n (vs @ [a]) m) \<longleftrightarrow> runs (\<lambda>(t, h'). Q (vs @ [t]) h') m"
  by (cases m) (auto simp: set_var_def)

lemma plus_ok:
  assumes "vars_ok vs h xs" and "j < length xs" "k < length xs" and "length (xs ! j) + length (xs ! k) < 2 ^ 60"
  shows "runs (\<lambda>(t, h'). vars_ok (vs @ [t]) h' (xs @ [xs ! j @ xs ! k])) (str_plus g (vs ! j) (vs ! k) h)"
proof -
  let ?n = "length xs"
  have l: "length vs = ?n" using assms(1) by (simp add: vars_ok_def)
  obtain r r' where r: "sh_rep h (vs ! j) = Some r" "rep_size r = length (xs ! j)" "sh_rep h (vs ! k) = Some r'" "rep_size r' = length (xs ! k)"
    using vars_okD [OF assms(1,2)] vars_okD [OF assms(1,3)] by metis
  have n: "size_add (length (xs ! j)) (length (xs ! k)) = length (xs ! j) + length (xs ! k)" using assms(4) by (simp add: size_add_exact)
  have "runs (\<lambda>(t, h'). vars_ok (vs @ [t]) h' (xs @ [[]])) (str_reserve g (length (xs ! j) + length (xs ! k)) 0 h)"
    using exec_reserve [OF vars_null [OF assms(1)], of ?n _ g] assms(4) l by (simp add: last_var nth_append)
  then obtain t h1 where t: "str_reserve g (length (xs ! j) + length (xs ! k)) 0 h = Inr (t, h1)" "vars_ok (vs @ [t]) h1 (xs @ [[]])"
    by (auto simp: runs_iff)
  have "runs (\<lambda>(t, h'). vars_ok (vs @ [t]) h' (xs @ [xs ! j])) (append_str g (vs ! j) t h1)"
    using exec_append_str [OF t(2), of ?n j g] assms(2,4) l by (simp add: last_var nth_append list_update_append)
  then obtain t2 h2 where t2: "append_str g (vs ! j) t h1 = Inr (t2, h2)" "vars_ok (vs @ [t2]) h2 (xs @ [xs ! j])"
    by (auto simp: runs_iff)
  have "runs (\<lambda>(t, h'). vars_ok (vs @ [t]) h' (xs @ [xs ! j @ xs ! k])) (append_str g (vs ! k) t2 h2)"
    using exec_append_str [OF t2(2), of ?n k g] assms(3,4) l by (simp add: last_var nth_append list_update_append)
  then show ?thesis using r n t(1) t2(1) by (simp add: str_plus_def rep_of_def TiXmlString_empty_def)
qed

lemma exec_plus:
  assumes "vars_ok vs h xs" and "i < length xs" "j < length xs" "k < length xs" and "length (xs ! j @ xs ! k) < 2 ^ 60"
  shows "runs (\<lambda>(vs', h'). vars_ok vs' h' (xs[i := xs ! j @ xs ! k])) (str_exec g (Plus i j k) (vs, h))"
proof -
  let ?x = "xs ! j @ xs ! k"
  have l: "length vs = length xs" using assms(1) by (simp add: vars_ok_def)
  from plus_ok [OF assms(1,3,4), of g] assms(5) obtain t h1 where
    t: "str_plus g (vs ! j) (vs ! k) h = Inr (t, h1)" "vars_ok (vs @ [t]) h1 (xs @ [?x])" by (auto simp: runs_iff)
  from exec_assign_str [OF t(2), of i "length xs" g] assms(2,5) l obtain a h2 where
    a: "assign_str g t (vs ! i) h1 = Inr (a, h2)" "vars_ok (vs[i := a] @ [t]) h2 (xs[i := ?x] @ [?x])"
    by (auto simp: set_var_def nth_append list_update_append bindE_eq_Inr runs_iff split: prod.splits)
  from vars_drop [OF a(2)] obtain h3 where "str_quit t h2 = Inr h3" "vars_ok (vs[i := a]) h3 (xs[i := ?x])" .
  with t(1) a(1) show ?thesis by simp
qed

lemma exec_new:
  assumes "vars_ok vs h xs" and "fetch s n h = Inr x" and "n < 2 ^ 60"
  shows "runs (\<lambda>(vs', h'). vars_ok vs' h' (xs @ [x])) (new_var vs (TiXmlString_len g s n h))"
proof -
  have "heap_ok h" using assms(1) by (simp add: vars_ok_def)
  from new_ok [OF this assms(2,3), of g] obtain a h' where "TiXmlString_len g s n h = Inr (a, h')" "becomes h 0 h' a x" .
  with vars_new [OF assms(1)] show ?thesis by (simp add: new_var_def)
qed

lemma exec_clear:
  assumes "vars_ok vs h xs" and "i < length xs"
  shows "runs (\<lambda>(vs', h'). vars_ok vs' h' (xs[i := []])) (set_var i vs (str_clear g (vs ! i) h))"
proof -
  obtain r where r: "sh_rep h (vs ! i) = Some r" by (rule vars_okD [OF assms])
  have "heap_ok h" using assms(1) by (simp add: vars_ok_def)
  from vars_set [OF assms emptied_becomes [OF this r]] quit_free [OF r] show ?thesis
    by (simp add: set_var_def str_clear_def init_null)
qed

lemma vars_swap:
  assumes "vars_ok vs h xs" and "i < length xs" "j < length xs"
  shows "vars_ok (vs[i := vs ! j, j := vs ! i]) h (xs[i := xs ! j, j := xs ! i])"
proof -
  define f where "f n = (if n = j then i else if n = i then j else n)" for n
  note v = assms(1) [unfolded vars_ok_def]
  have at: "vs[i := vs ! j, j := vs ! i] ! n = vs ! f n" "xs[i := xs ! j, j := xs ! i] ! n = xs ! f n" "f n < length xs"
    if "n < length xs" for n using that v assms(2,3) by (auto simp: nth_list_update f_def)
  have own: "\<forall>m < length xs. \<forall>n < length xs. vs ! m = vs ! n \<longrightarrow> m = n \<or> vs ! m = 0" using v by simp
  have "set (vs[i := vs ! j, j := vs ! i]) = set vs" using v assms(2,3) by (simp add: set_swap)
  moreover have "m = n \<or> vs ! f m = 0" if "m < length xs" "n < length xs" "vs ! f m = vs ! f n" for m n
  proof -
    have "f m = f n \<or> vs ! f m = 0" by (rule own [rule_format, OF at(3) [OF that(1)] at(3) [OF that(2)] that(3)])
    then show ?thesis
    proof
      assume "f m = f n"
      then have "m = n" unfolding f_def by presburger
      then show ?thesis ..
    qed simp
  qed
  ultimately show ?thesis using v by (simp add: vars_ok_def at)
qed

lemma exec_ok:
  assumes "vars_ok vs h xs" and "str_pre p xs" and b: "\<forall>x \<in> set (str_spec p xs). length x < 2 ^ 60"
  shows "runs (\<lambda>(vs', h'). vars_ok vs' h' (str_spec p xs)) (str_exec g p (vs, h))"
proof -
  have set: "length x < 2 ^ 60" if "str_spec p xs = xs[i := x]" "i < length xs" for i x
    using b that by (simp add: set_update_memI)
  have c: "strlen cs = length (c_string cs)" for cs by (simp add: strlen_def)
  show ?thesis
  proof (cases p)
    case (AssignC i cs)
    then show ?thesis using assms(2) set [of i "c_string cs"] exec_assign [OF assms(1) _ fetch_chars] by (simp add: assign_chars_def c)
  next
    case (AssignS i j)
    then show ?thesis using assms(2) set [of i "xs ! j"] exec_assign_str [OF assms(1)] by simp
  next
    case (AppendC i cs)
    then show ?thesis using assms(2) set [of i "xs ! i @ c_string cs"] exec_append [OF assms(1) _ fetch_chars] by (simp add: append_chars_def c)
  next
    case (Push i d)
    have "fetch (Lit [d]) 1 h = Inr [d]" by (simp add: fetch_def vec_read_def)
    then show ?thesis using Push assms(2) set [of i "xs ! i @ [d]"] exec_append [OF assms(1)] by (simp add: append_char_def)
  next
    case (AppendS i j)
    then show ?thesis using assms(2) set [of i "xs ! i @ xs ! j"] exec_append_str [OF assms(1)] by simp
  next
    case (Reserve i n)
    then show ?thesis using assms(2) exec_reserve [OF assms(1)] by simp
  next
    case (Clear i)
    then show ?thesis using assms(2) exec_clear [OF assms(1)] by simp
  next
    case (Swap i j)
    then show ?thesis using assms(2) vars_swap [OF assms(1)] by simp
  next
    case (Plus i j k)
    then show ?thesis using assms(2) set [of i "xs ! j @ xs ! k"] exec_plus [OF assms(1)] by (simp del: str_exec.simps)
  next
    case (Declare cs)
    then show ?thesis using b exec_new [OF assms(1) fetch_chars] by (simp add: TiXmlString_chars_def c)
  next
    case (CopyOf j)
    with assms(2) have j: "j < length xs" by simp
    from vars_okD [OF assms(1) this] obtain r where "sh_rep h (vs ! j) = Some r" "rep_size r = length (xs ! j)"
      "fetch (At (vs ! j) 0) (length (xs ! j)) h = Inr (xs ! j)" by metis
    then show ?thesis using CopyOf b exec_new [OF assms(1)] by (simp add: TiXmlString_copy_def rep_of_def)
  next
    case DropLast
    with assms(1,2) have "vs \<noteq> []" "xs \<noteq> []" by (auto simp: vars_ok_def)
    with assms(1) have "vars_ok (butlast vs @ [last vs]) h (butlast xs @ [last xs])" by simp
    from vars_drop [OF this] obtain h' where "str_quit (last vs) h = Inr h'" "vars_ok (butlast vs) h' (butlast xs)" .
    then show ?thesis using DropLast by simp
  qed
qed

section \<open>Comparison and search\<close>

text \<open>The terminating zero ends the C string at the latest where the string ends.\<close>

lemma cstr_contents:
  assumes "heap_ok h" and "sh_rep h a = Some r" and "p \<le> rep_size r"
  shows "cstr_from a p h = Inr (c_string (drop p (contents r)))"
proof -
  have ok: "rep_ok r" by (rule heap_okD(1) [OF assms(1,2)])
  then have l: "rep_size r < length (rep_str r)" "rep_str r ! rep_size r = nul" by (simp_all add: rep_ok_def)
  have "drop p (rep_str r) = drop p (contents r) @ nul # drop (Suc (rep_size r)) (rep_str r)"
    using id_take_nth_drop [OF l(1)] l(2) assms(3) unfolding contents_def
    by (metis append_take_drop_id drop_append diff_is_0_eq drop0 length_take less_imp_le_nat min.absorb2 l(1))
  then have d: "drop p (rep_str r) = drop p (contents r) @ nul # drop (Suc (rep_size r)) (rep_str r)" .
  have "c_string (xs @ nul # ys) = c_string xs" for xs ys by (induction xs) simp_all
  with d assms(2) show ?thesis by (simp add: cstr_from_def)
qed

lemma ord_pos: "nul \<noteq> c \<Longrightarrow> 0 < ord_of c"
proof (rule ccontr)
  assume c: "nul \<noteq> c" "\<not> 0 < ord_of c"
  then have "char_of (ord_of c) = nul" by (simp add: char_of_def)
  then show False using c(1) by simp
qed

lemma strcmp_eq: "strcmp s t = 0 \<longleftrightarrow> s = t" if "nul \<notin> set s" "nul \<notin> set t"
  using that by (induction s t rule: strcmp.induct) (auto simp: ord_pos)

lemma strcmp_less: "strcmp s t < 0 \<longleftrightarrow> (s, t) \<in> lexord {(c, d). ord_of c < ord_of d}" if "nul \<notin> set s" "nul \<notin> set t"
  using that by (induction s t rule: strcmp.induct) (auto simp: ord_pos)

lemma c_string_id: "nul \<notin> set cs \<Longrightarrow> c_string cs = cs"
  by (induction cs) auto

lemma find_char_less: "c \<in> set xs \<Longrightarrow> i \<le> find_char c i xs \<and> find_char c i xs < i + length xs \<and>
    xs ! (find_char c i xs - i) = c \<and> (\<forall>k < find_char c i xs - i. xs ! k \<noteq> c)"
proof (induction xs arbitrary: i)
  case (Cons x xs)
  show ?case
  proof (cases "x = c")
    case False
    with Cons.prems have "c \<in> set xs" by simp
    from Cons.IH [OF this, of "Suc i"] have "Suc i \<le> find_char c (Suc i) xs \<and> find_char c (Suc i) xs < Suc i + length xs \<and>
      xs ! (find_char c (Suc i) xs - Suc i) = c \<and> (\<forall>k < find_char c (Suc i) xs - Suc i. xs ! k \<noteq> c)" .
    moreover from this have "find_char c (Suc i) xs - i = Suc (find_char c (Suc i) xs - Suc i)" by arith
    ultimately show ?thesis using False by (auto simp: nth_Cons split: nat.split)
  qed simp
qed simp

lemma find_char_npos: "c \<notin> set xs \<Longrightarrow> find_char c i xs = npos"
  by (induction xs arbitrary: i) auto

text \<open>On strings without zeros the comparisons and \<open>find\<close> are those of lists.\<close>

theorem string_comparison:
  assumes "heap_ok h" and "sh_rep h a = Some r" and "sh_rep h b = Some q" and "nul \<notin> set (contents r)" and "nul \<notin> set (contents q)"
  shows "str_eq a b h = Inr (contents r = contents q)"
    and "str_less a b h = Inr ((contents r, contents q) \<in> lexord {(c, d). ord_of c < ord_of d})"
    and "c \<in> set (contents r) \<Longrightarrow> runs (\<lambda>i. i < rep_size r \<and> contents r ! i = c \<and> (\<forall>k < i. contents r ! k \<noteq> c)) (str_find c 0 a h)"
    and "c \<notin> set (contents r) \<Longrightarrow> str_find c 0 a h = Inr npos"
proof -
  have ok: "rep_ok r" "rep_ok q" using heap_okD(1) assms(1-3) by auto
  have c: "cstr_from a 0 h = Inr (contents r)" "cstr_from b 0 h = Inr (contents q)"
    using cstr_contents [OF assms(1,2), of 0] cstr_contents [OF assms(1,3), of 0] c_string_id assms(4,5) by simp_all
  have n: "rep_size r = rep_size q" if "contents r = contents q" using that ok length_contents by metis
  show "str_eq a b h = Inr (contents r = contents q)"
    using assms(2-5) c strcmp_eq n by (auto simp: str_eq_def rep_of_def)
  show "str_less a b h = Inr ((contents r, contents q) \<in> lexord {(c, d). ord_of c < ord_of d})"
    using assms(4,5) c strcmp_less by (simp add: str_less_def)
  show "c \<in> set (contents r) \<Longrightarrow> runs (\<lambda>i. i < rep_size r \<and> contents r ! i = c \<and> (\<forall>k < i. contents r ! k \<noteq> c)) (str_find c 0 a h)"
    using find_char_less [of c "contents r" 0] length_contents [OF ok(1)] assms(2) c by (auto simp: str_find_def rep_of_def)
  show "c \<notin> set (contents r) \<Longrightarrow> str_find c 0 a h = Inr npos"
    using assms(2) c find_char_npos by (auto simp: str_find_def rep_of_def)
qed

section \<open>Output streams\<close>

text \<open>What a writer of pieces of text relies on, and what it gets.\<close>

locale append_buffer =
  fixes ok :: "'s \<Rightarrow> bool" and written_to :: "'s \<Rightarrow> char list" and app :: "char list \<Rightarrow> 's \<Rightarrow> 's res" and limit :: nat
  assumes app_ok: "ok s \<Longrightarrow> length (written_to s @ c_string cs) < limit \<Longrightarrow>
    runs (\<lambda>s'. ok s' \<and> written_to s' = written_to s @ c_string cs) (app cs s)"
begin

lemma write_pieces:
  assumes "ok s" and "length (written_to s @ concat (map c_string pieces)) < limit"
  shows "runs (\<lambda>s'. ok s' \<and> written_to s' = written_to s @ concat (map c_string pieces)) (foldE app pieces s)"
  using assms
proof (induction pieces arbitrary: s)
  case (Cons p ps)
  then have "runs (\<lambda>s'. ok s' \<and> written_to s' = written_to s @ c_string p) (app p s)" by (intro app_ok) auto
  then obtain s' where "app p s = Inr s'" "ok s'" "written_to s' = written_to s @ c_string p" by (rule runsE) simp
  with Cons.IH [of s'] Cons.prems show ?case by simp
qed simp

end

text \<open>\<open>TiXmlOutStream\<close>: the stream is a string with \<open>operator <<\<close>.\<close>

type_synonym out_stream = "addr \<times> sheap"

definition stream_ok :: "out_stream \<Rightarrow> bool" where
  "stream_ok s = (heap_ok (snd s) \<and> sh_rep (snd s) (fst s) \<noteq> None)"

definition stream_text :: "out_stream \<Rightarrow> char list" where
  "stream_text s = (case val (snd s) (fst s) of None \<Rightarrow> [] | Some x \<Rightarrow> x)"

definition out_chars :: "(nat \<Rightarrow> char) \<Rightarrow> char list \<Rightarrow> out_stream \<Rightarrow> out_stream res" where
  "out_chars g cs s = append_chars g cs (fst s) (snd s)"

definition out_string :: "(nat \<Rightarrow> char) \<Rightarrow> addr \<Rightarrow> out_stream \<Rightarrow> out_stream res" where
  "out_string g b s = append_str g b (fst s) (snd s)"

lemma out_chars_ok:
  assumes "stream_ok s" and "length (stream_text s @ c_string cs) < 2 ^ 60"
  shows "runs (\<lambda>s'. stream_ok s' \<and> stream_text s' = stream_text s @ c_string cs) (out_chars g cs s)"
proof -
  obtain a h where s: "s = (a, h)" by (cases s)
  from assms(1) obtain r where r: "heap_ok h" "sh_rep h a = Some r" by (auto simp: stream_ok_def s)
  have t: "stream_text s = contents r" using r(2) by (simp add: stream_text_def val_def s)
  have "rep_size r + strlen cs < 2 ^ 60" using assms(2) t heap_okD(1) [OF r] by (simp add: strlen_def)
  moreover have "src_safe (Lit cs) (strlen cs) a r" by (simp add: src_safe_def)
  ultimately obtain a' h' where a: "str_append g (Lit cs) (strlen cs) a h = Inr (a', h')" "becomes h a h' a' (contents r @ c_string cs)"
    using str_append_ok [OF r fetch_chars] by metis
  have v: "heap_ok h'" "val h' a' = Some (contents r @ c_string cs)" using a(2) by (simp_all add: becomes_def)
  then have "stream_ok (a', h')" "stream_text (a', h') = stream_text s @ c_string cs"
    using t by (auto simp: stream_ok_def stream_text_def val_def)
  with a(1) show ?thesis by (simp add: out_chars_def append_chars_def s)
qed

interpretation stream: append_buffer stream_ok stream_text "out_chars g" "2 ^ 60"
  by unfold_locales (rule out_chars_ok)

section \<open>Properties\<close>

definition heap0 :: sheap where
  "heap0 = \<lparr>sh_rep = [0 \<mapsto> nullrep], sh_next = 1\<rparr>"

lemma vars_ok_start: "vars_ok [] heap0 []"
  by (simp add: vars_ok_def heap_ok_def heap0_def)

text \<open>
  C34: strings are well typed and refine lists. A program over string variables (assignment,
  concatenation, reservation, copies, swaps, destruction) that appends no string to itself and keeps
  lengths below \<open>2 ^ 60\<close> runs without an invalid access, whatever uninitialised memory holds. At its
  end every live representation is well formed (its size within its capacity, its capacity within the
  storage, a zero behind the characters), is owned by exactly one variable, with no other memory left
  allocated, and the variables hold the lists the same program computes on lists.
\<close>

theorem string_programs:
  assumes "str_run_ok ps []"
  shows "runs (\<lambda>(vs, h). let xs = foldl (\<lambda>xs p. str_spec p xs) [] ps in length vs = length xs \<and>
      (\<forall>a r. sh_rep h a = Some r \<longrightarrow> rep_size r \<le> rep_capacity r \<and> rep_capacity r < length (rep_str r) \<and> rep_str r ! rep_size r = nul) \<and>
      (\<forall>i < length xs. \<exists>r. sh_rep h (vs ! i) = Some r \<and> take (rep_size r) (rep_str r) = xs ! i) \<and>
      (\<forall>i < length xs. \<forall>j < length xs. vs ! i = vs ! j \<longrightarrow> i = j \<or> vs ! i = 0) \<and> dom (sh_rep h) = insert 0 (set vs))
    (foldE (str_exec g) ps ([], heap0))"
proof -
  have "runs (\<lambda>(vs', h'). vars_ok vs' h' (foldl (\<lambda>xs p. str_spec p xs) xs ps)) (foldE (str_exec g) ps (vs, h))"
    if "vars_ok vs h xs" "str_run_ok ps xs" for vs h xs
    using that
  proof (induction ps arbitrary: vs h xs)
    case (Cons p ps)
    from Cons.prems obtain vs' h' where p: "str_exec g p (vs, h) = Inr (vs', h')" "vars_ok vs' h' (str_spec p xs)"
      using exec_ok [OF Cons.prems(1), of p g] by (auto simp: runs_iff)
    with Cons show ?case by simp
  qed simp
  from this [OF vars_ok_start assms] show ?thesis
    by (rule runs_mono) (auto simp: vars_ok_def heap_ok_def rep_ok_def val_def contents_def Let_def)
qed

theorem string_programs_witness:
  "runs (\<lambda>(vs, h). length vs = 2 \<and> dom (sh_rep h) = insert 0 (set vs) \<and>
      (\<exists>r. sh_rep h (vs ! 0) = Some r \<and> rep_size r \<le> rep_capacity r \<and> take (rep_size r) (rep_str r) = ''abcdab'') \<and>
      (\<exists>r. sh_rep h (vs ! 1) = Some r \<and> take (rep_size r) (rep_str r) = ''abcd''))
    (foldE (str_exec (\<lambda>_. CHR ''?'')) [Declare ''ab'', CopyOf 0, AppendC 1 ''cd'', Plus 0 1 0, Reserve 0 100, Declare ''x'', DropLast]
      ([], heap0))"
proof -
  let ?ps = "[Declare ''ab'', CopyOf 0, AppendC 1 ''cd'', Plus 0 1 0, Reserve 0 100, Declare ''x'', DropLast]"
  have ok: "str_run_ok ?ps []" by simp
  have xs: "foldl (\<lambda>xs p. str_spec p xs) [] ?ps = [''abcdab'', ''abcd'']" by simp
  show ?thesis
    by (rule runs_mono [OF string_programs [OF ok, unfolded xs Let_def, of "\<lambda>_. CHR ''?''"]])
      (auto simp: less_Suc_eq)
qed

end
