(* ===== verification/XmlReads.thy ===== *)
theory XmlReads
  imports XmlDocument
begin

text \<open>
  What the parser of \<open>submodules/tinyxml\<close> makes of well-formed text: markup between blanks is read as the node it
  stands for, nested to any depth. The printers of \<open>XmlPrint\<close> and \<open>XmlVisit\<close> produce such text; they differ in
  the blanks only.
\<close>

abbreviation nl :: char where "nl \<equiv> CHR 0x0A"

section \<open>Documents that can be printed\<close>

text \<open>ASCII without zeros; what a value may not hold is the start of a hexadecimal reference.\<close>

definition ascii :: "char \<Rightarrow> bool" where
  "ascii c \<longleftrightarrow> 0 < ord_of c \<and> ord_of c < 127"

definition value_ok :: "string \<Rightarrow> bool" where
  "value_ok v \<longleftrightarrow> list_all ascii v \<and> (\<forall>n. \<not> hex_ref (drop n v))"

text \<open>Blanks stand alone, inside the text; \<open>w\<close> says that one stands before.\<close>

fun condensed :: "bool \<Rightarrow> string \<Rightarrow> bool" where
  "condensed w [] \<longleftrightarrow> \<not> w"
| "condensed w (c # cs) \<longleftrightarrow> (c = CHR '' '' \<longrightarrow> \<not> w) \<and> condensed (c = CHR '' '') cs"

definition text_ok :: "string \<Rightarrow> bool" where
  "text_ok v \<longleftrightarrow> value_ok v \<and> condensed True v \<and> \<not> list_all IsWhiteSpace v"

text \<open>Text that is written as it is, and ends where \<open>tag\<close> is first found.\<close>

definition raw_ok :: "string \<Rightarrow> bool" where
  "raw_ok v \<longleftrightarrow> CHR 0x00 \<notin> set v \<and> CHR 0x0D \<notin> set v"

definition ends_at :: "string \<Rightarrow> string \<Rightarrow> bool" where
  "ends_at tag v \<longleftrightarrow> (\<forall>n < length v. \<not> starts_with id (drop n v @ tag) tag)"

definition unknown_ok :: "string \<Rightarrow> bool" where
  "unknown_ok v \<longleftrightarrow> raw_ok v \<and> CHR ''>'' \<notin> set v \<and>
     (v \<noteq> [] \<longrightarrow> hd v \<notin> {CHR ''/'', CHR ''?'', CHR ''_''} \<and> \<not> IsAlpha (hd v) \<and>
       (hd v = CHR ''!'' \<longrightarrow> \<not> starts_with id (tl v) ''-'' \<and> \<not> starts_with id (tl v) ''[''))"

definition field_ok :: "string \<Rightarrow> bool" where
  "field_ok v \<longleftrightarrow> list_all (\<lambda>c. ascii c \<and> c \<noteq> CHR ''&'' \<and> c \<noteq> CHR 0x22 \<and> c \<noteq> CHR 0x0D) v"

definition attrs_ok :: "(string \<times> string) list \<Rightarrow> bool" where
  "attrs_ok as \<longleftrightarrow> distinct (map fst as) \<and> list_all (\<lambda>(n, v). good_name n \<and> value_ok v) as"

fun plain_text :: "TiXmlNode \<Rightarrow> bool" where
  "plain_text (TiXmlText cd v) \<longleftrightarrow> \<not> cd"
| "plain_text n \<longleftrightarrow> False"

fun separated :: "TiXmlNode list \<Rightarrow> bool" where
  "separated (x # y # r) \<longleftrightarrow> \<not> (plain_text x \<and> plain_text y) \<and> separated (y # r)"
| "separated r \<longleftrightarrow> True"

fun printable :: "TiXmlNode \<Rightarrow> bool" where
  "printable (TiXmlElement v as ch) \<longleftrightarrow> good_name v \<and> attrs_ok as \<and> separated ch \<and> list_all printable ch"
| "printable (TiXmlText cd v) \<longleftrightarrow> (if cd then raw_ok v \<and> ends_at '']]>'' v else text_ok v)"
| "printable (TiXmlComment v) \<longleftrightarrow> raw_ok v \<and> ends_at ''-->'' v"
| "printable (TiXmlUnknown v) \<longleftrightarrow> unknown_ok v"
| "printable (TiXmlDeclaration v e sa) \<longleftrightarrow> field_ok v \<and> field_ok e \<and> field_ok sa"

section \<open>White space\<close>

definition blanks :: "string \<Rightarrow> bool" where
  "blanks w \<longleftrightarrow> list_all (\<lambda>c. c = nl \<or> c = CHR 0x09 \<or> c = CHR '' '') w"

lemma blanks_simps [simp]: "blanks []" "blanks (c # w) \<longleftrightarrow> (c = nl \<or> c = CHR 0x09 \<or> c = CHR '' '') \<and> blanks w" "blanks (u @ w) \<longleftrightarrow> blanks u \<and> blanks w"
  by (auto simp: blanks_def)

lemma blank_white [simp]: "IsWhiteSpace nl" "IsWhiteSpace CHR 0x09" "IsWhiteSpace CHR '' ''" "\<not> IsWhiteSpace CHR ''<''" "\<not> IsWhiteSpace CHR ''&''"
  by (simp_all add: IsWhiteSpace_def isspace_def)

lemma skip_blanks: "blanks w \<Longrightarrow> skip_white enc (w @ s) = skip_white enc s"
  by (induction w) (auto simp: utf_lead_def)

lemma Skip_blanks: "blanks w \<Longrightarrow> s \<noteq> [] \<Longrightarrow> SkipWhiteSpace enc (Some (w @ s)) = SkipWhiteSpace enc (Some s)"
  by (cases "w = []") (simp_all add: SkipWhiteSpace_def skip_blanks)

lemma ReadValue_blanks:
  assumes "blanks w" and "s \<noteq> []"
  shows "ReadValue m True enc (Some (w @ s)) ch err = ReadValue m True enc (Some s) ch err"
  by (cases m) (simp_all add: Skip_blanks [OF assms] cong: option.case_cong if_cong)

section \<open>Encoded text\<close>

lemma ascii_single: "ascii c \<Longrightarrow> single_byte enc c"
  by (simp add: ascii_def single_byte_def)

lemma ord_blank: "ord_of c = 32 \<Longrightarrow> c = CHR '' ''"
proof -
  assume c: "ord_of c = 32"
  have "char_of (32 :: nat) = CHR '' ''" by code_simp
  then have "char_of (ord_of c) = CHR '' ''" unfolding c .
  then show ?thesis by simp
qed

lemma encode_char_head:
  assumes "ascii c"
  obtains d ds where "encode_char c = d # ds" "d \<noteq> CHR ''<''" "IsWhiteSpace d \<longleftrightarrow> c = CHR '' ''" "ord_of d < 127" "32 \<le> ord_of d"
    "c = CHR '' '' \<Longrightarrow> encode_char c = '' ''"
proof -
  consider e where "(e, c) \<in> set entities" | "c \<notin> snd ` set entities" by force
  then show thesis
  proof cases
    case 1
    then show thesis using that by (auto simp: entities_def encode_char_def IsWhiteSpace_def isspace_def)
  next
    case 2
    then have none: "find (\<lambda>(s, d). d = c) entities = None" by (force simp: find_None_iff)
    show thesis
    proof (cases "ord_of c < 32")
      case True
      then show thesis using none that [of "CHR ''&''"] by (force simp: encode_char_def IsWhiteSpace_def isspace_def)
    next
      case False
      have "IsWhiteSpace c \<longleftrightarrow> c = CHR '' ''" using False ord_blank by (auto simp: IsWhiteSpace_def isspace_def)
      then show thesis using none False 2 assms that [of c "[]"] by (auto simp: encode_char_def entities_def ascii_def)
    qed
  qed
qed

lemma hex_ref_tail: "\<forall>n. \<not> hex_ref (drop n (c # v)) \<Longrightarrow> \<not> hex_ref (c # v) \<and> (\<forall>n. \<not> hex_ref (drop n v))"
proof
  assume a: "\<forall>n. \<not> hex_ref (drop n (c # v))"
  show "\<not> hex_ref (c # v)" using spec [OF a, of 0] by simp
  show "\<forall>n. \<not> hex_ref (drop n v)" using spec [OF a, of "Suc n" for n] by simp
qed

lemma value_ok_Cons: "value_ok (c # v) \<Longrightarrow> ascii c \<and> value_ok v \<and> EncodeString (c # v) = encode_char c @ EncodeString v"
  using hex_ref_tail [of c v] by (simp add: value_ok_def)

lemma value_okI:
  assumes "list_all ascii v" and "list_all (\<lambda>n. \<not> hex_ref (drop n v)) [0..<length v]"
  shows "value_ok v"
proof -
  have "\<not> hex_ref (drop n v)" for n using assms(2) by (cases "n < length v") (simp_all add: list_all_iff hex_ref_def)
  then show ?thesis using assms(1) by (simp add: value_ok_def)
qed

lemma read_blanks:
  "blanks u \<Longrightarrow> read_condense enc False ''<'' (u @ CHR ''<'' # r) acc w = Inr (acc, Some (CHR ''<'' # r))"
proof (induction u arbitrary: w)
  case Nil
  show ?case by (subst read_condense.simps) (simp add: StringEqual_def)
next
  case (Cons c u)
  have "read_condense enc False ''<'' (c # u @ CHR ''<'' # r) acc w = read_condense enc False ''<'' (u @ CHR ''<'' # r) acc True"
    using Cons.prems by (subst read_condense.simps) (auto simp: StringEqual_def)
  then show ?case using Cons by simp
qed

lemma read_condense_encoded:
  assumes "value_ok v" and "condensed w v" and "blanks u"
  shows "read_condense enc False ''<'' (EncodeString v @ u @ CHR ''<'' # r) acc w =
    Inr (acc @ (if w then '' '' else []) @ v, Some (CHR ''<'' # r))"
  using assms(1,2)
proof (induction v arbitrary: acc w)
  case Nil
  then show ?case using read_blanks [OF assms(3)] by simp
next
  case (Cons c v)
  note c = value_ok_Cons [OF Cons.prems(1)]
  obtain d ds where d: "encode_char c = d # ds" "d \<noteq> CHR ''<''" "IsWhiteSpace d \<longleftrightarrow> c = CHR '' ''" "c = CHR '' '' \<Longrightarrow> encode_char c = '' ''"
    using encode_char_head [of c] c by metis
  let ?t = "EncodeString v @ u @ CHR ''<'' # r"
  show ?case
  proof (cases "c = CHR '' ''")
    case True
    then have "d = CHR '' ''" "ds = []" using d(1,4) by auto
    then have "read_condense enc False ''<'' (encode_char c @ ?t) acc w = read_condense enc False ''<'' ?t acc True"
      using d(1) by (subst read_condense.simps) (simp add: StringEqual_def)
    then show ?thesis using Cons.IH [of True acc] Cons.prems(2) c True by simp
  next
    case False
    have "read_condense enc False ''<'' (encode_char c @ ?t) acc w =
        read_condense enc False ''<'' ?t ((if w then acc @ '' '' else acc) @ [c]) False"
      using GetChar_encoded [OF ascii_single, of c enc ?t] c d(1-3) False
      by (subst read_condense.simps) (simp add: StringEqual_def)
    then show ?thesis using Cons.IH [of False] Cons.prems(2) c False by simp
  qed
qed

text \<open>A text is read back up to the next markup.\<close>

lemma encoded_start:
  assumes "text_ok v"
  obtains d ds where "EncodeString v = d # ds" "d \<noteq> CHR ''<''" "\<not> IsWhiteSpace d" "33 \<le> ord_of d" "ord_of d < 127"
proof -
  obtain c w where v: "v = c # w" using assms by (cases v) (auto simp: text_ok_def)
  then have c: "ascii c" "c \<noteq> CHR '' ''" "EncodeString v = encode_char c @ EncodeString w"
    using assms value_ok_Cons [of c w] by (auto simp: text_ok_def)
  from encode_char_head [OF c(1)] obtain d ds where
    d: "encode_char c = d # ds" "d \<noteq> CHR ''<''" "IsWhiteSpace d \<longleftrightarrow> c = CHR '' ''" "ord_of d < 127" "32 \<le> ord_of d" by metis
  have "ord_of d \<noteq> 32" using d(3) c(2) by (auto simp: IsWhiteSpace_def isspace_def)
  then show thesis using that [of d "ds @ EncodeString w"] d c by simp
qed

lemma encoded_no_nul: "value_ok v \<Longrightarrow> c \<in> set (EncodeString v) \<Longrightarrow> 32 \<le> ord_of c"
proof (induction v)
  case (Cons x v)
  note x = value_ok_Cons [OF Cons.prems(1)]
  have "32 \<le> ord_of c" if "c \<in> set (encode_char x)"
  proof (cases "find (\<lambda>(s, d). d = x) entities")
    case None
    have "32 \<le> ord_of (hex_char n)" if "n < 16" for n using that by (auto simp: hex_char_def)
    moreover have "ord_of x div 16 < 16" "ord_of x mod 16 < 16" using x by (simp_all add: ascii_def div_less_iff_less_mult)
    ultimately show ?thesis using that None by (auto simp: encode_char_def split: if_splits)
  next
    case (Some e)
    then have "e \<in> set entities" by (auto simp: find_Some_iff in_set_conv_nth)
    then show ?thesis using that Some by (auto simp: encode_char_def entities_def)
  qed
  then show ?case using Cons x by auto
qed simp

lemma cstr_id_nul: "CHR 0x00 \<notin> set s \<Longrightarrow> cstr s = s"
  by (induction s) (auto simp: cstr_def)

lemma cstr_encoded [simp]: "value_ok v \<Longrightarrow> cstr (EncodeString v) = EncodeString v"
proof (rule cstr_id_nul)
  assume "value_ok v"
  from encoded_no_nul [OF this, of "CHR 0x00"] show "CHR 0x00 \<notin> set (EncodeString v)" by auto
qed

lemma ReadValue_encoded:
  assumes "text_ok v" and "blanks u" and "r \<noteq> []"
  shows "ReadValue (Suc m) True enc (Some (EncodeString v @ u @ CHR ''<'' # r)) ch err =
    ReadValue m True enc (Some (CHR ''<'' # r)) (ch @ [TiXmlText False v]) err"
proof -
  obtain d ds where d: "EncodeString v = d # ds" "d \<noteq> CHR ''<''" "\<not> IsWhiteSpace d" "33 \<le> ord_of d" "ord_of d < 127"
    by (rule encoded_start [OF assms(1)])
  let ?s = "EncodeString v @ u @ CHR ''<'' # r"
  have v: "value_ok v" "condensed False v" "v \<noteq> []" using assms(1) by (cases v; auto simp: text_ok_def)+
  have sk: "SkipWhiteSpace enc (Some ?s) = Some ?s" using d by (simp add: skip_char)
  have "read_condense enc False ''<'' ?s [] False = Inr (v, Some (CHR ''<'' # r))"
    using read_condense_encoded [OF v(1,2) assms(2), of enc r "[]"] by simp
  then have t: "Text_Parse True enc False ?s err = Inr (TiXmlText False v, Some (CHR ''<'' # r), err)"
    using d sk assms(3) by (simp add: Text_Parse_def StringEqual_def ReadText_def after_tag_def)
  have "\<not> Blank (TiXmlText False v)" using assms(1) by (simp add: Blank_def text_ok_def)
  then show ?thesis using sk d t by (simp add: bindP_Some)
qed

section \<open>Attributes\<close>

lemma good_name_chars_ok: "good_name n \<Longrightarrow> c \<in> set n \<Longrightarrow> 33 \<le> ord_of c \<and> ord_of c < 127 \<and> c \<notin> snd ` set entities"
  by (fastforce simp: good_name_def list_all_iff name_char_def IsAlphaNum_def isalpha_def isdigit_def entities_def)

lemma name_encoded:
  assumes "good_name n"
  shows "EncodeString n = n" and "cstr n = n"
proof -
  have e: "encode_char c = [c]" if "c \<in> set n" for c
  proof -
    have "find (\<lambda>(s, d). d = c) entities = None" "\<not> ord_of c < 32"
      using good_name_chars_ok [OF assms that] by (force simp: find_None_iff)+
    then show ?thesis by (simp add: encode_char_def)
  qed
  have "\<not> hex_ref (c # w)" if "c \<in> set n" for c w
    using good_name_chars_ok [OF assms that] by (auto simp: hex_ref_def entities_def)
  with e have "EncodeString m = m" if "set m \<subseteq> set n" for m
    using that by (induction m) auto
  then show "EncodeString n = n" by simp
  show "cstr n = n" by (rule cstr_id_nul) (use good_name_chars_ok [OF assms, of "CHR 0x00"] in auto)
qed

text \<open>An attribute as the printers write it.\<close>

definition attr_form :: "string \<times> string \<Rightarrow> string" where
  "attr_form a = (let q = (if CHR 0x22 \<in> set (snd a) then CHR 0x27 else CHR 0x22) in fst a @ ''='' @ [q] @ EncodeString (snd a) @ [q])"

lemma attr_read:
  assumes "good_name n" and "value_ok v" and "rest \<noteq> []"
  shows "Attribute_Parse True True enc (Some (attr_form (n, v) @ rest)) err = Inr ((n, v), Some rest, err)"
proof -
  define q where "q = (if CHR 0x22 \<in> set v then CHR 0x27 else CHR 0x22)"
  let ?r = "q # EncodeString v @ q # rest"
  have q: "q \<in> {CHR 0x22, CHR 0x27}" by (simp add: q_def)
  have p: "attr_form (n, v) @ rest = n @ CHR ''='' # ?r"
    by (simp add: attr_form_def q_def Let_def)
  note nr = name_read [OF assms(1) markup_no_name(2)]
  have sk: "SkipWhiteSpace enc (Some (CHR ''='' # ?r)) = Some (CHR ''='' # ?r)" "SkipWhiteSpace enc (Some ?r) = Some ?r"
    using q by (auto intro!: skip_char)
  have "\<forall>c \<in> set v. single_byte enc c" "\<forall>k. \<not> hex_ref (drop k v)"
    using assms(2) by (auto simp: value_ok_def list_all_iff ascii_single)
  from read_keep_encoded [OF q this, of rest "[]"] have "attr_value True True enc ?r err = Inr (v, Some rest, err)"
    using q assms(3) by (auto simp: attr_value_def ReadText_def after_tag_def)
  then show ?thesis
    unfolding p using nr sk by (simp add: Attribute_Parse_def null_or_end_def)
qed

definition attr_texts :: "(string \<times> string) list \<Rightarrow> string" where
  "attr_texts as = concat (map (\<lambda>a. '' '' @ attr_form a) as)"

lemma attr_step:
  assumes "good_name n" and "value_ok v" and "rest \<noteq> []" and "n \<notin> set (map fst pre)"
  shows "elem_attrs True enc (CHR '' '' # attr_form (n, v) @ rest) pre err = elem_attrs True enc rest (pre @ [(n, v)]) err"
proof -
  let ?a = "attr_form (n, v) @ rest"
  obtain c w where c: "n = c # w" "isalpha c" using assms(1) by (cases n) (auto simp: good_name_def)
  obtain r where p: "?a = n @ CHR ''='' # r" by (simp add: attr_form_def Let_def)
  have s: "skip_white enc (CHR '' '' # ?a) = ?a"
    using name_read(3) [OF assms(1) markup_no_name(2), of enc r] skip_blanks [of "'' ''" enc ?a] p by simp
  have h: "hd ?a = c" "?a \<noteq> []" using p c by simp_all
  then have "hd ?a \<noteq> CHR ''/''" "hd ?a \<noteq> CHR ''>''" using c(2) by (auto simp: isalpha_def)
  then show ?thesis
    using attr_read [OF assms(1-3), of enc err] assms(3,4) h(2) by (subst elem_attrs.simps) (simp add: s Let_def del: skip_white.simps)
qed

lemma attrs_read:
  assumes "attrs_ok (pre @ as)" and "t \<noteq> []"
  shows "elem_attrs True enc (attr_texts as @ t) pre err = elem_attrs True enc t (pre @ as) err"
  using assms(1)
proof (induction as arbitrary: pre)
  case (Cons a as)
  obtain n v where a: "a = (n, v)" by (cases a)
  have ok: "good_name n" "value_ok v" "n \<notin> set (map fst pre)" using Cons.prems a by (auto simp: attrs_ok_def)
  have "attr_texts as @ t \<noteq> []" using assms(2) by simp
  from attr_step [OF ok(1,2) this ok(3), of enc err] Cons.IH [of "pre @ [a]"] Cons.prems
  show ?case by (simp add: attr_texts_def a)
qed (simp add: attr_texts_def)

lemma empty_tag_end: "elem_attrs cw enc ('' />'' @ s) a err = Inr (a, Finished (Some s), err)"
proof -
  have "skip_white enc ('' />'' @ s) = ''/>'' @ s"
    using skip_blanks [of "'' ''" enc "''/>'' @ s"] skip_white_char [of "CHR ''/''" enc "CHR ''>'' # s"] by simp
  then show ?thesis by (subst elem_attrs.simps) (simp add: Let_def del: skip_white.simps)
qed

section \<open>Leaves\<close>

text \<open>
  Text that a reader takes for the node, whatever comes behind it: markup between blanks, recognised and parsed;
  \<open>N\<close> bounds the depth of the recursion.
\<close>

definition behind :: "ptr \<Rightarrow> string \<Rightarrow> bool" where
  "behind q s \<longleftrightarrow> q = Some s \<or> q = None \<and> s = []"

lemma behind_Some [simp]: "behind (Some s) s"
  by (simp add: behind_def)

lemma behind_skip: "behind q s \<Longrightarrow> SkipWhiteSpace enc q = SkipWhiteSpace enc (Some s)"
  by (auto simp: behind_def SkipWhiteSpace_def)

lemma behind_ne: "behind q s \<Longrightarrow> s \<noteq> [] \<Longrightarrow> q = Some s"
  by (simp add: behind_def)

definition reads_as :: "TiXmlEncoding \<Rightarrow> string \<Rightarrow> TiXmlNode \<Rightarrow> bool" where
  "reads_as enc s n \<longleftrightarrow> (\<exists>pre b post k N. s = pre @ (CHR ''<'' # b) @ post \<and> blanks pre \<and> blanks post \<and>
     (\<forall>rest. \<not> starts_with id (CHR ''<'' # b @ post @ rest) ''</'' \<and>
       Identify enc (Some (CHR ''<'' # b @ post @ rest)) = Some k \<and>
       (\<forall>m \<ge> N. \<forall>err. \<exists>q. behind q (post @ rest) \<and>
         Node_Parse (\<lambda>t e. ReadValue m True enc (Some t) [] e) True enc k (CHR ''<'' # b @ post @ rest) err = Some (Inr (n, q, err)))))"

lemma reads_asI:
  assumes "\<And>rest. \<not> starts_with id (CHR ''<'' # b @ rest) ''</''"
    and "\<And>rest. Identify enc (Some (CHR ''<'' # b @ rest)) = Some k"
    and "\<And>rest m err. N \<le> m \<Longrightarrow> Node_Parse (\<lambda>t e. ReadValue m True enc (Some t) [] e) True enc k (CHR ''<'' # b @ rest) err =
      Some (Inr (n, if rest = [] then q else Some rest, err))"
    and "q = None \<or> q = Some []"
  shows "reads_as enc (CHR ''<'' # b) n"
  unfolding reads_as_def
  by (intro exI [of _ "[]"] exI [of _ b] exI [of _ k] exI [of _ N]) (use assms in \<open>auto simp: behind_def\<close>)

lemma reads_as_blanks:
  assumes "reads_as enc s n" and "blanks w" and "blanks w'"
  shows "reads_as enc (w @ s @ w') n"
proof -
  from assms(1) obtain pre b post k N where p: "s = pre @ (CHR ''<'' # b) @ post" "blanks pre" "blanks post"
    and r: "\<And>rest. \<not> starts_with id (CHR ''<'' # b @ post @ rest) ''</'' \<and>
       Identify enc (Some (CHR ''<'' # b @ post @ rest)) = Some k \<and>
       (\<forall>m \<ge> N. \<forall>err. \<exists>q. behind q (post @ rest) \<and>
         Node_Parse (\<lambda>t e. ReadValue m True enc (Some t) [] e) True enc k (CHR ''<'' # b @ post @ rest) err = Some (Inr (n, q, err)))" unfolding reads_as_def by blast
  show ?thesis
    unfolding reads_as_def
    by (intro exI [of _ "w @ pre"] exI [of _ b] exI [of _ "post @ w'"] exI [of _ k] exI [of _ N])
      (use p assms(2,3) r [of "w' @ rest" for rest] in \<open>simp del: starts_with.simps\<close>)
qed

lemma starts_with_append: "length tag \<le> length s \<Longrightarrow> starts_with f (s @ r) tag = starts_with f s tag"
  by (induction f s tag rule: starts_with.induct) auto

lemma scan_to_ends:
  assumes "ends_at tag v" and "tag \<noteq> []"
  shows "scan_to tag (v @ tag @ rest) acc = (acc @ v, tag @ rest)"
  using assms(1)
proof (induction v arbitrary: acc)
  case Nil
  obtain c cs where "tag = c # cs" using assms(2) by (cases tag) auto
  then show ?case using starts_with_prefix [of id tag rest] by simp
next
  case (Cons c v)
  have "\<not> starts_with id ((c # v) @ tag) tag" using Cons.prems unfolding ends_at_def by (metis drop0 length_greater_0_conv list.discI)
  then have n: "\<not> starts_with id (c # v @ tag @ rest) tag"
    using starts_with_append [of tag "(c # v) @ tag" id rest] by simp
  have "ends_at tag v" using Cons.prems unfolding ends_at_def by (metis Suc_less_eq drop_Suc_Cons length_Cons)
  with Cons.IH [of "acc @ [c]"] n show ?case by simp
qed

lemma comment_as: "raw_ok v \<Longrightarrow> ends_at ''-->'' v \<Longrightarrow> reads_as enc (''<!--'' @ v @ ''-->'') (TiXmlComment v)"
  using reads_asI [where b = "''!--'' @ v @ ''-->''" and k = KComment and N = 0 and enc = enc and n = "TiXmlComment v" and q = "Some []"]
  by (simp add: Identify_def ToLower_def Node_Parse_def Comment_Parse_def StringEqual_def scan_to_ends [of "''-->''", simplified])

lemma cdata_as:
  assumes "ends_at '']]>'' v"
  shows "reads_as enc (''<![CDATA['' @ v @ '']]>'') (TiXmlText True v)"
proof -
  have k: "read_keep enc False '']]>'' ('']]>'' @ r) [] = Inr ([], Some ('']]>'' @ r))" for r
    by (subst read_keep.simps) (simp add: StringEqual_def)
  have "reads_as enc (CHR ''<'' # ''![CDATA['' @ v @ '']]>'') (TiXmlText True v)"
  proof (rule reads_asI [where k = KCdata and N = 0 and q = None])
    show "Node_Parse (\<lambda>t e. ReadValue m True enc (Some t) [] e) True enc KCdata
        (CHR ''<'' # (''![CDATA['' @ v @ '']]>'') @ rest) err = Some (Inr (TiXmlText True v, if rest = [] then None else Some rest, err))" for m rest err
      using scan_to_ends [OF assms, of rest "[]"] k
      by (simp add: Node_Parse_def Text_Parse_def StringEqual_def ReadText_def after_tag_def)
  qed (simp_all add: Identify_def ToLower_def)
  then show ?thesis by simp
qed

lemma unknown_as:
  assumes "unknown_ok v"
  shows "reads_as enc (''<'' @ v @ ''>'') (TiXmlUnknown v)"
proof -
  have tw: "takeWhile (\<lambda>c. c \<noteq> CHR ''>'') (v @ CHR ''>'' # r) = v" "dropWhile (\<lambda>c. c \<noteq> CHR ''>'') (v @ CHR ''>'' # r) = CHR ''>'' # r" for r
    using assms by (auto simp: unknown_ok_def takeWhile_append dropWhile_append)
  have "reads_as enc (CHR ''<'' # v @ ''>'') (TiXmlUnknown v)"
  proof (rule reads_asI [where k = KUnknown and N = 0 and q = "Some []"])
    show "Node_Parse (\<lambda>t e. ReadValue m True enc (Some t) [] e) True enc KUnknown (CHR ''<'' # (v @ ''>'') @ rest) err =
        Some (Inr (TiXmlUnknown v, if rest = [] then Some [] else Some rest, err))" for m rest err
      using tw by (simp add: Node_Parse_def Unknown_Parse_def)
    show "\<not> starts_with id (CHR ''<'' # (v @ ''>'') @ rest) ''</''" for rest
      using assms by (cases v) (auto simp: unknown_ok_def)
    show "Identify enc (Some (CHR ''<'' # (v @ ''>'') @ rest)) = Some KUnknown" for rest
    proof (cases v)
      case Nil
      then show ?thesis by (simp add: Identify_def ToLower_def IsAlpha_def isalpha_def)
    next
      case (Cons c w)
      have c: "c \<noteq> CHR ''?''" "c \<noteq> CHR ''_''" "\<not> IsAlpha c" "c = CHR ''!'' \<Longrightarrow> \<not> starts_with id w ''-'' \<and> \<not> starts_with id w ''[''"
        using assms Cons by (auto simp: unknown_ok_def)
      then have "ToLower c \<noteq> CHR ''?''" by (auto simp: ToLower_def IsAlpha_def isalpha_def split: if_splits)
      moreover have "\<not> starts_with id (w @ CHR ''>'' # rest) ''--''" "\<not> starts_with id (w @ CHR ''>'' # rest) ''[CDATA[''" if "c = CHR ''!''"
        using c(4) [OF that] by (cases w; auto)+
      ultimately show ?thesis using Cons c(2,3) by (auto simp: Identify_def ToLower_def)
    qed
  qed simp
  then show ?thesis by simp
qed

section \<open>Declarations\<close>

lemma field_ok_Cons: "field_ok (c # v) \<longleftrightarrow> ascii c \<and> c \<noteq> CHR ''&'' \<and> c \<noteq> CHR 0x22 \<and> c \<noteq> CHR 0x0D \<and> field_ok v"
  by (auto simp: field_ok_def)

lemma read_keep_field:
  "field_ok v \<Longrightarrow> read_keep enc False [CHR 0x22] (v @ CHR 0x22 # r) acc = Inr (acc @ v, Some (CHR 0x22 # r))"
proof (induction v arbitrary: acc)
  case Nil
  show ?case by (subst read_keep.simps) (simp add: StringEqual_def)
next
  case (Cons c v)
  then have c: "ascii c" "c \<noteq> CHR ''&''" "c \<noteq> CHR 0x22" "field_ok v" by (auto simp: field_ok_Cons)
  then have "GetChar enc (c # v @ CHR 0x22 # r) = Inr ([c], Some (v @ CHR 0x22 # r))"
    by (auto simp: GetChar_def ascii_def utf8ByteTable_def)
  then show ?case using c Cons.IH [OF c(4), of "acc @ [c]"] by (subst read_keep.simps) (simp add: StringEqual_def)
qed

definition decl_form :: "string \<Rightarrow> string \<Rightarrow> string" where
  "decl_form name v = (if v \<noteq> [] then name @ ''='' @ [CHR 0x22] @ v @ [CHR 0x22] @ '' '' else [])"

lemma decl_attr:
  assumes "good_name n" and "field_ok v" and "rest \<noteq> []"
  shows "Attribute_Parse False True enc (Some (n @ CHR ''='' # CHR 0x22 # v @ CHR 0x22 # rest)) err = Inr ((n, v), Some rest, err)"
proof -
  let ?r = "CHR 0x22 # v @ CHR 0x22 # rest"
  note nr = name_read [OF assms(1) markup_no_name(2)]
  have sk: "SkipWhiteSpace enc (Some (CHR ''='' # ?r)) = Some (CHR ''='' # ?r)" "SkipWhiteSpace enc (Some ?r) = Some ?r"
    by (auto intro!: skip_char)
  from read_keep_field [OF assms(2), of enc rest "[]"] have "attr_value False True enc ?r err = Inr (v, Some rest, err)"
    using assms(3) by (auto simp: attr_value_def ReadText_def after_tag_def)
  then show ?thesis using nr sk by (simp add: Attribute_Parse_def null_or_end_def)
qed

lemma field_cstr: "field_ok v \<Longrightarrow> cstr v = v"
proof (rule cstr_id_nul, rule notI)
  assume v: "field_ok v" "CHR 0x00 \<in> set v"
  then have "ascii CHR 0x00" unfolding field_ok_def list_all_iff by blast
  then show False by (simp add: ascii_def)
qed

lemma decl_step:
  assumes "n \<in> {''version'', ''encoding'', ''standalone''}" and "field_ok v"
  shows "decl_loop True enc ('' '' @ decl_form n v @ t) f err =
    decl_loop True enc ('' '' @ t) (if v = [] then f else decl_field n v f) err"
proof (cases "v = []")
  case False
  let ?s = "n @ CHR ''='' # CHR 0x22 # v @ CHR 0x22 # '' '' @ t"
  have g: "good_name n" using assms(1) by (auto simp: good_name_def isalpha_def name_char_def IsAlphaNum_def)
  have s: "skip_white enc ('' '' @ ?s) = ?s"
    using skip_blanks [of "'' ''" enc ?s] name_read(3) [OF g markup_no_name(2), of enc "CHR 0x22 # v @ CHR 0x22 # '' '' @ t"] by simp
  have m: "starts_with ToLower ?s ''version'' \<or> starts_with ToLower ?s ''encoding'' \<or> starts_with ToLower ?s ''standalone''"
    "decl_field ?s v f = decl_field n v f" "?s \<noteq> []"
    using assms(1) by (auto simp: decl_field_def ToLower_def)
  have "decl_loop True enc ('' '' @ ?s) f err = decl_loop True enc ('' '' @ t) (decl_field n v f) err"
    using decl_attr [OF g assms(2), of "'' '' @ t" enc err] m s
    by (subst decl_loop.simps) (simp add: Let_def del: skip_white.simps starts_with.simps)
  then show ?thesis using False by (simp add: decl_form_def)
qed (simp add: decl_form_def)

lemma decl_end: "decl_loop True enc ('' ?>'' @ rest) f err = Inr (f, Some rest, err)"
proof -
  have s: "skip_white enc ('' ?>'' @ rest) = ''?>'' @ rest"
    using skip_blanks [of "'' ''" enc "''?>'' @ rest"] skip_white_char [of "CHR ''?''" enc "CHR ''>'' # rest"] by simp
  have e: "decl_loop True enc (CHR ''>'' # rest) f err = Inr (f, Some rest, err)" by (subst decl_loop.simps) simp
  show ?thesis
    using s e by (subst decl_loop.simps) (simp add: Let_def ToLower_def IsWhiteSpace_def isspace_def del: skip_white.simps)
qed

lemma declaration_as:
  assumes "field_ok v" and "field_ok e" and "field_ok sa"
  shows "reads_as enc (''<?xml '' @ decl_form ''version'' v @ decl_form ''encoding'' e @ decl_form ''standalone'' sa @ ''?>'')
    (TiXmlDeclaration v e sa)"
proof -
  let ?b = "''?xml '' @ decl_form ''version'' v @ decl_form ''encoding'' e @ decl_form ''standalone'' sa @ ''?>''"
  have d: "decl_loop True enc ('' '' @ decl_form ''version'' v @ decl_form ''encoding'' e @ decl_form ''standalone'' sa @ ''?>'' @ rest)
      ([], [], []) err = Inr ((v, e, sa), Some rest, err)" for rest err
    using decl_step [OF _ assms(1), of "''version''"] decl_step [OF _ assms(2), of "''encoding''"]
      decl_step [OF _ assms(3), of "''standalone''" enc "''?>'' @ rest"] decl_end [of enc rest]
    by (simp add: decl_field_def ToLower_def)
  have "reads_as enc (CHR ''<'' # ?b) (TiXmlDeclaration v e sa)"
  proof (rule reads_asI [where k = KDeclaration and N = 0 and q = "Some []"])
    show "Node_Parse (\<lambda>t e. ReadValue m True enc (Some t) [] e) True enc KDeclaration (CHR ''<'' # ?b @ rest) err =
        Some (Inr (TiXmlDeclaration v e sa, if rest = [] then Some [] else Some rest, err))" for m rest err
      using d by (simp add: Node_Parse_def Declaration_Parse_def)
  qed (simp_all add: Identify_def)
  then show ?thesis by simp
qed

section \<open>Children\<close>

lemma node_step:
  assumes "reads_as enc s n"
  obtains N where "\<And>m rest ch err. N \<le> m \<Longrightarrow> rest \<noteq> [] \<Longrightarrow>
    ReadValue (Suc m) True enc (Some (s @ rest)) ch err = ReadValue m True enc (Some rest) (ch @ [n]) err"
proof -
  from assms obtain pre b post k N where p: "s = pre @ (CHR ''<'' # b) @ post" "blanks pre" "blanks post"
    and r: "\<And>rest. \<not> starts_with id (CHR ''<'' # b @ post @ rest) ''</'' \<and>
       Identify enc (Some (CHR ''<'' # b @ post @ rest)) = Some k \<and>
       (\<forall>m \<ge> N. \<forall>err. \<exists>q. behind q (post @ rest) \<and>
         Node_Parse (\<lambda>t e. ReadValue m True enc (Some t) [] e) True enc k (CHR ''<'' # b @ post @ rest) err = Some (Inr (n, q, err)))" unfolding reads_as_def by blast
  show thesis
  proof (rule that [of N])
    fix m and rest :: string and ch err assume m: "N \<le> m" "rest \<noteq> []"
    let ?s = "CHR ''<'' # b @ post @ rest"
    have "ReadValue (Suc m) True enc (Some (s @ rest)) ch err = ReadValue (Suc m) True enc (Some ?s) ch err"
      using ReadValue_blanks [of pre ?s "Suc m" enc ch err] p by (simp del: ReadValue.simps)
    also have "\<dots> = ReadValue m True enc (Some (post @ rest)) (ch @ [n]) err"
    proof -
      from r [of rest] m obtain q where "behind q (post @ rest)"
        "Node_Parse (\<lambda>t e. ReadValue m True enc (Some t) [] e) True enc k ?s err = Some (Inr (n, q, err))" by blast
      then show ?thesis using behind_ne [of q "post @ rest"] m(2) r [of rest] by (simp add: bindP_Some)
    qed
    also have "\<dots> = ReadValue m True enc (Some rest) (ch @ [n]) err" by (rule ReadValue_blanks [OF p(3) m(2)])
    finally show "ReadValue (Suc m) True enc (Some (s @ rest)) ch err = ReadValue m True enc (Some rest) (ch @ [n]) err" .
  qed
qed

text \<open>A piece of an element's content: encoded text between blanks, or markup.\<close>

definition piece :: "TiXmlEncoding \<Rightarrow> string \<times> TiXmlNode \<Rightarrow> bool" where
  "piece enc p \<longleftrightarrow> (if plain_text (snd p)
     then \<exists>w v w'. blanks w \<and> blanks w' \<and> text_ok v \<and> p = (w @ EncodeString v @ w', TiXmlText False v)
     else reads_as enc (fst p) (snd p))"

lemma piece_text: "blanks w \<Longrightarrow> text_ok v \<Longrightarrow> blanks w' \<Longrightarrow> piece enc (w @ EncodeString v @ w', TiXmlText False v)"
  unfolding piece_def by auto

text \<open>What stands behind a text starts with markup.\<close>

lemma markup_next:
  assumes "ps = [] \<or> reads_as enc (fst (hd ps)) n" and "blanks u"
  obtains w r' where "blanks w" "r' \<noteq> []" "concat (map fst ps) @ u @ ''</'' @ r = w @ CHR ''<'' # r'"
proof (cases ps)
  case Nil
  then show thesis using that [of u "CHR ''/'' # r"] assms(2) by simp
next
  case (Cons p qs)
  with assms(1) obtain pre b post where p: "fst p = pre @ (CHR ''<'' # b) @ post" "blanks pre" unfolding reads_as_def by auto
  show thesis
    by (rule that [of pre "b @ post @ concat (map fst qs) @ u @ ''</'' @ r"]) (use p Cons in simp_all)
qed

lemma children_read:
  assumes "\<And>p. p \<in> set ps \<Longrightarrow> piece enc p" and "separated (map snd ps)" and "blanks u"
  shows "\<exists>N. \<forall>m \<ge> N. \<forall>acc r err. ReadValue m True enc (Some (concat (map fst ps) @ u @ ''</'' @ r)) acc err =
    Some (Inr (acc @ map snd ps, Some (''</'' @ r), err))"
  using assms(1,2)
proof (induction ps)
  case Nil
  have "ReadValue (Suc m) True enc (Some (u @ ''</'' @ r)) acc err = Some (Inr (acc, Some (''</'' @ r), err))" for m acc r err
    using ReadValue_blanks [OF assms(3), of "''</'' @ r" "Suc m" enc acc err] by simp
  then have "ReadValue m True enc (Some (u @ ''</'' @ r)) acc err = Some (Inr (acc, Some (''</'' @ r), err))" if "1 \<le> m" for m acc r err
    using that by (cases m) (simp_all del: ReadValue.simps)
  then show ?case by (intro exI [of _ 1]) (simp del: ReadValue.simps)
next
  case (Cons p ps)
  have sep: "separated (map snd ps)" using Cons.prems(2) by (cases ps) auto
  let ?rest = "\<lambda>r. concat (map fst ps) @ u @ ''</'' @ r"
  have "\<exists>N. \<forall>m \<ge> N. \<forall>acc r err. ReadValue m True enc (Some (?rest r)) acc err = Some (Inr (acc @ map snd ps, Some (''</'' @ r), err))"
    using Cons.prems by (intro Cons.IH sep) auto
  then obtain N where
    N: "\<And>m acc r err. N \<le> m \<Longrightarrow> ReadValue m True enc (Some (?rest r)) acc err = Some (Inr (acc @ map snd ps, Some (''</'' @ r), err))" by blast
  have "\<exists>M. \<forall>m \<ge> M. \<forall>acc r err. ReadValue (Suc m) True enc (Some (fst p @ ?rest r)) acc err =
      ReadValue m True enc (Some (?rest r)) (acc @ [snd p]) err"
  proof (cases "plain_text (snd p)")
    case True
    then obtain w v w' where v: "blanks w" "blanks w'" "text_ok v" "p = (w @ EncodeString v @ w', TiXmlText False v)"
      using Cons.prems(1) [of p] by (auto simp: piece_def)
    have "ReadValue (Suc m) True enc (Some (fst p @ ?rest r)) acc err = ReadValue m True enc (Some (?rest r)) (acc @ [snd p]) err"
      for m acc r err
    proof -
      have "ps = [] \<or> reads_as enc (fst (hd ps)) (snd (hd ps))"
        using Cons.prems(2) Cons.prems(1) [of "hd ps"] True by (cases ps) (auto simp: piece_def)
      then obtain x r' where x: "blanks x" "r' \<noteq> []" "?rest r = x @ CHR ''<'' # r'" using markup_next [OF _ assms(3)] by metis
      have "ReadValue (Suc m) True enc (Some (w @ EncodeString v @ (w' @ x) @ CHR ''<'' # r')) acc err =
          ReadValue m True enc (Some (CHR ''<'' # r')) (acc @ [TiXmlText False v]) err"
        using ReadValue_blanks [OF v(1), of "EncodeString v @ (w' @ x) @ CHR ''<'' # r'" "Suc m" enc acc err]
          ReadValue_encoded [OF v(3), of "w' @ x" r' m enc acc err] v(2) x(1,2) by (simp del: ReadValue.simps)
      then show ?thesis
        using ReadValue_blanks [OF x(1), of "CHR ''<'' # r'" m enc "acc @ [snd p]" err] unfolding x(3) by (simp add: v(4) del: ReadValue.simps)
    qed
    then show ?thesis by blast
  next
    case False
    then have "reads_as enc (fst p) (snd p)" using Cons.prems(1) [of p] by (simp add: piece_def)
    from node_step [OF this] obtain M where "\<And>m rest acc err. M \<le> m \<Longrightarrow> rest \<noteq> [] \<Longrightarrow>
      ReadValue (Suc m) True enc (Some (fst p @ rest)) acc err = ReadValue m True enc (Some rest) (acc @ [snd p]) err" by blast
    then show ?thesis by (intro exI [of _ M]) simp
  qed
  then obtain M where M: "\<And>m acc r err. M \<le> m \<Longrightarrow> ReadValue (Suc m) True enc (Some (fst p @ ?rest r)) acc err =
      ReadValue m True enc (Some (?rest r)) (acc @ [snd p]) err" by blast
  have "ReadValue m True enc (Some (fst p @ ?rest r)) acc err = Some (Inr (acc @ snd p # map snd ps, Some (''</'' @ r), err))"
    if m: "Suc (max M N) \<le> m" for m acc r err
  proof -
    obtain k where "m = Suc k" "M \<le> k" "N \<le> k" using m by (metis Suc_le_D Suc_le_mono max.bounded_iff)
    then show ?thesis using M [of k r acc err] N [of k r "acc @ [snd p]" err] by simp
  qed
  then show ?case by (intro exI [of _ "Suc (max M N)"]) simp
qed

section \<open>Elements\<close>

lemma element_kind:
  assumes "good_name n"
  shows "Identify enc (Some (CHR ''<'' # n @ r)) = Some KElement" "\<not> starts_with id (CHR ''<'' # n @ r) ''</''"
proof -
  obtain c w where n: "n = c # w" using assms by (cases n) (auto simp: good_name_def)
  have c: "isalpha c" "ord_of c < 127" using assms n by (auto simp: good_name_def)
  have "65 \<le> ord_of (ToLower c)" using c by (auto simp: isalpha_def ToLower_def)
  then have "ToLower c \<noteq> CHR ''?''" by auto
  moreover have "c \<noteq> CHR ''!''" "c \<noteq> CHR ''/''" using c(1) by (auto simp: isalpha_def)
  moreover have "ToLower CHR ''?'' = CHR ''?''" by (simp add: ToLower_def)
  ultimately show "Identify enc (Some (CHR ''<'' # n @ r)) = Some KElement" "\<not> starts_with id (CHR ''<'' # n @ r) ''</''"
    using n c by (simp_all add: Identify_def IsAlpha_def)
qed

lemma element_read:
  assumes "good_name n" and "attrs_ok as" and "t \<in> {'' />'' @ rest, ''>'' @ content}"
    and "elem_attrs True enc t as err = Inr (as, e, err)"
    and "case e of Finished q \<Rightarrow> q = Some rest \<and> ch = [] | Content s \<Rightarrow> s = content \<and>
      rv content err = Some (Inr (ch, Some (''</'' @ n @ ''>'' @ rest), err))"
  shows "Element_Parse rv True enc (Some (CHR ''<'' # n @ attr_texts as @ t)) err = Some (Inr (TiXmlElement n as ch, Some rest, err))"
proof -
  obtain c s where c: "attr_texts as @ t = c # s" "\<not> name_char c"
  proof (cases as)
    case Nil
    then show thesis using that assms(3) markup_no_name by (auto simp: attr_texts_def)
  next
    case (Cons a r)
    then show thesis using that [of "CHR '' ''"] markup_no_name by (simp add: attr_texts_def)
  qed
  note nr = name_read [OF assms(1) c(2)]
  have "t \<noteq> []" using assms(3) by auto
  from attrs_read [of "[]" as, OF _ this, of enc err] assms(2,4) have ea: "elem_attrs True enc (c # s) [] err = Inr (as, e, err)"
    by (simp add: c(1))
  show ?thesis
    unfolding c(1) using nr(1,2) ea assms(5) end_tag_found [of enc n rest err]
    by (cases e) (simp_all add: Element_Parse_def null_or_end_def bindP_def)
qed

lemma empty_as:
  assumes "good_name v" and "attrs_ok as"
  shows "reads_as enc (''<'' @ v @ attr_texts as @ '' />'') (TiXmlElement v as [])"
proof -
  have "reads_as enc (CHR ''<'' # v @ attr_texts as @ '' />'') (TiXmlElement v as [])"
  proof (rule reads_asI [where k = KElement and N = 0 and q = "Some []"])
    show "Node_Parse (\<lambda>t e. ReadValue m True enc (Some t) [] e) True enc KElement (CHR ''<'' # (v @ attr_texts as @ '' />'') @ rest) err =
        Some (Inr (TiXmlElement v as [], if rest = [] then Some [] else Some rest, err))" for m rest err
      using element_read [OF assms, of "'' />'' @ rest" rest "[]" enc err "Finished (Some rest)" "[]"] empty_tag_end
      by (simp add: Node_Parse_def)
  qed (use element_kind [OF assms(1)] in \<open>simp_all del: starts_with.simps\<close>)
  then show ?thesis by simp
qed

lemma element_as:
  assumes "good_name v" and "attrs_ok as" and "\<And>p. p \<in> set ps \<Longrightarrow> piece enc p" and "separated (map snd ps)" and "blanks u"
  shows "reads_as enc (''<'' @ v @ attr_texts as @ ''>'' @ concat (map fst ps) @ u @ ''</'' @ v @ ''>'') (TiXmlElement v as (map snd ps))"
proof -
  from children_read [OF assms(3-5)] obtain N where
    N: "\<And>m acc r err. N \<le> m \<Longrightarrow> ReadValue m True enc (Some (concat (map fst ps) @ u @ ''</'' @ r)) acc err =
      Some (Inr (acc @ map snd ps, Some (''</'' @ r), err))" by blast
  let ?b = "v @ attr_texts as @ ''>'' @ concat (map fst ps) @ u @ ''</'' @ v @ ''>''"
  have "reads_as enc (CHR ''<'' # ?b) (TiXmlElement v as (map snd ps))"
  proof (rule reads_asI [where k = KElement and N = N and q = "Some []"])
    show "Node_Parse (\<lambda>t e. ReadValue m True enc (Some t) [] e) True enc KElement (CHR ''<'' # ?b @ rest) err =
        Some (Inr (TiXmlElement v as (map snd ps), if rest = [] then Some [] else Some rest, err))" if m: "N \<le> m" for m rest err
    proof -
      let ?c = "concat (map fst ps) @ u @ ''</'' @ v @ ''>'' @ rest" and ?rv = "\<lambda>t e. ReadValue m True enc (Some t) [] e"
      have "?rv ?c err = Some (Inr (map snd ps, Some (''</'' @ v @ ''>'' @ rest), err))" using N [OF m, of "v @ ''>'' @ rest" "[]" err] by simp
      then show ?thesis
        using element_read [OF assms(1,2), of "''>'' @ ?c" rest ?c enc err "Content ?c" "map snd ps" ?rv] start_tag_end [of True enc ?c as err]
        by (simp add: Node_Parse_def)
    qed
  qed (use element_kind [OF assms(1)] in \<open>simp_all del: starts_with.simps\<close>)
  then show ?thesis by simp
qed

section \<open>More recursion changes no result\<close>

lemma bindP_eq_Some: "bindP m f = Some y \<longleftrightarrow> (\<exists>e. m = Some (Inl e) \<and> y = Inl e) \<or> (\<exists>x. m = Some (Inr x) \<and> f x = Some y)"
  by (auto simp: bindP_def split: option.splits sum.splits)

lemma Node_Parse_mono:
  assumes "\<And>t e x. f t e = Some x \<Longrightarrow> g t e = Some x" and "Node_Parse f cw enc k s err = Some y"
  shows "Node_Parse g cw enc k s err = Some y"
proof (cases k)
  case KElement
  have "bindP (f t e) h = Some y \<Longrightarrow> bindP (g t e) h = Some y" for t e h using assms(1) by (auto simp: bindP_eq_Some)
  then show ?thesis
    using assms(2) KElement
    by (auto simp: Node_Parse_def Element_Parse_def Let_def bindP_Some split: if_splits sum.splits prod.splits tag_end.splits)
qed (use assms(2) in \<open>simp_all add: Node_Parse_def\<close>)

lemma ReadValue_mono: "ReadValue n cw enc p ch err = Some y \<Longrightarrow> n \<le> m \<Longrightarrow> ReadValue m cw enc p ch err = Some y"
proof (induction n arbitrary: m p ch err y)
  case (Suc n)
  then obtain k where k: "m = Suc k" "n \<le> k" by (cases m) auto
  have IH: "ReadValue n cw enc p ch err = Some y \<Longrightarrow> ReadValue k cw enc p ch err = Some y" for p ch err y using Suc.IH k(2) by blast
  have np: "Node_Parse (\<lambda>t e. ReadValue n cw enc (Some t) [] e) cw enc j s err = Some x \<Longrightarrow>
      Node_Parse (\<lambda>t e. ReadValue k cw enc (Some t) [] e) cw enc j s err = Some x" for j s x
    by (rule Node_Parse_mono [of "\<lambda>t e. ReadValue n cw enc (Some t) [] e"]) (use IH in blast)+
  have b: "bindP m (\<lambda>(node, q, e). ReadValue k cw enc q (h node) e) = Some y"
    if "bindP m' (\<lambda>(node, q, e). ReadValue n cw enc q (h node) e) = Some y" "\<And>x. m' = Some x \<Longrightarrow> m = Some x" for m m' h
    using that IH by (auto simp: bindP_eq_Some)
  show ?case
  proof (cases "SkipWhiteSpace enc p")
    case None
    then show ?thesis using Suc.prems(1) k(1) by simp
  next
    case (Some s)
    consider "s = []" | "s \<noteq> []" "hd s \<noteq> CHR ''<''" | "s \<noteq> []" "hd s = CHR ''<''" "starts_with id s ''</''"
      | "s \<noteq> []" "hd s = CHR ''<''" "\<not> starts_with id s ''</''" by blast
    then show ?thesis
    proof cases
      case 2
      let ?t = "Some (Text_Parse cw enc False (if cw then s else the p) err)"
      have "bindP ?t (\<lambda>(node, q, e). ReadValue n cw enc q (if Blank node then ch else ch @ [node]) e) = Some y"
        using Suc.prems(1) Some 2 by simp
      from b [OF this, of ?t] show ?thesis using Some 2 k(1) by simp
    next
      case 4
      show ?thesis
      proof (cases "Identify enc (Some s)")
        case (Some j)
        let ?f = "\<lambda>n. Node_Parse (\<lambda>t e. ReadValue n cw enc (Some t) [] e) cw enc j s err"
        have "bindP (?f n) (\<lambda>(node, q, e). ReadValue n cw enc q (ch @ [node]) e) = Some y"
          using Suc.prems(1) \<open>SkipWhiteSpace enc p = Some s\<close> 4 Some by simp
        from b [OF this, of "?f k"] np show ?thesis using \<open>SkipWhiteSpace enc p = Some s\<close> 4 Some k(1) by simp
      qed (use Suc.prems(1) Some 4 k(1) in simp)
    qed (use Suc.prems(1) Some k(1) in simp_all)
  qed
qed simp

lemma doc_loop_mono: "doc_loop n cw enc p nodes err = Some y \<Longrightarrow> n \<le> m \<Longrightarrow> doc_loop m cw enc p nodes err = Some y"
proof (induction n arbitrary: m enc p nodes err y)
  case (Suc n)
  then obtain k where k: "m = Suc k" "n \<le> k" by (cases m) auto
  have np: "Node_Parse (\<lambda>t e. ReadValue n cw enc (Some t) [] e) cw enc j s err = Some x \<Longrightarrow>
      Node_Parse (\<lambda>t e. ReadValue k cw enc (Some t) [] e) cw enc j s err = Some x" for j s x
    by (rule Node_Parse_mono [of "\<lambda>t e. ReadValue n cw enc (Some t) [] e"]) (use ReadValue_mono k(2) in blast)+
  show ?case
    using Suc.prems(1) Suc.IH [OF _ k(2)] np unfolding k(1) by (auto simp: bindP_eq_Some Let_def split: option.splits if_splits)
qed simp

section \<open>Documents\<close>

text \<open>The nodes of a document, each followed by \<open>sep\<close>.\<close>

definition doc_form :: "string \<Rightarrow> (string \<times> TiXmlNode) list \<Rightarrow> string" where
  "doc_form sep ps = concat (map (\<lambda>p. fst p @ sep) ps)"

lemma doc_form_simps [simp]: "doc_form sep [] = []" "doc_form sep (p # ps) = fst p @ sep @ doc_form sep ps"
  by (simp_all add: doc_form_def)

lemma doc_read:
  assumes "\<And>p enc. p \<in> set ps \<Longrightarrow> reads_as enc (fst p) (snd p)" and "blanks sep" and "blanks w"
  shows "\<exists>N. \<forall>m \<ge> N. \<forall>acc. doc_loop m True enc (SkipWhiteSpace enc (Some (w @ doc_form sep ps))) acc err = Some (Inr (acc @ map snd ps, err))"
  using assms(1,3)
proof (induction ps arbitrary: enc w)
  case Nil
  have "null_or_end (SkipWhiteSpace enc (Some w))"
    using skip_blanks [OF Nil.prems(2), of enc "[]"] by (simp add: SkipWhiteSpace_def null_or_end_def)
  then have "doc_loop m True enc (SkipWhiteSpace enc (Some w)) acc err = Some (Inr (acc, err))" if "1 \<le> m" for m acc
    using that by (cases m) simp_all
  then show ?case by (intro exI [of _ 1]) simp
next
  case (Cons x ps)
  then have "reads_as enc (fst x) (snd x)" by simp
  then obtain pre b post k N where p: "fst x = pre @ (CHR ''<'' # b) @ post" "blanks pre" "blanks post"
    and r: "\<And>rest. Identify enc (Some (CHR ''<'' # b @ post @ rest)) = Some k \<and>
       (\<forall>m \<ge> N. \<forall>err. \<exists>q. behind q (post @ rest) \<and>
         Node_Parse (\<lambda>t e. ReadValue m True enc (Some t) [] e) True enc k (CHR ''<'' # b @ post @ rest) err = Some (Inr (snd x, q, err)))"
    unfolding reads_as_def by blast
  define enc' where "enc' = doc_encoding enc (snd x)"
  let ?rest = "sep @ doc_form sep ps"
  have "\<And>p enc. p \<in> set ps \<Longrightarrow> reads_as enc (fst p) (snd p)" "blanks (post @ sep)" using Cons.prems p(3) assms(2) by simp_all
  from Cons.IH [OF this, of enc'] obtain M where
    M: "\<And>m acc. M \<le> m \<Longrightarrow> doc_loop m True enc' (SkipWhiteSpace enc' (Some (post @ ?rest))) acc err = Some (Inr (acc @ map snd ps, err))"
    by force
  have sk: "SkipWhiteSpace enc (Some (w @ doc_form sep (x # ps))) = Some (CHR ''<'' # b @ post @ ?rest)"
    using Skip_blanks [of "w @ pre" "CHR ''<'' # b @ post @ ?rest" enc] p(2) Cons.prems(2) by (simp add: p(1))
  have "doc_loop m True enc (SkipWhiteSpace enc (Some (w @ doc_form sep (x # ps)))) acc err = Some (Inr (acc @ snd x # map snd ps, err))"
    if m: "Suc (max N M) \<le> m" for m acc
  proof -
    obtain j where j: "m = Suc j" "N \<le> j" "M \<le> j" using m by (metis Suc_le_D Suc_le_mono max.bounded_iff)
    from r [of ?rest] j(2) obtain q where q: "behind q (post @ ?rest)"
      "Node_Parse (\<lambda>t e. ReadValue j True enc (Some t) [] e) True enc k (CHR ''<'' # b @ post @ ?rest) err = Some (Inr (snd x, q, err))" by blast
    show ?thesis
      using r [of ?rest] q(2) M [OF j(3), of "acc @ [snd x]"] behind_skip [OF q(1), of enc']
      unfolding sk j(1) by (simp add: null_or_end_def bindP_Some enc'_def [symmetric])
  qed
  then show ?case by (intro exI [of _ "Suc (max N M)"]) simp
qed

text \<open>Nothing that is printed is changed when line ends are normalized.\<close>

definition clean :: "string \<Rightarrow> bool" where
  "clean s \<longleftrightarrow> CHR 0x00 \<notin> set s \<and> CHR 0x0D \<notin> set s"

lemma clean_simps [simp]: "clean []" "clean (c # s) \<longleftrightarrow> c \<noteq> CHR 0x00 \<and> c \<noteq> CHR 0x0D \<and> clean s" "clean (s @ t) \<longleftrightarrow> clean s \<and> clean t"
  by (auto simp: clean_def)

lemma clean_concat: "(\<And>x. x \<in> set xs \<Longrightarrow> clean (f x)) \<Longrightarrow> clean (concat (map f xs))"
  by (induction xs) auto

lemma normalize_clean: "clean s \<Longrightarrow> normalize_newlines s = s"
  by (induction s) auto

lemma clean_32: "(\<And>c. c \<in> set s \<Longrightarrow> 32 \<le> ord_of c) \<Longrightarrow> clean s"
proof -
  assume c: "\<And>c. c \<in> set s \<Longrightarrow> 32 \<le> ord_of c"
  have "\<not> 32 \<le> ord_of CHR 0x00" "\<not> 32 \<le> ord_of CHR 0x0D" by simp_all
  then show ?thesis unfolding clean_def using c by blast
qed

lemma clean_name: "good_name n \<Longrightarrow> clean n"
  using good_name_chars_ok [of n] by (intro clean_32) force

lemma clean_value: "value_ok v \<Longrightarrow> clean (EncodeString v)"
  using encoded_no_nul by (intro clean_32) blast

lemma clean_field: "field_ok v \<Longrightarrow> clean v"
proof -
  assume f: "field_ok v"
  have "\<not> ascii CHR 0x00" by (simp add: ascii_def)
  then show ?thesis using f unfolding field_ok_def clean_def list_all_iff by blast
qed

lemma raw_clean: "raw_ok v \<Longrightarrow> clean v" "raw_ok v \<Longrightarrow> cstr v = v"
  by (simp_all add: raw_ok_def clean_def cstr_id_nul)

lemma Document_Parse_nodes:
  assumes "s \<noteq> []" and "(map ord_of (take 3 s) = [0xef, 0xbb, 0xbf :: nat]) = b" and "nodes \<noteq> []"
    and "enc = (if b then TIXML_ENCODING_UTF8 else TIXML_ENCODING_UNKNOWN)"
    and "doc_loop n True enc (SkipWhiteSpace enc (Some s)) [] None = Some (Inr (nodes, err))"
  shows "Document_Parse n True TIXML_ENCODING_UNKNOWN s = Some (Inr \<lparr>doc_nodes = nodes, doc_error = err, useMicrosoftBOM = b\<rparr>)"
  using assms by (simp add: Document_Parse_def bindP_Some Let_def del: doc_loop.simps)

text \<open>The byte order mark.\<close>

definition bom :: string where
  "bom = [CHR 0xEF, CHR 0xBB, CHR 0xBF]"

lemma parse_form:
  assumes "ps \<noteq> []" and "\<And>p enc. p \<in> set ps \<Longrightarrow> reads_as enc (fst p) (snd p)" and "blanks sep"
    and "s = (if b then bom else []) @ doc_form sep ps"
  shows "Document_Parse (length s + 2) True TIXML_ENCODING_UNKNOWN s =
    Some (Inr \<lparr>doc_nodes = map snd ps, doc_error = None, useMicrosoftBOM = b\<rparr>)"
proof -
  define D where "D = doc_form sep ps"
  define enc where "enc = (if b then TIXML_ENCODING_UTF8 else TIXML_ENCODING_UNKNOWN)"
  have s: "s = (if b then bom else []) @ D" unfolding D_def by (rule assms(4))
  have "reads_as enc (fst (hd ps)) (snd (hd ps))" using assms(1,2) by simp
  then obtain pre c where "fst (hd ps) = pre @ CHR ''<'' # c" "blanks pre" unfolding reads_as_def by auto
  then obtain c' where D: "D = pre @ CHR ''<'' # c'" "blanks pre" using assms(1) by (cases ps) (simp_all add: D_def)
  have ne: "D \<noteq> []" using D by simp
  have first: "map ord_of (take 3 D) \<noteq> [0xef, 0xbb, 0xbf :: nat]"
    using D by (cases pre) (auto simp: take_Cons')
  have mark: "(map ord_of (take 3 s) = [0xef, 0xbb, 0xbf :: nat]) = b" using first by (simp add: s bom_def)
  have skip: "SkipWhiteSpace enc (Some s) = SkipWhiteSpace enc (Some D)"
    using ne by (simp add: s enc_def bom_def SkipWhiteSpace_def utf_lead_def)
  let ?p = "SkipWhiteSpace enc (Some D)" and ?n = "length s + 2"
  have "plen ?p < ?n" using skip_plen [of enc "Some D"] by (simp add: s)
  from doc_loop_returns [OF this, of True enc "[]" None] obtain r where r: "doc_loop ?n True enc ?p [] None = Some r" by auto
  from doc_read [OF assms(2,3) blanks_simps(1), of ps enc None] obtain N where
    "\<And>m. N \<le> m \<Longrightarrow> doc_loop m True enc ?p [] None = Some (Inr (map snd ps, None))" unfolding D_def by force
  from this [of "max N ?n"] doc_loop_mono [OF r, of "max N ?n"] have "r = Inr (map snd ps, None)" by simp
  with r have d: "doc_loop ?n True enc (SkipWhiteSpace enc (Some s)) [] None = Some (Inr (map snd ps, None))" unfolding skip by simp
  have "s \<noteq> []" "map snd ps \<noteq> []" using ne assms(1) by (simp_all add: s)
  from Document_Parse_nodes [OF this(1) mark this(2) enc_def d] show ?thesis .
qed

lemma load_form:
  assumes "ps \<noteq> []" and "\<And>p enc. p \<in> set ps \<Longrightarrow> reads_as enc (fst p) (snd p)" and "blanks sep" and "clean (doc_form sep ps)"
  shows "LoadFile (Some ((if b then bom else []) @ doc_form sep ps)) =
    Some (Inr \<lparr>doc_nodes = map snd ps, doc_error = None, useMicrosoftBOM = b\<rparr>)"
proof -
  define s where "s = (if b then bom else []) @ doc_form sep ps"
  note p = parse_form [OF assms(1,2,3) s_def, simplified]
  have norm: "normalize_newlines s = s" using assms(4) by (intro normalize_clean) (simp add: s_def bom_def)
  have "reads_as TIXML_ENCODING_UNKNOWN (fst (hd ps)) (snd (hd ps))" using assms(1,2) by simp
  then have "s \<noteq> []" using assms(1) unfolding reads_as_def by (cases ps) (auto simp: s_def)
  then show ?thesis using p unfolding s_def [symmetric] by (simp add: LoadFile_def norm)
qed

end
