(* ===== verification/XmlPrint.thy ===== *)
theory XmlPrint
  imports XmlReads
begin

text \<open>
  \<open>submodules/tinyxml/tinyxml.cpp\<close>, writing: the \<open>Print\<close> methods of the nodes and \<open>SaveFile\<close>. What is
  written to a file is the list of its characters. A document that can be printed is read back by
  \<open>LoadFile\<close> as it was.
\<close>

section \<open>Printing\<close>

definition indent :: "nat \<Rightarrow> string" where
  "indent depth = concat (replicate depth ''    '')"

text \<open>\<open>First\<close> and \<open>Next\<close>: an attribute with empty name and value behind the first is taken for the sentinel.\<close>

definition attr_seq :: "(string \<times> string) list \<Rightarrow> (string \<times> string) list" where
  "attr_seq attrs = (case attrs of [] \<Rightarrow> [] | a # r \<Rightarrow> a # takeWhile (\<lambda>(n, v). \<not> (v = [] \<and> n = [])) r)"

definition Attribute_Print :: "string \<times> string \<Rightarrow> string" where
  "Attribute_Print a =
     (let n = cstr (EncodeString (fst a)); v = cstr (EncodeString (snd a)); q = (if CHR 0x22 \<in> set (cstr (snd a)) then CHR 0x27 else CHR 0x22) in
      n @ ''='' @ [q] @ v @ [q])"

definition attrs_text :: "(string \<times> string) list \<Rightarrow> string" where
  "attrs_text attrs = concat (map (\<lambda>a. '' '' @ Attribute_Print a) (attr_seq attrs))"

definition decl_part :: "string \<Rightarrow> string \<Rightarrow> string" where
  "decl_part name v = (if v \<noteq> [] then name @ ''='' @ [CHR 0x22] @ cstr v @ [CHR 0x22] @ '' '' else [])"

definition Declaration_Print :: "string \<Rightarrow> string \<Rightarrow> string \<Rightarrow> string" where
  "Declaration_Print v e sa =
     ''<?xml '' @ decl_part ''version'' v @ decl_part ''encoding'' e @ decl_part ''standalone'' sa @ ''?>''"

fun isText :: "TiXmlNode \<Rightarrow> bool" where
  "isText (TiXmlText cd v) = True"
| "isText n = False"

fun Print :: "nat \<Rightarrow> TiXmlNode \<Rightarrow> string" where
  "Print depth (TiXmlElement v attrs ch) =
     indent depth @ ''<'' @ cstr v @ attrs_text attrs @
     (case ch of
        [] \<Rightarrow> '' />''
      | [TiXmlText cd t] \<Rightarrow> ''>'' @ Print (depth + 1) (TiXmlText cd t) @ ''</'' @ cstr v @ ''>''
      | _ \<Rightarrow> ''>'' @ concat (map (\<lambda>n. (if isText n then [] else [nl]) @ Print (depth + 1) n) ch) @
             [nl] @ indent depth @ ''</'' @ cstr v @ ''>'')"
| "Print depth (TiXmlText cdata v) =
     (if cdata then [nl] @ indent depth @ ''<![CDATA['' @ cstr v @ '']]>'' @ [nl] else cstr (EncodeString v))"
| "Print depth (TiXmlComment v) = indent depth @ ''<!--'' @ cstr v @ ''-->''"
| "Print depth (TiXmlUnknown v) = indent depth @ ''<'' @ cstr v @ ''>''"
| "Print depth (TiXmlDeclaration v e sa) = Declaration_Print v e sa"

definition Document_Print :: "TiXmlNode list \<Rightarrow> string" where
  "Document_Print nodes = concat (map (\<lambda>n. Print 0 n @ [nl]) nodes)"

text \<open>\<open>SaveFile\<close> to an open file: what is written; whether that succeeded is what \<open>ferror\<close> tells.\<close>

definition SaveFile_text :: "TiXmlDocument \<Rightarrow> string" where
  "SaveFile_text d = (if useMicrosoftBOM d then bom else []) @ Document_Print (doc_nodes d)"

text \<open>\<open>SaveFile\<close> by name: \<open>opens\<close> tells whether the file can be opened, \<open>ferror\<close> whether a write failed.\<close>

definition SaveFile :: "bool \<Rightarrow> bool \<Rightarrow> TiXmlDocument \<Rightarrow> bool \<times> string option" where
  "SaveFile opens ferror d = (if opens then (\<not> ferror, Some (SaveFile_text d)) else (False, None))"

section \<open>Printed nodes are read back\<close>

lemma blanks_indent [simp]: "blanks (indent d)"
  by (induction d) (simp_all add: indent_def)

lemma value_cstr: "value_ok v \<Longrightarrow> cstr v = v"
proof (rule cstr_id_nul, rule notI)
  assume v: "value_ok v" "CHR 0x00 \<in> set v"
  then have "ascii CHR 0x00" unfolding value_ok_def list_all_iff by blast
  then show False by (simp add: ascii_def)
qed

lemma attr_seq_ok: "attrs_ok as \<Longrightarrow> attr_seq as = as"
proof (cases as)
  case (Cons x r)
  assume "attrs_ok as"
  then have "\<forall>y \<in> set r. \<not> (snd y = [] \<and> fst y = [])" using Cons by (auto simp: attrs_ok_def list_all_iff good_name_def)
  then have "takeWhile (\<lambda>(n, v). \<not> (v = [] \<and> n = [])) r = r" by (auto simp: takeWhile_eq_all_conv)
  then show ?thesis using Cons by (simp add: attr_seq_def)
qed (simp add: attr_seq_def)

lemma attr_forms:
  assumes "attrs_ok as" and "\<And>a. good_name (fst a) \<Longrightarrow> value_ok (snd a) \<Longrightarrow> f a = attr_form a"
  shows "concat (map (\<lambda>a. '' '' @ f a) (attr_seq as)) = attr_texts as"
proof -
  have "map (\<lambda>a. '' '' @ f a) as = map (\<lambda>a. '' '' @ attr_form a) as"
    using assms by (auto simp: attrs_ok_def list_all_iff)
  then show ?thesis unfolding attr_texts_def attr_seq_ok [OF assms(1)] by (simp only:)
qed

lemma attrs_text_ok: "attrs_ok as \<Longrightarrow> attrs_text as = attr_texts as"
  unfolding attrs_text_def by (rule attr_forms) (simp_all add: Attribute_Print_def attr_form_def Let_def name_encoded value_cstr)

lemma decl_parts: "field_ok v \<Longrightarrow> decl_part n v = decl_form n v"
  by (simp add: decl_part_def decl_form_def field_cstr)

definition child_text :: "nat \<Rightarrow> TiXmlNode \<Rightarrow> string" where
  "child_text d n = (if isText n then [] else [nl]) @ Print d n"

definition print_pieces :: "nat \<Rightarrow> TiXmlNode list \<Rightarrow> (string \<times> TiXmlNode) list" where
  "print_pieces d ch = map (\<lambda>n. (child_text d n, n)) ch"

lemma print_element:
  assumes "good_name v" and "attrs_ok as" and "ch \<noteq> []"
  obtains u where "blanks u" "Print d (TiXmlElement v as ch) = indent d @
    (''<'' @ v @ attr_texts as @ ''>'' @ concat (map fst (print_pieces (d + 1) ch)) @ u @ ''</'' @ v @ ''>'') @ []"
proof (cases "length ch = 1 \<and> isText (hd ch)")
  case True
  then obtain cd t where "ch = [TiXmlText cd t]" by (cases ch) (auto elim: isText.elims)
  then show thesis
    using that [of "[]"] by (simp add: name_encoded [OF assms(1)] attrs_text_ok [OF assms(2)] child_text_def print_pieces_def)
next
  case False
  obtain n ns where ch: "ch = n # ns" using assms(3) by (cases ch) auto
  have c: "concat (map (\<lambda>n. (if isText n then [] else [nl]) @ Print (d + 1) n) ch) = concat (map fst (print_pieces (d + 1) ch))"
    by (simp add: child_text_def print_pieces_def comp_def)
  have "Print d (TiXmlElement v as ch) = indent d @ ''<'' @ cstr v @ attrs_text as @ ''>'' @ concat (map fst (print_pieces (d + 1) ch)) @
      [nl] @ indent d @ ''</'' @ cstr v @ ''>''"
    using False c unfolding ch by (subst Print.simps(1)) (cases n; cases ns; simp del: Print.simps)
  then show thesis using that [of "nl # indent d"] by (simp add: name_encoded [OF assms(1)] attrs_text_ok [OF assms(2)] del: Print.simps)
qed

lemma print_reads: "printable n \<Longrightarrow> \<not> plain_text n \<Longrightarrow> reads_as enc (Print d n) n"
proof (induction n arbitrary: d)
  case (TiXmlElement v as ch)
  have ok: "good_name v" "attrs_ok as" "separated ch" "\<And>n. n \<in> set ch \<Longrightarrow> printable n"
    using TiXmlElement.prems by (auto simp: list_all_iff)
  show ?case
  proof (cases "ch = []")
    case True
    then show ?thesis
      using reads_as_blanks [OF empty_as [OF ok(1,2), of enc] blanks_indent blanks_simps(1), of d]
      by (simp add: name_encoded [OF ok(1)] attrs_text_ok [OF ok(2)])
  next
    case False
    from print_element [OF ok(1,2) this, of d] obtain u where u: "blanks u" "Print d (TiXmlElement v as ch) = indent d @
      (''<'' @ v @ attr_texts as @ ''>'' @ concat (map fst (print_pieces (d + 1) ch)) @ u @ ''</'' @ v @ ''>'') @ []" .
    have "piece enc (child_text (d + 1) n, n)" if n: "n \<in> set ch" for n
    proof (cases "plain_text n")
      case True
      then obtain t where t: "n = TiXmlText False t" by (cases n) auto
      then have "text_ok t" using ok(4) [OF n] by simp
      then show ?thesis using t piece_text [of "[]" t "[]" enc] by (simp add: child_text_def text_ok_def)
    next
      case False
      have "reads_as enc (Print (d + 1) n) n" by (rule TiXmlElement.IH [OF n ok(4) [OF n] False])
      from reads_as_blanks [OF this, of "if isText n then [] else [nl]" "[]"] False show ?thesis
        by (simp add: piece_def child_text_def)
    qed
    then have "piece enc p" if "p \<in> set (print_pieces (d + 1) ch)" for p using that by (auto simp: print_pieces_def)
    moreover have ch: "map snd (print_pieces (d + 1) ch) = ch" by (simp add: print_pieces_def comp_def)
    ultimately have "reads_as enc (''<'' @ v @ attr_texts as @ ''>'' @ concat (map fst (print_pieces (d + 1) ch)) @ u @ ''</'' @ v @ ''>'')
        (TiXmlElement v as ch)" using element_as [OF ok(1,2), of "print_pieces (d + 1) ch" enc u] ok(3) u(1) by (simp only:)
    from reads_as_blanks [OF this blanks_indent blanks_simps(1)] show ?thesis unfolding u(2) .
  qed
next
  case (TiXmlText cd v)
  then show ?case using reads_as_blanks [OF cdata_as [of v enc], of "nl # indent d" "[nl]"] by (simp add: raw_clean)
next
  case (TiXmlComment v)
  then show ?case using reads_as_blanks [OF comment_as [of v enc], of "indent d" "[]"] by (simp add: raw_clean)
next
  case (TiXmlUnknown v)
  then show ?case using reads_as_blanks [OF unknown_as [of v enc], of "indent d" "[]"] by (simp add: raw_clean unknown_ok_def)
next
  case (TiXmlDeclaration v e sa)
  then show ?case
    using declaration_as [of v e sa enc] by (simp add: Declaration_Print_def decl_parts)
qed

section \<open>Printed text is clean\<close>

lemma clean_indent [simp]: "clean (indent d)"
  by (induction d) (simp_all add: indent_def)

lemma clean_attrs:
  assumes "attrs_ok as"
  shows "clean (attr_texts as)"
proof -
  have "clean ('' '' @ attr_form a)" if "a \<in> set as" for a
  proof -
    have ok: "good_name (fst a)" "value_ok (snd a)" using assms that by (auto simp: attrs_ok_def list_all_iff)
    then show ?thesis using clean_name [OF ok(1)] clean_value [OF ok(2)] by (simp add: attr_form_def Let_def)
  qed
  then show ?thesis unfolding attr_texts_def by (rule clean_concat)
qed

lemma clean_decl_form: "field_ok v \<Longrightarrow> clean n \<Longrightarrow> clean (decl_form n v)"
  using clean_field [of v] by (simp add: decl_form_def)

lemma blanks_clean: "blanks w \<Longrightarrow> clean w"
  by (induction w) auto

lemma print_clean: "printable n \<Longrightarrow> clean (Print d n)"
proof (induction n arbitrary: d)
  case (TiXmlElement v as ch)
  have ok: "good_name v" "attrs_ok as" "\<And>n. n \<in> set ch \<Longrightarrow> printable n" using TiXmlElement.prems by (auto simp: list_all_iff)
  note c = clean_name [OF ok(1)] clean_attrs [OF ok(2)]
  show ?case
  proof (cases "ch = []")
    case True
    then show ?thesis using c by (simp add: name_encoded [OF ok(1)] attrs_text_ok [OF ok(2)])
  next
    case False
    from print_element [OF ok(1,2) this, of d] obtain u where u: "blanks u" "Print d (TiXmlElement v as ch) = indent d @
      (''<'' @ v @ attr_texts as @ ''>'' @ concat (map fst (print_pieces (d + 1) ch)) @ u @ ''</'' @ v @ ''>'') @ []" .
    have "clean (child_text (d + 1) n)" if "n \<in> set ch" for n using TiXmlElement.IH [OF that ok(3) [OF that]] by (simp add: child_text_def)
    then have "clean (concat (map fst (print_pieces (d + 1) ch)))" by (simp add: print_pieces_def comp_def clean_concat)
    then show ?thesis using c u by (simp add: blanks_clean del: Print.simps)
  qed
qed (auto simp: raw_clean unknown_ok_def text_ok_def Declaration_Print_def clean_value decl_parts clean_decl_form)

section \<open>Properties\<close>

text \<open>
  C35: saving and loading. A document whose nodes are printable is read back from the file it was saved to
  as it was, without an error, with or without the byte order mark: elements with attributes of any
  ASCII value and text with markup, quotes and control characters in it, comments, CDATA sections,
  declarations and unknown tags, nested to any depth, whatever indentation and line breaks the printer
  puts between them. Printable asks for names of ASCII letters and digits, for text in which blanks
  stand alone between other characters and which is not all white space, for no two texts side by
  side, for no hexadecimal reference in values, and that comments, sections and tags do not contain their
  own end.
\<close>

theorem save_load_roundtrip:
  assumes "doc_nodes d \<noteq> []" and "list_all (\<lambda>n. printable n \<and> \<not> plain_text n) (doc_nodes d)" and "doc_error d = None"
  shows "LoadFile (snd (SaveFile True ferror d)) = Some (Inr d)"
proof -
  let ?ps = "map (\<lambda>n. (Print 0 n, n)) (doc_nodes d)"
  have D: "Document_Print (doc_nodes d) = doc_form [nl] ?ps" by (simp add: Document_Print_def doc_form_def comp_def)
  have "reads_as enc (fst p) (snd p)" if "p \<in> set ?ps" for p enc
    using that assms(2) print_reads [of _ enc 0] by (auto simp: list_all_iff)
  moreover have "clean (doc_form [nl] ?ps)"
    using assms(2) print_clean [of _ 0] unfolding doc_form_def by (intro clean_concat) (auto simp: list_all_iff)
  ultimately have "LoadFile (Some ((if useMicrosoftBOM d then bom else []) @ doc_form [nl] ?ps)) =
      Some (Inr \<lparr>doc_nodes = map snd ?ps, doc_error = None, useMicrosoftBOM = useMicrosoftBOM d\<rparr>)"
    using assms(1) by (intro load_form) auto
  then show ?thesis using assms(3) by (simp add: SaveFile_def SaveFile_text_def D comp_def)
qed

theorem save_load_roundtrip_witness:
  "LoadFile (snd (SaveFile True False
     \<lparr>doc_nodes = [TiXmlDeclaration ''1.0'' [] [], TiXmlComment '' a -- b '',
       TiXmlElement ''config'' [(''ip'', ''<1 & 2>'')] [TiXmlText False ''x < y'', TiXmlElement ''port'' [] [TiXmlText False ''80''],
         TiXmlText True ''<raw>'', TiXmlElement ''none'' [] []]], doc_error = None, useMicrosoftBOM = True\<rparr>)) =
   Some (Inr \<lparr>doc_nodes = [TiXmlDeclaration ''1.0'' [] [], TiXmlComment '' a -- b '',
       TiXmlElement ''config'' [(''ip'', ''<1 & 2>'')] [TiXmlText False ''x < y'', TiXmlElement ''port'' [] [TiXmlText False ''80''],
         TiXmlText True ''<raw>'', TiXmlElement ''none'' [] []]], doc_error = None, useMicrosoftBOM = True\<rparr>)"
proof -
  have v: "value_ok ''<1 & 2>''" "value_ok ''x < y''" "value_ok ''80''" by (rule value_okI; code_simp)+
  have t: "text_ok ''x < y''" "text_ok ''80''" unfolding text_ok_def by (intro conjI v; code_simp)+
  have n: "good_name ''config''" "good_name ''ip''" "good_name ''port''" "good_name ''none''" by code_simp+
  have r: "raw_ok '' a -- b ''" "raw_ok ''<raw>''" "field_ok ''1.0''" "field_ok []" by code_simp+
  have e: "ends_at ''-->'' '' a -- b ''" "ends_at '']]>'' ''<raw>''"
    by (simp_all add: ends_at_def less_Suc_eq all_conj_distrib) 
  show ?thesis
    by (rule save_load_roundtrip) (simp_all add: v t n r e attrs_ok_def)
qed

end
