(* ===== verification/XmlVisit.thy ===== *)
theory XmlVisit
  imports XmlPrint "HOL-Library.Sublist"
begin

text \<open>
  \<open>submodules/tinyxml/tinyxml.cpp\<close> and \<open>tinyxml.h\<close>, visiting: the \<open>Accept\<close> methods, which walk a document and
  call a visitor, and \<open>TiXmlPrinter\<close>, the visitor that prints into memory. A visitor is a record of its
  callbacks over a state of its own; each returns whether the walk shall go on.
\<close>

section \<open>Visitors\<close>

record 's TiXmlVisitor =
  VisitEnterDocument :: "TiXmlNode list \<Rightarrow> 's \<Rightarrow> bool \<times> 's"
  VisitExitDocument :: "TiXmlNode list \<Rightarrow> 's \<Rightarrow> bool \<times> 's"
  VisitEnter :: "TiXmlNode \<Rightarrow> (string \<times> string) list \<Rightarrow> 's \<Rightarrow> bool \<times> 's"
  VisitExit :: "TiXmlNode \<Rightarrow> 's \<Rightarrow> bool \<times> 's"
  Visit :: "TiXmlNode \<Rightarrow> 's \<Rightarrow> bool \<times> 's"

text \<open>The methods of the base class.\<close>

definition default_visitor :: "'s TiXmlVisitor" where
  "default_visitor = \<lparr>VisitEnterDocument = \<lambda>_ s. (True, s), VisitExitDocument = \<lambda>_ s. (True, s),
     VisitEnter = \<lambda>_ _ s. (True, s), VisitExit = \<lambda>_ s. (True, s), Visit = \<lambda>_ s. (True, s)\<rparr>"

text \<open>\<open>Accept_children\<close> is the loop over the children, which a child that returns false ends.\<close>

fun Accept :: "'s TiXmlVisitor \<Rightarrow> TiXmlNode \<Rightarrow> 's \<Rightarrow> bool \<times> 's"
and Accept_children :: "'s TiXmlVisitor \<Rightarrow> TiXmlNode list \<Rightarrow> 's \<Rightarrow> 's" where
  "Accept v (TiXmlElement name attrs ch) s =
     (let (go, s1) = VisitEnter v (TiXmlElement name attrs ch) (attr_seq attrs) s;
          s2 = (if go then Accept_children v ch s1 else s1) in
      VisitExit v (TiXmlElement name attrs ch) s2)"
| "Accept v (TiXmlText cd t) s = Visit v (TiXmlText cd t) s"
| "Accept v (TiXmlComment t) s = Visit v (TiXmlComment t) s"
| "Accept v (TiXmlUnknown t) s = Visit v (TiXmlUnknown t) s"
| "Accept v (TiXmlDeclaration ver e sa) s = Visit v (TiXmlDeclaration ver e sa) s"
| "Accept_children v [] s = s"
| "Accept_children v (n # ns) s = (let (go, s1) = Accept v n s in if go then Accept_children v ns s1 else s1)"

definition Document_Accept :: "'s TiXmlVisitor \<Rightarrow> TiXmlNode list \<Rightarrow> 's \<Rightarrow> bool \<times> 's" where
  "Document_Accept v nodes s =
     (let (go, s1) = VisitEnterDocument v nodes s; s2 = (if go then Accept_children v nodes s1 else s1) in VisitExitDocument v nodes s2)"

section \<open>Walks as sequences of calls\<close>

datatype call = EnterCall TiXmlNode | ExitCall TiXmlNode | VisitCall TiXmlNode

text \<open>The calls of a walk that is never refused.\<close>

fun calls :: "TiXmlNode \<Rightarrow> call list" where
  "calls (TiXmlElement name attrs ch) =
     EnterCall (TiXmlElement name attrs ch) # concat (map calls ch) @ [ExitCall (TiXmlElement name attrs ch)]"
| "calls n = [VisitCall n]"

fun attributes :: "TiXmlNode \<Rightarrow> (string \<times> string) list" where
  "attributes (TiXmlElement name attrs ch) = attr_seq attrs"
| "attributes n = []"

fun perform :: "'s TiXmlVisitor \<Rightarrow> call \<Rightarrow> 's \<Rightarrow> bool \<times> 's" where
  "perform v (EnterCall n) s = VisitEnter v n (attributes n) s"
| "perform v (ExitCall n) s = VisitExit v n s"
| "perform v (VisitCall n) s = Visit v n s"

text \<open>A visitor that never refuses sees every node, in document order.\<close>

locale tireless =
  fixes v :: "'s TiXmlVisitor"
  assumes goes_on: "fst (perform v c s)"
    and goes_on_document: "fst (VisitEnterDocument v ns s)" "fst (VisitExitDocument v ns s)"
begin

definition walk :: "call list \<Rightarrow> 's \<Rightarrow> 's" where
  "walk = fold (\<lambda>c s. snd (perform v c s))"

lemma perform_eq: "perform v c s = (True, snd (perform v c s))"
  using goes_on [of c s] by (simp add: prod_eq_iff)

lemma walk_simps: "walk [] s = s" "walk (c # cs) s = walk cs (snd (perform v c s))" "walk (cs @ ds) s = walk ds (walk cs s)"
  by (simp_all add: walk_def)

lemma children_walk:
  "(\<And>n s. n \<in> set ns \<Longrightarrow> Accept v n s = (True, walk (calls n) s)) \<Longrightarrow> Accept_children v ns s = walk (concat (map calls ns)) s"
  by (induction ns arbitrary: s) (simp_all add: walk_simps)

lemma accept_walk: "Accept v n s = (True, walk (calls n) s)"
proof (induction n arbitrary: s)
  case (TiXmlElement name attrs ch)
  note e = perform_eq [of "EnterCall (TiXmlElement name attrs ch)", simplified]
  note x = perform_eq [of "ExitCall (TiXmlElement name attrs ch)", simplified]
  show ?case
    using children_walk [OF TiXmlElement.IH] x by (subst Accept.simps, subst e) (simp add: walk_simps)
qed (use perform_eq [of "VisitCall n" for n] in \<open>simp_all add: walk_simps\<close>)

lemma document_walk:
  "Document_Accept v ns s = (True, snd (VisitExitDocument v ns (walk (concat (map calls ns)) (snd (VisitEnterDocument v ns s)))))"
proof -
  have d: "VisitEnterDocument v ns s = (True, snd (VisitEnterDocument v ns s))" "VisitExitDocument v ns t = (True, snd (VisitExitDocument v ns t))" for t
    using goes_on_document by (simp_all add: prod_eq_iff)
  show ?thesis unfolding Document_Accept_def Let_def by (subst d(1)) (simp add: d(2) [symmetric] children_walk [OF accept_walk])
qed

end

interpretation base: tireless default_visitor
proof
  show "fst (perform default_visitor c s)" for c s by (cases c) (simp_all add: default_visitor_def)
qed (simp_all add: default_visitor_def)

section \<open>Walks that are refused\<close>

text \<open>Any visitor, with its calls written down.\<close>

definition noting :: "call list \<Rightarrow> ('s \<Rightarrow> bool \<times> 's) \<Rightarrow> 's \<times> call list \<Rightarrow> bool \<times> 's \<times> call list" where
  "noting u f x = (let (go, s) = f (fst x) in (go, s, snd x @ u))"

definition recording :: "'s TiXmlVisitor \<Rightarrow> ('s \<times> call list) TiXmlVisitor" where
  "recording v = \<lparr>VisitEnterDocument = \<lambda>ns. noting [] (VisitEnterDocument v ns), VisitExitDocument = \<lambda>ns. noting [] (VisitExitDocument v ns),
     VisitEnter = \<lambda>n as. noting [EnterCall n] (VisitEnter v n as), VisitExit = \<lambda>n. noting [ExitCall n] (VisitExit v n),
     Visit = \<lambda>n. noting [VisitCall n] (Visit v n)\<rparr>"

lemma noting_simps [simp]: "fst (noting u f x) = fst (f (fst x))" "snd (noting u f x) = (snd (f (fst x)), snd x @ u)"
  by (simp_all add: noting_def case_prod_beta)

lemma perform_recording: "perform (recording v) c x = noting [c] (perform v c) x"
  by (cases c) (simp_all add: recording_def noting_def)

context tireless
begin

lemma recording_tireless: "tireless (recording v)"
proof
  show "fst (perform (recording v) c s)" for c s using goes_on [of c "fst s"] by (simp add: perform_recording)
qed (use goes_on_document in \<open>simp_all add: recording_def\<close>)

lemma noted_walk: "tireless.walk (recording v) cs (s, t) = (walk cs s, t @ cs)"
  by (induction cs arbitrary: s t)
    (simp_all add: walk_simps tireless.walk_simps [OF recording_tireless] perform_recording)

lemma sees_all: "snd (snd (Document_Accept (recording v) ns (s, []))) = concat (map calls ns)"
  by (subst tireless.document_walk [OF recording_tireless]) (simp add: recording_def [of v] noted_walk [unfolded recording_def])

end

text \<open>Calls are nested: each element that is entered is left, the innermost first.\<close>

fun nested :: "TiXmlNode list \<Rightarrow> call list \<Rightarrow> bool" where
  "nested st [] \<longleftrightarrow> st = []"
| "nested st (EnterCall n # cs) \<longleftrightarrow> nested (n # st) cs"
| "nested st (VisitCall n # cs) \<longleftrightarrow> nested st cs"
| "nested st (ExitCall n # cs) \<longleftrightarrow> (case st of [] \<Rightarrow> False | m # st' \<Rightarrow> m = n \<and> nested st' cs)"

definition complete :: "call list \<Rightarrow> bool" where
  "complete u \<longleftrightarrow> (\<forall>st cs. nested st (u @ cs) = nested st cs)"

lemma complete_simps [simp]: "complete []" "complete [VisitCall n]" "complete u \<Longrightarrow> complete w \<Longrightarrow> complete (u @ w)"
  by (simp_all add: complete_def)

lemma complete_element: "complete u \<Longrightarrow> complete (EnterCall n # u @ [ExitCall n])"
  by (simp add: complete_def)

text \<open>
  A walk of \<open>v\<close> that ends in \<open>s'\<close> when it is written down: its calls are nested and occur, in their order, in those of
  \<open>full\<close>.
\<close>

definition noted_as :: "call list \<Rightarrow> 's \<Rightarrow> 's \<times> call list \<Rightarrow> 's \<times> call list \<Rightarrow> bool" where
  "noted_as full s' x y \<longleftrightarrow> (\<exists>u. complete u \<and> subseq u full \<and> y = (s', snd x @ u))"

lemma noted_children:
  assumes "\<And>n x. n \<in> set ns \<Longrightarrow> fst (Accept (recording v) n x) = fst (Accept v n (fst x)) \<and>
      noted_as (calls n) (snd (Accept v n (fst x))) x (snd (Accept (recording v) n x))"
  shows "noted_as (concat (map calls ns)) (Accept_children v ns (fst x)) x (Accept_children (recording v) ns x)"
  using assms
proof (induction ns arbitrary: x)
  case (Cons n ns)
  let ?y = "snd (Accept (recording v) n x)"
  from Cons.prems [of n x] obtain u where u: "complete u" "subseq u (calls n)" "?y = (snd (Accept v n (fst x)), snd x @ u)"
    and g: "fst (Accept (recording v) n x) = fst (Accept v n (fst x))" by (auto simp: noted_as_def)
  from Cons.IH [OF Cons.prems, of ?y] obtain w where w: "complete w" "subseq w (concat (map calls ns))"
    "Accept_children (recording v) ns ?y = (Accept_children v ns (fst ?y), snd ?y @ w)" by (auto simp: noted_as_def)
  show ?case
  proof (cases "fst (Accept v n (fst x))")
    case True
    then show ?thesis
      using u w g unfolding noted_as_def by (intro exI [of _ "u @ w"]) (simp add: case_prod_beta list_emb_append_mono)
  next
    case False
    then show ?thesis
      using u g list_emb_prefix [OF u(2)] unfolding noted_as_def by (intro exI [of _ u]) (simp add: case_prod_beta)
  qed
qed (auto simp: noted_as_def intro!: exI [of _ "[]"])

lemma noted_walks:
  "fst (Accept (recording v) n x) = fst (Accept v n (fst x)) \<and>
   noted_as (calls n) (snd (Accept v n (fst x))) x (snd (Accept (recording v) n x))"
proof (induction n arbitrary: x)
  case (TiXmlElement name attrs ch)
  let ?n = "TiXmlElement name attrs ch" and ?r = "recording v"
  define y where "y = noting [EnterCall ?n] (VisitEnter v ?n (attr_seq attrs)) x"
  from noted_children [OF TiXmlElement.IH, of ch "snd y"] obtain u where u: "complete u" "subseq u (concat (map calls ch))"
    "Accept_children ?r ch (snd y) = (Accept_children v ch (fst (snd y)), snd (snd y) @ u)" by (auto simp: noted_as_def)
  define w where "w = (if fst y then u else [])"
  have "snd (Accept ?r ?n x) = (snd (Accept v ?n (fst x)), snd x @ EnterCall ?n # w @ [ExitCall ?n])"
    "fst (Accept ?r ?n x) = fst (Accept v ?n (fst x))"
    using u(3) by (simp_all add: w_def y_def recording_def case_prod_beta)
  moreover have "complete (EnterCall ?n # w @ [ExitCall ?n])" using complete_element [of w] u(1) by (simp add: w_def)
  moreover have "subseq (EnterCall ?n # w @ [ExitCall ?n]) (calls ?n)" using u(2) by (simp add: w_def)
  ultimately show ?case unfolding noted_as_def by blast
qed (auto simp: recording_def noted_as_def)

lemma document_noted: "noted_as (concat (map calls nodes)) (snd (Document_Accept v nodes s)) (s, []) (snd (Document_Accept (recording v) nodes (s, [])))"
proof -
  define y where "y = noting [] (VisitEnterDocument v nodes) (s, [])"
  from noted_children [OF noted_walks, of nodes v "snd y"] obtain u where u: "complete u" "subseq u (concat (map calls nodes))"
    "Accept_children (recording v) nodes (snd y) = (Accept_children v nodes (fst (snd y)), snd (snd y) @ u)" by (auto simp: noted_as_def)
  show ?thesis
    unfolding noted_as_def
    by (intro exI [of _ "if fst y then u else []"]) (use u in \<open>auto simp: Document_Accept_def y_def recording_def case_prod_beta\<close>)
qed

section \<open>The printer\<close>

record TiXmlPrinter =
  pr_depth :: int
  pr_simpleTextPrint :: bool
  pr_buffer :: string
  pr_indent :: string
  pr_lineBreak :: string

definition newTiXmlPrinter :: TiXmlPrinter where
  "newTiXmlPrinter = \<lparr>pr_depth = 0, pr_simpleTextPrint = False, pr_buffer = [], pr_indent = ''    '', pr_lineBreak = [nl]\<rparr>"

text \<open>A null pointer is an empty string.\<close>

definition SetIndent :: "string option \<Rightarrow> TiXmlPrinter \<Rightarrow> TiXmlPrinter" where
  "SetIndent i p = p\<lparr>pr_indent := (case i of None \<Rightarrow> [] | Some s \<Rightarrow> cstr s)\<rparr>"

definition SetLineBreak :: "string option \<Rightarrow> TiXmlPrinter \<Rightarrow> TiXmlPrinter" where
  "SetLineBreak b p = p\<lparr>pr_lineBreak := (case b of None \<Rightarrow> [] | Some s \<Rightarrow> cstr s)\<rparr>"

definition SetStreamPrinting :: "TiXmlPrinter \<Rightarrow> TiXmlPrinter" where
  "SetStreamPrinting p = p\<lparr>pr_indent := [], pr_lineBreak := []\<rparr>"

definition CStr :: "TiXmlPrinter \<Rightarrow> string" where
  "CStr p = cstr (pr_buffer p)"

definition add_text :: "string \<Rightarrow> TiXmlPrinter \<Rightarrow> TiXmlPrinter" where
  "add_text s p = p\<lparr>pr_buffer := pr_buffer p @ s\<rparr>"

definition DoIndent :: "TiXmlPrinter \<Rightarrow> TiXmlPrinter" where
  "DoIndent p = add_text (concat (replicate (nat (pr_depth p)) (pr_indent p))) p"

definition DoLineBreak :: "TiXmlPrinter \<Rightarrow> TiXmlPrinter" where
  "DoLineBreak p = add_text (pr_lineBreak p) p"

text \<open>Attributes and declarations, printed into a string.\<close>

definition Attribute_PrintStr :: "string \<times> string \<Rightarrow> string" where
  "Attribute_PrintStr a =
     (let q = (if CHR 0x22 \<in> set (cstr (snd a)) then CHR 0x27 else CHR 0x22) in
      EncodeString (fst a) @ ''='' @ [q] @ EncodeString (snd a) @ [q])"

definition Declaration_PrintStr :: "string \<Rightarrow> string \<Rightarrow> string \<Rightarrow> string" where
  "Declaration_PrintStr v e sa =
     ''<?xml '' @ decl_form ''version'' v @ decl_form ''encoding'' e @ decl_form ''standalone'' sa @ ''?>''"

text \<open>The only child is a text that is no CDATA section.\<close>

fun only_text :: "TiXmlNode list \<Rightarrow> bool" where
  "only_text [TiXmlText cd t] \<longleftrightarrow> \<not> cd"
| "only_text ch \<longleftrightarrow> False"

definition Printer_VisitEnter :: "TiXmlNode \<Rightarrow> (string \<times> string) list \<Rightarrow> TiXmlPrinter \<Rightarrow> bool \<times> TiXmlPrinter" where
  "Printer_VisitEnter element attrs p =
     (let p1 = fold (\<lambda>a. add_text ('' '' @ Attribute_PrintStr a)) attrs (add_text (''<'' @ cstr (node_value element)) (DoIndent p));
          p2 = (if children element = [] then DoLineBreak (add_text '' />'' p1)
                else if only_text (children element) then (add_text ''>'' p1)\<lparr>pr_simpleTextPrint := True\<rparr>
                else DoLineBreak (add_text ''>'' p1)) in
      (True, p2\<lparr>pr_depth := pr_depth p2 + 1\<rparr>))"

definition Printer_VisitExit :: "TiXmlNode \<Rightarrow> TiXmlPrinter \<Rightarrow> bool \<times> TiXmlPrinter" where
  "Printer_VisitExit element p =
     (let p1 = p\<lparr>pr_depth := pr_depth p - 1\<rparr> in
      (True,
       if children element = [] then p1
       else DoLineBreak (add_text (''</'' @ cstr (node_value element) @ ''>'')
         (if pr_simpleTextPrint p1 then p1\<lparr>pr_simpleTextPrint := False\<rparr> else DoIndent p1))))"

fun Printer_Visit :: "TiXmlNode \<Rightarrow> TiXmlPrinter \<Rightarrow> bool \<times> TiXmlPrinter" where
  "Printer_Visit (TiXmlText cd v) p =
     (True, if cd then DoLineBreak (add_text (''<![CDATA['' @ cstr v @ '']]>'') (DoIndent p))
            else if pr_simpleTextPrint p then add_text (EncodeString v) p
            else DoLineBreak (add_text (EncodeString v) (DoIndent p)))"
| "Printer_Visit (TiXmlDeclaration v e sa) p = (True, DoLineBreak (add_text (Declaration_PrintStr v e sa) (DoIndent p)))"
| "Printer_Visit (TiXmlComment v) p = (True, DoLineBreak (add_text (''<!--'' @ cstr v @ ''-->'') (DoIndent p)))"
| "Printer_Visit (TiXmlUnknown v) p = (True, DoLineBreak (add_text (''<'' @ cstr v @ ''>'') (DoIndent p)))"
| "Printer_Visit (TiXmlElement name attrs ch) p = (True, p)"

definition printer :: "TiXmlPrinter TiXmlVisitor" where
  "printer = \<lparr>VisitEnterDocument = \<lambda>_ p. (True, p), VisitExitDocument = \<lambda>_ p. (True, p),
     VisitEnter = Printer_VisitEnter, VisitExit = Printer_VisitExit, Visit = Printer_Visit\<rparr>"

interpretation pr: tireless printer
proof
  show "fst (perform printer c s)" for c s
  proof (cases c)
    case (VisitCall n)
    then show ?thesis by (cases n) (simp_all add: printer_def)
  qed (simp_all add: printer_def Printer_VisitEnter_def Printer_VisitExit_def Let_def)
qed (simp_all add: printer_def)

section \<open>What the printer writes\<close>

definition margin :: "string \<Rightarrow> nat \<Rightarrow> string" where
  "margin ind d = concat (replicate d ind)"

fun printed :: "string \<Rightarrow> string \<Rightarrow> nat \<Rightarrow> TiXmlNode \<Rightarrow> string" where
  "printed ind lb d (TiXmlElement name attrs ch) =
     margin ind d @ ''<'' @ cstr name @ concat (map (\<lambda>a. '' '' @ Attribute_PrintStr a) (attr_seq attrs)) @
     (if ch = [] then '' />''
      else ''>'' @ (if only_text ch then EncodeString (node_value (hd ch))
                    else lb @ concat (map (printed ind lb (d + 1)) ch) @ margin ind d) @ ''</'' @ cstr name @ ''>'') @ lb"
| "printed ind lb d (TiXmlText cd v) = margin ind d @ (if cd then ''<![CDATA['' @ cstr v @ '']]>'' else EncodeString v) @ lb"
| "printed ind lb d (TiXmlComment v) = margin ind d @ ''<!--'' @ cstr v @ ''-->'' @ lb"
| "printed ind lb d (TiXmlUnknown v) = margin ind d @ ''<'' @ cstr v @ ''>'' @ lb"
| "printed ind lb d (TiXmlDeclaration v e sa) = margin ind d @ Declaration_PrintStr v e sa @ lb"

lemma add_text_simps [simp]:
  "pr_depth (add_text s p) = pr_depth p" "pr_simpleTextPrint (add_text s p) = pr_simpleTextPrint p" "pr_indent (add_text s p) = pr_indent p"
  "pr_lineBreak (add_text s p) = pr_lineBreak p" "add_text t (add_text s p) = add_text (s @ t) p" "add_text [] p = p"
  "(add_text s p)\<lparr>pr_depth := d\<rparr> = add_text s (p\<lparr>pr_depth := d\<rparr>)" "(add_text s p)\<lparr>pr_simpleTextPrint := b\<rparr> = add_text s (p\<lparr>pr_simpleTextPrint := b\<rparr>)"
  by (simp_all add: add_text_def)

lemma add_attrs: "fold (\<lambda>a. add_text (f a)) as p = add_text (concat (map f as)) p"
  by (induction as arbitrary: p) simp_all

definition printer_ok :: "TiXmlPrinter \<Rightarrow> bool" where
  "printer_ok p \<longleftrightarrow> \<not> pr_simpleTextPrint p \<and> 0 \<le> pr_depth p"

definition written :: "TiXmlPrinter \<Rightarrow> TiXmlNode \<Rightarrow> string" where
  "written p = printed (pr_indent p) (pr_lineBreak p) (nat (pr_depth p))"

lemma written_add [simp]: "printer_ok (add_text s p) = printer_ok p" "written (add_text s p) = written p"
  by (simp_all add: printer_ok_def written_def)

lemma printed_children:
  assumes "\<And>n p. n \<in> set ns \<Longrightarrow> printer_ok p \<Longrightarrow> Accept printer n p = (True, add_text (written p n) p)" and "printer_ok p"
  shows "Accept_children printer ns p = add_text (concat (map (written p) ns)) p"
  using assms by (induction ns arbitrary: p) simp_all

lemma visit_prints: "printer_ok p \<Longrightarrow> Accept printer n p = (True, add_text (written p n) p)"
proof (induction n arbitrary: p)
  case (TiXmlElement name attrs ch)
  let ?e = "TiXmlElement name attrs ch" and ?m = "margin (pr_indent p) (nat (pr_depth p))"
  let ?t = "?m @ ''<'' @ cstr name @ concat (map (\<lambda>a. '' '' @ Attribute_PrintStr a) (attr_seq attrs))"
  let ?p = "p\<lparr>pr_depth := pr_depth p + 1\<rparr>"
  have ok: "\<not> pr_simpleTextPrint p" "0 \<le> pr_depth p" using TiXmlElement.prems by (simp_all add: printer_ok_def)
  have same: "?p\<lparr>pr_simpleTextPrint := False\<rparr> = ?p" "p\<lparr>pr_simpleTextPrint := b, pr_depth := d\<rparr> = p\<lparr>pr_depth := d, pr_simpleTextPrint := b\<rparr>"
    "p\<lparr>pr_simpleTextPrint := False\<rparr> = p" for b d
    using ok by (cases p; simp)+
  have enter: "VisitEnter printer ?e (attr_seq attrs) p = (True,
      add_text (?t @ (if ch = [] then '' />'' @ pr_lineBreak p else ''>'' @ (if only_text ch then [] else pr_lineBreak p)))
        (?p\<lparr>pr_simpleTextPrint := ch \<noteq> [] \<and> only_text ch\<rparr>))"
    using ok by (simp add: printer_def Printer_VisitEnter_def DoIndent_def DoLineBreak_def add_attrs margin_def same Let_def)
  consider "ch = []" | t where "ch = [TiXmlText False t]" | "ch \<noteq> []" "\<not> only_text ch"
    by (cases ch rule: only_text.cases) auto
  then show ?case
  proof cases
    case 1
    then show ?thesis using enter ok by (simp add: printer_def Printer_VisitExit_def written_def same Let_def)
  next
    case 2
    then show ?thesis
      using enter ok by (simp add: printer_def Printer_VisitExit_def DoLineBreak_def written_def same Let_def)
  next
    case 3
    have "printer_ok ?p" using ok by (simp add: printer_ok_def)
    then have "Accept_children printer ch (add_text s ?p) = add_text (s @ concat (map (written ?p) ch)) ?p" for s
      using printed_children [OF TiXmlElement.IH, of ch "add_text s ?p"] by simp
    moreover have "written ?p = printed (pr_indent p) (pr_lineBreak p) (nat (pr_depth p) + 1)" using ok by (simp add: written_def nat_add_distrib)
    ultimately show ?thesis
      using enter ok 3 by (simp add: printer_def Printer_VisitExit_def DoLineBreak_def DoIndent_def margin_def written_def same Let_def)
  qed
qed (simp_all add: printer_def printer_ok_def DoIndent_def DoLineBreak_def written_def margin_def)

section \<open>Printed documents are read back\<close>

lemma blanks_margin [simp]: "blanks ind \<Longrightarrow> blanks (margin ind d)"
  by (induction d) (simp_all add: margin_def)

lemma str_attrs: "attrs_ok as \<Longrightarrow> concat (map (\<lambda>a. '' '' @ Attribute_PrintStr a) (attr_seq as)) = attr_texts as"
  by (rule attr_forms) (simp_all add: Attribute_PrintStr_def attr_form_def Let_def name_encoded value_cstr)

definition printed_pieces :: "string \<Rightarrow> string \<Rightarrow> nat \<Rightarrow> TiXmlNode list \<Rightarrow> (string \<times> TiXmlNode) list" where
  "printed_pieces ind lb d ch =
     (if only_text ch then [(EncodeString (node_value (hd ch)), hd ch)] else map (\<lambda>n. (printed ind lb d n, n)) ch)"

lemma printed_element:
  assumes "good_name v" and "attrs_ok as" and "ch \<noteq> []"
  shows "printed ind lb d (TiXmlElement v as ch) = margin ind d @
    (''<'' @ v @ attr_texts as @ ''>'' @ (if only_text ch then [] else lb) @ concat (map fst (printed_pieces ind lb (d + 1) ch)) @
      (if only_text ch then [] else margin ind d) @ ''</'' @ v @ ''>'') @ lb"
  using assms(3) str_attrs [OF assms(2)] name_encoded(2) [OF assms(1)] by (simp add: printed_pieces_def comp_def)

lemma only_textE: "only_text ch \<Longrightarrow> (\<And>t. ch = [TiXmlText False t] \<Longrightarrow> P) \<Longrightarrow> P"
  by (cases ch rule: only_text.cases) auto

lemma first_piece:
  assumes "\<And>p. p \<in> set ps \<Longrightarrow> piece enc p" and "blanks w" and "ps \<noteq> []"
  obtains qs where "\<And>p. p \<in> set qs \<Longrightarrow> piece enc p" "map snd qs = map snd ps" "concat (map fst qs) = w @ concat (map fst ps)"
proof -
  obtain p r where ps: "ps = p # r" using assms(3) by (cases ps) auto
  have "piece enc (w @ fst p, snd p)"
  proof (cases "plain_text (snd p)")
    case True
    then obtain a v b where "blanks a" "blanks b" "text_ok v" "p = (a @ EncodeString v @ b, TiXmlText False v)"
      using assms(1) [of p] ps by (auto simp: piece_def)
    then show ?thesis using assms(2) piece_text [of "w @ a" v b enc] by simp
  next
    case False
    then show ?thesis using assms(1) [of p] ps reads_as_blanks [OF _ assms(2) blanks_simps(1), of enc "fst p" "snd p"] by (simp add: piece_def)
  qed
  then show thesis by (intro that [of "(w @ fst p, snd p) # r"]) (use assms(1) ps in auto)
qed

lemma printed_reads:
  assumes "blanks ind" and "blanks lb"
  shows "printable n \<Longrightarrow> \<not> plain_text n \<Longrightarrow> reads_as enc (printed ind lb d n) n"
proof (induction n arbitrary: d)
  case (TiXmlElement v as ch)
  have ok: "good_name v" "attrs_ok as" "separated ch" "\<And>n. n \<in> set ch \<Longrightarrow> printable n"
    using TiXmlElement.prems by (auto simp: list_all_iff)
  show ?case
  proof (cases "ch = []")
    case True
    then show ?thesis
      using reads_as_blanks [OF empty_as [OF ok(1,2), of enc] blanks_margin [OF assms(1)] assms(2), of d] str_attrs [OF ok(2)] name_encoded(2) [OF ok(1)]
      by simp
  next
    case False
    let ?ps = "printed_pieces ind lb (d + 1) ch"
    have txts: "piece enc (w @ EncodeString t @ w', TiXmlText False t)" if "TiXmlText False t \<in> set ch" "blanks w" "blanks w'" for t w w'
      using ok(4) [OF that(1)] that(2,3) by (intro piece_text) simp_all
    have "piece enc p" if p: "p \<in> set ?ps" for p
    proof (cases "only_text ch")
      case True
      then obtain t where "ch = [TiXmlText False t]" by (rule only_textE)
      then show ?thesis using p txts [of t "[]" "[]"] by (simp add: printed_pieces_def)
    next
      case False
      then obtain n where n: "n \<in> set ch" "p = (printed ind lb (d + 1) n, n)" using p by (auto simp: printed_pieces_def)
      show ?thesis
      proof (cases "plain_text n")
        case True
        then obtain t where "n = TiXmlText False t" by (cases n) auto
        then show ?thesis using n txts [of t "margin ind (d + 1)" lb] assms by simp
      next
        case False
        then show ?thesis using n TiXmlElement.IH [OF n(1) ok(4) [OF n(1)] False] by (simp add: piece_def)
      qed
    qed
    moreover have "blanks (if only_text ch then [] else lb)" using assms(2) by simp
    moreover have "?ps \<noteq> []" using False by (simp add: printed_pieces_def)
    ultimately obtain qs where qs: "\<And>p. p \<in> set qs \<Longrightarrow> piece enc p" "map snd qs = map snd ?ps"
      "concat (map fst qs) = (if only_text ch then [] else lb) @ concat (map fst ?ps)" using first_piece by metis
    have ch: "map snd qs = ch" using qs(2) by (auto simp: printed_pieces_def comp_def elim: only_textE)
    have u: "blanks (if only_text ch then [] else margin ind d)" using assms(1) by simp
    from ok(3) have "separated (map snd qs)" unfolding ch .
    from reads_as_blanks [OF element_as [OF ok(1,2) qs(1) this u] blanks_margin [OF assms(1)] assms(2), of d]
    show ?thesis unfolding printed_element [OF ok(1,2) False] ch qs(3) by simp
  qed
next
  case (TiXmlDeclaration v e sa)
  then show ?case
    using reads_as_blanks [OF declaration_as [of v e sa enc] blanks_margin [OF assms(1)] assms(2), of d] by (simp add: Declaration_PrintStr_def)
qed (use assms reads_as_blanks [OF cdata_as blanks_margin [OF assms(1)] assms(2)] reads_as_blanks [OF comment_as blanks_margin [OF assms(1)] assms(2)]
  reads_as_blanks [OF unknown_as blanks_margin [OF assms(1)] assms(2)] in \<open>simp_all add: raw_clean unknown_ok_def\<close>)

lemma printed_nul:
  assumes "clean ind" and "clean lb"
  shows "printable n \<Longrightarrow> clean (printed ind lb d n)"
proof (induction n arbitrary: d)
  case (TiXmlElement v as ch)
  have ok: "good_name v" "attrs_ok as" "\<And>n. n \<in> set ch \<Longrightarrow> printable n" using TiXmlElement.prems by (auto simp: list_all_iff)
  have m: "clean (margin ind k)" for k using assms(1) by (induction k) (simp_all add: margin_def)
  have "clean (concat (map (printed ind lb (d + 1)) ch))" using TiXmlElement.IH ok(3) by (intro clean_concat) auto
  moreover have "only_text ch \<Longrightarrow> clean (EncodeString (node_value (hd ch)))"
    using ok(3) by (auto simp: text_ok_def intro: clean_value elim!: only_textE)
  ultimately show ?case
    using assms(2) m clean_name [OF ok(1)] clean_attrs [OF ok(2)] str_attrs [OF ok(2)] name_encoded(2) [OF ok(1)] by simp
next
  case (TiXmlDeclaration v e sa)
  have "clean (margin ind d)" using assms(1) by (induction d) (simp_all add: margin_def)
  then show ?case using TiXmlDeclaration assms(2) by (simp add: Declaration_PrintStr_def clean_decl_form)
qed (use assms clean_concat [of "replicate d ind" id for d] in \<open>auto simp: raw_clean unknown_ok_def text_ok_def clean_value margin_def\<close>)

lemma document_prints:
  assumes "printer_ok p"
  shows "Document_Accept printer nodes p = (True, add_text (concat (map (written p) nodes)) p)"
  using printed_children [OF visit_prints assms] by (simp add: Document_Accept_def printer_def)

section \<open>Properties\<close>

text \<open>
  Printing into memory: Whatever blanks the printer is told to indent and to break lines with, none at
  all included, the text it leaves when a document of printable nodes accepts it is parsed back into the
  nodes of that document, without an error.
\<close>

theorem printer_roundtrip:
  assumes "nodes \<noteq> []" and "list_all (\<lambda>n. printable n \<and> \<not> plain_text n) nodes"
    and "blanks (pr_indent p)" and "blanks (pr_lineBreak p)"
    and "pr_depth p = 0" and "\<not> pr_simpleTextPrint p" and "pr_buffer p = []"
  shows "let (go, q) = Document_Accept printer nodes p in
    go \<and> Document_Parse (length (CStr q) + 2) True TIXML_ENCODING_UNKNOWN (CStr q) =
      Some (Inr \<lparr>doc_nodes = nodes, doc_error = None, useMicrosoftBOM = False\<rparr>)"
proof -
  let ?ps = "map (\<lambda>n. (written p n, n)) nodes"
  have s: "concat (map (written p) nodes) = doc_form [] ?ps" by (simp add: doc_form_def comp_def)
  have "clean (doc_form [] ?ps)"
    using assms(2) printed_nul [OF blanks_clean [OF assms(3)] blanks_clean [OF assms(4)]]
    unfolding doc_form_def written_def by (intro clean_concat) (auto simp: list_all_iff)
  then have c: "cstr (doc_form [] ?ps) = doc_form [] ?ps" by (simp add: clean_def cstr_id_nul)
  have "printer_ok p" using assms(5,6) by (simp add: printer_ok_def)
  then have d: "Document_Accept printer nodes p = (True, p\<lparr>pr_buffer := doc_form [] ?ps\<rparr>)"
    using assms(7) by (simp add: document_prints s add_text_def)
  have "reads_as enc (fst x) (snd x)" if "x \<in> set ?ps" for x enc
    using that assms(2) printed_reads [OF assms(3,4)] by (auto simp: list_all_iff written_def)
  from parse_form [OF _ this, of ?ps "[]" "doc_form [] ?ps" False] assms(1) show ?thesis
    by (simp add: d CStr_def c comp_def)
qed

theorem printer_roundtrip_witness:
  "let (go, q) = Document_Accept printer [TiXmlElement ''a'' [(''k'', ''v'')] [TiXmlText False ''x y'', TiXmlElement ''b'' [] []]]
       (SetIndent (Some [CHR 0x09]) (SetLineBreak None newTiXmlPrinter)) in
    go \<and> Document_Parse (length (CStr q) + 2) True TIXML_ENCODING_UNKNOWN (CStr q) =
      Some (Inr \<lparr>doc_nodes = [TiXmlElement ''a'' [(''k'', ''v'')] [TiXmlText False ''x y'', TiXmlElement ''b'' [] []]],
        doc_error = None, useMicrosoftBOM = False\<rparr>)"
proof (rule printer_roundtrip)
  have v: "value_ok ''v''" "value_ok ''x y''" by (rule value_okI; code_simp)+
  have t: "text_ok ''x y''" unfolding text_ok_def by (intro conjI v; code_simp)
  have n: "good_name ''a''" "good_name ''b''" "good_name ''k''" by code_simp+
  show "list_all (\<lambda>n. printable n \<and> \<not> plain_text n) [TiXmlElement ''a'' [(''k'', ''v'')] [TiXmlText False ''x y'', TiXmlElement ''b'' [] []]]"
    by (simp add: v t n attrs_ok_def)
qed (simp_all add: SetIndent_def SetLineBreak_def newTiXmlPrinter_def cstr_def)

text \<open>
  Whatever a visitor answers, the calls it gets from a document are nested, every element that
  is entered is left, after everything entered inside it, and come in document order; writing them down
  changes nothing for the visitor. The printer, which never refuses, sees every node.
\<close>

theorem visits_nested:
  "\<exists>u. snd (Document_Accept (recording v) nodes (s, [])) = (snd (Document_Accept v nodes s), u) \<and>
     nested [] u \<and> subseq u (concat (map calls nodes)) \<and>
     snd (snd (Document_Accept (recording printer) nodes (p, []))) = concat (map calls nodes)"
proof -
  from document_noted [of nodes v s] obtain u where u: "complete u" "subseq u (concat (map calls nodes))"
    "snd (Document_Accept (recording v) nodes (s, [])) = (snd (Document_Accept v nodes s), u)" by (auto simp: noted_as_def)
  then have "nested [] u" unfolding complete_def by (metis append_Nil2 nested.simps(1))
  with u show ?thesis using pr.sees_all by blast
qed

text \<open>
  An element that refuses its children does not keep its siblings from being visited: only a call to
  \<open>VisitExit\<close> or \<open>Visit\<close> that returns false does.
\<close>

lemma refused_element_siblings:
  "snd (Accept_children (recording (default_visitor\<lparr>VisitEnter := \<lambda>_ _ s. (False, s)\<rparr>)) [TiXmlElement ''a'' [] [TiXmlText False ''x''], TiXmlComment ''c''] (s, [])) =
     [EnterCall (TiXmlElement ''a'' [] [TiXmlText False ''x'']), ExitCall (TiXmlElement ''a'' [] [TiXmlText False ''x'']), VisitCall (TiXmlComment ''c'')]"
  by (simp add: recording_def noting_def default_visitor_def)

end
