(* ===== verification/ImplicitProducer.thy ===== *)
theory ImplicitProducer
  imports Prelude
begin

text \<open>
  \<open>submodules/concurrentqueue/concurrentqueue.h\<close>, the queue of one producing thread (\<open>ImplicitProducer\<close>): the thread
  enqueues, any number of threads dequeue, without locks. Elements are numbered; 32 numbers share a
  block, and a ring of entries leads from the first number of a block to the block. Each atomic operation on
  the counters, the blocks and the entries is one step of its thread, and all threads see the steps in one order;
  a search in the ring and an insertion into it are one step each. Blocks come from outside: \<open>ip_used\<close> is
  the set of those the producer has, and the allocator may hand out any other or fail. The elements are
  pointers (\<open>TcpConnectionPtr\<close>), whose construction and assignment throw nothing.
\<close>

unbundle bit_operations_syntax

section \<open>Numbers\<close>

definition circular_less_than :: "'a::len word \<Rightarrow> 'a word \<Rightarrow> bool" where
  "circular_less_than a b \<longleftrightarrow> push_bit (LENGTH('a) - 1) 1 < a - b"

definition BLOCK_SIZE :: u64 where
  "BLOCK_SIZE = 32"

definition INVALID_BLOCK_BASE :: u64 where
  "INVALID_BLOCK_BASE = 1"

definition IMPLICIT_INITIAL_INDEX_SIZE :: nat where
  "IMPLICIT_INITIAL_INDEX_SIZE = 32"

definition block_base :: "u64 \<Rightarrow> u64" where
  "block_base i = i AND NOT (BLOCK_SIZE - 1)"

definition block_slot :: "u64 \<Rightarrow> nat" where
  "block_slot i = unat (i AND (BLOCK_SIZE - 1))"

section \<open>State\<close>

type_synonym block = nat
type_synonym entry = nat

record 'a Block =
  elements :: "nat \<Rightarrow> 'a option"
  elementsCompletelyDequeued :: nat

text \<open>The capacity is a power of two, so that \<open>& (capacity - 1)\<close> is the remainder.\<close>

record BlockIndexHeader =
  capacity :: nat
  bi_tail :: nat
  bi_index :: "entry list"

text \<open>Where the producing thread and the dequeuing threads are; an idle one holds the result of its last call.\<close>

datatype 'a enq_pc =
    EIdle bool
  | ELoad 'a
  | EHead 'a u64
  | EEntry 'a u64
  | EBlock 'a u64 entry
  | ERewind entry
  | EClear entry
  | EReset 'a u64 entry block
  | EPublish 'a u64 entry block
  | EConstruct 'a u64
  | EStore 'a u64

datatype 'a deq_pc =
    DIdle "'a option"
  | DTail
  | DOver u64
  | DOpt u64 u64
  | DAdd u64
  | DTail2 u64 u64
  | DUndo
  | DHead
  | DEntry u64
  | DBlock u64 entry
  | DTake u64 entry block
  | DEmpty u64 entry block 'a
  | DUnlink entry block 'a
  | DFree block 'a

text \<open>
  \<open>ip_in\<close> and \<open>ip_out\<close> record what was enqueued and, with its number, what was taken out; \<open>ip_tries\<close> counts the
  increments of \<open>dequeueOptimisticCount\<close>.
\<close>

record 'a ImplicitProducer =
  tailIndex :: u64
  headIndex :: u64
  dequeueOptimisticCount :: u64
  dequeueOvercommit :: u64
  tailBlock :: "block option"
  blockIndex :: "BlockIndexHeader option"
  nextBlockIndexCapacity :: nat
  ip_entries :: "entry \<Rightarrow> u64 \<times> block option"
  ip_next_entry :: entry
  ip_blocks :: "block \<Rightarrow> 'a Block"
  ip_used :: "block set"
  ip_enq :: "'a enq_pc"
  ip_deqs :: "'a deq_pc list"
  ip_in :: "'a list"
  ip_out :: "(nat \<times> 'a) list"
  ip_tries :: nat

section \<open>Blocks\<close>

definition set_empty :: "'a Block \<Rightarrow> (bool \<times> 'a Block) res" where
  "set_empty b =
     (let prevVal = elementsCompletelyDequeued b in
      assertE (prevVal < 32) (Inr (prevVal = 32 - 1, b\<lparr>elementsCompletelyDequeued := prevVal + 1\<rparr>)))"

definition reset_empty :: "'a Block \<Rightarrow> 'a Block" where
  "reset_empty b = b\<lparr>elementsCompletelyDequeued := 0\<rparr>"

section \<open>The ring of entries\<close>

text \<open>A new ring, twice as big, with the old entries first; the values of new entries are not initialised.\<close>

definition new_block_index :: "(entry \<Rightarrow> block option) \<Rightarrow> bool \<Rightarrow> 'a ImplicitProducer \<Rightarrow> bool \<times> 'a ImplicitProducer" where
  "new_block_index junk alloc s =
     (let prevCapacity = (case blockIndex s of None \<Rightarrow> 0 | Some h \<Rightarrow> capacity h);
          entryCount = (case blockIndex s of None \<Rightarrow> nextBlockIndexCapacity s | Some h \<Rightarrow> prevCapacity);
          old = (case blockIndex s of None \<Rightarrow> [] | Some h \<Rightarrow> map (\<lambda>i. bi_index h ! ((bi_tail h + 1 + i) mod capacity h)) [0..<prevCapacity]);
          e0 = ip_next_entry s in
      if \<not> alloc then (False, s)
      else (True, s\<lparr>
        ip_entries := (\<lambda>e. if e0 \<le> e \<and> e < e0 + entryCount then (INVALID_BLOCK_BASE, junk e) else ip_entries s e),
        ip_next_entry := e0 + entryCount,
        blockIndex := Some \<lparr>capacity = nextBlockIndexCapacity s,
          bi_tail = (prevCapacity + nextBlockIndexCapacity s - 1) mod nextBlockIndexCapacity s, bi_index = old @ [e0..<e0 + entryCount]\<rparr>,
        nextBlockIndexCapacity := 2 * nextBlockIndexCapacity s\<rparr>))"

definition bi_new_tail :: "BlockIndexHeader \<Rightarrow> nat" where
  "bi_new_tail h = (bi_tail h + 1) mod capacity h"

definition bi_enter :: "BlockIndexHeader \<Rightarrow> u64 \<Rightarrow> 'a ImplicitProducer \<Rightarrow> 'a ImplicitProducer" where
  "bi_enter h base s =
     (let e = bi_index h ! bi_new_tail h in
      s\<lparr>ip_entries := (ip_entries s)(e := (base, snd (ip_entries s e))), blockIndex := Some (h\<lparr>bi_tail := bi_new_tail h\<rparr>)\<rparr>)"

definition insert_block_index_entry ::
  "(entry \<Rightarrow> block option) \<Rightarrow> bool \<Rightarrow> u64 \<Rightarrow> 'a ImplicitProducer \<Rightarrow> (entry option \<times> 'a ImplicitProducer) res" where
  "insert_block_index_entry junk alloc base s =
     (case blockIndex s of
        None \<Rightarrow> Inr (None, s)
      | Some h \<Rightarrow>
          let e = bi_index h ! bi_new_tail h in
          if fst (ip_entries s e) = INVALID_BLOCK_BASE \<or> snd (ip_entries s e) = None then Inr (Some e, bi_enter h base s)
          else let (ok, s1) = new_block_index junk alloc s in
               if \<not> ok then Inr (None, s1)
               else let h1 = the (blockIndex s1); e1 = bi_index h1 ! bi_new_tail h1 in
                    assertE (fst (ip_entries s1 e1) = INVALID_BLOCK_BASE) (Inr (Some e1, bi_enter h1 base s1)))"

definition rewind_block_index_tail :: "'a ImplicitProducer \<Rightarrow> 'a ImplicitProducer res" where
  "rewind_block_index_tail s =
     (case blockIndex s of
        None \<Rightarrow> Inl Undefined
      | Some h \<Rightarrow> Inr (s\<lparr>blockIndex := Some (h\<lparr>bi_tail := (bi_tail h + capacity h - 1) mod capacity h\<rparr>)\<rparr>))"

text \<open>
  The entry of an element. The quotient is unsigned, since \<open>BLOCK_SIZE\<close> is: for a block before the last one it
  is a multiple of the capacity too big.
\<close>

definition get_block_index_entry_for_index :: "u64 \<Rightarrow> 'a ImplicitProducer \<Rightarrow> entry res" where
  "get_block_index_entry_for_index i s =
     (case blockIndex s of
        None \<Rightarrow> Inl Undefined
      | Some h \<Rightarrow>
          let base = block_base i; tailBase = fst (ip_entries s (bi_index h ! bi_tail h)) in
          assertE (tailBase \<noteq> INVALID_BLOCK_BASE)
            (let offset = (base - tailBase) div BLOCK_SIZE;
                 e = bi_index h ! (unat (of_nat (bi_tail h) + offset) mod capacity h) in
             assertE (fst (ip_entries s e) = base \<and> snd (ip_entries s e) \<noteq> None) (Inr e)))"

section \<open>Enqueueing\<close>

text \<open>
  \<open>junk\<close> is the memory of new entries, \<open>alloc\<close> tells whether a new ring can be allocated, \<open>pick\<close> is the block
  that \<open>requisition_block\<close> returns.
\<close>

fun enq_step :: "(entry \<Rightarrow> block option) \<Rightarrow> bool \<Rightarrow> block option \<Rightarrow> 'a enq_pc \<Rightarrow> 'a ImplicitProducer \<Rightarrow> 'a ImplicitProducer res" where
  "enq_step junk alloc pick (EIdle r) s = Inr s"
| "enq_step junk alloc pick (ELoad x) s =
     Inr (s\<lparr>ip_enq := (if tailIndex s AND (BLOCK_SIZE - 1) = 0 then EHead x (tailIndex s) else EConstruct x (tailIndex s))\<rparr>)"
| "enq_step junk alloc pick (EHead x cur) s =
     assertE (\<not> circular_less_than cur (headIndex s))
       (Inr (s\<lparr>ip_enq := (if \<not> circular_less_than (headIndex s) (cur + BLOCK_SIZE) then EIdle False else EEntry x cur)\<rparr>))"
| "enq_step junk alloc pick (EEntry x cur) s =
     bindE (insert_block_index_entry junk alloc cur s) (\<lambda>(e, s1).
     Inr (s1\<lparr>ip_enq := (case e of None \<Rightarrow> EIdle False | Some e \<Rightarrow> EBlock x cur e)\<rparr>))"
| "enq_step junk alloc pick (EBlock x cur e) s =
     Inr (case pick of
            None \<Rightarrow> s\<lparr>ip_enq := ERewind e\<rparr>
          | Some b \<Rightarrow> s\<lparr>ip_used := insert b (ip_used s), ip_enq := EReset x cur e b\<rparr>)"
| "enq_step junk alloc pick (ERewind e) s = bindE (rewind_block_index_tail s) (\<lambda>s1. Inr (s1\<lparr>ip_enq := EClear e\<rparr>))"
| "enq_step junk alloc pick (EClear e) s =
     Inr (s\<lparr>ip_entries := (ip_entries s)(e := (fst (ip_entries s e), None)), ip_enq := EIdle False\<rparr>)"
| "enq_step junk alloc pick (EReset x cur e b) s =
     Inr (s\<lparr>ip_blocks := (ip_blocks s)(b := reset_empty (ip_blocks s b)), ip_enq := EPublish x cur e b\<rparr>)"
| "enq_step junk alloc pick (EPublish x cur e b) s =
     Inr (s\<lparr>ip_entries := (ip_entries s)(e := (fst (ip_entries s e), Some b)), tailBlock := Some b, ip_enq := EConstruct x cur\<rparr>)"
| "enq_step junk alloc pick (EConstruct x cur) s =
     (case tailBlock s of
        None \<Rightarrow> Inl Undefined
      | Some b \<Rightarrow> Inr (s\<lparr>ip_blocks := (ip_blocks s)(b := (ip_blocks s b)\<lparr>elements := (elements (ip_blocks s b))(block_slot cur \<mapsto> x)\<rparr>),
          ip_enq := EStore x cur\<rparr>))"
| "enq_step junk alloc pick (EStore x cur) s = Inr (s\<lparr>tailIndex := 1 + cur, ip_in := ip_in s @ [x], ip_enq := EIdle True\<rparr>)"

section \<open>Dequeueing\<close>

definition deq_at :: "tid \<Rightarrow> 'a deq_pc \<Rightarrow> 'a ImplicitProducer \<Rightarrow> 'a ImplicitProducer" where
  "deq_at i pc s = s\<lparr>ip_deqs := (ip_deqs s)[i := pc]\<rparr>"

fun deq_step :: "tid \<Rightarrow> 'a deq_pc \<Rightarrow> 'a ImplicitProducer \<Rightarrow> 'a ImplicitProducer res" where
  "deq_step i (DIdle r) s = Inr s"
| "deq_step i DTail s = Inr (deq_at i (DOver (tailIndex s)) s)"
| "deq_step i (DOver tail) s = Inr (deq_at i (DOpt tail (dequeueOvercommit s)) s)"
| "deq_step i (DOpt tail over) s =
     Inr (deq_at i (if circular_less_than (dequeueOptimisticCount s - over) tail then DAdd over else DIdle None) s)"
| "deq_step i (DAdd over) s =
     Inr (deq_at i (DTail2 over (dequeueOptimisticCount s)) (s\<lparr>dequeueOptimisticCount := dequeueOptimisticCount s + 1, ip_tries := ip_tries s + 1\<rparr>))"
| "deq_step i (DTail2 over my) s = Inr (deq_at i (if circular_less_than (my - over) (tailIndex s) then DHead else DUndo) s)"
| "deq_step i DUndo s = Inr (deq_at i (DIdle None) (s\<lparr>dequeueOvercommit := dequeueOvercommit s + 1\<rparr>))"
| "deq_step i DHead s = Inr (deq_at i (DEntry (headIndex s)) (s\<lparr>headIndex := headIndex s + 1\<rparr>))"
| "deq_step i (DEntry index) s = bindE (get_block_index_entry_for_index index s) (\<lambda>e. Inr (deq_at i (DBlock index e) s))"
| "deq_step i (DBlock index e) s =
     (case snd (ip_entries s e) of None \<Rightarrow> Inl Undefined | Some b \<Rightarrow> Inr (deq_at i (DTake index e b) s))"
| "deq_step i (DTake index e b) s =
     (case elements (ip_blocks s b) (block_slot index) of
        None \<Rightarrow> Inl Undefined
      | Some v \<Rightarrow> Inr (deq_at i (DEmpty index e b v)
          (s\<lparr>ip_blocks := (ip_blocks s)(b := (ip_blocks s b)\<lparr>elements := (elements (ip_blocks s b))(block_slot index := None)\<rparr>),
             ip_out := ip_out s @ [(unat index, v)]\<rparr>)))"
| "deq_step i (DEmpty index e b v) s =
     bindE (set_empty (ip_blocks s b)) (\<lambda>(all, b1).
     Inr (deq_at i (if all then DUnlink e b v else DIdle (Some v)) (s\<lparr>ip_blocks := (ip_blocks s)(b := b1)\<rparr>)))"
| "deq_step i (DUnlink e b v) s = Inr (deq_at i (DFree b v) (s\<lparr>ip_entries := (ip_entries s)(e := (fst (ip_entries s e), None))\<rparr>))"
| "deq_step i (DFree b v) s = Inr (deq_at i (DIdle (Some v)) (s\<lparr>ip_used := ip_used s - {b}\<rparr>))"

text \<open>Whole calls, when no other thread comes in between: at most twelve and at most eight steps.\<close>

fun deq_run :: "tid \<Rightarrow> nat \<Rightarrow> 'a ImplicitProducer \<Rightarrow> 'a ImplicitProducer res" where
  "deq_run i 0 s = Inr s"
| "deq_run i (Suc n) s = bindE (deq_step i (ip_deqs s ! i) s) (deq_run i n)"

fun enq_run :: "(entry \<Rightarrow> block option) \<Rightarrow> bool \<Rightarrow> block option \<Rightarrow> nat \<Rightarrow> 'a ImplicitProducer \<Rightarrow> 'a ImplicitProducer res" where
  "enq_run junk alloc pick 0 s = Inr s"
| "enq_run junk alloc pick (Suc n) s = bindE (enq_step junk alloc pick (ip_enq s) s) (enq_run junk alloc pick n)"

definition ip_enqueue :: "(entry \<Rightarrow> block option) \<Rightarrow> bool \<Rightarrow> block option \<Rightarrow> 'a \<Rightarrow> 'a ImplicitProducer \<Rightarrow> 'a ImplicitProducer res" where
  "ip_enqueue junk alloc pick x s = enq_run junk alloc pick 8 (s\<lparr>ip_enq := ELoad x\<rparr>)"

definition ip_dequeue :: "tid \<Rightarrow> 'a ImplicitProducer \<Rightarrow> 'a ImplicitProducer res" where
  "ip_dequeue i s = deq_run i 12 (deq_at i DTail s)"

definition ip_size_approx :: "'a ImplicitProducer \<Rightarrow> u64" where
  "ip_size_approx s = (if circular_less_than (headIndex s) (tailIndex s) then tailIndex s - headIndex s else 0)"

section \<open>The destructor\<close>

text \<open>
  \<open>~ImplicitProducer\<close>: what remains is destroyed, the blocks are given back; the list is that of the destroyed elements.
  Giving back a block that is not in use is an error.
\<close>

definition give_back :: "block \<Rightarrow> 'a ImplicitProducer \<Rightarrow> 'a ImplicitProducer res" where
  "give_back b s = (if b \<in> ip_used s then Inr (s\<lparr>ip_used := ip_used s - {b}\<rparr>) else Inl Undefined)"

definition next_block :: "u64 \<Rightarrow> block option \<Rightarrow> 'a ImplicitProducer \<Rightarrow> (block \<times> 'a ImplicitProducer) res" where
  "next_block index cur s =
     (case cur of
        Some b \<Rightarrow> if index AND (BLOCK_SIZE - 1) \<noteq> 0 then Inr (b, s)
                  else bindE (give_back b s) (\<lambda>s1. bindE (get_block_index_entry_for_index index s1) (\<lambda>e.
                       case snd (ip_entries s1 e) of None \<Rightarrow> Inl Undefined | Some b1 \<Rightarrow> Inr (b1, s1)))
      | None \<Rightarrow> bindE (get_block_index_entry_for_index index s) (\<lambda>e.
                  case snd (ip_entries s e) of None \<Rightarrow> Inl Undefined | Some b1 \<Rightarrow> Inr (b1, s)))"

lemma unat_before: "(w :: u64) \<noteq> 0 \<Longrightarrow> unat (w - 1) < unat w"
proof -
  assume "w \<noteq> 0"
  then have p: "0 < unat w" by (simp add: unat_gt_0)
  have e: "w - 1 = of_nat (unat w - 1)" using p by (simp add: of_nat_diff)
  have "unat w - 1 < 2 ^ 64" using unsigned_less [of w, where 'a = nat] by simp
  then have "unat (of_nat (unat w - 1) :: u64) = unat w - 1" by (simp add: unat_of_nat)
  then show ?thesis unfolding e using p by simp
qed

function destroy_from :: "u64 \<Rightarrow> u64 \<Rightarrow> block option \<Rightarrow> 'a list \<Rightarrow> 'a ImplicitProducer \<Rightarrow> ('a list \<times> 'a ImplicitProducer) res" where
  "destroy_from index tail cur dead s =
     (if index = tail then Inr (dead, s)
      else bindE (next_block index cur s) (\<lambda>(b, s1).
           case elements (ip_blocks s1 b) (block_slot index) of
             None \<Rightarrow> Inl Undefined
           | Some x \<Rightarrow> destroy_from (index + 1) tail (Some b) (dead @ [x])
               (s1\<lparr>ip_blocks := (ip_blocks s1)(b := (ip_blocks s1 b)\<lparr>elements := (elements (ip_blocks s1 b))(block_slot index := None)\<rparr>)\<rparr>)))"
  by pat_completeness auto
termination
proof (relation "measure (\<lambda>(index, tail, _). unat (tail - index))", goal_cases)
  case (2 index tail)
  then have "tail - index \<noteq> 0" by auto
  from unat_before [OF this] show ?case by (simp add: diff_diff_eq)
qed simp

declare destroy_from.simps [simp del]

definition ip_destroy :: "'a ImplicitProducer \<Rightarrow> ('a list \<times> 'a ImplicitProducer) res" where
  "ip_destroy s =
     (let tail = tailIndex s; index = headIndex s in
      assertE (index = tail \<or> circular_less_than index tail)
        (bindE (destroy_from index tail None [] s) (\<lambda>(dead, s1).
         bindE (case tailBlock s1 of
                  Some b \<Rightarrow> if index \<noteq> tail \<or> tail AND (BLOCK_SIZE - 1) \<noteq> 0 then give_back b s1 else Inr s1
                | None \<Rightarrow> Inr s1) (\<lambda>s2.
         Inr (dead, s2\<lparr>blockIndex := None\<rparr>)))))"

section \<open>What can happen\<close>

definition newImplicitProducer :: "(entry \<Rightarrow> block option) \<Rightarrow> bool \<Rightarrow> (block \<Rightarrow> 'a Block) \<Rightarrow> nat \<Rightarrow> 'a ImplicitProducer" where
  "newImplicitProducer junk alloc blocks k =
     snd (new_block_index junk alloc \<lparr>tailIndex = 0, headIndex = 0, dequeueOptimisticCount = 0, dequeueOvercommit = 0, tailBlock = None,
       blockIndex = None, nextBlockIndexCapacity = IMPLICIT_INITIAL_INDEX_SIZE, ip_entries = \<lambda>_. (0, None), ip_next_entry = 0,
       ip_blocks = blocks, ip_used = {}, ip_enq = EIdle True, ip_deqs = replicate k (DIdle None), ip_in = [], ip_out = [], ip_tries = 0\<rparr>)"

text \<open>
  What the producer and \<open>k\<close> dequeuing threads can reach. A ring of more than \<open>2 ^ 59\<close> pointers of eight bytes is bigger
  than \<open>PTRDIFF_MAX\<close>, so \<open>malloc\<close> returns none; \<open>requisition_block\<close> returns no block that is in use.
\<close>

definition enq_may :: "bool \<Rightarrow> block option \<Rightarrow> 'a ImplicitProducer \<Rightarrow> bool" where
  "enq_may alloc pick s \<longleftrightarrow> (case ip_enq s of
     EEntry x cur \<Rightarrow> alloc \<longrightarrow> nextBlockIndexCapacity s \<le> 2 ^ 59 | EBlock x cur e \<Rightarrow> \<forall>b \<in> set_option pick. b \<notin> ip_used s | _ \<Rightarrow> True)"

inductive ip_reach :: "nat \<Rightarrow> 'a ImplicitProducer \<Rightarrow> bool" for k where
  start: "ip_reach k (newImplicitProducer junk alloc blocks k)"
| enqueue: "ip_reach k s \<Longrightarrow> ip_enq s = EIdle r \<Longrightarrow> ip_reach k (s\<lparr>ip_enq := ELoad x\<rparr>)"
| enq: "ip_reach k s \<Longrightarrow> enq_may alloc pick s \<Longrightarrow> enq_step junk alloc pick (ip_enq s) s = Inr s' \<Longrightarrow> ip_reach k s'"
| dequeue: "ip_reach k s \<Longrightarrow> i < k \<Longrightarrow> ip_deqs s ! i = DIdle r \<Longrightarrow> ip_reach k (deq_at i DTail s)"
| deq: "ip_reach k s \<Longrightarrow> i < k \<Longrightarrow> deq_step i (ip_deqs s ! i) s = Inr s' \<Longrightarrow> ip_reach k s'"

section \<open>Numbers do not wrap around\<close>

lemma unat_u64: "x < 2 ^ 64 \<Longrightarrow> unat (of_nat x :: u64) = x"
  by (simp add: unat_of_nat)

lemma unat_small: "x < 2 ^ 63 \<Longrightarrow> unat (of_nat x :: u64) = x"
  by (simp add: unat_u64)

lemma of_nat_inj: "x < 2 ^ 63 \<Longrightarrow> y < 2 ^ 63 \<Longrightarrow> (of_nat x :: u64) = of_nat y \<longleftrightarrow> x = y"
  using unat_small by metis

lemma circular_less_than_nat:
  assumes "x < 2 ^ 63" and "y < 2 ^ 63"
  shows "circular_less_than (of_nat x :: u64) (of_nat y) \<longleftrightarrow> x < y"
proof -
  have u: "uint (of_nat x :: u64) = int x" "uint (of_nat y :: u64) = int y" using assms by (simp_all add: uint_nat unat_u64)
  have "uint (of_nat x - of_nat y :: u64) = (if x < y then 2 ^ 64 - (int y - int x) else int x - int y)"
  proof (cases "x < y")
    case True
    have "(int x - int y + 2 ^ 64) mod 2 ^ 64 = int x - int y + 2 ^ 64" using assms True by (intro mod_pos_pos_trivial) simp_all
    then have "(int x - int y) mod 2 ^ 64 = int x - int y + 2 ^ 64" by (simp only: mod_add_self2)
    then show ?thesis using True u by (simp add: uint_word_ariths)
  next
    case False
    then show ?thesis using assms u by (simp add: uint_word_ariths mod_pos_pos_trivial)
  qed
  moreover have "uint (push_bit 63 1 :: u64) = 2 ^ 63" by simp
  ultimately show ?thesis using assms by (auto simp: circular_less_than_def word_less_def)
qed

lemma of_nat_sub: "y \<le> x \<Longrightarrow> (of_nat x - of_nat y :: u64) = of_nat (x - y)"
  by (simp add: of_nat_diff)

lemma and_not_mask: "(w :: u64) AND NOT (mask n) = w - (w AND mask n)"
proof -
  have "(w AND NOT (mask n)) + (w AND mask n) = w" by (subst disjunctive_add) (auto simp: bit_simps intro!: bit_word_eqI)
  then show ?thesis by (simp add: algebra_simps)
qed

lemma block_numbers:
  assumes "i < 2 ^ 63"
  shows "block_base (of_nat i) = of_nat (32 * (i div 32))" "block_slot (of_nat i) = i mod 32" "(of_nat i AND (BLOCK_SIZE - 1) = 0) = (i mod 32 = 0)"
proof -
  have m: "BLOCK_SIZE - 1 = mask 5" by (simp add: BLOCK_SIZE_def mask_eq_exp_minus_1)
  have t: "of_nat i AND mask 5 = (of_nat (i mod 32) :: u64)"
    by (simp add: take_bit_eq_mask [symmetric] take_bit_of_nat) (simp add: take_bit_eq_mod)
  have r: "unat (of_nat (i mod 32) :: u64) = i mod 32" by (rule unat_u64) (simp add: less_trans [OF mod_less_divisor])
  show "block_slot (of_nat i) = i mod 32" unfolding block_slot_def m t by (rule r)
  show "(of_nat i AND (BLOCK_SIZE - 1) = 0) = (i mod 32 = 0)" unfolding m t using r by (simp add: unat_eq_zero [symmetric] del: unat_eq_zero)
  have "(of_nat i :: u64) AND NOT (mask 5) = of_nat i - of_nat (i mod 32)" unfolding t [symmetric] by (rule and_not_mask)
  also have "\<dots> = of_nat (i - i mod 32)" by (simp add: of_nat_diff)
  finally show "block_base (of_nat i) = of_nat (32 * (i div 32))" unfolding block_base_def m by (simp add: minus_mod_eq_mult_div)
qed

section \<open>The counters\<close>

text \<open>
  Each increment of \<open>dequeueOptimisticCount\<close> has a number: those whose thread went on to the head are \<open>passed_on\<close>, those
  whose thread gave up and counted_out that are \<open>failed\<close>, those whose thread will do so are \<open>failing\<close>.
\<close>

record ip_ghost =
  passed_on :: "nat set"
  failed :: "nat set"
  failing :: "nat set"

definition failed_below :: "ip_ghost \<Rightarrow> nat \<Rightarrow> nat" where
  "failed_below g m = card {f \<in> failed g. f < m}"

definition deq_count :: "('a deq_pc \<Rightarrow> bool) \<Rightarrow> 'a ImplicitProducer \<Rightarrow> nat" where
  "deq_count Q s = length (filter Q (ip_deqs s))"

fun ctr_pc :: "ip_ghost \<Rightarrow> 'a ImplicitProducer \<Rightarrow> 'a deq_pc \<Rightarrow> bool" where
  "ctr_pc g s (DOver tail) \<longleftrightarrow> (\<exists>t \<le> length (ip_in s). tail = of_nat t)"
| "ctr_pc g s (DOpt tail over) \<longleftrightarrow> (\<exists>t \<le> length (ip_in s). tail = of_nat t) \<and> (\<exists>c \<le> card (failed g). over = of_nat c)"
| "ctr_pc g s (DAdd over) \<longleftrightarrow> (\<exists>c \<le> card (failed g). over = of_nat c)"
| "ctr_pc g s (DTail2 over my) \<longleftrightarrow> (\<exists>m < ip_tries s. my = of_nat m \<and> m \<notin> passed_on g \<union> failed g \<union> failing g \<and>
     (\<exists>c \<le> failed_below g m. over = of_nat c))"
| "ctr_pc g s _ \<longleftrightarrow> True"

fun try_of :: "'a deq_pc \<Rightarrow> u64 option" where
  "try_of (DTail2 over my) = Some my" | "try_of _ = None"

definition ctr_inv :: "nat \<Rightarrow> ip_ghost \<Rightarrow> 'a ImplicitProducer \<Rightarrow> bool" where
  "ctr_inv k g s \<longleftrightarrow> length (ip_deqs s) = k \<and> tailIndex s = of_nat (length (ip_in s)) \<and>
     dequeueOptimisticCount s = of_nat (ip_tries s) \<and> dequeueOvercommit s = of_nat (card (failed g)) \<and>
     passed_on g \<union> failed g \<union> failing g \<subseteq> {..<ip_tries s} \<and>
     passed_on g \<inter> failed g = {} \<and> passed_on g \<inter> failing g = {} \<and> failed g \<inter> failing g = {} \<and>
     card (passed_on g) = unat (headIndex s) + deq_count ((=) DHead) s \<and> card (failing g) = deq_count ((=) DUndo) s \<and>
     card (passed_on g) + card (failed g) + card (failing g) + deq_count (\<lambda>pc. try_of pc \<noteq> None) s = ip_tries s \<and>
     (\<forall>m \<in> passed_on g. m + 1 \<le> length (ip_in s) + failed_below g m) \<and>
     (\<forall>i < k. ctr_pc g s (ip_deqs s ! i)) \<and>
     (\<forall>i < k. \<forall>j < k. i \<noteq> j \<longrightarrow> try_of (ip_deqs s ! i) \<noteq> None \<longrightarrow> try_of (ip_deqs s ! i) \<noteq> try_of (ip_deqs s ! j))"

lemma filter_update:
  "i < length xs \<Longrightarrow> length (filter Q (xs[i := y])) + of_bool (Q (xs ! i)) = length (filter Q xs) + of_bool (Q y)"
proof (induction xs arbitrary: i)
  case (Cons x xs)
  show ?case
  proof (cases i)
    case (Suc j)
    then show ?thesis using Cons.IH [of j] Cons.prems by simp
  qed simp
qed simp

lemma deq_count_at: "i < length (ip_deqs s) \<Longrightarrow> deq_count Q (deq_at i pc s) + of_bool (Q (ip_deqs s ! i)) = deq_count Q s + of_bool (Q pc)"
  by (simp add: deq_count_def deq_at_def filter_update)

text \<open>The numbers that passed_on are no more than the elements.\<close>

lemma passed_bound:
  assumes "ctr_inv k g s"
  shows "card (passed_on g) \<le> length (ip_in s)"
proof (cases "passed_on g = {}")
  case False
  have sub: "passed_on g \<subseteq> {..<ip_tries s}" "failed g \<subseteq> {..<ip_tries s}" using assms by (auto simp: ctr_inv_def)
  then have fin: "finite (passed_on g)" "finite (failed g)" using finite_subset by blast+
  define m where "m = Max (passed_on g)"
  have m: "m \<in> passed_on g" "\<And>x. x \<in> passed_on g \<Longrightarrow> x \<le> m" using False fin by (auto simp: m_def)
  let ?f = "{f \<in> failed g. f < m}"
  have "passed_on g \<inter> ?f = {}" using assms by (auto simp: ctr_inv_def)
  then have "card (passed_on g) + card ?f = card (passed_on g \<union> ?f)" using fin by (subst card_Un_disjoint) auto
  also have "\<dots> \<le> card {..m}" using m(2) by (intro card_mono) auto
  finally have "card (passed_on g) + failed_below g m \<le> m + 1" by (simp add: failed_below_def)
  moreover have "m + 1 \<le> length (ip_in s) + failed_below g m" using assms m(1) by (auto simp: ctr_inv_def)
  ultimately show ?thesis by simp
qed simp

lemma ctr_head: "ctr_inv k g s \<Longrightarrow> unat (headIndex s) + deq_count ((=) DHead) s \<le> length (ip_in s)"
  using passed_bound [of k g s] by (simp add: ctr_inv_def)

definition small :: "'a ImplicitProducer \<Rightarrow> bool" where
  "small s \<longleftrightarrow> length (ip_in s) < 2 ^ 62 \<and> ip_tries s < 2 ^ 62"

lemma failed_below_mono: "failed g \<subseteq> failed g' \<Longrightarrow> finite (failed g') \<Longrightarrow> failed_below g m \<le> failed_below g' m"
  unfolding failed_below_def by (rule card_mono) auto

lemma ctr_pc_mono:
  assumes "ctr_pc g s pc" and "length (ip_in s) \<le> length (ip_in s')" and "ip_tries s \<le> ip_tries s'" and "failed g \<subseteq> failed g'"
    and "finite (failed g')" and "\<And>m. try_of pc = Some (of_nat m) \<Longrightarrow> m < ip_tries s \<Longrightarrow> m \<notin> passed_on g \<union> failed g \<union> failing g \<Longrightarrow>
      m \<notin> passed_on g' \<union> failed g' \<union> failing g'"
  shows "ctr_pc g' s' pc"
proof -
  have "card (failed g) \<le> card (failed g')" using assms(4,5) by (rule card_mono [rotated])
  moreover have "failed_below g m \<le> failed_below g' m" for m using assms(4,5) by (rule failed_below_mono)
  ultimately show ?thesis using assms by (cases pc) (auto intro: le_trans less_le_trans | meson le_trans less_le_trans)+
qed

lemma ctr_step:
  assumes inv: "ctr_inv k g s" and i: "i < k" and d: "ip_deqs s1 = ip_deqs s" and t: "tailIndex s1 = tailIndex s" "ip_in s1 = ip_in s"
    and opt: "dequeueOptimisticCount s1 = of_nat (ip_tries s1)" "ip_tries s \<le> ip_tries s1"
    and over: "dequeueOvercommit s1 = of_nat (card (failed g1))"
    and sets: "passed_on g1 \<union> failed g1 \<union> failing g1 \<subseteq> {..<ip_tries s1}" "failed g \<subseteq> failed g1" "passed_on g1 \<inter> failed g1 = {}"
      "passed_on g1 \<inter> failing g1 = {}" "failed g1 \<inter> failing g1 = {}"
    and head: "card (passed_on g1) + unat (headIndex s) + of_bool (ip_deqs s ! i = DHead) = card (passed_on g) + unat (headIndex s1) + of_bool (pc = DHead)"
    and undo: "card (failing g1) + of_bool (ip_deqs s ! i = DUndo) = card (failing g) + of_bool (pc = DUndo)"
    and cnt1: "ip_tries s1 + card (passed_on g) + card (failed g) + card (failing g) + of_bool (try_of (ip_deqs s ! i) \<noteq> None) =
      ip_tries s + card (passed_on g1) + card (failed g1) + card (failing g1) + of_bool (try_of pc \<noteq> None)"
    and ok: "\<And>m. m \<in> passed_on g1 \<Longrightarrow> m \<in> passed_on g \<or> m + 1 \<le> length (ip_in s) + failed_below g m" and pc: "ctr_pc g1 s1 pc"
    and new: "\<And>j m. j < k \<Longrightarrow> j \<noteq> i \<Longrightarrow> try_of (ip_deqs s ! j) = Some (of_nat m) \<Longrightarrow> m < ip_tries s \<Longrightarrow>
      m \<notin> passed_on g \<union> failed g \<union> failing g \<Longrightarrow> m \<notin> passed_on g1 \<union> failed g1 \<union> failing g1 \<and> try_of pc \<noteq> Some (of_nat m)"
  shows "ctr_inv k g1 (deq_at i pc s1)"
proof -
  have len: "length (ip_deqs s) = k" using inv by (simp add: ctr_inv_def)
  have fin: "finite (failed g1)" using sets(1) finite_subset by blast
  note cnt = deq_count_at [of i s1 _ pc, unfolded d len, OF i]
  have same: "deq_count Q s1 = deq_count Q s" for Q :: "'a deq_pc \<Rightarrow> bool" by (simp add: deq_count_def d)
  have pcs: "ctr_pc g1 (deq_at i pc s1) x = ctr_pc g1 s1 x" for x by (cases x) (simp_all add: deq_at_def)
  have others: "ctr_pc g1 s1 (ip_deqs s ! j)" if "j < k" "j \<noteq> i" for j
  proof (rule ctr_pc_mono [of g s])
    show "ctr_pc g s (ip_deqs s ! j)" using inv that by (simp add: ctr_inv_def)
  qed (use t opt sets fin new that in auto)
  have tries: "\<exists>m. try_of (ip_deqs s ! j) = Some (of_nat m) \<and> m < ip_tries s \<and> m \<notin> passed_on g \<union> failed g \<union> failing g"
    if "j < k" "try_of (ip_deqs s ! j) \<noteq> None" for j
  proof -
    have "ctr_pc g s (ip_deqs s ! j)" using inv that by (simp add: ctr_inv_def)
    then show ?thesis using that(2) by (cases "ip_deqs s ! j") auto
  qed
  show ?thesis
    unfolding ctr_inv_def pcs
  proof (intro conjI ballI allI impI)
    show "card (passed_on g1) = unat (headIndex (deq_at i pc s1)) + deq_count ((=) DHead) (deq_at i pc s1)"
      using cnt [of "(=) DHead"] head inv by (auto simp: deq_at_def same ctr_inv_def eq_commute [of DHead])
    show "card (failing g1) = deq_count ((=) DUndo) (deq_at i pc s1)"
      using cnt [of "(=) DUndo"] undo inv by (auto simp: deq_at_def same ctr_inv_def eq_commute [of DUndo])
    show "card (passed_on g1) + card (failed g1) + card (failing g1) + deq_count (\<lambda>pc. try_of pc \<noteq> None) (deq_at i pc s1) = ip_tries (deq_at i pc s1)"
      using cnt [of "\<lambda>pc. try_of pc \<noteq> None"] cnt1 inv unfolding ctr_inv_def same by (simp add: deq_at_def)
    show "m + 1 \<le> length (ip_in (deq_at i pc s1)) + failed_below g1 m" if "m \<in> passed_on g1" for m
      using ok [OF that] inv failed_below_mono [OF sets(2) fin, of m] t by (auto simp: deq_at_def ctr_inv_def dest!: bspec [of _ _ m])
    show "ctr_pc g1 s1 (ip_deqs (deq_at i pc s1) ! j)" if "j < k" for j
      using others [OF that] pc len that d by (cases "j = i") (simp_all add: deq_at_def)
    show "try_of (ip_deqs (deq_at i pc s1) ! a) \<noteq> try_of (ip_deqs (deq_at i pc s1) ! b)"
      if "a < k" "b < k" "a \<noteq> b" "try_of (ip_deqs (deq_at i pc s1) ! a) \<noteq> None" for a b
    proof -
      have at: "ip_deqs (deq_at i pc s1) ! j = (if j = i then pc else ip_deqs s ! j)" if "j < k" for j
        using that len d by (simp add: deq_at_def)
      have fresh: "try_of (ip_deqs s ! j) \<noteq> try_of pc" if "j < k" "j \<noteq> i" "try_of (ip_deqs s ! j) \<noteq> None" for j
        using tries [OF that(1,3)] new [OF that(1,2)] by metis
      have "try_of (ip_deqs s ! a) \<noteq> None \<Longrightarrow> try_of (ip_deqs s ! a) \<noteq> try_of (ip_deqs s ! b)" using inv that by (simp add: ctr_inv_def)
      then show ?thesis
        using that(3,4) fresh [of a, OF that(1)] fresh [of b, OF that(2)] unfolding at [OF that(1)] at [OF that(2)]
        by (cases "a = i"; cases "b = i") auto
    qed
  qed (use inv t opt over sets len d in \<open>auto simp: deq_at_def ctr_inv_def\<close>)
qed

text \<open>Steps that move no counter.\<close>

lemma ctr_move:
  assumes "ctr_inv k g s" and "i < k" and "ip_deqs s1 = ip_deqs s" and "tailIndex s1 = tailIndex s" and "ip_in s1 = ip_in s"
    and "dequeueOptimisticCount s1 = dequeueOptimisticCount s" and "ip_tries s1 = ip_tries s"
    and "dequeueOvercommit s1 = dequeueOvercommit s" and "headIndex s1 = headIndex s"
    and "ip_deqs s ! i \<noteq> DHead" and "ip_deqs s ! i \<noteq> DUndo" and "pc \<noteq> DHead" and "pc \<noteq> DUndo" and "ctr_pc g s pc" and "try_of pc = None"
    and "try_of (ip_deqs s ! i) = None"
  shows "ctr_inv k g (deq_at i pc s1)"
proof (rule ctr_step [OF assms(1,2,3,4,5)])
  show "ctr_pc g s1 pc" using assms(5,7,14) by (cases pc) simp_all
qed (use assms in \<open>auto simp: ctr_inv_def\<close>)

lemma ctr_tries:
  "ctr_inv k g s \<Longrightarrow> i < k \<Longrightarrow> j < k \<Longrightarrow> i \<noteq> j \<Longrightarrow> try_of (ip_deqs s ! i) \<noteq> None \<Longrightarrow> try_of (ip_deqs s ! i) \<noteq> try_of (ip_deqs s ! j)"
  by (simp add: ctr_inv_def)

lemma ctr_sets:
  assumes "ctr_inv k g s"
  shows "passed_on g \<union> failed g \<union> failing g \<subseteq> {..<ip_tries s}" "passed_on g \<inter> failed g = {}" "passed_on g \<inter> failing g = {}"
    "failed g \<inter> failing g = {}" "dequeueOptimisticCount s = of_nat (ip_tries s)" "dequeueOvercommit s = of_nat (card (failed g))"
    "tailIndex s = of_nat (length (ip_in s))"
  using assms by (simp_all add: ctr_inv_def)

lemma ctr_finite:
  assumes "ctr_inv k g s"
  shows "finite (passed_on g)" "finite (failed g)" "finite (failing g)" "failed_below g m \<le> m"
proof -
  have "finite (passed_on g \<union> failed g \<union> failing g)" using ctr_sets(1) [OF assms] finite_subset by blast
  then show "finite (passed_on g)" "finite (failed g)" "finite (failing g)" by simp_all
  show "failed_below g m \<le> m" using card_mono [of "{..<m}" "{f \<in> failed g. f < m}"] by (auto simp: failed_below_def)
qed

lemma deq_count_pos: "i < length (ip_deqs s) \<Longrightarrow> ip_deqs s ! i = pc \<Longrightarrow> 1 \<le> deq_count ((=) pc) s"
  using nth_mem [of i "ip_deqs s"] by (auto simp: deq_count_def Suc_le_eq filter_empty_conv)

lemma ctr_add:
  assumes inv: "ctr_inv k g s" and i: "i < k" and sm: "small s" and pc: "ip_deqs s ! i = DAdd over" "ctr_pc g s (DAdd over)"
  shows "ctr_inv k g (deq_at i (DTail2 over (dequeueOptimisticCount s)) (s\<lparr>dequeueOptimisticCount := dequeueOptimisticCount s + 1, ip_tries := ip_tries s + 1\<rparr>))"
proof (rule ctr_step [OF inv i])
  note S = ctr_sets [OF inv]
  let ?s = "s\<lparr>dequeueOptimisticCount := dequeueOptimisticCount s + 1, ip_tries := ip_tries s + 1\<rparr>"
  have "{f \<in> failed g. f < ip_tries s} = failed g" using S(1) by auto
  then have "failed_below g (ip_tries s) = card (failed g)" by (simp add: failed_below_def)
  moreover have "ip_tries s \<notin> passed_on g \<union> failed g \<union> failing g" using S(1) by blast
  moreover obtain c where "c \<le> card (failed g)" "over = of_nat c" using pc(2) by auto
  ultimately show "ctr_pc g ?s (DTail2 over (dequeueOptimisticCount s))"
    using S(5) by (simp, intro exI [of _ "ip_tries s"] conjI exI [of _ c]) simp_all
  show "m \<notin> passed_on g \<union> failed g \<union> failing g \<and> try_of (DTail2 over (dequeueOptimisticCount s)) \<noteq> Some (of_nat m)"
    if "m < ip_tries s" "m \<notin> passed_on g \<union> failed g \<union> failing g" for m
    using that S(5) sm of_nat_inj [of m "ip_tries s"] by (simp add: small_def)
  show "passed_on g \<union> failed g \<union> failing g \<subseteq> {..<ip_tries ?s}" using S(1) by auto
qed (use pc ctr_sets [OF inv] in simp_all)

lemma ctr_decide:
  assumes inv: "ctr_inv k g s" and i: "i < k" and sm: "small s" and pc: "ip_deqs s ! i = DTail2 over my" "ctr_pc g s (DTail2 over my)"
  shows "\<exists>g'. ctr_inv k g' (deq_at i (if circular_less_than (my - over) (tailIndex s) then DHead else DUndo) s)"
proof -
  note S = ctr_sets [OF inv] and F = ctr_finite [OF inv]
  obtain m c where m: "m < ip_tries s" "my = of_nat m" "m \<notin> passed_on g" "m \<notin> failed g" "m \<notin> failing g" "c \<le> failed_below g m" "over = of_nat c"
    using pc(2) by auto
  have d: "my - over = of_nat (m - c)" using m(2,6,7) F(4) [of m] of_nat_sub [of c m] by simp
  have cmp: "circular_less_than (my - over) (tailIndex s) \<longleftrightarrow> m - c < length (ip_in s)"
    unfolding d S(7) by (rule circular_less_than_nat) (use m(1) sm in \<open>auto simp: small_def\<close>)
  have new: "m' \<noteq> m" if "j < k" "j \<noteq> i" "try_of (ip_deqs s ! j) = Some (of_nat m')" for j m'
    using ctr_tries [OF inv i that(1)] that pc(1) m(2) by auto
  have "ctr_inv k (g\<lparr>passed_on := insert m (passed_on g)\<rparr>) (deq_at i DHead s)" if t: "m - c < length (ip_in s)"
  proof (rule ctr_step [OF inv i])
    show "x \<in> passed_on g \<or> x + 1 \<le> length (ip_in s) + failed_below g x" if "x \<in> passed_on (g\<lparr>passed_on := insert m (passed_on g)\<rparr>)" for x
      using that t m(6) by auto
  qed (use S F pc(1) m new in auto)
  moreover have "ctr_inv k (g\<lparr>failing := insert m (failing g)\<rparr>) (deq_at i DUndo s)"
    by (rule ctr_step [OF inv i]) (use S F pc(1) m new in auto)
  ultimately show ?thesis unfolding cmp by auto
qed

lemma ctr_undo:
  assumes inv: "ctr_inv k g s" and i: "i < k" and pc: "ip_deqs s ! i = DUndo"
  shows "\<exists>g'. ctr_inv k g' (deq_at i (DIdle None) (s\<lparr>dequeueOvercommit := dequeueOvercommit s + 1\<rparr>))"
proof -
  note S = ctr_sets [OF inv] and F = ctr_finite [OF inv]
  have "card (failing g) \<noteq> 0" using deq_count_pos [of i s DUndo] inv i pc by (simp add: ctr_inv_def)
  then obtain m where m: "m \<in> failing g" by fastforce
  then have c: "card (failing g - {m}) + 1 = card (failing g)" using F(3) card_Suc_Diff1 [of "failing g" m] by simp
  have n: "m \<notin> failed g" "m \<notin> passed_on g" "m < ip_tries s" using m S(1,3,4) by auto
  have "ctr_inv k (g\<lparr>failed := insert m (failed g), failing := failing g - {m}\<rparr>) (deq_at i (DIdle None) (s\<lparr>dequeueOvercommit := dequeueOvercommit s + 1\<rparr>))"
    by (rule ctr_step [OF inv i]) (use S F pc m n c in auto)
  then show ?thesis ..
qed

lemma ctr_claim:
  assumes inv: "ctr_inv k g s" and i: "i < k" and sm: "small s" and pc: "ip_deqs s ! i = DHead"
  shows "ctr_inv k g (deq_at i (DEntry (headIndex s)) (s\<lparr>headIndex := headIndex s + 1\<rparr>))"
    "unat (headIndex s) < length (ip_in s)" "unat (headIndex s + 1) = unat (headIndex s) + 1"
proof -
  have "length (ip_deqs s) = k" using inv by (simp add: ctr_inv_def)
  then have "1 \<le> deq_count ((=) DHead) s" using i pc by (intro deq_count_pos) auto
  then show lt: "unat (headIndex s) < length (ip_in s)" using ctr_head [OF inv] by simp
  then show u: "unat (headIndex s + 1) = unat (headIndex s) + 1"
    using sm unat_u64 [of "unat (headIndex s) + 1"] by (simp add: small_def add.commute)
  show "ctr_inv k g (deq_at i (DEntry (headIndex s)) (s\<lparr>headIndex := headIndex s + 1\<rparr>))"
    by (rule ctr_step [OF inv i]) (use ctr_sets [OF inv] pc u in auto)
qed

lemma ctr_deq:
  assumes inv: "ctr_inv k g s" and i: "i < k" and sm: "small s" and st: "deq_step i (ip_deqs s ! i) s = Inr s'"
  shows "\<exists>g'. ctr_inv k g' s'"
proof -
  have pc: "ctr_pc g s (ip_deqs s ! i)" using inv i by (simp add: ctr_inv_def)
  show ?thesis
  proof (cases "ip_deqs s ! i")
    case (DIdle r)
    then show ?thesis using st inv by auto
  next
    case DTail
    have "ctr_inv k g (deq_at i (DOver (tailIndex s)) s)" by (rule ctr_move [OF inv i]) (use DTail ctr_sets(7) [OF inv] in auto)
    then show ?thesis using st DTail by auto
  next
    case (DOver tail)
    have "ctr_inv k g (deq_at i (DOpt tail (dequeueOvercommit s)) s)"
      by (rule ctr_move [OF inv i]) (use DOver pc ctr_sets(6) [OF inv] in auto)
    then show ?thesis using st DOver by auto
  next
    case (DOpt tail over)
    have "ctr_inv k g (deq_at i (if circular_less_than (dequeueOptimisticCount s - over) tail then DAdd over else DIdle None) s)"
      by (rule ctr_move [OF inv i]) (use DOpt pc in auto)
    then show ?thesis using st DOpt by auto
  next
    case (DAdd over)
    then show ?thesis using st ctr_add [OF inv i sm] pc by auto
  next
    case (DTail2 over my)
    then show ?thesis using st ctr_decide [OF inv i sm] pc by auto
  next
    case DUndo
    then show ?thesis using st ctr_undo [OF inv i] by auto
  next
    case DHead
    then show ?thesis using st ctr_claim(1) [OF inv i sm] by auto
  qed (use st in \<open>auto intro!: exI [of _ g] ctr_move [OF inv i] simp: bindE_eq_Inr split: option.splits if_splits\<close>)
qed

end
