(* ===== verification/ProducerRing.thy ===== *)
theory ProducerRing
  imports ImplicitProducer
begin

text \<open>
  The producer of \<open>submodules/concurrentqueue/concurrentqueue.h\<close>, its blocks and its ring of entries: every element that is
  enqueued is found by exactly one of the threads that dequeue.
\<close>

unbundle bit_operations_syntax

section \<open>The ring\<close>

text \<open>
  \<open>counted_out\<close> are the elements whose removal their block has counted. \<open>blk\<close> and \<open>ent\<close> are the block and the
  entry of each block number, \<open>gone\<close> the numbers of the blocks that were given back, \<open>lo\<close> the smallest number
  whose entry was not used again, and \<open>off\<close> the place of number 0 in the ring.
\<close>

record blk_ghost =
  counted_out :: "nat set"
  blk :: "nat \<Rightarrow> block"
  ent :: "nat \<Rightarrow> entry"
  gone :: "nat set"
  lo :: nat
  off :: nat

definition slot_of :: "blk_ghost \<Rightarrow> BlockIndexHeader \<Rightarrow> nat \<Rightarrow> nat" where
  "slot_of g h n = (off g + n) mod capacity h"

definition header_ok :: "blk_ghost \<Rightarrow> nat \<Rightarrow> nat \<Rightarrow> BlockIndexHeader \<Rightarrow> 'a ImplicitProducer \<Rightarrow> bool" where
  "header_ok g nb ne h s \<longleftrightarrow> (\<exists>c. 1 \<le> c \<and> c \<le> 59 \<and> capacity h = 2 ^ c) \<and> length (bi_index h) = capacity h \<and> distinct (bi_index h) \<and>
     set (bi_index h) \<subseteq> {..<ip_next_entry s} \<and> nextBlockIndexCapacity s = 2 * capacity h \<and>
     bi_tail h = (off g + ne + capacity h - 1) mod capacity h \<and> ne \<le> lo g + capacity h \<and> lo g \<le> nb - 1 \<and>
     (\<forall>n. lo g \<le> n \<and> n < ne \<longrightarrow> bi_index h ! slot_of g h n = ent g n \<and> fst (ip_entries s (ent g n)) = of_nat (32 * n))"

definition ring_inv :: "blk_ghost \<Rightarrow> nat \<Rightarrow> nat \<Rightarrow> 'a ImplicitProducer \<Rightarrow> bool" where
  "ring_inv g nb ne s \<longleftrightarrow> (case blockIndex s of None \<Rightarrow> ne = 0 | Some h \<Rightarrow> header_ok g nb ne h s)"

lemma mod_window: "m < n \<Longrightarrow> n < m + C \<Longrightarrow> (a + m) mod C \<noteq> (a + n) mod (C :: nat)"
proof
  assume w: "m < n" "n < m + C" and e: "(a + m) mod C = (a + n) mod C"
  then have "C dvd (a + n) - (a + m)" by (intro mod_eq_dvd_iff_nat [THEN iffD1]) auto
  then show False using w by (auto dest: dvd_imp_le)
qed

lemma header_window:
  "header_ok g nb ne h s \<Longrightarrow> lo g \<le> n \<Longrightarrow> n < ne \<Longrightarrow> bi_index h ! slot_of g h n = ent g n \<and> fst (ip_entries s (ent g n)) = of_nat (32 * n)"
  by (simp add: header_ok_def)

lemma header_capacity: "header_ok g nb ne h s \<Longrightarrow> 2 \<le> capacity h"
proof -
  assume "header_ok g nb ne h s"
  then obtain c where "1 \<le> c" "capacity h = 2 ^ c" by (auto simp: header_ok_def)
  then show ?thesis using power_increasing [of 1 c "2 :: nat"] by simp
qed

lemma slot_distinct: "header_ok g nb ne h s \<Longrightarrow> slot_of g h m \<noteq> slot_of g h n \<Longrightarrow> bi_index h ! slot_of g h m \<noteq> bi_index h ! slot_of g h n"
  using header_capacity [of g nb ne h s] by (simp add: header_ok_def slot_of_def nth_eq_iff_index_eq)

lemma ent_window:
  assumes "header_ok g nb ne h s" and "lo g \<le> m" and "m < ne" and "lo g \<le> n" and "n < ne" and "ent g m = ent g n"
  shows "m = n"
proof (rule ccontr)
  assume ne: "m \<noteq> n"
  have "slot_of g h m \<noteq> slot_of g h n"
    using ne mod_window [of m n "capacity h" "off g"] mod_window [of n m "capacity h" "off g"] assms(1-5)
    by (cases "m < n") (auto simp: header_ok_def slot_of_def)
  moreover have "bi_index h ! slot_of g h m = bi_index h ! slot_of g h n" using assms by (simp add: header_ok_def)
  ultimately show False using slot_distinct [OF assms(1)] by blast
qed

text \<open>Searching: the unsigned quotient is right modulo the capacity.\<close>

lemma unsigned_offset:
  assumes "n \<le> t" and "32 * t < 2 ^ 63"
  shows "unat ((of_nat (32 * n) - of_nat (32 * t) :: u64) div BLOCK_SIZE) = (if n = t then 0 else 2 ^ 59 - (t - n))"
proof (cases "n = t")
  case False
  define d where "d = t - n"
  have d: "0 < d" "d < 2 ^ 58" using assms False by (auto simp: d_def)
  have "(of_nat (32 * n) - of_nat (32 * t) :: u64) = - of_nat (32 * d)" using assms(1) by (simp add: d_def of_nat_diff algebra_simps)
  also have "\<dots> = of_nat (2 ^ 64 - 32 * d)"
  proof -
    have "of_nat (2 ^ 64 - 32 * d) + of_nat (32 * d) = (of_nat (2 ^ 64) :: u64)" using d by (simp only: of_nat_add [symmetric]) simp
    also have "(of_nat (2 ^ 64) :: u64) = 0" by simp
    finally show ?thesis by (simp add: add_eq_0_iff)
  qed
  finally have e: "(of_nat (32 * n) - of_nat (32 * t) :: u64) = of_nat (2 ^ 64 - 32 * d)" .
  have "unat (of_nat (32 * n) - of_nat (32 * t) :: u64) = 2 ^ 64 - 32 * d" unfolding e by (rule unat_u64) (use d in simp)
  then have "unat ((of_nat (32 * n) - of_nat (32 * t) :: u64) div BLOCK_SIZE) = (2 ^ 64 - 32 * d) div 32"
    by (simp add: unat_div_distrib BLOCK_SIZE_def)
  also have "\<dots> = (32 * (2 ^ 59 - d)) div 32" using d by (simp add: diff_mult_distrib2)
  finally show ?thesis using False by (simp add: d_def)
qed (simp add: BLOCK_SIZE_def)

lemma tail_slot:
  assumes "header_ok g nb ne h s" and "0 < ne"
  shows "bi_tail h = slot_of g h (ne - 1)"
proof -
  have "bi_tail h = (off g + (ne - 1) + capacity h) mod capacity h" using assms by (simp add: header_ok_def)
  then show ?thesis by (simp add: slot_of_def)
qed

lemma wide_mod:
  assumes "C dvd 2 ^ 59" and "d \<le> 2 ^ 59" and "d \<le> b"
  shows "((a + b) mod C + (2 ^ 59 - d)) mod C = (a + (b - d)) mod (C :: nat)"
proof -
  have "((a + b) mod C + (2 ^ 59 - d)) mod C = (a + b + (2 ^ 59 - d)) mod C" by (simp add: mod_add_left_eq)
  also have "a + b + (2 ^ 59 - d) = a + (b - d) + 2 ^ 59" using assms(2,3) by simp
  finally have e: "((a + b) mod C + (2 ^ 59 - d)) mod C = (a + (b - d) + 2 ^ 59) mod C" .
  from assms(1) obtain q where "(2 :: nat) ^ 59 = C * q" ..
  then show ?thesis unfolding e by (simp only: mod_mult_self2)
qed

lemma unat_add_small: "a + unat w < 2 ^ 64 \<Longrightarrow> unat (of_nat a + w :: u64) = a + unat w"
  using unat_u64 [of "a + unat w"] by simp

lemma ring_lookup:
  assumes "ring_inv g nb ne s" and "lo g \<le> n" and "n < ne" and "32 * ne < 2 ^ 63" and "snd (ip_entries s (ent g n)) \<noteq> None"
    and "i div 32 = n" and "i < 2 ^ 63"
  shows "get_block_index_entry_for_index (of_nat i) s = Inr (ent g n)"
proof -
  obtain h where b: "blockIndex s = Some h" and h: "header_ok g nb ne h s"
    using assms(1,3) by (cases "blockIndex s") (auto simp: ring_inv_def)
  then obtain c where c: "c \<le> 59" "capacity h = 2 ^ c" by (auto simp: header_ok_def)
  let ?t = "ne - 1"
  have tb: "fst (ip_entries s (bi_index h ! bi_tail h)) = of_nat (32 * ?t)" and key: "fst (ip_entries s (ent g n)) = of_nat (32 * n)"
    and slot: "bi_index h ! slot_of g h n = ent g n"
    using header_window [OF h, of n] header_window [OF h, of ?t] assms(2,3) tail_slot [OF h] by auto
  have valid: "(of_nat (32 * ?t) :: u64) \<noteq> INVALID_BLOCK_BASE"
    using of_nat_inj [of "32 * ?t" 1] assms(4) by (simp add: INVALID_BLOCK_BASE_def)
  let ?o = "(of_nat (32 * n) - of_nat (32 * ?t) :: u64) div BLOCK_SIZE"
  have o: "unat ?o = (if n = ?t then 0 else 2 ^ 59 - (?t - n))" by (rule unsigned_offset) (use assms(3,4) in auto)
  have tl: "bi_tail h < 2 ^ 59" using h c power_increasing [of c 59 "2 :: nat"] by (simp add: header_ok_def less_le_trans [OF mod_less_divisor])
  moreover have "unat ?o \<le> 2 ^ 59" unfolding o by simp
  ultimately have u: "unat (of_nat (bi_tail h) + ?o) = bi_tail h + unat ?o" by (intro unat_add_small) simp
  have t: "bi_tail h = (off g + ?t) mod capacity h" using tail_slot [OF h] assms(3) by (simp add: slot_of_def)
  have dvd: "capacity h dvd 2 ^ 59" unfolding c(2) using c(1) by (rule le_imp_power_dvd)
  have "unat (of_nat (bi_tail h) + ?o) mod capacity h = slot_of g h n"
  proof (cases "n = ?t")
    case True
    then have "unat ?o = 0" using o by simp
    then show ?thesis using True t unfolding u by (simp only: slot_of_def add_0_right mod_mod_trivial)
  next
    case False
    have "((off g + ?t) mod capacity h + (2 ^ 59 - (?t - n))) mod capacity h = (off g + (?t - (?t - n))) mod capacity h"
      by (rule wide_mod [OF dvd]) (use assms(3,4) in auto)
    also have "?t - (?t - n) = n" using assms(3) by simp
    finally show ?thesis using False t o unfolding u by (simp only: slot_of_def if_False)
  qed
  then show ?thesis
    using b tb key slot valid assms(5-7) block_numbers(1) [of i] by (simp add: get_block_index_entry_for_index_def Let_def)
qed

text \<open>Entering a block number at a place that is not in use.\<close>

lemma new_tail_slot:
  assumes "header_ok g nb ne h s"
  shows "bi_new_tail h = slot_of g h ne"
proof -
  have C: "0 < capacity h" using header_capacity [OF assms] by simp
  have "bi_new_tail h = (off g + ne + capacity h - 1 + 1) mod capacity h"
    using assms mod_add_left_eq [of "off g + ne + capacity h - 1" "capacity h" 1] by (simp only: header_ok_def bi_new_tail_def)
  also have "off g + ne + capacity h - 1 + 1 = off g + ne + capacity h" using C by simp
  finally show ?thesis by (simp add: slot_of_def)
qed

lemma enter_ok:
  assumes h: "header_ok g nb nb h s" and e: "e = bi_index h ! bi_new_tail h" and s1: "ip_entries s1 e = (of_nat (32 * nb), snd (ip_entries s e))"
    "\<And>x. x \<noteq> e \<Longrightarrow> ip_entries s1 x = ip_entries s x" "ip_next_entry s1 = ip_next_entry s" "nextBlockIndexCapacity s1 = nextBlockIndexCapacity s"
    and l: "l = max (lo g) (nb + 1 - capacity h)"
  shows "header_ok (g\<lparr>ent := (ent g)(nb := e), lo := l\<rparr>) nb (nb + 1) (h\<lparr>bi_tail := bi_new_tail h\<rparr>) s1"
proof -
  let ?g = "g\<lparr>ent := (ent g)(nb := e), lo := l\<rparr>" and ?h = "h\<lparr>bi_tail := bi_new_tail h\<rparr>"
  have C: "2 \<le> capacity h" by (rule header_capacity [OF h])
  have slots: "slot_of ?g ?h n = slot_of g h n" for n by (simp add: slot_of_def)
  have "bi_index ?h ! slot_of ?g ?h n = ent ?g n \<and> fst (ip_entries s1 (ent ?g n)) = of_nat (32 * n)" if n: "l \<le> n" "n < nb + 1" for n
  proof (cases "n = nb")
    case True
    then show ?thesis using e s1(1) new_tail_slot [OF h] by (simp add: slot_of_def)
  next
    case False
    then have m: "lo g \<le> n" "n < nb" "nb < n + capacity h" using n l C by auto
    note w = header_window [OF h m(1,2)]
    have "slot_of g h n \<noteq> slot_of g h nb" using mod_window [OF m(2,3), of "off g"] by (simp add: slot_of_def)
    then have "ent g n \<noteq> e"
      using slot_distinct [OF h] e w new_tail_slot [OF h] by metis
    then show ?thesis using w False s1(2) by (simp add: slots slot_of_def)
  qed
  moreover have "bi_new_tail h = (off g + (nb + 1) + capacity h - 1) mod capacity h"
    unfolding new_tail_slot [OF h] slot_of_def by (simp add: mod_add_self2 [symmetric, of "off g + nb" "capacity h"] del: mod_add_self2)
  moreover have "nb + 1 \<le> l + capacity h" "l \<le> nb - 1" using h l C by (auto simp: header_ok_def)
  ultimately show ?thesis using h s1(3,4) unfolding header_ok_def by (simp add: slot_of_def)
qed

lemma free_place:
  assumes h: "header_ok g nb nb h s" and e: "e = bi_index h ! bi_new_tail h" "fst (ip_entries s e) = INVALID_BLOCK_BASE \<or> snd (ip_entries s e) = None"
    and n: "lo g \<le> n" "n < nb" "ip_entries s (ent g n) = (of_nat (32 * n), Some b)" and small: "32 * nb < 2 ^ 63"
  shows "nb + 1 - capacity h \<le> n" "ent g n \<noteq> e"
proof -
  have "(of_nat (32 * n) :: u64) \<noteq> INVALID_BLOCK_BASE"
    using of_nat_inj [of "32 * n" 1] n(2) small by (simp add: INVALID_BLOCK_BASE_def)
  then show ne: "ent g n \<noteq> e" using e(2) n(3) by auto
  show "nb + 1 - capacity h \<le> n"
  proof (rule ccontr)
    assume "\<not> ?thesis"
    then have "n + capacity h = nb" using h n(1) by (auto simp: header_ok_def)
    then have "slot_of g h n = slot_of g h nb" by (auto simp: slot_of_def add.assoc [symmetric])
    then show False using ne header_window [OF h n(1,2)] new_tail_slot [OF h] e(1) by simp
  qed
qed

text \<open>A ring of twice the size.\<close>

lemma rotated_distinct:
  assumes "distinct xs" and "length xs = C" and "0 < C"
  shows "distinct (map (\<lambda>i. xs ! ((t + i) mod C)) [0..<C])"
proof -
  have "i = j" if "i < C" "j < C" "xs ! ((t + i) mod C) = xs ! ((t + j) mod C)" for i j
  proof (rule ccontr)
    assume "i \<noteq> j"
    then have "(t + i) mod C \<noteq> (t + j) mod C" using mod_window [of i j C t] mod_window [of j i C t] that(1,2) by (cases "i < j") auto
    then show False using that(3) assms by (simp add: nth_eq_iff_index_eq)
  qed
  then show ?thesis by (auto simp: distinct_map inj_on_def)
qed

lemma grown_slot:
  assumes "l \<le> n" and "n < nb" and "nb \<le> l + (C :: nat)"
  shows "(C + (2 * C - 1) * nb + n) mod (2 * C) = C - (nb - n)"
proof -
  have "C + (2 * C - 1) * nb + n = C - (nb - n) + 2 * C * nb"
  proof -
    have "(2 * C - 1) * nb + nb = 2 * C * nb" using assms by (cases C) simp_all
    then show ?thesis using assms by linarith
  qed
  then have "(C + (2 * C - 1) * nb + n) mod (2 * C) = (C - (nb - n)) mod (2 * C)" by simp
  then show ?thesis using assms by simp
qed

lemma grow_ok:
  assumes h: "header_ok g nb nb h s" and b: "blockIndex s = Some h" and cap: "nextBlockIndexCapacity s \<le> 2 ^ 59"
    and n: "new_block_index junk True s = (True, s1)" and g1: "g1 = g\<lparr>off := capacity h + (2 * capacity h - 1) * nb\<rparr>"
  obtains h1 where "blockIndex s1 = Some h1" "header_ok g1 nb nb h1 s1" "capacity h1 = 2 * capacity h" "set (bi_index h) \<subseteq> {..<ip_next_entry s}"
    "fst (ip_entries s1 (bi_index h1 ! bi_new_tail h1)) = INVALID_BLOCK_BASE" "\<And>e. e < ip_next_entry s \<Longrightarrow> ip_entries s1 e = ip_entries s e"
    "bi_index h1 ! bi_new_tail h1 \<notin> set (bi_index h)"
proof -
  let ?C = "capacity h" and ?e0 = "ip_next_entry s"
  have C: "2 \<le> ?C" by (rule header_capacity [OF h])
  have idx: "length (bi_index h) = ?C" "distinct (bi_index h)" "set (bi_index h) \<subseteq> {..<?e0}" "nextBlockIndexCapacity s = 2 * ?C" "nb \<le> lo g + ?C"
    using h by (simp_all add: header_ok_def)
  obtain c where c: "?C = 2 ^ c" using h by (auto simp: header_ok_def)
  define old where "old = map (\<lambda>i. bi_index h ! ((bi_tail h + 1 + i) mod ?C)) [0..<?C]"
  define h1 where "h1 = \<lparr>capacity = 2 * ?C, bi_tail = (?C + 2 * ?C - 1) mod (2 * ?C), bi_index = old @ [?e0..<?e0 + ?C]\<rparr>"
  have s1: "s1 = s\<lparr>ip_entries := (\<lambda>e. if ?e0 \<le> e \<and> e < ?e0 + ?C then (INVALID_BLOCK_BASE, junk e) else ip_entries s e),
      ip_next_entry := ?e0 + ?C, blockIndex := Some h1, nextBlockIndexCapacity := 2 * (2 * ?C)\<rparr>"
    using n b idx(4) by (simp add: new_block_index_def h1_def old_def Let_def)
  have set_old: "set old \<subseteq> {..<?e0}" using idx(1,3) C nth_mem [of _ "bi_index h"] by (auto simp: old_def subset_iff)
  have bi: "distinct (bi_index h1)" "length (bi_index h1) = 2 * ?C" "set (bi_index h1) \<subseteq> {..<?e0 + ?C}"
    using rotated_distinct [OF idx(2,1), of "bi_tail h + 1"] set_old C by (auto simp: h1_def old_def)
  have tl: "bi_tail h1 = ?C - 1"
  proof -
    have e: "?C + 2 * ?C - 1 = ?C - 1 + 2 * ?C" using C by simp
    have "bi_tail h1 = (?C - 1) mod (2 * ?C)" unfolding h1_def BlockIndexHeader.select_convs e by (rule mod_add_self2)
    then show ?thesis using C by simp
  qed
  then have nt: "bi_new_tail h1 = ?C" using C by (simp add: bi_new_tail_def h1_def)
  have nte: "bi_index h1 ! bi_new_tail h1 = ?e0" unfolding nt using C by (simp add: h1_def old_def nth_append)
  have w: "bi_index h1 ! slot_of g1 h1 n = ent g n \<and> fst (ip_entries s1 (ent g n)) = of_nat (32 * n)" if m: "lo g \<le> n" "n < nb" for n
  proof -
    have at: "bi_index h1 ! i = bi_index h ! ((bi_tail h + 1 + i) mod ?C)" if "i < ?C" for i using that by (simp add: h1_def old_def nth_append)
    have "slot_of g1 h1 n = ?C - (nb - n)" using grown_slot [OF m idx(5)] by (simp add: slot_of_def g1 h1_def)
    moreover have "?C - (nb - n) < ?C" using m C idx(5) by simp
    ultimately have "bi_index h1 ! slot_of g1 h1 n = bi_index h ! ((bi_tail h + 1 + (?C - (nb - n))) mod ?C)" using at by (simp only:)
    also have "(bi_tail h + 1 + (?C - (nb - n))) mod ?C = slot_of g h n"
    proof -
      have "bi_tail h + 1 + (?C - (nb - n)) = bi_tail h + (?C + 1 - (nb - n))" using m idx(5) C by simp
      moreover have "(bi_tail h + (?C + 1 - (nb - n))) mod ?C = (off g + nb + ?C - 1 + (?C + 1 - (nb - n))) mod ?C"
        using h by (simp add: header_ok_def mod_add_left_eq)
      moreover have "off g + nb + ?C - 1 + (?C + 1 - (nb - n)) = off g + n + ?C + ?C" using m idx(5) C by simp
      ultimately show ?thesis by (simp only: slot_of_def mod_add_self2)
    qed
    also have "bi_index h ! slot_of g h n = ent g n" using header_window [OF h m] by simp
    finally have e: "bi_index h1 ! slot_of g1 h1 n = ent g n" .
    have "slot_of g h n < length (bi_index h)" using C idx(1) by (simp add: slot_of_def)
    from nth_mem [OF this] have "ent g n \<in> set (bi_index h)" using header_window [OF h m] by simp
    then have "ent g n < ?e0" using idx(3) by blast
    then show ?thesis using e header_window [OF h m] by (simp add: s1)
  qed
  have "header_ok g1 nb nb h1 s1"
    unfolding header_ok_def
  proof (intro conjI allI impI)
    have "(2 :: nat) ^ (c + 1) \<le> 2 ^ 59" using cap c idx(4) by simp
    then have "c + 1 \<le> 59" by (rule power_le_imp_le_exp [rotated]) simp
    then show "\<exists>c. 1 \<le> c \<and> c \<le> 59 \<and> capacity h1 = 2 ^ c" using c by (intro exI [of _ "c + 1"]) (simp add: h1_def)
    have "(?C + (2 * ?C - 1) * nb + nb) = ?C + 2 * ?C * nb" using C by (cases ?C) simp_all
    then have "off g1 + nb + capacity h1 - 1 = ?C - 1 + 2 * ?C * (nb + 1)" using C by (simp add: g1 h1_def)
    moreover have "capacity h1 = 2 * ?C" by (simp add: h1_def)
    ultimately have "(off g1 + nb + capacity h1 - 1) mod capacity h1 = (?C - 1) mod (2 * ?C)" by (simp only: mod_mult_self2)
    then show "bi_tail h1 = (off g1 + nb + capacity h1 - 1) mod capacity h1" using tl C by simp
  qed (use bi idx h w in \<open>auto simp: s1 g1 h1_def header_ok_def\<close>)
  then show thesis
    by (rule that [of h1, rotated]) (use idx(3) nte C in \<open>auto simp: s1 h1_def\<close>)
qed


text \<open>Inserting the next block number, going back on that, and what else the ring does not depend on.\<close>

lemma ring_grown:
  assumes h: "header_ok g nb nb h s" and Some: "blockIndex s = Some h" and cap: "nextBlockIndexCapacity s \<le> 2 ^ 59"
    and full: "fst (ip_entries s (bi_index h ! bi_new_tail h)) \<noteq> INVALID_BLOCK_BASE" "snd (ip_entries s (bi_index h ! bi_new_tail h)) \<noteq> None"
    and L: "\<And>n. n \<in> L \<Longrightarrow> lo g \<le> n \<and> n < nb"
  shows "\<exists>e l d E N B M. insert_block_index_entry junk True (of_nat (32 * nb)) s =
        Inr (Some e, s\<lparr>ip_entries := E, ip_next_entry := N, blockIndex := B, nextBlockIndexCapacity := M\<rparr>) \<and>
      ring_inv (g\<lparr>off := d, ent := (ent g)(nb := e), lo := l\<rparr>) nb (nb + 1)
        (s\<lparr>ip_entries := E, ip_next_entry := N, blockIndex := B, nextBlockIndexCapacity := M\<rparr>) \<and>
      (\<forall>n \<in> L. l \<le> n \<and> E (ent g n) = ip_entries s (ent g n))"
proof -
  define s1 where "s1 = snd (new_block_index junk True s)"
  have n: "new_block_index junk True s = (True, s1)" by (simp add: s1_def new_block_index_def Let_def)
  define d where "d = capacity h + (2 * capacity h - 1) * nb"
  obtain h1 where h1: "blockIndex s1 = Some h1" "header_ok (g\<lparr>off := d\<rparr>) nb nb h1 s1" "capacity h1 = 2 * capacity h"
    "fst (ip_entries s1 (bi_index h1 ! bi_new_tail h1)) = INVALID_BLOCK_BASE" "\<And>e. e < ip_next_entry s \<Longrightarrow> ip_entries s1 e = ip_entries s e"
    "bi_index h1 ! bi_new_tail h1 \<notin> set (bi_index h)" "set (bi_index h) \<subseteq> {..<ip_next_entry s}"
    using grow_ok [OF h Some cap n refl] unfolding d_def by metis
  let ?e1 = "bi_index h1 ! bi_new_tail h1" and ?B = "Some (h1\<lparr>bi_tail := bi_new_tail h1\<rparr>)"
  define E where "E = (ip_entries s1)(?e1 := (of_nat (32 * nb), snd (ip_entries s1 ?e1)))"
  let ?s = "s\<lparr>ip_entries := E, ip_next_entry := ip_next_entry s1, blockIndex := ?B, nextBlockIndexCapacity := nextBlockIndexCapacity s1\<rparr>"
  define l where "l = max (lo (g\<lparr>off := d\<rparr>)) (nb + 1 - capacity h1)"
  have "header_ok (g\<lparr>off := d\<rparr>\<lparr>ent := (ent (g\<lparr>off := d\<rparr>))(nb := ?e1), lo := l\<rparr>) nb (nb + 1) (h1\<lparr>bi_tail := bi_new_tail h1\<rparr>) ?s"
    by (rule enter_ok [OF h1(2) refl _ _ _ _ l_def]) (simp_all add: E_def)
  then have "ring_inv (g\<lparr>off := d, ent := (ent g)(nb := ?e1), lo := l\<rparr>) nb (nb + 1) ?s" by (simp add: ring_inv_def)
  moreover have "l \<le> n \<and> E (ent g n) = ip_entries s (ent g n)" if "n \<in> L" for n
  proof -
    have w: "lo g \<le> n" "n < nb" using L [OF that] by auto
    have "nb \<le> lo g + capacity h" using h by (simp add: header_ok_def)
    then have "nb + 1 - 2 * capacity h \<le> lo g" using header_capacity [OF h] by simp
    then have "l \<le> n" using w(1) h1(3) by (simp add: l_def)
    moreover have "slot_of g h n < length (bi_index h)" using h header_capacity [OF h] by (simp add: header_ok_def slot_of_def)
    from nth_mem [OF this] have m: "ent g n \<in> set (bi_index h)" using header_window [OF h w] by simp
    have "ent g n \<noteq> ?e1" using m h1(6) by auto
    moreover have "ent g n < ip_next_entry s" using m h1(7) by auto
    ultimately show ?thesis using h1(5) by (simp add: E_def)
  qed
  moreover have s1': "?s = bi_enter h1 (of_nat (32 * nb)) s1"
    unfolding bi_enter_def Let_def E_def s1_def new_block_index_def by simp
  have "insert_block_index_entry junk True (of_nat (32 * nb)) s = Inr (Some ?e1, ?s)"
    unfolding s1' using Some full n h1(1,4) by (auto simp: insert_block_index_entry_def Let_def)
  ultimately show ?thesis by blast
qed

lemma ring_insert:
  assumes r: "ring_inv g nb nb s" and cap: "alloc \<Longrightarrow> nextBlockIndexCapacity s \<le> 2 ^ 59" and small: "32 * nb < 2 ^ 63"
    and L: "\<And>n. n \<in> L \<Longrightarrow> lo g \<le> n \<and> n < nb \<and> ip_entries s (ent g n) = (of_nat (32 * n), Some (b n))"
  shows "insert_block_index_entry junk alloc (of_nat (32 * nb)) s = Inr (None, s) \<or>
    (\<exists>e l d E N B M. insert_block_index_entry junk alloc (of_nat (32 * nb)) s =
        Inr (Some e, s\<lparr>ip_entries := E, ip_next_entry := N, blockIndex := B, nextBlockIndexCapacity := M\<rparr>) \<and>
      ring_inv (g\<lparr>off := d, ent := (ent g)(nb := e), lo := l\<rparr>) nb (nb + 1)
        (s\<lparr>ip_entries := E, ip_next_entry := N, blockIndex := B, nextBlockIndexCapacity := M\<rparr>) \<and>
      (\<forall>n \<in> L. l \<le> n \<and> E (ent g n) = ip_entries s (ent g n)))"
proof (cases "blockIndex s")
  case (Some h)
  then have h: "header_ok g nb nb h s" using r by (simp add: ring_inv_def)
  let ?e = "bi_index h ! bi_new_tail h"
  show ?thesis
  proof (cases "fst (ip_entries s ?e) = INVALID_BLOCK_BASE \<or> snd (ip_entries s ?e) = None")
    case True
    define E where "E = (ip_entries s)(?e := (of_nat (32 * nb), snd (ip_entries s ?e)))"
    define l where "l = max (lo g) (nb + 1 - capacity h)"
    let ?B = "Some (h\<lparr>bi_tail := bi_new_tail h\<rparr>)"
    let ?s = "s\<lparr>ip_entries := E, ip_next_entry := ip_next_entry s, blockIndex := ?B, nextBlockIndexCapacity := nextBlockIndexCapacity s\<rparr>"
    have "header_ok (g\<lparr>ent := (ent g)(nb := ?e), lo := l\<rparr>) nb (nb + 1) (h\<lparr>bi_tail := bi_new_tail h\<rparr>) ?s"
      by (rule enter_ok [OF h refl _ _ _ _ l_def]) (simp_all add: E_def)
    then have "ring_inv (g\<lparr>off := off g, ent := (ent g)(nb := ?e), lo := l\<rparr>) nb (nb + 1) ?s" by (simp add: ring_inv_def)
    moreover have "l \<le> n \<and> E (ent g n) = ip_entries s (ent g n)" if "n \<in> L" for n
      using free_place [OF h refl True _ _ _ small, of n "b n"] L [OF that] by (simp add: l_def E_def)
    moreover have "insert_block_index_entry junk alloc (of_nat (32 * nb)) s = Inr (Some ?e, ?s)"
      using Some True by (simp add: insert_block_index_entry_def bi_enter_def Let_def E_def)
    ultimately show ?thesis by blast
  next
    case False
    show ?thesis
    proof (cases alloc)
      case True
      then have a: "alloc = True" by simp
      show ?thesis unfolding a by (intro disjI2 ring_grown [OF h Some cap [OF True]]) (use False L in auto)
    next
      case False': False
      then show ?thesis using Some False by (auto simp: insert_block_index_entry_def new_block_index_def Let_def)
    qed
  qed
qed (simp add: insert_block_index_entry_def)

lemma ring_rewind:
  assumes r: "ring_inv g nb (nb + 1) s"
  obtains B where "rewind_block_index_tail s = Inr (s\<lparr>blockIndex := B\<rparr>)" "ring_inv g nb nb (s\<lparr>blockIndex := B\<rparr>)"
proof -
  obtain h where b: "blockIndex s = Some h" and h: "header_ok g nb (nb + 1) h s" using r by (cases "blockIndex s") (auto simp: ring_inv_def)
  define h1 where "h1 = h\<lparr>bi_tail := (bi_tail h + capacity h - 1) mod capacity h\<rparr>"
  have C: "2 \<le> capacity h" by (rule header_capacity [OF h])
  have "bi_tail h = (off g + nb) mod capacity h" using tail_slot [OF h] by (simp add: slot_of_def)
  then have "bi_tail h1 = ((off g + nb) mod capacity h + (capacity h - 1)) mod capacity h" using C by (simp add: h1_def)
  also have "\<dots> = (off g + nb + (capacity h - 1)) mod capacity h" by (rule mod_add_left_eq)
  finally have "bi_tail h1 = (off g + nb + capacity h - 1) mod capacity h" using C by simp
  then have "header_ok g nb nb h1 (s\<lparr>blockIndex := Some h1\<rparr>)" using h by (simp add: header_ok_def h1_def slot_of_def)
  then have "ring_inv g nb nb (s\<lparr>blockIndex := Some h1\<rparr>)" by (simp add: ring_inv_def)
  moreover have "rewind_block_index_tail s = Inr (s\<lparr>blockIndex := Some h1\<rparr>)" by (simp add: rewind_block_index_tail_def b h1_def)
  ultimately show thesis using that by blast
qed

lemma ring_last:
  assumes r: "ring_inv g nb (nb + 1) s"
  shows "lo g \<le> nb" "fst (ip_entries s (ent g nb)) = of_nat (32 * nb)" "lo g \<le> n \<Longrightarrow> n < nb \<Longrightarrow> ent g n \<noteq> ent g nb"
proof -
  obtain h where h: "header_ok g nb (nb + 1) h s" using r by (cases "blockIndex s") (auto simp: ring_inv_def)
  then show "lo g \<le> nb" by (auto simp: header_ok_def)
  then show "fst (ip_entries s (ent g nb)) = of_nat (32 * nb)" using header_window [OF h, of nb] by simp
  show "ent g n \<noteq> ent g nb" if "lo g \<le> n" "n < nb" using ent_window [OF h that(1), of nb] that h by (auto simp: header_ok_def)
qed

lemma ring_frame:
  assumes "ring_inv g nb ne s" and "blockIndex s' = blockIndex s" and "ip_next_entry s' = ip_next_entry s"
    and "nextBlockIndexCapacity s' = nextBlockIndexCapacity s" and "\<And>e. fst (ip_entries s' e) = fst (ip_entries s e)" and "nb \<le> nb'"
    and "ent g' = ent g" and "lo g' = lo g" and "off g' = off g"
  shows "ring_inv g' nb' ne s'"
  using assms by (auto simp: ring_inv_def header_ok_def slot_of_def split: option.splits)

end
