(* ===== verification/ProducerBlocks.thy ===== *)
theory ProducerBlocks
  imports ProducerRing
begin

text \<open>
  The producer of \<open>submodules/concurrentqueue/concurrentqueue.h\<close> and its blocks: every element that is enqueued is
  found by exactly one of the threads that dequeue, whatever the order of their steps.
\<close>

unbundle bit_operations_syntax

section \<open>The invariant\<close>

text \<open>Which element a dequeuing thread has claimed, and which block it gives back.\<close>

fun held_of :: "'a deq_pc \<Rightarrow> nat option" where
  "held_of (DEntry i) = Some (unat i)"
| "held_of (DBlock i e) = Some (unat i)"
| "held_of (DTake i e b) = Some (unat i)"
| "held_of (DEmpty i e b v) = Some (unat i)"
| "held_of _ = None"

fun rel_of :: "'a deq_pc \<Rightarrow> block option" where
  "rel_of (DUnlink e b v) = Some b"
| "rel_of (DFree b v) = Some b"
| "rel_of _ = None"

fun fresh_of :: "'a enq_pc \<Rightarrow> block option" where
  "fresh_of (EReset x cur e b) = Some b"
| "fresh_of (EPublish x cur e b) = Some b"
| "fresh_of _ = None"

fun building :: "'a enq_pc \<Rightarrow> bool" where
  "building (EConstruct x cur) = True" | "building (EStore x cur) = True" | "building _ = False"

fun entered :: "'a enq_pc \<Rightarrow> bool" where
  "entered (EBlock x cur e) = True" | "entered (ERewind e) = True" | "entered (EReset x cur e b) = True" |
  "entered (EPublish x cur e b) = True" | "entered _ = False"

text \<open>How many blocks were linked so far, and how many block numbers were entered into the ring.\<close>

definition n_blocks :: "'a ImplicitProducer \<Rightarrow> nat" where
  "n_blocks s = (if building (ip_enq s) then length (ip_in s) div 32 + 1 else (length (ip_in s) + 31) div 32)"

definition n_entries :: "'a ImplicitProducer \<Rightarrow> nat" where
  "n_entries s = n_blocks s + of_bool (entered (ip_enq s))"

definition cells :: "nat \<Rightarrow> nat set" where
  "cells n = {32 * n..<32 * n + 32}"

definition taken_out :: "'a ImplicitProducer \<Rightarrow> nat set" where
  "taken_out s = fst ` set (ip_out s)"

definition live :: "blk_ghost \<Rightarrow> 'a ImplicitProducer \<Rightarrow> nat \<Rightarrow> bool" where
  "live g s n \<longleftrightarrow> n < n_blocks s \<and> n \<notin> gone g"

definition idx_inv :: "nat \<Rightarrow> blk_ghost \<Rightarrow> 'a ImplicitProducer \<Rightarrow> bool" where
  "idx_inv k g s \<longleftrightarrow> length (ip_deqs s) = k \<and> counted_out g \<subseteq> taken_out s \<and> taken_out s \<subseteq> {..<unat (headIndex s)} \<and>
     unat (headIndex s) \<le> length (ip_in s) \<and> distinct (map fst (ip_out s)) \<and> (\<forall>(i, v) \<in> set (ip_out s). v = ip_in s ! i) \<and>
     (\<forall>j < k. \<forall>i. held_of (ip_deqs s ! j) = Some i \<longrightarrow> i < unat (headIndex s) \<and> i \<notin> counted_out g) \<and>
     (\<forall>j < k. \<forall>l < k. j \<noteq> l \<longrightarrow> held_of (ip_deqs s ! j) \<noteq> None \<longrightarrow> held_of (ip_deqs s ! j) \<noteq> held_of (ip_deqs s ! l)) \<and>
     (\<forall>i < unat (headIndex s). i \<in> counted_out g \<or> (\<exists>j < k. held_of (ip_deqs s ! j) = Some i))"

definition linked :: "blk_ghost \<Rightarrow> 'a ImplicitProducer \<Rightarrow> nat \<Rightarrow> bool" where
  "linked g s n \<longleftrightarrow> lo g \<le> n \<and> ip_entries s (ent g n) = (of_nat (32 * n), Some (blk g n)) \<and> blk g n \<in> ip_used s \<and>
     elementsCompletelyDequeued (ip_blocks s (blk g n)) = card (counted_out g \<inter> cells n)"

definition blk_inv :: "blk_ghost \<Rightarrow> 'a ImplicitProducer \<Rightarrow> bool" where
  "blk_inv g s \<longleftrightarrow> (\<forall>n. live g s n \<longrightarrow> linked g s n) \<and> (\<forall>m n. live g s m \<longrightarrow> live g s n \<longrightarrow> blk g m = blk g n \<longrightarrow> m = n) \<and>
     (\<forall>i < length (ip_in s). i \<notin> taken_out s \<longrightarrow> elements (ip_blocks s (blk g (i div 32))) (i mod 32) = Some (ip_in s ! i)) \<and>
     (\<forall>n \<in> gone g. cells n \<subseteq> counted_out g) \<and>
     (0 < n_blocks s \<longrightarrow> tailBlock s = Some (blk g (n_blocks s - 1)))"

fun enq_ok :: "blk_ghost \<Rightarrow> 'a ImplicitProducer \<Rightarrow> 'a enq_pc \<Rightarrow> bool" where
  "enq_ok g s (EHead x cur) \<longleftrightarrow> cur = of_nat (length (ip_in s)) \<and> length (ip_in s) mod 32 = 0"
| "enq_ok g s (EEntry x cur) \<longleftrightarrow> cur = of_nat (length (ip_in s)) \<and> length (ip_in s) mod 32 = 0"
| "enq_ok g s (EBlock x cur e) \<longleftrightarrow> cur = of_nat (length (ip_in s)) \<and> length (ip_in s) mod 32 = 0 \<and> e = ent g (n_blocks s)"
| "enq_ok g s (ERewind e) \<longleftrightarrow> e = ent g (n_blocks s)"
| "enq_ok g s (EClear e) \<longleftrightarrow> (\<forall>n. live g s n \<longrightarrow> ent g n \<noteq> e)"
| "enq_ok g s (EReset x cur e b) \<longleftrightarrow> cur = of_nat (length (ip_in s)) \<and> length (ip_in s) mod 32 = 0 \<and> e = ent g (n_blocks s) \<and>
     b \<in> ip_used s \<and> (\<forall>n. live g s n \<longrightarrow> blk g n \<noteq> b)"
| "enq_ok g s (EPublish x cur e b) \<longleftrightarrow> cur = of_nat (length (ip_in s)) \<and> length (ip_in s) mod 32 = 0 \<and> e = ent g (n_blocks s) \<and>
     b \<in> ip_used s \<and> (\<forall>n. live g s n \<longrightarrow> blk g n \<noteq> b) \<and> elementsCompletelyDequeued (ip_blocks s b) = 0"
| "enq_ok g s (EConstruct x cur) \<longleftrightarrow> cur = of_nat (length (ip_in s))"
| "enq_ok g s (EStore x cur) \<longleftrightarrow> cur = of_nat (length (ip_in s)) \<and>
     elements (ip_blocks s (blk g (length (ip_in s) div 32))) (length (ip_in s) mod 32) = Some x"
| "enq_ok g s _ \<longleftrightarrow> True"

fun deq_ok :: "blk_ghost \<Rightarrow> 'a ImplicitProducer \<Rightarrow> 'a deq_pc \<Rightarrow> bool" where
  "deq_ok g s (DEntry i) \<longleftrightarrow> unat i \<notin> taken_out s"
| "deq_ok g s (DBlock i e) \<longleftrightarrow> unat i \<notin> taken_out s \<and> e = ent g (unat i div 32)"
| "deq_ok g s (DTake i e b) \<longleftrightarrow> unat i \<notin> taken_out s \<and> e = ent g (unat i div 32) \<and> b = blk g (unat i div 32)"
| "deq_ok g s (DEmpty i e b v) \<longleftrightarrow> e = ent g (unat i div 32) \<and> b = blk g (unat i div 32) \<and> unat i \<in> taken_out s"
| "deq_ok g s (DUnlink e b v) \<longleftrightarrow> (\<exists>n. live g s n \<and> cells n \<subseteq> counted_out g \<and> e = ent g n \<and> b = blk g n)"
| "deq_ok g s (DFree b v) \<longleftrightarrow> b \<in> ip_used s \<and> (\<forall>n. live g s n \<longrightarrow> blk g n \<noteq> b)"
| "deq_ok g s _ \<longleftrightarrow> True"

definition rel_inv :: "nat \<Rightarrow> 'a ImplicitProducer \<Rightarrow> bool" where
  "rel_inv k s \<longleftrightarrow> (\<forall>j < k. rel_of (ip_deqs s ! j) \<noteq> None \<longrightarrow> rel_of (ip_deqs s ! j) \<noteq> fresh_of (ip_enq s) \<and>
     (\<forall>l < k. l \<noteq> j \<longrightarrow> rel_of (ip_deqs s ! j) \<noteq> rel_of (ip_deqs s ! l)))"

definition used_inv :: "nat \<Rightarrow> blk_ghost \<Rightarrow> 'a ImplicitProducer \<Rightarrow> bool" where
  "used_inv k g s \<longleftrightarrow> (\<forall>b \<in> ip_used s. (\<exists>n. live g s n \<and> blk g n = b) \<or> fresh_of (ip_enq s) = Some b \<or> (\<exists>j < k. rel_of (ip_deqs s ! j) = Some b)) \<and>
     (\<forall>n. live g s n \<longrightarrow> cells n \<subseteq> counted_out g \<longrightarrow> (\<exists>j < k. rel_of (ip_deqs s ! j) = Some (blk g n)))"

definition bl_inv :: "nat \<Rightarrow> blk_ghost \<Rightarrow> 'a ImplicitProducer \<Rightarrow> bool" where
  "bl_inv k g s \<longleftrightarrow> idx_inv k g s \<and> ring_inv g (n_blocks s) (n_entries s) s \<and> blk_inv g s \<and> enq_ok g s (ip_enq s) \<and>
     (\<forall>j < k. deq_ok g s (ip_deqs s ! j)) \<and> rel_inv k s \<and> used_inv k g s"

lemma bl_invD:
  assumes "bl_inv k g s"
  shows "idx_inv k g s" "ring_inv g (n_blocks s) (n_entries s) s" "blk_inv g s" "enq_ok g s (ip_enq s)"
    "j < k \<Longrightarrow> deq_ok g s (ip_deqs s ! j)" "rel_inv k s" "length (ip_deqs s) = k" "used_inv k g s"
  using assms by (simp_all add: bl_inv_def idx_inv_def)

lemma relD:
  assumes "bl_inv k g s" and "j < k" and "rel_of (ip_deqs s ! j) = Some b"
  shows "fresh_of (ip_enq s) \<noteq> Some b" "l < k \<Longrightarrow> l \<noteq> j \<Longrightarrow> rel_of (ip_deqs s ! l) \<noteq> Some b"
  using bl_invD(6) [OF assms(1)] assms(2,3) unfolding rel_inv_def by (metis option.distinct(1))+

lemma usedD:
  assumes "bl_inv k g s" and "b \<in> ip_used s"
  obtains n where "live g s n" "blk g n = b" | "fresh_of (ip_enq s) = Some b" | j where "j < k" "rel_of (ip_deqs s ! j) = Some b"
  using bl_invD(8) [OF assms(1)] assms(2) unfolding used_inv_def by blast

lemma fullD:
  assumes "bl_inv k g s" and "live g s n" and "cells n \<subseteq> counted_out g"
  obtains j where "j < k" "rel_of (ip_deqs s ! j) = Some (blk g n)"
  using bl_invD(8) [OF assms(1)] assms(2,3) unfolding used_inv_def by blast

lemma at_other: "i < length (ip_deqs s) \<Longrightarrow> ip_deqs (deq_at i pc s) ! j = (if j = i then pc else ip_deqs s ! j)"
  by (simp add: deq_at_def nth_list_update)

lemma at_sel [simp]:
  "ip_enq (deq_at i pc s) = ip_enq s" "ip_in (deq_at i pc s) = ip_in s" "ip_out (deq_at i pc s) = ip_out s" "ip_used (deq_at i pc s) = ip_used s"
  "ip_blocks (deq_at i pc s) = ip_blocks s" "ip_entries (deq_at i pc s) = ip_entries s" "blockIndex (deq_at i pc s) = blockIndex s"
  "ip_next_entry (deq_at i pc s) = ip_next_entry s" "nextBlockIndexCapacity (deq_at i pc s) = nextBlockIndexCapacity s"
  "headIndex (deq_at i pc s) = headIndex s" "tailBlock (deq_at i pc s) = tailBlock s" "length (ip_deqs (deq_at i pc s)) = length (ip_deqs s)"
  by (simp_all add: deq_at_def)

lemma uncounted_live:
  assumes "bl_inv k g s" and "i < length (ip_in s)" and "i \<notin> counted_out g"
  shows "live g s (i div 32)"
proof -
  have "i div 32 < n_blocks s" using assms(2) by (auto simp: n_blocks_def)
  moreover have "i \<in> cells (i div 32)" by (auto simp: cells_def)
  then have "i div 32 \<notin> gone g" using assms(1,3) by (auto simp: bl_inv_def blk_inv_def)
  ultimately show ?thesis by (simp add: live_def)
qed

lemma held:
  assumes "bl_inv k g s" and "j < k" and "held_of (ip_deqs s ! j) = Some i"
  shows "i < length (ip_in s)" "i \<notin> counted_out g" "live g s (i div 32)" "i \<in> cells (i div 32)"
proof -
  show "i < length (ip_in s)" "i \<notin> counted_out g" using assms by (fastforce simp: bl_inv_def idx_inv_def)+
  then show "live g s (i div 32)" by (rule uncounted_live [OF assms(1)])
  show "i \<in> cells (i div 32)" by (auto simp: cells_def)
qed

section \<open>Steps of a dequeuing thread\<close>

lemma at_inv [simp]:
  "n_blocks (deq_at i pc s) = n_blocks s" "n_entries (deq_at i pc s) = n_entries s" "live g (deq_at i pc s) = live g s"
  "taken_out (deq_at i pc s) = taken_out s" "linked g (deq_at i pc s) n = linked g s n" "blk_inv g (deq_at i pc s) = blk_inv g s"
  by (simp_all add: n_blocks_def n_entries_def live_def taken_out_def linked_def blk_inv_def fun_eq_iff)

lemma enq_ok_at [simp]: "enq_ok g (deq_at i pc s) p = enq_ok g s p"
  by (cases p) simp_all

lemma deq_ok_at [simp]: "deq_ok g (deq_at i pc s) p = deq_ok g s p"
  by (cases p) simp_all

lemma bl_deq:
  assumes inv: "bl_inv k g s" and i: "i < k" and same: "ip_deqs s1 = ip_deqs s" "ip_enq s1 = ip_enq s" "ip_in s1 = ip_in s" "blockIndex s1 = blockIndex s"
    "ip_next_entry s1 = ip_next_entry s" "nextBlockIndexCapacity s1 = nextBlockIndexCapacity s" "\<And>e. fst (ip_entries s1 e) = fst (ip_entries s e)"
    and g1: "ent g1 = ent g" "lo g1 = lo g" "off g1 = off g"
    and idx: "idx_inv k g1 (deq_at i pc s1)" and blk: "blk_inv g1 s1" and enq: "enq_ok g1 s1 (ip_enq s)" and pc: "deq_ok g1 s1 pc"
    and others: "\<And>j. j < k \<Longrightarrow> j \<noteq> i \<Longrightarrow> deq_ok g1 s1 (ip_deqs s ! j)"
    and rel: "\<And>b. rel_of pc = Some b \<Longrightarrow> fresh_of (ip_enq s) \<noteq> Some b \<and> (\<forall>j < k. j \<noteq> i \<longrightarrow> rel_of (ip_deqs s ! j) \<noteq> Some b)"
    and used: "\<And>b. b \<in> ip_used s1 \<Longrightarrow> b \<in> ip_used s" "\<And>n. live g s n \<Longrightarrow> (live g1 s1 n \<or> rel_of pc = Some (blk g n)) \<and> blk g1 n = blk g n"
      "\<And>b. rel_of (ip_deqs s ! i) = Some b \<Longrightarrow> rel_of pc = Some b \<or> b \<notin> ip_used s1"
    and full: "\<And>n. live g1 s1 n \<Longrightarrow> cells n \<subseteq> counted_out g1 \<Longrightarrow> rel_of pc = Some (blk g1 n) \<or>
      live g s n \<and> cells n \<subseteq> counted_out g \<and> blk g1 n = blk g n \<and> rel_of (ip_deqs s ! i) \<noteq> Some (blk g n)"
  shows "bl_inv k g1 (deq_at i pc s1)"
proof -
  have len: "i < length (ip_deqs s1)" using bl_invD(7) [OF inv] i same(1) by simp
  note at = at_other [OF len]
  have nb: "n_blocks s1 = n_blocks s" "n_entries s1 = n_entries s" using same by (simp_all add: n_blocks_def n_entries_def)
  have "ring_inv g1 (n_blocks (deq_at i pc s1)) (n_entries (deq_at i pc s1)) (deq_at i pc s1)"
    unfolding at_inv nb by (rule ring_frame [OF bl_invD(2) [OF inv]]) (use same g1 in simp_all)
  moreover have "rel_inv k (deq_at i pc s1)"
    unfolding rel_inv_def
  proof (intro allI impI conjI)
    fix j assume j: "j < k" "rel_of (ip_deqs (deq_at i pc s1) ! j) \<noteq> None"
    have old: "rel_of (ip_deqs s ! a) \<noteq> fresh_of (ip_enq s) \<and> (\<forall>l < k. l \<noteq> a \<longrightarrow> rel_of (ip_deqs s ! a) \<noteq> rel_of (ip_deqs s ! l))"
      if "a < k" "rel_of (ip_deqs s ! a) \<noteq> None" for a using bl_invD(6) [OF inv] that by (simp add: rel_inv_def)
    show "rel_of (ip_deqs (deq_at i pc s1) ! j) \<noteq> fresh_of (ip_enq (deq_at i pc s1))"
      using j rel old [of j] same by (cases "j = i") (auto simp: at eq_commute [of _ "fresh_of _"])
    fix l assume l: "l < k" "l \<noteq> j"
    show "rel_of (ip_deqs (deq_at i pc s1) ! j) \<noteq> rel_of (ip_deqs (deq_at i pc s1) ! l)"
      using j l rel old [of j] same(1) by (cases "j = i"; cases "l = i") (auto simp: at eq_commute [of "Some _" "rel_of _"])
  qed
  moreover have "used_inv k g1 (deq_at i pc s1)"
    unfolding used_inv_def at_inv at
  proof (intro conjI ballI allI impI)
    fix n assume n: "live g1 s1 n" "cells n \<subseteq> counted_out g1"
    from full [OF n] consider "rel_of pc = Some (blk g1 n)" | j where "j < k" "rel_of (ip_deqs s ! j) = Some (blk g1 n)" "j \<noteq> i"
      using fullD [OF inv] by metis
    then show "\<exists>j < k. rel_of (if j = i then pc else ip_deqs s1 ! j) = Some (blk g1 n)" using i same(1) by cases auto
  next
    fix b assume "b \<in> ip_used (deq_at i pc s1)"
    then have b: "b \<in> ip_used s1" "b \<in> ip_used s" using used(1) by simp_all
    from inv b(2) show "(\<exists>n. live g1 s1 n \<and> blk g1 n = b) \<or> fresh_of (ip_enq (deq_at i pc s1)) = Some b \<or>
        (\<exists>j < k. rel_of (if j = i then pc else ip_deqs s1 ! j) = Some b)"
    proof (cases rule: usedD)
      case (1 n)
      then show ?thesis using used(2) [of n] i by auto
    next
      case (3 j)
      then show ?thesis using used(3) [of b] b(1) i same(1) by (cases "j = i") auto
    qed (simp add: same(2))
  qed
  ultimately show ?thesis using idx blk enq pc others same by (simp add: bl_inv_def at)
qed

text \<open>The steps that change only counters, and the search for the block.\<close>

lemma idx_move:
  assumes "idx_inv k g s" and "i < k" and "ip_deqs s1 = ip_deqs s" and "headIndex s1 = headIndex s" and "ip_in s1 = ip_in s"
    and "ip_out s1 = ip_out s" and "held_of pc = held_of (ip_deqs s ! i)"
  shows "idx_inv k g (deq_at i pc s1)"
proof -
  have "held_of (ip_deqs (deq_at i pc s1) ! j) = held_of (ip_deqs s ! j)" for j
    using assms at_other [of i s1 pc j] by (simp add: idx_inv_def)
  then show ?thesis using assms by (simp add: idx_inv_def taken_out_def)
qed

lemma enq_ok_keep:
  assumes "enq_ok g s p" and "ip_in s1 = ip_in s" and "n_blocks s1 = n_blocks s" and "\<And>n. live g1 s1 n \<Longrightarrow> live g s n" and "ent g1 = ent g" and "blk g1 = blk g"
    and "\<And>b. fresh_of p = Some b \<Longrightarrow> b \<in> ip_used s \<Longrightarrow> (\<And>n. live g s n \<Longrightarrow> blk g n \<noteq> b) \<Longrightarrow>
      b \<in> ip_used s1 \<and> elementsCompletelyDequeued (ip_blocks s1 b) = elementsCompletelyDequeued (ip_blocks s b)"
    and "building p \<Longrightarrow> elements (ip_blocks s1 (blk g (length (ip_in s) div 32))) (length (ip_in s) mod 32) =
      elements (ip_blocks s (blk g (length (ip_in s) div 32))) (length (ip_in s) mod 32)"
  shows "enq_ok g1 s1 p"
  using assms by (cases p) auto

lemma deq_ok_keep:
  assumes "deq_ok g s p" and "ent g1 = ent g" and "blk g1 = blk g" and "counted_out g \<subseteq> counted_out g1" and "\<And>n. live g1 s1 n \<Longrightarrow> live g s n"
    and "\<And>i. held_of p = Some i \<Longrightarrow> i \<in> taken_out s1 \<longleftrightarrow> i \<in> taken_out s" and "\<And>n. rel_of p = Some (blk g n) \<Longrightarrow> live g s n \<Longrightarrow> live g1 s1 n"
    and "\<And>b. rel_of p = Some b \<Longrightarrow> b \<in> ip_used s \<Longrightarrow> b \<in> ip_used s1"
  shows "deq_ok g1 s1 p"
  using assms by (cases p) (auto, blast+)

lemma bl_move:
  assumes inv: "bl_inv k g s" and i: "i < k" and pc: "held_of pc = held_of (ip_deqs s ! i)" "rel_of pc = None" "deq_ok g s pc"
    "rel_of (ip_deqs s ! i) = None" and s1: "s1 = s\<lparr>dequeueOptimisticCount := a, dequeueOvercommit := b, ip_tries := c\<rparr>"
  shows "bl_inv k g (deq_at i pc s1)"
proof -
  have eq: "taken_out s1 = taken_out s" "n_blocks s1 = n_blocks s" by (simp_all add: s1 taken_out_def n_blocks_def)
  then have eqs: "live g s1 = live g s" "linked g s1 = linked g s" by (simp_all add: live_def linked_def fun_eq_iff s1)
  show ?thesis
  proof (rule bl_deq [OF inv i])
    show "idx_inv k g (deq_at i pc s1)" by (rule idx_move [OF bl_invD(1) [OF inv] i]) (use pc in \<open>simp_all add: s1\<close>)
    show "blk_inv g s1" using bl_invD(3) [OF inv] unfolding blk_inv_def eq eqs by (simp add: s1)
    show "enq_ok g s1 (ip_enq s)" by (rule enq_ok_keep [OF bl_invD(4) [OF inv]]) (use eq eqs in \<open>simp_all add: s1\<close>)
    show "deq_ok g s1 pc" by (rule deq_ok_keep [OF pc(3)]) (use eq eqs in \<open>simp_all add: s1\<close>)
    show "deq_ok g s1 (ip_deqs s ! j)" if "j < k" for j by (rule deq_ok_keep [OF bl_invD(5) [OF inv that]]) (use eq eqs in \<open>simp_all add: s1\<close>)
  qed (use pc eqs in \<open>simp_all add: s1\<close>)
qed

lemma bl_stay:
  assumes "bl_inv k g s" and "i < k" and "held_of pc = held_of (ip_deqs s ! i)" and "rel_of pc = None" and "deq_ok g s pc"
    and "rel_of (ip_deqs s ! i) = None"
  shows "bl_inv k g (deq_at i pc s)"
  by (rule bl_move [OF assms, where a = "dequeueOptimisticCount s" and b = "dequeueOvercommit s" and c = "ip_tries s"]) simp

text \<open>Claiming the next number.\<close>

lemma bl_claim:
  assumes inv: "bl_inv k g s" and i: "i < k" and pc: "ip_deqs s ! i = DHead"
    and u: "unat (headIndex s) < length (ip_in s)" "unat (headIndex s + 1) = unat (headIndex s) + 1"
  shows "bl_inv k g (deq_at i (DEntry (headIndex s)) (s\<lparr>headIndex := headIndex s + 1\<rparr>))"
proof (rule bl_deq [OF inv i])
  let ?s = "s\<lparr>headIndex := headIndex s + 1\<rparr>" and ?h = "unat (headIndex s)"
  note I = bl_invD(1) [OF inv, unfolded idx_inv_def]
  have eq: "taken_out ?s = taken_out s" "n_blocks ?s = n_blocks s" by (simp_all add: taken_out_def n_blocks_def)
  then have eqs: "live g ?s = live g s" "linked g ?s = linked g s" by (simp_all add: live_def linked_def fun_eq_iff)
  have len: "i < length (ip_deqs ?s)" using I i by simp
  have at: "held_of (ip_deqs (deq_at i (DEntry (headIndex s)) ?s) ! j) = (if j = i then Some ?h else held_of (ip_deqs s ! j))" for j
    using at_other [OF len, of _ j] by simp
  have hl: "m < ?h \<and> m \<notin> counted_out g" if "j < k" "held_of (ip_deqs s ! j) = Some m" for j m using I that by auto
  show "idx_inv k g (deq_at i (DEntry (headIndex s)) ?s)"
    unfolding idx_inv_def at at_inv eq
  proof (intro conjI allI impI)
    fix j m assume "j < k" "(if j = i then Some ?h else held_of (ip_deqs s ! j)) = Some m"
    then have "m \<le> ?h \<and> m \<notin> counted_out g" using hl [of j m] I by (cases "j = i") auto
    then show "m < unat (headIndex (deq_at i (DEntry (headIndex s)) ?s))" "m \<notin> counted_out g" using u(2) by simp_all
  next
    fix j l assume "j < k" "l < k" "j \<noteq> l" "(if j = i then Some ?h else held_of (ip_deqs s ! j)) \<noteq> None"
    then show "(if j = i then Some ?h else held_of (ip_deqs s ! j)) \<noteq> (if l = i then Some ?h else held_of (ip_deqs s ! l))"
      using I hl [of j ?h] hl [of l ?h] by (cases "j = i"; cases "l = i") auto
  next
    fix m assume "m < unat (headIndex (deq_at i (DEntry (headIndex s)) ?s))"
    then consider "m < ?h" | "m = ?h" using u(2) by fastforce
    then show "m \<in> counted_out g \<or> (\<exists>j < k. (if j = i then Some ?h else held_of (ip_deqs s ! j)) = Some m)"
    proof cases
      case 1
      then consider "m \<in> counted_out g" | j where "j < k" "held_of (ip_deqs s ! j) = Some m" using I by blast
      then show ?thesis
      proof cases
        case 2
        then have "j \<noteq> i" using pc by auto
        then show ?thesis using 2 by auto
      qed simp
    qed (use i in auto)
  qed (use I u in auto)
  show "blk_inv g ?s" using bl_invD(3) [OF inv] unfolding blk_inv_def eq eqs by simp
  show "enq_ok g ?s (ip_enq s)" by (rule enq_ok_keep [OF bl_invD(4) [OF inv]]) (use eq eqs in simp_all)
  show "deq_ok g ?s (DEntry (headIndex s))" using I eq by auto
  show "deq_ok g ?s (ip_deqs s ! j)" if "j < k" for j by (rule deq_ok_keep [OF bl_invD(5) [OF inv that]]) (use eq eqs in simp_all)
qed (use pc in \<open>auto simp: live_def n_blocks_def\<close>)

text \<open>Taking the element out of its block.\<close>

lemma bl_blkD:
  assumes "bl_inv k g s"
  shows "live g s n \<Longrightarrow> linked g s n" "live g s m \<Longrightarrow> live g s n \<Longrightarrow> blk g m = blk g n \<Longrightarrow> m = n"
    "i < length (ip_in s) \<Longrightarrow> i \<notin> taken_out s \<Longrightarrow> elements (ip_blocks s (blk g (i div 32))) (i mod 32) = Some (ip_in s ! i)"
    "n \<in> gone g \<Longrightarrow> cells n \<subseteq> counted_out g" "0 < n_blocks s \<Longrightarrow> tailBlock s = Some (blk g (n_blocks s - 1))"
  using assms by (auto simp: bl_inv_def blk_inv_def)

lemma bl_take:
  assumes inv: "bl_inv k g s" and i: "i < k" and sm: "small s" and pc: "ip_deqs s ! i = DTake idx e b"
  defines "n \<equiv> unat idx"
  defines "s1 \<equiv> s\<lparr>ip_blocks := (ip_blocks s)(b := (ip_blocks s b)\<lparr>elements := (elements (ip_blocks s b))(block_slot idx := None)\<rparr>),
     ip_out := ip_out s @ [(n, ip_in s ! n)]\<rparr>"
  shows "elements (ip_blocks s b) (block_slot idx) = Some (ip_in s ! n)" "bl_inv k g (deq_at i (DEmpty idx e b (ip_in s ! n)) s1)"
proof -
  note I = bl_invD(1) [OF inv, unfolded idx_inv_def]
  have hn: "held_of (ip_deqs s ! i) = Some n" using pc by (simp add: n_def)
  note H = held [OF inv i hn]
  have ok: "n \<notin> taken_out s" "e = ent g (n div 32)" "b = blk g (n div 32)" using bl_invD(5) [OF inv i] pc by (simp_all add: n_def)
  have slot: "block_slot idx = n mod 32" using block_numbers(2) [of n] H(1) sm by (simp add: n_def small_def)
  show "elements (ip_blocks s b) (block_slot idx) = Some (ip_in s ! n)" unfolding slot ok(3) by (rule bl_blkD(3) [OF inv H(1) ok(1)])
  have eq: "taken_out s1 = insert n (taken_out s)" "n_blocks s1 = n_blocks s" by (simp_all add: taken_out_def n_blocks_def s1_def)
  then have lv: "live g s1 = live g s" by (simp add: live_def fun_eq_iff)
  have cnt: "elementsCompletelyDequeued (ip_blocks s1 c) = elementsCompletelyDequeued (ip_blocks s c)" for c by (simp add: s1_def)
  have lk: "linked g s1 = linked g s" by (simp add: linked_def fun_eq_iff cnt) (simp add: s1_def)
  have els: "elements (ip_blocks s1 (blk g (m div 32))) (m mod 32) = elements (ip_blocks s (blk g (m div 32))) (m mod 32)"
    if "m \<noteq> n" "live g s (m div 32)" for m
  proof (cases "blk g (m div 32) = b")
    case True
    then have "m div 32 = n div 32" using bl_blkD(2) [OF inv that(2) H(3)] ok(3) by simp
    then have "m mod 32 \<noteq> n mod 32" using that(1) by (metis div_mult_mod_eq)
    then show ?thesis by (simp add: s1_def slot)
  qed (simp add: s1_def)
  show "bl_inv k g (deq_at i (DEmpty idx e b (ip_in s ! n)) s1)"
  proof (rule bl_deq [OF inv i])
    have at: "held_of (ip_deqs (deq_at i (DEmpty idx e b (ip_in s ! n)) s1) ! j) = held_of (ip_deqs s ! j)" for j
      using at_other [of i s1 _ j] I i hn by (simp add: s1_def n_def)
    have "n < unat (headIndex s)" using I hn i by auto
    moreover have "n \<notin> fst ` set (ip_out s)" using ok(1) by (simp add: taken_out_def)
    ultimately show "idx_inv k g (deq_at i (DEmpty idx e b (ip_in s ! n)) s1)" using I unfolding idx_inv_def at at_inv eq by (auto simp: s1_def)
    show "blk_inv g s1"
      unfolding blk_inv_def lv lk eq
    proof (intro conjI allI impI)
      fix m assume m: "m < length (ip_in s1)" "m \<notin> insert n (taken_out s)"
      then have "m \<notin> counted_out g" using I by auto
      then have "live g s (m div 32)" using m(1) uncounted_live [OF inv] by (simp add: s1_def)
      then show "elements (ip_blocks s1 (blk g (m div 32))) (m mod 32) = Some (ip_in s1 ! m)"
        using els [of m] bl_blkD(3) [OF inv, of m] m by (simp add: s1_def)
    qed (use bl_blkD [OF inv] in \<open>auto simp: s1_def\<close>)
    show "enq_ok g s1 (ip_enq s)"
    proof (rule enq_ok_keep [OF bl_invD(4) [OF inv]])
      assume bu: "building (ip_enq s)"
      have "length (ip_in s) \<notin> counted_out g" using I by auto
      then have "length (ip_in s) div 32 \<notin> gone g" using bl_blkD(4) [OF inv, of "length (ip_in s) div 32"] by (auto simp: cells_def subset_iff)
      then have "live g s (length (ip_in s) div 32)" using bu by (simp add: live_def n_blocks_def)
      then show "elements (ip_blocks s1 (blk g (length (ip_in s) div 32))) (length (ip_in s) mod 32) =
        elements (ip_blocks s (blk g (length (ip_in s) div 32))) (length (ip_in s) mod 32)" using els [of "length (ip_in s)"] H(1) by simp
    qed (use eq lv cnt in \<open>simp_all add: s1_def\<close>)
    show "deq_ok g s1 (ip_deqs s ! j)" if j: "j < k" "j \<noteq> i" for j
    proof (rule deq_ok_keep [OF bl_invD(5) [OF inv j(1)]])
      show "(m \<in> taken_out s1) = (m \<in> taken_out s)" if "held_of (ip_deqs s ! j) = Some m" for m
        using I i j hn that eq(1) by (metis insert_iff option.distinct(1))
    qed (use lv in \<open>simp_all add: s1_def\<close>)
  qed (use ok eq lv pc in \<open>simp_all add: s1_def n_def\<close>)
qed

text \<open>Counting the removal in the block: the thread that counts the last one gives the block back.\<close>

lemma card_cells: "card (cells n) = 32" "finite (cells n)"
  by (simp_all add: cells_def)

lemma cells_other: "m \<in> cells n \<Longrightarrow> n = m div 32"
  by (auto simp: cells_def)

lemma count_cell:
  assumes "m \<in> cells n" and "m \<notin> C"
  shows "card (C \<inter> cells n) < 32" "card (insert m C \<inter> cells n) = card (C \<inter> cells n) + 1"
    "(card (C \<inter> cells n) = 31) = (cells n \<subseteq> insert m C)"
proof -
  have f: "finite (C \<inter> cells n)" using card_cells(2) by simp
  have e: "insert m C \<inter> cells n = insert m (C \<inter> cells n)" using assms(1) by auto
  show c: "card (insert m C \<inter> cells n) = card (C \<inter> cells n) + 1" using f assms(2) by (simp add: e)
  have le: "card (insert m C \<inter> cells n) \<le> 32" using card_mono [of "cells n" "insert m C \<inter> cells n"] card_cells [of n] by simp
  then show "card (C \<inter> cells n) < 32" using c by simp
  have "card (insert m C \<inter> cells n) = 32 \<longleftrightarrow> insert m C \<inter> cells n = cells n"
    using card_cells [of n] card_subset_eq [of "cells n" "insert m C \<inter> cells n"] by auto
  then show "(card (C \<inter> cells n) = 31) = (cells n \<subseteq> insert m C)" using c by auto
qed

lemma bl_count:
  assumes inv: "bl_inv k g s" and i: "i < k" and pc: "ip_deqs s ! i = DEmpty idx e b v"
  obtains all b1 g1 where "set_empty (ip_blocks s b) = Inr (all, b1)"
    "bl_inv k g1 (deq_at i (if all then DUnlink e b v else DIdle (Some v)) (s\<lparr>ip_blocks := (ip_blocks s)(b := b1)\<rparr>))"
proof -
  define n where "n = unat idx"
  define c where "c = card (counted_out g \<inter> cells (n div 32))"
  define b1 where "b1 = (ip_blocks s b)\<lparr>elementsCompletelyDequeued := c + 1\<rparr>"
  define s1 where "s1 = s\<lparr>ip_blocks := (ip_blocks s)(b := b1)\<rparr>"
  define g1 where "g1 = g\<lparr>counted_out := insert n (counted_out g)\<rparr>"
  let ?pc = "if c = 31 then DUnlink e b v else DIdle (Some v)"
  note I = bl_invD(1) [OF inv, unfolded idx_inv_def]
  have hn: "held_of (ip_deqs s ! i) = Some n" using pc by (simp add: n_def)
  note H = held [OF inv i hn]
  note C = count_cell [OF H(4,2)]
  have ok: "n \<in> taken_out s" "e = ent g (n div 32)" "b = blk g (n div 32)" using bl_invD(5) [OF inv i] pc by (simp_all add: n_def)
  have cnt: "elementsCompletelyDequeued (ip_blocks s b) = c" using bl_blkD(1) [OF inv H(3)] ok(3) by (simp add: linked_def c_def)
  have "set_empty (ip_blocks s b) = Inr (c = 31, b1)" using C(1) cnt by (simp add: set_empty_def b1_def c_def Let_def)
  moreover have eq: "taken_out s1 = taken_out s" "n_blocks s1 = n_blocks s" by (simp_all add: taken_out_def n_blocks_def s1_def)
  then have lv: "live g1 s1 = live g s" by (simp add: live_def fun_eq_iff g1_def)
  have els: "elements (ip_blocks s1 x) = elements (ip_blocks s x)" for x by (simp add: s1_def b1_def)
  have lk: "linked g1 s1 m" if "live g s m" for m
  proof -
    have l: "linked g s m" by (rule bl_blkD(1) [OF inv that])
    have "elementsCompletelyDequeued (ip_blocks s1 (blk g m)) = card (insert n (counted_out g) \<inter> cells m)"
    proof (cases "m = n div 32")
      case True
      then show ?thesis using C(2) by (simp add: s1_def ok(3) b1_def c_def)
    next
      case False
      then have "blk g m \<noteq> b" using bl_blkD(2) [OF inv that H(3)] ok(3) by auto
      moreover have "insert n (counted_out g) \<inter> cells m = counted_out g \<inter> cells m" using cells_other [of n m] False by auto
      ultimately show ?thesis using l by (simp add: s1_def linked_def)
    qed
    then show ?thesis using l by (simp add: linked_def g1_def) (simp add: s1_def)
  qed
  have "bl_inv k g1 (deq_at i ?pc s1)"
  proof (rule bl_deq [OF inv i])
    have at: "held_of (ip_deqs (deq_at i ?pc s1) ! j) = (if j = i then None else held_of (ip_deqs s ! j))" for j
      using at_other [of i s1 _ j] I i by (simp add: s1_def)
    have other: "m \<noteq> n" if "j < k" "j \<noteq> i" "held_of (ip_deqs s ! j) = Some m" for j m using I i hn that by fastforce
    show "idx_inv k g1 (deq_at i ?pc s1)"
      unfolding idx_inv_def at at_inv eq
    proof (intro conjI allI impI)
      fix m assume "m < unat (headIndex (deq_at i ?pc s1))"
      then have "m \<in> counted_out g \<or> (\<exists>j<k. held_of (ip_deqs s ! j) = Some m)" using I by (simp add: s1_def)
      then show "m \<in> counted_out g1 \<or> (\<exists>j<k. (if j = i then None else held_of (ip_deqs s ! j)) = Some m)" using hn by (cases "m = n") (auto simp: g1_def, metis option.inject)
    qed (use I ok(1) other in \<open>auto simp: s1_def g1_def split: if_splits\<close>)
    show "blk_inv g1 s1"
      unfolding blk_inv_def lv eq els using bl_blkD(2,3,5) [OF inv] lk bl_blkD(4) [OF inv, THEN subsetD] by (auto simp: s1_def g1_def)
    show "enq_ok g1 s1 (ip_enq s)"
    proof (rule enq_ok_keep [OF bl_invD(4) [OF inv]])
      fix x assume "x \<in> ip_used s" "\<And>n. live g s n \<Longrightarrow> blk g n \<noteq> x"
      then show "x \<in> ip_used s1 \<and> elementsCompletelyDequeued (ip_blocks s1 x) = elementsCompletelyDequeued (ip_blocks s x)"
        using H(3) ok(3) by (auto simp: s1_def)
    qed (use eq lv els in \<open>simp_all add: s1_def g1_def\<close>)
    show "deq_ok g1 s1 ?pc"
    proof (cases "c = 31")
      case True
      then have "cells (n div 32) \<subseteq> counted_out g1" using C(3) by (simp add: c_def g1_def)
      then have "deq_ok g1 s1 (DUnlink e b v)" using lv H(3) ok by (auto simp: g1_def)
      then show ?thesis using True by simp
    qed simp
    show "deq_ok g1 s1 (ip_deqs s ! j)" if "j < k" for j
      by (rule deq_ok_keep [OF bl_invD(5) [OF inv that]]) (use eq lv in \<open>auto simp: s1_def g1_def\<close>)
    show "fresh_of (ip_enq s) \<noteq> Some x \<and> (\<forall>j<k. j \<noteq> i \<longrightarrow> rel_of (ip_deqs s ! j) \<noteq> Some x)" if "rel_of ?pc = Some x" for x
    proof -
      have x: "x = b" using that by (simp split: if_splits)
      have "fresh_of (ip_enq s) \<noteq> Some b" using bl_invD(4) [OF inv] H(3) ok(3) by (cases "ip_enq s") auto
      moreover have "rel_of (ip_deqs s ! j) \<noteq> Some b" if "j < k" for j
        using bl_invD(5) [OF inv that] H(2,3,4) ok(3) bl_blkD(2) [OF inv _ H(3)] by (cases "ip_deqs s ! j") auto
      ultimately show ?thesis using x by simp
    qed
    fix m assume m: "live g1 s1 m" "cells m \<subseteq> counted_out g1"
    show "rel_of ?pc = Some (blk g1 m) \<or> live g s m \<and> cells m \<subseteq> counted_out g \<and> blk g1 m = blk g m \<and> rel_of (ip_deqs s ! i) \<noteq> Some (blk g m)"
    proof (cases "n \<in> cells m")
      case True
      then have "m = n div 32" by (rule cells_other)
      moreover have "c = 31" using C(3) m(2) \<open>m = n div 32\<close> by (simp add: c_def g1_def)
      ultimately show ?thesis using ok(3) by (simp add: g1_def)
    next
      case False
      then show ?thesis using m lv pc by (auto simp: g1_def)
    qed
  qed (use lv pc in \<open>simp_all add: s1_def g1_def\<close>)
  ultimately show thesis using that [of "c = 31" b1 g1] by (simp only: s1_def)
qed

text \<open>Giving the block back.\<close>

lemma bl_unlink:
  assumes inv: "bl_inv k g s" and i: "i < k" and pc: "ip_deqs s ! i = DUnlink e b v"
  shows "\<exists>g1. bl_inv k g1 (deq_at i (DFree b v) (s\<lparr>ip_entries := (ip_entries s)(e := (fst (ip_entries s e), None))\<rparr>))"
proof -
  obtain n where n: "live g s n" "cells n \<subseteq> counted_out g" "e = ent g n" "b = blk g n" using bl_invD(5) [OF inv i] pc by auto
  define s1 where "s1 = s\<lparr>ip_entries := (ip_entries s)(e := (fst (ip_entries s e), None))\<rparr>"
  define g1 where "g1 = g\<lparr>gone := insert n (gone g)\<rparr>"
  have R: "rel_of (ip_deqs s ! i) = Some b" using pc by simp
  have eq: "taken_out s1 = taken_out s" "n_blocks s1 = n_blocks s" by (simp_all add: taken_out_def n_blocks_def s1_def)
  have lv: "live g1 s1 m \<longleftrightarrow> live g s m \<and> m \<noteq> n" for m by (auto simp: live_def g1_def eq)
  have lk: "linked g1 s1 m" if "live g s m" "m \<noteq> n" for m
  proof -
    have l: "linked g s m" "linked g s n" using bl_blkD(1) [OF inv] that n(1) by auto
    have "blk g m \<noteq> blk g n" using bl_blkD(2) [OF inv that(1) n(1)] that(2) by auto
    then have "ent g m \<noteq> e" using l n(3) by (auto simp: linked_def)
    then show ?thesis using l(1) by (simp add: linked_def g1_def s1_def)
  qed
  have "bl_inv k g1 (deq_at i (DFree b v) s1)"
  proof (rule bl_deq [OF inv i])
    have "idx_inv k g (deq_at i (DFree b v) s1)" by (rule idx_move [OF bl_invD(1) [OF inv] i]) (use pc in \<open>simp_all add: s1_def\<close>)
    then show "idx_inv k g1 (deq_at i (DFree b v) s1)" by (simp add: idx_inv_def g1_def)
    show "blk_inv g1 s1"
      unfolding blk_inv_def lv eq using bl_blkD [OF inv] lk n(2) by (auto simp: s1_def g1_def)
    show "enq_ok g1 s1 (ip_enq s)"
      by (rule enq_ok_keep [OF bl_invD(4) [OF inv]]) (use eq lv in \<open>simp_all add: s1_def g1_def\<close>)
    show "deq_ok g1 s1 (DFree b v)"
      using bl_blkD(1,2) [OF inv] n(1,4) lv by (auto simp: linked_def) (auto simp: s1_def g1_def)
    show "deq_ok g1 s1 (ip_deqs s ! j)" if j: "j < k" "j \<noteq> i" for j
    proof (rule deq_ok_keep [OF bl_invD(5) [OF inv j(1)]])
      fix m assume m: "rel_of (ip_deqs s ! j) = Some (blk g m)" "live g s m"
      then show "live g1 s1 m" using relD(2) [OF inv i R j] n(4) lv by auto
    qed (use eq lv in \<open>simp_all add: s1_def g1_def\<close>)
    show "fresh_of (ip_enq s) \<noteq> Some x \<and> (\<forall>j<k. j \<noteq> i \<longrightarrow> rel_of (ip_deqs s ! j) \<noteq> Some x)" if "rel_of (DFree b v) = Some x" for x
      using that relD [OF inv i R] by auto
    show "(live g1 s1 m \<or> rel_of (DFree b v) = Some (blk g m)) \<and> blk g1 m = blk g m" if "live g s m" for m
      using that lv n(4) by (auto simp: g1_def)
    show "rel_of (DFree b v) = Some (blk g1 m) \<or> live g s m \<and> cells m \<subseteq> counted_out g \<and> blk g1 m = blk g m \<and> rel_of (ip_deqs s ! i) \<noteq> Some (blk g m)"
      if "live g1 s1 m" "cells m \<subseteq> counted_out g1" for m
      using that lv R n(1,4) bl_blkD(2) [OF inv, of m n] by (auto simp: g1_def)
  qed (use R in \<open>simp_all add: s1_def g1_def\<close>)
  then show ?thesis by (auto simp: s1_def)
qed

lemma bl_free:
  assumes inv: "bl_inv k g s" and i: "i < k" and pc: "ip_deqs s ! i = DFree b v"
  shows "bl_inv k g (deq_at i (DIdle (Some v)) (s\<lparr>ip_used := ip_used s - {b}\<rparr>))"
proof -
  let ?s = "s\<lparr>ip_used := ip_used s - {b}\<rparr>"
  have ok: "live g s n \<Longrightarrow> blk g n \<noteq> b" for n using bl_invD(5) [OF inv i] pc by simp
  have R: "rel_of (ip_deqs s ! i) = Some b" using pc by simp
  have eq: "taken_out ?s = taken_out s" "n_blocks ?s = n_blocks s" by (simp_all add: taken_out_def n_blocks_def)
  have lv: "live g ?s = live g s" by (simp add: live_def fun_eq_iff eq)
  show ?thesis
  proof (rule bl_deq [OF inv i])
    show "idx_inv k g (deq_at i (DIdle (Some v)) ?s)" by (rule idx_move [OF bl_invD(1) [OF inv] i]) (use pc in simp_all)
    show "blk_inv g ?s"
      unfolding blk_inv_def lv eq using bl_blkD [OF inv] ok by (auto simp: linked_def)
    show "enq_ok g ?s (ip_enq s)"
    proof (rule enq_ok_keep [OF bl_invD(4) [OF inv]])
      fix x assume "fresh_of (ip_enq s) = Some x" "x \<in> ip_used s"
      then show "x \<in> ip_used ?s \<and> elementsCompletelyDequeued (ip_blocks ?s x) = elementsCompletelyDequeued (ip_blocks s x)"
        using relD(1) [OF inv i R] by auto
    qed (use eq lv in simp_all)
    show "deq_ok g ?s (ip_deqs s ! j)" if j: "j < k" "j \<noteq> i" for j
    proof (rule deq_ok_keep [OF bl_invD(5) [OF inv j(1)]])
      fix x assume x: "rel_of (ip_deqs s ! j) = Some x" "x \<in> ip_used s"
      then show "x \<in> ip_used ?s" using relD(2) [OF inv i R j] by auto
    qed (use eq lv in simp_all)
  qed (use R lv ok in auto)
qed

text \<open>A dequeuing thread never faults, and keeps the invariant.\<close>

lemma bl_deq_step:
  assumes inv: "bl_inv k g s" and c: "ctr_inv k c s" and i: "i < k" and sm: "small s"
  shows "\<exists>g1 s1. deq_step i (ip_deqs s ! i) s = Inr s1 \<and> bl_inv k g1 s1"
proof -
  have ok: "deq_ok g s (ip_deqs s ! i)" by (rule bl_invD(5) [OF inv i])
  note stay = bl_stay [OF inv i]
  show ?thesis
  proof (cases "ip_deqs s ! i")
    case (DAdd over)
    have "bl_inv k g (deq_at i (DTail2 over (dequeueOptimisticCount s))
        (s\<lparr>dequeueOptimisticCount := dequeueOptimisticCount s + 1, dequeueOvercommit := dequeueOvercommit s, ip_tries := ip_tries s + 1\<rparr>))"
      by (rule bl_move [OF inv i _ _ _ _ refl]) (simp_all add: DAdd)
    then show ?thesis using DAdd by auto
  next
    case DUndo
    have "bl_inv k g (deq_at i (DIdle None)
        (s\<lparr>dequeueOptimisticCount := dequeueOptimisticCount s, dequeueOvercommit := dequeueOvercommit s + 1, ip_tries := ip_tries s\<rparr>))"
      by (rule bl_move [OF inv i _ _ _ _ refl]) (simp_all add: DUndo)
    then show ?thesis using DUndo by auto
  next
    case DHead
    then show ?thesis using bl_claim [OF inv i DHead ctr_claim(2,3) [OF c i sm DHead]] by auto
  next
    case (DEntry idx)
    let ?n = "unat idx"
    have hn: "held_of (ip_deqs s ! i) = Some ?n" using DEntry by simp
    note H = held [OF inv i hn]
    have l: "linked g s (?n div 32)" by (rule bl_blkD(1) [OF inv H(3)])
    have "?n div 32 < n_entries s" using H(3) by (simp add: live_def n_entries_def)
    moreover have "32 * n_entries s < 2 ^ 63" using sm by (auto simp: n_entries_def n_blocks_def small_def)
    ultimately have "get_block_index_entry_for_index (of_nat ?n) s = Inr (ent g (?n div 32))"
      using H(1) sm l by (intro ring_lookup [OF bl_invD(2) [OF inv]]) (auto simp: linked_def small_def)
    then show ?thesis using DEntry stay [of "DBlock idx (ent g (?n div 32))"] ok by auto
  next
    case (DBlock idx e)
    have hn: "held_of (ip_deqs s ! i) = Some (unat idx)" using DBlock by simp
    have "linked g s (unat idx div 32)" using bl_blkD(1) [OF inv held(3) [OF inv i hn]] .
    then show ?thesis using DBlock stay [of "DTake idx e (blk g (unat idx div 32))"] ok by (auto simp: linked_def)
  next
    case (DTake idx e b)
    then show ?thesis using bl_take [OF inv i sm DTake] by auto
  next
    case (DEmpty idx e b v)
    show ?thesis by (rule bl_count [OF inv i DEmpty]) (auto simp: DEmpty)
  next
    case (DUnlink e b v)
    then show ?thesis using bl_unlink [OF inv i DUnlink] by auto
  next
    case (DFree b v)
    then show ?thesis using bl_free [OF inv i DFree] by auto
  qed (use inv in \<open>auto intro!: exI [of _ g] stay\<close>)
qed

section \<open>Steps of the producing thread\<close>

lemma round_up: "((m :: nat) + 31) div 32 = (if m mod 32 = 0 then m div 32 else m div 32 + 1)"
proof -
  have "(m + 31) div 32 = (m mod 32 + 31 + 32 * (m div 32)) div 32" by simp
  also have "\<dots> = m div 32 + (m mod 32 + 31) div 32" by (subst div_mult_self2) simp_all
  finally have e: "(m + 31) div 32 = m div 32 + (m mod 32 + 31) div 32" .
  have "m mod 32 < 32" by simp
  then have "(m mod 32 + 31) div 32 = (if m mod 32 = 0 then 0 else 1)" by (auto intro: div_nat_eqI)
  then show ?thesis using e by simp
qed

lemma rel_used:
  assumes "bl_inv k g s" and "j < k" and "rel_of (ip_deqs s ! j) = Some b"
  shows "b \<in> ip_used s"
  using bl_invD(5) [OF assms(1,2)] assms(3) bl_blkD(1) [OF assms(1)] by (cases "ip_deqs s ! j") (auto simp: linked_def)

lemma bl_enq:
  assumes inv: "bl_inv k g s" and same: "ip_deqs s1 = ip_deqs s" "headIndex s1 = headIndex s" "ip_out s1 = ip_out s" "ip_in s1 = ip_in s @ ys"
    "ip_used s \<subseteq> ip_used s1" "n_blocks s \<le> n_blocks s1" and g1: "counted_out g1 = counted_out g" "gone g1 = gone g"
    and keep: "\<And>n. live g s n \<Longrightarrow> ent g1 n = ent g n \<and> blk g1 n = blk g n"
    and new: "\<And>n. live g1 s1 n \<Longrightarrow> live g s n \<or> fresh_of (ip_enq s) = Some (blk g1 n)"
    and fresh: "\<And>b. fresh_of (ip_enq s1) = Some b \<Longrightarrow> fresh_of (ip_enq s) = Some b \<or> b \<notin> ip_used s"
    and ring: "ring_inv g1 (n_blocks s1) (n_entries s1) s1" and blk: "blk_inv g1 s1" and enq: "enq_ok g1 s1 (ip_enq s1)"
    and used: "\<And>b. b \<in> ip_used s1 \<Longrightarrow> b \<in> ip_used s \<or> fresh_of (ip_enq s1) = Some b"
      "\<And>b. fresh_of (ip_enq s) = Some b \<Longrightarrow> fresh_of (ip_enq s1) = Some b \<or> (\<exists>n. live g1 s1 n \<and> blk g1 n = b)"
  shows "bl_inv k g1 s1"
proof -
  note I = bl_invD(1) [OF inv, unfolded idx_inv_def]
  have tk: "taken_out s1 = taken_out s" using same by (simp add: taken_out_def)
  have up: "live g1 s1 n" if "live g s n" for n using that same(6) g1(2) by (simp add: live_def)
  have "v = ip_in s1 ! i" if "(i, v) \<in> set (ip_out s1)" for i v
  proof -
    have "i \<in> taken_out s" using that same(3) by (force simp: taken_out_def)
    then have "i < length (ip_in s)" using I by auto
    then show ?thesis using that I same(3,4) by (auto simp: nth_append)
  qed
  then have "idx_inv k g1 s1" using I unfolding idx_inv_def tk g1 same(1,2,3) by (auto simp: same(4))
  moreover have "deq_ok g1 s1 (ip_deqs s ! j)" if j: "j < k" for j
  proof -
    note ok = bl_invD(5) [OF inv j]
    have h: "ent g1 (i div 32) = ent g (i div 32) \<and> blk g1 (i div 32) = blk g (i div 32)" if "held_of (ip_deqs s ! j) = Some i" for i
      using keep held(3) [OF inv j that] by simp
    show ?thesis
    proof (cases "ip_deqs s ! j")
      case (DUnlink e b v)
      then obtain n where "live g s n" "cells n \<subseteq> counted_out g" "e = ent g n" "b = blk g n" using ok by auto
      then show ?thesis using DUnlink keep [of n] up [of n] g1 by auto
    next
      case (DFree b v)
      then have "fresh_of (ip_enq s) \<noteq> Some b" using relD(1) [OF inv j] by simp
      then show ?thesis using DFree ok same(5) new keep by auto metis
    qed (use ok h tk in simp_all)
  qed
  moreover have "rel_inv k s1"
    unfolding rel_inv_def same(1)
  proof (intro allI impI conjI)
    fix j assume j: "j < k" "rel_of (ip_deqs s ! j) \<noteq> None"
    then obtain b where b: "rel_of (ip_deqs s ! j) = Some b" by auto
    show "rel_of (ip_deqs s ! j) \<noteq> fresh_of (ip_enq s1)" using fresh [of b] rel_used [OF inv j(1) b] relD(1) [OF inv j(1) b] b by auto
    show "rel_of (ip_deqs s ! j) \<noteq> rel_of (ip_deqs s ! l)" if "l < k" "l \<noteq> j" for l using relD(2) [OF inv j(1) b that] b by auto
  qed
  moreover have "used_inv k g1 s1"
    unfolding used_inv_def same(1)
  proof (intro conjI ballI allI impI)
    fix n assume n: "live g1 s1 n" "cells n \<subseteq> counted_out g1"
    have "32 * n \<in> counted_out g" using n(2) g1(1) by (auto simp: cells_def)
    then have "32 * n < length (ip_in s)" using I by auto
    then have "live g s n" using n(1) g1(2) by (auto simp: live_def n_blocks_def)
    then show "\<exists>j < k. rel_of (ip_deqs s ! j) = Some (blk g1 n)" using fullD [OF inv, of n] n(2) g1(1) keep [of n] by metis
  next
    fix b assume "b \<in> ip_used s1"
    then consider "fresh_of (ip_enq s1) = Some b" | "b \<in> ip_used s" using used(1) by blast
    then show "(\<exists>n. live g1 s1 n \<and> blk g1 n = b) \<or> fresh_of (ip_enq s1) = Some b \<or> (\<exists>j < k. rel_of (ip_deqs s ! j) = Some b)"
    proof cases
      case 2
      from inv 2 show ?thesis
      proof (cases rule: usedD)
        case (1 n)
        then show ?thesis using keep [of n] up [of n] by auto
      qed (use used(2) in auto)
    qed simp
  qed
  ultimately show ?thesis using ring blk enq same(1) by (simp add: bl_inv_def)
qed

text \<open>Steps that leave the elements, the tail block and the number of blocks alone.\<close>

lemma blk_keep:
  assumes inv: "bl_inv k g s" and same: "ip_in s1 = ip_in s" "ip_out s1 = ip_out s" "n_blocks s1 = n_blocks s" "tailBlock s1 = tailBlock s"
    and g1: "counted_out g1 = counted_out g" "gone g1 = gone g" and keep: "\<And>n. blk g1 n = blk g n" and lk: "\<And>n. live g s n \<Longrightarrow> linked g1 s1 n"
    and els: "\<And>n. live g s n \<Longrightarrow> elements (ip_blocks s1 (blk g n)) = elements (ip_blocks s (blk g n))"
  shows "blk_inv g1 s1" "live g1 s1 = live g s"
proof -
  show lv: "live g1 s1 = live g s" using same(3) g1(2) by (simp add: live_def fun_eq_iff)
  have tk: "taken_out s1 = taken_out s" using same by (simp add: taken_out_def)
  have "live g s (i div 32)" if "i < length (ip_in s)" "i \<notin> taken_out s" for i
    using uncounted_live [OF inv that(1)] that(2) bl_invD(1) [OF inv] by (auto simp: idx_inv_def)
  then show "blk_inv g1 s1" unfolding blk_inv_def lv tk same g1 keep using bl_blkD [OF inv] lk els by auto
qed

lemma bl_pc:
  assumes inv: "bl_inv k g s" and p: "building p \<longrightarrow> \<not> building (ip_enq s) \<longrightarrow> length (ip_in s) mod 32 \<noteq> 0"
    "building (ip_enq s) \<longrightarrow> building p" "entered p = entered (ip_enq s)" "fresh_of p = fresh_of (ip_enq s)"
    and ok: "enq_ok g s p"
  shows "bl_inv k g (s\<lparr>ip_enq := p\<rparr>)"
proof -
  let ?s = "s\<lparr>ip_enq := p\<rparr>"
  have nb: "n_blocks ?s = n_blocks s" using p(1,2) by (cases "building p"; cases "building (ip_enq s)") (simp_all add: n_blocks_def round_up)
  have ne: "n_entries ?s = n_entries s" using nb p(3) by (simp add: n_entries_def)
  have lk: "linked g ?s n" if "live g s n" for n using bl_blkD(1) [OF inv that] by (simp add: linked_def)
  note B = blk_keep [OF inv, of ?s g, OF _ _ nb _ _ _ _ lk]
  have lv: "live g ?s = live g s" by (rule B(2)) simp_all
  show ?thesis
  proof (rule bl_enq [OF inv, of ?s "[]"])
    show "ring_inv g (n_blocks ?s) (n_entries ?s) ?s" unfolding nb ne by (rule ring_frame [OF bl_invD(2) [OF inv]]) simp_all
    show "blk_inv g ?s" by (rule B(1)) simp_all
    show "enq_ok g ?s (ip_enq ?s)" using ok lv nb by (cases p) simp_all
  qed (use p(4) nb lv in auto)
qed

text \<open>Entering the number of a new block into the ring, or going back on it.\<close>

lemma bl_entry:
  assumes inv: "bl_inv k g s" and sm: "small s" and pc: "ip_enq s = EEntry x cur" and cap: "alloc \<Longrightarrow> nextBlockIndexCapacity s \<le> 2 ^ 59"
  shows "\<exists>g1 s1. enq_step junk alloc pick (EEntry x cur) s = Inr s1 \<and> bl_inv k g1 s1"
proof -
  let ?nb = "n_blocks s"
  have T: "cur = of_nat (length (ip_in s))" "length (ip_in s) mod 32 = 0" using bl_invD(4) [OF inv] pc by simp_all
  have nb: "32 * ?nb = length (ip_in s)" using T(2) pc by (simp add: n_blocks_def round_up) presburger
  have cur: "cur = of_nat (32 * ?nb)" unfolding nb by (rule T(1))
  have ring: "ring_inv g ?nb ?nb s" using bl_invD(2) [OF inv] pc by (simp add: n_entries_def)
  have L: "lo g \<le> n \<and> n < ?nb \<and> ip_entries s (ent g n) = (of_nat (32 * n), Some (blk g n))" if "n \<in> Collect (live g s)" for n
    using bl_blkD(1) [OF inv, of n] that by (auto simp: linked_def live_def)
  have sm': "32 * ?nb < 2 ^ 63" using nb sm by (simp add: small_def)
  consider (no) "insert_block_index_entry junk alloc cur s = Inr (None, s)"
    | (yes) e l d E N B M where "insert_block_index_entry junk alloc cur s =
        Inr (Some e, s\<lparr>ip_entries := E, ip_next_entry := N, blockIndex := B, nextBlockIndexCapacity := M\<rparr>)"
      "ring_inv (g\<lparr>off := d, ent := (ent g)(?nb := e), lo := l\<rparr>) ?nb (?nb + 1)
        (s\<lparr>ip_entries := E, ip_next_entry := N, blockIndex := B, nextBlockIndexCapacity := M\<rparr>)"
      "\<And>n. live g s n \<Longrightarrow> l \<le> n \<and> E (ent g n) = ip_entries s (ent g n)"
    using ring_insert [OF ring cap sm' L, of alloc "Collect (live g s)" junk] unfolding cur mem_Collect_eq Ball_def by blast
  then show ?thesis
  proof cases
    case no
    have "bl_inv k g (s\<lparr>ip_enq := EIdle False\<rparr>)" by (rule bl_pc [OF inv]) (simp_all add: pc)
    then show ?thesis using no by auto
  next
    case yes
    let ?g = "g\<lparr>off := d, ent := (ent g)(?nb := e), lo := l\<rparr>"
    let ?s = "s\<lparr>ip_entries := E, ip_next_entry := N, blockIndex := B, nextBlockIndexCapacity := M, ip_enq := EBlock x cur e\<rparr>"
    have nb1: "n_blocks ?s = ?nb" "n_entries ?s = ?nb + 1" by (simp_all add: n_blocks_def n_entries_def pc)
    have lk: "linked ?g ?s n" if "live g s n" for n
      using bl_blkD(1) [OF inv that] yes(3) [OF that] that by (auto simp: linked_def live_def)
    note B = blk_keep [OF inv, of ?s ?g, OF _ _ nb1(1) _ _ _ _ lk]
    have lv: "live ?g ?s = live g s" by (rule B(2)) simp_all
    have "bl_inv k ?g ?s"
    proof (rule bl_enq [OF inv, of ?s "[]"])
      show "ring_inv ?g (n_blocks ?s) (n_entries ?s) ?s" unfolding nb1 by (rule ring_frame [OF yes(2)]) simp_all
      show "blk_inv ?g ?s" by (rule B(1)) simp_all
      show "enq_ok ?g ?s (ip_enq ?s)" using T nb1 by simp
    qed (use nb1 lv pc in \<open>auto simp: live_def\<close>)
    then show ?thesis using yes(1) by auto
  qed
qed

lemma bl_rewind:
  assumes inv: "bl_inv k g s" and pc: "ip_enq s = ERewind e"
  shows "\<exists>s1. enq_step junk alloc pick (ERewind e) s = Inr s1 \<and> bl_inv k g s1"
proof -
  let ?nb = "n_blocks s"
  have e: "e = ent g ?nb" using bl_invD(4) [OF inv] pc by simp
  have "ring_inv g ?nb (?nb + 1) s" using bl_invD(2) [OF inv] pc by (simp add: n_entries_def)
  then obtain B where B: "rewind_block_index_tail s = Inr (s\<lparr>blockIndex := B\<rparr>)" "ring_inv g ?nb ?nb (s\<lparr>blockIndex := B\<rparr>)"
    and R: "\<And>n. lo g \<le> n \<Longrightarrow> n < ?nb \<Longrightarrow> ent g n \<noteq> ent g ?nb" using ring_rewind ring_last(3) by metis
  let ?s = "s\<lparr>blockIndex := B, ip_enq := EClear e\<rparr>"
  have nb1: "n_blocks ?s = ?nb" "n_entries ?s = ?nb" by (simp_all add: n_blocks_def n_entries_def pc)
  have lk: "linked g ?s n" if "live g s n" for n using bl_blkD(1) [OF inv that] by (simp add: linked_def)
  note K = blk_keep [OF inv, of ?s g, OF _ _ nb1(1) _ _ _ _ lk]
  have lv: "live g ?s = live g s" by (rule K(2)) simp_all
  have "bl_inv k g ?s"
  proof (rule bl_enq [OF inv, of ?s "[]"])
    show "ring_inv g (n_blocks ?s) (n_entries ?s) ?s" unfolding nb1 by (rule ring_frame [OF B(2)]) simp_all
    show "blk_inv g ?s" by (rule K(1)) simp_all
    have "ent g n \<noteq> e" if "live g s n" for n
      using R [of n] bl_blkD(1) [OF inv that] that e by (simp add: live_def linked_def)
    then show "enq_ok g ?s (ip_enq ?s)" using lv by simp
  qed (use nb1 lv pc in auto)
  then show ?thesis using B(1) by auto
qed

lemma bl_clear:
  assumes inv: "bl_inv k g s" and pc: "ip_enq s = EClear e"
  shows "bl_inv k g (s\<lparr>ip_entries := (ip_entries s)(e := (fst (ip_entries s e), None)), ip_enq := EIdle False\<rparr>)"
proof -
  let ?s = "s\<lparr>ip_entries := (ip_entries s)(e := (fst (ip_entries s e), None)), ip_enq := EIdle False\<rparr>"
  have nb: "n_blocks ?s = n_blocks s" "n_entries ?s = n_entries s" by (simp_all add: n_blocks_def n_entries_def pc)
  have "ent g n \<noteq> e" if "live g s n" for n using bl_invD(4) [OF inv] pc that by simp
  then have lk: "linked g ?s n" if "live g s n" for n using bl_blkD(1) [OF inv that] that by (simp add: linked_def)
  note K = blk_keep [OF inv, of ?s g, OF _ _ nb(1) _ _ _ _ lk]
  have lv: "live g ?s = live g s" by (rule K(2)) simp_all
  show ?thesis
  proof (rule bl_enq [OF inv, of ?s "[]"])
    show "ring_inv g (n_blocks ?s) (n_entries ?s) ?s" unfolding nb by (rule ring_frame [OF bl_invD(2) [OF inv]]) simp_all
    show "blk_inv g ?s" by (rule K(1)) simp_all
  qed (use nb lv pc in auto)
qed

text \<open>The new block.\<close>

lemma bl_block:
  assumes inv: "bl_inv k g s" and pc: "ip_enq s = EBlock x cur e" and b: "b \<notin> ip_used s"
  shows "bl_inv k g (s\<lparr>ip_used := insert b (ip_used s), ip_enq := EReset x cur e b\<rparr>)"
proof -
  let ?s = "s\<lparr>ip_used := insert b (ip_used s), ip_enq := EReset x cur e b\<rparr>"
  have nb: "n_blocks ?s = n_blocks s" "n_entries ?s = n_entries s" by (simp_all add: n_blocks_def n_entries_def pc)
  have lk: "linked g ?s n" if "live g s n" for n using bl_blkD(1) [OF inv that] by (simp add: linked_def)
  note K = blk_keep [OF inv, of ?s g, OF _ _ nb(1) _ _ _ _ lk]
  have lv: "live g ?s = live g s" by (rule K(2)) simp_all
  show ?thesis
  proof (rule bl_enq [OF inv, of ?s "[]"])
    show "ring_inv g (n_blocks ?s) (n_entries ?s) ?s" unfolding nb by (rule ring_frame [OF bl_invD(2) [OF inv]]) simp_all
    show "blk_inv g ?s" by (rule K(1)) simp_all
    have "blk g n \<noteq> b" if "live g s n" for n using bl_blkD(1) [OF inv that] b by (auto simp: linked_def)
    then show "enq_ok g ?s (ip_enq ?s)" using bl_invD(4) [OF inv] pc lv nb by simp
  qed (use nb lv b pc in auto)
qed

lemma bl_reset:
  assumes inv: "bl_inv k g s" and pc: "ip_enq s = EReset x cur e b"
  shows "bl_inv k g (s\<lparr>ip_blocks := (ip_blocks s)(b := reset_empty (ip_blocks s b)), ip_enq := EPublish x cur e b\<rparr>)"
proof -
  let ?s = "s\<lparr>ip_blocks := (ip_blocks s)(b := reset_empty (ip_blocks s b)), ip_enq := EPublish x cur e b\<rparr>"
  have nb: "n_blocks ?s = n_blocks s" "n_entries ?s = n_entries s" by (simp_all add: n_blocks_def n_entries_def pc)
  have "blk g n \<noteq> b" if "live g s n" for n using bl_invD(4) [OF inv] pc that by simp
  then have lk: "linked g ?s n" if "live g s n" for n using bl_blkD(1) [OF inv that] that by (simp add: linked_def)
  note K = blk_keep [OF inv, of ?s g, OF _ _ nb(1) _ _ _ _ lk]
  have lv: "live g ?s = live g s" by (rule K(2)) (simp_all add: reset_empty_def)
  show ?thesis
  proof (rule bl_enq [OF inv, of ?s "[]"])
    show "ring_inv g (n_blocks ?s) (n_entries ?s) ?s" unfolding nb by (rule ring_frame [OF bl_invD(2) [OF inv]]) simp_all
    show "blk_inv g ?s" by (rule K(1)) (simp_all add: reset_empty_def)
    show "enq_ok g ?s (ip_enq ?s)" using bl_invD(4) [OF inv] pc lv nb by (simp add: reset_empty_def)
  qed (use nb lv pc in auto)
qed

lemma tail_uncounted:
  assumes "bl_inv k g s" and "length (ip_in s) \<le> i"
  shows "i \<notin> counted_out g" "i \<notin> taken_out s" "i div 32 \<notin> gone g"
proof -
  show u: "i \<notin> counted_out g" "i \<notin> taken_out s" using bl_invD(1) [OF assms(1)] assms(2) by (auto simp: idx_inv_def)
  then show "i div 32 \<notin> gone g" using bl_blkD(4) [OF assms(1), of "i div 32"] by (auto simp: cells_def subset_iff)
qed

lemma bl_publish:
  assumes inv: "bl_inv k g s" and pc: "ip_enq s = EPublish x cur e b"
  shows "\<exists>g1. bl_inv k g1 (s\<lparr>ip_entries := (ip_entries s)(e := (fst (ip_entries s e), Some b)), tailBlock := Some b, ip_enq := EConstruct x cur\<rparr>)"
proof -
  let ?nb = "n_blocks s" and ?T = "length (ip_in s)"
  define s1 where "s1 = s\<lparr>ip_entries := (ip_entries s)(e := (fst (ip_entries s e), Some b)), tailBlock := Some b, ip_enq := EConstruct x cur\<rparr>"
  define g1 where "g1 = g\<lparr>blk := (blk g)(?nb := b)\<rparr>"
  have ok: "cur = of_nat ?T" "?T mod 32 = 0" "e = ent g ?nb" "b \<in> ip_used s" "\<And>n. live g s n \<Longrightarrow> blk g n \<noteq> b"
    "elementsCompletelyDequeued (ip_blocks s b) = 0" using bl_invD(4) [OF inv] pc by simp_all
  have nb: "?nb = ?T div 32" "n_blocks s1 = ?nb + 1" "n_entries s1 = ?nb + 1" "n_entries s = ?nb + 1"
    using ok(2) pc by (simp_all add: n_blocks_def n_entries_def round_up s1_def)
  have T: "?T = 32 * ?nb" using ok(2) nb(1) by presburger
  note U = tail_uncounted [OF inv]
  have lv: "live g1 s1 n \<longleftrightarrow> live g s n \<or> n = ?nb" for n using U(3) [of ?T] nb(1,2) by (auto simp: live_def g1_def)
  note R = ring_last [OF bl_invD(2) [OF inv, unfolded nb(4)]]
  have old: "ent g n \<noteq> e" "n \<noteq> ?nb" if "live g s n" for n
  proof -
    show "ent g n \<noteq> e" using R(3) [of n] bl_blkD(1) [OF inv that] that ok(3) by (simp add: live_def linked_def)
    show "n \<noteq> ?nb" using that by (simp add: live_def)
  qed
  have "linked g1 s1 ?nb"
  proof -
    have "counted_out g \<inter> cells ?nb = {}" using U(1) T by (auto simp: cells_def)
    then show ?thesis using R(1,2) ok(3,4,6) by (simp add: linked_def g1_def) (simp add: s1_def)
  qed
  moreover have "linked g1 s1 n" if "live g s n" for n
    using bl_blkD(1) [OF inv that] old [OF that] by (simp add: linked_def g1_def s1_def)
  ultimately have lk: "linked g1 s1 n" if "live g1 s1 n" for n using that lv by blast
  have "bl_inv k g1 s1"
  proof (rule bl_enq [OF inv, of s1 "[]"])
    show "ring_inv g1 (n_blocks s1) (n_entries s1) s1"
      unfolding nb(2,3) by (rule ring_frame [OF bl_invD(2) [OF inv, unfolded nb(4)]]) (simp_all add: s1_def g1_def)
    have "elements (ip_blocks s1 (blk g1 (i div 32))) (i mod 32) = Some (ip_in s1 ! i)" if "i < length (ip_in s1)" "i \<notin> taken_out s1" for i
    proof -
      have "i div 32 \<noteq> ?nb" using that(1) T by (auto simp: s1_def)
      then show ?thesis using bl_blkD(3) [OF inv, of i] that by (simp add: s1_def g1_def taken_out_def)
    qed
    moreover have "m = n" if "live g1 s1 m" "live g1 s1 n" "blk g1 m = blk g1 n" for m n
      using that ok(5) [of m] ok(5) [of n] bl_blkD(2) [OF inv, of m n] lv by (auto simp: g1_def split: if_splits)
    ultimately show "blk_inv g1 s1"
      unfolding blk_inv_def using lk bl_blkD(4) [OF inv] nb(1,2) by (simp add: s1_def g1_def)
    show "enq_ok g1 s1 (ip_enq s1)" using ok(1) by (simp add: s1_def)
    show "live g s n \<Longrightarrow> ent g1 n = ent g n \<and> blk g1 n = blk g n" for n using old(2) [of n] by (simp add: g1_def)
    show "live g1 s1 n \<Longrightarrow> live g s n \<or> fresh_of (ip_enq s) = Some (blk g1 n)" for n using lv pc by (auto simp: g1_def)
    show "fresh_of (ip_enq s1) = Some a \<or> (\<exists>n. live g1 s1 n \<and> blk g1 n = a)" if "fresh_of (ip_enq s) = Some a" for a
      using that lv pc by (auto simp: g1_def)
  qed (use nb in \<open>simp_all add: s1_def g1_def\<close>)
  then show ?thesis by (auto simp: s1_def)
qed

text \<open>The element.\<close>

lemma bl_construct:
  assumes inv: "bl_inv k g s" and sm: "small s" and pc: "ip_enq s = EConstruct x cur"
  shows "\<exists>s1. enq_step junk alloc pick (EConstruct x cur) s = Inr s1 \<and> bl_inv k g s1"
proof -
  let ?T = "length (ip_in s)" and ?b = "blk g (length (ip_in s) div 32)"
  define s1 where "s1 = s\<lparr>ip_blocks := (ip_blocks s)(?b := (ip_blocks s ?b)\<lparr>elements := (elements (ip_blocks s ?b))(block_slot cur \<mapsto> x)\<rparr>), ip_enq := EStore x cur\<rparr>"
  have cur: "cur = of_nat ?T" using bl_invD(4) [OF inv] pc by simp
  have slot: "block_slot cur = ?T mod 32" unfolding cur by (rule block_numbers) (use sm in \<open>simp add: small_def\<close>)
  have nb: "n_blocks s = ?T div 32 + 1" "n_blocks s1 = n_blocks s" "n_entries s1 = n_entries s" using pc by (simp_all add: n_blocks_def n_entries_def s1_def)
  have tb: "tailBlock s = Some ?b" using bl_blkD(5) [OF inv] nb(1) by simp
  have lT: "live g s (?T div 32)" using nb(1) tail_uncounted(3) [OF inv, of ?T] by (simp add: live_def)
  have lv: "live g s1 = live g s" using nb by (simp add: live_def fun_eq_iff)
  have lk: "linked g s1 n = linked g s n" for n by (simp add: linked_def s1_def)
  have tk: "taken_out s1 = taken_out s" by (simp add: taken_out_def s1_def)
  have "elements (ip_blocks s1 (blk g (i div 32))) (i mod 32) = Some (ip_in s1 ! i)" if i: "i < length (ip_in s1)" "i \<notin> taken_out s1" for i
  proof -
    have "i \<notin> counted_out g" using i(2) bl_invD(1) [OF inv] tk by (auto simp: idx_inv_def)
    then have l: "live g s (i div 32)" using uncounted_live [OF inv] i(1) by (simp add: s1_def)
    have "i \<noteq> ?T" using i(1) by (simp add: s1_def)
    then have "i div 32 \<noteq> ?T div 32 \<or> i mod 32 \<noteq> ?T mod 32" by (metis div_mult_mod_eq)
    then have "blk g (i div 32) \<noteq> ?b \<or> i mod 32 \<noteq> ?T mod 32" using bl_blkD(2) [OF inv l lT] by auto
    then have "elements (ip_blocks s1 (blk g (i div 32))) (i mod 32) = elements (ip_blocks s (blk g (i div 32))) (i mod 32)"
      by (auto simp: s1_def slot)
    then show ?thesis using bl_blkD(3) [OF inv, of i] i tk by (simp add: s1_def)
  qed
  then have blk: "blk_inv g s1" unfolding blk_inv_def lv lk nb(2) using bl_blkD [OF inv] by (simp add: s1_def)
  have "bl_inv k g s1"
  proof (rule bl_enq [OF inv, of s1 "[]"])
    show "ring_inv g (n_blocks s1) (n_entries s1) s1" unfolding nb(2,3) by (rule ring_frame [OF bl_invD(2) [OF inv]]) (simp_all add: s1_def)
    show "enq_ok g s1 (ip_enq s1)" using cur slot by (simp add: s1_def)
  qed (use nb lv blk pc in \<open>simp_all add: s1_def\<close>)
  then show ?thesis using tb by (simp add: s1_def)
qed

lemma bl_store:
  assumes inv: "bl_inv k g s" and pc: "ip_enq s = EStore x cur"
  shows "bl_inv k g (s\<lparr>tailIndex := 1 + cur, ip_in := ip_in s @ [x], ip_enq := EIdle True\<rparr>)"
proof -
  let ?s = "s\<lparr>tailIndex := 1 + cur, ip_in := ip_in s @ [x], ip_enq := EIdle True\<rparr>" and ?T = "length (ip_in s)"
  have nb: "n_blocks s = ?T div 32 + 1" "n_blocks ?s = n_blocks s" "n_entries ?s = n_entries s" using pc by (simp_all add: n_blocks_def n_entries_def)
  have el: "elements (ip_blocks s (blk g (?T div 32))) (?T mod 32) = Some x" using bl_invD(4) [OF inv] pc by simp
  have lv: "live g ?s = live g s" using nb by (simp add: live_def fun_eq_iff)
  have lk: "linked g ?s n = linked g s n" for n by (simp add: linked_def)
  have tk: "taken_out ?s = taken_out s" by (simp add: taken_out_def)
  have "elements (ip_blocks s (blk g (i div 32))) (i mod 32) = Some ((ip_in s @ [x]) ! i)" if "i < ?T + 1" "i \<notin> taken_out s" for i
    using that el bl_blkD(3) [OF inv, of i] by (cases "i = ?T") (simp_all add: nth_append)
  then have blk: "blk_inv g ?s" unfolding blk_inv_def lv lk tk nb(2) using bl_blkD(1,2,4,5) [OF inv] by simp
  show ?thesis
  proof (rule bl_enq [OF inv, of ?s "[x]"])
    show "ring_inv g (n_blocks ?s) (n_entries ?s) ?s" unfolding nb(2,3) by (rule ring_frame [OF bl_invD(2) [OF inv]]) simp_all
  qed (use nb lv blk pc in simp_all)
qed

text \<open>The producing thread never faults, and keeps the invariant.\<close>

lemma bl_enq_step:
  assumes inv: "bl_inv k g s" and c: "ctr_inv k c s" and sm: "small s" and may: "enq_may alloc pick s"
  shows "\<exists>g1 s1. enq_step junk alloc pick (ip_enq s) s = Inr s1 \<and> bl_inv k g1 s1"
proof -
  let ?T = "length (ip_in s)"
  have ok: "enq_ok g s (ip_enq s)" by (rule bl_invD(4) [OF inv])
  have tail: "tailIndex s = of_nat ?T" by (rule ctr_sets(7) [OF c])
  have head: "headIndex s = of_nat (unat (headIndex s))" "unat (headIndex s) \<le> ?T" using bl_invD(1) [OF inv] by (simp_all add: idx_inv_def)
  have T: "?T < 2 ^ 63" "unat (headIndex s) < 2 ^ 63" using sm head(2) by (simp_all add: small_def)
  show ?thesis
  proof (cases "ip_enq s")
    case (ELoad x)
    have "bl_inv k g (s\<lparr>ip_enq := if ?T mod 32 = 0 then EHead x (of_nat ?T) else EConstruct x (of_nat ?T)\<rparr>)"
      by (rule bl_pc [OF inv]) (simp_all add: ELoad)
    then show ?thesis using ELoad block_numbers(3) [OF T(1)] tail by auto
  next
    case (EHead x cur)
    have "\<not> circular_less_than cur (headIndex s)"
      using circular_less_than_nat [OF T] ok head by (simp add: EHead)
    moreover have "bl_inv k g (s\<lparr>ip_enq := p\<rparr>)" if "p = EIdle False \<or> p = EEntry x cur" for p
      by (rule bl_pc [OF inv]) (use that ok in \<open>auto simp: EHead\<close>)
    ultimately show ?thesis using EHead by auto
  next
    case (EEntry x cur)
    then show ?thesis using bl_entry [OF inv sm EEntry] may by (simp add: enq_may_def)
  next
    case (EBlock x cur e)
    have "bl_inv k g (s\<lparr>ip_enq := ERewind e\<rparr>)" by (rule bl_pc [OF inv]) (use ok in \<open>simp_all add: EBlock\<close>)
    then show ?thesis using EBlock bl_block [OF inv EBlock] may by (cases pick) (auto simp: enq_may_def)
  next
    case (ERewind e)
    then show ?thesis using bl_rewind [OF inv ERewind] by fastforce
  next
    case (EClear e)
    then show ?thesis using bl_clear [OF inv EClear] by auto
  next
    case (EReset x cur e b)
    then show ?thesis using bl_reset [OF inv EReset] by auto
  next
    case (EPublish x cur e b)
    then show ?thesis using bl_publish [OF inv EPublish] by auto
  next
    case (EConstruct x cur)
    then show ?thesis using bl_construct [OF inv sm EConstruct] by fastforce
  next
    case (EStore x cur)
    then show ?thesis using bl_store [OF inv EStore] by auto
  qed (use inv in auto)
qed

section \<open>Reachable states\<close>

text \<open>The counters seen by the dequeuing threads change only when an element is stored.\<close>

lemma insert_keeps:
  assumes "insert_block_index_entry junk alloc base s = Inr (e, s')"
  shows "ip_deqs s' = ip_deqs s" "tailIndex s' = tailIndex s" "dequeueOptimisticCount s' = dequeueOptimisticCount s" "ip_tries s' = ip_tries s"
    "dequeueOvercommit s' = dequeueOvercommit s" "headIndex s' = headIndex s" "ip_in s' = ip_in s"
  using assms unfolding insert_block_index_entry_def new_block_index_def bi_enter_def
  by (auto simp: Let_def assertE_eq_Inr split: option.splits if_splits)

lemma enq_keeps:
  assumes "enq_step junk alloc pick pc s = Inr s'" and "\<And>x cur. pc \<noteq> EStore x cur"
  shows "ip_deqs s' = ip_deqs s" "tailIndex s' = tailIndex s" "dequeueOptimisticCount s' = dequeueOptimisticCount s" "ip_tries s' = ip_tries s"
    "dequeueOvercommit s' = dequeueOvercommit s" "headIndex s' = headIndex s" "ip_in s' = ip_in s"
  using assms by (cases pc; auto simp: res_eq_Inr rewind_block_index_tail_def split: option.splits dest: insert_keeps)+

lemma ctr_frame:
  assumes inv: "ctr_inv k g s" and same: "ip_deqs s' = ip_deqs s" "dequeueOptimisticCount s' = dequeueOptimisticCount s" "ip_tries s' = ip_tries s"
    "dequeueOvercommit s' = dequeueOvercommit s" "headIndex s' = headIndex s" "tailIndex s' = of_nat (length (ip_in s'))" "length (ip_in s) \<le> length (ip_in s')"
  shows "ctr_inv k g s'"
proof -
  have "ctr_pc g s' (ip_deqs s ! j)" if "j < k" for j
    by (rule ctr_pc_mono [of g s]) (use inv same that ctr_finite [OF inv] in \<open>auto simp: ctr_inv_def\<close>)
  moreover have "deq_count Q s' = deq_count Q s" for Q :: "'a deq_pc \<Rightarrow> bool" by (simp add: deq_count_def same)
  ultimately show ?thesis using inv same unfolding ctr_inv_def by (auto intro: le_trans)
qed

lemma ctr_enq:
  assumes "ctr_inv k g s" and "enq_ok b s (ip_enq s)" and "enq_step junk alloc pick (ip_enq s) s = Inr s'"
  shows "ctr_inv k g s'"
proof (cases "\<exists>x cur. ip_enq s = EStore x cur")
  case True
  then show ?thesis using assms by (intro ctr_frame [OF assms(1)]) auto
next
  case False
  then show ?thesis using enq_keeps [OF assms(3)] ctr_sets(7) [OF assms(1)] by (intro ctr_frame [OF assms(1)]) auto
qed

lemma enq_small: "enq_step junk alloc pick pc s = Inr s' \<Longrightarrow> small s' \<Longrightarrow> small s"
  using enq_keeps [of junk alloc pick pc s s'] by (cases "\<exists>x cur. pc = EStore x cur") (auto simp: small_def)

lemma deq_small: "deq_step i pc s = Inr s' \<Longrightarrow> small s' \<Longrightarrow> small s"
  by (cases pc) (auto simp: small_def deq_at_def res_eq_Inr split: option.splits)

lemma start_inv:
  "\<exists>c g. ctr_inv k c (newImplicitProducer junk alloc blocks k) \<and> bl_inv k g (newImplicitProducer junk alloc blocks k)"
proof -
  let ?s = "newImplicitProducer junk alloc blocks k"
  let ?c = "\<lparr>passed_on = {}, failed = {}, failing = {}\<rparr>"
  let ?g = "\<lparr>counted_out = {}, blk = id, ent = id, gone = {}, lo = 0, off = 0\<rparr>"
  have s: "ip_in ?s = []" "ip_enq ?s = EIdle True" "ip_deqs ?s = replicate k (DIdle None)" "ip_out ?s = []" "headIndex ?s = 0" "tailIndex ?s = 0"
    "dequeueOptimisticCount ?s = 0" "dequeueOvercommit ?s = 0" "ip_tries ?s = 0"
    by (simp_all add: newImplicitProducer_def new_block_index_def Let_def)
  have nb: "n_blocks ?s = 0" "n_entries ?s = 0" "taken_out ?s = {}" using s by (simp_all add: n_blocks_def n_entries_def taken_out_def)
  have "ring_inv ?g 0 0 ?s"
  proof (cases alloc)
    case True
    have "\<exists>c. Suc 0 \<le> c \<and> c \<le> 59 \<and> (32 :: nat) = 2 ^ c" by (intro exI [of _ 5]) simp
    then show ?thesis using True by (auto simp: ring_inv_def header_ok_def newImplicitProducer_def new_block_index_def Let_def IMPLICIT_INITIAL_INDEX_SIZE_def)
  qed (simp add: ring_inv_def newImplicitProducer_def new_block_index_def Let_def)
  moreover have "ip_used ?s = {}" by (simp add: newImplicitProducer_def new_block_index_def Let_def)
  ultimately have "bl_inv k ?g ?s" using s nb by (simp add: bl_inv_def idx_inv_def blk_inv_def rel_inv_def used_inv_def live_def)
  moreover have "ctr_inv k ?c ?s" using s by (simp add: ctr_inv_def deq_count_def)
  ultimately show ?thesis by blast
qed

lemma producer_inv: "ip_reach k s \<Longrightarrow> small s \<Longrightarrow> \<exists>c g. ctr_inv k c s \<and> bl_inv k g s"
proof (induction rule: ip_reach.induct)
  case (start junk alloc blocks)
  show ?case by (rule start_inv)
next
  case (enqueue s r x)
  then obtain c g where c: "ctr_inv k c s" and g: "bl_inv k g s" by (auto simp: small_def)
  have "ctr_inv k c (s\<lparr>ip_enq := ELoad x\<rparr>)" by (rule ctr_frame [OF c]) (use ctr_sets(7) [OF c] in simp_all)
  moreover have "bl_inv k g (s\<lparr>ip_enq := ELoad x\<rparr>)" by (rule bl_pc [OF g]) (simp_all add: enqueue)
  ultimately show ?case by blast
next
  case (enq s alloc pick junk s')
  then have sm: "small s" by (blast intro: enq_small)
  then obtain c g where i: "ctr_inv k c s" "bl_inv k g s" using enq.IH by blast
  then show ?case using bl_enq_step [OF i(2,1) sm enq.hyps(2), of junk] ctr_enq [OF i(1) bl_invD(4) [OF i(2)] enq.hyps(3)] enq.hyps(3) by auto
next
  case (dequeue s i r)
  then have "small s" by (simp add: small_def deq_at_def)
  then obtain c g where h: "ctr_inv k c s" "bl_inv k g s" using dequeue.IH by blast
  have "ctr_inv k c (deq_at i DTail s)" by (rule ctr_move [OF h(1)]) (use dequeue.hyps in simp_all)
  moreover have "bl_inv k g (deq_at i DTail s)" by (rule bl_stay [OF h(2)]) (use dequeue.hyps in simp_all)
  ultimately show ?case by blast
next
  case (deq s i s')
  then have sm: "small s" by (blast intro: deq_small)
  then obtain c g where h: "ctr_inv k c s" "bl_inv k g s" using deq.IH by blast
  then show ?case using bl_deq_step [OF h(2,1) deq.hyps(2) sm] ctr_deq [OF h(1) deq.hyps(2) sm deq.hyps(3)] deq.hyps(3) by auto
qed

end
