(* ===== verification/ProducerCalls.thy ===== *)
theory ProducerCalls
  imports ProducerBlocks
begin

text \<open>
  What the calls of the producer of \<open>submodules/concurrentqueue/concurrentqueue.h\<close> return: every element once under any
  order of the steps, and the next element when no other thread dequeues at the same time.
\<close>

section \<open>Whole calls\<close>

lemma deq_at_again [simp]: "deq_at i a (deq_at i b s) = deq_at i a s"
  by (simp add: deq_at_def)

lemma deq_at_nth: "length (ip_deqs s) = k \<Longrightarrow> i < k \<Longrightarrow> ip_deqs (deq_at i pc s) ! i = pc"
  by (simp add: deq_at_def)

lemma deq_run_add: "deq_run i (m + n) s = bindE (deq_run i m s) (deq_run i n)"
  by (induction m arbitrary: s) (simp_all add: bindE_assoc bindE_def split: sum.splits)

lemma enq_run_add: "enq_run junk alloc pick (m + n) s = bindE (enq_run junk alloc pick m s) (enq_run junk alloc pick n)"
  by (induction m arbitrary: s) (simp_all add: bindE_assoc bindE_def split: sum.splits)

lemma enq_run_idle: "ip_enq s = EIdle r \<Longrightarrow> enq_run junk alloc pick n s = Inr s"
  by (induction n) simp_all

lemma reach_length: "ip_reach k s \<Longrightarrow> length (ip_deqs s) = k"
proof (induction rule: ip_reach.induct)
  case (enq s alloc pick junk s')
  then show ?case using enq_keeps(1) [of junk alloc pick "ip_enq s" s s'] by (cases "\<exists>x cur. ip_enq s = EStore x cur") auto
next
  case (deq s i s')
  then show ?case by (cases "ip_deqs s ! i") (auto simp: deq_at_def res_eq_Inr split: option.splits)
qed (simp_all add: newImplicitProducer_def new_block_index_def Let_def)

lemma reach_deq_run: "ip_reach k s \<Longrightarrow> i < k \<Longrightarrow> deq_run i n s = Inr s' \<Longrightarrow> ip_reach k s'"
  by (induction n arbitrary: s) (auto simp: bindE_eq_Inr intro: ip_reach.deq)

lemma reach_dequeue: "ip_reach k s \<Longrightarrow> i < k \<Longrightarrow> ip_deqs s ! i = DIdle r \<Longrightarrow> ip_dequeue i s = Inr s' \<Longrightarrow> ip_reach k s'"
  unfolding ip_dequeue_def by (blast intro: reach_deq_run ip_reach.dequeue)

text \<open>Before the steps that allocate, a call has not changed what they depend on.\<close>

definition enq_early :: "block set \<Rightarrow> nat \<Rightarrow> 'a ImplicitProducer \<Rightarrow> bool" where
  "enq_early used cap s \<longleftrightarrow> (case ip_enq s of
     ELoad x \<Rightarrow> ip_used s = used \<and> nextBlockIndexCapacity s = cap | EHead x cur \<Rightarrow> ip_used s = used \<and> nextBlockIndexCapacity s = cap
   | EEntry x cur \<Rightarrow> ip_used s = used \<and> nextBlockIndexCapacity s = cap | EBlock x cur e \<Rightarrow> ip_used s = used | _ \<Rightarrow> True)"

lemma insert_keeps_used: "insert_block_index_entry junk alloc base s = Inr (e, s') \<Longrightarrow> ip_used s' = ip_used s"
  unfolding insert_block_index_entry_def new_block_index_def bi_enter_def
  by (auto simp: Let_def assertE_eq_Inr split: option.splits if_splits)

lemma early_step: "enq_early used cap s \<Longrightarrow> enq_step junk alloc pick (ip_enq s) s = Inr s' \<Longrightarrow> enq_early used cap s'"
proof (cases "ip_enq s")
  case (EEntry x cur)
  assume early: "enq_early used cap s" and st: "enq_step junk alloc pick (ip_enq s) s = Inr s'"
  then obtain e s1 where "insert_block_index_entry junk alloc cur s = Inr (e, s1)"
    and s': "s' = s1\<lparr>ip_enq := (case e of None \<Rightarrow> EIdle False | Some e \<Rightarrow> EBlock x cur e)\<rparr>" using EEntry by (auto simp: bindE_eq_Inr)
  from insert_keeps_used [OF this(1)] show ?thesis using early EEntry s' by (simp add: enq_early_def split: option.splits)
qed (auto simp: enq_early_def res_eq_Inr split: option.splits)

lemma early_may:
  "enq_early used cap s \<Longrightarrow> alloc \<longrightarrow> cap \<le> 2 ^ 59 \<Longrightarrow> \<forall>b \<in> set_option pick. b \<notin> used \<Longrightarrow> enq_may alloc pick s"
  by (cases "ip_enq s") (auto simp: enq_early_def enq_may_def)

lemma reach_enq_run:
  assumes "alloc \<longrightarrow> cap \<le> 2 ^ 59" and "\<forall>b \<in> set_option pick. b \<notin> used"
  shows "ip_reach k s \<Longrightarrow> enq_early used cap s \<Longrightarrow> enq_run junk alloc pick n s = Inr s' \<Longrightarrow> ip_reach k s'"
proof (induction n arbitrary: s)
  case (Suc n)
  then obtain s1 where s1: "enq_step junk alloc pick (ip_enq s) s = Inr s1" "enq_run junk alloc pick n s1 = Inr s'" by (auto simp: bindE_eq_Inr)
  have "ip_reach k s1" using Suc.prems(1) early_may [OF Suc.prems(2) assms] s1(1) by (rule ip_reach.enq)
  then show ?case using Suc.IH early_step [OF Suc.prems(2) s1(1)] s1(2) by blast
qed simp

lemma reach_enqueue:
  assumes "ip_reach k s" and "ip_enq s = EIdle r" and "alloc \<longrightarrow> nextBlockIndexCapacity s \<le> 2 ^ 59" and "\<forall>b \<in> set_option pick. b \<notin> ip_used s"
    and "ip_enqueue junk alloc pick x s = Inr s'"
  shows "ip_reach k s'"
  by (rule reach_enq_run [OF assms(3,4) ip_reach.enqueue [OF assms(1,2)] _ assms(5) [unfolded ip_enqueue_def]]) (simp add: enq_early_def)

text \<open>One element goes through the queue.\<close>

definition fresh_producer :: "nat ImplicitProducer" where
  "fresh_producer = newImplicitProducer (\<lambda>_. None) True (\<lambda>_. \<lparr>elements = \<lambda>_. None, elementsCompletelyDequeued = 0\<rparr>) 1"

lemma one_enqueued:
  "\<exists>s. ip_enqueue (\<lambda>_. None) True (Some 7) 5 fresh_producer = Inr s \<and> ip_reach 1 s \<and> ip_in s = [5] \<and> ip_deqs s = [DIdle None] \<and> ip_enq s = EIdle True \<and> headIndex s = 0 \<and> ip_tries s = 0"
proof -
  have "case ip_enqueue (\<lambda>_. None) True (Some 7) 5 fresh_producer of Inl _ \<Rightarrow> False
      | Inr s \<Rightarrow> ip_in s = [5] \<and> ip_deqs s = [DIdle None] \<and> ip_enq s = EIdle True \<and> headIndex s = 0 \<and> ip_tries s = 0" by code_simp
  then obtain s where s: "ip_enqueue (\<lambda>_. None) True (Some 7) 5 fresh_producer = Inr s" "ip_in s = [5]" "ip_deqs s = [DIdle None]" "ip_enq s = EIdle True" "headIndex s = 0" "ip_tries s = 0"
    by (auto split: sum.splits)
  have "ip_reach 1 fresh_producer" unfolding fresh_producer_def by (rule ip_reach.start)
  then have "ip_reach 1 s"
    by (rule reach_enqueue [OF _ _ _ _ s(1)]) (simp_all add: fresh_producer_def newImplicitProducer_def new_block_index_def IMPLICIT_INITIAL_INDEX_SIZE_def)
  then show ?thesis using s by blast
qed

lemma one_dequeued:
  "\<exists>s :: nat ImplicitProducer. ip_reach 1 s \<and> ip_in s = [5] \<and> ip_out s = [(0, 5)] \<and> ip_deqs s = [DIdle (Some 5)] \<and> ip_tries s = 1"
proof -
  obtain s0 where s0: "ip_enqueue (\<lambda>_. None) True (Some 7) 5 fresh_producer = Inr s0" "ip_reach 1 s0" "ip_deqs s0 = [DIdle None]" using one_enqueued by blast
  have "case bindE (ip_enqueue (\<lambda>_. None) True (Some 7) 5 fresh_producer) (ip_dequeue 0) of Inl _ \<Rightarrow> False
      | Inr s \<Rightarrow> ip_in s = [5] \<and> ip_out s = [(0, 5)] \<and> ip_deqs s = [DIdle (Some 5)] \<and> ip_tries s = 1" by code_simp
  then obtain s where s: "ip_dequeue 0 s0 = Inr s" "ip_in s = [5]" "ip_out s = [(0, 5)]" "ip_deqs s = [DIdle (Some 5)]" "ip_tries s = 1"
    unfolding s0(1) by (auto split: sum.splits)
  have "ip_reach 1 s" using reach_dequeue [OF s0(2) _ _ s(1)] s0(3) by simp
  then show ?thesis using s by blast
qed

section \<open>The queue\<close>

text \<open>
  C13: Whatever the order of the steps of the producing thread and of \<open>k\<close> dequeuing threads, with fewer than \<open>2 ^ 62\<close> elements and
  attempts: no thread reaches an assertion that fails, a null block or a slot without an element; every element that was taken
  out is the one that was enqueued under its number, and no number is taken out twice; and when no call to \<open>dequeue\<close> is under way, exactly the
  first \<open>headIndex\<close> elements have been taken out, so that none is lost.
\<close>

theorem producer_queue_safe:
  assumes "ip_reach k s" and "length (ip_in s) < 2 ^ 62" and "ip_tries s < 2 ^ 62"
  shows "(\<forall>i < k. \<exists>s'. deq_step i (ip_deqs s ! i) s = Inr s') \<and>
    (\<forall>junk alloc pick. enq_may alloc pick s \<longrightarrow> (\<exists>s'. enq_step junk alloc pick (ip_enq s) s = Inr s')) \<and>
    distinct (map fst (ip_out s)) \<and> (\<forall>(i, x) \<in> set (ip_out s). i < length (ip_in s) \<and> x = ip_in s ! i) \<and>
    ((\<forall>i < k. \<exists>r. ip_deqs s ! i = DIdle r) \<longrightarrow> fst ` set (ip_out s) = {..<unat (headIndex s)})"
proof -
  have sm: "small s" using assms by (simp add: small_def)
  obtain c g where h: "ctr_inv k c s" "bl_inv k g s" using producer_inv [OF assms(1) sm] by blast
  note I = bl_invD(1) [OF h(2), unfolded idx_inv_def]
  show ?thesis
  proof (intro conjI allI impI ballI, goal_cases)
    case (1 i)
    then show ?case using bl_deq_step [OF h(2,1) _ sm] by blast
  next
    case (2 junk alloc pick)
    then show ?case using bl_enq_step [OF h(2,1) sm] by blast
  next
    case 3
    show ?case using I by simp
  next
    case (4 p)
    then have "fst p \<in> taken_out s" by (simp add: taken_out_def)
    then show ?case using I 4 by auto
  next
    case 5
    then have "held_of (ip_deqs s ! j) = None" if "j < k" for j using that by auto
    then have "{..<unat (headIndex s)} \<subseteq> counted_out g" using I by auto
    then show ?case using I by (auto simp: taken_out_def)
  qed
qed


theorem producer_queue_safe_witness:
  "\<exists>s. ip_reach 1 s \<and> ip_in s = [5 :: nat] \<and> ip_out s = [(0, 5)] \<and> (\<exists>s'. deq_step 0 (ip_deqs s ! 0) s = Inr s') \<and>
    fst ` set (ip_out s) = {..<unat (headIndex s)}"
proof -
  obtain s :: "nat ImplicitProducer" where s: "ip_reach 1 s" "ip_in s = [5]" "ip_out s = [(0, 5)]" "ip_deqs s = [DIdle (Some 5)]" "ip_tries s = 1"
    using one_dequeued by blast
  then have "(\<exists>s'. deq_step 0 (ip_deqs s ! 0) s = Inr s') \<and> fst ` set (ip_out s) = {..<unat (headIndex s)}"
    using producer_queue_safe [of 1 s] by simp
  then show ?thesis using s by blast
qed

section \<open>Calls on their own\<close>

text \<open>The second half of a call that has claimed a number.\<close>

lemma finish_call:
  assumes r: "ip_reach k s" and i: "i < k" and sm: "small s" and pc: "ip_deqs s ! i = DEntry idx"
  shows "\<exists>s'. deq_run i 6 s = Inr s' \<and> ip_deqs s' ! i = DIdle (Some (ip_in s ! unat idx)) \<and> headIndex s' = headIndex s \<and> ip_in s' = ip_in s"
proof -
  let ?v = "ip_in s ! unat idx"
  have len: "length (ip_deqs s) = k" by (rule reach_length [OF r])
  note at = deq_at_nth [OF _ i]
  have ex: "\<exists>t'. deq_step i (ip_deqs t ! i) t = Inr t'" if "ip_reach k t" "small t" for t :: "'a ImplicitProducer"
    using producer_inv [OF that] bl_deq_step [OF _ _ i that(2)] by blast
  obtain e where s1: "deq_step i (DEntry idx) s = Inr (deq_at i (DBlock idx e) s)" using ex [OF r sm] pc by (auto simp: bindE_eq_Inr)
  define t1 where "t1 = deq_at i (DBlock idx e) s"
  have r1: "ip_reach k t1" "small t1" "ip_deqs t1 ! i = DBlock idx e"
    using ip_reach.deq [OF r i] pc s1 sm at len by (simp_all add: t1_def small_def deq_at_def)
  obtain b where s2: "deq_step i (DBlock idx e) t1 = Inr (deq_at i (DTake idx e b) s)"
    using ex [OF r1(1,2)] r1(3) by (auto simp: t1_def split: option.splits)
  define t2 where "t2 = deq_at i (DTake idx e b) s"
  have r2: "ip_reach k t2" "small t2" "ip_deqs t2 ! i = DTake idx e b"
    using ip_reach.deq [OF r1(1) i] r1(3) s2 sm at len by (simp_all add: t2_def small_def deq_at_def)
  obtain c g where inv: "bl_inv k g t2" using producer_inv [OF r2(1,2)] by blast
  have el: "elements (ip_blocks t2 b) (block_slot idx) = Some ?v" using bl_take(1) [OF inv i r2(2,3)] by (simp add: t2_def)
  define t3 where "t3 = deq_at i (DEmpty idx e b ?v) (t2\<lparr>ip_blocks := (ip_blocks t2)(b := (ip_blocks t2 b)\<lparr>elements :=
    (elements (ip_blocks t2 b))(block_slot idx := None)\<rparr>), ip_out := ip_out t2 @ [(unat idx, ?v)]\<rparr>)"
  have s3: "deq_step i (DTake idx e b) t2 = Inr t3" using el by (simp add: t3_def)
  have r3: "ip_reach k t3" "small t3" "ip_deqs t3 ! i = DEmpty idx e b ?v" "ip_in t3 = ip_in s" "headIndex t3 = headIndex s" "length (ip_deqs t3) = k"
    using ip_reach.deq [OF r2(1) i] r2(3) s3 sm i len by (simp_all add: t3_def t2_def small_def deq_at_def)
  obtain all b1 where s4: "set_empty (ip_blocks t3 b) = Inr (all, b1)" using ex [OF r3(1,2)] r3(3) by (auto simp: bindE_eq_Inr)
  have run: "deq_run i 6 s = deq_run i 3 t3"
    using s1 s2 s3 pc r1(3) r2(3) by (simp add: numeral_eq_Suc flip: t1_def t2_def t3_def del: deq_step.simps)
  show ?thesis unfolding run using s4 r3 i by (cases all) (auto simp: numeral_eq_Suc deq_at_def)
qed

text \<open>When no call is under way, the counters give the number of the next element.\<close>

lemma idle_counters:
  assumes "ctr_inv k c s" and "\<forall>j < k. \<exists>r. ip_deqs s ! j = DIdle r"
  shows "dequeueOptimisticCount s - dequeueOvercommit s = of_nat (unat (headIndex s))"
proof -
  have none: "deq_count Q s = 0" if "\<And>r. \<not> Q (DIdle r)" for Q
    using assms that by (auto simp: deq_count_def ctr_inv_def filter_empty_conv in_set_conv_nth) metis
  have "deq_count ((=) DHead) s = 0" "deq_count ((=) DUndo) s = 0" "deq_count (\<lambda>pc. try_of pc \<noteq> None) s = 0" by (rule none; simp)+
  then have "ip_tries s = unat (headIndex s) + card (failed c)" using assms(1) by (simp add: ctr_inv_def)
  then show ?thesis using ctr_sets(5,6) [OF assms(1)] by simp
qed

lemma dequeue_quiet:
  assumes "ip_reach k s" and "i < k" and "\<forall>j < k. \<exists>r. ip_deqs s ! j = DIdle r" and "length (ip_in s) < 2 ^ 62" and "ip_tries s + 1 < 2 ^ 62"
  shows "\<exists>s'. ip_dequeue i s = Inr s' \<and> ip_in s' = ip_in s \<and>
    (if unat (headIndex s) < length (ip_in s)
     then ip_deqs s' ! i = DIdle (Some (ip_in s ! unat (headIndex s))) \<and> unat (headIndex s') = unat (headIndex s) + 1
     else ip_deqs s' ! i = DIdle None \<and> headIndex s' = headIndex s)"
proof -
  let ?H = "unat (headIndex s)" and ?T = "length (ip_in s)"
  have len: "length (ip_deqs s) = k" by (rule reach_length [OF assms(1)])
  have "small s" using assms(4,5) by (simp add: small_def)
  then obtain c g where h: "ctr_inv k c s" "bl_inv k g s" using producer_inv [OF assms(1)] by blast
  have H: "?H \<le> ?T" using bl_invD(1) [OF h(2)] by (simp add: idx_inv_def)
  have cmp: "circular_less_than (dequeueOptimisticCount s - dequeueOvercommit s) (tailIndex s) \<longleftrightarrow> ?H < ?T"
    unfolding idle_counters [OF h(1) assms(3)] ctr_sets(7) [OF h(1)] by (rule circular_less_than_nat) (use assms(4) H in simp_all)
  obtain r where idle: "ip_deqs s ! i = DIdle r" using assms(2,3) by blast
  define t where "t = deq_at i (DEntry (headIndex s))
    (s\<lparr>dequeueOptimisticCount := dequeueOptimisticCount s + 1, ip_tries := ip_tries s + 1, headIndex := headIndex s + 1\<rparr>)"
  show ?thesis
  proof (cases "?H < ?T")
    case True
    have run: "deq_run i 6 (deq_at i DTail s) = Inr t"
      using cmp True len assms(2) by (simp add: numeral_eq_Suc t_def deq_at_def)
    then have "ip_reach k t" using reach_deq_run [OF ip_reach.dequeue [OF assms(1,2) idle] assms(2)] by blast
    moreover have "small t" "ip_deqs t ! i = DEntry (headIndex s)" using assms(2,4,5) len by (simp_all add: t_def small_def deq_at_def)
    ultimately obtain s' where s': "deq_run i 6 t = Inr s'" "ip_deqs s' ! i = DIdle (Some (ip_in t ! ?H))" "headIndex s' = headIndex t" "ip_in s' = ip_in t"
      using finish_call [OF _ assms(2)] by blast
    have "ip_dequeue i s = Inr s'" using deq_run_add [of i 6 6 "deq_at i DTail s"] run s'(1) by (simp add: ip_dequeue_def)
    moreover have "unat (headIndex s + 1) = ?H + 1" using True assms(4) unat_u64 [of "?H + 1"] by (simp add: add.commute)
    ultimately show ?thesis using s' True by (simp add: t_def)
  next
    case False
    have "ip_dequeue i s = Inr (deq_at i (DIdle None) s)"
      using cmp False len assms(2) by (simp add: ip_dequeue_def numeral_eq_Suc deq_at_def)
    then show ?thesis using False len assms(2) by (simp add: deq_at_nth)
  qed
qed

text \<open>
  A call to \<open>dequeue\<close> during which no other thread dequeues (the producer may be anywhere in \<open>enqueue\<close>) ends within
  twelve steps. It returns the oldest element that was not taken out and advances \<open>headIndex\<close>, or, when there is none, fails and
  leaves \<open>headIndex\<close> as it is, whatever failed attempts left in the optimistic counters.
\<close>

theorem dequeue_alone:
  assumes "ip_reach k s" and "i < k" and "\<forall>j < k. \<exists>r. ip_deqs s ! j = DIdle r" and "length (ip_in s) < 2 ^ 62" and "ip_tries s + 1 < 2 ^ 62"
  shows "\<exists>s'. ip_dequeue i s = Inr s' \<and> ip_in s' = ip_in s \<and>
    (if unat (headIndex s) < length (ip_in s)
     then ip_deqs s' ! i = DIdle (Some (ip_in s ! unat (headIndex s))) \<and> unat (headIndex s') = unat (headIndex s) + 1
     else ip_deqs s' ! i = DIdle None \<and> headIndex s' = headIndex s)"
  by (rule dequeue_quiet [OF assms])

theorem dequeue_alone_witness:
  "\<exists>s s'. ip_reach 1 s \<and> ip_in s = [5 :: nat] \<and> ip_dequeue 0 s = Inr s' \<and> ip_deqs s' ! 0 = DIdle (Some 5) \<and> unat (headIndex s') = 1"
proof -
  obtain s :: "nat ImplicitProducer" where s: "ip_reach 1 s" "ip_in s = [5]" "ip_deqs s = [DIdle None]" "headIndex s = 0" "ip_tries s = 0"
    using one_enqueued by blast
  then show ?thesis using dequeue_alone [of 1 s 0] by auto
qed

text \<open>A call to \<open>enqueue\<close> that gets the memory it asks for appends its element, wherever the dequeuing threads are.\<close>

lemma insert_some:
  assumes "blockIndex s \<noteq> None" and "insert_block_index_entry junk True base s = Inr (e, s')"
  obtains e0 where "e = Some e0" "ip_in s' = ip_in s" "headIndex s' = headIndex s" "ip_deqs s' = ip_deqs s"
proof -
  have "e \<noteq> None" using assms unfolding insert_block_index_entry_def new_block_index_def by (auto simp: Let_def assertE_eq_Inr split: if_splits)
  then show thesis using that insert_keeps [OF assms(2)] by blast
qed

theorem enqueue_alone:
  assumes "ip_reach k s" and "ip_enq s = EIdle r" and "blockIndex s \<noteq> None" and "nextBlockIndexCapacity s \<le> 2 ^ 59" and "b \<notin> ip_used s"
    and "length (ip_in s) < 2 ^ 62" and "ip_tries s < 2 ^ 62"
  shows "\<exists>s'. ip_enqueue junk True (Some b) x s = Inr s' \<and> ip_enq s' = EIdle True \<and> ip_in s' = ip_in s @ [x] \<and>
    headIndex s' = headIndex s \<and> ip_deqs s' = ip_deqs s"
proof -
  let ?T = "length (ip_in s)" and ?s = "s\<lparr>ip_enq := ELoad x\<rparr>"
  have r0: "ip_reach k ?s" by (rule ip_reach.enqueue [OF assms(1,2)])
  have sm: "small s" "small ?s" using assms(6,7) by (simp_all add: small_def)
  obtain c g where h: "ctr_inv k c s" "bl_inv k g s" using producer_inv [OF assms(1) sm(1)] by blast
  have tail: "tailIndex s = of_nat ?T" by (rule ctr_sets(7) [OF h(1)])
  have head: "headIndex s = of_nat (unat (headIndex s))" "unat (headIndex s) \<le> ?T" using bl_invD(1) [OF h(2)] by (simp_all add: idx_inv_def)
  have T: "?T < 2 ^ 63" "unat (headIndex s) < 2 ^ 63" "?T + 32 < 2 ^ 63" using assms(6) head(2) by simp_all
  note load = block_numbers(3) [OF T(1)]
  show ?thesis
  proof (cases "?T mod 32 = 0")
    case False
    then have "n_blocks s = ?T div 32 + 1" using assms(2) by (simp add: n_blocks_def round_up)
    then have "tailBlock s = Some (blk g (?T div 32))" using bl_blkD(5) [OF h(2)] by simp
    moreover have "enq_step junk True (Some b) (ELoad x) ?s = Inr (s\<lparr>ip_enq := EConstruct x (of_nat ?T)\<rparr>)" using False load tail by simp
    ultimately have "\<exists>s'. enq_run junk True (Some b) (Suc (Suc (Suc 0))) ?s = Inr s' \<and> ip_enq s' = EIdle True \<and> ip_in s' = ip_in s @ [x] \<and>
        headIndex s' = headIndex s \<and> ip_deqs s' = ip_deqs s" by simp
    then show ?thesis using enq_run_add [of junk True "Some b" "Suc (Suc (Suc 0))" 5 ?s] by (auto simp: ip_enqueue_def enq_run_idle)
  next
    case True
    let ?e = "s\<lparr>ip_enq := EEntry x (of_nat ?T)\<rparr>"
    have "\<not> circular_less_than (of_nat ?T) (headIndex s)" using circular_less_than_nat [OF T(1,2)] head by simp
    moreover have "circular_less_than (headIndex s) (of_nat ?T + BLOCK_SIZE)"
      using circular_less_than_nat [OF T(2,3)] head by (simp add: BLOCK_SIZE_def)
    moreover have "enq_step junk True (Some b) (ELoad x) ?s = Inr (s\<lparr>ip_enq := EHead x (of_nat ?T)\<rparr>)" using True load tail by simp
    ultimately have run: "enq_run junk True (Some b) (Suc (Suc 0)) ?s = Inr ?e" by simp
    have "ip_reach k ?e"
      by (rule reach_enq_run [OF _ _ r0 _ run, of "nextBlockIndexCapacity s" "ip_used s"]) (use assms(4,5) in \<open>simp_all add: enq_early_def\<close>)
    moreover have "small ?e" using sm(1) by (simp add: small_def)
    ultimately obtain c' g' where h': "ctr_inv k c' ?e" "bl_inv k g' ?e" using producer_inv by blast
    have "enq_may True (Some b) ?e" using assms(4) by (simp add: enq_may_def)
    then obtain e1 s1 where i1: "insert_block_index_entry junk True (of_nat ?T) ?e = Inr (e1, s1)"
      using bl_enq_step [OF h'(2,1) \<open>small ?e\<close>, of True "Some b" junk] by (auto simp: bindE_eq_Inr)
    then obtain e0 where e0: "e1 = Some e0" "ip_in s1 = ip_in s" "headIndex s1 = headIndex s" "ip_deqs s1 = ip_deqs s"
      by (rule insert_some [rotated]) (use assms(3) in simp_all)
    have "ip_enqueue junk True (Some b) x s = enq_run junk True (Some b) 6 ?e"
      using enq_run_add [of junk True "Some b" "Suc (Suc 0)" 6 ?s] run by (simp add: ip_enqueue_def)
    moreover have "(6 :: nat) = Suc (Suc (Suc (Suc (Suc (Suc 0)))))" by simp
    ultimately show ?thesis using i1 e0 by (simp del: One_nat_def)
  qed
qed


text \<open>The size is exact whenever it is read at one point of the order of steps.\<close>

theorem ip_size_exact:
  assumes "ip_reach k s" and "length (ip_in s) < 2 ^ 62" and "ip_tries s < 2 ^ 62"
  shows "unat (ip_size_approx s) = length (ip_in s) - unat (headIndex s)"
proof -
  let ?H = "unat (headIndex s)" and ?T = "length (ip_in s)"
  obtain c g where h: "ctr_inv k c s" "bl_inv k g s" using producer_inv [OF assms(1)] assms(2,3) by (auto simp: small_def)
  have H: "?H \<le> ?T" "headIndex s = of_nat ?H" using bl_invD(1) [OF h(2)] by (simp_all add: idx_inv_def)
  have "circular_less_than (of_nat ?H) (of_nat ?T :: u64) \<longleftrightarrow> ?H < ?T" by (rule circular_less_than_nat) (use H assms(2) in simp_all)
  moreover have "(of_nat ?T - of_nat ?H :: u64) = of_nat (?T - ?H)" by (rule of_nat_sub [OF H(1)])
  moreover have "unat (of_nat (?T - ?H) :: u64) = ?T - ?H" by (rule unat_u64) (use assms(2) in simp)
  ultimately show ?thesis using ctr_sets(7) [OF h(1)] H unfolding ip_size_approx_def by (simp flip: H(2))
qed

end
