(* ===== verification/ProducerEnd.thy ===== *)
theory ProducerEnd
  imports ProducerCalls
begin

text \<open>
  The destructor of the producer of \<open>submodules/concurrentqueue/concurrentqueue.h\<close>: it destroys the elements that were not taken
  out and gives back every block exactly once.
\<close>

unbundle bit_operations_syntax

text \<open>When no call is under way, the blocks in use are those from the one of the next element on.\<close>

definition quiet :: "nat \<Rightarrow> 'a ImplicitProducer \<Rightarrow> bool" where
  "quiet k s \<longleftrightarrow> (\<exists>r. ip_enq s = EIdle r) \<and> (\<forall>j < k. \<exists>r. ip_deqs s ! j = DIdle r)"

lemma quiet_state:
  assumes inv: "bl_inv k g s" and q: "quiet k s"
  defines "H \<equiv> unat (headIndex s)"
  shows "taken_out s = {..<H}" "H \<le> length (ip_in s)" "n_blocks s = (length (ip_in s) + 31) div 32"
    "live g s n \<longleftrightarrow> H div 32 \<le> n \<and> n < n_blocks s" "ip_used s = blk g ` {H div 32..<n_blocks s}"
proof -
  note I = bl_invD(1) [OF inv, unfolded idx_inv_def]
  have none: "held_of (ip_deqs s ! j) = None" "rel_of (ip_deqs s ! j) = None" if "j < k" for j
    using q that by (auto simp: quiet_def)
  have c: "counted_out g = {..<H}" using I none(1) by (auto simp: H_def)
  show "taken_out s = {..<H}" "H \<le> length (ip_in s)" using I c by (auto simp: H_def)
  show nb: "n_blocks s = (length (ip_in s) + 31) div 32" using q by (auto simp: quiet_def n_blocks_def)
  have cells: "cells n \<subseteq> {..<H} \<longleftrightarrow> n < H div 32" for n
  proof
    assume "cells n \<subseteq> {..<H}"
    then have "32 * n + 31 < H" by (auto simp: cells_def subset_iff)
    then show "n < H div 32" by linarith
  qed (auto simp: cells_def)
  have live: "live g s n \<longleftrightarrow> H div 32 \<le> n \<and> n < n_blocks s" for n
    using bl_blkD(4) [OF inv, of n] fullD [OF inv, of n] none(2) unfolding c cells by (auto simp: live_def) (metis not_le option.distinct(1))+
  then show "live g s n \<longleftrightarrow> H div 32 \<le> n \<and> n < n_blocks s" .
  have "fresh_of (ip_enq s) = None" using q by (auto simp: quiet_def)
  then have "ip_used s \<subseteq> blk g ` {n. live g s n}" using usedD [OF inv] none(2) by (metis (mono_tags, lifting) image_eqI mem_Collect_eq option.distinct(1) subsetI)
  moreover have "blk g ` {n. live g s n} \<subseteq> ip_used s" using bl_blkD(1) [OF inv] by (auto simp: linked_def)
  ultimately show "ip_used s = blk g ` {H div 32..<n_blocks s}" unfolding live by auto
qed

lemma lookup_live:
  assumes inv: "bl_inv k g s" and sm: "small s" and q: "quiet k s" and i: "unat (headIndex s) \<le> i" "i < length (ip_in s)"
  shows "get_block_index_entry_for_index (of_nat i) (s\<lparr>ip_blocks := B, ip_used := U\<rparr>) = Inr (ent g (i div 32))"
    "ip_entries s (ent g (i div 32)) = (of_nat (32 * (i div 32)), Some (blk g (i div 32)))"
proof -
  note Q = quiet_state [OF inv q]
  have nb: "i div 32 < n_blocks s" using i(2) unfolding Q(3) by simp
  then have "live g s (i div 32)" using Q(4) i(1) by (simp add: div_le_mono)
  then have l: "linked g s (i div 32)" by (rule bl_blkD(1) [OF inv])
  then show e: "ip_entries s (ent g (i div 32)) = (of_nat (32 * (i div 32)), Some (blk g (i div 32)))" by (simp add: linked_def)
  have "ring_inv g (n_blocks s) (n_entries s) (s\<lparr>ip_blocks := B, ip_used := U\<rparr>)"
    by (rule ring_frame [OF bl_invD(2) [OF inv]]) simp_all
  moreover have "n_entries s = n_blocks s" using q by (auto simp: quiet_def n_entries_def)
  moreover have "32 * n_blocks s \<le> length (ip_in s) + 31" unfolding Q(3) by simp
  then have "32 * n_blocks s < 2 ^ 63" using sm by (simp add: small_def)
  ultimately show "get_block_index_entry_for_index (of_nat i) (s\<lparr>ip_blocks := B, ip_used := U\<rparr>) = Inr (ent g (i div 32))"
    using l nb e i(2) sm by (intro ring_lookup) (auto simp: linked_def small_def)
qed

text \<open>One turn of the loop: the block of the element is at hand, and the one before it was given back.\<close>

definition cur_block :: "blk_ghost \<Rightarrow> nat \<Rightarrow> nat \<Rightarrow> block option" where
  "cur_block g H i = (if i = H then None else Some (blk g ((i - 1) div 32)))"

definition first_block :: "nat \<Rightarrow> nat \<Rightarrow> nat" where
  "first_block H i = (if i = H then H div 32 else (i - 1) div 32)"

lemma before_div: "0 < i \<Longrightarrow> i div 32 = (if i mod 32 = 0 then (i - 1) div 32 + 1 else (i - 1) div (32 :: nat))"
  by (cases i) (simp_all add: div_Suc)

lemma next_block_ok:
  assumes inv: "bl_inv k g s" and sm: "small s" and q: "quiet k s" and i: "H \<le> i" "i < length (ip_in s)" and H: "H = unat (headIndex s)"
  shows "next_block (of_nat i) (cur_block g H i) (s\<lparr>ip_blocks := B, ip_used := blk g ` {first_block H i..<n_blocks s}\<rparr>) =
    Inr (blk g (i div 32), s\<lparr>ip_blocks := B, ip_used := blk g ` {i div 32..<n_blocks s}\<rparr>)"
proof -
  note Q = quiet_state [OF inv q, folded H]
  note L = lookup_live [OF inv sm q i [unfolded H]]
  have mask: "(of_nat i AND (BLOCK_SIZE - 1) = 0) = (i mod 32 = 0)" by (rule block_numbers) (use i(2) sm in \<open>simp add: small_def\<close>)
  show ?thesis
  proof (cases "i = H")
    case True
    then show ?thesis using L by (simp add: next_block_def cur_block_def first_block_def)
  next
    case False
    show ?thesis
    proof (cases "i mod 32 = 0")
      case True
      have d: "(i - 1) div 32 + 1 = i div 32" using True False i(1) before_div [of i] by simp
      let ?b = "blk g ((i - 1) div 32)"
      have nb: "(i - 1) div 32 < n_blocks s" "H div 32 \<le> (i - 1) div 32" using i False unfolding Q(3) by (auto intro: div_le_mono)
      then have range: "{(i - 1) div 32..<n_blocks s} = insert ((i - 1) div 32) {i div 32..<n_blocks s}" using d by auto
      have "?b \<notin> blk g ` {i div 32..<n_blocks s}"
      proof
        assume "?b \<in> blk g ` {i div 32..<n_blocks s}"
        then obtain n where n: "?b = blk g n" "i div 32 \<le> n" "n < n_blocks s" by auto
        then have "(i - 1) div 32 = n" using bl_blkD(2) [OF inv, of "(i - 1) div 32" n] Q(4) nb d by simp
        then show False using n(2) d by simp
      qed
      then have "blk g ` {(i - 1) div 32..<n_blocks s} - {?b} = blk g ` {i div 32..<n_blocks s}" unfolding range by auto
      then show ?thesis using False True L mask nb by (simp add: next_block_def cur_block_def first_block_def give_back_def)
    next
      case m: False
      then have "(i - 1) div 32 = i div 32" using False i(1) before_div [of i] by simp
      then show ?thesis using False m mask by (simp add: next_block_def cur_block_def first_block_def)
    qed
  qed
qed

lemma first_block_Suc: "H \<le> i \<Longrightarrow> first_block H (i + 1) = i div 32" "H \<le> i \<Longrightarrow> cur_block g H (i + 1) = Some (blk g (i div 32))"
  by (auto simp: first_block_def cur_block_def)

lemma used_then_blocks: "s\<lparr>ip_used := U, ip_blocks := B\<rparr> = s\<lparr>ip_blocks := B, ip_used := U\<rparr>"
  by (cases s) simp

lemma destroy_rest:
  assumes inv: "bl_inv k g s" and sm: "small s" and q: "quiet k s" and H: "H = unat (headIndex s)"
  shows "H \<le> i \<Longrightarrow> i \<le> length (ip_in s) \<Longrightarrow>
    (\<And>m. i \<le> m \<Longrightarrow> m < length (ip_in s) \<Longrightarrow> elements (B (blk g (m div 32))) (m mod 32) = Some (ip_in s ! m)) \<Longrightarrow>
    \<exists>B'. destroy_from (of_nat i) (of_nat (length (ip_in s))) (cur_block g H i) dead (s\<lparr>ip_blocks := B, ip_used := blk g ` {first_block H i..<n_blocks s}\<rparr>) =
      Inr (dead @ drop i (ip_in s), s\<lparr>ip_blocks := B', ip_used := blk g ` {first_block H (length (ip_in s))..<n_blocks s}\<rparr>)"
proof (induction "length (ip_in s) - i" arbitrary: i B dead)
  case 0
  then have "i = length (ip_in s)" by simp
  then show ?case by (subst destroy_from.simps) auto
next
  case (Suc d)
  let ?T = "length (ip_in s)" and ?b = "blk g (i div 32)"
  have i: "i < ?T" "d = ?T - (i + 1)" using Suc.hyps(2) by simp_all
  note Q = quiet_state [OF inv q, folded H]
  have T: "?T < 2 ^ 63" using sm by (simp add: small_def)
  have ne: "(of_nat i :: u64) \<noteq> of_nat ?T" using of_nat_inj [of i ?T] i(1) T by auto
  have slot: "block_slot (of_nat i) = i mod 32" by (rule block_numbers) (use i(1) T in simp)
  have el: "elements (B ?b) (i mod 32) = Some (ip_in s ! i)" using Suc.prems(3) [of i] i(1) by simp
  define B1 where "B1 = B(?b := (B ?b)\<lparr>elements := (elements (B ?b))(i mod 32 := None)\<rparr>)"
  have B1: "elements (B1 (blk g (m div 32))) (m mod 32) = Some (ip_in s ! m)" if m: "i + 1 \<le> m" "m < ?T" for m
  proof -
    have "m div 32 \<noteq> i div 32 \<or> m mod 32 \<noteq> i mod 32" using m(1) by (metis Suc_eq_plus1 div_mult_mod_eq not_less_eq_eq order_refl)
    moreover have "live g s (m div 32)" "live g s (i div 32)" using m i(1) Suc.prems(1) unfolding Q(4) Q(3) by (auto intro: div_le_mono)
    ultimately have "blk g (m div 32) \<noteq> ?b \<or> m mod 32 \<noteq> i mod 32" using bl_blkD(2) [OF inv] by blast
    then show ?thesis using Suc.prems(3) [of m] m by (auto simp: B1_def)
  qed
  have step: "destroy_from (of_nat i) (of_nat ?T) (cur_block g H i) dead (s\<lparr>ip_blocks := B, ip_used := blk g ` {first_block H i..<n_blocks s}\<rparr>) =
    destroy_from (of_nat (i + 1)) (of_nat ?T) (cur_block g H (i + 1)) (dead @ [ip_in s ! i])
      (s\<lparr>ip_blocks := B1, ip_used := blk g ` {first_block H (i + 1)..<n_blocks s}\<rparr>)"
    using ne el slot unfolding first_block_Suc [OF Suc.prems(1)]
    by (subst destroy_from.simps) (simp add: next_block_ok [OF inv sm q Suc.prems(1) i(1) H] B1_def add.commute used_then_blocks)
  have "drop i (ip_in s) = ip_in s ! i # drop (i + 1) (ip_in s)" using Cons_nth_drop_Suc [OF i(1)] by simp
  then show ?case unfolding step using Suc.hyps(1) [OF i(2), of B1 "dead @ [ip_in s ! i]"] Suc.prems(1) i(1) B1 by simp
qed

text \<open>
  C14: Destroying a producer with which no thread works any more destroys exactly the elements that were not taken out, in their order,
  and gives back every block in use, none twice; the loop comes to an end, no assertion fails and no null block is followed.
\<close>

theorem producer_destroyed:
  assumes "ip_reach k s" and "length (ip_in s) < 2 ^ 62" and "ip_tries s < 2 ^ 62" and "ip_enq s = EIdle r" and "\<forall>j < k. \<exists>r. ip_deqs s ! j = DIdle r"
  shows "\<exists>s'. ip_destroy s = Inr (drop (unat (headIndex s)) (ip_in s), s') \<and> ip_used s' = {}"
proof -
  let ?H = "unat (headIndex s)" and ?T = "length (ip_in s)"
  have sm: "small s" using assms(2,3) by (simp add: small_def)
  have q: "quiet k s" using assms(4,5) by (simp add: quiet_def)
  obtain c g where h: "ctr_inv k c s" "bl_inv k g s" using producer_inv [OF assms(1) sm] by blast
  note Q = quiet_state [OF h(2) q] and inv = h(2)
  have T: "?T < 2 ^ 63" "?H < 2 ^ 63" using assms(2) Q(2) by simp_all
  have tail: "tailIndex s = of_nat ?T" and head: "headIndex s = of_nat ?H" using ctr_sets(7) [OF h(1)] by simp_all
  have start: "s\<lparr>ip_blocks := ip_blocks s, ip_used := blk g ` {first_block ?H ?H..<n_blocks s}\<rparr> = s" "cur_block g ?H ?H = None"
    using Q(5) by (simp_all add: first_block_def cur_block_def)
  obtain B' where d: "destroy_from (of_nat ?H) (of_nat ?T) None [] s = Inr (drop ?H (ip_in s), s\<lparr>ip_blocks := B', ip_used := blk g ` {first_block ?H ?T..<n_blocks s}\<rparr>)"
    using destroy_rest [OF inv sm q refl order_refl Q(2), of "ip_blocks s" "[]"] bl_blkD(3) [OF inv] Q(1) start by auto
  have less: "circular_less_than (headIndex s) (tailIndex s) \<longleftrightarrow> ?H < ?T" unfolding tail by (subst head) (rule circular_less_than_nat [OF T(2,1)])
  have eq: "headIndex s = tailIndex s \<longleftrightarrow> ?H = ?T" unfolding tail using of_nat_inj [OF T(2,1)] head by auto
  have mask: "(tailIndex s AND (BLOCK_SIZE - 1) = 0) = (?T mod 32 = 0)" unfolding tail by (rule block_numbers(3) [OF T(1)])
  have last: "n_blocks s = (if ?T mod 32 = 0 then ?T div 32 else ?T div 32 + 1)" unfolding Q(3) by (rule round_up)
  show ?thesis
  proof (cases "?H \<noteq> ?T \<or> ?T mod 32 \<noteq> 0")
    case True
    then have "0 < ?T" using Q(2) by (cases ?T) auto
    then have f: "n_blocks s = first_block ?H ?T + 1" using True Q(2) last before_div [of ?T] by (auto simp: first_block_def)
    then have "tailBlock s = Some (blk g (first_block ?H ?T))" using bl_blkD(5) [OF inv] by simp
    then show ?thesis using True d f less eq mask Q(2) head tail by (auto simp: ip_destroy_def Let_def give_back_def)
  next
    case False
    then have "n_blocks s = first_block ?H ?T" using last by (simp add: first_block_def)
    then show ?thesis using False d less eq mask head tail by (auto simp: ip_destroy_def Let_def split: option.split)
  qed
qed

theorem producer_destroyed_witness:
  "\<exists>s s'. ip_reach 1 s \<and> ip_in s = [5 :: nat] \<and> ip_destroy s = Inr ([5], s') \<and> ip_used s' = {}"
proof -
  obtain s :: "nat ImplicitProducer" where s: "ip_reach 1 s" "ip_in s = [5]" "ip_deqs s = [DIdle None]" "ip_enq s = EIdle True" "headIndex s = 0" "ip_tries s = 0"
    using one_enqueued by blast
  then show ?thesis using producer_destroyed [of 1 s True] by auto
qed

end
