(* ===== verification/ConcurrentQueue.thy ===== *)
theory ConcurrentQueue
  imports ProducerEnd
begin

text \<open>
  \<open>submodules/concurrentqueue/concurrentqueue.h\<close>, \<open>ConcurrentQueue::try_dequeue\<close> and \<open>size_approx\<close>: a consumer looks at the producers in the order
  of their list and takes from the one that looks fullest among the first three with elements.
\<close>

section \<open>Operations\<close>

text \<open>The first loop of \<open>try_dequeue\<close>: how many producers with elements were met, and the place of the best one.\<close>

fun best_producer :: "nat \<Rightarrow> nat option \<Rightarrow> u64 \<Rightarrow> nat \<Rightarrow> 'a ImplicitProducer list \<Rightarrow> nat \<times> nat option" where
  "best_producer nonEmptyCount best bestSize j [] = (nonEmptyCount, best)"
| "best_producer nonEmptyCount best bestSize j (p # ps) =
     (if nonEmptyCount < 3
      then let size = ip_size_approx p in
           if 0 < size
           then if bestSize < size then best_producer (nonEmptyCount + 1) (Some j) size (j + 1) ps
                else best_producer (nonEmptyCount + 1) best bestSize (j + 1) ps
           else best_producer nonEmptyCount best bestSize (j + 1) ps
      else (nonEmptyCount, best))"

definition dequeued :: "tid \<Rightarrow> 'a ImplicitProducer \<Rightarrow> 'a option" where
  "dequeued i p = (case ip_deqs p ! i of DIdle r \<Rightarrow> r | _ \<Rightarrow> None)"

text \<open>The second loop: every producer but the best one is tried.\<close>

fun try_others :: "tid \<Rightarrow> nat \<Rightarrow> nat \<Rightarrow> 'a ImplicitProducer list \<Rightarrow> ('a option \<times> 'a ImplicitProducer list) res" where
  "try_others i best j [] = Inr (None, [])"
| "try_others i best j (p # ps) =
     (if j = best then bindE (try_others i best (j + 1) ps) (\<lambda>(r, ps'). Inr (r, p # ps'))
      else bindE (ip_dequeue i p) (\<lambda>p'.
           case dequeued i p' of
             Some x \<Rightarrow> Inr (Some x, p' # ps)
           | None \<Rightarrow> bindE (try_others i best (j + 1) ps) (\<lambda>(r, ps'). Inr (r, p' # ps'))))"

definition try_dequeue :: "tid \<Rightarrow> 'a ImplicitProducer list \<Rightarrow> ('a option \<times> 'a ImplicitProducer list) res" where
  "try_dequeue i ps =
     (case best_producer 0 None 0 0 ps of
        (nonEmptyCount, best) \<Rightarrow>
          if 0 < nonEmptyCount
          then case best of
                 None \<Rightarrow> Inl Undefined
               | Some b \<Rightarrow> bindE (ip_dequeue i (ps ! b)) (\<lambda>p'.
                   case dequeued i p' of
                     Some x \<Rightarrow> Inr (Some x, ps[b := p'])
                   | None \<Rightarrow> try_others i b 0 (ps[b := p']))
          else Inr (None, ps))"

fun cq_size_approx :: "'a ImplicitProducer list \<Rightarrow> u64" where
  "cq_size_approx [] = 0"
| "cq_size_approx (p # ps) = ip_size_approx p + cq_size_approx ps"

section \<open>Consumers\<close>

text \<open>A producer that no consumer is working on, and the elements in it.\<close>

definition producer_idle :: "nat \<Rightarrow> 'a ImplicitProducer \<Rightarrow> bool" where
  "producer_idle k p \<longleftrightarrow> ip_reach k p \<and> (\<forall>j < k. \<exists>r. ip_deqs p ! j = DIdle r) \<and> length (ip_in p) < 2 ^ 62 \<and> ip_tries p + 1 < 2 ^ 62"

definition remaining :: "'a ImplicitProducer \<Rightarrow> 'a list" where
  "remaining p = drop (unat (headIndex p)) (ip_in p)"

lemma size_remaining:
  assumes "producer_idle k p"
  shows "unat (ip_size_approx p) = length (remaining p)" "(0 < ip_size_approx p) = (remaining p \<noteq> [])"
proof -
  show e: "unat (ip_size_approx p) = length (remaining p)"
    using ip_size_exact [of k p] assms by (simp add: producer_idle_def remaining_def)
  show "(0 < ip_size_approx p) = (remaining p \<noteq> [])" using e by (metis length_greater_0_conv unat_gt_0 word_gt_0)
qed

text \<open>The producers that are compared: the first three with elements.\<close>

definition compared :: "nat \<Rightarrow> nat \<Rightarrow> 'a ImplicitProducer list \<Rightarrow> (nat \<times> 'a ImplicitProducer) list" where
  "compared c j ps = take (3 - c) (filter (\<lambda>(b, p). remaining p \<noteq> []) (enumerate j ps))"

lemma compared_simps:
  "compared c j [] = []" "\<not> c < 3 \<Longrightarrow> compared c j ps = []" "remaining p = [] \<Longrightarrow> compared c j (p # ps) = compared c (j + 1) ps"
  by (simp_all add: compared_def)

lemma compared_Cons:
  assumes "c < 3" and "remaining p \<noteq> []"
  shows "compared c j (p # ps) = (j, p) # compared (c + 1) (j + 1) ps"
proof -
  obtain d where "3 - c = Suc d" "3 - (c + 1) = d" using assms(1) by (metis Suc_diff_Suc Suc_eq_plus1)
  then show ?thesis using assms(2) by (simp add: compared_def)
qed

definition beats :: "u64 \<Rightarrow> nat option \<Rightarrow> nat option \<Rightarrow> (nat \<times> 'a ImplicitProducer) list \<Rightarrow> bool" where
  "beats s best best' cs \<longleftrightarrow> best' = best \<and> (\<forall>e \<in> set cs. ip_size_approx (snd e) \<le> s) \<or>
     (\<exists>e \<in> set cs. best' = Some (fst e) \<and> s < ip_size_approx (snd e) \<and> (\<forall>q \<in> set cs. ip_size_approx (snd q) \<le> ip_size_approx (snd e)))"

lemma beats_new:
  assumes "s < ip_size_approx p" and "beats (ip_size_approx p) (Some j) best' cs"
  shows "beats s best best' ((j, p) # cs)"
  using assms(2) unfolding beats_def
proof
  assume "best' = Some j \<and> (\<forall>e \<in> set cs. ip_size_approx (snd e) \<le> ip_size_approx p)"
  then show "best' = best \<and> (\<forall>e \<in> set ((j, p) # cs). ip_size_approx (snd e) \<le> s) \<or> (\<exists>e \<in> set ((j, p) # cs). best' = Some (fst e) \<and>
      s < ip_size_approx (snd e) \<and> (\<forall>q \<in> set ((j, p) # cs). ip_size_approx (snd q) \<le> ip_size_approx (snd e)))"
    using assms(1) by (intro disjI2 bexI [of _ "(j, p)"]) auto
next
  assume "\<exists>e \<in> set cs. best' = Some (fst e) \<and> ip_size_approx p < ip_size_approx (snd e) \<and> (\<forall>q \<in> set cs. ip_size_approx (snd q) \<le> ip_size_approx (snd e))"
  then obtain e where e: "e \<in> set cs" "best' = Some (fst e)" "ip_size_approx p < ip_size_approx (snd e)" "\<forall>q \<in> set cs. ip_size_approx (snd q) \<le> ip_size_approx (snd e)"
    by blast
  then show "best' = best \<and> (\<forall>e \<in> set ((j, p) # cs). ip_size_approx (snd e) \<le> s) \<or> (\<exists>e \<in> set ((j, p) # cs). best' = Some (fst e) \<and>
      s < ip_size_approx (snd e) \<and> (\<forall>q \<in> set ((j, p) # cs). ip_size_approx (snd q) \<le> ip_size_approx (snd e)))"
    using assms(1) by (intro disjI2 bexI [of _ e]) (auto intro: less_trans)
qed

lemma beats_old:
  assumes "ip_size_approx p \<le> s" and "beats s best best' cs"
  shows "beats s best best' ((j, p) # cs)"
  using assms by (auto simp: beats_def)

lemma best_producer_spec:
  assumes "\<forall>p \<in> set ps. producer_idle k p" and "best_producer c best s j ps = (c', best')"
  shows "c' = c + length (compared c j ps) \<and> beats s best best' (compared c j ps)"
  using assms
proof (induction ps arbitrary: c best s j)
  case Nil
  then show ?case by (simp add: compared_simps beats_def)
next
  case (Cons p ps)
  have idle: "\<forall>p \<in> set ps. producer_idle k p" "producer_idle k p" using Cons.prems(1) by simp_all
  note S = size_remaining(2) [OF idle(2)] and IH = Cons.IH [OF idle(1)]
  consider "\<not> c < 3" | "c < 3" "remaining p = []" | "c < 3" "remaining p \<noteq> []" "s < ip_size_approx p" | "c < 3" "remaining p \<noteq> []" "ip_size_approx p \<le> s"
    by fastforce
  then show ?case
  proof cases
    case 1
    then show ?thesis using Cons.prems(2) by (simp add: compared_simps beats_def)
  next
    case 2
    then have "best_producer c best s (j + 1) ps = (c', best')" using Cons.prems(2) S by (simp add: Let_def)
    from IH [OF this] 2 show ?thesis by (simp add: compared_simps)
  next
    case 3
    then have "best_producer (c + 1) (Some j) (ip_size_approx p) (j + 1) ps = (c', best')" using Cons.prems(2) S by (simp add: Let_def)
    from IH [OF this] 3 show ?thesis by (simp add: compared_Cons beats_new)
  next
    case 4
    then have "best_producer (c + 1) best s (j + 1) ps = (c', best')" using Cons.prems(2) S leD [OF 4(3)] by (simp add: Let_def)
    from IH [OF this] 4 show ?thesis by (simp add: compared_Cons beats_old)
  qed
qed

lemma compared_mem: "(b, p) \<in> set (compared 0 0 ps) \<Longrightarrow> b < length ps \<and> p = ps ! b \<and> remaining p \<noteq> []"
  by (auto simp: compared_def enumerate_eq_zip in_set_zip dest!: in_set_takeD)

lemma compared_Nil: "compared 0 j ps = [] \<longleftrightarrow> (\<forall>p \<in> set ps. remaining p = [])"
proof (induction ps arbitrary: j)
  case (Cons p ps)
  then show ?case by (cases "remaining p = []") (simp_all add: compared_simps compared_Cons)
qed (simp add: compared_simps)

lemma dequeue_remaining:
  assumes "producer_idle k p" and "i < k" and "remaining p \<noteq> []"
  obtains p' where "ip_dequeue i p = Inr p'" "dequeued i p' = Some (hd (remaining p))" "remaining p' = tl (remaining p)"
proof -
  have lt: "unat (headIndex p) < length (ip_in p)" using assms(3) by (simp add: remaining_def)
  obtain p' where "ip_dequeue i p = Inr p'" "ip_in p' = ip_in p" "ip_deqs p' ! i = DIdle (Some (ip_in p ! unat (headIndex p)))"
    "unat (headIndex p') = unat (headIndex p) + 1"
    using dequeue_quiet [of k p i] assms(1,2) lt by (auto simp: producer_idle_def)
  then show thesis using that lt by (simp add: dequeued_def remaining_def hd_drop_conv_nth tl_drop drop_Suc)
qed

text \<open>
  C15: A call to \<open>try_dequeue\<close> on producers that no other consumer works on fails exactly when all of them are empty, and then changes nothing.
  Otherwise it returns the oldest element of one producer and takes it out there: of the one with the most elements among the first three
  on the list that have any.
\<close>

theorem try_dequeue_fullest:
  assumes "\<forall>p \<in> set ps. producer_idle k p" and "i < k"
  shows "if \<forall>p \<in> set ps. remaining p = [] then try_dequeue i ps = Inr (None, ps)
    else \<exists>b p'. (b, ps ! b) \<in> set (compared 0 0 ps) \<and> try_dequeue i ps = Inr (Some (hd (remaining (ps ! b))), ps[b := p']) \<and>
      remaining p' = tl (remaining (ps ! b)) \<and> (\<forall>(c, q) \<in> set (compared 0 0 ps). length (remaining q) \<le> length (remaining (ps ! b)))"
proof -
  obtain c best where e: "best_producer 0 None 0 0 ps = (c, best)" by fastforce
  note B = best_producer_spec [OF assms(1) e, simplified]
  have len: "length (remaining q) = unat (ip_size_approx q)" if "(b, q) \<in> set (compared 0 0 ps)" for b q
    using size_remaining(1) [of k q] assms(1) compared_mem [OF that] by simp
  show ?thesis
  proof (cases "compared 0 0 ps = []")
    case True
    then have "c = 0" using B by simp
    then show ?thesis using True e by (simp add: try_dequeue_def compared_Nil)
  next
    case False
    have "\<not> (\<forall>x \<in> set (compared 0 0 ps). ip_size_approx (snd x) \<le> 0)"
    proof
      assume z: "\<forall>x \<in> set (compared 0 0 ps). ip_size_approx (snd x) \<le> 0"
      obtain b q where m: "(b, q) \<in> set (compared 0 0 ps)" using False by (cases "compared 0 0 ps") auto
      then show False using z compared_mem [OF m] len [OF m] by auto
    qed
    then obtain x where x: "x \<in> set (compared 0 0 ps)" "best = Some (fst x)" "\<forall>q \<in> set (compared 0 0 ps). ip_size_approx (snd q) \<le> ip_size_approx (snd x)"
      using B unfolding beats_def by blast
    obtain b p where bp: "x = (b, p)" by fastforce
    have b: "b < length ps" "p = ps ! b" "remaining p \<noteq> []" using compared_mem x(1) bp by auto
    have "producer_idle k p" using assms(1) b by simp
    then obtain p' where p': "ip_dequeue i p = Inr p'" "dequeued i p' = Some (hd (remaining p))" "remaining p' = tl (remaining p)"
      using dequeue_remaining assms(2) b(3) by blast
    have "length (remaining q) \<le> length (remaining p)" if "(a, q) \<in> set (compared 0 0 ps)" for a q
      using x(3) that bp len [OF that] len [of b p] x(1) by (auto simp: word_le_nat_alt)
    moreover have "try_dequeue i ps = Inr (Some (hd (remaining (ps ! b))), ps[b := p'])"
      using e B False x(2) bp p' b by (simp add: try_dequeue_def)
    moreover have "\<not> (\<forall>p \<in> set ps. remaining p = [])" using False compared_Nil by blast
    ultimately show ?thesis using x(1) bp b(2) p'(3) by auto
  qed
qed

theorem try_dequeue_fullest_witness:
  "\<exists>s p'. producer_idle 1 s \<and> remaining s = [5 :: nat] \<and> try_dequeue 0 [s] = Inr (Some 5, [p']) \<and> remaining p' = []"
proof -
  obtain s :: "nat ImplicitProducer" where s: "ip_reach 1 s" "ip_in s = [5]" "ip_deqs s = [DIdle None]" "headIndex s = 0" "ip_tries s = 0"
    using one_enqueued by blast
  have idle: "producer_idle 1 s" using s by (simp add: producer_idle_def)
  have rem: "remaining s = [5]" using s by (simp add: remaining_def)
  obtain b p' where "(b, [s] ! b) \<in> set (compared 0 0 [s])" "try_dequeue 0 [s] = Inr (Some (hd (remaining ([s] ! b))), [s][b := p'])"
    "remaining p' = tl (remaining ([s] ! b))"
    using try_dequeue_fullest [of "[s]" 1 0] idle rem by auto
  moreover from this(1) have "b = 0" using compared_mem [of b "[s] ! b" "[s]"] by simp
  ultimately show ?thesis using idle rem by auto
qed

end
