(* ===== verification/ProducerHash.thy ===== *)
theory ProducerHash
  imports Prelude
begin

text \<open>
  \<open>submodules/concurrentqueue/concurrentqueue.h\<close>, from a thread to its producer (\<open>get_or_add_implicit_producer\<close>): a hash table without
  locks for reading and inserting, which grows by a bigger table in front of the old ones. Each atomic operation is one step of its
  thread, and all threads see the steps in one order. Keys are never taken out, since the notification of the exit of a thread is
  compiled out (\<open>MOODYCAMEL_CPP11_THREAD_LOCAL_SUPPORTED\<close>); for the same reason no producer becomes inactive and none is recycled.
\<close>

unbundle bit_operations_syntax

section \<open>State\<close>

type_synonym producer = nat

definition hash_thread_id :: "u64 \<Rightarrow> u64" where
  "hash_thread_id h0 =
     (let h1 = h0 XOR drop_bit 33 h0; h2 = h1 * 0xff51afd7ed558ccd; h3 = h2 XOR drop_bit 33 h2; h4 = h3 * 0xc4ceb9fe1a85ec53
      in h4 XOR drop_bit 33 h4)"

definition invalid_thread_id :: u64 where
  "invalid_thread_id = 0"

record ImplicitProducerHash =
  ph_capacity :: nat
  ph_keys :: "nat \<Rightarrow> u64"
  ph_values :: "nat \<Rightarrow> producer option"

text \<open>
  The tables are numbered in the order in which they were made: \<open>prev\<close> of a table is the one before it, and \<open>implicitProducerHash\<close> is the
  last one. A thread that probes has made \<open>n\<close> turns of its loop: its index is \<open>n\<close> places after the hash of its id. \<open>ph_results\<close> records
  what the calls returned.
\<close>

datatype ph_pc =
    HIdle
  | HLoad
  | HProbe nat nat nat
  | HInsert nat "producer option" nat
  | HInsertCas nat "producer option" nat
  | HInsertVal nat "producer option" nat
  | HCount nat
  | HFull nat nat
  | HLocked nat
  | HGrow nat nat
  | HUnlock nat nat
  | HGrowFailed
  | HClear
  | HCheck nat nat
  | HReload nat
  | HCreate nat
  | HCountProducer nat producer
  | HTail nat producer
  | HLink nat producer "producer option"
  | HSub

record ProducerHash =
  ph_tables :: "ImplicitProducerHash list"
  implicitProducerHashCount :: nat
  implicitProducerHashResizeInProgress :: bool
  producerCount :: nat
  ph_producers :: "producer list"
  ph_next_producer :: producer
  ph_pcs :: "ph_pc list"
  ph_results :: "(tid \<times> producer option) list"

section \<open>Operations\<close>

definition new_hash :: "nat \<Rightarrow> ImplicitProducerHash" where
  "new_hash c = \<lparr>ph_capacity = c, ph_keys = (\<lambda>_. invalid_thread_id), ph_values = (\<lambda>_. None)\<rparr>"

definition INITIAL_IMPLICIT_PRODUCER_HASH_SIZE :: nat where
  "INITIAL_IMPLICIT_PRODUCER_HASH_SIZE = 32"

definition populate_initial_implicit_producer_hash :: "nat \<Rightarrow> ProducerHash" where
  "populate_initial_implicit_producer_hash k =
     \<lparr>ph_tables = [new_hash INITIAL_IMPLICIT_PRODUCER_HASH_SIZE], implicitProducerHashCount = 0, implicitProducerHashResizeInProgress = False,
      producerCount = 0, ph_producers = [], ph_next_producer = 0, ph_pcs = replicate k HIdle, ph_results = []\<rparr>"

definition ph_main :: "ProducerHash \<Rightarrow> nat" where
  "ph_main s = length (ph_tables s) - 1"

definition ph_at :: "tid \<Rightarrow> ph_pc \<Rightarrow> ProducerHash \<Rightarrow> ProducerHash" where
  "ph_at i pc s = s\<lparr>ph_pcs := (ph_pcs s)[i := pc]\<rparr>"

definition ph_return :: "tid \<Rightarrow> producer option \<Rightarrow> ProducerHash \<Rightarrow> ProducerHash" where
  "ph_return i r s = ph_at i HIdle (s\<lparr>ph_results := ph_results s @ [(i, r)]\<rparr>)"

definition ph_index :: "u64 \<Rightarrow> nat \<Rightarrow> ImplicitProducerHash \<Rightarrow> nat" where
  "ph_index tid n h = (unat (hash_thread_id tid AND of_nat (ph_capacity h - 1)) + n) mod ph_capacity h"

definition set_key :: "nat \<Rightarrow> nat \<Rightarrow> u64 \<Rightarrow> ProducerHash \<Rightarrow> ProducerHash" where
  "set_key t x key s = s\<lparr>ph_tables := (ph_tables s)[t := (ph_tables s ! t)\<lparr>ph_keys := (ph_keys (ph_tables s ! t))(x := key)\<rparr>]\<rparr>"

definition set_value :: "nat \<Rightarrow> nat \<Rightarrow> producer option \<Rightarrow> ProducerHash \<Rightarrow> ProducerHash" where
  "set_value t x v s = s\<lparr>ph_tables := (ph_tables s)[t := (ph_tables s ! t)\<lparr>ph_values := (ph_values (ph_tables s ! t))(x := v)\<rparr>]\<rparr>"

function grow_capacity :: "nat \<Rightarrow> nat \<Rightarrow> nat" where
  "grow_capacity n c = (if 0 < c \<and> c div 2 \<le> n then grow_capacity n (2 * c) else c)"
  by pat_completeness auto
termination by (relation "measure (\<lambda>(n, c). 2 * n + 2 - c)") auto

declare grow_capacity.simps [simp del]

definition full_half :: "ImplicitProducerHash \<Rightarrow> nat \<Rightarrow> bool" where
  "full_half h n \<longleftrightarrow> ph_capacity h div 2 \<le> n"

text \<open>\<open>tid\<close> is the id of thread \<open>i\<close>; \<open>alloc\<close> tells whether memory is there for a table or a producer.\<close>

fun ph_step :: "tid \<Rightarrow> u64 \<Rightarrow> bool \<Rightarrow> ph_pc \<Rightarrow> ProducerHash \<Rightarrow> ProducerHash" where
  "ph_step i tid alloc HIdle s = s"
| "ph_step i tid alloc HLoad s = ph_at i (HProbe (ph_main s) (ph_main s) 0) s"
| "ph_step i tid alloc (HProbe main t n) s =
     (let h = ph_tables s ! t; x = ph_index tid n h; probedKey = ph_keys h x in
      if probedKey = tid then if t = main then ph_return i (ph_values h x) s else ph_at i (HInsert main (ph_values h x) 0) s
      else if probedKey = invalid_thread_id then ph_at i (if t = 0 then HCount main else HProbe main (t - 1) 0) s
      else ph_at i (HProbe main t (n + 1)) s)"
| "ph_step i tid alloc (HInsert main v n) s =
     (let h = ph_tables s ! main in
      ph_at i (if ph_keys h (ph_index tid n h) = invalid_thread_id then HInsertCas main v n else HInsert main v (n + 1)) s)"
| "ph_step i tid alloc (HInsertCas main v n) s =
     (let h = ph_tables s ! main; x = ph_index tid n h in
      if ph_keys h x = invalid_thread_id then ph_at i (HInsertVal main v n) (set_key main x tid s) else ph_at i (HInsert main v (n + 1)) s)"
| "ph_step i tid alloc (HInsertVal main v n) s = ph_return i v (set_value main (ph_index tid n (ph_tables s ! main)) v s)"
| "ph_step i tid alloc (HCount main) s =
     (let newCount = 1 + implicitProducerHashCount s in ph_at i (HFull main newCount) (s\<lparr>implicitProducerHashCount := newCount\<rparr>))"
| "ph_step i tid alloc (HFull main newCount) s =
     (if full_half (ph_tables s ! main) newCount \<and> \<not> implicitProducerHashResizeInProgress s
      then ph_at i (HLocked newCount) (s\<lparr>implicitProducerHashResizeInProgress := True\<rparr>) else ph_at i (HCheck main newCount) s)"
| "ph_step i tid alloc (HLocked newCount) s =
     (let main = ph_main s in ph_at i (if full_half (ph_tables s ! main) newCount then HGrow main newCount else HUnlock main newCount) s)"
| "ph_step i tid alloc (HGrow main newCount) s =
     (if alloc
      then let s1 = s\<lparr>ph_tables := ph_tables s @ [new_hash (grow_capacity newCount (2 * ph_capacity (ph_tables s ! main)))]\<rparr>
           in ph_at i (HUnlock (ph_main s1) newCount) s1
      else ph_at i HGrowFailed s)"
| "ph_step i tid alloc (HUnlock main newCount) s = ph_at i (HCheck main newCount) (s\<lparr>implicitProducerHashResizeInProgress := False\<rparr>)"
| "ph_step i tid alloc HGrowFailed s = ph_at i HClear (s\<lparr>implicitProducerHashCount := implicitProducerHashCount s - 1\<rparr>)"
| "ph_step i tid alloc HClear s = ph_return i None (s\<lparr>implicitProducerHashResizeInProgress := False\<rparr>)"
| "ph_step i tid alloc (HCheck main newCount) s =
     (let c = ph_capacity (ph_tables s ! main) in ph_at i (if newCount < c div 2 + c div 4 then HCreate main else HReload newCount) s)"
| "ph_step i tid alloc (HReload newCount) s = ph_at i (HFull (ph_main s) newCount) s"
| "ph_step i tid alloc (HCreate main) s =
     (if alloc then ph_at i (HCountProducer main (ph_next_producer s)) (s\<lparr>ph_next_producer := ph_next_producer s + 1\<rparr>) else ph_at i HSub s)"
| "ph_step i tid alloc (HCountProducer main p) s = ph_at i (HTail main p) (s\<lparr>producerCount := producerCount s + 1\<rparr>)"
| "ph_step i tid alloc (HTail main p) s = ph_at i (HLink main p (case ph_producers s of [] \<Rightarrow> None | q # qs \<Rightarrow> Some q)) s"
| "ph_step i tid alloc (HLink main p prevTail) s =
     (let tail = (case ph_producers s of [] \<Rightarrow> None | q # qs \<Rightarrow> Some q) in
      if tail = prevTail then ph_at i (HInsert main (Some p) 0) (s\<lparr>ph_producers := p # ph_producers s\<rparr>) else ph_at i (HLink main p tail) s)"
| "ph_step i tid alloc HSub s = ph_return i None (s\<lparr>implicitProducerHashCount := implicitProducerHashCount s - 1\<rparr>)"

text \<open>What threads with the ids \<open>ids\<close> can reach.\<close>

inductive ph_reach :: "u64 list \<Rightarrow> ProducerHash \<Rightarrow> bool" for ids where
  start: "ph_reach ids (populate_initial_implicit_producer_hash (length ids))"
| call: "ph_reach ids s \<Longrightarrow> i < length ids \<Longrightarrow> ph_pcs s ! i = HIdle \<Longrightarrow> ph_reach ids (ph_at i HLoad s)"
| step: "ph_reach ids s \<Longrightarrow> i < length ids \<Longrightarrow> ph_reach ids (ph_step i (ids ! i) alloc (ph_pcs s ! i) s)"

end
