(* ===== verification/HashThreads.thy ===== *)
theory HashThreads
  imports ProducerHash
begin

text \<open>
  Every thread gets a producer of its own from the hash table of \<open>submodules/concurrentqueue/concurrentqueue.h\<close>, the same one in every
  call, and every probing loop ends.
\<close>

unbundle bit_operations_syntax

section \<open>The invariant\<close>

text \<open>
  \<open>own\<close> is the producer made for a thread, \<open>act\<close> are the threads counted in \<open>implicitProducerHashCount\<close>, and \<open>num\<close> the count that a thread
  was given.
\<close>

record ph_ghost =
  own :: "tid \<Rightarrow> producer option"
  num :: "tid \<Rightarrow> nat"
  act :: "tid set"

definition cap :: "ProducerHash \<Rightarrow> nat \<Rightarrow> nat" where
  "cap s t = ph_capacity (ph_tables s ! t)"

definition key :: "ProducerHash \<Rightarrow> nat \<Rightarrow> nat \<Rightarrow> u64" where
  "key s t x = ph_keys (ph_tables s ! t) x"

definition ph_val :: "ProducerHash \<Rightarrow> nat \<Rightarrow> nat \<Rightarrow> producer option" where
  "ph_val s t x = ph_values (ph_tables s ! t) x"

definition slot :: "ProducerHash \<Rightarrow> nat \<Rightarrow> u64 \<Rightarrow> nat \<Rightarrow> nat" where
  "slot s t tid n = (unat (hash_thread_id tid AND of_nat (cap s t - 1)) + n) mod cap s t"

definition keyed :: "ProducerHash \<Rightarrow> nat \<Rightarrow> u64 \<Rightarrow> bool" where
  "keyed s t tid \<longleftrightarrow> (\<exists>x < cap s t. key s t x = tid)"

definition tables :: "ProducerHash \<Rightarrow> nat" where
  "tables s = length (ph_tables s)"

definition room :: "ph_ghost \<Rightarrow> ProducerHash \<Rightarrow> nat \<Rightarrow> tid \<Rightarrow> bool" where
  "room g s t i \<longleftrightarrow> i \<in> act g \<and> num g i < cap s t div 2 + cap s t div 4"

definition table_ok :: "u64 list \<Rightarrow> ph_ghost \<Rightarrow> ProducerHash \<Rightarrow> nat \<Rightarrow> bool" where
  "table_ok ids g s t \<longleftrightarrow> 4 \<le> cap s t \<and> (\<forall>u < t. cap s u \<le> cap s t) \<and>
     (\<forall>x < cap s t. key s t x = 0 \<or> (\<exists>i < length ids. key s t x = ids ! i)) \<and>
     (\<forall>x < cap s t. \<forall>i < length ids. key s t x = ids ! i \<longrightarrow>
        (\<exists>n < cap s t. x = slot s t (ids ! i) n \<and> (\<forall>m < n. key s t (slot s t (ids ! i) m) \<noteq> 0)) \<and>
        (\<forall>y < cap s t. key s t y = key s t x \<longrightarrow> y = x) \<and> room g s t i \<and> own g i \<noteq> None \<and>
        (ph_val s t x = own g i \<or> (\<exists>n. ph_pcs s ! i = HInsertVal t (own g i) n \<and> x = slot s t (ids ! i) n)))"

definition settled :: "u64 \<Rightarrow> ph_ghost \<Rightarrow> ProducerHash \<Rightarrow> tid \<Rightarrow> bool" where
  "settled tid g s i \<longleftrightarrow> (case own g i of None \<Rightarrow> i \<notin> act g | Some p \<Rightarrow> p \<in> set (ph_producers s) \<and> (\<exists>t < tables s. keyed s t tid))"

fun ph_ok :: "u64 \<Rightarrow> ph_ghost \<Rightarrow> ProducerHash \<Rightarrow> tid \<Rightarrow> ph_pc \<Rightarrow> bool" where
  "ph_ok tid g s i HIdle \<longleftrightarrow> settled tid g s i"
| "ph_ok tid g s i HLoad \<longleftrightarrow> settled tid g s i"
| "ph_ok tid g s i (HProbe main t n) \<longleftrightarrow> settled tid g s i \<and> t \<le> main \<and> main < tables s \<and> (\<forall>u. t < u \<and> u < tables s \<longrightarrow> \<not> keyed s u tid) \<and>
     (\<forall>m < n. key s t (slot s t tid m) \<noteq> 0 \<and> key s t (slot s t tid m) \<noteq> tid)"
| "ph_ok tid g s i (HInsert main v n) \<longleftrightarrow> v = own g i \<and> (\<exists>p \<in> set (ph_producers s). own g i = Some p) \<and> main < tables s \<and> \<not> keyed s main tid \<and>
     room g s main i \<and> (\<forall>m < n. key s main (slot s main tid m) \<noteq> 0)"
| "ph_ok tid g s i (HInsertCas main v n) \<longleftrightarrow> v = own g i \<and> (\<exists>p \<in> set (ph_producers s). own g i = Some p) \<and> main < tables s \<and> \<not> keyed s main tid \<and>
     room g s main i \<and> (\<forall>m < n. key s main (slot s main tid m) \<noteq> 0)"
| "ph_ok tid g s i (HInsertVal main v n) \<longleftrightarrow> v = own g i \<and> (\<exists>p \<in> set (ph_producers s). own g i = Some p) \<and> main < tables s \<and>
     key s main (slot s main tid n) = tid"
| "ph_ok tid g s i (HCount main) \<longleftrightarrow> own g i = None \<and> i \<notin> act g \<and> main < tables s"
| "ph_ok tid g s i (HFull main c) \<longleftrightarrow> own g i = None \<and> i \<in> act g \<and> num g i = c \<and> main < tables s"
| "ph_ok tid g s i (HLocked c) \<longleftrightarrow> own g i = None \<and> i \<in> act g \<and> num g i = c"
| "ph_ok tid g s i (HGrow main c) \<longleftrightarrow> own g i = None \<and> i \<in> act g \<and> num g i = c \<and> main = tables s - 1"
| "ph_ok tid g s i (HUnlock main c) \<longleftrightarrow> own g i = None \<and> i \<in> act g \<and> num g i = c \<and> main < tables s"
| "ph_ok tid g s i HGrowFailed \<longleftrightarrow> own g i = None \<and> i \<in> act g"
| "ph_ok tid g s i HClear \<longleftrightarrow> own g i = None \<and> i \<notin> act g"
| "ph_ok tid g s i (HCheck main c) \<longleftrightarrow> own g i = None \<and> i \<in> act g \<and> num g i = c \<and> main < tables s"
| "ph_ok tid g s i (HReload c) \<longleftrightarrow> own g i = None \<and> i \<in> act g \<and> num g i = c"
| "ph_ok tid g s i (HCreate main) \<longleftrightarrow> own g i = None \<and> room g s main i \<and> main < tables s"
| "ph_ok tid g s i (HCountProducer main p) \<longleftrightarrow> own g i = Some p \<and> p \<notin> set (ph_producers s) \<and> room g s main i \<and> main < tables s \<and> (\<forall>u < tables s. \<not> keyed s u tid)"
| "ph_ok tid g s i (HTail main p) \<longleftrightarrow> own g i = Some p \<and> p \<notin> set (ph_producers s) \<and> room g s main i \<and> main < tables s \<and> (\<forall>u < tables s. \<not> keyed s u tid)"
| "ph_ok tid g s i (HLink main p q) \<longleftrightarrow> own g i = Some p \<and> p \<notin> set (ph_producers s) \<and> room g s main i \<and> main < tables s \<and> (\<forall>u < tables s. \<not> keyed s u tid)"
| "ph_ok tid g s i HSub \<longleftrightarrow> own g i = None \<and> i \<in> act g"

fun locks :: "ph_pc \<Rightarrow> bool" where
  "locks (HLocked c) = True" | "locks (HGrow main c) = True" | "locks (HUnlock main c) = True" | "locks HGrowFailed = True" |
  "locks HClear = True" | "locks _ = False"

definition numbered :: "ph_ghost \<Rightarrow> bool" where
  "numbered g \<longleftrightarrow> (\<forall>S \<subseteq> act g. S \<noteq> {} \<longrightarrow> (\<exists>i \<in> S. card S \<le> num g i))"

definition own_inj :: "ph_ghost \<Rightarrow> bool" where
  "own_inj g \<longleftrightarrow> (\<forall>i j p. own g i = Some p \<longrightarrow> own g j = Some p \<longrightarrow> i = j)"

definition lock_inv :: "nat \<Rightarrow> ProducerHash \<Rightarrow> bool" where
  "lock_inv k s \<longleftrightarrow> (\<forall>i < k. locks (ph_pcs s ! i) \<longrightarrow> implicitProducerHashResizeInProgress s \<and> (\<forall>j < k. j \<noteq> i \<longrightarrow> \<not> locks (ph_pcs s ! j)))"

definition ph_glob :: "u64 list \<Rightarrow> ph_ghost \<Rightarrow> ProducerHash \<Rightarrow> bool" where
  "ph_glob ids g s \<longleftrightarrow> length (ph_pcs s) = length ids \<and> 0 < tables s \<and> act g \<subseteq> {..<length ids} \<and> implicitProducerHashCount s = card (act g) \<and>
     numbered g \<and> own_inj g \<and> lock_inv (length ids) s \<and> (\<forall>i p. own g i = Some p \<longrightarrow> p < ph_next_producer s) \<and>
     distinct (ph_producers s) \<and> (\<forall>p \<in> set (ph_producers s). p < ph_next_producer s) \<and>
     (\<forall>i p. (i, Some p) \<in> set (ph_results s) \<longrightarrow> own g i = Some p \<and> p \<in> set (ph_producers s))"

definition ph_inv :: "u64 list \<Rightarrow> ph_ghost \<Rightarrow> ProducerHash \<Rightarrow> bool" where
  "ph_inv ids g s \<longleftrightarrow> ph_glob ids g s \<and> (\<forall>t < tables s. table_ok ids g s t) \<and> (\<forall>i < length ids. ph_ok (ids ! i) g s i (ph_pcs s ! i))"

text \<open>A table always has a free place, so that no thread probes more places than there are.\<close>

lemma ph_invD:
  assumes "ph_inv ids g s"
  shows "ph_glob ids g s" "t < tables s \<Longrightarrow> table_ok ids g s t" "i < length ids \<Longrightarrow> ph_ok (ids ! i) g s i (ph_pcs s ! i)"
  using assms by (simp_all add: ph_inv_def)

lemma hash_room:
  assumes inv: "ph_inv ids g s" and t: "t < tables s"
  shows "\<exists>x < cap s t. key s t x = 0"
proof (rule ccontr)
  assume "\<not> ?thesis"
  then have full: "key s t x \<noteq> 0" if "x < cap s t" for x using that by blast
  have ok: "table_ok ids g s t" by (rule ph_invD(2) [OF inv t])
  have C: "4 \<le> cap s t" using ok by (simp add: table_ok_def)
  have "\<exists>i. i < length ids \<and> key s t x = ids ! i" if "x < cap s t" for x using ok full [OF that] that by (auto simp: table_ok_def)
  then obtain f where f: "\<And>x. x < cap s t \<Longrightarrow> f x < length ids \<and> key s t x = ids ! f x" by metis
  have r: "room g s t (f x)" if "x < cap s t" for x using ok f [OF that] that by (auto simp: table_ok_def)
  have "inj_on f {..<cap s t}"
  proof (rule inj_onI)
    fix x y assume "x \<in> {..<cap s t}" "y \<in> {..<cap s t}" "f x = f y"
    then have xy: "x < cap s t" "y < cap s t" "key s t y = key s t x" using f [of x] f [of y] by auto
    moreover have "f x < length ids" "key s t x = ids ! f x" using f [OF xy(1)] by auto
    ultimately show "x = y" using ok unfolding table_ok_def by blast
  qed
  then have card: "card (f ` {..<cap s t}) = cap s t" by (simp add: card_image)
  have "f ` {..<cap s t} \<subseteq> act g" using r by (auto simp: room_def)
  moreover have "f ` {..<cap s t} \<noteq> {}" using C by (auto simp: lessThan_empty_iff)
  ultimately obtain i where "i \<in> f ` {..<cap s t}" "cap s t \<le> num g i"
    using ph_invD(1) [OF inv] card unfolding ph_glob_def numbered_def by metis
  then obtain x where x: "x < cap s t" "cap s t \<le> num g (f x)" by auto
  moreover have "num g (f x) < cap s t div 2 + cap s t div 4" using r [OF x(1)] by (simp add: room_def)
  moreover have "cap s t div 2 + cap s t div 4 \<le> cap s t" by linarith
  ultimately show False by simp
qed

lemma turns_bound:
  assumes "ph_inv ids g s" and "t < tables s" and "\<forall>m < n. key s t (slot s t tid m) \<noteq> 0"
  shows "n < cap s t"
proof (rule ccontr)
  assume n: "\<not> n < cap s t"
  obtain x where x: "x < cap s t" "key s t x = 0" using hash_room [OF assms(1,2)] by blast
  let ?h = "unat (hash_thread_id tid AND of_nat (cap s t - 1))" and ?C = "cap s t"
  let ?m = "(x + (?C - ?h mod ?C)) mod ?C"
  have "?m < ?C" using x(1) by simp
  have "slot s t tid ?m = (?h mod ?C + (x + (?C - ?h mod ?C))) mod ?C" unfolding slot_def by (simp add: mod_add_right_eq mod_add_left_eq)
  also have "?h mod ?C + (x + (?C - ?h mod ?C)) = x + ?C"
  proof -
    have "?h mod ?C \<le> ?C" using x(1) by (simp add: less_imp_le)
    then show ?thesis by simp
  qed
  finally have "slot s t tid ?m = x" using x(1) by simp
  then show False using assms(3) x(2) n \<open>?m < ?C\<close> by (metis not_less order_less_le_trans)
qed

section \<open>The threads that do not move\<close>

lemma ph_at_sel [simp]:
  "ph_tables (ph_at i pc s) = ph_tables s" "implicitProducerHashCount (ph_at i pc s) = implicitProducerHashCount s"
  "implicitProducerHashResizeInProgress (ph_at i pc s) = implicitProducerHashResizeInProgress s" "ph_producers (ph_at i pc s) = ph_producers s"
  "ph_next_producer (ph_at i pc s) = ph_next_producer s" "ph_results (ph_at i pc s) = ph_results s" "length (ph_pcs (ph_at i pc s)) = length (ph_pcs s)"
  "cap (ph_at i pc s) = cap s" "key (ph_at i pc s) = key s" "ph_val (ph_at i pc s) = ph_val s" "slot (ph_at i pc s) = slot s" "keyed (ph_at i pc s) = keyed s"
  "tables (ph_at i pc s) = tables s" "room g (ph_at i pc s) = room g s" "settled tid g (ph_at i pc s) j = settled tid g s j"
  by (auto simp: ph_at_def cap_def key_def ph_val_def slot_def keyed_def tables_def room_def settled_def fun_eq_iff split: option.splits)

lemma ph_ok_at [simp]: "ph_ok tid g (ph_at i pc s) j p = ph_ok tid g s j p"
  by (cases p) simp_all

lemma ph_at_nth: "i < length (ph_pcs s) \<Longrightarrow> ph_pcs (ph_at i pc s) ! j = (if j = i then pc else ph_pcs s ! j)"
  by (simp add: ph_at_def nth_list_update)

text \<open>What a step of thread \<open>i\<close> leaves of the tables and of the bookkeeping of the other threads.\<close>

definition grows :: "u64 list \<Rightarrow> tid \<Rightarrow> ph_ghost \<Rightarrow> ph_ghost \<Rightarrow> ProducerHash \<Rightarrow> ProducerHash \<Rightarrow> bool" where
  "grows ids i g g1 s s1 \<longleftrightarrow> ph_pcs s1 = ph_pcs s \<and> tables s \<le> tables s1 \<and> (tables s1 = tables s \<or> locks (ph_pcs s ! i)) \<and>
     (\<forall>t < tables s. cap s1 t = cap s t) \<and> (\<forall>t < tables s. \<forall>x. key s1 t x = key s t x \<or> key s t x = 0 \<and> key s1 t x = ids ! i) \<and>
     (\<forall>t x. tables s \<le> t \<longrightarrow> t < tables s1 \<longrightarrow> key s1 t x = 0) \<and> set (ph_producers s) \<subseteq> set (ph_producers s1) \<and>
     (\<forall>p \<in> set (ph_producers s1). p \<in> set (ph_producers s) \<or> own g1 i = Some p) \<and>
     (\<forall>j. j \<noteq> i \<longrightarrow> own g1 j = own g j \<and> num g1 j = num g j \<and> (j \<in> act g1 \<longleftrightarrow> j \<in> act g))"

lemma ids_nz: "0 \<notin> set ids \<Longrightarrow> j < length ids \<Longrightarrow> ids ! j \<noteq> 0"
  by (metis nth_mem)

lemma keyed_other:
  assumes "grows ids i g g1 s s1" and "tid \<noteq> ids ! i" and "tid \<noteq> 0" and "t < tables s1"
  shows "keyed s1 t tid \<longleftrightarrow> t < tables s \<and> keyed s t tid"
proof (cases "t < tables s")
  case True
  then have "cap s1 t = cap s t" "\<And>x. key s1 t x = tid \<longleftrightarrow> key s t x = tid" using assms by (auto simp: grows_def) (metis)+
  then show ?thesis using True by (simp add: keyed_def)
next
  case False
  then have "\<And>x. key s1 t x = 0" using assms(1,4) by (simp add: grows_def)
  then show ?thesis using False assms(3) by (auto simp: keyed_def)
qed

lemma others_ok:
  assumes inv: "ph_inv ids g s" and gr: "grows ids i g g1 s s1" and i: "i < length ids" and j: "j < length ids" "j \<noteq> i"
    and ids: "distinct ids" "0 \<notin> set ids" and inj: "own_inj g1"
  shows "ph_ok (ids ! j) g1 s1 j (ph_pcs s ! j)"
proof -
  let ?tid = "ids ! j"
  have tid: "?tid \<noteq> ids ! i" "?tid \<noteq> 0" using ids i j ids_nz [OF ids(2)] by (auto simp: nth_eq_iff_index_eq)
  have ok: "ph_ok ?tid g s j (ph_pcs s ! j)" by (rule ph_invD(3) [OF inv j(1)])
  have le: "tables s \<le> tables s1" using gr by (simp add: grows_def)
  note K = keyed_other [OF gr tid]
  have same: "own g1 j = own g j" "num g1 j = num g j" "(j \<in> act g1) = (j \<in> act g)" using gr j(2) by (auto simp: grows_def)
  have cap: "cap s1 t = cap s t" "slot s1 t = slot s t" "room g1 s1 t j = room g s t j" if "t < tables s" for t
    using gr that same by (auto simp: grows_def slot_def room_def fun_eq_iff)
  have kp: "key s1 t x = key s t x" if "t < tables s" "key s t x \<noteq> 0" for t x using gr that unfolding grows_def by blast
  have prods: "set (ph_producers s) \<subseteq> set (ph_producers s1)" using gr by (simp add: grows_def)
  have new: "p \<notin> set (ph_producers s1)" if "own g j = Some p" "p \<notin> set (ph_producers s)" for p
  proof
    assume "p \<in> set (ph_producers s1)"
    then have "own g1 i = Some p" using gr that(2) by (auto simp: grows_def)
    then show False using inj that(1) same(1) j(2) by (auto simp: own_inj_def)
  qed
  have none: "\<forall>u < tables s1. \<not> keyed s1 u ?tid" if "\<forall>u < tables s. \<not> keyed s u ?tid" using K that by blast
  have st: "settled ?tid g1 s1 j" if "settled ?tid g s j"
    using that same prods K le by (auto simp: settled_def split: option.splits) (meson less_le_trans)+
  show ?thesis
  proof (cases "ph_pcs s ! j")
    case (HProbe main t n)
    then show ?thesis using ok st le K kp cap by auto
  next
    case (HInsert main v n)
    then show ?thesis using ok same prods le K cap kp by auto
  next
    case (HInsertCas main v n)
    then show ?thesis using ok same prods le K cap kp by auto
  next
    case (HInsertVal main v n)
    then show ?thesis using ok same prods le cap kp [of main "slot s main ?tid n"] tid(2) by auto
  next
    case (HGrow main c)
    then have "\<not> locks (ph_pcs s ! i)" using ph_invD(1) [OF inv] i j unfolding ph_glob_def lock_inv_def by (metis locks.simps(2))
    then have "tables s1 = tables s" using gr by (simp add: grows_def)
    then show ?thesis using HGrow ok same by simp
  qed (use ok st same le cap none new in \<open>auto simp: less_le_trans\<close>)
qed

section \<open>Steps\<close>

lemma ph_assemble:
  assumes inv: "ph_inv ids g s" and gr: "grows ids i g g1 s s1" and i: "i < length ids" and ids: "distinct ids" "0 \<notin> set ids"
    and glob: "ph_glob ids g1 (ph_at i pc s1)" and tabs: "\<And>t. t < tables s1 \<Longrightarrow> table_ok ids g1 (ph_at i pc s1) t" and ok: "ph_ok (ids ! i) g1 s1 i pc"
  shows "ph_inv ids g1 (ph_at i pc s1)"
proof -
  have len: "i < length (ph_pcs s1)" "ph_pcs s1 = ph_pcs s" using gr ph_invD(1) [OF inv] i by (simp_all add: grows_def ph_glob_def)
  have "ph_ok (ids ! j) g1 s1 j (ph_pcs (ph_at i pc s1) ! j)" if "j < length ids" for j
  proof (cases "j = i")
    case False
    have "ph_ok (ids ! j) g1 s1 j (ph_pcs s ! j)"
      by (rule others_ok [OF inv gr i that False ids]) (use glob in \<open>simp add: ph_glob_def\<close>)
    then show ?thesis using False len by (simp add: ph_at_nth)
  qed (use ok len in \<open>simp add: ph_at_nth\<close>)
  then show ?thesis using glob tabs by (simp add: ph_inv_def)
qed

lemma tables_same:
  assumes inv: "ph_inv ids g s" and gr: "grows ids i g g1 s s1" and i: "i < length ids" and tab: "ph_tables s1 = ph_tables s"
    and pc: "\<And>main v n. ph_pcs s ! i \<noteq> HInsertVal main v n"
    and keep: "own g i \<noteq> None \<Longrightarrow> own g1 i = own g i \<and> num g1 i = num g i \<and> (i \<in> act g \<longrightarrow> i \<in> act g1)" and t: "t < tables s"
  shows "table_ok ids g1 (ph_at i pc s1) t"
proof -
  have len: "i < length (ph_pcs s1)" "ph_pcs s1 = ph_pcs s" using gr ph_invD(1) [OF inv] i by (simp_all add: grows_def ph_glob_def)
  have eq: "cap s1 = cap s" "key s1 = key s" "slot s1 = slot s" "ph_val s1 = ph_val s"
    by (simp_all add: fun_eq_iff cap_def key_def slot_def ph_val_def tab)
  have T: "table_ok ids g s t" by (rule ph_invD(2) [OF inv t])
  have "room g1 s1 t j \<and> own g1 j \<noteq> None \<and>
      (ph_val s t x = own g1 j \<or> (\<exists>n. ph_pcs (ph_at i pc s1) ! j = HInsertVal t (own g1 j) n \<and> x = slot s t (ids ! j) n))"
    if x: "x < cap s t" "j < length ids" "key s t x = ids ! j" for x j
  proof -
    have old: "room g s t j" "own g j \<noteq> None" "ph_val s t x = own g j \<or> (\<exists>n. ph_pcs s ! j = HInsertVal t (own g j) n \<and> x = slot s t (ids ! j) n)"
      using T x unfolding table_ok_def by blast+
    show ?thesis
    proof (cases "j = i")
      case True
      then show ?thesis using old pc keep eq by (auto simp: room_def)
    next
      case False
      then show ?thesis using old gr len eq by (auto simp: room_def grows_def ph_at_nth)
    qed
  qed
  then show ?thesis using T unfolding table_ok_def ph_at_sel eq by meson
qed

text \<open>The global part, when only the place of the thread and the tables change.\<close>

lemma lock_at:
  assumes "lock_inv k s" and "i < k" and "length (ph_pcs s) = k" and "ph_pcs s1 = ph_pcs s"
    and "locks pc \<Longrightarrow> (locks (ph_pcs s ! i) \<or> \<not> implicitProducerHashResizeInProgress s) \<and> implicitProducerHashResizeInProgress s1"
    and "\<not> locks pc \<Longrightarrow> locks (ph_pcs s ! i) \<or> implicitProducerHashResizeInProgress s1 = implicitProducerHashResizeInProgress s"
  shows "lock_inv k (ph_at i pc s1)"
proof -
  have L: "locks (ph_pcs s ! a) \<Longrightarrow> a < k \<Longrightarrow> implicitProducerHashResizeInProgress s \<and> (\<forall>b < k. b \<noteq> a \<longrightarrow> \<not> locks (ph_pcs s ! b))" for a
    using assms(1) by (simp add: lock_inv_def)
  have at: "ph_pcs (ph_at i pc s1) ! j = (if j = i then pc else ph_pcs s ! j)" for j
    using ph_at_nth [of i s1 pc j] assms(2-4) by simp
  have "implicitProducerHashResizeInProgress s1 \<and> (\<forall>b < k. b \<noteq> a \<longrightarrow> \<not> locks (ph_pcs (ph_at i pc s1) ! b))"
    if a: "a < k" "locks (ph_pcs (ph_at i pc s1) ! a)" for a
  proof (cases "locks pc")
    case True
    have "\<not> locks (ph_pcs s ! b)" if "b < k" "b \<noteq> i" for b using L [of i] L [of b] assms(2) assms(5) [OF True] that by blast
    then show ?thesis using a assms(5) [OF True] unfolding at by auto
  next
    case False
    then have m: "a \<noteq> i" "locks (ph_pcs s ! a)" using a(2) unfolding at by (auto split: if_splits)
    note La = L [OF m(2) a(1)]
    have "\<not> locks (ph_pcs s ! i)" using La assms(2) m(1) by blast
    then have "implicitProducerHashResizeInProgress s1" using La assms(6) [OF False] by simp
    then show ?thesis using La False unfolding at by simp
  qed
  then show ?thesis by (simp add: lock_inv_def)
qed

lemma lock_held: "ph_inv ids g s \<Longrightarrow> i < length ids \<Longrightarrow> locks (ph_pcs s ! i) \<Longrightarrow> implicitProducerHashResizeInProgress s"
  by (simp add: ph_inv_def ph_glob_def lock_inv_def)

lemma glob_pc:
  assumes "ph_glob ids g s" and "i < length ids" and "ph_pcs s1 = ph_pcs s" and "tables s \<le> tables s1" and "implicitProducerHashCount s1 = implicitProducerHashCount s"
    and "ph_next_producer s1 = ph_next_producer s" and "ph_producers s1 = ph_producers s" and "\<And>j p. (j, Some p) \<in> set (ph_results s1) \<Longrightarrow> (j, Some p) \<in> set (ph_results s) \<or>
      own g j = Some p \<and> p \<in> set (ph_producers s)"
    and lock: "locks pc \<Longrightarrow> (locks (ph_pcs s ! i) \<or> \<not> implicitProducerHashResizeInProgress s) \<and> implicitProducerHashResizeInProgress s1"
      "\<not> locks pc \<Longrightarrow> locks (ph_pcs s ! i) \<or> implicitProducerHashResizeInProgress s1 = implicitProducerHashResizeInProgress s"
  shows "ph_glob ids g (ph_at i pc s1)"
proof -
  have "lock_inv (length ids) (ph_at i pc s1)" by (rule lock_at [OF _ assms(2) _ assms(3) lock]) (use assms(1) in \<open>simp_all add: ph_glob_def\<close>)
  moreover have "own g j = Some p \<and> p \<in> set (ph_producers s)" if "(j, Some p) \<in> set (ph_results s1)" for j p
    using assms(1) assms(8) [OF that] by (auto simp: ph_glob_def)
  ultimately show ?thesis using assms(1,3-7) unfolding ph_glob_def by simp
qed

text \<open>Steps that change neither the tables nor the bookkeeping.\<close>

lemma ph_ok_cong: "ph_tables s1 = ph_tables s \<Longrightarrow> ph_producers s1 = ph_producers s \<Longrightarrow> ph_ok tid g s1 i p = ph_ok tid g s i p"
  by (cases p) (simp_all add: settled_def keyed_def tables_def slot_def cap_def key_def room_def split: option.split)

lemma ph_move:
  assumes inv: "ph_inv ids g s" and i: "i < length ids" and ids: "distinct ids" "0 \<notin> set ids"
    and same: "ph_tables s1 = ph_tables s" "ph_pcs s1 = ph_pcs s" "ph_producers s1 = ph_producers s" "implicitProducerHashCount s1 = implicitProducerHashCount s"
      "ph_next_producer s1 = ph_next_producer s"
    and res: "\<And>j p. (j, Some p) \<in> set (ph_results s1) \<Longrightarrow> (j, Some p) \<in> set (ph_results s) \<or> own g j = Some p \<and> p \<in> set (ph_producers s)"
    and lock: "locks pc \<Longrightarrow> (locks (ph_pcs s ! i) \<or> \<not> implicitProducerHashResizeInProgress s) \<and> implicitProducerHashResizeInProgress s1"
      "\<not> locks pc \<Longrightarrow> locks (ph_pcs s ! i) \<or> implicitProducerHashResizeInProgress s1 = implicitProducerHashResizeInProgress s"
    and pc: "\<And>main v n. ph_pcs s ! i \<noteq> HInsertVal main v n" and ok: "ph_ok (ids ! i) g s i pc"
  shows "ph_inv ids g (ph_at i pc s1)"
proof -
  have gr: "grows ids i g g s s1" using same by (simp add: grows_def tables_def cap_def key_def)
  show ?thesis
  proof (rule ph_assemble [OF inv gr i ids])
    show "ph_glob ids g (ph_at i pc s1)"
      by (rule glob_pc [OF ph_invD(1) [OF inv] i same(2) _ same(4,5,3) res lock]) (simp_all add: tables_def same(1))
    show "table_ok ids g (ph_at i pc s1) t" if "t < tables s1" for t
      by (rule tables_same [OF inv gr i same(1) pc]) (use that same(1) in \<open>simp_all add: tables_def\<close>)
    show "ph_ok (ids ! i) g s1 i pc" using ok ph_ok_cong [OF same(1,3)] by simp
  qed
qed

lemma ph_stay:
  assumes "ph_inv ids g s" and "i < length ids" and "distinct ids" and "0 \<notin> set ids" and "locks pc = locks (ph_pcs s ! i)"
    and "\<And>main v n. ph_pcs s ! i \<noteq> HInsertVal main v n" and "ph_ok (ids ! i) g s i pc"
  shows "ph_inv ids g (ph_at i pc s)"
  by (rule ph_move [OF assms(1-4)]) (use assms ph_invD(1) [OF assms(1)] in \<open>auto simp: ph_glob_def lock_inv_def\<close>)

lemma folds: "ph_index tid n (ph_tables s ! t) = slot s t tid n" "ph_keys (ph_tables s ! t) x = key s t x" "ph_values (ph_tables s ! t) x = ph_val s t x"
  "ph_capacity (ph_tables s ! t) = cap s t"
  by (simp_all add: ph_index_def slot_def key_def ph_val_def cap_def)

lemma slot_less: "ph_inv ids g s \<Longrightarrow> t < tables s \<Longrightarrow> slot s t tid n < cap s t"
  using ph_invD(2) [of ids g s t] by (simp add: slot_def table_ok_def)

text \<open>A probe that meets an invalid id has not missed its own.\<close>

lemma probe_missed:
  assumes inv: "ph_inv ids g s" and t: "t < tables s" and i: "i < length ids" and nz: "ids ! i \<noteq> 0"
    and seen: "\<forall>m < n. key s t (slot s t (ids ! i) m) \<noteq> ids ! i" and stop: "key s t (slot s t (ids ! i) n) = 0"
  shows "\<not> keyed s t (ids ! i)"
proof
  assume "keyed s t (ids ! i)"
  then obtain x where x: "x < cap s t" "key s t x = ids ! i" by (auto simp: keyed_def)
  then obtain n' where n': "x = slot s t (ids ! i) n'" "\<forall>m < n'. key s t (slot s t (ids ! i) m) \<noteq> 0"
    using ph_invD(2) [OF inv t] i unfolding table_ok_def by blast
  consider "n' < n" | "n' = n" | "n < n'" by linarith
  then show False using seen stop n' x(2) nz by cases auto
qed

lemma probe_found:
  assumes inv: "ph_inv ids g s" and t: "t < tables s" and i: "i < length ids" and x: "x < cap s t" "key s t x = ids ! i"
    and pc: "\<And>main v n. ph_pcs s ! i \<noteq> HInsertVal main v n"
  shows "ph_val s t x = own g i" "own g i \<noteq> None" "room g s t i"
  using ph_invD(2) [OF inv t] i x pc unfolding table_ok_def by blast+

lemma step_probe:
  assumes inv: "ph_inv ids g s" and i: "i < length ids" and ids: "distinct ids" "0 \<notin> set ids" and pc: "ph_pcs s ! i = HProbe main t n"
  shows "ph_inv ids g (ph_step i (ids ! i) alloc (HProbe main t n) s)"
proof -
  let ?tid = "ids ! i"
  let ?x = "slot s t ?tid n"
  have nz: "?tid \<noteq> 0" using ids_nz [OF ids(2) i] .
  have ok: "settled ?tid g s i" "t \<le> main" "main < tables s" "\<And>u. t < u \<Longrightarrow> u < tables s \<Longrightarrow> \<not> keyed s u ?tid"
    "\<forall>m < n. key s t (slot s t ?tid m) \<noteq> 0 \<and> key s t (slot s t ?tid m) \<noteq> ?tid" using ph_invD(3) [OF inv i] pc by simp_all
  have t: "t < tables s" using ok(2,3) by simp
  have np: "ph_pcs s ! i \<noteq> HInsertVal a b c" for a b c using pc by simp
  note stay = ph_stay [OF inv i ids _ np]
  consider (found) "key s t ?x = ?tid" | (free) "key s t ?x = 0" | (other) "key s t ?x \<noteq> 0" "key s t ?x \<noteq> ?tid" by blast
  then show ?thesis
  proof cases
    case found
    note F = probe_found [OF inv t i slot_less [OF inv t] found np]
    obtain p where p: "own g i = Some p" "p \<in> set (ph_producers s)" using F(2) ok(1) by (auto simp: settled_def split: option.splits)
    have "ph_inv ids g (ph_return i (own g i) s)"
      unfolding ph_return_def by (rule ph_move [OF inv i ids]) (use p ok(1) pc in auto)
    moreover have "ph_inv ids g (ph_at i (HInsert main (own g i) 0) s)" if "t \<noteq> main"
    proof (rule stay)
      have "cap s t \<le> cap s main" using ph_invD(2) [OF inv ok(3)] that ok(2) by (simp add: table_ok_def)
      then have "room g s main i" using F(3) div_le_mono [of "cap s t" "cap s main" 2] div_le_mono [of "cap s t" "cap s main" 4] by (simp add: room_def)
      then show "ph_ok ?tid g s i (HInsert main (own g i) 0)" using ok(2,3) ok(4) [of main] p that by simp
    qed (simp add: pc)
    ultimately show ?thesis using found F(1) by (cases "t = main") (simp_all add: folds Let_def)
  next
    case free
    have miss: "\<not> keyed s t ?tid" by (rule probe_missed [OF inv t i nz _ free]) (use ok(5) in blast)
    then have none: "\<not> keyed s u ?tid" if "u < tables s" "t \<le> u" for u using ok(4) [of u] that by (cases "u = t") auto
    have "ph_inv ids g (ph_at i (if t = 0 then HCount main else HProbe main (t - 1) 0) s)"
    proof (rule stay)
      show "ph_ok ?tid g s i (if t = 0 then HCount main else HProbe main (t - 1) 0)"
      proof (cases "t = 0")
        case True
        then show ?thesis using ok(1,3) none by (auto simp: settled_def split: option.splits)
      next
        case False
        then show ?thesis using ok(1-3) none by (cases t) auto
      qed
    qed (simp add: pc)
    then show ?thesis using free nz by (simp add: folds Let_def invalid_thread_id_def)
  next
    case other
    have "ph_inv ids g (ph_at i (HProbe main t (n + 1)) s)"
      by (rule stay) (use ok other in \<open>auto simp: pc less_Suc_eq\<close>)
    then show ?thesis using other by (simp add: folds Let_def invalid_thread_id_def)
  qed
qed

text \<open>Inserting the id, and then the producer.\<close>

lemma set_key_table:
  assumes "t < tables s"
  shows "cap (set_key t x v s) = cap s" "slot (set_key t x v s) = slot s" "key (set_key t x v s) u y = (if u = t \<and> y = x then v else key s u y)"
    "ph_val (set_key t x v s) = ph_val s"
proof -
  show c: "cap (set_key t x v s) = cap s" "key (set_key t x v s) u y = (if u = t \<and> y = x then v else key s u y)" "ph_val (set_key t x v s) = ph_val s"
    using assms by (auto simp: fun_eq_iff cap_def key_def ph_val_def set_key_def tables_def nth_list_update)
  then show "slot (set_key t x v s) = slot s" by (simp add: slot_def fun_eq_iff)
qed

lemma set_value_table:
  assumes "t < tables s"
  shows "cap (set_value t x w s) = cap s" "slot (set_value t x w s) = slot s" "ph_val (set_value t x w s) u y = (if u = t \<and> y = x then w else ph_val s u y)"
    "key (set_value t x w s) = key s"
proof -
  show c: "cap (set_value t x w s) = cap s" "ph_val (set_value t x w s) u y = (if u = t \<and> y = x then w else ph_val s u y)" "key (set_value t x w s) = key s"
    using assms by (auto simp: fun_eq_iff cap_def key_def ph_val_def set_value_def tables_def nth_list_update)
  then show "slot (set_value t x w s) = slot s" by (simp add: slot_def fun_eq_iff)
qed

lemma set_sel [simp]:
  "tables (set_key t x v s) = tables s" "ph_pcs (set_key t x v s) = ph_pcs s" "ph_producers (set_key t x v s) = ph_producers s"
  "implicitProducerHashCount (set_key t x v s) = implicitProducerHashCount s" "ph_next_producer (set_key t x v s) = ph_next_producer s"
  "implicitProducerHashResizeInProgress (set_key t x v s) = implicitProducerHashResizeInProgress s" "ph_results (set_key t x v s) = ph_results s"
  "tables (set_value t x w s) = tables s" "ph_pcs (set_value t x w s) = ph_pcs s" "ph_producers (set_value t x w s) = ph_producers s"
  "implicitProducerHashCount (set_value t x w s) = implicitProducerHashCount s" "ph_next_producer (set_value t x w s) = ph_next_producer s"
  "implicitProducerHashResizeInProgress (set_value t x w s) = implicitProducerHashResizeInProgress s" "ph_results (set_value t x w s) = ph_results s"
  by (simp_all add: set_key_def set_value_def tables_def)


lemma step_cas:
  assumes inv: "ph_inv ids g s" and i: "i < length ids" and ids: "distinct ids" "0 \<notin> set ids" and pc: "ph_pcs s ! i = HInsertCas main v n"
  shows "ph_inv ids g (ph_step i (ids ! i) alloc (HInsertCas main v n) s)"
proof -
  let ?tid = "ids ! i"
  let ?x = "slot s main ?tid n"
  have nz: "?tid \<noteq> 0" using ids_nz [OF ids(2) i] .
  have ok: "v = own g i" "\<exists>p \<in> set (ph_producers s). own g i = Some p" "main < tables s" "\<not> keyed s main ?tid" "room g s main i"
    "\<forall>m < n. key s main (slot s main ?tid m) \<noteq> 0" using ph_invD(3) [OF inv i] pc by simp_all
  have np: "ph_pcs s ! i \<noteq> HInsertVal a b c" for a b c using pc by simp
  have no: "key s main y \<noteq> ?tid" if "y < cap s main" for y using ok(4) that by (auto simp: keyed_def)
  show ?thesis
  proof (cases "key s main ?x = 0")
    case False
    have "ph_inv ids g (ph_at i (HInsert main v (n + 1)) s)"
      by (rule ph_stay [OF inv i ids _ np]) (use ok False in \<open>auto simp: pc less_Suc_eq\<close>)
    then show ?thesis using False by (simp add: folds Let_def invalid_thread_id_def)
  next
    case True
    let ?s = "set_key main ?x ?tid s"
    note S = set_key_table [OF ok(3), of ?x ?tid]
    have x: "?x < cap s main" by (rule slot_less [OF inv ok(3)])
    have n: "n < cap s main" by (rule turns_bound [OF inv ok(3,6)])
    have gr: "grows ids i g g s ?s" using True S by (auto simp: grows_def)
    have len: "i < length (ph_pcs ?s)" using ph_invD(1) [OF inv] i by (simp add: ph_glob_def)
    have "ph_inv ids g (ph_at i (HInsertVal main v n) ?s)"
    proof (rule ph_assemble [OF inv gr i ids])
      show "ph_glob ids g (ph_at i (HInsertVal main v n) ?s)"
        by (rule glob_pc [OF ph_invD(1) [OF inv] i]) (simp_all add: pc)
      show "ph_ok ?tid g ?s i (HInsertVal main v n)" using ok(1-3) S by simp
      show "table_ok ids g (ph_at i (HInsertVal main v n) ?s) t" if t: "t < tables ?s" for t
      proof (cases "t = main")
        case False
        have "table_ok ids g s t" using ph_invD(2) [OF inv] t by simp
        moreover have "ph_pcs (ph_at i (HInsertVal main v n) ?s) ! j = HInsertVal t (own g j) m \<longleftrightarrow> ph_pcs s ! j = HInsertVal t (own g j) m" for j m
          using False len np by (auto simp: ph_at_nth)
        moreover have "room g ?s = room g s" by (simp add: room_def S fun_eq_iff)
        ultimately show ?thesis using False unfolding table_ok_def ph_at_sel S by simp
      next
        case eq: True
        have T: "table_ok ids g s main" using ph_invD(2) [OF inv ok(3)] .
        show ?thesis
          unfolding eq table_ok_def ph_at_sel S
        proof (intro conjI allI impI)
          fix y j assume y: "y < cap s main" and j: "j < length ids" and kj: "(if main = main \<and> y = ?x then ?tid else key s main y) = ids ! j"
          have pcj: "ph_pcs (ph_at i (HInsertVal main v n) ?s) ! j = (if j = i then HInsertVal main v n else ph_pcs s ! j)"
            using len by (simp add: ph_at_nth)
          have room: "room g ?s main j = room g s main j" by (simp add: room_def S)
          have old: "(\<exists>m < cap s main. y = slot s main (ids ! j) m \<and> (\<forall>l < m. key s main (slot s main (ids ! j) l) \<noteq> 0)) \<and>
              (\<forall>z < cap s main. key s main z = key s main y \<longrightarrow> z = y) \<and> room g s main j \<and> own g j \<noteq> None \<and>
              (ph_val s main y = own g j \<or> (\<exists>m. ph_pcs s ! j = HInsertVal main (own g j) m \<and> y = slot s main (ids ! j) m))" if "y \<noteq> ?x"
            using T y j kj that unfolding table_ok_def by auto
          have ji: "j = i" if "y = ?x" using kj that ids(1) i j by (simp add: nth_eq_iff_index_eq)
          have ij: "j \<noteq> i" if "y \<noteq> ?x" using no [OF y] kj that by auto
          show "\<exists>m < cap s main. y = slot s main (ids ! j) m \<and> (\<forall>l < m. (if main = main \<and> slot s main (ids ! j) l = ?x then ?tid else key s main (slot s main (ids ! j) l)) \<noteq> 0)"
          proof (cases "y = ?x")
            case yes: True
            then show ?thesis using ji n ok(6) nz by (intro exI [of _ n]) auto
          next
            case no: False
            then show ?thesis using old nz by auto
          qed
          show "z = y" if "z < cap s main" "(if main = main \<and> z = ?x then ?tid else key s main z) = (if main = main \<and> y = ?x then ?tid else key s main y)" for z
            using that no [of z] no [of y] y old by (cases "y = ?x"; cases "z = ?x") auto
          show "room g ?s main j" using room ok(5) ji old by (cases "y = ?x") auto
          show "own g j \<noteq> None" using ok(2) ji old by (cases "y = ?x") auto
          show "ph_val s main y = own g j \<or> (\<exists>m. ph_pcs (ph_at i (HInsertVal main v n) ?s) ! j = HInsertVal main (own g j) m \<and> y = slot s main (ids ! j) m)"
            using pcj ok(1) ji ij old by (cases "y = ?x") auto
        qed (use T i in \<open>auto simp: table_ok_def\<close>)
      qed
    qed
    then show ?thesis using True by (simp add: folds Let_def invalid_thread_id_def)
  qed
qed

lemma step_val:
  assumes inv: "ph_inv ids g s" and i: "i < length ids" and ids: "distinct ids" "0 \<notin> set ids" and pc: "ph_pcs s ! i = HInsertVal main v n"
  shows "ph_inv ids g (ph_step i (ids ! i) alloc (HInsertVal main v n) s)"
proof -
  let ?tid = "ids ! i"
  let ?x = "slot s main ?tid n"
  have ok: "v = own g i" "\<exists>p \<in> set (ph_producers s). own g i = Some p" "main < tables s" "key s main ?x = ?tid"
    using ph_invD(3) [OF inv i] pc by simp_all
  define s1 where "s1 = (set_value main ?x v s)\<lparr>ph_results := ph_results s @ [(i, v)]\<rparr>"
  note S = set_value_table [OF ok(3), of ?x v]
  have S1: "cap s1 = cap s" "slot s1 = slot s" "key s1 = key s" "ph_val s1 u y = (if u = main \<and> y = ?x then v else ph_val s u y)" "tables s1 = tables s"
    "ph_pcs s1 = ph_pcs s" "ph_producers s1 = ph_producers s" "implicitProducerHashCount s1 = implicitProducerHashCount s" "ph_next_producer s1 = ph_next_producer s"
    "implicitProducerHashResizeInProgress s1 = implicitProducerHashResizeInProgress s" "keyed s1 = keyed s" "room g s1 = room g s" for u y
    using S by (simp_all add: s1_def cap_def key_def slot_def ph_val_def tables_def fun_eq_iff keyed_def room_def) (simp_all add: set_value_def)
  have gr: "grows ids i g g s s1" using S1 by (simp add: grows_def)
  have len: "i < length (ph_pcs s1)" using ph_invD(1) [OF inv] i S1 by (simp add: ph_glob_def)
  have x: "?x < cap s main" by (rule slot_less [OF inv ok(3)])
  have "ph_inv ids g (ph_at i HIdle s1)"
  proof (rule ph_assemble [OF inv gr i ids])
    show "ph_glob ids g (ph_at i HIdle s1)"
      by (rule glob_pc [OF ph_invD(1) [OF inv] i]) (use S1 pc ok(1,2) in \<open>auto simp: s1_def\<close>)
    have "keyed s1 main ?tid" using S1 ok(4) x by (auto simp: keyed_def)
    then show "ph_ok ?tid g s1 i HIdle" using ok S1 by (auto simp: settled_def)
    show "table_ok ids g (ph_at i HIdle s1) t" if t: "t < tables s1" for t
    proof -
      have T: "table_ok ids g s t" using ph_invD(2) [OF inv] t S1 by simp
      have "ph_val s1 t y = own g j \<or> (\<exists>m. ph_pcs (ph_at i HIdle s1) ! j = HInsertVal t (own g j) m \<and> y = slot s t (ids ! j) m)"
        if y: "y < cap s t" "j < length ids" "key s t y = ids ! j" for y j
      proof -
        have old: "ph_val s t y = own g j \<or> (\<exists>m. ph_pcs s ! j = HInsertVal t (own g j) m \<and> y = slot s t (ids ! j) m)"
          using T y unfolding table_ok_def by blast
        show ?thesis
        proof (cases "j = i")
          case True
          then show ?thesis using old pc S1 ok(1) by auto
        next
          case False
          then have "\<not> (t = main \<and> y = ?x)" using y(3) ok(4) ids(1) i y(2) by (auto simp: nth_eq_iff_index_eq)
          then show ?thesis using old False S1 len by (auto simp: ph_at_nth)
        qed
      qed
      then show ?thesis using T unfolding table_ok_def ph_at_sel S1 by blast
    qed
  qed
  then show ?thesis by (simp add: folds ph_return_def s1_def)
qed

text \<open>A bigger table.\<close>

lemma grow_capacity_ge: "c \<le> grow_capacity n c"
  by (induction n c rule: grow_capacity.induct) (subst grow_capacity.simps, auto)

lemma step_grow:
  assumes inv: "ph_inv ids g s" and i: "i < length ids" and ids: "distinct ids" "0 \<notin> set ids" and pc: "ph_pcs s ! i = HGrow main c"
  shows "ph_inv ids g (ph_step i (ids ! i) alloc (HGrow main c) s)"
proof (cases alloc)
  case False
  have "ph_inv ids g (ph_at i HGrowFailed s)" by (rule ph_stay [OF inv i ids]) (use ph_invD(3) [OF inv i] pc in auto)
  then show ?thesis using False by simp
next
  case True
  let ?c = "grow_capacity c (2 * cap s main)"
  have ok: "own g i = None" "i \<in> act g" "num g i = c" "main = tables s - 1" using ph_invD(3) [OF inv i] pc by simp_all
  have pos: "0 < tables s" using ph_invD(1) [OF inv] by (simp add: ph_glob_def)
  then have main: "main < tables s" using ok(4) by simp
  define s1 where "s1 = s\<lparr>ph_tables := ph_tables s @ [new_hash ?c]\<rparr>"
  have old: "cap s1 t = cap s t" "key s1 t = key s t" "slot s1 t = slot s t" "ph_val s1 t = ph_val s t" if "t < tables s" for t
    using that by (simp_all add: s1_def cap_def key_def slot_def ph_val_def tables_def nth_append fun_eq_iff)
  have new: "cap s1 (tables s) = ?c" "key s1 (tables s) x = 0" for x
    by (simp_all add: s1_def cap_def key_def tables_def new_hash_def invalid_thread_id_def)
  have len: "tables s1 = tables s + 1" by (simp add: s1_def tables_def)
  have gr: "grows ids i g g s s1"
    unfolding grows_def
  proof (intro conjI allI impI)
    fix t x assume "tables s \<le> t" "t < tables s1"
    then have "t = tables s" using len by simp
    then show "key s1 t x = 0" using new(2) by simp
  qed (use old len pc in \<open>auto simp: s1_def\<close>)
  have cap: "cap s t \<le> cap s main" if "t < tables s" for t
    using ph_invD(2) [OF inv main] that ok(4) by (cases "t = main") (auto simp: table_ok_def)
  have "ph_inv ids g (ph_at i (HUnlock (tables s) c) s1)"
  proof (rule ph_assemble [OF inv gr i ids])
    show "ph_glob ids g (ph_at i (HUnlock (tables s) c) s1)"
      by (rule glob_pc [OF ph_invD(1) [OF inv] i])
         (use len pc ph_invD(1) [OF inv] i in \<open>auto simp: s1_def ph_glob_def lock_inv_def\<close>)
    show "ph_ok (ids ! i) g s1 i (HUnlock (tables s) c)" using ok len by simp
    fix t assume t: "t < tables s1"
    show "table_ok ids g (ph_at i (HUnlock (tables s) c) s1) t"
    proof (cases "t = tables s")
      case True
      have "4 \<le> cap s main" using ph_invD(2) [OF inv main] by (simp add: table_ok_def)
      then have "4 \<le> ?c" "cap s u \<le> ?c" if "u < tables s" for u using grow_capacity_ge [of "2 * cap s main" c] cap [OF that] by simp_all
      then have "4 \<le> ?c" "\<And>u. u < tables s \<Longrightarrow> cap s u \<le> ?c" using pos by auto
      then show ?thesis using True new old ids_nz [OF ids(2)] unfolding table_ok_def by auto
    next
      case False
      then have t: "t < tables s" using t len by simp
      have T: "table_ok ids g s t" by (rule ph_invD(2) [OF inv t])
      have "ph_pcs (ph_at i (HUnlock (tables s) c) s1) ! j = HInsertVal t (own g j) m \<longleftrightarrow> ph_pcs s ! j = HInsertVal t (own g j) m" for j m
        using pc ph_at_nth [of i s1] ph_invD(1) [OF inv] i by (auto simp: s1_def ph_glob_def)
      moreover have "room g s1 t = room g s t" using old t by (simp add: room_def fun_eq_iff)
      moreover have "cap s1 u = cap s u" if "u < t" for u using old(1) that t by simp
      ultimately show ?thesis using T old [OF t] unfolding table_ok_def ph_at_sel by auto
    qed
  qed
  moreover have "ph_main s1 = tables s" using len by (simp add: ph_main_def tables_def)
  ultimately show ?thesis using True by (simp add: folds Let_def s1_def)
qed

text \<open>Being counted and no longer counted.\<close>

lemma step_count:
  assumes inv: "ph_inv ids g s" and i: "i < length ids" and ids: "distinct ids" "0 \<notin> set ids" and pc: "ph_pcs s ! i = HCount main"
  shows "\<exists>g1. ph_inv ids g1 (ph_step i (ids ! i) alloc (HCount main) s)"
proof -
  let ?c = "1 + implicitProducerHashCount s"
  define g1 where "g1 = g\<lparr>act := insert i (act g), num := (num g)(i := ?c)\<rparr>"
  define s1 where "s1 = s\<lparr>implicitProducerHashCount := ?c\<rparr>"
  note G = ph_invD(1) [OF inv, unfolded ph_glob_def]
  have ok: "own g i = None" "i \<notin> act g" "main < tables s" using ph_invD(3) [OF inv i] pc by simp_all
  have fin: "finite (act g)" using G finite_subset by blast
  have gr: "grows ids i g g1 s s1" by (auto simp: grows_def s1_def g1_def tables_def cap_def key_def)
  have "\<exists>j \<in> S. card S \<le> num g1 j" if S: "S \<subseteq> act g1" "S \<noteq> {}" for S
  proof (cases "i \<in> S")
    case True
    have "card S \<le> card (insert i (act g))" using S(1) fin by (intro card_mono) (simp_all add: g1_def)
    then have "card S \<le> num g1 i" using fin ok(2) G by (simp add: g1_def)
    then show ?thesis using True by blast
  next
    case False
    then have "S \<subseteq> act g" using S(1) by (auto simp: g1_def)
    then obtain j where "j \<in> S" "card S \<le> num g j" using G S(2) unfolding numbered_def by meson
    then show ?thesis using False by (auto simp: g1_def)
  qed
  then have "numbered g1" by (simp add: numbered_def)
  moreover have "lock_inv (length ids) (ph_at i (HFull main ?c) s1)" by (rule lock_at [of _ s]) (use G i pc in \<open>simp_all add: s1_def\<close>)
  ultimately have "ph_glob ids g1 (ph_at i (HFull main ?c) s1)"
    using G i fin ok(2) unfolding ph_glob_def by (simp add: s1_def g1_def tables_def own_inj_def)
  moreover have "table_ok ids g1 (ph_at i (HFull main ?c) s1) t" if "t < tables s1" for t
    by (rule tables_same [OF inv gr i]) (use ok pc that in \<open>simp_all add: s1_def tables_def\<close>)
  moreover have "ph_ok (ids ! i) g1 s1 i (HFull main ?c)" using ok by (simp add: g1_def s1_def tables_def)
  ultimately have "ph_inv ids g1 (ph_at i (HFull main ?c) s1)" by (intro ph_assemble [OF inv gr i ids])
  then show ?thesis by (auto simp: s1_def Let_def)
qed

lemma step_drop:
  assumes inv: "ph_inv ids g s" and i: "i < length ids" and ids: "distinct ids" "0 \<notin> set ids" and old: "ph_pcs s ! i \<in> {HGrowFailed, HSub}"
    and s1: "s1 = s\<lparr>implicitProducerHashCount := implicitProducerHashCount s - 1, ph_results := r\<rparr>" "r = ph_results s \<or> r = ph_results s @ [(i, None)]"
    and pc: "pc = (if ph_pcs s ! i = HSub then HIdle else HClear)"
  shows "\<exists>g1. ph_inv ids g1 (ph_at i pc s1)"
proof -
  define g1 where "g1 = g\<lparr>act := act g - {i}\<rparr>"
  note G = ph_invD(1) [OF inv, unfolded ph_glob_def]
  have ok: "own g i = None" "i \<in> act g" using ph_invD(3) [OF inv i] old by auto
  have fin: "finite (act g)" using G finite_subset by blast
  have gr: "grows ids i g g1 s s1" by (auto simp: grows_def s1(1) g1_def tables_def cap_def key_def)
  have n: "numbered g" using G by simp
  have "\<exists>j \<in> S. card S \<le> num g1 j" if "S \<subseteq> act g1" "S \<noteq> {}" for S
  proof -
    have "S \<subseteq> act g" "num g1 = num g" using that(1) by (auto simp: g1_def)
    then show ?thesis using n that(2) unfolding numbered_def by simp
  qed
  then have "numbered g1" by (simp add: numbered_def)
  moreover have "lock_inv (length ids) (ph_at i pc s1)"
    by (rule lock_at [of _ s]) (use G i pc old lock_held [OF inv i] in \<open>auto simp: s1(1)\<close>)
  moreover have "own g j = Some p \<and> p \<in> set (ph_producers s)" if "(j, Some p) \<in> set r" for j p using G that s1(2) by auto
  ultimately have "ph_glob ids g1 (ph_at i pc s1)"
    using G i fin ok(2) unfolding ph_glob_def by (auto simp: s1(1) g1_def tables_def own_inj_def)
  moreover have "table_ok ids g1 (ph_at i pc s1) t" if "t < tables s1" for t
    by (rule tables_same [OF inv gr i]) (use ok old that in \<open>auto simp: s1(1) tables_def\<close>)
  moreover have "ph_ok (ids ! i) g1 s1 i pc" using ok by (simp add: g1_def s1(1) tables_def pc settled_def)
  ultimately have "ph_inv ids g1 (ph_at i pc s1)" by (intro ph_assemble [OF inv gr i ids])
  then show ?thesis by blast
qed

text \<open>A new producer, and its place on the list.\<close>

lemma step_create:
  assumes inv: "ph_inv ids g s" and i: "i < length ids" and ids: "distinct ids" "0 \<notin> set ids" and pc: "ph_pcs s ! i = HCreate main"
  shows "\<exists>g1. ph_inv ids g1 (ph_step i (ids ! i) alloc (HCreate main) s)"
proof (cases alloc)
  case False
  have "ph_inv ids g (ph_at i HSub s)" by (rule ph_stay [OF inv i ids]) (use ph_invD(3) [OF inv i] pc in \<open>auto simp: room_def\<close>)
  then show ?thesis using False by auto
next
  case True
  let ?p = "ph_next_producer s" and ?pc = "HCountProducer main (ph_next_producer s)"
  define g1 where "g1 = g\<lparr>own := (own g)(i := Some ?p)\<rparr>"
  define s1 where "s1 = s\<lparr>ph_next_producer := ?p + 1\<rparr>"
  note G = ph_invD(1) [OF inv, unfolded ph_glob_def]
  have ok: "own g i = None" "room g s main i" "main < tables s" using ph_invD(3) [OF inv i] pc by simp_all
  have low: "own g j = Some p \<Longrightarrow> p < ?p" for j p using G by simp
  have gr: "grows ids i g g1 s s1" by (auto simp: grows_def s1_def g1_def tables_def cap_def key_def)
  have fresh: "own g j \<noteq> Some ?p" for j using low [of j ?p] by auto
  have "own_inj g1" using G fresh by (auto simp: own_inj_def g1_def)
  moreover have "lock_inv (length ids) (ph_at i ?pc s1)" by (rule lock_at [of _ s]) (use G i pc in \<open>simp_all add: s1_def\<close>)
  moreover have "\<not> keyed s u (ids ! i)" if "u < tables s" for u
    using probe_found(2) [OF inv that i] ok(1) pc by (auto simp: keyed_def)
  moreover have "own g j = Some p \<Longrightarrow> j \<noteq> i" for j p using ok(1) by auto
  moreover have "own g j = Some p \<and> p \<in> set (ph_producers s)" if "(j, Some p) \<in> set (ph_results s)" for j p using G that by blast
  ultimately have "ph_glob ids g1 (ph_at i ?pc s1)" "ph_ok (ids ! i) g1 s1 i ?pc"
    using G i ok low unfolding ph_glob_def by (auto simp: s1_def g1_def tables_def numbered_def less_SucI room_def cap_def keyed_def key_def)
  moreover have "table_ok ids g1 (ph_at i ?pc s1) t" if "t < tables s1" for t
    by (rule tables_same [OF inv gr i]) (use ok pc that in \<open>simp_all add: s1_def tables_def\<close>)
  ultimately have "ph_inv ids g1 (ph_at i ?pc s1)" by (intro ph_assemble [OF inv gr i ids])
  then show ?thesis using True by (auto simp: s1_def)
qed

lemma step_link:
  assumes inv: "ph_inv ids g s" and i: "i < length ids" and ids: "distinct ids" "0 \<notin> set ids" and pc: "ph_pcs s ! i = HLink main p q"
  shows "ph_inv ids g (ph_step i (ids ! i) alloc (HLink main p q) s)"
proof -
  let ?tail = "case ph_producers s of [] \<Rightarrow> None | q # qs \<Rightarrow> Some q"
  have ok: "own g i = Some p" "p \<notin> set (ph_producers s)" "room g s main i" "main < tables s" "\<forall>u < tables s. \<not> keyed s u (ids ! i)"
    using ph_invD(3) [OF inv i] pc by simp_all
  show ?thesis
  proof (cases "?tail = q")
    case False
    have "ph_inv ids g (ph_at i (HLink main p ?tail) s)" by (rule ph_stay [OF inv i ids]) (use ok pc in simp_all)
    then show ?thesis using False by (simp add: Let_def)
  next
    case True
    let ?pc = "HInsert main (Some p) 0"
    define s1 where "s1 = s\<lparr>ph_producers := p # ph_producers s\<rparr>"
    note G = ph_invD(1) [OF inv, unfolded ph_glob_def]
    have gr: "grows ids i g g s s1" using ok(1) by (auto simp: grows_def s1_def tables_def cap_def key_def)
    have "lock_inv (length ids) (ph_at i ?pc s1)" by (rule lock_at [of _ s]) (use G i pc in \<open>simp_all add: s1_def\<close>)
    then have "ph_glob ids g (ph_at i ?pc s1)" using G ok(1,2) i unfolding ph_glob_def by (auto simp: s1_def tables_def)
    moreover have "ph_ok (ids ! i) g s1 i ?pc" using ok by (simp add: s1_def tables_def keyed_def room_def cap_def key_def)
    moreover have "table_ok ids g (ph_at i ?pc s1) t" if "t < tables s1" for t
      by (rule tables_same [OF inv gr i]) (use ok pc that in \<open>simp_all add: s1_def tables_def\<close>)
    ultimately have "ph_inv ids g (ph_at i ?pc s1)" by (intro ph_assemble [OF inv gr i ids])
    then show ?thesis using True by (simp add: s1_def Let_def)
  qed
qed

section \<open>Reachable states\<close>

lemma hash_step_inv:
  assumes inv: "ph_inv ids g s" and i: "i < length ids" and ids: "distinct ids" "0 \<notin> set ids"
  shows "\<exists>g1. ph_inv ids g1 (ph_step i (ids ! i) alloc (ph_pcs s ! i) s)"
proof -
  have ok: "ph_ok (ids ! i) g s i (ph_pcs s ! i)" by (rule ph_invD(3) [OF inv i])
  have main: "ph_main s < tables s" "0 < tables s" using ph_invD(1) [OF inv] by (simp_all add: ph_glob_def ph_main_def tables_def)
  note stay = ph_stay [OF inv i ids] and held = lock_held [OF inv i]
  show ?thesis
  proof (cases "ph_pcs s ! i")
    case HLoad
    then have "ph_inv ids g (ph_at i (HProbe (ph_main s) (ph_main s) 0) s)"
      by (intro stay) (use ok main in \<open>auto simp: ph_main_def tables_def\<close>)
    then show ?thesis using HLoad by auto
  next
    case (HProbe main t n)
    then show ?thesis using step_probe [OF inv i ids] by metis
  next
    case (HInsert m v n)
    have "ph_inv ids g (ph_at i (if key s m (slot s m (ids ! i) n) = 0 then HInsertCas m v n else HInsert m v (n + 1)) s)"
      by (rule stay) (use HInsert ok in \<open>auto simp: less_Suc_eq\<close>)
    then show ?thesis using HInsert by (auto simp: Let_def folds invalid_thread_id_def)
  next
    case (HInsertCas m v n)
    then show ?thesis using step_cas [OF inv i ids] by metis
  next
    case (HInsertVal m v n)
    then show ?thesis using step_val [OF inv i ids] by metis
  next
    case (HCount m)
    then show ?thesis using step_count [OF inv i ids] by metis
  next
    case (HFull m c)
    have "ph_inv ids g (ph_at i (HLocked c) (s\<lparr>implicitProducerHashResizeInProgress := True\<rparr>))" if "\<not> implicitProducerHashResizeInProgress s"
      by (rule ph_move [OF inv i ids]) (use HFull ok that in simp_all)
    moreover have "ph_inv ids g (ph_at i (HCheck m c) s)" by (rule stay) (use HFull ok in simp_all)
    ultimately show ?thesis using HFull by auto
  next
    case (HLocked c)
    have "ph_inv ids g (ph_at i (if full_half (ph_tables s ! ph_main s) c then HGrow (ph_main s) c else HUnlock (ph_main s) c) s)"
      by (rule stay) (use HLocked ok main in \<open>auto simp: ph_main_def tables_def\<close>)
    then show ?thesis using HLocked by (auto simp: Let_def)
  next
    case (HGrow m c)
    then show ?thesis using step_grow [OF inv i ids] by metis
  next
    case (HUnlock m c)
    have "ph_inv ids g (ph_at i (HCheck m c) (s\<lparr>implicitProducerHashResizeInProgress := False\<rparr>))"
      by (rule ph_move [OF inv i ids]) (use HUnlock ok in simp_all)
    then show ?thesis using HUnlock by auto
  next
    case HGrowFailed
    have "\<exists>g1. ph_inv ids g1 (ph_at i HClear (s\<lparr>implicitProducerHashCount := implicitProducerHashCount s - 1, ph_results := ph_results s\<rparr>))"
      by (rule step_drop [OF inv i ids _ refl]) (use HGrowFailed in simp_all)
    then show ?thesis using HGrowFailed by simp
  next
    case HSub
    have "\<exists>g1. ph_inv ids g1 (ph_at i HIdle (s\<lparr>implicitProducerHashCount := implicitProducerHashCount s - 1, ph_results := ph_results s @ [(i, None)]\<rparr>))"
      by (rule step_drop [OF inv i ids _ refl]) (use HSub in simp_all)
    then show ?thesis using HSub by (simp add: ph_return_def)
  next
    case HClear
    have "ph_inv ids g (ph_at i HIdle (s\<lparr>implicitProducerHashResizeInProgress := False, ph_results := ph_results s @ [(i, None)]\<rparr>))"
      by (rule ph_move [OF inv i ids]) (use HClear ok in \<open>auto simp: settled_def\<close>)
    then show ?thesis using HClear by (auto simp: ph_return_def)
  next
    case (HCheck m c)
    have "ph_inv ids g (ph_at i (if c < cap s m div 2 + cap s m div 4 then HCreate m else HReload c) s)"
      by (rule stay) (use HCheck ok in \<open>auto simp: room_def\<close>)
    then show ?thesis using HCheck by (auto simp: Let_def folds)
  next
    case (HReload c)
    have "ph_inv ids g (ph_at i (HFull (ph_main s) c) s)" by (rule stay) (use HReload ok main in simp_all)
    then show ?thesis using HReload by auto
  next
    case (HCreate m)
    then show ?thesis using step_create [OF inv i ids] by metis
  next
    case (HCountProducer m p)
    have "ph_inv ids g (ph_at i (HTail m p) (s\<lparr>producerCount := producerCount s + 1\<rparr>))"
      by (rule ph_move [OF inv i ids]) (use HCountProducer ok in simp_all)
    then show ?thesis using HCountProducer by auto
  next
    case (HTail m p)
    have "ph_inv ids g (ph_at i (HLink m p q) s)" for q by (rule stay) (use HTail ok in simp_all)
    then show ?thesis using HTail by auto
  next
    case (HLink m p q)
    then show ?thesis using step_link [OF inv i ids] by metis
  qed (use inv in auto)
qed

lemma ph_reach_inv:
  assumes "ph_reach ids s" and "distinct ids" and "0 \<notin> set ids"
  shows "\<exists>g. ph_inv ids g s"
  using assms(1)
proof induction
  case start
  let ?s = "populate_initial_implicit_producer_hash (length ids)" and ?g = "\<lparr>own = \<lambda>_. None, num = \<lambda>_. 0, act = {}\<rparr>"
  have "ph_glob ids ?g ?s" by (simp add: ph_glob_def populate_initial_implicit_producer_hash_def tables_def numbered_def own_inj_def lock_inv_def)
  moreover have "table_ok ids ?g ?s t" if "t < tables ?s" for t
    using that ids_nz [OF assms(3)] by (auto simp: table_ok_def populate_initial_implicit_producer_hash_def tables_def cap_def key_def new_hash_def
      INITIAL_IMPLICIT_PRODUCER_HASH_SIZE_def invalid_thread_id_def)
  moreover have "ph_ok (ids ! i) ?g ?s i (ph_pcs ?s ! i)" if "i < length ids" for i
    using that by (simp add: populate_initial_implicit_producer_hash_def settled_def)
  ultimately have "ph_inv ids ?g ?s" by (simp add: ph_inv_def)
  then show ?case by blast
next
  case (call s i)
  then obtain g where g: "ph_inv ids g s" by blast
  have "ph_inv ids g (ph_at i HLoad s)" by (rule ph_stay [OF g call.hyps(2) assms(2,3)]) (use call ph_invD(3) [OF g call.hyps(2)] in simp_all)
  then show ?case by blast
next
  case (step s i alloc)
  then show ?case using hash_step_inv assms(2,3) by blast
qed

text \<open>
  C16: Whatever the order of the steps of the threads, growing tables and failed allocations included: calls of one thread return the same
  producer, calls of different threads different ones, and it is on the list that the consumers walk, once. A probing loop never makes
  more turns than its table has places, since each table keeps a free one.
\<close>

theorem one_producer_per_thread:
  assumes "ph_reach ids s" and "distinct ids" and "invalid_thread_id \<notin> set ids"
  shows "(\<forall>(i, p) \<in> set (ph_results s). \<forall>(j, q) \<in> set (ph_results s). p \<noteq> None \<longrightarrow> q \<noteq> None \<longrightarrow> (i = j) = (p = q)) \<and>
    (\<forall>(i, p) \<in> set (ph_results s). set_option p \<subseteq> set (ph_producers s)) \<and> distinct (ph_producers s) \<and>
    (\<forall>i < length ids. \<forall>main t n. ph_pcs s ! i = HProbe main t n \<longrightarrow> n < ph_capacity (ph_tables s ! t)) \<and>
    (\<forall>i < length ids. \<forall>main v n. ph_pcs s ! i = HInsert main v n \<longrightarrow> n < ph_capacity (ph_tables s ! main))"
proof -
  obtain g where inv: "ph_inv ids g s" using ph_reach_inv [OF assms(1,2)] assms(3) by (auto simp: invalid_thread_id_def)
  note G = ph_invD(1) [OF inv, unfolded ph_glob_def]
  have res: "own g i = Some p" "p \<in> set (ph_producers s)" if "(i, Some p) \<in> set (ph_results s)" for i p using G that by blast+
  have inj: "i = j" if "own g i = Some p" "own g j = Some p" for i j p using G that unfolding own_inj_def by blast
  show ?thesis
  proof (intro conjI ballI allI impI, goal_cases)
    case (1 a)
    have "(i = j) = (p = q)" if "a = (i, Some p)" "(j, Some q) \<in> set (ph_results s)" for i p j q
    proof -
      have "own g i = Some p" "own g j = Some q" using res(1) 1 that by blast+
      then show ?thesis using inj [of i p j] by auto
    qed
    then show ?case by (auto split: prod.split)
  next
    case (2 a)
    then show ?case using res(2) by (auto split: prod.split)
  next
    case 3
    show ?case using G by simp
  next
    case (4 i main t n)
    then show ?case using turns_bound [OF inv, of t n "ids ! i"] ph_invD(3) [OF inv, of i] by (auto simp: cap_def)
  next
    case (5 i main v n)
    then show ?case using turns_bound [OF inv, of main n "ids ! i"] ph_invD(3) [OF inv, of i] by (auto simp: cap_def)
  qed
qed

text \<open>Two threads whose calls overlap, and a second call of the first.\<close>

fun ph_schedule :: "u64 list \<Rightarrow> tid list \<Rightarrow> ProducerHash \<Rightarrow> ProducerHash" where
  "ph_schedule ids [] s = s"
| "ph_schedule ids (i # is) s =
     ph_schedule ids is (if ph_pcs s ! i = HIdle then ph_at i HLoad s else ph_step i (ids ! i) True (ph_pcs s ! i) s)"

lemma reach_schedule: "ph_reach ids s \<Longrightarrow> set is \<subseteq> {..<length ids} \<Longrightarrow> ph_reach ids (ph_schedule ids is s)"
  by (induction "is" arbitrary: s) (auto intro: ph_reach.call ph_reach.step)

theorem one_producer_per_thread_witness:
  "let s = ph_schedule [16, 48] (concat (replicate 13 [0, 1]) @ [1, 0, 0, 0]) (populate_initial_implicit_producer_hash 2)
   in ph_results s = [(0, Some 0), (1, Some 1), (0, Some 0)] \<and> set (ph_producers s) = {0, 1} \<and> distinct (ph_producers s)"
proof -
  let ?s = "ph_schedule [16, 48] (concat (replicate 13 [0, 1]) @ [1, 0, 0, 0]) (populate_initial_implicit_producer_hash 2)"
  have r: "ph_reach [16, 48] ?s" using ph_reach.start [of "[16, 48]"] by (intro reach_schedule) (auto simp: numeral_2_eq_2)
  have e: "ph_results ?s = [(0, Some 0), (1, Some 1), (0, Some 0)] \<and> ph_producers ?s = [1, 0]" by code_simp
  have "distinct (ph_producers ?s)" using one_producer_per_thread [OF r] by (simp add: invalid_thread_id_def)
  then show ?thesis using e by (simp add: Let_def insert_commute)
qed

end
