(* ===== verification/FreeList.thy ===== *)
theory FreeList
  imports Prelude
begin

text \<open>
  The free list of \<open>submodules/concurrentqueue/concurrentqueue.h\<close> (\<open>FreeList\<close>), for any number of threads: a
  stack of nodes under a reference count, without locks. Each atomic operation is one step of its
  thread, and all threads see the steps in one order. A thread adds only a node it owns, and owns a node it
  got.
\<close>

unbundle bit_operations_syntax

section \<open>Reference counts\<close>

definition REFS_MASK :: u32 where
  "REFS_MASK = 0x7FFFFFFF"

definition SHOULD_BE_ON_FREELIST :: u32 where
  "SHOULD_BE_ON_FREELIST = 0x80000000"

definition refs_count :: "u32 \<Rightarrow> int" where
  "refs_count r = uint (r AND REFS_MASK)"

definition refs_flag :: "u32 \<Rightarrow> bool" where
  "refs_flag r \<longleftrightarrow> r AND SHOULD_BE_ON_FREELIST \<noteq> 0"

lemma refs_count_mod: "refs_count r = uint r mod 2 ^ 31"
proof -
  have "r AND REFS_MASK = take_bit 31 r" by (simp add: REFS_MASK_def take_bit_eq_mask mask_eq_exp_minus_1)
  then have "refs_count r = take_bit 31 (uint r)" by (simp add: refs_count_def unsigned_take_bit_eq)
  then show ?thesis by (simp add: take_bit_eq_mod)
qed

lemma refs_flag_le: "refs_flag r \<longleftrightarrow> 2 ^ 31 \<le> uint r"
proof -
  have e: "SHOULD_BE_ON_FREELIST = 2 ^ 31" by (simp add: SHOULD_BE_ON_FREELIST_def)
  have "refs_flag r \<longleftrightarrow> bit r 31" unfolding refs_flag_def e and_exp_eq_0_iff_not_bit by simp
  also have "\<dots> \<longleftrightarrow> odd (uint r div 2 ^ 31)" using bit_uint_iff [of r 31] bit_iff_odd [of "uint r" 31] by simp
  also have "\<dots> \<longleftrightarrow> 2 ^ 31 \<le> uint r"
  proof (cases "2 ^ 31 \<le> uint r")
    case True
    then have "uint r div 2 ^ 31 = 1" using uint_lt2p [of r] by (simp add: div_pos_geq)
    then show ?thesis using True by simp
  qed simp
  finally show ?thesis .
qed

text \<open>A count is what the word holds besides the flag.\<close>

lemma refs_uint: "uint r = refs_count r + (if refs_flag r then 2 ^ 31 else 0)"
proof (cases "2 ^ 31 \<le> uint r")
  case True
  then have "(uint r - 2 ^ 31) mod 2 ^ 31 = uint r - 2 ^ 31" using uint_lt2p [of r] by (intro mod_pos_pos_trivial) simp_all
  then show ?thesis using True by (simp add: refs_count_mod refs_flag_le)
qed (simp add: refs_count_mod refs_flag_le)

lemma refs_bounds: "0 \<le> refs_count r" "refs_count r < 2 ^ 31"
  by (simp_all add: refs_count_mod)

lemma refs_of:
  assumes "uint r = c + (if f then 2 ^ 31 else 0)" and "0 \<le> c" and "c < 2 ^ 31"
  shows "refs_count r = c" "refs_flag r = f"
  using assms by (auto simp: refs_count_mod refs_flag_le)

lemma refs_eq: "r = q \<longleftrightarrow> refs_count r = refs_count q \<and> refs_flag r = refs_flag q"
  using refs_uint [of r] refs_uint [of q] by (metis word_uint_eq_iff)

lemma refs_consts [simp]:
  "refs_count 0 = 0" "\<not> refs_flag 0" "refs_count 1 = 1" "\<not> refs_flag 1"
  "refs_count (SHOULD_BE_ON_FREELIST + 1) = 1" "refs_flag (SHOULD_BE_ON_FREELIST + 1)"
  by (simp_all add: refs_count_mod refs_flag_le SHOULD_BE_ON_FREELIST_def)

lemma refs_masked: "r AND REFS_MASK = 0 \<longleftrightarrow> refs_count r = 0" "r AND SHOULD_BE_ON_FREELIST = 0 \<longleftrightarrow> \<not> refs_flag r"
  by (simp_all add: refs_count_def refs_flag_def uint_0_iff)

lemma refs_inc:
  assumes "refs_count r + 1 < 2 ^ 31"
  shows "refs_count (r + 1) = refs_count r + 1" "refs_flag (r + 1) = refs_flag r"
proof -
  have "uint (r + 1) = refs_count r + 1 + (if refs_flag r then 2 ^ 31 else 0)"
    using refs_uint [of r] refs_bounds(1) [of r] assms by (simp add: uint_word_ariths)
  from refs_of [OF this] show "refs_count (r + 1) = refs_count r + 1" "refs_flag (r + 1) = refs_flag r"
    using refs_bounds(1) [of r] assms by simp_all
qed

lemma refs_dec:
  assumes "0 \<le> k" and "k \<le> refs_count r"
  shows "refs_count (r - word_of_int k) = refs_count r - k" "refs_flag (r - word_of_int k) = refs_flag r"
proof -
  have "k < 2 ^ 31" using assms(2) refs_bounds(2) [of r] by simp
  then have "uint (r - word_of_int k) = refs_count r - k + (if refs_flag r then 2 ^ 31 else 0)"
    using refs_uint [of r] refs_bounds [of r] assms by (simp add: uint_word_ariths uint_word_of_int mod_pos_pos_trivial)
  from refs_of [OF this] show "refs_count (r - word_of_int k) = refs_count r - k" "refs_flag (r - word_of_int k) = refs_flag r"
    using refs_bounds(2) [of r] assms by simp_all
qed

lemma refs_set:
  assumes "\<not> refs_flag r" and "k \<in> {0, 1}" and "k \<le> refs_count r"
  shows "refs_count (r + (SHOULD_BE_ON_FREELIST - word_of_int k)) = refs_count r - k" "refs_flag (r + (SHOULD_BE_ON_FREELIST - word_of_int k))"
proof -
  have "uint (r + (SHOULD_BE_ON_FREELIST - word_of_int k)) = refs_count r - k + (if True then 2 ^ 31 else 0)"
    using refs_uint [of r] refs_bounds [of r] assms by (auto simp: uint_word_ariths SHOULD_BE_ON_FREELIST_def)
  from refs_of [OF this] show "refs_count (r + (SHOULD_BE_ON_FREELIST - word_of_int k)) = refs_count r - k"
    "refs_flag (r + (SHOULD_BE_ON_FREELIST - word_of_int k))"
    using refs_bounds(2) [of r] assms by auto
qed

section \<open>The list\<close>

text \<open>
  Where a thread is: back from a call, before the steps of \<open>add\<close> and \<open>add_knowing_refcount_is_zero\<close>, or before those
  of \<open>try_get\<close>. The helper is called from \<open>add\<close>, or from the loop of \<open>try_get\<close> to go on with the head seen
  last.
\<close>

type_synonym node = nat

datatype return_to = FromAdd | FromGet "node option"

datatype fl_pc =
    FIdle "node option"
  | AddRef node
  | LoadHead node return_to
  | StoreNext node "node option" return_to
  | StoreRefs node "node option" return_to
  | SwapHead node "node option" return_to
  | Requeue node "node option" return_to
  | GetHead
  | GetRefs node
  | IncRefs node u32
  | GetNext node
  | TakeHead node "node option"
  | CheckTaken node
  | DropTwo node
  | DropOne node "node option"

record FreeList =
  freeListHead :: "node option"
  freeListRefs :: "node \<Rightarrow> u32"
  freeListNext :: "node \<Rightarrow> node option"
  fl_threads :: "fl_pc list"
  fl_owner :: "node \<Rightarrow> tid option"

definition fl_at :: "tid \<Rightarrow> fl_pc \<Rightarrow> FreeList \<Rightarrow> FreeList" where
  "fl_at i pc s = s\<lparr>fl_threads := (fl_threads s)[i := pc]\<rparr>"

definition set_refs :: "node \<Rightarrow> u32 \<Rightarrow> FreeList \<Rightarrow> FreeList" where
  "set_refs n r s = s\<lparr>freeListRefs := (freeListRefs s)(n := r)\<rparr>"

text \<open>The test of the loop of \<open>try_get\<close>.\<close>

definition get_loop :: "node option \<Rightarrow> fl_pc" where
  "get_loop h = (case h of None \<Rightarrow> FIdle None | Some n \<Rightarrow> GetRefs n)"

definition returning :: "return_to \<Rightarrow> fl_pc" where
  "returning k = (case k of FromAdd \<Rightarrow> FIdle None | FromGet h \<Rightarrow> get_loop h)"

text \<open>One step of a thread that is in a call.\<close>

fun fl_step :: "tid \<Rightarrow> fl_pc \<Rightarrow> FreeList \<Rightarrow> FreeList res" where
  "fl_step i (FIdle r) s = Inr s"
| "fl_step i (AddRef n) s =
     (let refs = freeListRefs s n in
      Inr (fl_at i (if refs = 0 then LoadHead n FromAdd else FIdle None) (set_refs n (refs + SHOULD_BE_ON_FREELIST) s)))"
| "fl_step i (LoadHead n k) s = Inr (fl_at i (StoreNext n (freeListHead s) k) s)"
| "fl_step i (StoreNext n h k) s = Inr (fl_at i (StoreRefs n h k) (s\<lparr>freeListNext := (freeListNext s)(n := h)\<rparr>))"
| "fl_step i (StoreRefs n h k) s = Inr (fl_at i (SwapHead n h k) (set_refs n 1 s))"
| "fl_step i (SwapHead n h k) s =
     Inr (if freeListHead s = h then fl_at i (returning k) (s\<lparr>freeListHead := Some n\<rparr>) else fl_at i (Requeue n (freeListHead s) k) s)"
| "fl_step i (Requeue n h k) s =
     (let refs = freeListRefs s n in
      Inr (fl_at i (if refs = 1 then StoreNext n h k else returning k) (set_refs n (refs + (SHOULD_BE_ON_FREELIST - 1)) s)))"
| "fl_step i GetHead s = Inr (fl_at i (get_loop (freeListHead s)) s)"
| "fl_step i (GetRefs h) s =
     (let refs = freeListRefs s h in Inr (fl_at i (if refs AND REFS_MASK = 0 then GetHead else IncRefs h refs) s))"
| "fl_step i (IncRefs h refs) s =
     Inr (if freeListRefs s h = refs then fl_at i (GetNext h) (set_refs h (refs + 1) s) else fl_at i GetHead s)"
| "fl_step i (GetNext h) s = Inr (fl_at i (TakeHead h (freeListNext s h)) s)"
| "fl_step i (TakeHead h nx) s =
     Inr (if freeListHead s = Some h then fl_at i (CheckTaken h) (s\<lparr>freeListHead := nx\<rparr>) else fl_at i (DropOne h (freeListHead s)) s)"
| "fl_step i (CheckTaken h) s = assertE (freeListRefs s h AND SHOULD_BE_ON_FREELIST = 0) (Inr (fl_at i (DropTwo h) s))"
| "fl_step i (DropTwo h) s =
     Inr (fl_at i (FIdle (Some h)) ((set_refs h (freeListRefs s h - 2) s)\<lparr>fl_owner := (fl_owner s)(h := Some i)\<rparr>))"
| "fl_step i (DropOne h head) s =
     (let refs = freeListRefs s h in
      Inr (fl_at i (if refs = SHOULD_BE_ON_FREELIST + 1 then LoadHead h (FromGet head) else get_loop head) (set_refs h (refs - 1) s)))"

text \<open>The calls.\<close>

definition fl_add :: "tid \<Rightarrow> node \<Rightarrow> FreeList \<Rightarrow> FreeList" where
  "fl_add i n s = fl_at i (AddRef n) (s\<lparr>fl_owner := (fl_owner s)(n := None)\<rparr>)"

definition fl_try_get :: "tid \<Rightarrow> FreeList \<Rightarrow> FreeList" where
  "fl_try_get i s = fl_at i GetHead s"

definition newFreeList :: "nat \<Rightarrow> (node \<Rightarrow> tid) \<Rightarrow> FreeList" where
  "newFreeList k own = \<lparr>freeListHead = None, freeListRefs = \<lambda>_. 0, freeListNext = \<lambda>_. None, fl_threads = replicate k (FIdle None),
     fl_owner = \<lambda>n. Some (own n)\<rparr>"

text \<open>What \<open>k\<close> threads can reach; owners may pass a node on.\<close>

inductive fl_reach :: "nat \<Rightarrow> FreeList \<Rightarrow> bool" for k where
  start: "fl_reach k (newFreeList k own)"
| give: "fl_reach k s \<Longrightarrow> fl_owner s n = Some i \<Longrightarrow> fl_reach k (s\<lparr>fl_owner := (fl_owner s)(n := Some j)\<rparr>)"
| add: "fl_reach k s \<Longrightarrow> i < k \<Longrightarrow> fl_threads s ! i = FIdle r \<Longrightarrow> fl_owner s n = Some i \<Longrightarrow> fl_reach k (fl_add i n s)"
| get: "fl_reach k s \<Longrightarrow> i < k \<Longrightarrow> fl_threads s ! i = FIdle r \<Longrightarrow> fl_reach k (fl_try_get i s)"
| step: "fl_reach k s \<Longrightarrow> i < k \<Longrightarrow> fl_step i (fl_threads s ! i) s = Inr s' \<Longrightarrow> fl_reach k s'"

section \<open>Invariant\<close>

fun fl_holds :: "fl_pc \<Rightarrow> node \<Rightarrow> int" where
  "fl_holds (SwapHead n h k) m = of_bool (m = n)" | "fl_holds (Requeue n h k) m = of_bool (m = n)"
| "fl_holds (GetNext n) m = of_bool (m = n)" | "fl_holds (TakeHead n h) m = of_bool (m = n)" | "fl_holds (DropOne n h) m = of_bool (m = n)"
| "fl_holds (CheckTaken n) m = (if m = n then 2 else 0)" | "fl_holds (DropTwo n) m = (if m = n then 2 else 0)"
| "fl_holds _ m = 0"

fun fl_late :: "fl_pc \<Rightarrow> node \<Rightarrow> int" where
  "fl_late (AddRef n) m = of_bool (m = n)" | "fl_late (SwapHead n h k) m = of_bool (m = n)" | "fl_late (Requeue n h k) m = of_bool (m = n)"
| "fl_late (CheckTaken n) m = of_bool (m = n)" | "fl_late (DropTwo n) m = of_bool (m = n)"
| "fl_late _ m = 0"

fun fl_early :: "fl_pc \<Rightarrow> node \<Rightarrow> int" where
  "fl_early (LoadHead n k) m = of_bool (m = n)" | "fl_early (StoreNext n h k) m = of_bool (m = n)" | "fl_early (StoreRefs n h k) m = of_bool (m = n)"
| "fl_early _ m = 0"

definition fl_total :: "(fl_pc \<Rightarrow> node \<Rightarrow> int) \<Rightarrow> FreeList \<Rightarrow> node \<Rightarrow> int" where
  "fl_total f s n = (\<Sum>pc \<leftarrow> fl_threads s. f pc n)"

fun fl_chain :: "(node \<Rightarrow> node option) \<Rightarrow> node option \<Rightarrow> node list \<Rightarrow> bool" where
  "fl_chain next h [] \<longleftrightarrow> h = None"
| "fl_chain next h (n # ns) \<longleftrightarrow> h = Some n \<and> fl_chain next (next n) ns"

fun fl_pc_ok :: "FreeList \<Rightarrow> fl_pc \<Rightarrow> bool" where
  "fl_pc_ok s (StoreRefs n h k) \<longleftrightarrow> freeListNext s n = h" | "fl_pc_ok s (SwapHead n h k) \<longleftrightarrow> freeListNext s n = h"
| "fl_pc_ok s (TakeHead n h) \<longleftrightarrow> freeListNext s n = h" | "fl_pc_ok s (IncRefs n r) \<longleftrightarrow> refs_count r \<noteq> 0"
| "fl_pc_ok s _ \<longleftrightarrow> True"

definition fl_count :: "FreeList \<Rightarrow> node \<Rightarrow> int" where
  "fl_count s n = refs_count (freeListRefs s n)"

definition fl_flag :: "FreeList \<Rightarrow> node \<Rightarrow> bool" where
  "fl_flag s n = refs_flag (freeListRefs s n)"

definition fl_inv :: "nat \<Rightarrow> node list \<Rightarrow> FreeList \<Rightarrow> bool" where
  "fl_inv k L s \<longleftrightarrow> length (fl_threads s) = k \<and> distinct L \<and> fl_chain (freeListNext s) (freeListHead s) L \<and>
     (\<forall>i < k. fl_pc_ok s (fl_threads s ! i)) \<and>
     (\<forall>n. fl_count s n = of_bool (n \<in> set L) + fl_total fl_holds s n) \<and>
     (\<forall>n. of_bool (n \<in> set L) + fl_total fl_late s n + of_bool (fl_owner s n \<noteq> None) + of_bool (fl_flag s n) = 1) \<and>
     (\<forall>n. fl_total fl_early s n = of_bool (fl_flag s n \<and> fl_count s n = 0))"

lemma fl_nonneg: "0 \<le> fl_holds pc n" "0 \<le> fl_late pc n" "0 \<le> fl_early pc n"
  by (cases pc; simp)+

lemma fl_total_ge:
  assumes "\<And>pc. 0 \<le> f pc n" and "i < length (fl_threads s)"
  shows "f (fl_threads s ! i) n \<le> fl_total f s n"
  unfolding fl_total_def by (rule sum_list_nth_le [of "\<lambda>pc. f pc n"]) (use assms in auto)

lemma fl_total_update: "i < length (fl_threads s) \<Longrightarrow> fl_total f (fl_at i pc s) n = fl_total f s n + f pc n - f (fl_threads s ! i) n"
  by (simp add: fl_total_def fl_at_def sum_update)

lemma fl_total_two:
  assumes "\<And>pc. 0 \<le> f pc n" and "f (FIdle None) n = 0" and "i < length (fl_threads s)" and "j < length (fl_threads s)" and "j \<noteq> i"
  shows "f (fl_threads s ! i) n + f (fl_threads s ! j) n \<le> fl_total f s n"
proof -
  let ?s = "fl_at i (FIdle None) s"
  have "f (fl_threads ?s ! j) n \<le> fl_total f ?s n" using assms by (intro fl_total_ge) (auto simp: fl_at_def)
  moreover have "fl_threads ?s ! j = fl_threads s ! j" using assms(5) by (simp add: fl_at_def)
  ultimately show ?thesis using fl_total_update [OF assms(3), of f "FIdle None" n] assms(2) by simp
qed

lemma fl_facts:
  assumes "fl_inv k L s" and "i < k"
  shows "1 \<le> fl_early (fl_threads s ! i) n \<Longrightarrow> fl_flag s n \<and> fl_count s n = 0 \<and> n \<notin> set L \<and> fl_owner s n = None"
    and "1 \<le> fl_late (fl_threads s ! i) n \<Longrightarrow> \<not> fl_flag s n \<and> n \<notin> set L \<and> fl_owner s n = None"
    and "fl_holds (fl_threads s ! i) n + of_bool (n \<in> set L) \<le> fl_count s n"
    and "j < k \<Longrightarrow> j \<noteq> i \<Longrightarrow> fl_holds (fl_threads s ! i) n + fl_holds (fl_threads s ! j) n \<le> fl_count s n"
    and "j < k \<Longrightarrow> j \<noteq> i \<Longrightarrow> 1 \<le> fl_early (fl_threads s ! i) n \<Longrightarrow> fl_early (fl_threads s ! j) n = 0 \<and> fl_late (fl_threads s ! j) n = 0"
    and "j < k \<Longrightarrow> j \<noteq> i \<Longrightarrow> 1 \<le> fl_late (fl_threads s ! i) n \<Longrightarrow> fl_early (fl_threads s ! j) n = 0 \<and> fl_late (fl_threads s ! j) n = 0"
proof -
  have k: "length (fl_threads s) = k" and e1: "fl_count s n = of_bool (n \<in> set L) + fl_total fl_holds s n"
    and e2: "of_bool (n \<in> set L) + fl_total fl_late s n + of_bool (fl_owner s n \<noteq> None) + of_bool (fl_flag s n) = 1"
    and e3: "fl_total fl_early s n = of_bool (fl_flag s n \<and> fl_count s n = 0)" using assms(1) by (simp_all add: fl_inv_def)
  note g = fl_total_ge [of fl_holds n i s, OF fl_nonneg(1)] fl_total_ge [of fl_late n, OF fl_nonneg(2)] fl_total_ge [of fl_early n, OF fl_nonneg(3)]
  have late: "0 \<le> fl_total fl_late s n" unfolding fl_total_def by (intro sum_list_nonneg) (auto simp: fl_nonneg)
  show early1: "1 \<le> fl_early (fl_threads s ! i) n \<Longrightarrow> fl_flag s n \<and> fl_count s n = 0 \<and> n \<notin> set L \<and> fl_owner s n = None"
    using g(3) [of i s] e2 e3 late assms(2) k by (auto split: if_splits simp: of_bool_def)
  show "1 \<le> fl_late (fl_threads s ! i) n \<Longrightarrow> \<not> fl_flag s n \<and> n \<notin> set L \<and> fl_owner s n = None"
    using g(2) [of i s] e2 assms(2) k by (auto split: if_splits simp: of_bool_def)
  show "fl_holds (fl_threads s ! i) n + of_bool (n \<in> set L) \<le> fl_count s n" using g(1) e1 assms(2) k by simp
  show "fl_holds (fl_threads s ! i) n + fl_holds (fl_threads s ! j) n \<le> fl_count s n" if "j < k" "j \<noteq> i"
    using fl_total_two [of fl_holds n i s j, OF fl_nonneg(1)] e1 assms(2) k that by simp
  show "fl_early (fl_threads s ! j) n = 0 \<and> fl_late (fl_threads s ! j) n = 0" if "j < k" "j \<noteq> i" "1 \<le> fl_early (fl_threads s ! i) n"
  proof -
    have "fl_early (fl_threads s ! j) n \<le> 0"
      using fl_total_two [of fl_early n i s j, OF fl_nonneg(3)] e3 assms(2) k that by (simp add: of_bool_def split: if_splits)
    moreover have "fl_late (fl_threads s ! j) n \<le> 0"
      using g(2) [of j s] e2 early1 [OF that(3)] k that by (simp add: of_bool_def split: if_splits)
    ultimately show ?thesis using fl_nonneg(2,3) [of "fl_threads s ! j" n] by simp
  qed
  show "fl_early (fl_threads s ! j) n = 0 \<and> fl_late (fl_threads s ! j) n = 0" if "j < k" "j \<noteq> i" "1 \<le> fl_late (fl_threads s ! i) n"
  proof -
    have "fl_late (fl_threads s ! j) n \<le> 0"
      using fl_total_two [of fl_late n i s j, OF fl_nonneg(2)] e2 assms(2) k that by (simp add: of_bool_def split: if_splits)
    moreover have "fl_early (fl_threads s ! j) n \<le> 0"
      using g(3) [of j s] g(2) [of i s] e2 e3 k assms(2) that by (simp add: of_bool_def split: if_splits)
    ultimately show ?thesis using fl_nonneg(2,3) [of "fl_threads s ! j" n] by simp
  qed
qed

text \<open>A step of thread \<open>i\<close> keeps the invariant if it balances the parts of that thread.\<close>

lemma fl_inv_step:
  assumes "fl_inv k L s" and "i < k" and "fl_threads s1 = fl_threads s"
    and "distinct L1" and "fl_chain (freeListNext s1) (freeListHead s1) L1"
    and "\<And>j. j < k \<Longrightarrow> j \<noteq> i \<Longrightarrow> fl_pc_ok s1 (fl_threads s ! j)" and "fl_pc_ok s1 pc"
    and "\<And>n. fl_count s1 n - of_bool (n \<in> set L1) - fl_holds pc n = fl_count s n - of_bool (n \<in> set L) - fl_holds (fl_threads s ! i) n"
    and "\<And>n. of_bool (n \<in> set L1) + fl_late pc n + of_bool (fl_owner s1 n \<noteq> None) + of_bool (fl_flag s1 n) =
      of_bool (n \<in> set L) + fl_late (fl_threads s ! i) n + of_bool (fl_owner s n \<noteq> None) + (of_bool (fl_flag s n) :: int)"
    and "\<And>n. of_bool (fl_flag s1 n \<and> fl_count s1 n = 0) - fl_early pc n = of_bool (fl_flag s n \<and> fl_count s n = 0) - fl_early (fl_threads s ! i) n"
  shows "fl_inv k L1 (fl_at i pc s1)"
proof -
  have len: "length (fl_threads s) = k" using assms(1) by (simp add: fl_inv_def)
  have t: "fl_total f (fl_at i pc s1) n = fl_total f s n + f pc n - f (fl_threads s ! i) n" for f n
    using fl_total_update [of i s1 f pc n] assms(2,3) len by (simp add: fl_total_def)
  have at: "fl_count (fl_at i pc s1) n = fl_count s1 n" "fl_flag (fl_at i pc s1) n = fl_flag s1 n" "fl_owner (fl_at i pc s1) = fl_owner s1"
    "freeListNext (fl_at i pc s1) = freeListNext s1" "freeListHead (fl_at i pc s1) = freeListHead s1"
    "fl_threads (fl_at i pc s1) = (fl_threads s)[i := pc]" for n
    by (simp_all add: fl_at_def fl_count_def fl_flag_def assms(3))
  have pc: "fl_pc_ok (fl_at i pc s1) x = fl_pc_ok s1 x" for x by (cases x) (simp_all add: at)
  have e1: "\<forall>n. fl_count s n = of_bool (n \<in> set L) + fl_total fl_holds s n"
    and e2: "\<forall>n. of_bool (n \<in> set L) + fl_total fl_late s n + of_bool (fl_owner s n \<noteq> None) + of_bool (fl_flag s n) = 1"
    and e3: "\<forall>n. fl_total fl_early s n = of_bool (fl_flag s n \<and> fl_count s n = 0)" using assms(1) by (simp_all add: fl_inv_def)
  show ?thesis
    unfolding fl_inv_def at t pc
  proof (intro conjI allI impI)
    show "fl_pc_ok s1 ((fl_threads s)[i := pc] ! j)" if "j < k" for j
      using assms(6) [OF that] assms(7) len that by (cases "j = i") simp_all
    show "fl_count s1 n = of_bool (n \<in> set L1) + (fl_total fl_holds s n + fl_holds pc n - fl_holds (fl_threads s ! i) n)" for n
      using assms(8) [of n] e1 [rule_format, of n] by linarith
    show "of_bool (n \<in> set L1) + (fl_total fl_late s n + fl_late pc n - fl_late (fl_threads s ! i) n) +
        of_bool (fl_owner s1 n \<noteq> None) + of_bool (fl_flag s1 n) = (1 :: int)" for n
      using assms(9) [of n] e2 [rule_format, of n] by linarith
    show "fl_total fl_early s n + fl_early pc n - fl_early (fl_threads s ! i) n = of_bool (fl_flag s1 n \<and> fl_count s1 n = 0)" for n
      using assms(10) [of n] e3 [rule_format, of n] by linarith
  qed (use assms(4,5) len in simp_all)
qed

lemma fl_count_bound:
  assumes "fl_inv k L s"
  shows "fl_count s n \<le> 2 * int k + 1"
proof -
  have h: "fl_holds pc n \<le> 2" for pc by (cases pc) auto
  have "(\<Sum>pc \<leftarrow> xs. fl_holds pc n) \<le> 2 * int (length xs)" for xs
  proof (induction xs)
    case (Cons pc xs)
    then show ?case using h [of pc] by simp
  qed simp
  from this [of "fl_threads s"] show ?thesis using assms by (simp add: fl_inv_def fl_total_def of_bool_def)
qed

lemma fl_chain_cong: "(\<And>m. m \<in> set L \<Longrightarrow> next1 m = next m) \<Longrightarrow> fl_chain next1 h L = fl_chain next h L"
  by (induction L arbitrary: h) auto

lemma set_refs_simps [simp]:
  "freeListHead (set_refs n r s) = freeListHead s" "freeListNext (set_refs n r s) = freeListNext s" "fl_threads (set_refs n r s) = fl_threads s"
  "fl_owner (set_refs n r s) = fl_owner s" "fl_count (set_refs n r s) m = (if m = n then refs_count r else fl_count s m)"
  "fl_flag (set_refs n r s) m = (if m = n then refs_flag r else fl_flag s m)"
  by (simp_all add: set_refs_def fl_count_def fl_flag_def)

lemma fl_pc_ok_cong: "freeListNext s1 = freeListNext s \<Longrightarrow> fl_pc_ok s1 pc = fl_pc_ok s pc"
  by (cases pc) simp_all

lemma fl_none [simp]:
  "fl_holds (get_loop h) n = 0" "fl_late (get_loop h) n = 0" "fl_early (get_loop h) n = 0" "fl_pc_ok s (get_loop h)"
  "fl_holds (returning k) n = 0" "fl_late (returning k) n = 0" "fl_early (returning k) n = 0" "fl_pc_ok s (returning k)"
  by (auto simp: get_loop_def returning_def split: option.splits return_to.splits)

text \<open>A step that moves only the counts of one node.\<close>

lemma fl_inv_refs:
  assumes "fl_inv k L s" and "i < k" and "fl_pc_ok s pc"
    and "\<And>m. m \<noteq> n \<Longrightarrow> fl_holds pc m = fl_holds (fl_threads s ! i) m \<and> fl_late pc m = fl_late (fl_threads s ! i) m \<and>
      fl_early pc m = fl_early (fl_threads s ! i) m"
    and "refs_count r - fl_holds pc n = fl_count s n - fl_holds (fl_threads s ! i) n"
    and "fl_late pc n + of_bool (refs_flag r) = fl_late (fl_threads s ! i) n + (of_bool (fl_flag s n) :: int)"
    and "of_bool (refs_flag r \<and> refs_count r = 0) - fl_early pc n = of_bool (fl_flag s n \<and> fl_count s n = 0) - fl_early (fl_threads s ! i) n"
  shows "fl_inv k L (fl_at i pc (set_refs n r s))"
proof (rule fl_inv_step [OF assms(1,2)])
  show "fl_pc_ok (set_refs n r s) pc" using assms(3) by (simp add: fl_pc_ok_cong [of "set_refs n r s" s])
  show "fl_pc_ok (set_refs n r s) (fl_threads s ! j)" if "j < k" for j using assms(1) that by (simp add: fl_inv_def fl_pc_ok_cong [of "set_refs n r s" s])
  show "fl_count (set_refs n r s) m - of_bool (m \<in> set L) - fl_holds pc m = fl_count s m - of_bool (m \<in> set L) - fl_holds (fl_threads s ! i) m" for m
    using assms(4) [of m] assms(5) by (cases "m = n") auto
  show "of_bool (m \<in> set L) + fl_late pc m + of_bool (fl_owner (set_refs n r s) m \<noteq> None) + of_bool (fl_flag (set_refs n r s) m) =
      of_bool (m \<in> set L) + fl_late (fl_threads s ! i) m + of_bool (fl_owner s m \<noteq> None) + (of_bool (fl_flag s m) :: int)" for m
    using assms(4) [of m] assms(6) by (cases "m = n") auto
  show "of_bool (fl_flag (set_refs n r s) m \<and> fl_count (set_refs n r s) m = 0) - fl_early pc m =
      of_bool (fl_flag s m \<and> fl_count s m = 0) - fl_early (fl_threads s ! i) m" for m
    using assms(4) [of m] assms(7) by (cases "m = n") simp_all
qed (use assms(1) in \<open>simp_all add: fl_inv_def\<close>)

lemma fl_inv_list: "fl_inv k L s \<Longrightarrow> distinct L" "fl_inv k L s \<Longrightarrow> fl_chain (freeListNext s) (freeListHead s) L"
  by (simp_all add: fl_inv_def)

lemma fl_inv_pcs: "fl_inv k L s \<Longrightarrow> j < k \<Longrightarrow> fl_pc_ok s (fl_threads s ! j)"
  by (simp add: fl_inv_def)

lemma fl_AddRef_inv:
  assumes inv: "fl_inv k L s" and i: "i < k" and AddRef: "fl_threads s ! i = AddRef n"
  shows "\<exists>s' L'. fl_step i (fl_threads s ! i) s = Inr s' \<and> fl_inv k L' s'"
proof -
  note late = fl_facts(2) [OF inv i] and moved = fl_inv_refs [OF inv i] and cnt = fl_count_def fl_flag_def
  have f: "\<not> fl_flag s n" using late [of n] AddRef by simp
  then have r: "refs_count (freeListRefs s n + SHOULD_BE_ON_FREELIST) = fl_count s n" "refs_flag (freeListRefs s n + SHOULD_BE_ON_FREELIST)"
    using refs_set [of "freeListRefs s n" 0] refs_bounds(1) [of "freeListRefs s n"] by (simp_all add: cnt)
  have "fl_inv k L (fl_at i (if freeListRefs s n = 0 then LoadHead n FromAdd else FIdle None) (set_refs n (freeListRefs s n + SHOULD_BE_ON_FREELIST) s))"
    by (rule moved) (use AddRef f r in \<open>auto simp: refs_eq cnt\<close>)
  then show ?thesis using AddRef by (auto simp: Let_def)
qed

lemma fl_StoreNext_inv:
  assumes inv: "fl_inv k L s" and i: "i < k" and StoreNext: "fl_threads s ! i = StoreNext n h c"
  shows "\<exists>s' L'. fl_step i (fl_threads s ! i) s = Inr s' \<and> fl_inv k L' s'"
proof -
  note L = fl_inv_list [OF inv] and ok = fl_inv_pcs [OF inv] and early = fl_facts(1) [OF inv i]
  let ?s = "s\<lparr>freeListNext := (freeListNext s)(n := h)\<rparr>"
  have n: "fl_count s n = 0" "n \<notin> set L" "1 \<le> fl_early (fl_threads s ! i) n" using early [of n] StoreNext by simp_all
  have "fl_inv k L (fl_at i (StoreRefs n h c) ?s)"
  proof (rule fl_inv_step [OF inv i _ L(1)])
    show "fl_chain (freeListNext ?s) (freeListHead ?s) L"
      using L(2) n(2) by (subst fl_chain_cong [of L _ "freeListNext s"]) auto
    show "fl_pc_ok ?s (fl_threads s ! j)" if j: "j < k" "j \<noteq> i" for j
      using ok [OF j(1)] fl_facts(3) [OF inv j(1), of n] n fl_facts(5) [OF inv i j n(3)] by (cases "fl_threads s ! j") (auto split: if_splits)
  qed (use StoreNext in \<open>simp_all add: fl_count_def fl_flag_def\<close>)
  then show ?thesis using StoreNext by auto
qed

lemma fl_SwapHead_inv:
  assumes inv: "fl_inv k L s" and i: "i < k" and SwapHead: "fl_threads s ! i = SwapHead n h c"
  shows "\<exists>s' L'. fl_step i (fl_threads s ! i) s = Inr s' \<and> fl_inv k L' s'"
proof -
  note L = fl_inv_list [OF inv] and ok = fl_inv_pcs [OF inv] and late = fl_facts(2) [OF inv i] and stays = fl_inv_step [OF inv i _ fl_inv_list(1) [OF inv] _ fl_inv_pcs [OF inv]]
  have n: "n \<notin> set L" "fl_owner s n = None" "\<not> fl_flag s n" using late [of n] SwapHead by simp_all
  show ?thesis
  proof (cases "freeListHead s = h")
    case True
    have "fl_inv k (n # L) (fl_at i (returning c) (s\<lparr>freeListHead := Some n\<rparr>))"
      by (rule fl_inv_step [OF inv i])
        (use SwapHead n L ok True ok [OF i] in \<open>auto simp: fl_count_def fl_flag_def fl_pc_ok_cong [of "s\<lparr>freeListHead := Some n\<rparr>" s]\<close>)
    then show ?thesis using SwapHead True by auto
  next
    case False
    have "fl_inv k L (fl_at i (Requeue n (freeListHead s) c) s)" by (rule stays) (use SwapHead L in simp_all)
    then show ?thesis using SwapHead False by auto
  qed
qed

lemma fl_Requeue_inv:
  assumes inv: "fl_inv k L s" and i: "i < k" and Requeue: "fl_threads s ! i = Requeue n h c"
  shows "\<exists>s' L'. fl_step i (fl_threads s ! i) s = Inr s' \<and> fl_inv k L' s'"
proof -
  note late = fl_facts(2) [OF inv i] and holds = fl_facts(3) [OF inv i] and moved = fl_inv_refs [OF inv i] and cnt = fl_count_def fl_flag_def
  have f: "\<not> fl_flag s n" "1 \<le> fl_count s n" using late [of n] holds [of n] Requeue by (auto simp: of_bool_def split: if_splits)
  then have r: "refs_count (freeListRefs s n + (SHOULD_BE_ON_FREELIST - 1)) = fl_count s n - 1" "refs_flag (freeListRefs s n + (SHOULD_BE_ON_FREELIST - 1))"
    using refs_set [of "freeListRefs s n" 1] by (simp_all add: cnt)
  have "fl_inv k L (fl_at i (if freeListRefs s n = 1 then StoreNext n h c else returning c) (set_refs n (freeListRefs s n + (SHOULD_BE_ON_FREELIST - 1)) s))"
    by (rule moved) (use Requeue f r in \<open>auto simp: refs_eq cnt\<close>)
  then show ?thesis using Requeue by (auto simp: Let_def)
qed

lemma fl_IncRefs_inv:
  assumes inv: "fl_inv k L s" and i: "i < k" and IncRefs: "fl_threads s ! i = IncRefs h r" and k: "2 * int k + 2 < 2 ^ 31"
  shows "\<exists>s' L'. fl_step i (fl_threads s ! i) s = Inr s' \<and> fl_inv k L' s'"
proof -
  note L = fl_inv_list [OF inv] and ok = fl_inv_pcs [OF inv] and moved = fl_inv_refs [OF inv i] and stays = fl_inv_step [OF inv i _ fl_inv_list(1) [OF inv] _ fl_inv_pcs [OF inv]] and cnt = fl_count_def fl_flag_def
  show ?thesis
  proof (cases "freeListRefs s h = r")
    case True
    have "fl_count s h \<noteq> 0" using ok [OF i] IncRefs True by (simp add: cnt)
    moreover have "refs_count (r + 1) = fl_count s h + 1" "refs_flag (r + 1) = fl_flag s h"
      using refs_inc [of r] fl_count_bound [OF inv, of h] k True by (simp_all add: cnt)
    moreover have "0 \<le> fl_count s h" by (simp add: cnt refs_bounds)
    ultimately have "fl_inv k L (fl_at i (GetNext h) (set_refs h (r + 1) s))" by (intro moved) (use IncRefs in auto)
    then show ?thesis using IncRefs True by auto
  next
    case False
    have "fl_inv k L (fl_at i GetHead s)" by (rule stays) (use IncRefs L in simp_all)
    then show ?thesis using IncRefs False by auto
  qed
qed

lemma fl_TakeHead_inv:
  assumes inv: "fl_inv k L s" and i: "i < k" and TakeHead: "fl_threads s ! i = TakeHead h nx"
  shows "\<exists>s' L'. fl_step i (fl_threads s ! i) s = Inr s' \<and> fl_inv k L' s'"
proof -
  note L = fl_inv_list [OF inv] and ok = fl_inv_pcs [OF inv] and stays = fl_inv_step [OF inv i _ fl_inv_list(1) [OF inv] _ fl_inv_pcs [OF inv]]
  show ?thesis
  proof (cases "freeListHead s = Some h")
    case True
    then obtain L1 where L1: "L = h # L1" using L(2) by (cases L) auto
    have "fl_inv k L1 (fl_at i (CheckTaken h) (s\<lparr>freeListHead := nx\<rparr>))"
      by (rule fl_inv_step [OF inv i])
        (use TakeHead L1 L ok True ok [OF i] in \<open>auto simp: fl_count_def fl_flag_def fl_pc_ok_cong [of "s\<lparr>freeListHead := nx\<rparr>" s]\<close>)
    then show ?thesis using TakeHead True by auto
  next
    case False
    have "fl_inv k L (fl_at i (DropOne h (freeListHead s)) s)" by (rule stays) (use TakeHead L in simp_all)
    then show ?thesis using TakeHead False by auto
  qed
qed

lemma fl_DropTwo_inv:
  assumes inv: "fl_inv k L s" and i: "i < k" and DropTwo: "fl_threads s ! i = DropTwo h"
  shows "\<exists>s' L'. fl_step i (fl_threads s ! i) s = Inr s' \<and> fl_inv k L' s'"
proof -
  note L = fl_inv_list [OF inv] and ok = fl_inv_pcs [OF inv] and late = fl_facts(2) [OF inv i] and holds = fl_facts(3) [OF inv i] and cnt = fl_count_def fl_flag_def
  let ?s = "(set_refs h (freeListRefs s h - 2) s)\<lparr>fl_owner := (fl_owner s)(h := Some i)\<rparr>"
  have f: "\<not> fl_flag s h" "h \<notin> set L" "2 \<le> fl_count s h" "fl_owner s h = None"
    using late [of h] holds [of h] DropTwo by (auto simp: of_bool_def split: if_splits)
  then have r: "refs_count (freeListRefs s h - 2) = fl_count s h - 2" "\<not> refs_flag (freeListRefs s h - 2)"
    using refs_dec [of 2 "freeListRefs s h"] by (simp_all add: cnt)
  have c: "fl_count ?s m = (if m = h then fl_count s h - 2 else fl_count s m)" "fl_flag ?s m = fl_flag s m" for m
    using r f by (auto simp: fl_count_def fl_flag_def set_refs_def)
  have "fl_inv k L (fl_at i (FIdle (Some h)) ?s)"
    by (rule fl_inv_step [OF inv i])
      (use DropTwo L ok f c in \<open>auto simp: fl_pc_ok_cong [of ?s s]\<close>)
  then show ?thesis using DropTwo by auto
qed

lemma fl_DropOne_inv:
  assumes inv: "fl_inv k L s" and i: "i < k" and DropOne: "fl_threads s ! i = DropOne h head"
  shows "\<exists>s' L'. fl_step i (fl_threads s ! i) s = Inr s' \<and> fl_inv k L' s'"
proof -
  note holds = fl_facts(3) [OF inv i] and moved = fl_inv_refs [OF inv i] and cnt = fl_count_def fl_flag_def
  have f: "1 \<le> fl_count s h" using holds [of h] DropOne by (auto simp: of_bool_def split: if_splits)
  then have r: "refs_count (freeListRefs s h - 1) = fl_count s h - 1" "refs_flag (freeListRefs s h - 1) = fl_flag s h"
    using refs_dec [of 1 "freeListRefs s h"] by (simp_all add: cnt)
  have "fl_inv k L (fl_at i (if freeListRefs s h = SHOULD_BE_ON_FREELIST + 1 then LoadHead h (FromGet head) else get_loop head) (set_refs h (freeListRefs s h - 1) s))"
    by (rule moved) (use DropOne f r in \<open>auto simp: refs_eq cnt\<close>)
  then show ?thesis using DropOne by (auto simp: Let_def)
qed

lemma fl_step_inv:
  assumes inv: "fl_inv k L s" and i: "i < k" and k: "2 * int k + 2 < 2 ^ 31"
  shows "\<exists>s' L'. fl_step i (fl_threads s ! i) s = Inr s' \<and> fl_inv k L' s'"
proof -
  note L = fl_inv_list [OF inv] and ok = fl_inv_pcs [OF inv] and early = fl_facts(1) [OF inv i] and late = fl_facts(2) [OF inv i] and moved = fl_inv_refs [OF inv i] and stays = fl_inv_step [OF inv i _ fl_inv_list(1) [OF inv] _ fl_inv_pcs [OF inv]] and cnt = fl_count_def fl_flag_def
  show ?thesis
  proof (cases "fl_threads s ! i")
    case (FIdle r)
    then show ?thesis using inv by auto
  next
    case (LoadHead n c)
    have "fl_inv k L (fl_at i (StoreNext n (freeListHead s) c) s)" by (rule stays) (use LoadHead L in simp_all)
    then show ?thesis using LoadHead by auto
  next
    case (StoreRefs n h c)
    have f: "fl_flag s n" "fl_count s n = 0" using early [of n] StoreRefs by simp_all
    have "fl_inv k L (fl_at i (SwapHead n h c) (set_refs n 1 s))"
      by (rule moved) (use StoreRefs f ok [OF i] in auto)
    then show ?thesis using StoreRefs by auto
  next
    case GetHead
    have "fl_inv k L (fl_at i (get_loop (freeListHead s)) s)" by (rule stays) (use GetHead L in simp_all)
    then show ?thesis using GetHead by auto
  next
    case (GetRefs h)
    have "fl_inv k L (fl_at i (if freeListRefs s h AND REFS_MASK = 0 then fl_pc.GetHead else IncRefs h (freeListRefs s h)) s)"
      by (rule stays) (use GetRefs L in \<open>simp_all add: refs_masked\<close>)
    then show ?thesis using GetRefs by (auto simp: Let_def)
  next
    case (GetNext h)
    have "fl_inv k L (fl_at i (TakeHead h (freeListNext s h)) s)" by (rule stays) (use GetNext L in simp_all)
    then show ?thesis using GetNext by auto
  next
    case (CheckTaken h)
    have "\<not> fl_flag s h" using late [of h] CheckTaken by simp
    moreover have "fl_inv k L (fl_at i (DropTwo h) s)" by (rule stays) (use CheckTaken L in simp_all)
    ultimately show ?thesis using CheckTaken by (auto simp: refs_masked cnt)
  qed (use fl_AddRef_inv [OF inv i] fl_StoreNext_inv [OF inv i] fl_SwapHead_inv [OF inv i] fl_Requeue_inv [OF inv i] fl_IncRefs_inv [OF inv i] fl_TakeHead_inv [OF inv i] fl_DropTwo_inv [OF inv i] fl_DropOne_inv [OF inv i] k in \<open>blast+\<close>)
qed

lemma fl_call_inv:
  assumes inv: "fl_inv k L s" and i: "i < k" and idle: "fl_threads s ! i = FIdle r"
  shows "fl_owner s n = Some i \<Longrightarrow> fl_inv k L (fl_add i n s)" "fl_inv k L (fl_try_get i s)"
proof -
  note L = fl_inv_list [OF inv] and ok = fl_inv_pcs [OF inv]
  let ?s = "s\<lparr>fl_owner := (fl_owner s)(n := None)\<rparr>"
  show "fl_inv k L (fl_add i n s)" if "fl_owner s n = Some i"
    unfolding fl_add_def
    by (rule fl_inv_step [OF inv i]) (use idle that L ok in \<open>auto simp: fl_count_def fl_flag_def fl_pc_ok_cong [of ?s s]\<close>)
  show "fl_inv k L (fl_try_get i s)"
    unfolding fl_try_get_def by (rule fl_inv_step [OF inv i _ L(1) _ ok]) (use idle L in simp_all)
qed

lemma fl_reach_inv:
  assumes "2 * int k + 2 < 2 ^ 31"
  shows "fl_reach k s \<Longrightarrow> \<exists>L. fl_inv k L s"
proof (induction rule: fl_reach.induct)
  case (start own)
  have "fl_inv k [] (newFreeList k own)"
    by (simp add: fl_inv_def newFreeList_def fl_total_def fl_count_def fl_flag_def sum_list_replicate)
  then show ?case ..
next
  case (give s n i j)
  then obtain L where L: "fl_inv k L s" by blast
  let ?s = "s\<lparr>fl_owner := (fl_owner s)(n := Some j)\<rparr>"
  have "fl_pc_ok ?s pc = fl_pc_ok s pc" for pc by (rule fl_pc_ok_cong) simp
  moreover have "(fl_owner ?s m \<noteq> None) = (fl_owner s m \<noteq> None)" for m using give.hyps(2) by simp
  moreover have "fl_count ?s = fl_count s" "fl_flag ?s = fl_flag s" "fl_total f ?s = fl_total f s" for f
    by (simp_all add: fun_eq_iff fl_count_def fl_flag_def fl_total_def)
  ultimately have "fl_inv k L ?s" using L unfolding fl_inv_def by simp
  then show ?case ..
next
  case (step s i s')
  then show ?case using fl_step_inv [OF _ step.hyps(2) assms] by fastforce
qed (use fl_call_inv in blast)+

text \<open>A run of steps of the given threads.\<close>

fun fl_run :: "tid list \<Rightarrow> FreeList \<Rightarrow> FreeList res" where
  "fl_run [] s = Inr s"
| "fl_run (i # is) s = bindE (fl_step i (fl_threads s ! i) s) (fl_run is)"

lemma fl_run_reach: "fl_reach k s \<Longrightarrow> \<forall>i \<in> set is. i < k \<Longrightarrow> fl_run is s = Inr s' \<Longrightarrow> fl_reach k s'"
  by (induction "is" arbitrary: s) (auto simp: bindE_eq_Inr intro: fl_reach.step)

section \<open>Properties\<close>

text \<open>
  C17: the free list under contention. For any number of threads below \<open>2 ^ 30\<close> that add nodes they own and take
  nodes, in every order of their atomic steps: the assertion of \<open>try_get\<close> holds; from the head the nodes
  hang together without a repetition; a node on the list has no owner; a node that a thread is putting on
  the list or has just taken off it is not on the list, has no owner and is in no other thread's
  hands, so no node is ever given to two threads; and when no call is running no node is lost: it is
  on the list, with the count one, or it has its owner and the count zero.
\<close>

theorem free_list_safe:
  assumes "fl_reach k s" and "k < 2 ^ 30 - 1"
  shows "\<exists>L. fl_chain (freeListNext s) (freeListHead s) L \<and> distinct L \<and>
    (\<forall>i < k. \<exists>s'. fl_step i (fl_threads s ! i) s = Inr s') \<and>
    (\<forall>n. n \<in> set L \<longrightarrow> fl_owner s n = None) \<and>
    (\<forall>i < k. \<forall>n. fl_early (fl_threads s ! i) n + fl_late (fl_threads s ! i) n > 0 \<longrightarrow> n \<notin> set L \<and> fl_owner s n = None \<and>
       (\<forall>j < k. j \<noteq> i \<longrightarrow> fl_early (fl_threads s ! j) n + fl_late (fl_threads s ! j) n = 0)) \<and>
    ((\<forall>i < k. \<exists>r. fl_threads s ! i = FIdle r) \<longrightarrow>
       (\<forall>n. (n \<in> set L) = (fl_owner s n = None) \<and> freeListRefs s n = of_bool (n \<in> set L)))"
proof -
  have k: "2 * int k + 2 < 2 ^ 31" using assms(2) by simp
  from fl_reach_inv [OF k assms(1)] obtain L where L: "fl_inv k L s" by auto
  have e2: "of_bool (n \<in> set L) + fl_total fl_late s n + of_bool (fl_owner s n \<noteq> None) + of_bool (fl_flag s n) = (1 :: int)"
    and e1: "fl_count s n = of_bool (n \<in> set L) + fl_total fl_holds s n"
    and e3: "fl_total fl_early s n = of_bool (fl_flag s n \<and> fl_count s n = 0)" for n
    using L by (simp_all add: fl_inv_def)
  have own: "fl_owner s n = None" if "n \<in> set L" for n
  proof -
    have "0 \<le> fl_total fl_late s n" unfolding fl_total_def by (intro sum_list_nonneg) (auto simp: fl_nonneg)
    then show ?thesis using e2 [of n] that by (auto simp: of_bool_def split: if_splits)
  qed
  have busy: "n \<notin> set L \<and> fl_owner s n = None \<and> (\<forall>j < k. j \<noteq> i \<longrightarrow> fl_early (fl_threads s ! j) n + fl_late (fl_threads s ! j) n = 0)"
    if "i < k" "fl_early (fl_threads s ! i) n + fl_late (fl_threads s ! i) n > 0" for i n
  proof -
    have "1 \<le> fl_early (fl_threads s ! i) n \<or> 1 \<le> fl_late (fl_threads s ! i) n"
      using that(2) fl_nonneg(2,3) [of "fl_threads s ! i" n] by linarith
    then show ?thesis using fl_facts(1,2) [OF L that(1), of n] fl_facts(5,6) [OF L that(1), where n = n] by (metis add.right_neutral)
  qed
  have rest: "(n \<in> set L) = (fl_owner s n = None) \<and> freeListRefs s n = of_bool (n \<in> set L)"
    if idle: "\<forall>i < k. \<exists>r. fl_threads s ! i = FIdle r" for n
  proof -
    have len: "length (fl_threads s) = k" using L by (simp add: fl_inv_def)
    have t: "fl_total f s n = 0" if "\<And>r. f (FIdle r) n = 0" for f
    proof -
      have "map (\<lambda>pc. f pc n) (fl_threads s) = map (\<lambda>pc. 0) (fl_threads s)"
        using idle that len by (intro map_cong) (auto simp: in_set_conv_nth)
      then show ?thesis unfolding fl_total_def by (simp only: sum_list_0)
    qed
    have "\<not> fl_flag s n" using e1 [of n] e2 [of n] e3 [of n] t [of fl_holds] t [of fl_late] t [of fl_early]
      by (auto simp: of_bool_def split: if_splits)
    then show ?thesis
      using e1 [of n] e2 [of n] t [of fl_holds] t [of fl_late] by (auto simp: refs_eq fl_count_def fl_flag_def of_bool_def split: if_splits)
  qed
  show ?thesis
    by (intro exI [of _ L] conjI) (use fl_inv_list [OF L] fl_step_inv [OF L _ k] own busy rest in blast)+
qed

theorem free_list_safe_witness:
  "\<exists>s L. fl_run [0, 0, 0, 0, 0] (fl_add 0 5 (newFreeList 2 (\<lambda>_. 0))) = Inr s \<and>
     fl_chain (freeListNext s) (freeListHead s) L \<and> (\<forall>n. (n \<in> set L) = (fl_owner s n = None)) \<and> fl_owner s 5 = None"
proof -
  let ?s = "fl_add 0 5 (newFreeList 2 (\<lambda>_. 0))"
  obtain s where s: "fl_run [0, 0, 0, 0, 0] ?s = Inr s" "fl_owner s 5 = None" "fl_threads s = [FIdle None, FIdle None]"
    by (simp add: fl_add_def newFreeList_def fl_at_def set_refs_def returning_def numeral_2_eq_2)
  have "fl_reach 2 ?s" by (rule fl_reach.add [OF fl_reach.start, where r = None]) (simp_all add: newFreeList_def)
  then have "fl_reach 2 s" by (rule fl_run_reach [OF _ _ s(1)]) simp
  from free_list_safe [OF this] obtain L where
    "fl_chain (freeListNext s) (freeListHead s) L" "(\<forall>i < 2. \<exists>r. fl_threads s ! i = FIdle r) \<longrightarrow>
       (\<forall>n. (n \<in> set L) = (fl_owner s n = None) \<and> freeListRefs s n = of_bool (n \<in> set L))" by auto
  moreover have "\<forall>i < 2. \<exists>r. fl_threads s ! i = FIdle r" by (auto simp: s(3) less_2_cases_iff)
  ultimately show ?thesis using s by blast
qed

end
