(* ===== verification/BlockPool.thy ===== *)
theory BlockPool
  imports FreeList
begin

text \<open>
  \<open>submodules/concurrentqueue/concurrentqueue.h\<close>, where the producers get their blocks (\<open>requisition_block\<close>): from the initial pool, from the free list
  or from the heap. Blocks are numbered: those of the initial pool first, then the others in the order of their creation. The owner of a block that
  was never handed out is the number of threads, which is no thread. Each atomic operation is one step of its thread.
\<close>

section \<open>Operations\<close>

text \<open>Where a thread is: back from a call, in \<open>try_get_block_from_initial_pool\<close>, in a call to the free list, or about to allocate.\<close>

datatype bp_pc = BIdle "node option" | BLoad | BFetch | BFree | BCreate | BAdd

record BlockPool =
  initialBlockPoolSize :: nat
  initialBlockPoolIndex :: nat
  bp_next :: node
  bp_freeList :: FreeList
  bp_pcs :: "bp_pc list"

definition populate_initial_block_list :: "bool \<Rightarrow> nat \<Rightarrow> nat \<Rightarrow> BlockPool" where
  "populate_initial_block_list alloc blockCount k =
     (let size = (if blockCount = 0 \<or> \<not> alloc then 0 else blockCount) in
      \<lparr>initialBlockPoolSize = size, initialBlockPoolIndex = 0, bp_next = size, bp_freeList = newFreeList k (\<lambda>_. k), bp_pcs = replicate k (BIdle None)\<rparr>)"

definition bp_at :: "tid \<Rightarrow> bp_pc \<Rightarrow> BlockPool \<Rightarrow> BlockPool" where
  "bp_at i pc s = s\<lparr>bp_pcs := (bp_pcs s)[i := pc]\<rparr>"

definition bp_give :: "tid \<Rightarrow> node \<Rightarrow> BlockPool \<Rightarrow> BlockPool" where
  "bp_give i n s = s\<lparr>bp_freeList := (bp_freeList s)\<lparr>fl_owner := (fl_owner (bp_freeList s))(n := Some i)\<rparr>\<rparr>"

definition try_free_list :: "tid \<Rightarrow> BlockPool \<Rightarrow> BlockPool" where
  "try_free_list i s = bp_at i BFree (s\<lparr>bp_freeList := fl_try_get i (bp_freeList s)\<rparr>)"

text \<open>One step of a call; \<open>alloc\<close> tells whether memory is there, or, for \<open>CannotAlloc\<close>, is \<open>False\<close>.\<close>

fun bp_step :: "tid \<Rightarrow> bool \<Rightarrow> bp_pc \<Rightarrow> BlockPool \<Rightarrow> BlockPool res" where
  "bp_step i alloc (BIdle r) s = Inr s"
| "bp_step i alloc BLoad s = Inr (if initialBlockPoolSize s \<le> initialBlockPoolIndex s then try_free_list i s else bp_at i BFetch s)"
| "bp_step i alloc BFetch s =
     (let index = initialBlockPoolIndex s; s1 = s\<lparr>initialBlockPoolIndex := index + 1\<rparr> in
      Inr (if index < initialBlockPoolSize s then bp_at i (BIdle (Some index)) (bp_give i index s1) else try_free_list i s1))"
| "bp_step i alloc BFree s =
     (case fl_threads (bp_freeList s) ! i of
        FIdle (Some n) \<Rightarrow> Inr (bp_at i (BIdle (Some n)) s)
      | FIdle None \<Rightarrow> Inr (bp_at i BCreate s)
      | pc \<Rightarrow> bindE (fl_step i pc (bp_freeList s)) (\<lambda>fl. Inr (s\<lparr>bp_freeList := fl\<rparr>)))"
| "bp_step i alloc BCreate s =
     Inr (if alloc then bp_at i (BIdle (Some (bp_next s))) (bp_give i (bp_next s) (s\<lparr>bp_next := bp_next s + 1\<rparr>)) else bp_at i (BIdle None) s)"
| "bp_step i alloc BAdd s =
     (case fl_threads (bp_freeList s) ! i of
        FIdle r \<Rightarrow> Inr (bp_at i (BIdle None) s)
      | pc \<Rightarrow> bindE (fl_step i pc (bp_freeList s)) (\<lambda>fl. Inr (s\<lparr>bp_freeList := fl\<rparr>)))"

definition requisition_block :: "tid \<Rightarrow> BlockPool \<Rightarrow> BlockPool" where
  "requisition_block i s = bp_at i BLoad s"

definition add_block_to_free_list :: "tid \<Rightarrow> node \<Rightarrow> BlockPool \<Rightarrow> BlockPool" where
  "add_block_to_free_list i n s = bp_at i BAdd (s\<lparr>bp_freeList := fl_add i n (bp_freeList s)\<rparr>)"

text \<open>
  What \<open>k\<close> threads can reach that give back only blocks they own; once the call that got it has returned, a block may be passed on with the
  elements in it.
\<close>

inductive bp_reach :: "nat \<Rightarrow> BlockPool \<Rightarrow> bool" for k where
  start: "bp_reach k (populate_initial_block_list alloc blockCount k)"
| get: "bp_reach k s \<Longrightarrow> i < k \<Longrightarrow> bp_pcs s ! i = BIdle r \<Longrightarrow> bp_reach k (requisition_block i s)"
| put: "bp_reach k s \<Longrightarrow> i < k \<Longrightarrow> bp_pcs s ! i = BIdle r \<Longrightarrow> fl_owner (bp_freeList s) n = Some i \<Longrightarrow> bp_reach k (add_block_to_free_list i n s)"
| pass: "bp_reach k s \<Longrightarrow> i < k \<Longrightarrow> j < k \<Longrightarrow> fl_owner (bp_freeList s) n = Some i \<Longrightarrow>
    \<not> (bp_pcs s ! i = BFree \<and> fl_threads (bp_freeList s) ! i = FIdle (Some n)) \<Longrightarrow> bp_reach k (bp_give j n s)"
| step: "bp_reach k s \<Longrightarrow> i < k \<Longrightarrow> bp_step i alloc (bp_pcs s ! i) s = Inr s' \<Longrightarrow> bp_reach k s'"

section \<open>Blocks that were never handed out\<close>

definition bp_inv :: "nat \<Rightarrow> BlockPool \<Rightarrow> bool" where
  "bp_inv k s \<longleftrightarrow> fl_reach k (bp_freeList s) \<and> length (bp_pcs s) = k \<and> initialBlockPoolSize s \<le> bp_next s \<and>
     (\<forall>n. initialBlockPoolIndex s \<le> n \<and> n < initialBlockPoolSize s \<or> bp_next s \<le> n \<longrightarrow> fl_owner (bp_freeList s) n = Some k) \<and>
     (\<forall>i < k. bp_pcs s ! i \<noteq> BFree \<longrightarrow> bp_pcs s ! i \<noteq> BAdd \<longrightarrow> (\<exists>r. fl_threads (bp_freeList s) ! i = FIdle r)) \<and>
     (\<forall>i < k. \<forall>n. bp_pcs s ! i = BFree \<longrightarrow> fl_threads (bp_freeList s) ! i = FIdle (Some n) \<longrightarrow> fl_owner (bp_freeList s) n = Some i)"

text \<open>A step of the free list touches no block whose owner is outside of it.\<close>

lemma fl_step_owner:
  assumes "fl_step i pc s = Inr s'" and "fl_owner s n = Some k" and "\<And>h. pc = DropTwo h \<Longrightarrow> fl_owner s h = None"
  shows "fl_owner s' n = Some k"
  using assms by (cases pc) (auto simp: fl_at_def set_refs_def Let_def assertE_eq_Inr)

lemma fl_step_others: "fl_step i pc s = Inr s' \<Longrightarrow> j \<noteq> i \<Longrightarrow> fl_threads s' ! j = fl_threads s ! j"
  by (cases pc) (auto simp: fl_at_def set_refs_def Let_def assertE_eq_Inr)

lemma dropping_unowned:
  assumes "fl_reach k s" and "k < 2 ^ 30 - 1" and "i < k" and "fl_threads s ! i = DropTwo h"
  shows "fl_owner s h = None"
proof -
  have k: "2 * int k + 2 < 2 ^ 31" using assms(2) by simp
  from fl_reach_inv [OF k assms(1)] obtain L where L: "fl_inv k L s" by auto
  have e: "of_bool (h \<in> set L) + fl_total fl_late s h + of_bool (fl_owner s h \<noteq> None) + of_bool (fl_flag s h) = (1 :: int)"
    and len: "length (fl_threads s) = k" using L by (simp_all add: fl_inv_def)
  have "fl_late (fl_threads s ! i) h \<le> fl_total fl_late s h" by (rule fl_total_ge) (use len assms(3) in \<open>simp_all add: fl_nonneg\<close>)
  then show ?thesis using e assms(4) by (cases "fl_owner s h") (auto simp: of_bool_def split: if_splits)
qed

lemma fl_step_got: "fl_step i pc s = Inr s' \<Longrightarrow> i < length (fl_threads s) \<Longrightarrow> \<forall>r. pc \<noteq> FIdle r \<Longrightarrow> fl_threads s' ! i = FIdle (Some n) \<Longrightarrow> fl_owner s' n = Some i"
  by (cases pc) (auto simp: fl_at_def set_refs_def Let_def assertE_eq_Inr get_loop_def returning_def split: if_splits return_to.splits option.splits)

lemma fl_length: "fl_reach k s \<Longrightarrow> k < 2 ^ 30 - 1 \<Longrightarrow> length (fl_threads s) = k"
  using fl_reach_inv [of k s] by (auto simp: fl_inv_def)

lemma bp_invD:
  assumes "bp_inv k s"
  shows "fl_reach k (bp_freeList s)" "length (bp_pcs s) = k" "initialBlockPoolSize s \<le> bp_next s"
    "initialBlockPoolIndex s \<le> n \<Longrightarrow> n < initialBlockPoolSize s \<Longrightarrow> fl_owner (bp_freeList s) n = Some k"
    "bp_next s \<le> n \<Longrightarrow> fl_owner (bp_freeList s) n = Some k"
    "i < k \<Longrightarrow> bp_pcs s ! i \<noteq> BFree \<Longrightarrow> bp_pcs s ! i \<noteq> BAdd \<Longrightarrow> \<exists>r. fl_threads (bp_freeList s) ! i = FIdle r"
    "i < k \<Longrightarrow> bp_pcs s ! i = BFree \<Longrightarrow> fl_threads (bp_freeList s) ! i = FIdle (Some n) \<Longrightarrow> fl_owner (bp_freeList s) n = Some i"
  using assms by (auto simp: bp_inv_def)

text \<open>A call that moves without the free list, and may be given a block that was never handed out.\<close>

lemma bp_moves:
  assumes inv: "bp_inv k s" and i: "i < k" and pc: "bp_pcs s ! i \<noteq> BAdd" "\<exists>r. fl_threads (bp_freeList s) ! i = FIdle r" "pc \<noteq> BFree"
    and s1: "bp_pcs s1 = bp_pcs s" "bp_freeList s1 = bp_freeList s" "initialBlockPoolSize s1 = initialBlockPoolSize s"
      "initialBlockPoolIndex s \<le> initialBlockPoolIndex s1" "bp_next s \<le> bp_next s1"
  shows "bp_inv k (bp_at i pc s1)"
proof -
  have at: "bp_pcs (bp_at i pc s1) ! j = (if j = i then pc else bp_pcs s ! j)" for j
    using bp_invD(2) [OF inv] i s1(1) by (simp add: bp_at_def nth_list_update)
  show ?thesis
    using inv pc s1 unfolding bp_inv_def at by (auto simp: bp_at_def)
qed

lemma bp_given:
  assumes inv: "bp_inv k s" and i: "i < k" and own: "fl_owner (bp_freeList s) n = Some k"
    and n: "n < initialBlockPoolIndex s \<or> initialBlockPoolSize s \<le> n" "n < bp_next s"
  shows "bp_inv k (bp_give i n s)"
proof -
  have r: "fl_reach k (bp_freeList (bp_give i n s))" using fl_reach.give [OF bp_invD(1) [OF inv] own] by (simp add: bp_give_def)
  have "fl_owner (bp_freeList s) m = Some j \<Longrightarrow> j < k \<Longrightarrow> m \<noteq> n" for m j using own by auto
  then show ?thesis using inv r n unfolding bp_inv_def by (auto simp: bp_give_def)
qed

text \<open>Calls to the free list.\<close>

lemma bp_enter:
  assumes inv: "bp_inv k s" and i: "i < k" and len: "length (fl_threads (bp_freeList s)) = k" and fl: "fl_reach k fl" "fl_threads fl = (fl_threads (bp_freeList s))[i := q]"
    and q: "\<And>r. q \<noteq> FIdle r" and pc: "pc = BFree \<or> pc = BAdd" and own: "\<And>m j. fl_owner (bp_freeList s) m = Some j \<Longrightarrow> j \<noteq> i \<Longrightarrow> fl_owner fl m = Some j"
    and s1: "bp_pcs s1 = bp_pcs s" "initialBlockPoolSize s1 = initialBlockPoolSize s" "initialBlockPoolIndex s \<le> initialBlockPoolIndex s1" "bp_next s1 = bp_next s"
  shows "bp_inv k (bp_at i pc (s1\<lparr>bp_freeList := fl\<rparr>))"
proof -
  have at: "bp_pcs (bp_at i pc (s1\<lparr>bp_freeList := fl\<rparr>)) ! j = (if j = i then pc else bp_pcs s ! j)" for j
    using bp_invD(2) [OF inv] i s1(1) by (simp add: bp_at_def nth_list_update)
  have th: "fl_threads fl ! j = (if j = i then q else fl_threads (bp_freeList s) ! j)" for j using fl(2) i len by (simp add: nth_list_update)
  note D = bp_invD [OF inv]
  show ?thesis
    unfolding bp_inv_def at
  proof (intro conjI allI impI)
    fix n assume "initialBlockPoolIndex (bp_at i pc (s1\<lparr>bp_freeList := fl\<rparr>)) \<le> n \<and> n < initialBlockPoolSize (bp_at i pc (s1\<lparr>bp_freeList := fl\<rparr>)) \<or>
      bp_next (bp_at i pc (s1\<lparr>bp_freeList := fl\<rparr>)) \<le> n"
    then have "fl_owner (bp_freeList s) n = Some k" using D(4,5) [of n] s1 by (auto simp: bp_at_def)
    then show "fl_owner (bp_freeList (bp_at i pc (s1\<lparr>bp_freeList := fl\<rparr>))) n = Some k" using own [of n k] i by (simp add: bp_at_def)
  next
    fix j assume "j < k" "(if j = i then pc else bp_pcs s ! j) \<noteq> BFree" "(if j = i then pc else bp_pcs s ! j) \<noteq> BAdd"
    then show "\<exists>r. fl_threads (bp_freeList (bp_at i pc (s1\<lparr>bp_freeList := fl\<rparr>))) ! j = FIdle r"
      using D(6) [of j] pc th by (auto simp: bp_at_def split: if_splits)
  next
    fix j n assume "j < k" "(if j = i then pc else bp_pcs s ! j) = BFree" "fl_threads (bp_freeList (bp_at i pc (s1\<lparr>bp_freeList := fl\<rparr>))) ! j = FIdle (Some n)"
    then have "j \<noteq> i" "bp_pcs s ! j = BFree" "fl_threads (bp_freeList s) ! j = FIdle (Some n)" using q th by (auto simp: bp_at_def split: if_splits)
    then show "fl_owner (bp_freeList (bp_at i pc (s1\<lparr>bp_freeList := fl\<rparr>))) n = Some j" using D(7) [of j n] own \<open>j < k\<close> by (simp add: bp_at_def)
  qed (use fl(1) D(2,3) s1 in \<open>simp_all add: bp_at_def\<close>)
qed

lemma bp_run:
  assumes inv: "bp_inv k s" and k: "k < 2 ^ 30 - 1" and i: "i < k" and pc: "bp_pcs s ! i = BFree \<or> bp_pcs s ! i = BAdd"
    and st: "fl_step i (fl_threads (bp_freeList s) ! i) (bp_freeList s) = Inr fl" and run: "\<And>r. fl_threads (bp_freeList s) ! i \<noteq> FIdle r"
  shows "bp_inv k (s\<lparr>bp_freeList := fl\<rparr>)"
proof -
  note D = bp_invD [OF inv]
  have r: "fl_reach k fl" by (rule fl_reach.step [OF D(1) i st])
  have own: "fl_owner fl m = Some j" if "fl_owner (bp_freeList s) m = Some j" for m j
    by (rule fl_step_owner [OF st that]) (use dropping_unowned [OF D(1) k i] in simp)
  have len: "i < length (fl_threads (bp_freeList s))" using fl_length [OF D(1) k] i by simp
  show ?thesis
    unfolding bp_inv_def
  proof (intro conjI allI impI)
    fix j assume "j < k" "bp_pcs (s\<lparr>bp_freeList := fl\<rparr>) ! j \<noteq> BFree" "bp_pcs (s\<lparr>bp_freeList := fl\<rparr>) ! j \<noteq> BAdd"
    then show "\<exists>r. fl_threads (bp_freeList (s\<lparr>bp_freeList := fl\<rparr>)) ! j = FIdle r" using D(6) [of j] fl_step_others [OF st, of j] pc by (cases "j = i") auto
  next
    fix j n assume "j < k" "bp_pcs (s\<lparr>bp_freeList := fl\<rparr>) ! j = BFree" "fl_threads (bp_freeList (s\<lparr>bp_freeList := fl\<rparr>)) ! j = FIdle (Some n)"
    then show "fl_owner (bp_freeList (s\<lparr>bp_freeList := fl\<rparr>)) n = Some j"
      using D(7) [of j n] own fl_step_others [OF st, of j] fl_step_got [OF st len] run by (cases "j = i") auto
  qed (use r D(2-5) own in auto)
qed

text \<open>Every step, and what it hands out.\<close>

lemma give_at: "bp_give i n (bp_at i pc s) = bp_at i pc (bp_give i n s)" "bp_pcs (bp_give i n s) = bp_pcs s"
  "fl_owner (bp_freeList (bp_at i pc (bp_give i n s))) = (fl_owner (bp_freeList s))(n := Some i)"
  by (simp_all add: bp_give_def bp_at_def)

lemma bp_step_inv:
  assumes inv: "bp_inv k s" and k: "k < 2 ^ 30 - 1" and i: "i < k"
  shows "\<exists>s'. bp_step i alloc (bp_pcs s ! i) s = Inr s' \<and> bp_inv k s' \<and>
    (\<forall>b. bp_pcs s ! i \<noteq> BIdle (Some b) \<longrightarrow> bp_pcs s' ! i = BIdle (Some b) \<longrightarrow> fl_owner (bp_freeList s') b = Some i \<and> (\<forall>j < k. j \<noteq> i \<longrightarrow> fl_owner (bp_freeList s) b \<noteq> Some j))"
proof -
  note D = bp_invD [OF inv]
  have fl_len: "length (fl_threads (bp_freeList s)) = k" by (rule fl_length [OF D(1) k])
  have at: "bp_pcs (bp_at i pc t) ! i = pc" if "bp_pcs t = bp_pcs s" for pc t using D(2) i that by (simp add: bp_at_def)
  have idle: "\<exists>r. fl_threads (bp_freeList s) ! i = FIdle r" if "bp_pcs s ! i \<noteq> BFree" "bp_pcs s ! i \<noteq> BAdd" using D(6) [OF i that] .
  have enter: "bp_inv k (try_free_list i s1)" if a: "bp_pcs s ! i \<noteq> BFree" "bp_pcs s ! i \<noteq> BAdd" "s1 = s\<lparr>initialBlockPoolIndex := x\<rparr>" "initialBlockPoolIndex s \<le> x" for s1 x
  proof -
    obtain r where "fl_threads (bp_freeList s) ! i = FIdle r" using idle [OF a(1,2)] ..
    then have "fl_reach k (fl_try_get i (bp_freeList s))" by (rule fl_reach.get [OF D(1) i])
    then show ?thesis unfolding try_free_list_def a(3)
      using bp_enter [OF inv i fl_len, of "fl_try_get i (bp_freeList s)" GetHead BFree "s\<lparr>initialBlockPoolIndex := x\<rparr>"] a(4)
      by (simp add: fl_try_get_def fl_at_def)
  qed
  have run: "\<exists>fl. fl_step i (fl_threads (bp_freeList s) ! i) (bp_freeList s) = Inr fl"
  proof -
    have b: "2 * int k + 2 < 2 ^ 31" using k by simp
    from fl_reach_inv [OF b D(1)] obtain L where "fl_inv k L (bp_freeList s)" by auto
    from fl_step_inv [OF this i b] show ?thesis by blast
  qed
  show ?thesis
  proof (cases "bp_pcs s ! i")
    case (BIdle r)
    then show ?thesis using inv by auto
  next
    case BLoad
    have "bp_inv k (bp_at i BFetch s)" by (rule bp_moves [OF inv i]) (use BLoad idle in simp_all)
    moreover have "bp_inv k (try_free_list i s)" by (rule enter [of _ "initialBlockPoolIndex s"]) (use BLoad in simp_all)
    ultimately show ?thesis using BLoad at by (simp add: try_free_list_def)
  next
    case BFetch
    let ?n = "initialBlockPoolIndex s" and ?s = "s\<lparr>initialBlockPoolIndex := initialBlockPoolIndex s + 1\<rparr>"
    show ?thesis
    proof (cases "?n < initialBlockPoolSize s")
      case True
      have own: "fl_owner (bp_freeList s) ?n = Some k" using D(4) True by simp
      have "bp_inv k (bp_at i (BIdle (Some ?n)) ?s)" by (rule bp_moves [OF inv i]) (use BFetch idle in simp_all)
      then have "bp_inv k (bp_give i ?n (bp_at i (BIdle (Some ?n)) ?s))"
        by (rule bp_given [OF _ i]) (use own True D(3) in \<open>simp_all add: bp_at_def\<close>)
      then show ?thesis using BFetch True own at [of "bp_give i ?n ?s"] unfolding give_at(1) by (auto simp: Let_def give_at(2,3))
    next
      case False
      have "bp_inv k (try_free_list i ?s)" by (rule enter [of _ "?n + 1"]) (use BFetch in simp_all)
      then show ?thesis using BFetch False at by (simp add: Let_def try_free_list_def)
    qed
  next
    case BFree
    show ?thesis
    proof (cases "\<exists>r. fl_threads (bp_freeList s) ! i = FIdle r")
      case True
      then obtain r where r: "fl_threads (bp_freeList s) ! i = FIdle r" ..
      have "bp_inv k (bp_at i (case r of None \<Rightarrow> BCreate | Some n \<Rightarrow> BIdle (Some n)) s)"
        by (rule bp_moves [OF inv i]) (use BFree r in \<open>simp_all split: option.split\<close>)
      then show ?thesis using BFree r at D(7) [OF i BFree] by (cases r) (auto simp: bp_at_def)
    next
      case False
      obtain fl where fl: "fl_step i (fl_threads (bp_freeList s) ! i) (bp_freeList s) = Inr fl" using run ..
      have "bp_inv k (s\<lparr>bp_freeList := fl\<rparr>)" by (rule bp_run [OF inv k i _ fl]) (use BFree False in auto)
      moreover have "bp_step i alloc BFree s = Inr (s\<lparr>bp_freeList := fl\<rparr>)" using fl False by (auto split: fl_pc.split)
      ultimately show ?thesis using BFree by simp
    qed
  next
    case BCreate
    let ?n = "bp_next s" and ?s = "s\<lparr>bp_next := bp_next s + 1\<rparr>"
    have own: "fl_owner (bp_freeList s) ?n = Some k" using D(5) by simp
    have "bp_inv k (bp_at i (BIdle (Some ?n)) ?s)" by (rule bp_moves [OF inv i]) (use BCreate idle in simp_all)
    then have "bp_inv k (bp_give i ?n (bp_at i (BIdle (Some ?n)) ?s))"
      by (rule bp_given [OF _ i]) (use own D(3) in \<open>simp_all add: bp_at_def\<close>)
    moreover have "bp_inv k (bp_at i (BIdle None) s)" by (rule bp_moves [OF inv i]) (use BCreate idle in simp_all)
    ultimately show ?thesis using BCreate own at [of "bp_give i ?n ?s"] at [of s] unfolding give_at(1) by (cases alloc) (auto simp: give_at(2,3))
  next
    case BAdd
    show ?thesis
    proof (cases "\<exists>r. fl_threads (bp_freeList s) ! i = FIdle r")
      case True
      then obtain r where r: "fl_threads (bp_freeList s) ! i = FIdle r" ..
      have "bp_pcs (bp_at i (BIdle None) s) ! j = (if j = i then BIdle None else bp_pcs s ! j)" for j
        using D(2) i by (simp add: bp_at_def nth_list_update)
      then have "bp_inv k (bp_at i (BIdle None) s)" using inv r unfolding bp_inv_def by (auto simp: bp_at_def)
      then show ?thesis using BAdd r at by auto
    next
      case False
      obtain fl where fl: "fl_step i (fl_threads (bp_freeList s) ! i) (bp_freeList s) = Inr fl" using run ..
      have "bp_inv k (s\<lparr>bp_freeList := fl\<rparr>)" by (rule bp_run [OF inv k i _ fl]) (use BAdd False in auto)
      moreover have "bp_step i alloc BAdd s = Inr (s\<lparr>bp_freeList := fl\<rparr>)" using fl False by (auto split: fl_pc.split)
      ultimately show ?thesis using BAdd by simp
    qed
  qed
qed

lemma bp_reach_inv:
  assumes "k < 2 ^ 30 - 1"
  shows "bp_reach k s \<Longrightarrow> bp_inv k s"
proof (induction rule: bp_reach.induct)
  case (start alloc blockCount)
  then show ?case using fl_reach.start [of k "\<lambda>_. k"] by (auto simp: bp_inv_def populate_initial_block_list_def Let_def newFreeList_def)
next
  case (get s i r)
  show ?case unfolding requisition_block_def by (rule bp_moves [OF get.IH get.hyps(2)]) (use get bp_invD(6) [OF get.IH] in simp_all)
next
  case (put s i r n)
  obtain q where "fl_threads (bp_freeList s) ! i = FIdle q" using bp_invD(6) [OF put.IH put.hyps(2)] put.hyps(3) by auto
  then have r: "fl_reach k (fl_add i n (bp_freeList s))" by (rule fl_reach.add [OF bp_invD(1) [OF put.IH] put.hyps(2) _ put.hyps(4)])
  show ?case
    unfolding add_block_to_free_list_def
  proof (rule bp_enter [OF put.IH put.hyps(2) fl_length [OF bp_invD(1) [OF put.IH] assms] r, where q = "AddRef n"])
    fix m j assume "fl_owner (bp_freeList s) m = Some j" "j \<noteq> i"
    then have "m \<noteq> n" using put.hyps(4) by auto
    then show "fl_owner (fl_add i n (bp_freeList s)) m = Some j" using \<open>fl_owner (bp_freeList s) m = Some j\<close> by (simp add: fl_add_def fl_at_def)
  qed (simp_all add: fl_add_def fl_at_def)
next
  case (pass s i j n)
  have "fl_reach k (bp_freeList (bp_give j n s))" using fl_reach.give [OF bp_invD(1) [OF pass.IH] pass.hyps(4)] by (simp add: bp_give_def)
  moreover have "m \<noteq> n" if "initialBlockPoolIndex s \<le> m \<and> m < initialBlockPoolSize s \<or> bp_next s \<le> m" for m
    using bp_invD(4,5) [OF pass.IH, of m] pass.hyps(2,4) that by auto
  moreover have "m \<noteq> n" if "l < k" "bp_pcs s ! l = BFree" "fl_threads (bp_freeList s) ! l = FIdle (Some m)" for l m
    using bp_invD(7) [OF pass.IH that] pass.hyps(4,5) that by auto
  ultimately show ?case using pass.IH unfolding bp_inv_def by (auto simp: bp_give_def)
next
  case (step s i alloc s')
  then show ?case using bp_step_inv [OF step.IH assms step.hyps(2), of alloc] by auto
qed

text \<open>
  C18: In every order of the steps of fewer than \<open>2 ^ 30 - 1\<close> threads that ask for blocks and give back blocks they own, no step fails, and a block that
  \<open>requisition_block\<close> returns belongs to no other thread: it comes from the initial pool, the free list or the heap, and is the caller's then.
\<close>

theorem requisition_unowned:
  assumes "bp_reach k s" and "k < 2 ^ 30 - 1" and "i < k"
  shows "\<exists>s'. bp_step i alloc (bp_pcs s ! i) s = Inr s' \<and>
    (\<forall>b. bp_pcs s ! i \<noteq> BIdle (Some b) \<longrightarrow> bp_pcs s' ! i = BIdle (Some b) \<longrightarrow>
      fl_owner (bp_freeList s') b = Some i \<and> (\<forall>j < k. j \<noteq> i \<longrightarrow> fl_owner (bp_freeList s) b \<noteq> Some j))"
  using bp_step_inv [OF bp_reach_inv [OF assms(2,1)] assms(2,3)] by blast

theorem requisition_unowned_witness:
  "\<exists>s s'. bp_reach 2 s \<and> bp_step 0 True (bp_pcs s ! 0) s = Inr s' \<and> bp_pcs s' ! 0 = BIdle (Some 0) \<and> fl_owner (bp_freeList s') 0 = Some 0"
proof -
  define s0 where "s0 = requisition_block 0 (populate_initial_block_list True 1 2)"
  have r0: "bp_reach 2 s0" unfolding s0_def by (rule bp_reach.get [OF bp_reach.start, where r = None]) (simp_all add: populate_initial_block_list_def Let_def)
  have p0: "bp_pcs s0 ! 0 = BLoad" by (simp add: s0_def requisition_block_def bp_at_def populate_initial_block_list_def Let_def numeral_2_eq_2)
  have e0: "bp_step 0 True (bp_pcs s0 ! 0) s0 = Inr (bp_at 0 BFetch s0)"
    unfolding p0 by (simp add: s0_def requisition_block_def bp_at_def populate_initial_block_list_def Let_def)
  have r1: "bp_reach 2 (bp_at 0 BFetch s0)" by (rule bp_reach.step [OF r0 _ e0]) simp
  have p1: "bp_pcs (bp_at 0 BFetch s0) ! 0 = BFetch" by (simp add: s0_def requisition_block_def bp_at_def populate_initial_block_list_def Let_def numeral_2_eq_2)
  obtain s' where s': "bp_step 0 True (bp_pcs (bp_at 0 BFetch s0) ! 0) (bp_at 0 BFetch s0) = Inr s'" "bp_pcs s' ! 0 = BIdle (Some 0)"
    unfolding p1 by (simp add: s0_def requisition_block_def bp_at_def bp_give_def populate_initial_block_list_def Let_def numeral_2_eq_2)
  moreover have "fl_owner (bp_freeList s') 0 = Some 0" using requisition_unowned [OF r1, of 0 True] s' p1 by auto
  ultimately show ?thesis using r1 by blast
qed

end
