(* ===== verification/Spec2Isabelle.thy ===== *)
theory Spec2Isabelle
  imports Epoll AsyncLogging LoopTimers BlockingQueue RpcService RpcCall XmlCursor TinyStr XmlVisit ConcurrentQueue HashThreads BlockPool
begin

text \<open>
  A verification library for the RPC library under \<open>src/\<close>: a reactor in the style of muduo (\<open>base/\<close>, \<open>net/\<close>)
  with remote procedure calls on top (\<open>rpc/\<close>) and a vendored XML parser and queue (\<open>submodules/\<close>).

  \<^bold>\<open>The program.\<close> An \<open>EventLoop\<close> waits in \<open>Epoll\<close> for the descriptors of its \<open>Channel\<close>s, calls their handlers, and
  then runs the functors other threads have queued. Timers are one descriptor, armed for the earliest entry
  of the \<open>TimerQueue\<close>. An \<open>Acceptor\<close> hands new sockets to the \<open>TcpServer\<close>, a \<open>Connector\<close> opens them for the
  \<open>TcpClient\<close>; each becomes a \<open>TcpConnection\<close> with an input and an output \<open>Buffer\<close>. On the server, the loop
  puts a connection with new bytes into a blocking queue; worker threads take it out, unpack one frame with
  \<open>RpcCoder\<close>, parse the \<open>RpcMessage\<close>, call the service and send the answer through the loop. \<open>RpcService\<close>
  builds all that from a configuration file. Logging runs beside it: a line is formatted in a
  \<open>LogStream\<close>, handed over by \<open>Logger\<close>, collected by \<open>AsyncLogging\<close> and written by \<open>LogFile\<close>.

  \<^bold>\<open>Conventions.\<close> An operation that can end the process returns a value of \<^typ>\<open>'a res\<close>: a failed assertion
  (the build keeps them), a fatal log line, an uncaught exception, an exit, or undefined behaviour. \<open>runs P m\<close>
  says that \<open>m\<close> returns and its result satisfies \<open>P\<close>; theorems of that form are total. System calls, the
  protobuf runtime, the file system, clocks and user callbacks are arguments. Objects that are shared through
  pointers (timers, connections, channels) live in a map from addresses. Threads are interleaved as
  \<open>inductive\<close> step relations whose steps are critical sections or atomic operations. Machine integers have
  their width (\<open>size_t\<close> and \<open>int\<close> with their wrap-around) wherever a computation of the code can leave the range.

  \<^bold>\<open>Theories.\<close>
  \<^item> \<open>Prelude\<close>: results, \<open>runs\<close>, vectors with checked access, integer conversions, the collections of facts.
  \<^item> \<open>Endian\<close> (\<open>net/Endian.h\<close>), \<open>Buffer\<close> (\<open>net/Buffer.*\<close>): byte order and the growing buffer. The buffer refines
    a byte queue; \<open>readFd\<close> appends what was read, spilled bytes included.
  \<^item> \<open>RpcMessage\<close> (\<open>rpc/rpc.pb.*\<close>) with \<open>Protobuf_Wire\<close>, an implementation of the runtime's documented wire
    format that interprets the locale \<open>protobuf_runtime\<close>, and \<open>RpcCoder\<close> (\<open>rpc/RpcCoder.*\<close>): serializing and
    framing round trips, partial and hostile frames.
  \<^item> \<open>TimeStamp\<close> (\<open>base/TimeStamp.*\<close>, \<open>base/Atomic.h\<close>), \<open>Std_Set\<close> (the ordered sets, a locale with its
    interpretation), \<open>TimerQueue\<close> (\<open>net/Timer*\<close>): expiry, restart, cancellation, the armed descriptor.
  \<^item> \<open>Channel\<close>, \<open>Epoll\<close> (\<open>net/Channel.*\<close>, \<open>net/Poller.*\<close>, \<open>net/Epoll.*\<close>): registration refines the interest list.
  \<^item> \<open>EventLoop\<close> (\<open>net/EventLoop.*\<close>): functors and wake-up, interleaved with any number of posting threads;
    \<open>LoopTimers\<close>: the loop with its timers, added from any thread.
  \<^item> \<open>Sockets\<close> (\<open>net/InetAddress.*\<close>, \<open>net/SocketOps.*\<close>, \<open>net/Socket.*\<close>), \<open>Connector\<close>, \<open>Acceptor\<close>,
    \<open>EventLoopPool\<close> (\<open>net/EventLoopThread*\<close>): addresses, connecting with back-off, accepting, loops in turn.
  \<^item> \<open>TcpConnection\<close> (\<open>net/TcpConnection.*\<close>): ordered delivery, life cycle, shutdown after draining; \<open>Connections\<close>
    collects what its users need. \<open>TcpServer\<close>, \<open>TcpClient\<close> (\<open>rpc/TcpServer.*\<close>, \<open>rpc/TcpClient.*\<close>): the map of
    connections and the single connection with their heaps, removal and destruction.
  \<^item> \<open>RpcFrame\<close> (\<open>rpc/RpcFrame.cpp\<close>, \<open>rpc/RpcClient.*\<close>): a turn of the worker and the client's callbacks, the
    round trip of a call; \<open>RpcCall\<close> composes them with \<open>TcpClient\<close> to a whole call. \<open>BlockingQueue\<close> (\<open>rpc/ConnectionQueue.*\<close>, \<open>lightweightsemaphore.h\<close>,
    \<open>blockingconcurrentqueue.h\<close>): nothing is lost, no consumer sleeps on an element.
  \<^item> \<open>FreeList\<close>, \<open>BlockPool\<close>, \<open>ImplicitProducer\<close> with \<open>ProducerRing\<close>, \<open>ProducerBlocks\<close>, \<open>ProducerCalls\<close>, \<open>ProducerEnd\<close>,
    \<open>ProducerHash\<close> with \<open>HashThreads\<close>, and \<open>ConcurrentQueue\<close> (\<open>submodules/concurrentqueue/concurrentqueue.h\<close>): the lock-free queue below
    the blocking one. Blocks come from a pool and a reference-counted free list; each producing thread has, through a hash table that
    grows, a queue of blocks of its own with a ring of block numbers; consumers take from the fullest of the first three. Every element
    comes out once, no block has two owners, no assertion fails, whatever the order of the steps.
  \<^item> \<open>TinyXml\<close>, \<open>XmlDocument\<close>, \<open>XmlCursor\<close>, \<open>XmlReads\<close>, \<open>XmlPrint\<close>, \<open>XmlVisit\<close>, \<open>TinyStr\<close> (\<open>submodules/tinyxml\<close>), \<open>LocalConfig\<close>
    (\<open>rpc/LocalConfig.*\<close>) and \<open>RpcService\<close> (\<open>rpc/RpcService.h\<close>): parsing ends, values survive encoding, a document printed to a file or
    by a visitor is read back, the string class keeps its bytes, the configuration is read, the server comes up.
  \<^item> \<open>LogStream\<close>, \<open>Logger\<close>, \<open>LogFile\<close>, \<open>AsyncLogging\<close>, \<open>ThreadPool\<close> (\<open>base/\<close>): bounded formatting, whole lines in
    order, rolling files, no line lost between the threads, the bounded task queue.

  \<^bold>\<open>Bounds.\<close> Parsing a protobuf message takes as fuel one more than the length of the input; the XML parser two
  more than the length of the text, as every node consumes a character; both are proved to be enough for every
  input. The loops of the event loop and of the position counter of the XML parser need not end; their functions
  take a number of turns and answer \<open>None\<close> when it did not suffice. Everything else is total. Theorems on the free list and the block
  pool hold for fewer than \<open>2 ^ 30 - 1\<close> threads, as the reference counts have 31 bits; those on a producer for fewer than \<open>2 ^ 62\<close> elements
  and attempts to dequeue in its life, as its counters wrap around at \<open>2 ^ 64\<close> and are compared by their difference.

  \<^bold>\<open>Not modelled.\<close> Of the lock-free queue: orders of memory weaker than one order of all atomic steps (within a step the code
  searches or extends the ring of block numbers of a producer), producer and consumer tokens and operations on several elements at once, which the
  library does not call, and the recycling of producers, which this build leaves out. The blocking queue uses the contract of the lock-free one, not
  its steps. Editing and copying of XML documents, their handles and the error texts of tinyxml;
  the reflection part of the generated message class; exceptions thrown by user code; the text of log lines
  other than \<open>Logger\<close>'s own; \<open>getTcpInfo\<close>; the tests and examples.
\<close>

end
